(* ===== verification/Prelude.thy ===== *)
theory Prelude
  imports Main "HOL-Library.Word"
begin

text \<open>
  Shared vocabulary of the development: the machine integer types of the C sources, the errno
  values they return, the collections of simplification rules the component theories fill, and
  generic lemmas on words and lists.

  A C function that returns \<open>int\<close> with the convention "0 on success, negative errno on
  error" is modelled with result type \<open>int\<close>; the errno constants carry the values of
  \<open>errno.h\<close>.
\<close>

unbundle bit_operations_syntax

type_synonym u8 = "8 word"
type_synonym u16 = "16 word"
type_synonym u32 = "32 word"
type_synonym u64 = "64 word"

named_theorems hw_consts "values of the preprocessor constants of the sources"
named_theorems vmm_defs "definitions of the operations of the virtual memory management"

definition EPERM :: int where [hw_consts]: "EPERM = 1"
definition ENOENT :: int where [hw_consts]: "ENOENT = 2"
definition EIO :: int where [hw_consts]: "EIO = 5"
definition ENXIO :: int where [hw_consts]: "ENXIO = 6"
definition EAGAIN :: int where [hw_consts]: "EAGAIN = 11"
definition ENOMEM :: int where [hw_consts]: "ENOMEM = 12"
definition EFAULT :: int where [hw_consts]: "EFAULT = 14"
definition EBUSY :: int where [hw_consts]: "EBUSY = 16"
definition ENODEV :: int where [hw_consts]: "ENODEV = 19"
definition EINVAL :: int where [hw_consts]: "EINVAL = 22"

lemmas errno_values = EPERM_def ENOENT_def EIO_def ENXIO_def EAGAIN_def ENOMEM_def EFAULT_def
  EBUSY_def ENODEV_def EINVAL_def

subsection \<open>Words read as natural numbers\<close>

lemma unat_drop_bit: "unat (drop_bit n w) = unat w div 2 ^ n"
  by (simp add: unat_drop_bit_eq flip: drop_bit_eq_div)

lemma unat_and_mask: "unat (w AND mask n :: 'a::len word) = unat w mod 2 ^ n"
  by (simp add: unsigned_take_bit_eq flip: take_bit_eq_mask take_bit_eq_mod)

lemma unat_push_bit:
  assumes "unat w * 2 ^ n < 2 ^ LENGTH('a)"
  shows "unat (push_bit n w :: 'a::len word) = unat w * 2 ^ n"
proof -
  have "unat (push_bit n w) = take_bit LENGTH('a) (push_bit n (unat w))"
    by (rule unsigned_push_bit_eq)
  then show ?thesis using assms by (simp add: push_bit_eq_mult take_bit_nat_eq_self)
qed

text \<open>Clearing the low bits of a word rounds it down to a multiple of the power of two.\<close>

lemma and_not_mask: "w AND NOT (mask n) = push_bit n (drop_bit n (w :: 'a::len word))"
  by (rule bit_word_eqI) (auto simp: bit_and_iff bit_not_iff bit_mask_iff bit_push_bit_iff bit_drop_bit_eq)

lemma unat_and_not_mask: "unat (w AND NOT (mask n) :: 'a::len word) = unat w div 2 ^ n * 2 ^ n"
proof -
  have "unat w div 2 ^ n * 2 ^ n < 2 ^ LENGTH('a)"
    by (rule le_less_trans [OF _ unsigned_less [of w]]) simp
  then show ?thesis by (simp add: and_not_mask unat_push_bit unat_drop_bit)
qed

text \<open>A disjunction of words without a common bit is their sum.\<close>

lemma unat_or_disjoint:
  fixes a b :: "'a::len word"
  assumes "a AND b = 0" shows "unat (a OR b) = unat a + unat b"
proof -
  have "unat a AND unat b = 0"
    using assms by (metis unsigned_and_eq unsigned_0)
  then have "unat a + unat b = unat a OR unat b"
    by (rule disjunctive_add_eq_or)
  then show ?thesis by (simp add: unsigned_or_eq)
qed

lemma and_and_zero: "a AND m = 0 \<Longrightarrow> a AND (b AND m) = (0 :: 'a::len word)"
  by (simp only: and.left_commute [of a b m] and_zero_eq)

text \<open>Single bits and low masks, as the C sources write them.\<close>

lemma push_bit_1_minus_1 [simp]: "push_bit n (1 :: 'a::len word) - 1 = mask n"
  by (simp add: mask_eq_decr_exp)

lemma and_single_bit_0: "v AND push_bit n (1 :: 'a::len word) = 0 \<longleftrightarrow> \<not> bit v n"
  by (simp add: and_exp_eq_0_iff_not_bit)

lemma and_single_bit: "n < LENGTH('a) \<Longrightarrow> v AND push_bit n (1 :: 'a::len word) = push_bit n 1 \<longleftrightarrow> bit v n"
proof -
  assume n: "n < LENGTH('a)"
  have "v AND push_bit n 1 = push_bit n 1 \<longleftrightarrow> (\<forall>k < LENGTH('a). k = n \<longrightarrow> bit v k)"
    using n by (auto simp: bit_eq_iff bit_and_iff bit_exp_iff)
  then show ?thesis using n by simp
qed

lemma and_3_eq_3: "w AND 3 = (3 :: u32) \<longleftrightarrow> bit w 0 \<and> bit w 1"
proof -
  have m: "(3 :: u32) = mask 2" by (simp add: mask_eq_exp_minus_1)
  have "w AND 3 = 3 \<longleftrightarrow> (\<forall>n < 32. n < 2 \<longrightarrow> bit w n)"
    unfolding m by (auto simp: bit_eq_iff bit_and_iff bit_mask_iff)
  also have "\<dots> \<longleftrightarrow> bit w 0 \<and> bit w 1"
    by (auto simp: less_2_cases_iff dest: spec [of _ 0] spec [of _ 1])
  finally show ?thesis .
qed

lemma len32: "(6 :: nat) < LENGTH(32)" "(7 :: nat) < LENGTH(32)" "(8 :: nat) < LENGTH(32)"
  by simp_all

text \<open>The low byte of a 32-bit word.\<close>

lemma FF_eq_mask: "(255 :: u32) = mask 8"
  by (simp add: mask_eq_exp_minus_1)

lemma ucast_and_FF [simp]: "ucast (w AND 255 :: u32) = (ucast w :: u8)"
  by (rule bit_word_eqI) (auto simp: FF_eq_mask bit_ucast_iff bit_and_iff bit_mask_iff)

lemma ucast_FF_and [simp]: "ucast (255 AND w :: u32) = (ucast w :: u8)"
  by (simp add: and.commute [of 255])

lemma ucast_u8_u32_u8 [simp]: "ucast (ucast b :: u32) = (b :: u8)"
  by (rule bit_word_eqI) (auto simp: bit_ucast_iff)

lemma ucast_ucast_u32 [simp]: "(ucast (ucast w :: u64) :: u32) = w"
  by (rule bit_word_eqI) (auto simp: bit_ucast_iff)

lemma word_eq_unat: "(a :: 'a::len word) = b \<longleftrightarrow> unat a = unat b"
  by (simp add: word_unat_eq_iff)

lemma unat_of_nat_u8: "n < 256 \<Longrightarrow> unat (of_nat n :: u8) = n"
  by (simp add: unsigned_of_nat take_bit_nat_eq_self)

lemma unat_u32_lt: "unat (w :: u32) < 4294967296"
  using unsigned_less [of w, where ?'a = nat] by simp

lemma unat_u64_lt: "unat (w :: u64) < 18446744073709551616"
  using unsigned_less [of w, where ?'a = nat] by simp

subsection \<open>The C type \<open>int\<close>\<close>

text \<open>Values of type \<open>int\<close> are integers; \<open>i32\<close> is the wrap-around of their two's
  complement representation.\<close>

definition i32 :: "int \<Rightarrow> int" where "i32 x = signed_take_bit 31 x"

lemma i32_id [simp]: "- (2 ^ 31) \<le> x \<Longrightarrow> x < 2 ^ 31 \<Longrightarrow> i32 x = x"
  by (simp add: i32_def signed_take_bit_int_eq_self)

subsection \<open>Lists updated by index\<close>

lemma update_prefix:
  "n < length xs \<Longrightarrow> (map f (take n xs) @ drop n xs)[n := f ((map f (take n xs) @ drop n xs) ! n)]
     = map f (take (Suc n) xs) @ drop (Suc n) xs"
  by (simp add: nth_append list_update_append take_Suc_conv_app_nth Cons_nth_drop_Suc [symmetric, of n xs])

lemma nth_list_update_ne [simp]: "i \<noteq> j \<Longrightarrow> xs[i := x] ! j = xs ! j"
  by simp

lemma list_all_update: "list_all P xs \<Longrightarrow> P x \<Longrightarrow> list_all P (xs[i := x])"
  by (auto simp: list_all_iff dest: in_set_takeD in_set_dropD set_update_subset_insert [THEN subsetD])

end
