(* ===== verification/Pgtable.thy ===== *)
theory Pgtable
  imports Prelude
begin

text \<open>
  The page-table headers of \<open>pulp/sdk/runtime/archi-host\<close>: addresses, page frame
  numbers and the page-table entry predicates of the three host architectures a PULP
  accelerator is built for (\<open>HOST_ARCH\<close> is \<open>RISCV64\<close>, \<open>ARM64\<close> or
  \<open>ARM\<close>). Names carry the architecture as a prefix where the headers redefine them.

  A C predicate that only ever returns 0 or 1 is a \<open>bool\<close>; one that also returns a
  negative errno is an \<open>int\<close>.
\<close>

subsection \<open>Virtual addresses and pages (common to the three architectures)\<close>

type_synonym virt_addr_t = u32
type_synonym virt_pfn_t = u32

definition PAGE_SHIFT :: nat where [hw_consts]: "PAGE_SHIFT = 12"
definition PAGE_SIZE :: u32 where [hw_consts]: "PAGE_SIZE = push_bit PAGE_SHIFT 1"
definition PAGE_MASK :: u32 where "PAGE_MASK = NOT (push_bit PAGE_SHIFT 1 - 1)"

definition page_addr :: "u32 \<Rightarrow> u32" where
  "page_addr addr = addr AND PAGE_MASK"

definition virt_addr2pfn :: "virt_addr_t \<Rightarrow> virt_pfn_t" where
  "virt_addr2pfn addr = drop_bit PAGE_SHIFT addr"

definition virt_pfn2addr :: "virt_pfn_t \<Rightarrow> virt_addr_t" where
  "virt_pfn2addr pfn = push_bit PAGE_SHIFT pfn"

subsection \<open>RISC-V 64: Sv39 page-table entries, 64-bit physical addresses\<close>

type_synonym rv64_phys_addr = u64

definition RV_PTE_VALID :: u64 where [hw_consts]: "RV_PTE_VALID = push_bit 0 1"
definition RV_PTE_READ :: u64 where [hw_consts]: "RV_PTE_READ = push_bit 1 1"
definition RV_PTE_WRITE :: u64 where [hw_consts]: "RV_PTE_WRITE = push_bit 2 1"
definition RV_PTE_EXEC :: u64 where [hw_consts]: "RV_PTE_EXEC = push_bit 3 1"
definition RV_PTE_USER :: u64 where [hw_consts]: "RV_PTE_USER = push_bit 4 1"
definition RV_LEVELS :: nat where [hw_consts]: "RV_LEVELS = 3"
definition RV_PPN_SHIFT :: nat where [hw_consts]: "RV_PPN_SHIFT = 10"
definition RV_PPN_SIZE :: nat where [hw_consts]: "RV_PPN_SIZE = 9"
definition RV_VPN_SHIFT :: nat where [hw_consts]: "RV_VPN_SHIFT = PAGE_SHIFT"
definition RV_VPN_SIZE :: nat where [hw_consts]: "RV_VPN_SIZE = 9"
definition RV_PT_SIZE :: u32 where [hw_consts]: "RV_PT_SIZE = PAGE_SIZE"

definition rv64_pte_val_is_valid :: "u64 \<Rightarrow> bool" where
  "rv64_pte_val_is_valid v \<longleftrightarrow> v AND RV_PTE_VALID = RV_PTE_VALID \<and>
     \<not> (v AND RV_PTE_READ = 0 \<and> v AND RV_PTE_WRITE = RV_PTE_WRITE)"

definition rv64_pte_val_is_leaf :: "u64 \<Rightarrow> bool" where
  "rv64_pte_val_is_leaf v \<longleftrightarrow> v AND RV_PTE_READ \<noteq> 0 \<or> v AND RV_PTE_EXEC \<noteq> 0"

definition rv64_pte_leaf_is_readable :: "u64 \<Rightarrow> bool" where
  "rv64_pte_leaf_is_readable v \<longleftrightarrow> v AND RV_PTE_READ = RV_PTE_READ"

definition rv64_pte_leaf_is_writable :: "u64 \<Rightarrow> bool" where
  "rv64_pte_leaf_is_writable v \<longleftrightarrow> v AND RV_PTE_WRITE = RV_PTE_WRITE"

definition rv64_pte_leaf_has_user_perm :: "u64 \<Rightarrow> bool" where
  "rv64_pte_leaf_has_user_perm v \<longleftrightarrow> v AND RV_PTE_USER = RV_PTE_USER"

definition rv64_pte_leaf_is_valid :: "u64 \<Rightarrow> int" where
  "rv64_pte_leaf_is_valid v =
     (if \<not> rv64_pte_val_is_valid v then - EINVAL
      else if \<not> rv64_pte_leaf_has_user_perm v then - EPERM
      else 1)"

definition rv64_pte_val_is_rdonly_page :: "u64 \<Rightarrow> bool" where
  "rv64_pte_val_is_rdonly_page v \<longleftrightarrow> v AND RV_PTE_WRITE = 0"

definition rv64_phys_addr2pfn :: "u64 \<Rightarrow> u64" where
  "rv64_phys_addr2pfn a = drop_bit PAGE_SHIFT a"

definition rv64_phys_pfn2addr :: "u64 \<Rightarrow> u64" where
  "rv64_phys_pfn2addr pfn = push_bit PAGE_SHIFT pfn"

subsection \<open>ARM 64: three-level tables, 40-bit physical addresses split in two fields\<close>

record arm64_phys_addr =
  lower :: u32
  upper :: u8

definition A64_PGD_SHIFT :: nat where [hw_consts]: "A64_PGD_SHIFT = 30"
definition A64_PMD_SHIFT :: nat where [hw_consts]: "A64_PMD_SHIFT = 21"
definition A64_PTE_SHIFT :: nat where [hw_consts]: "A64_PTE_SHIFT = PAGE_SHIFT"
definition A64_PTRS_PER_PGD :: u32 where [hw_consts]: "A64_PTRS_PER_PGD = 512"
definition A64_PTRS_PER_PMD :: u32 where [hw_consts]: "A64_PTRS_PER_PMD = 512"
definition A64_PTRS_PER_PTE :: u32 where [hw_consts]: "A64_PTRS_PER_PTE = 512"
definition A64_PMD_MASK :: u32 where "A64_PMD_MASK = NOT (push_bit A64_PMD_SHIFT 1 - 1)"
definition A64_PT_VAL_TYPE_MASK :: u32 where [hw_consts]: "A64_PT_VAL_TYPE_MASK = 3"
definition A64_PGD_VALID_TYPE_TABLE :: u32 where [hw_consts]: "A64_PGD_VALID_TYPE_TABLE = 3"
definition A64_PMD_VALID_TYPE_TABLE :: u32 where [hw_consts]: "A64_PMD_VALID_TYPE_TABLE = 3"
definition A64_PTE_VALID_TYPE_PAGE :: u32 where [hw_consts]: "A64_PTE_VALID_TYPE_PAGE = 3"
definition A64_PTE_USER :: u32 where [hw_consts]: "A64_PTE_USER = push_bit 6 1"
definition A64_PTE_RDONLY :: u32 where [hw_consts]: "A64_PTE_RDONLY = push_bit 7 1"

definition arm64_pt_val_is_empty :: "arm64_phys_addr \<Rightarrow> bool" where
  "arm64_pt_val_is_empty v \<longleftrightarrow> lower v = 0 \<and> upper v = 0"

definition arm64_pgd_val_is_type_table :: "arm64_phys_addr \<Rightarrow> bool" where
  "arm64_pgd_val_is_type_table v \<longleftrightarrow> lower v AND A64_PT_VAL_TYPE_MASK = A64_PGD_VALID_TYPE_TABLE"

definition arm64_pgd_val_is_pmd_addr :: "arm64_phys_addr \<Rightarrow> int" where
  "arm64_pgd_val_is_pmd_addr v =
     (if arm64_pt_val_is_empty v then - ENXIO
      else if \<not> arm64_pgd_val_is_type_table v then - EINVAL
      else 1)"

definition arm64_pmd_val_is_type_table :: "arm64_phys_addr \<Rightarrow> bool" where
  "arm64_pmd_val_is_type_table v \<longleftrightarrow> lower v AND A64_PT_VAL_TYPE_MASK = A64_PMD_VALID_TYPE_TABLE"

definition arm64_pmd_val_is_pte_addr :: "arm64_phys_addr \<Rightarrow> int" where
  "arm64_pmd_val_is_pte_addr v =
     (if arm64_pt_val_is_empty v then - ENXIO
      else if \<not> arm64_pmd_val_is_type_table v then - EINVAL
      else 1)"

definition arm64_pte_val_is_type_page :: "arm64_phys_addr \<Rightarrow> bool" where
  "arm64_pte_val_is_type_page v \<longleftrightarrow> lower v AND A64_PT_VAL_TYPE_MASK = A64_PTE_VALID_TYPE_PAGE"

definition arm64_pte_val_has_user_perm :: "arm64_phys_addr \<Rightarrow> bool" where
  "arm64_pte_val_has_user_perm v \<longleftrightarrow> lower v AND A64_PTE_USER = A64_PTE_USER"

definition arm64_pte_val_is_valid_page_addr :: "arm64_phys_addr \<Rightarrow> int" where
  "arm64_pte_val_is_valid_page_addr v =
     (if arm64_pt_val_is_empty v then - ENXIO
      else if \<not> arm64_pte_val_is_type_page v then - EINVAL
      else if \<not> arm64_pte_val_has_user_perm v then - EPERM
      else 1)"

definition arm64_pte_val_is_rdonly_page :: "arm64_phys_addr \<Rightarrow> bool" where
  "arm64_pte_val_is_rdonly_page v \<longleftrightarrow> lower v AND A64_PTE_RDONLY = A64_PTE_RDONLY"

definition arm64_pgd_index :: "virt_addr_t \<Rightarrow> u32" where
  "arm64_pgd_index va = drop_bit A64_PGD_SHIFT va AND (A64_PTRS_PER_PGD - 1)"

definition arm64_pmd_index :: "virt_addr_t \<Rightarrow> u32" where
  "arm64_pmd_index va = drop_bit A64_PMD_SHIFT va AND (A64_PTRS_PER_PMD - 1)"

definition arm64_pte_index :: "virt_addr_t \<Rightarrow> u32" where
  "arm64_pte_index va = drop_bit A64_PTE_SHIFT va AND (A64_PTRS_PER_PTE - 1)"

definition arm64_phys_addr2pfn :: "arm64_phys_addr \<Rightarrow> u32" where
  "arm64_phys_addr2pfn a =
     push_bit (32 - PAGE_SHIFT) (ucast (upper a)) OR drop_bit PAGE_SHIFT (lower a)"

definition arm64_phys_pfn2addr :: "u32 \<Rightarrow> arm64_phys_addr" where
  "arm64_phys_pfn2addr pfn =
     \<lparr>lower = push_bit PAGE_SHIFT pfn, upper = ucast (drop_bit (32 - PAGE_SHIFT) pfn AND 0xFF)\<rparr>"

subsection \<open>ARM (32 bit): two-level tables; the entry predicates see the pointer where noted\<close>

text \<open>
  Two predicates of \<open>arm/pgtable_hwdef.h\<close> test the pointer \<open>val\<close> instead of the
  value \<open>*val\<close> it points to; the model takes that pointer as its argument, as the code does.
\<close>

definition A32_PGD_SHIFT :: nat where [hw_consts]: "A32_PGD_SHIFT = 21"
definition A32_PTRS_PER_PGD :: u32 where [hw_consts]: "A32_PTRS_PER_PGD = 2048"
definition A32_PTRS_PER_PTE :: u32 where [hw_consts]: "A32_PTRS_PER_PTE = 512"
definition A32_PGD_MASK :: u32 where "A32_PGD_MASK = NOT (push_bit A32_PGD_SHIFT 1 - 1)"
definition A32_PGD_VALID_TYPE_TABLE :: u32 where [hw_consts]: "A32_PGD_VALID_TYPE_TABLE = push_bit 1 1"
definition A32_PTE_USER :: u32 where [hw_consts]: "A32_PTE_USER = push_bit 8 1"
definition A32_PTE_RDONLY :: u32 where [hw_consts]: "A32_PTE_RDONLY = push_bit 7 1"

definition arm_pt_val_is_empty :: "u32 \<Rightarrow> bool" where
  "arm_pt_val_is_empty val_ptr \<longleftrightarrow> val_ptr = 0"

definition arm_pgd_val_is_type_table :: "u32 \<Rightarrow> bool" where
  "arm_pgd_val_is_type_table val_ptr \<longleftrightarrow> val_ptr AND A32_PGD_VALID_TYPE_TABLE = 0"

definition arm_pgd_index :: "virt_addr_t \<Rightarrow> u32" where
  "arm_pgd_index va = push_bit 1 (drop_bit A32_PGD_SHIFT va AND (A32_PTRS_PER_PGD - 1))"

definition arm_pte_index :: "virt_addr_t \<Rightarrow> u32" where
  "arm_pte_index va = drop_bit PAGE_SHIFT va AND (A32_PTRS_PER_PTE - 1)"

definition arm_pgd_val_is_pte_addr :: "u32 \<Rightarrow> int" where
  "arm_pgd_val_is_pte_addr val_ptr =
     (if arm_pt_val_is_empty val_ptr then - ENXIO
      else if \<not> arm_pgd_val_is_type_table val_ptr then - EINVAL
      else 1)"

definition arm_pte_val_is_type_page :: "u32 \<Rightarrow> bool" where
  "arm_pte_val_is_type_page v \<longleftrightarrow> v AND 3 = 3"

definition arm_pte_val_has_user_perm :: "u32 \<Rightarrow> bool" where
  "arm_pte_val_has_user_perm v \<longleftrightarrow> v AND A32_PTE_USER = A32_PTE_USER"

definition arm_pte_val_is_valid_page_addr :: "u32 \<Rightarrow> u32 \<Rightarrow> int" where
  \<comment> \<open>\<open>val_ptr\<close> is the pointer, \<open>v\<close> the value it points to\<close>
  "arm_pte_val_is_valid_page_addr val_ptr v =
     (if arm_pt_val_is_empty val_ptr then - ENXIO
      else if \<not> arm_pte_val_is_type_page v then - EINVAL
      else if \<not> arm_pte_val_has_user_perm v then - EPERM
      else 1)"

definition arm_pte_val_is_rdonly_page :: "u32 \<Rightarrow> bool" where
  "arm_pte_val_is_rdonly_page v \<longleftrightarrow> v AND A32_PTE_RDONLY = A32_PTE_RDONLY"

definition arm_phys_addr2pfn :: "u32 \<Rightarrow> u32" where
  "arm_phys_addr2pfn a = drop_bit PAGE_SHIFT a"

definition arm_phys_pfn2addr :: "u32 \<Rightarrow> u32" where
  "arm_phys_pfn2addr pfn = push_bit PAGE_SHIFT pfn"

subsection \<open>Pages: lemmas\<close>

lemma PAGE_MASK_mask: "PAGE_MASK = NOT (mask 12)"
  by (simp add: PAGE_MASK_def PAGE_SHIFT_def mask_eq_decr_exp)

lemma PAGE_SIZE_eq [simp]: "PAGE_SIZE = 4096"
  by (simp add: PAGE_SIZE_def PAGE_SHIFT_def push_bit_eq_mult)

lemma page_addr_pfn: "virt_pfn2addr (virt_addr2pfn a) = page_addr a"
  by (simp add: page_addr_def PAGE_MASK_mask and_not_mask virt_pfn2addr_def virt_addr2pfn_def
      PAGE_SHIFT_def)

lemma unat_page_addr: "unat (page_addr a) = unat a div 4096 * 4096"
  using unat_and_not_mask [of a 12] by (simp add: page_addr_def PAGE_MASK_mask)

lemma page_addr_le: "page_addr a \<le> a"
  by (simp add: word_le_nat_alt unat_page_addr)

lemma page_addr_idem [simp]: "page_addr (page_addr a) = page_addr a"
  by (simp add: word_eq_unat unat_page_addr)

lemma unat_virt_addr2pfn: "unat (virt_addr2pfn a) = unat a div 4096"
  by (simp add: virt_addr2pfn_def unat_drop_bit PAGE_SHIFT_def)

lemma virt_addr2pfn_lt: "unat (virt_addr2pfn a) < 1048576"
  using unat_u32_lt [of a] by (simp add: unat_virt_addr2pfn)

lemma same_page_iff: "page_addr a = page_addr b \<longleftrightarrow> virt_addr2pfn a = virt_addr2pfn b"
  by (simp add: word_eq_unat unat_page_addr unat_virt_addr2pfn)

lemma virt_addr2pfn_page_addr [simp]: "virt_addr2pfn (page_addr a) = virt_addr2pfn a"
  by (simp add: word_eq_unat unat_page_addr unat_virt_addr2pfn)

end
