(* ===== verification/Drv_Mem.thy ===== *)
theory Drv_Mem
  imports Pgtable
begin

text \<open>
  The memory helpers of the Linux driver (\<open>pulp-driver/pulp_mem.c\<close>) and the bit field macros of
  \<open>libpulp/inc/pulp_common.h\<close>: how many pages a user-space range touches, how the physical pages are
  grouped into contiguous segments for RAB slices, and the frame numbers for the second TLB level.

  The physical addresses of the pinned pages (\<open>page_to_phys\<close> of the kernel) are a parameter, as is
  which calls of \<open>kmalloc\<close> succeed. The output vectors are one list of records; a field the C code
  has not written yet is 0.
\<close>

definition BIT_N_SET :: "nat \<Rightarrow> u64" where "BIT_N_SET n = push_bit n 1"
definition BIT_MASK_GEN :: "nat \<Rightarrow> u64" where "BIT_MASK_GEN len = BIT_N_SET len - 1"
definition BF_MASK_GEN :: "nat \<Rightarrow> nat \<Rightarrow> u64" where "BF_MASK_GEN start len = push_bit start (BIT_MASK_GEN len)"
definition BF_PREP :: "u64 \<Rightarrow> nat \<Rightarrow> nat \<Rightarrow> u64" where
  "BF_PREP x start len = push_bit start (x AND BIT_MASK_GEN len)"
definition BF_GET :: "u64 \<Rightarrow> nat \<Rightarrow> nat \<Rightarrow> u64" where
  "BF_GET y start len = drop_bit start y AND BIT_MASK_GEN len"
definition BF_SET :: "u64 \<Rightarrow> u64 \<Rightarrow> nat \<Rightarrow> nat \<Rightarrow> u64" where
  "BF_SET y x start len = (y AND NOT (BF_MASK_GEN start len)) OR BF_PREP x start len"

definition pulp_mem_get_num_pages :: "u32 \<Rightarrow> u32 \<Rightarrow> u32" where
  "pulp_mem_get_num_pages addr_start size_b =
     (let x = BF_GET (ucast addr_start) 0 PAGE_SHIFT + ucast size_b;
          n_pages = ucast (drop_bit PAGE_SHIFT x)
      in if BF_GET x 0 PAGE_SHIFT \<noteq> 0 then n_pages + 1 else n_pages)"

text \<open>The pages are pinned by the kernel's \<open>get_user_pages_fast\<close>, which returns the number of pages it pinned (or
  an error) and fills the vector; the result reports only the allocation of the vector.\<close>

definition pulp_mem_get_user_pages ::
  "bool \<Rightarrow> (u64 \<Rightarrow> int \<Rightarrow> int \<Rightarrow> int \<times> 'p list) \<Rightarrow> u32 \<Rightarrow> u32 \<Rightarrow> u32 \<Rightarrow> int \<times> 'p list" where
  "pulp_mem_get_user_pages kmalloc_ok gup_fast addr_start n_pages write =
     (if \<not> kmalloc_ok then (- ENOMEM, [])
      else let start = ucast addr_start AND BF_MASK_GEN PAGE_SHIFT (32 - PAGE_SHIFT);
               (result, pages) = gup_fast start (sint n_pages) (sint write)
           in (0, pages))"

record sg_seg =
  sg_start :: u32
  sg_end :: u32
  sg_offset :: u64
  sg_page_start :: nat
  sg_page_end :: nat

definition sg_base :: "u32 \<Rightarrow> u32" where
  "sg_base addr_start = ucast (ucast addr_start AND BF_MASK_GEN PAGE_SHIFT (32 - PAGE_SHIFT))"

definition upd_last :: "('a \<Rightarrow> 'a) \<Rightarrow> 'a list \<Rightarrow> 'a list" where
  "upd_last f xs = xs[length xs - 1 := f (xs ! (length xs - 1))]"

text \<open>The body of the loop over the pages, for page \<open>i\<close>.\<close>

definition sg_step :: "u64 list \<Rightarrow> u32 \<Rightarrow> u32 \<Rightarrow> sg_seg list \<Rightarrow> nat \<Rightarrow> sg_seg list" where
  "sg_step phys addr_start addr_end segs i =
     (let addr = sg_base addr_start + PAGE_SIZE * of_nat i;
          segs1 = (if phys ! i \<noteq> phys ! (i - 1) + ucast PAGE_SIZE
                   then upd_last (\<lambda>g. g\<lparr>sg_end := addr, sg_page_end := i - 1\<rparr>) segs @
                        [\<lparr>sg_start = addr, sg_end = 0, sg_offset = phys ! i, sg_page_start = i, sg_page_end = 0\<rparr>]
                   else segs)
      in if i = length phys - 1
         then upd_last (\<lambda>g. g\<lparr>sg_end := addr_end, sg_page_end := i\<rparr>) segs1
         else segs1)"

definition pulp_mem_map_sg :: "(nat \<Rightarrow> bool) \<Rightarrow> u64 list \<Rightarrow> u32 \<Rightarrow> u32 \<Rightarrow> int + sg_seg list" where
  "pulp_mem_map_sg kmalloc_ok phys addr_start addr_end =
     (if \<not> list_all kmalloc_ok [0 ..< 6] then Inl (- ENOMEM)
      else
        let first = \<lparr>sg_start = addr_start, sg_end = addr_end, sg_offset = 0, sg_page_start = 0, sg_page_end = 0\<rparr>;
            segs = (if length phys > 1
                    then foldl (sg_step phys addr_start addr_end) [first] [1 ..< length phys] else [first])
        in Inr (segs[0 := (segs ! 0)\<lparr>sg_offset := phys ! 0 + (ucast addr_start AND BIT_MASK_GEN PAGE_SHIFT)\<rparr>]))"

definition pulp_mem_check_num_sg :: "(nat \<Rightarrow> bool) \<Rightarrow> u64 list \<Rightarrow> int" where
  "pulp_mem_check_num_sg kmalloc_ok phys =
     (if \<not> kmalloc_ok 0 then - ENOMEM
      else foldl (\<lambda>n i. if phys ! i \<noteq> phys ! (i - 1) + ucast PAGE_SIZE then n + 1 else n) 1 [1 ..< length phys])"

definition pulp_mem_l2_get_entries :: "(nat \<Rightarrow> bool) \<Rightarrow> u64 list \<Rightarrow> u32 \<Rightarrow> int + (u32 \<times> u32) list" where
  "pulp_mem_l2_get_entries kmalloc_ok phys addr_start =
     (if \<not> kmalloc_ok 0 \<or> \<not> kmalloc_ok 1 then Inl (- ENOMEM)
      else Inr (map (\<lambda>i. (drop_bit PAGE_SHIFT addr_start + of_nat i, ucast (drop_bit PAGE_SHIFT (phys ! i))))
                  [0 ..< length phys]))"

subsection \<open>Bit fields\<close>

lemma BIT_MASK_GEN_mask [simp]: "BIT_MASK_GEN len = mask len"
  by (simp only: BIT_MASK_GEN_def BIT_N_SET_def push_bit_1_minus_1)

lemma BF_GET_bit: "bit (BF_GET y start len) n \<longleftrightarrow> n < len \<and> bit y (start + n)"
  by (auto simp: BF_GET_def bit_and_iff bit_drop_bit_eq bit_mask_iff dest: bit_imp_le_length)

lemma BF_SET_bit:
  "n < 64 \<Longrightarrow> bit (BF_SET y x start len) n \<longleftrightarrow> (if start \<le> n \<and> n < start + len then bit x (n - start) else bit y n)"
  by (auto simp: BF_SET_def BF_PREP_def BF_MASK_GEN_def bit_simps)

lemma sg_base_page_addr: "sg_base addr = page_addr addr"
  unfolding sg_base_def page_addr_def PAGE_MASK_mask BF_MASK_GEN_def BIT_MASK_GEN_mask PAGE_SHIFT_def
  by (rule bit_word_eqI) (auto simp: bit_simps)

lemma unat_ucast_u64 [simp]: "unat (ucast (a :: u32) :: u64) = unat a"
  using unat_u32_lt [of a] by (simp add: unsigned_ucast_eq take_bit_nat_eq_self)

lemma unat_page_offset: "unat (BF_GET (ucast addr) 0 PAGE_SHIFT) = unat (addr :: u32) mod 4096"
  unfolding BF_GET_def BIT_MASK_GEN_mask
  by (simp add: unat_and_mask PAGE_SHIFT_def)

lemma BF_SET_GET: "start + len \<le> 64 \<Longrightarrow> BF_GET (BF_SET y x start len) start len = x AND mask len"
  by (rule bit_word_eqI) (auto simp: BF_GET_bit BF_SET_bit bit_and_iff bit_mask_iff dest: bit_imp_le_length)

subsection \<open>The number of pages of a range\<close>

lemma unat_ucast_u32: "unat (w :: u64) < 2 ^ 32 \<Longrightarrow> unat (ucast w :: u32) = unat w"
  by (simp add: unsigned_ucast_eq take_bit_nat_eq_self)

lemma ceil_4096: "(x + 4095) div 4096 = (if x mod 4096 = 0 then x div 4096 else x div 4096 + 1)" for x :: nat
proof (cases "x mod 4096 = 0")
  case True
  then have "x + 4095 = 4095 + x div 4096 * 4096" by (simp add: mod_0_imp_dvd)
  then have "(x + 4095) div 4096 = (4095 + x div 4096 * 4096) div 4096" by (rule arg_cong)
  then show ?thesis using True by simp
next
  case False
  have "x + 4095 = (x mod 4096 - 1) + (x div 4096 + 1) * 4096"
    using False div_mult_mod_eq [of x 4096] by simp
  then have "(x + 4095) div 4096 = ((x mod 4096 - 1) + (x div 4096 + 1) * 4096) div 4096" by (rule arg_cong)
  also have "\<dots> = x div 4096 + 1"
    using mod_less_divisor [of 4096 x] by (subst div_mult_self1) simp_all
  finally show ?thesis using False by simp
qed

lemma unat_get_num_pages:
  "unat (pulp_mem_get_num_pages addr_start size_b) = (unat addr_start mod 4096 + unat size_b + 4095) div 4096"
proof -
  define x where "x = BF_GET (ucast addr_start) 0 PAGE_SHIFT + (ucast size_b :: u64)"
  have x: "unat x = unat addr_start mod 4096 + unat size_b"
    using unat_u32_lt [of size_b] unfolding x_def
    by (subst unat_word_ariths) (simp add: unat_page_offset trans_less_add1)
  have lt: "unat x < 4096 + 4294967296" using x unat_u32_lt [of size_b] by (simp add: add_less_le_mono less_imp_le)
  have q: "unat (drop_bit PAGE_SHIFT x) = unat x div 4096" by (simp add: unat_drop_bit PAGE_SHIFT_def)
  then have q32: "unat (ucast (drop_bit PAGE_SHIFT x) :: u32) = unat x div 4096"
    using lt by (subst unat_ucast_u32) simp_all
  have r: "BF_GET x 0 PAGE_SHIFT = 0 \<longleftrightarrow> unat x mod 4096 = 0"
    by (simp add: word_eq_unat BF_GET_def unat_and_mask PAGE_SHIFT_def)
  have "unat (ucast (drop_bit PAGE_SHIFT x) + 1 :: u32) = unat x div 4096 + 1"
    using q32 lt by (subst unat_word_ariths) simp
  then show ?thesis
    unfolding pulp_mem_get_num_pages_def x_def [symmetric] Let_def x [symmetric]
    using q32 r by (simp add: ceil_4096)
qed

text \<open>\<open>pulp_mem_get_num_pages\<close> returns the number of pages that a non-empty range within
  the 32-bit address space touches: the difference of the frame numbers of its last and its first
  byte, plus one; for an empty range at a page border it is 0.\<close>

theorem get_num_pages_touched:
  assumes "0 < unat size_b" "unat addr_start + unat size_b \<le> 2 ^ 32"
  shows "unat (pulp_mem_get_num_pages addr_start size_b)
           = card {pfn. \<exists>v. unat addr_start \<le> v \<and> v < unat addr_start + unat size_b \<and> pfn = v div 4096}"
proof -
  define a n where "a = unat addr_start" and "n = unat size_b"
  have "{pfn. \<exists>v. a \<le> v \<and> v < a + n \<and> pfn = v div 4096} = {a div 4096 .. (a + n - 1) div 4096}"
    (is "?L = ?R")
  proof (intro set_eqI iffI)
    fix p assume "p \<in> ?L"
    then show "p \<in> ?R" by (auto intro!: div_le_mono)
  next
    fix p assume p: "p \<in> ?R"
    then have "a \<le> max a (p * 4096) \<and> max a (p * 4096) < a + n \<and> p = max a (p * 4096) div 4096"
      using assms n_def by (auto simp: max_def)
    then show "p \<in> ?L" by blast
  qed
  moreover have "(a mod 4096 + n + 4095) div 4096 = Suc ((a + n - 1) div 4096) - a div 4096"
  proof -
    have "a + n - 1 + 4096 = a div 4096 * 4096 + (a mod 4096 + n + 4095)"
      using assms n_def by simp
    then have "(a + n - 1 + 4096) div 4096 = (a div 4096 * 4096 + (a mod 4096 + n + 4095)) div 4096"
      by (rule arg_cong)
    also have "\<dots> = a div 4096 + (a mod 4096 + n + 4095) div 4096" by (rule div_mult_self3) simp
    finally show ?thesis by (simp only: div_add_self2) simp
  qed
  ultimately show ?thesis by (simp add: unat_get_num_pages a_def n_def)
qed

theorem get_num_pages_touched_witness:
  "unat (pulp_mem_get_num_pages 0xFFF 2) = card {pfn. \<exists>v. unat (0xFFF :: u32) \<le> v \<and> v < unat (0xFFF :: u32) + unat (2 :: u32) \<and> pfn = v div 4096}"
  by (rule get_num_pages_touched) simp_all

text \<open>A short pin is not reported: the callers go on with the requested number of pages.\<close>

lemma get_user_pages_short:
  "pulp_mem_get_user_pages True gup a n w = (r, pages) \<Longrightarrow> r = 0"
  by (simp add: pulp_mem_get_user_pages_def Let_def split: prod.splits)

subsection \<open>Contiguous segments\<close>

definition sg_brk :: "u64 list \<Rightarrow> nat \<Rightarrow> bool" where
  "sg_brk phys i \<longleftrightarrow> phys ! i \<noteq> phys ! (i - 1) + 4096"

definition sg_starts :: "u64 list \<Rightarrow> nat \<Rightarrow> nat list" where
  "sg_starts phys k = 0 # filter (sg_brk phys) [1 ..< k]"

definition sg_addr :: "u32 \<Rightarrow> nat \<Rightarrow> u32" where
  "sg_addr a i = (if i = 0 then a else page_addr a + 4096 * of_nat i)"

definition sg_off :: "u64 list \<Rightarrow> nat \<Rightarrow> u64" where
  "sg_off phys i = (if i = 0 then 0 else phys ! i)"

definition sg_closed :: "u64 list \<Rightarrow> u32 \<Rightarrow> nat \<Rightarrow> nat \<Rightarrow> sg_seg" where
  "sg_closed phys a i j = \<lparr>sg_start = sg_addr a i, sg_end = page_addr a + 4096 * of_nat j, sg_offset = sg_off phys i,
     sg_page_start = i, sg_page_end = j - 1\<rparr>"

definition sg_open :: "u64 list \<Rightarrow> u32 \<Rightarrow> u32 \<Rightarrow> nat \<Rightarrow> sg_seg" where
  "sg_open phys a e i = \<lparr>sg_start = sg_addr a i, sg_end = (if i = 0 then e else 0), sg_offset = sg_off phys i,
     sg_page_start = i, sg_page_end = 0\<rparr>"

lemma zip_tl_snoc: "xs \<noteq> [] \<Longrightarrow> zip (xs @ [x]) (tl xs @ [x]) = zip xs (tl xs) @ [(last xs, x)]"
proof (induction xs)
  case (Cons y ys)
  then show ?case by (cases ys) auto
qed simp

lemma upd_last_snoc [simp]: "upd_last f (xs @ [x]) = xs @ [f x]"
  by (simp add: upd_last_def)

lemma upd_last_snoc2 [simp]: "upd_last f (xs @ [x, y]) = xs @ [x, f y]"
  using upd_last_snoc [of f "xs @ [x]" y] by simp

lemma sg_starts_ne [simp]: "sg_starts phys k \<noteq> []" by (simp add: sg_starts_def)

lemma sg_starts_Suc:
  "1 \<le> k \<Longrightarrow> sg_starts phys (Suc k) = (if sg_brk phys k then sg_starts phys k @ [k] else sg_starts phys k)"
  by (simp add: sg_starts_def)

text \<open>The loop before its last iteration: all segments but the last are closed.\<close>

lemma sg_loop:
  assumes "1 \<le> k" "k < length phys"
  shows "foldl (sg_step phys a e) [sg_open phys a e 0] [1 ..< k]
           = map (\<lambda>(i, j). sg_closed phys a i j) (zip (sg_starts phys k) (tl (sg_starts phys k)))
             @ [sg_open phys a e (last (sg_starts phys k))]"
  using assms
proof (induction k rule: nat_induct_at_least)
  case base
  then show ?case by (simp add: sg_starts_def)
next
  case (Suc k)
  have "sg_brk phys k \<Longrightarrow> zip (sg_starts phys (Suc k)) (tl (sg_starts phys (Suc k)))
       = zip (sg_starts phys k) (tl (sg_starts phys k)) @ [(last (sg_starts phys k), k)]"
    using Suc.hyps by (simp add: sg_starts_Suc zip_tl_snoc)
  moreover have "k \<noteq> 0" using Suc.hyps by simp
  ultimately show ?case
    using Suc
    by (auto simp: sg_starts_Suc sg_step_def Let_def sg_brk_def sg_base_page_addr sg_open_def sg_closed_def
        sg_addr_def sg_off_def)
qed

text \<open>The specification of the result: the pages at which a new contiguous run begins are the
  starts; each segment reaches from its start to the next one, the last to the end of the range.\<close>

definition sg_seg_of :: "u64 list \<Rightarrow> u32 \<Rightarrow> u32 \<Rightarrow> nat \<Rightarrow> nat \<Rightarrow> sg_seg" where
  "sg_seg_of phys a e i j =
     \<lparr>sg_start = sg_addr a i, sg_end = (if j = length phys then e else page_addr a + 4096 * of_nat j),
      sg_offset = (if i = 0 then phys ! 0 + (ucast a AND mask 12) else phys ! i),
      sg_page_start = i, sg_page_end = j - 1\<rparr>"

definition sg_spec :: "u64 list \<Rightarrow> u32 \<Rightarrow> u32 \<Rightarrow> sg_seg list" where
  "sg_spec phys a e =
     (let ss = sg_starts phys (length phys) in map (\<lambda>(i, j). sg_seg_of phys a e i j) (zip ss (tl ss @ [length phys])))"

lemma zip_tl_end: "xs \<noteq> [] \<Longrightarrow> zip xs (tl xs @ [x]) = zip xs (tl xs) @ [(last xs, x)]"
proof (induction xs)
  case (Cons y ys)
  then show ?case by (cases ys) auto
qed simp

lemma in_zip_starts:
  assumes "(i, j) \<in> set (zip (sg_starts phys k) (tl (sg_starts phys k)))"
  shows "0 < j" "j < k"
  using assms by (auto simp: sg_starts_def dest: set_zip_rightD)

text \<open>The zeroth segment gets its offset after the loop.\<close>

definition sg_fix0 :: "u64 list \<Rightarrow> u32 \<Rightarrow> sg_seg list \<Rightarrow> sg_seg list" where
  "sg_fix0 phys a segs = segs[0 := (segs ! 0)\<lparr>sg_offset := phys ! 0 + (ucast a AND mask 12)\<rparr>]"

lemma sg_loop_final:
  assumes "1 < length phys"
  shows "foldl (sg_step phys a e) [sg_open phys a e 0] [1 ..< length phys]
           = map (\<lambda>(i, j). sg_closed phys a i j)
               (zip (sg_starts phys (length phys)) (tl (sg_starts phys (length phys))))
             @ [(sg_open phys a e (last (sg_starts phys (length phys))))\<lparr>sg_end := e, sg_page_end := length phys - 1\<rparr>]"
proof -
  obtain k where k: "length phys = Suc k" "1 \<le> k" using assms by (cases "length phys") auto
  define ss where "ss = sg_starts phys k"
  have ne: "ss \<noteq> []" by (simp add: ss_def)
  define pre where "pre = map (\<lambda>(i, j). sg_closed phys a i j) (zip ss (tl ss))"
  have loop: "foldl (sg_step phys a e) [sg_open phys a e 0] [1 ..< k] = pre @ [sg_open phys a e (last ss)]"
    using k sg_loop [of k phys a e] by (simp add: pre_def ss_def)
  have step: "foldl (sg_step phys a e) [sg_open phys a e 0] [1 ..< length phys]
      = sg_step phys a e (pre @ [sg_open phys a e (last ss)]) k"
    using k(2) by (simp only: k(1) upt_Suc loop [symmetric] if_True foldl_append) simp
  show ?thesis
  proof (cases "sg_brk phys k")
    case True
    then have "sg_starts phys (length phys) = ss @ [k]" using k by (simp add: sg_starts_Suc ss_def)
    then show ?thesis using True k ne unfolding step
      by (simp add: zip_tl_snoc sg_step_def Let_def sg_brk_def sg_base_page_addr pre_def
          sg_open_def sg_closed_def sg_addr_def sg_off_def)
  next
    case False
    then have "sg_starts phys (length phys) = ss" using k by (simp add: sg_starts_Suc ss_def)
    then show ?thesis using False k unfolding step by (simp add: sg_step_def Let_def sg_brk_def pre_def)
  qed
qed

lemma sg_spec_snoc:
  "sg_spec phys a e =
     map (\<lambda>(i, j). sg_seg_of phys a e i j) (zip (sg_starts phys (length phys)) (tl (sg_starts phys (length phys))))
     @ [sg_seg_of phys a e (last (sg_starts phys (length phys))) (length phys)]"
  by (simp add: sg_spec_def Let_def zip_tl_end)

text \<open>Only the first start is page 0.\<close>

lemma starts_tl_pos: "i \<in> set (tl (sg_starts phys k)) \<Longrightarrow> 0 < i"
  by (auto simp: sg_starts_def)

lemma fix0_spec:
  assumes "xs = map (\<lambda>(i, j). sg_closed phys a i j) (zip ss (tl ss)) @
             [(sg_open phys a e (last ss))\<lparr>sg_end := e, sg_page_end := length phys - 1\<rparr>]"
    and "ss = sg_starts phys (length phys)"
  shows "sg_fix0 phys a xs = sg_spec phys a e"
proof (rule nth_equalityI)
  have len: "length xs = length ss" "length (sg_spec phys a e) = length ss" "0 < length ss"
    using assms by (simp_all add: sg_spec_snoc)
  then show "length (sg_fix0 phys a xs) = length (sg_spec phys a e)" by (simp add: sg_fix0_def)
  fix m assume "m < length (sg_fix0 phys a xs)"
  then have m: "m < length ss" using len by (simp add: sg_fix0_def)
  have start: "ss ! m = 0 \<longleftrightarrow> m = 0"
  proof (cases m)
    case (Suc k)
    then have "ss ! m \<in> set (tl ss)" using m nth_mem [of k "tl ss"] by (simp add: nth_tl)
    then show ?thesis using starts_tl_pos [of "ss ! m" phys "length phys"] assms(2) Suc by simp
  qed (simp add: assms(2) sg_starts_def)
  have nth: "sg_spec phys a e ! m =
      sg_seg_of phys a e (ss ! m) (if m = length ss - 1 then length phys else ss ! Suc m)"
    using m assms(2) by (auto simp: sg_spec_def Let_def nth_append nth_tl)
  show "sg_fix0 phys a xs ! m = sg_spec phys a e ! m"
  proof (cases "m = length ss - 1")
    case True
    then have "xs ! m = (sg_open phys a e (ss ! m))\<lparr>sg_end := e, sg_page_end := length phys - 1\<rparr>"
      using assms by (simp add: nth_append last_conv_nth)
    then show ?thesis using True start m len nth
      by (cases "m = 0") (simp_all add: sg_fix0_def sg_open_def sg_off_def sg_seg_of_def)
  next
    case False
    then have mm: "Suc m < length ss" using m by simp
    then have "ss ! Suc m \<in> set ss" by simp
    then have lt: "ss ! Suc m < length phys" using starts_tl_pos assms(2) mm
      by (auto simp: sg_starts_def)
    have "xs ! m = sg_closed phys a (ss ! m) (ss ! Suc m)"
      using mm assms(1) by (simp add: nth_append nth_tl)
    then show ?thesis using False start m len nth lt
      by (cases "m = 0") (simp_all add: sg_fix0_def sg_closed_def sg_off_def sg_seg_of_def)
  qed
qed

lemma pulp_mem_map_sg_spec:
  assumes "list_all kmalloc_ok [0 ..< 6]" "phys \<noteq> []"
  shows "pulp_mem_map_sg kmalloc_ok phys a e = Inr (sg_spec phys a e)"
proof -
  have first: "\<lparr>sg_start = a, sg_end = e, sg_offset = 0, sg_page_start = 0, sg_page_end = 0\<rparr> = sg_open phys a e 0"
    by (simp add: sg_open_def sg_addr_def sg_off_def)
  have loop: "(if 1 < length phys then foldl (sg_step phys a e) [sg_open phys a e 0] [1 ..< length phys]
      else [sg_open phys a e 0])
    = map (\<lambda>(i, j). sg_closed phys a i j)
        (zip (sg_starts phys (length phys)) (tl (sg_starts phys (length phys))))
      @ [(sg_open phys a e (last (sg_starts phys (length phys))))\<lparr>sg_end := e, sg_page_end := length phys - 1\<rparr>]"
  proof (cases "1 < length phys")
    case False
    then have "length phys = 1" using assms(2) by (cases phys) auto
    then show ?thesis by (simp add: sg_starts_def sg_open_def)
  qed (use sg_loop_final [of phys a e] in simp)
  show ?thesis
    unfolding pulp_mem_map_sg_def first Let_def loop
    using assms fix0_spec [OF refl refl, of phys a e] by (simp add: sg_fix0_def PAGE_SHIFT_def)
qed

text \<open>Within a segment the pages are physically contiguous.\<close>

lemma starts_between:
  assumes "m < length (sg_starts phys n)" "sg_starts phys n ! m < p"
    "p < (if m = length (sg_starts phys n) - 1 then n else sg_starts phys n ! Suc m)"
  shows "\<not> sg_brk phys p"
proof
  define ss where "ss = sg_starts phys n"
  have sorted: "sorted_wrt (<) ss"
    by (auto simp: ss_def sg_starts_def intro!: sorted_wrt_filter)
  assume "sg_brk phys p"
  moreover have "p < n"
    using assms(1,3) nth_mem [of "Suc m" ss] by (auto simp: ss_def sg_starts_def split: if_splits)
  ultimately have "p \<in> set ss" using assms(2) by (auto simp: ss_def sg_starts_def)
  then obtain q where q: "q < length ss" "ss ! q = p" by (auto simp: in_set_conv_nth)
  have "m < q"
    using assms(1,2) q sorted sorted_wrt_nth_less [OF sorted, of q m]
    by (metis less_asym linorder_neqE_nat ss_def)
  then have "Suc m = q \<or> Suc m < q" by auto
  then show False
    using assms(3) q sorted_wrt_nth_less [OF sorted, of "Suc m" q] \<open>m < q\<close> by (auto simp: ss_def split: if_splits)
qed

lemma starts_bounds:
  assumes "m < length (sg_starts phys (length phys))" "phys \<noteq> []"
  shows "sg_starts phys (length phys) ! m
      < (if m = length (sg_starts phys (length phys)) - 1 then length phys else sg_starts phys (length phys) ! Suc m)"
    and "(if m = length (sg_starts phys (length phys)) - 1 then length phys else sg_starts phys (length phys) ! Suc m)
      \<le> length phys"
proof -
  define ss where "ss = sg_starts phys (length phys)"
  have sorted: "sorted_wrt (<) ss"
    by (auto simp: ss_def sg_starts_def intro!: sorted_wrt_filter)
  have "x < length phys" if "x \<in> set ss" for x
    using that assms(2) by (auto simp: ss_def sg_starts_def)
  then have lt: "ss ! k < length phys" if "k < length ss" for k using that by simp
  show "ss ! m < (if m = length ss - 1 then length phys else ss ! Suc m)"
    using assms(1) lt sorted_wrt_nth_less [OF sorted, of m "Suc m"] by (auto simp: ss_def)
  show "(if m = length ss - 1 then length phys else ss ! Suc m) \<le> length phys"
    using assms(1) lt [of "Suc m"] by (cases "Suc m < length ss") (auto simp: ss_def)
qed

lemma phys_contiguous:
  assumes "\<And>p. i < p \<Longrightarrow> p \<le> q \<Longrightarrow> \<not> sg_brk phys p" "i \<le> q"
  shows "phys ! q = phys ! i + 4096 * of_nat (q - i)"
  using assms(2,1)
proof (induction q rule: nat_induct_at_least)
  case (Suc q)
  then have "phys ! q = phys ! i + 4096 * of_nat (q - i)" "\<not> sg_brk phys (Suc q)" by auto
  then show ?case using Suc.hyps by (simp add: sg_brk_def Suc_diff_le algebra_simps)
qed simp

lemma sg_spec_nth:
  assumes "m < length (sg_spec phys a e)"
  defines "ss \<equiv> sg_starts phys (length phys)"
  shows "m < length ss"
    "sg_spec phys a e ! m = sg_seg_of phys a e (ss ! m) (if m = length ss - 1 then length phys else ss ! Suc m)"
  using assms(1) by (auto simp: ss_def sg_spec_def Let_def nth_append nth_tl)

lemma check_num_sg_count:
  assumes "kmalloc_ok 0" "phys \<noteq> []"
  shows "pulp_mem_check_num_sg kmalloc_ok phys = int (length (sg_spec phys a e))"
proof -
  have "foldl (\<lambda>n i. if phys ! i \<noteq> phys ! (i - 1) + ucast PAGE_SIZE then n + 1 else n) c xs
      = c + int (length (filter (sg_brk phys) xs))" for c xs
    by (induction xs arbitrary: c) (auto simp: sg_brk_def)
  then show ?thesis
    using assms by (simp add: pulp_mem_check_num_sg_def sg_spec_def sg_starts_def Let_def)
qed

lemma unat_sg_addr:
  assumes "0 < i" "unat a div 4096 + i < 2 ^ 20"
  shows "unat (page_addr a + 4096 * of_nat i :: u32) = (unat a div 4096 + i) * 4096"
proof -
  have "unat (page_addr a + 4096 * of_nat i :: u32) = (unat (page_addr a) + 4096 * i) mod 2 ^ 32"
    by (simp add: unat_word_ariths mod_add_right_eq mod_mult_right_eq unsigned_of_nat take_bit_eq_mod)
  also have "\<dots> = unat a div 4096 * 4096 + 4096 * i"
    using assms by (simp add: unat_page_addr)
  finally show ?thesis by (simp add: algebra_simps)
qed

lemma word_shift: "m + X = Y + (Q * 4096 + R) \<Longrightarrow> D = X - Y \<Longrightarrow> p + m + D = p + Q * 4096 + R" for p :: u64
proof -
  assume eq: "m + X = Y + (Q * 4096 + R)" "D = X - Y"
  have "p + m + D = p + (m + X) - Y" using eq(2) by simp
  then show ?thesis using eq(1) by simp
qed

text \<open>Where the bytes of a segment go: the address of a byte of page \<open>q\<close> of the range, as the slice with
  the segment's bounds and offset translates it.\<close>

lemma sg_seg_translate:
  assumes "i \<le> q" "q < length phys" "\<And>p. i < p \<Longrightarrow> p \<le> q \<Longrightarrow> \<not> sg_brk phys p"
    and "unat a div 4096 + q < 2 ^ 20" "unat v = (unat a div 4096 + q) * 4096 + r" "unat a \<le> unat v"
    and "sg_start g = sg_addr a i" "sg_offset g = (if i = 0 then phys ! 0 + (ucast a AND mask 12) else phys ! i)"
  shows "sg_offset g + ucast (v - sg_start g) = phys ! q + of_nat r"
proof -
  have ph: "phys ! q = phys ! i + 4096 * of_nat (q - i)" using phys_contiguous assms(1,3) by blast
  have s: "unat (sg_addr a i) = (if i = 0 then unat a else (unat a div 4096 + i) * 4096)"
    using unat_sg_addr [of i a] assms(1,4) by (auto simp: sg_addr_def)
  have le: "unat (sg_addr a i) \<le> unat v"
    using assms(1,5,6) s by (auto simp: trans_le_add1)
  have "unat (ucast (v - sg_addr a i) :: u64) = unat v - unat (sg_addr a i)"
    using le by (simp add: unat_sub_if' word_le_nat_alt)
  then have "(of_nat (unat (ucast (v - sg_addr a i) :: u64)) :: u64) = of_nat (unat v - unat (sg_addr a i))"
    by (rule arg_cong)
  then have "(ucast (v - sg_addr a i) :: u64) = of_nat (unat v - unat (sg_addr a i))"
    by (simp only: of_nat_unat ucast_id)
  also have "\<dots> = of_nat (unat v) - of_nat (unat (sg_addr a i))" using le by (simp add: of_nat_diff)
  finally have diff: "(ucast (v - sg_addr a i) :: u64) = of_nat (unat v) - of_nat (unat (sg_addr a i))" .
  show ?thesis
  proof (cases "i = 0")
    case True
    have "(ucast a AND mask 12 :: u64) = of_nat (unat (ucast a AND mask 12 :: u64))" by simp
    also have "\<dots> = of_nat (unat a mod 4096)" by (simp add: unat_and_mask)
    finally have m: "(ucast a AND mask 12 :: u64) = of_nat (unat a mod 4096)" .
    have "unat a mod 4096 + unat v = unat a + (q * 4096 + r)"
      using assms(5) div_mult_mod_eq [of "unat a" 4096] by (simp add: algebra_simps)
    from arg_cong [OF this, of "of_nat :: nat \<Rightarrow> u64"]
    have "(of_nat (unat a mod 4096) + of_nat (unat v) :: u64) = of_nat (unat a) + (of_nat q * 4096 + of_nat r)"
      by (simp only: of_nat_add of_nat_mult of_nat_numeral)
    from word_shift [OF this diff [unfolded s if_P [OF True]], of "phys ! 0"]
    show ?thesis using True assms(7,8) ph m by (simp add: mult.commute)
  next
    case False
    have "unat v = (unat a div 4096 + i) * 4096 + ((q - i) * 4096 + r)"
      using assms(1,5) by (simp add: algebra_simps)
    from arg_cong [OF this, of "of_nat :: nat \<Rightarrow> u64"]
    have "(of_nat (unat v) :: u64) = of_nat ((unat a div 4096 + i) * 4096) + (of_nat (q - i) * 4096 + of_nat r)"
      by (simp only: of_nat_add of_nat_mult of_nat_numeral)
    then have "(0 + of_nat (unat v) :: u64)
        = of_nat ((unat a div 4096 + i) * 4096) + (of_nat (q - i) * 4096 + of_nat r)" by (simp only: add_0_left)
    from word_shift [OF this diff [unfolded s if_not_P [OF False]], of "phys ! i"]
    show ?thesis using False assms(7,8) ph by (simp add: mult.commute)
  qed
qed

lemma last_below:
  "xs \<noteq> [] \<Longrightarrow> hd xs \<le> q \<Longrightarrow> \<exists>m < length xs. xs ! m \<le> q \<and> (Suc m < length xs \<longrightarrow> q < xs ! Suc m)"
  for q :: nat
proof (induction xs)
  case (Cons x xs)
  show ?case
  proof (cases "xs \<noteq> [] \<and> hd xs \<le> q")
    case True
    then obtain m where "m < length xs" "xs ! m \<le> q" "Suc m < length xs \<longrightarrow> q < xs ! Suc m"
      using Cons.IH by blast
    then show ?thesis by (intro exI [of _ "Suc m"]) simp
  next
    case False
    then show ?thesis using Cons.prems by (intro exI [of _ 0]) (auto simp: hd_conv_nth)
  qed
qed simp

text \<open>The bounds of the segments, in pages from the page of \<open>a\<close>.\<close>

lemma sg_seg_of_bounds:
  assumes "i < j" "j \<le> length phys" "unat a div 4096 + length phys \<le> 2 ^ 20"
    and "V = unat v" "unat a \<le> V" "V < unat e" "Q = V div 4096 - unat a div 4096" "Q < length phys"
  shows "sg_start (sg_seg_of phys a e i j) \<le> v \<longleftrightarrow> i \<le> Q"
    and "v < sg_end (sg_seg_of phys a e i j) \<longleftrightarrow> Q < j"
proof -
  define A where "A = unat a div 4096"
  have VA: "V div 4096 = A + Q" using assms(5,7) by (simp add: A_def div_le_mono)
  have i: "(A + i) * 4096 \<le> V \<longleftrightarrow> i \<le> Q" for i
    using less_eq_div_iff_mult_less_eq [of 4096 "A + i" V] VA by simp
  show "sg_start (sg_seg_of phys a e i j) \<le> v \<longleftrightarrow> i \<le> Q"
    using assms i [of i] unat_sg_addr [of i a]
    by (auto simp: sg_seg_of_def sg_addr_def word_le_nat_alt A_def)
  show "v < sg_end (sg_seg_of phys a e i j) \<longleftrightarrow> Q < j"
  proof (cases "j = length phys")
    case False
    have "v < sg_end (sg_seg_of phys a e i j) \<longleftrightarrow> V < (A + j) * 4096"
      using False assms unat_sg_addr [of j a] by (simp add: sg_seg_of_def word_less_nat_alt A_def)
    then show ?thesis using i [of j] by (simp only: linorder_not_le [symmetric])
  qed (use assms in \<open>simp add: sg_seg_of_def word_less_nat_alt\<close>)
qed

text \<open>The layout of the segments: they follow each other without gaps from \<open>a\<close> to \<open>e\<close>, all but the first begin at a page
  border, and a slice with the bounds and the offset of a segment sends each of its bytes to its own page.\<close>

definition sg_target :: "u64 list \<Rightarrow> u32 \<Rightarrow> u32 \<Rightarrow> u64" where
  "sg_target phys a v = phys ! (unat v div 4096 - unat a div 4096) + of_nat (unat v mod 4096)"

definition sg_layout :: "u64 list \<Rightarrow> u32 \<Rightarrow> u32 \<Rightarrow> sg_seg list \<Rightarrow> bool" where
  "sg_layout phys a e segs \<longleftrightarrow>
     segs \<noteq> [] \<and> sg_start (segs ! 0) = a \<and> sg_end (segs ! (length segs - 1)) = e \<and>
     (\<forall>m. Suc m < length segs \<longrightarrow> sg_end (segs ! m) = sg_start (segs ! Suc m) \<and> unat (sg_start (segs ! Suc m)) mod 4096 = 0) \<and>
     (\<forall>m < length segs. sg_start (segs ! m) < sg_end (segs ! m) \<and>
        (\<forall>v. sg_start (segs ! m) \<le> v \<longrightarrow> v < sg_end (segs ! m) \<longrightarrow>
             sg_offset (segs ! m) + ucast (v - sg_start (segs ! m)) = sg_target phys a v))"

lemma sg_layoutD:
  assumes "sg_layout phys a e segs"
  shows "segs \<noteq> []" "sg_start (segs ! 0) = a" "sg_end (segs ! (length segs - 1)) = e"
    "Suc m < length segs \<Longrightarrow> sg_end (segs ! m) = sg_start (segs ! Suc m)"
    "Suc m < length segs \<Longrightarrow> unat (sg_start (segs ! Suc m)) mod 4096 = 0"
    "m < length segs \<Longrightarrow> sg_start (segs ! m) < sg_end (segs ! m)"
    "m < length segs \<Longrightarrow> sg_start (segs ! m) \<le> v \<Longrightarrow> v < sg_end (segs ! m) \<Longrightarrow>
       sg_offset (segs ! m) + ucast (v - sg_start (segs ! m)) = sg_target phys a v"
  using assms unfolding sg_layout_def by blast+

lemma layout_covers:
  assumes "sg_layout phys a e segs" "a \<le> v" "v < e"
  shows "\<exists>m < length segs. sg_start (segs ! m) \<le> v \<and> v < sg_end (segs ! m)"
proof -
  have "\<exists>m \<le> n. sg_start (segs ! m) \<le> v \<and> v < sg_end (segs ! m)" if "n < length segs" "v < sg_end (segs ! n)" for n
    using that
  proof (induction n)
    case 0
    then show ?case using assms by (auto simp: sg_layout_def)
  next
    case (Suc n)
    show ?case
    proof (cases "sg_start (segs ! Suc n) \<le> v")
      case False
      then have "v < sg_end (segs ! n)" using assms(1) Suc.prems(1) by (simp add: sg_layout_def)
      then show ?thesis using Suc by (meson le_SucI Suc_lessD)
    qed (use Suc.prems in blast)
  qed
  moreover have "length segs - 1 < length segs" "v < sg_end (segs ! (length segs - 1))" using assms by (auto simp: sg_layout_def)
  ultimately obtain m where "m \<le> length segs - 1" "sg_start (segs ! m) \<le> v" "v < sg_end (segs ! m)" by blast
  then show ?thesis using \<open>length segs - 1 < length segs\<close> by (meson le_less_trans)
qed

text \<open>How many pages a range touches, counted from the page of its first byte.\<close>

lemma num_pages_end:
  assumes "addr_start < addr_end" "n = unat (pulp_mem_get_num_pages addr_start (addr_end - addr_start))"
  shows "unat addr_start div 4096 + n = (unat addr_end + 4095) div 4096" "unat addr_start div 4096 + n \<le> 2 ^ 20"
proof -
  define a e where "a = unat addr_start" and "e = unat addr_end"
  have ae: "a < e" "e < 2 ^ 32" using assms(1) unat_u32_lt [of addr_end] by (simp_all add: a_def e_def word_less_nat_alt)
  have "unat (addr_end - addr_start) = e - a"
    using assms(1) by (simp add: a_def e_def unat_sub word_le_nat_alt word_less_nat_alt)
  then have n: "n = (a mod 4096 + (e - a) + 4095) div 4096"
    using assms(2) by (simp add: a_def unat_get_num_pages)
  have "e + 4095 = a div 4096 * 4096 + (a mod 4096 + (e - a) + 4095)"
    using ae(1) div_mult_mod_eq [of a 4096] by simp
  then have "(e + 4095) div 4096 = (a div 4096 * 4096 + (a mod 4096 + (e - a) + 4095)) div 4096" by (rule arg_cong)
  also have "\<dots> = a div 4096 + n" unfolding n by (rule div_mult_self3) simp
  finally show eq: "unat addr_start div 4096 + n = (unat addr_end + 4095) div 4096" by (simp add: a_def e_def)
  show "unat addr_start div 4096 + n \<le> 2 ^ 20" unfolding eq using ae(2) by (simp add: e_def)
qed

lemma page_within:
  assumes "addr_start < addr_end" "n = unat (pulp_mem_get_num_pages addr_start (addr_end - addr_start))"
    "unat addr_start \<le> V" "V < unat addr_end"
  shows "V div 4096 - unat addr_start div 4096 < n"
    "unat addr_start div 4096 + (V div 4096 - unat addr_start div 4096) = V div 4096"
proof -
  have "V + 4096 \<le> unat addr_end + 4095" using assms(4) by simp
  then have "(V + 4096) div 4096 \<le> (unat addr_end + 4095) div 4096" by (rule div_le_mono)
  then show "V div 4096 - unat addr_start div 4096 < n"
    "unat addr_start div 4096 + (V div 4096 - unat addr_start div 4096) = V div 4096"
    using num_pages_end(1) [OF assms(1,2)] assms(3) by (auto simp: div_le_mono)
qed

lemma page_border:
  assumes "addr_start < addr_end" "n = unat (pulp_mem_get_num_pages addr_start (addr_end - addr_start))" "k < n"
  shows "(unat addr_start div 4096 + k) * 4096 < unat addr_end"
proof -
  have "Suc (unat addr_start div 4096 + k) \<le> (unat addr_end + 4095) div 4096"
    using num_pages_end(1) [OF assms(1,2)] assms(3) by simp
  then have "Suc (unat addr_start div 4096 + k) * 4096 \<le> unat addr_end + 4095"
    by (simp add: less_eq_div_iff_mult_less_eq)
  then show ?thesis by simp
qed

lemma sg_spec_layout:
  assumes ord: "addr_start < addr_end"
    and pages: "length phys = unat (pulp_mem_get_num_pages addr_start (addr_end - addr_start))"
  shows "sg_layout phys addr_start addr_end (sg_spec phys addr_start addr_end)"
proof -
  define n ss where "n = length phys" and "ss = sg_starts phys (length phys)"
  define nx where "nx = (\<lambda>m. if m = length ss - 1 then n else ss ! Suc m)"
  define segs where "segs = sg_spec phys addr_start addr_end"
  note within = page_within [OF ord pages]
  have bnd: "unat addr_start div 4096 + n \<le> 2 ^ 20" unfolding n_def by (rule num_pages_end(2) [OF ord pages])
  have ne: "phys \<noteq> []" using within(1) [of "unat addr_start"] ord by (auto simp: word_less_nat_alt)
  have len: "length segs = length ss" and ss0: "ss \<noteq> []" "ss ! 0 = 0"
    by (simp_all add: segs_def sg_spec_def ss_def Let_def sg_starts_def)
  have seg: "segs ! m = sg_seg_of phys addr_start addr_end (ss ! m) (nx m)" if "m < length ss" for m
    using that len sg_spec_nth(2) [of m phys addr_start addr_end] by (simp add: segs_def ss_def n_def nx_def)
  have nxb: "ss ! m < nx m" "nx m \<le> n" if "m < length ss" for m
    using starts_bounds [of m phys, OF _ ne] that unfolding ss_def nx_def n_def by blast+
  have mono: "0 < ss ! Suc m" "ss ! Suc m < n" if "Suc m < length ss" for m
    using nxb [of m] nxb [of "Suc m"] that by (auto simp: nx_def split: if_splits)
  have ends: "sg_start (segs ! 0) = addr_start" "sg_end (segs ! (length segs - 1)) = addr_end"
    using seg [of 0] seg [of "length ss - 1"] ss0 len by (simp_all add: sg_seg_of_def sg_addr_def nx_def n_def)
  have next_seg: "sg_end (segs ! m) = sg_start (segs ! Suc m)" "unat (sg_start (segs ! Suc m)) mod 4096 = 0"
    if m: "Suc m < length segs" for m
    using seg [of m] seg [of "Suc m"] mono [of m] m len bnd unat_sg_addr [of "ss ! Suc m" addr_start]
    by (auto simp: sg_seg_of_def sg_addr_def nx_def n_def)
  define A where "A = unat addr_start div 4096"
  have st: "unat (sg_start (segs ! m)) = (if ss ! m = 0 then unat addr_start else (A + ss ! m) * 4096)" if m: "m < length segs" for m
    using seg [of m] nxb [of m] m len bnd unat_sg_addr [of "ss ! m" addr_start] by (simp add: sg_seg_of_def sg_addr_def n_def A_def)
  have en: "unat (sg_end (segs ! m)) = (if m = length segs - 1 then unat addr_end else (A + nx m) * 4096)" if m: "m < length segs" for m
  proof (cases "m = length ss - 1")
    case True
    then have "nx m = length phys" by (simp add: nx_def n_def)
    then show ?thesis using seg [of m] m len True by (simp add: sg_seg_of_def)
  next
    case False
    then have "nx m = ss ! Suc m" "Suc m < length ss" using m len by (auto simp: nx_def)
    then show ?thesis
      using seg [of m] mono [of m] m len bnd False unat_sg_addr [of "nx m" addr_start] by (simp add: sg_seg_of_def n_def A_def)
  qed
  have border: "(A + k) * 4096 < unat addr_end" if "k < n" for k
    unfolding A_def using page_border [OF ord pages] that by (simp add: n_def)
  have low: "unat addr_start < (A + k) * 4096" if "0 < k" for k
    using that dividend_less_div_times [of 4096 "unat addr_start"] by (auto simp: A_def algebra_simps intro: less_le_trans)
  have lt: "sg_start (segs ! m) < sg_end (segs ! m)" if m: "m < length segs" for m
    using st [OF m] en [OF m] nxb [of m] border [of "ss ! m"] low [of "nx m"] m len ord
    by (auto simp: word_less_nat_alt split: if_splits)
  have range: "unat addr_start \<le> unat v" "unat v < unat addr_end"
    if m: "m < length segs" and v: "sg_start (segs ! m) \<le> v" "v < sg_end (segs ! m)" for m v
    using st [OF m] en [OF m] v low [of "ss ! m"] border [of "nx m"] nxb [of m] mono [of m] m len
    by (auto simp: word_le_nat_alt word_less_nat_alt nx_def split: if_splits)
  have tr: "sg_offset (segs ! m) + ucast (v - sg_start (segs ! m)) = sg_target phys addr_start v"
    if m: "m < length segs" and v: "sg_start (segs ! m) \<le> v" "v < sg_end (segs ! m)" for m v
  proof -
    note r = range [OF m v]
    define Q where "Q = unat v div 4096 - unat addr_start div 4096"
    have Q: "Q < length phys" "unat addr_start div 4096 + Q = unat v div 4096" unfolding Q_def using within r by blast+
    have "ss ! m \<le> Q" "Q < nx m"
      using sg_seg_of_bounds [of "ss ! m" "nx m" phys addr_start "unat v" v addr_end Q] nxb [of m] bnd r Q(1) seg [of m] v m len
      by (simp_all add: n_def Q_def)
    moreover have "\<not> sg_brk phys p" if "ss ! m < p" "p \<le> Q" for p
      using starts_between [of m phys n p] m that \<open>Q < nx m\<close> len by (simp add: ss_def nx_def n_def split: if_splits)
    ultimately show ?thesis
      unfolding sg_target_def Q_def [symmetric]
      by (intro sg_seg_translate [where i = "ss ! m" and a = addr_start])
        (use Q bnd r seg [of m] m len in \<open>simp_all add: n_def sg_seg_of_def\<close>)
  qed
  show ?thesis unfolding segs_def [symmetric] sg_layout_def using ends next_seg lt tr len ss0 by auto
qed

text \<open>C9: The segments that \<open>pulp_mem_map_sg\<close> computes for a range and its pinned pages translate
  every byte of the range to its own physical page and page offset when each is used as a RAB slice; every byte
  of the range lies in a segment; and there are as many segments as \<open>pulp_mem_check_num_sg\<close> announces.\<close>

theorem map_sg_translates:
  assumes ok: "list_all kmalloc_ok [0 ..< 6]" and ord: "addr_start < addr_end"
    and pages: "length phys = unat (pulp_mem_get_num_pages addr_start (addr_end - addr_start))"
    and v: "addr_start \<le> v" "v < addr_end"
  shows "\<exists>segs. pulp_mem_map_sg kmalloc_ok phys addr_start addr_end = Inr segs
    \<and> int (length segs) = pulp_mem_check_num_sg kmalloc_ok phys
    \<and> (\<exists>g \<in> set segs. sg_start g \<le> v \<and> v < sg_end g)
    \<and> (\<forall>g \<in> set segs. sg_start g \<le> v \<and> v < sg_end g \<longrightarrow>
         sg_offset g + ucast (v - sg_start g)
           = phys ! (unat v div 4096 - unat addr_start div 4096) + of_nat (unat v mod 4096))"
proof -
  define segs where "segs = sg_spec phys addr_start addr_end"
  have lay: "sg_layout phys addr_start addr_end segs" unfolding segs_def by (rule sg_spec_layout [OF ord pages])
  have ne: "phys \<noteq> []" using page_within(1) [OF ord pages, of "unat addr_start"] ord by (auto simp: word_less_nat_alt)
  have "\<exists>g \<in> set segs. sg_start g \<le> v \<and> v < sg_end g" using layout_covers [OF lay v] by (meson nth_mem)
  moreover have "\<forall>g \<in> set segs. sg_start g \<le> v \<and> v < sg_end g \<longrightarrow>
      sg_offset g + ucast (v - sg_start g) = sg_target phys addr_start v"
    using lay by (auto simp: sg_layout_def in_set_conv_nth)
  moreover have "int (length segs) = pulp_mem_check_num_sg kmalloc_ok phys"
    using check_num_sg_count [of kmalloc_ok phys, OF _ ne] ok by (simp add: segs_def list_all_iff)
  ultimately show ?thesis
    using pulp_mem_map_sg_spec [OF ok ne, of addr_start addr_end]
    by (intro exI [of _ segs]) (simp add: segs_def sg_target_def)
qed

theorem map_sg_translates_witness:
  "\<exists>segs. pulp_mem_map_sg (\<lambda>_. True) [0x5000, 0x9000] 0x1F00 0x2200 = Inr segs
    \<and> int (length segs) = pulp_mem_check_num_sg (\<lambda>_. True) [0x5000, 0x9000]
    \<and> (\<exists>g \<in> set segs. sg_start g \<le> 0x2100 \<and> 0x2100 < sg_end g)
    \<and> (\<forall>g \<in> set segs. sg_start g \<le> 0x2100 \<and> 0x2100 < sg_end g \<longrightarrow>
         sg_offset g + ucast (0x2100 - sg_start g)
           = [0x5000, 0x9000] ! (unat (0x2100 :: u32) div 4096 - unat (0x1F00 :: u32) div 4096)
             + of_nat (unat (0x2100 :: u32) mod 4096))"
  by (rule map_sg_translates) (simp_all add: unat_get_num_pages list_all_iff)

text \<open>\<open>BF_SET\<close> writes exactly the field: reading it back gives the low bits of the value, and
  every disjoint field keeps its contents.\<close>

theorem BF_SET_round_trip:
  assumes "start + len \<le> 64"
  shows "BF_GET (BF_SET y x start len) start len = x AND BIT_MASK_GEN len
    \<and> (start' + len' \<le> start \<or> start + len \<le> start' \<and> start' + len' \<le> 64 \<longrightarrow>
         BF_GET (BF_SET y x start len) start' len' = BF_GET y start' len')"
proof (intro conjI impI)
  show "BF_GET (BF_SET y x start len) start len = x AND BIT_MASK_GEN len"
    using assms by (simp add: BF_SET_GET)
  assume "start' + len' \<le> start \<or> start + len \<le> start' \<and> start' + len' \<le> 64"
  then show "BF_GET (BF_SET y x start len) start' len' = BF_GET y start' len'"
    using assms by (intro bit_word_eqI) (auto simp: BF_GET_bit BF_SET_bit)
qed

theorem BF_SET_round_trip_witness:
  "BF_GET (BF_SET 0xABCD 5 4 4) 4 4 = 5 AND BIT_MASK_GEN 4
    \<and> BF_GET (BF_SET 0xABCD 5 4 4) 8 8 = BF_GET 0xABCD 8 8"
  using BF_SET_round_trip [of 4 4 "0xABCD" 5 8 8] by simp

end
