(* ===== verification/Drv_Rab.thy ===== *)
theory Drv_Rab
  imports Drv_Mem
begin

text \<open>
  The management of the first TLB level of the RAB in the Linux driver (\<open>pulp-driver/pulp_rab.c\<close>,
  sections "L1 Management"): the tables of slices the driver keeps for the two ports, with two alternative
  mappings on port 1, the page pointers they hold references to, and the sl registers of the hardware.

  The record \<open>rab\<close> is the state of the file: \<open>l1\<close> of the C code is spread over its first fields,
  \<open>hw\<close> is the configuration port, indexed by byte offset (\<open>iowrite32\<close> and \<open>IOWRITE_L\<close> write one register),
  \<open>kern_log\<close> the calls into the kernel that have an effect, in order. The array of page pointers that a
  mapping refers to (\<open>struct page **\<close>) is a list, \<open>None\<close> the null pointer; the arrays are never
  written after their creation, so that the list stands for the array wherever it is referenced.
  The numbers of slices, the offsets and the addresses are those of the platform ZYNQMP.
\<close>

type_synonym page = u64

datatype kern_call =
    CacheInv page
  | CacheFlush page u32 u32
  | SetPageDirty page
  | PinPages "page list"
  | PutPage page
  | KfreePages "page list"
  | MboxWrite u32
  | Wakeup nat u32

text \<open>What the driver uses of the kernel.\<close>

record kern =
  kmalloc_ok :: "nat \<Rightarrow> bool"
  gup_ok :: bool
  gup_fast :: "u64 \<Rightarrow> int \<Rightarrow> int \<Rightarrow> int \<times> page list"
  page_to_phys :: "page \<Rightarrow> u64"
  PageReserved :: "page \<Rightarrow> bool"

definition RAB_L1_N_SLICES_PORT_0 :: nat where [hw_consts]: "RAB_L1_N_SLICES_PORT_0 = 4"
definition RAB_L1_N_SLICES_PORT_1 :: nat where [hw_consts]: "RAB_L1_N_SLICES_PORT_1 = 32"
definition RAB_L1_N_MAPPINGS_PORT_1 :: nat where [hw_consts]: "RAB_L1_N_MAPPINGS_PORT_1 = 2"
definition RAB_N_PORTS :: nat where [hw_consts]: "RAB_N_PORTS = 2"
definition RAB_L1_PORT_1_OFFSET :: nat where [hw_consts]: "RAB_L1_PORT_1_OFFSET = 0x1000"
definition RAB_SLICE_SIZE_B :: nat where [hw_consts]: "RAB_SLICE_SIZE_B = 0x1C"
definition RAB_SLICE_BASE_OFFSET_B :: nat where [hw_consts]: "RAB_SLICE_BASE_OFFSET_B = 0"
definition RAB_SLICE_ADDR_START_OFFSET_B :: nat where [hw_consts]: "RAB_SLICE_ADDR_START_OFFSET_B = 0"
definition RAB_SLICE_ADDR_END_OFFSET_B :: nat where [hw_consts]: "RAB_SLICE_ADDR_END_OFFSET_B = 8"
definition RAB_SLICE_ADDR_OFFSET_OFFSET_B :: nat where [hw_consts]: "RAB_SLICE_ADDR_OFFSET_OFFSET_B = 0x10"
definition RAB_SLICE_FLAGS_OFFSET_B :: nat where [hw_consts]: "RAB_SLICE_FLAGS_OFFSET_B = 0x18"

definition RAB_FLAGS_DRV_CONST :: u8 where "RAB_FLAGS_DRV_CONST = 1"
definition RAB_FLAGS_DRV_STRIPED :: u8 where "RAB_FLAGS_DRV_STRIPED = 2"
definition RAB_FLAGS_DRV_EVERY :: u8 where "RAB_FLAGS_DRV_EVERY = 4"
definition RAB_FLAGS_DRV_FIXED :: u8 where "RAB_FLAGS_DRV_FIXED = 8"
definition RAB_FLAGS_HW_EN :: u8 where "RAB_FLAGS_HW_EN = 1"
definition RAB_FLAGS_HW_READ :: u8 where "RAB_FLAGS_HW_READ = 2"
definition RAB_FLAGS_HW_WRITE :: u8 where "RAB_FLAGS_HW_WRITE = 4"
definition RAB_FLAGS_HW_CC :: u8 where "RAB_FLAGS_HW_CC = 8"

definition RAB_MAX_DATE :: u8 where "RAB_MAX_DATE = ucast (BIT_MASK_GEN 8)"
definition RAB_MAX_DATE_MH :: u8 where "RAB_MAX_DATE_MH = RAB_MAX_DATE - 2"

definition BIT_GET :: "u8 \<Rightarrow> u8 \<Rightarrow> bool" where "BIT_GET y m \<longleftrightarrow> y AND m \<noteq> 0"
definition BIT_SET :: "u8 \<Rightarrow> u8 \<Rightarrow> u8" where "BIT_SET y m = y OR m"
definition BIT_CLEAR :: "u8 \<Rightarrow> u8 \<Rightarrow> u8" where "BIT_CLEAR y m = y AND NOT m"
definition RAB_GET_PROT :: "u8 \<Rightarrow> u8" where "RAB_GET_PROT request = request AND 7"

subsection \<open>Tables\<close>

record RabSliceReq =
  rq_date_cur :: u8
  rq_date_exp :: u8
  rq_page_ptr_idx :: nat
  rq_page_idx_start :: u8
  rq_page_idx_end :: u8
  rq_port :: nat
  rq_lvl :: u8
  rq_mapping :: nat
  rq_slice :: nat
  rq_flags_drv :: u8
  rq_addr_start :: u32
  rq_addr_end :: u32
  rq_addr_offset :: u64
  rq_flags_hw :: u8

record L1EntryPort0 =
  e0_fixed :: bool
  e0_date_cur :: u8
  e0_date_exp :: u8
  e0_addr_start :: u32
  e0_addr_end :: u32
  e0_addr_offset :: u64
  e0_flags_hw :: u8

record L1EntryPort1 =
  e_fixed :: bool
  e_date_cur :: u8
  e_date_exp :: u8
  e_page_ptr_idx :: nat
  e_page_idx_start :: u8
  e_page_idx_end :: u8
  e_flags_drv :: u8
  e_addr_start :: u32
  e_addr_end :: u32
  e_addr_offset :: u64
  e_flags_hw :: u8

record L1TlbMappingPort1 =
  slices :: "L1EntryPort1 list"
  page_ptrs :: "page list option list"
  page_ptr_ref_cntrs :: "u32 list"

text \<open>Striped mappings: for every element the slices it owns and, for every stripe of its data, the
  configuration of the slices that map it.\<close>

datatype ElemType = Inout | In | Out

record RabStripeSlice =
  ss_addr_start :: u32
  ss_addr_end :: u32
  ss_addr_offset :: u64

record RabStripe =
  st_n_slices :: nat
  slice_configs :: "RabStripeSlice list"

record RabStripeElem =
  el_id :: u8
  el_type :: ElemType
  el_page_ptr_idx :: nat
  el_n_slices :: nat
  el_n_slices_per_stripe :: nat
  slice_idxs :: "nat list"
  set_offset :: nat
  stripe_idx :: nat
  el_n_stripes :: nat
  stripes :: "RabStripe list"
  el_flags_hw :: u8

record RabStripeReq =
  sr_id :: u16
  sr_elements :: "RabStripeElem list"

record rab =
  port_0 :: "L1EntryPort0 list"
  mappings :: "L1TlbMappingPort1 list"
  mapping_active :: nat
  hw :: "nat \<Rightarrow> u64"
  soc_mh_is_ena :: bool
  n_slices_reserved :: nat
  stripe_reqs :: "RabStripeReq list"
  mh_on :: bool
  mh_date :: u32
  mh_acp :: bool
  mh_lvl :: u32
  mh_wq :: bool
  kern_log :: "kern_call list"

definition clear0 :: "L1EntryPort0 \<Rightarrow> L1EntryPort0" where
  "clear0 e = e\<lparr>e0_date_cur := 0, e0_date_exp := 0, e0_addr_start := 0, e0_addr_end := 0, e0_addr_offset := 0,
     e0_flags_hw := 0\<rparr>"

definition clear1 :: "L1EntryPort1 \<Rightarrow> L1EntryPort1" where
  "clear1 e = e\<lparr>e_date_cur := 0, e_date_exp := 0, e_page_ptr_idx := 0, e_page_idx_start := 0, e_page_idx_end := 0,
     e_flags_drv := 0, e_addr_start := 0, e_addr_end := 0, e_addr_offset := 0, e_flags_hw := 0\<rparr>"

definition upd_mapping :: "nat \<Rightarrow> (L1TlbMappingPort1 \<Rightarrow> L1TlbMappingPort1) \<Rightarrow> rab \<Rightarrow> rab" where
  "upd_mapping j f s = s\<lparr>mappings := (mappings s)[j := f (mappings s ! j)]\<rparr>"

definition pulp_rab_l1_init :: "rab \<Rightarrow> rab" where
  "pulp_rab_l1_init s =
     s\<lparr>port_0 := map clear0 (port_0 s),
       mappings := map (\<lambda>m. m\<lparr>slices := map clear1 (slices m), page_ptrs := map (\<lambda>_. None) (page_ptrs m),
         page_ptr_ref_cntrs := map (\<lambda>_. 0) (page_ptr_ref_cntrs m)\<rparr>) (mappings s),
       mapping_active := 0\<rparr>"

subsection \<open>Searching fields and slices\<close>

text \<open>The first field without references; in the C code the index stays what it was if there is none.\<close>

definition pulp_rab_page_ptrs_get_field :: "rab \<Rightarrow> RabSliceReq \<Rightarrow> int \<times> RabSliceReq" where
  "pulp_rab_page_ptrs_get_field s req =
     (case List.find (\<lambda>i. page_ptr_ref_cntrs (mappings s ! rq_mapping req) ! i = 0) [0 ..< RAB_L1_N_SLICES_PORT_1] of
        Some i \<Rightarrow> (0, req\<lparr>rq_page_ptr_idx := i\<rparr>)
      | None \<Rightarrow> (- EIO, req))"

definition pulp_rab_slice_check :: "rab \<Rightarrow> RabSliceReq \<Rightarrow> bool" where
  "pulp_rab_slice_check s req =
     (let fixed = BIT_GET (rq_flags_drv req) RAB_FLAGS_DRV_FIXED;
          (date_exp_i, fixed_i) =
            (if rq_port req = 0
             then (e0_date_exp (port_0 s ! rq_slice req), e0_fixed (port_0 s ! rq_slice req))
             else (e_date_exp (slices (mappings s ! rq_mapping req) ! rq_slice req),
                   e_fixed (slices (mappings s ! rq_mapping req) ! rq_slice req)));
          expired = (rq_date_cur req > date_exp_i \<or> rq_date_cur req = 0 \<and> RAB_MAX_DATE_MH = date_exp_i)
      in expired \<and> (\<not> fixed_i \<or> fixed \<and> fixed_i))"

definition pulp_rab_slice_is_managed_by_host :: "rab \<Rightarrow> RabSliceReq \<Rightarrow> bool" where
  "pulp_rab_slice_is_managed_by_host s req \<longleftrightarrow>
     rq_port req = 0 \<or> \<not> soc_mh_is_ena s \<or> rq_slice req < n_slices_reserved s"

definition n_slices_of :: "nat \<Rightarrow> nat" where
  "n_slices_of port = (if port = 0 then RAB_L1_N_SLICES_PORT_0 else RAB_L1_N_SLICES_PORT_1)"

text \<open>The loop over the slices stops at the first that is expired and managed by the host; if there is none
  the request is left with the last slice.\<close>

definition pulp_rab_slice_get :: "rab \<Rightarrow> RabSliceReq \<Rightarrow> int \<times> RabSliceReq" where
  "pulp_rab_slice_get s req =
     (let n_slices = n_slices_of (rq_port req)
      in case List.find (\<lambda>i. pulp_rab_slice_check s (req\<lparr>rq_slice := i\<rparr>)
                    \<and> pulp_rab_slice_is_managed_by_host s (req\<lparr>rq_slice := i\<rparr>)) [0 ..< n_slices] of
           Some i \<Rightarrow> (0, req\<lparr>rq_slice := i\<rparr>)
         | None \<Rightarrow> (1, req\<lparr>rq_slice := n_slices - 1\<rparr>))"

definition pulp_rab_num_free_slices :: "rab \<Rightarrow> RabSliceReq \<Rightarrow> int \<times> RabSliceReq" where
  "pulp_rab_num_free_slices s req =
     foldl (\<lambda>(n, req) i. let req = req\<lparr>rq_slice := i\<rparr> in (if pulp_rab_slice_check s req then n + 1 else n, req))
       (0, req) [0 ..< n_slices_of (rq_port req)]"

definition pulp_rab_mapping_get_active :: "rab \<Rightarrow> nat" where
  "pulp_rab_mapping_get_active s = mapping_active s"

subsection \<open>Freeing a slice\<close>

definition rab_entry :: "nat \<Rightarrow> nat \<Rightarrow> nat" where
  "rab_entry port sl =
     RAB_SLICE_BASE_OFFSET_B + RAB_SLICE_SIZE_B * sl + (if port = 1 then RAB_L1_PORT_1_OFFSET else 0)"

definition iowrite :: "nat \<Rightarrow> u64 \<Rightarrow> rab \<Rightarrow> rab" where
  "iowrite off v s = s\<lparr>hw := (hw s)(off := v)\<rparr>"

text \<open>Unlocking the pages of a slice: the pages \<open>page_idx_start\<close> to \<open>page_idx_end\<close> of the array.\<close>

definition unlock_pages :: "kern \<Rightarrow> u8 \<Rightarrow> page list \<Rightarrow> L1EntryPort1 \<Rightarrow> kern_call list" where
  "unlock_pages K flags_hw pages e =
     concat (map (\<lambda>i. (if \<not> BIT_GET flags_hw RAB_FLAGS_HW_CC then [CacheInv (pages ! i)] else [])
                    @ (if \<not> PageReserved K (pages ! i) then [SetPageDirty (pages ! i)] else [])
                    @ [PutPage (pages ! i)])
               [unat (e_page_idx_start e) ..< unat (e_page_idx_end e) + 1])"

text \<open>What freeing a slice of port 1 changes in the table of its mapping, and the kernel calls it makes.\<close>

definition free_refs :: "u8 \<Rightarrow> nat \<Rightarrow> L1TlbMappingPort1 \<Rightarrow> L1TlbMappingPort1" where
  "free_refs flags_drv sl m =
     (let idx = e_page_ptr_idx (slices m ! sl)
      in case page_ptrs m ! idx of
           Some pages_old \<Rightarrow>
             (let m = m\<lparr>page_ptr_ref_cntrs := (page_ptr_ref_cntrs m)[idx := page_ptr_ref_cntrs m ! idx - 1]\<rparr>
              in if page_ptr_ref_cntrs m ! idx = 0 then m\<lparr>page_ptrs := (page_ptrs m)[idx := None]\<rparr> else m)
         | None \<Rightarrow>
             (if BIT_GET flags_drv RAB_FLAGS_DRV_CONST \<and> page_ptr_ref_cntrs m ! idx \<noteq> 0
              then m\<lparr>page_ptr_ref_cntrs := (page_ptr_ref_cntrs m)[idx := page_ptr_ref_cntrs m ! idx - 1]\<rparr>
              else m))"

definition free_entry :: "u8 \<Rightarrow> nat \<Rightarrow> L1TlbMappingPort1 \<Rightarrow> L1TlbMappingPort1" where
  "free_entry flags_drv sl m =
     (let m = free_refs flags_drv sl m in m\<lparr>slices := (slices m)[sl := clear1 (slices m ! sl)]\<rparr>)"

definition free_calls :: "kern \<Rightarrow> u8 \<Rightarrow> u8 \<Rightarrow> nat \<Rightarrow> L1TlbMappingPort1 \<Rightarrow> kern_call list" where
  "free_calls K flags_drv flags_hw sl m =
     (let idx = e_page_ptr_idx (slices m ! sl)
      in case page_ptrs m ! idx of
           Some pages_old \<Rightarrow>
             (if \<not> BIT_GET flags_drv RAB_FLAGS_DRV_STRIPED \<and> \<not> BIT_GET flags_drv RAB_FLAGS_DRV_EVERY
              then unlock_pages K flags_hw pages_old (slices m ! sl) else [])
             @ (if page_ptr_ref_cntrs m ! idx - 1 = 0 \<and> \<not> BIT_GET flags_drv RAB_FLAGS_DRV_EVERY
                then [KfreePages pages_old] else [])
         | None \<Rightarrow> [])"

text \<open>Whether the flags register of the slice is cleared.\<close>

definition free_clears_hw :: "rab \<Rightarrow> RabSliceReq \<Rightarrow> u8 \<Rightarrow> bool" where
  "free_clears_hw s req flags_hw =
     (if rq_port req \<noteq> 0 \<and> page_ptrs (mappings s ! rq_mapping req)
           ! e_page_ptr_idx (slices (mappings s ! rq_mapping req) ! rq_slice req) \<noteq> None
      then mapping_active s = rq_mapping req
      else if rq_port req = 1 \<and> BIT_GET (rq_flags_drv req) RAB_FLAGS_DRV_CONST
      then mapping_active s = rq_mapping req
      else flags_hw \<noteq> 0)"

definition pulp_rab_slice_free :: "kern \<Rightarrow> rab \<Rightarrow> RabSliceReq \<Rightarrow> rab" where
  "pulp_rab_slice_free K s req =
     (let sl = rq_slice req;
          off = rab_entry (rq_port req) sl + RAB_SLICE_FLAGS_OFFSET_B;
          flags_hw = ucast (hw s off)
      in if \<not> pulp_rab_slice_is_managed_by_host s req then s
         else
           let s' = (if free_clears_hw s req flags_hw then iowrite off 0 s else s)
           in if rq_port req = 0 then s'\<lparr>port_0 := (port_0 s)[sl := clear0 (port_0 s ! sl)]\<rparr>
              else (upd_mapping (rq_mapping req) (free_entry (rq_flags_drv req) sl) s')
                     \<lparr>kern_log := kern_log s @
                        free_calls K (rq_flags_drv req) flags_hw sl (mappings s ! rq_mapping req)\<rparr>)"

subsection \<open>Setting up a slice\<close>

definition setup0 :: "RabSliceReq \<Rightarrow> L1EntryPort0" where
  "setup0 req = \<lparr>e0_fixed = (rq_flags_drv req AND RAB_FLAGS_DRV_FIXED \<noteq> 0), e0_date_cur = rq_date_cur req,
     e0_date_exp = rq_date_exp req, e0_addr_start = rq_addr_start req, e0_addr_end = rq_addr_end req,
     e0_addr_offset = rq_addr_offset req, e0_flags_hw = rq_flags_hw req\<rparr>"

definition setup1 :: "RabSliceReq \<Rightarrow> L1EntryPort1" where
  "setup1 req = \<lparr>e_fixed = (rq_flags_drv req AND RAB_FLAGS_DRV_FIXED \<noteq> 0), e_date_cur = rq_date_cur req,
     e_date_exp = rq_date_exp req, e_page_ptr_idx = rq_page_ptr_idx req,
     e_page_idx_start = rq_page_idx_start req, e_page_idx_end = rq_page_idx_end req,
     e_flags_drv = rq_flags_drv req, e_addr_start = rq_addr_start req, e_addr_end = rq_addr_end req,
     e_addr_offset = rq_addr_offset req, e_flags_hw = rq_flags_hw req\<rparr>"

text \<open>The test whether the field of page pointers is free is a bitwise conjunction of the counter with two truth
  values, so it looks at the lowest bit of the counter only.\<close>

definition setup_field_busy :: "RabSliceReq \<Rightarrow> L1TlbMappingPort1 \<Rightarrow> bool" where
  "setup_field_busy req m \<longleftrightarrow>
     page_ptr_ref_cntrs m ! rq_page_ptr_idx req AND (if rq_page_idx_start req = 0 then 1 else 0)
       AND (if \<not> BIT_GET (rq_flags_drv req) RAB_FLAGS_DRV_STRIPED then 1 else 0) \<noteq> 0"

definition setup_refs :: "RabSliceReq \<Rightarrow> page list option \<Rightarrow> L1TlbMappingPort1 \<Rightarrow> L1TlbMappingPort1" where
  "setup_refs req pages m =
     (let idx = rq_page_ptr_idx req
      in m\<lparr>page_ptr_ref_cntrs := (page_ptr_ref_cntrs m)[idx := page_ptr_ref_cntrs m ! idx + 1],
           page_ptrs := (page_ptrs m)[idx := (if BIT_GET (rq_flags_drv req) RAB_FLAGS_DRV_CONST then None else pages)]\<rparr>)"

definition write_slice :: "nat \<Rightarrow> u32 \<Rightarrow> u32 \<Rightarrow> u64 \<Rightarrow> u8 \<Rightarrow> rab \<Rightarrow> rab" where
  "write_slice offset addr_start addr_end addr_offset flags_hw s =
     iowrite (offset + RAB_SLICE_FLAGS_OFFSET_B) (ucast flags_hw)
       (iowrite (offset + RAB_SLICE_ADDR_OFFSET_OFFSET_B) (drop_bit 12 addr_offset)
         (iowrite (offset + RAB_SLICE_ADDR_END_OFFSET_B) (ucast (drop_bit 12 addr_end))
           (iowrite (offset + RAB_SLICE_ADDR_START_OFFSET_B) (ucast (drop_bit 12 addr_start)) s)))"

definition pulp_rab_slice_setup :: "rab \<Rightarrow> RabSliceReq \<Rightarrow> page list option \<Rightarrow> int \<times> rab" where
  "pulp_rab_slice_setup s req pages =
     (let port = rq_port req; mapping = rq_mapping req; sl = rq_slice req;
          s = (if port = 0 then s\<lparr>port_0 := (port_0 s)[sl := setup0 req]\<rparr>
               else upd_mapping mapping (\<lambda>m. m\<lparr>slices := (slices m)[sl := setup1 req]\<rparr>) s)
      in if port \<noteq> 0 \<and> setup_field_busy req (mappings s ! mapping) then (- EIO, s)
         else
           let s = (if port = 0 then s else upd_mapping mapping (setup_refs req pages) s)
           in (0, if port = 0 \<or> mapping_active s = mapping
                  then write_slice (rab_entry port sl) (rq_addr_start req) (rq_addr_end req)
                         (rq_addr_offset req) (rq_flags_hw req) s
                  else s))"

subsection \<open>Switching between the mappings of port 1\<close>

definition deactivate_slice :: "rab \<Rightarrow> nat \<Rightarrow> rab" where
  "deactivate_slice s i =
     (if RAB_GET_PROT (e_flags_hw (slices (mappings s ! mapping_active s) ! i)) \<noteq> 0
      then iowrite (rab_entry 1 i + RAB_SLICE_FLAGS_OFFSET_B) 0 s else s)"

definition activate_slice :: "nat \<Rightarrow> rab \<Rightarrow> nat \<Rightarrow> rab" where
  "activate_slice rab_mapping s i =
     (let e = slices (mappings s ! rab_mapping) ! i
      in if RAB_GET_PROT (e_flags_hw e) AND 1 \<noteq> 0
         then write_slice (rab_entry 1 i) (e_addr_start e) (e_addr_end e) (e_addr_offset e) (e_flags_hw e) s
         else s)"

definition pulp_rab_mapping_switch :: "rab \<Rightarrow> nat \<Rightarrow> rab" where
  "pulp_rab_mapping_switch s rab_mapping =
     (let s = foldl deactivate_slice s [0 ..< RAB_L1_N_SLICES_PORT_1];
          s = foldl (activate_slice rab_mapping) s [0 ..< RAB_L1_N_SLICES_PORT_1]
      in s\<lparr>mapping_active := rab_mapping\<rparr>)"

subsection \<open>Flags and registers\<close>

lemma flag_bits [simp]:
  "BIT_GET y RAB_FLAGS_DRV_CONST \<longleftrightarrow> bit y 0" "BIT_GET y RAB_FLAGS_DRV_STRIPED \<longleftrightarrow> bit y 1"
  "BIT_GET y RAB_FLAGS_DRV_EVERY \<longleftrightarrow> bit y 2" "BIT_GET y RAB_FLAGS_DRV_FIXED \<longleftrightarrow> bit y 3"
  "BIT_GET y RAB_FLAGS_HW_WRITE \<longleftrightarrow> bit y 2" "BIT_GET y RAB_FLAGS_HW_CC \<longleftrightarrow> bit y 3"
proof -
  have "y AND push_bit n 1 \<noteq> 0 \<longleftrightarrow> bit y n" for n
    using and_single_bit_0 [of y n] by blast
  from this [of 0] this [of 1] this [of 2] this [of 3]
  show "BIT_GET y RAB_FLAGS_DRV_CONST \<longleftrightarrow> bit y 0" "BIT_GET y RAB_FLAGS_DRV_STRIPED \<longleftrightarrow> bit y 1"
    "BIT_GET y RAB_FLAGS_DRV_EVERY \<longleftrightarrow> bit y 2" "BIT_GET y RAB_FLAGS_DRV_FIXED \<longleftrightarrow> bit y 3"
    "BIT_GET y RAB_FLAGS_HW_WRITE \<longleftrightarrow> bit y 2" "BIT_GET y RAB_FLAGS_HW_CC \<longleftrightarrow> bit y 3"
    by (simp_all add: BIT_GET_def RAB_FLAGS_DRV_CONST_def RAB_FLAGS_DRV_STRIPED_def RAB_FLAGS_DRV_EVERY_def
        RAB_FLAGS_DRV_FIXED_def RAB_FLAGS_HW_WRITE_def RAB_FLAGS_HW_CC_def)
qed

lemma flag_updates [simp]:
  "bit (BIT_SET y m) n \<longleftrightarrow> bit y n \<or> bit m n" "bit (BIT_CLEAR y m) n \<longleftrightarrow> bit y n \<and> \<not> bit m n"
  by (auto simp: BIT_SET_def BIT_CLEAR_def bit_or_iff bit_and_iff bit_not_iff dest: bit_imp_le_length)

lemma fixed_bit [simp]: "y AND RAB_FLAGS_DRV_FIXED = 0 \<longleftrightarrow> \<not> bit y 3"
  using flag_bits(4) [of y] unfolding BIT_GET_def by blast

lemma RAB_GET_PROT_zero: "RAB_GET_PROT fl = 0 \<Longrightarrow> \<not> bit fl 0"
proof -
  assume "RAB_GET_PROT fl = 0"
  then have "\<not> bit (fl AND 7) 0" by (simp add: RAB_GET_PROT_def)
  then show ?thesis by (simp add: bit_and_iff)
qed

lemma RAB_GET_PROT_en: "RAB_GET_PROT fl AND 1 = 0 \<longleftrightarrow> \<not> bit fl 0"
proof -
  have "RAB_GET_PROT fl AND 1 = fl AND 1" by (simp add: RAB_GET_PROT_def and.assoc)
  then show ?thesis using and_single_bit_0 [of fl 0] by simp
qed

lemma RAB_MAX_DATE_eq [simp]: "RAB_MAX_DATE = 255" "RAB_MAX_DATE_MH = 253"
  by (simp_all add: RAB_MAX_DATE_def RAB_MAX_DATE_MH_def mask_eq_exp_minus_1)

lemmas rab_offsets = RAB_SLICE_SIZE_B_def RAB_SLICE_BASE_OFFSET_B_def RAB_SLICE_ADDR_START_OFFSET_B_def
  RAB_SLICE_ADDR_END_OFFSET_B_def RAB_SLICE_ADDR_OFFSET_OFFSET_B_def RAB_SLICE_FLAGS_OFFSET_B_def
  RAB_L1_PORT_1_OFFSET_def

text \<open>The registers of different slices do not overlap.\<close>

definition entry0 :: "nat \<Rightarrow> nat" where "entry0 k = rab_entry 0 k"
definition entry1 :: "nat \<Rightarrow> nat" where "entry1 k = rab_entry 1 k"

lemma rab_entry_fold [simp]:
  "rab_entry 0 k = entry0 k" "rab_entry 1 k = entry1 k" "rab_entry (Suc 0) k = entry1 k"
  by (simp_all add: entry0_def entry1_def)

lemma entry_nums: "entry0 k = 28 * k" "entry1 k = 28 * k + 4096"
  by (simp_all add: entry0_def entry1_def rab_entry_def rab_offsets del: rab_entry_fold)

lemma reg_inj [simp]:
  "entry1 k = entry1 k' \<longleftrightarrow> k = k'"
  "r < 28 \<Longrightarrow> r' < 28 \<Longrightarrow> entry1 k + r = entry1 k' + r' \<longleftrightarrow> k = k' \<and> r = r'"
  "r < 28 \<Longrightarrow> entry1 k + r = entry1 k' \<longleftrightarrow> k = k' \<and> r = 0"
  "r < 28 \<Longrightarrow> entry1 k' = entry1 k + r \<longleftrightarrow> k = k' \<and> r = 0"
proof -
  have *: "28 * a + x = 28 * b + y \<longleftrightarrow> a = b \<and> x = y" if "x < 28" "y < 28" for a b x y :: nat
  proof
    assume eq: "28 * a + x = 28 * b + y"
    have "a = (28 * a + x) div 28" "b = (28 * b + y) div 28" using that by simp_all
    then show "a = b \<and> x = y" using eq by simp
  qed simp
  show "entry1 k = entry1 k' \<longleftrightarrow> k = k'" unfolding entry_nums by simp
  show "r < 28 \<Longrightarrow> r' < 28 \<Longrightarrow> entry1 k + r = entry1 k' + r' \<longleftrightarrow> k = k' \<and> r = r'"
    using * [of r r' k k'] unfolding entry_nums by simp
  show "r < 28 \<Longrightarrow> entry1 k + r = entry1 k' \<longleftrightarrow> k = k' \<and> r = 0"
    using * [of r 0 k k'] unfolding entry_nums by simp
  show "r < 28 \<Longrightarrow> entry1 k' = entry1 k + r \<longleftrightarrow> k = k' \<and> r = 0"
    using * [of 0 r k' k] unfolding entry_nums by auto
qed

lemma reg_ports [simp]: "k < 4 \<Longrightarrow> r < 28 \<Longrightarrow> entry0 k + r \<noteq> entry1 k' + r'" "k < 4 \<Longrightarrow> r < 28 \<Longrightarrow> entry1 k' + r' \<noteq> entry0 k + r"
  unfolding entry_nums by simp_all

text \<open>The registers of a slice show an entry: it is enabled exactly if the entry is, and then with the
  entry's bounds, offset and flags.\<close>

definition shows1 :: "(nat \<Rightarrow> u64) \<Rightarrow> nat \<Rightarrow> L1EntryPort1 \<Rightarrow> bool" where
  "shows1 h k e \<longleftrightarrow>
     (bit (h (entry1 k + 24)) 0 \<longleftrightarrow> bit (e_flags_hw e) 0) \<and>
     (bit (e_flags_hw e) 0 \<longrightarrow>
        h (entry1 k + 24) = ucast (e_flags_hw e) \<and> h (entry1 k) = ucast (drop_bit 12 (e_addr_start e)) \<and>
        h (entry1 k + 8) = ucast (drop_bit 12 (e_addr_end e)) \<and>
        h (entry1 k + 16) = drop_bit 12 (e_addr_offset e))"

definition mirror1 :: "rab \<Rightarrow> bool" where
  "mirror1 s \<longleftrightarrow> (\<forall>k < 32. shows1 (hw s) k (slices (mappings s ! mapping_active s) ! k))"

lemma shows1_cong:
  "h (entry1 k) = h' (entry1 k) \<Longrightarrow> h (entry1 k + 8) = h' (entry1 k + 8) \<Longrightarrow>
   h (entry1 k + 16) = h' (entry1 k + 16) \<Longrightarrow> h (entry1 k + 24) = h' (entry1 k + 24) \<Longrightarrow>
   shows1 h k e = shows1 h' k e"
  by (simp add: shows1_def)

lemma iowrite_simps [simp]:
  "hw (iowrite a v s) = (hw s)(a := v)" "port_0 (iowrite a v s) = port_0 s" "mappings (iowrite a v s) = mappings s"
  "mapping_active (iowrite a v s) = mapping_active s" "soc_mh_is_ena (iowrite a v s) = soc_mh_is_ena s"
  "n_slices_reserved (iowrite a v s) = n_slices_reserved s" "kern_log (iowrite a v s) = kern_log s"
  "stripe_reqs (iowrite a v s) = stripe_reqs s" "mh_on (iowrite a v s) = mh_on s" "mh_date (iowrite a v s) = mh_date s"
  "mh_acp (iowrite a v s) = mh_acp s" "mh_lvl (iowrite a v s) = mh_lvl s" "mh_wq (iowrite a v s) = mh_wq s"
  by (simp_all add: iowrite_def)

lemma write_slice_simps [simp]:
  "port_0 (write_slice a b c d f s) = port_0 s" "mappings (write_slice a b c d f s) = mappings s"
  "mapping_active (write_slice a b c d f s) = mapping_active s" "soc_mh_is_ena (write_slice a b c d f s) = soc_mh_is_ena s"
  "n_slices_reserved (write_slice a b c d f s) = n_slices_reserved s" "kern_log (write_slice a b c d f s) = kern_log s"
  "stripe_reqs (write_slice a b c d f s) = stripe_reqs s" "mh_on (write_slice a b c d f s) = mh_on s" "mh_date (write_slice a b c d f s) = mh_date s"
  "mh_acp (write_slice a b c d f s) = mh_acp s" "mh_lvl (write_slice a b c d f s) = mh_lvl s" "mh_wq (write_slice a b c d f s) = mh_wq s"
  by (simp_all add: write_slice_def)

lemma upd_mapping_simps [simp]:
  "port_0 (upd_mapping j f s) = port_0 s" "hw (upd_mapping j f s) = hw s"
  "mappings (upd_mapping j f s) = (mappings s)[j := f (mappings s ! j)]"
  "mapping_active (upd_mapping j f s) = mapping_active s" "soc_mh_is_ena (upd_mapping j f s) = soc_mh_is_ena s"
  "n_slices_reserved (upd_mapping j f s) = n_slices_reserved s" "kern_log (upd_mapping j f s) = kern_log s"
  "stripe_reqs (upd_mapping j f s) = stripe_reqs s" "mh_on (upd_mapping j f s) = mh_on s" "mh_date (upd_mapping j f s) = mh_date s"
  "mh_acp (upd_mapping j f s) = mh_acp s" "mh_lvl (upd_mapping j f s) = mh_lvl s" "mh_wq (upd_mapping j f s) = mh_wq s"
  by (simp_all add: upd_mapping_def)

lemma bit_ucast_0: "bit (ucast (f :: u8) :: u64) 0 \<longleftrightarrow> bit f 0"
  by (simp add: bit_ucast_iff)

lemma write_slice_shows:
  "shows1 (hw (write_slice (entry1 k) a b c f s)) k e
     \<longleftrightarrow> (bit f 0 \<longleftrightarrow> bit (e_flags_hw e) 0) \<and>
         (bit f 0 \<longrightarrow> (ucast f :: u64) = ucast (e_flags_hw e) \<and> (ucast (drop_bit 12 a) :: u64) = ucast (drop_bit 12 (e_addr_start e))
            \<and> (ucast (drop_bit 12 b) :: u64) = ucast (drop_bit 12 (e_addr_end e)) \<and> drop_bit 12 c = drop_bit 12 (e_addr_offset e))"
  by (auto simp: shows1_def write_slice_def rab_offsets bit_ucast_0)

lemma write_slice_other:
  "k \<noteq> k' \<Longrightarrow> shows1 (hw (write_slice (entry1 k) a b c f s)) k' e = shows1 (hw s) k' e"
  by (intro shows1_cong) (auto simp: write_slice_def rab_offsets)

lemma iowrite_flags_other:
  "k \<noteq> k' \<Longrightarrow> shows1 ((hw s)(entry1 k + 24 := v)) k' e = shows1 (hw s) k' e"
  by (intro shows1_cong) auto

lemma iowrite_flags_0: "shows1 ((hw s)(entry1 k + 24 := 0)) k e \<longleftrightarrow> \<not> bit (e_flags_hw e) 0"
  by (auto simp: shows1_def)

subsection \<open>Switching\<close>

lemma deactivate_loop:
  defines "e \<equiv> \<lambda>s k. slices (mappings s ! mapping_active s) ! k"
  shows "foldl deactivate_slice s [0 ..< n] =
    s\<lparr>hw := (\<lambda>a. if \<exists>k < n. a = entry1 k + 24 \<and> RAB_GET_PROT (e_flags_hw (e s k)) \<noteq> 0 then 0 else hw s a)\<rparr>"
proof (induction n)
  case (Suc n)
  have st: "foldl deactivate_slice s [0 ..< Suc n] = deactivate_slice (foldl deactivate_slice s [0 ..< n]) n" by simp
  define H where "H = (\<lambda>n a. if \<exists>k < n. a = entry1 k + 24 \<and> RAB_GET_PROT (e_flags_hw (e s k)) \<noteq> 0 then 0 else hw s a)"
  have "H (Suc n) = (if RAB_GET_PROT (e_flags_hw (e s n)) \<noteq> 0 then (H n)(entry1 n + 24 := 0) else H n)"
    by (auto simp: H_def fun_eq_iff less_Suc_eq)
  then have "deactivate_slice (s\<lparr>hw := H n\<rparr>) n = s\<lparr>hw := H (Suc n)\<rparr>"
    by (simp add: deactivate_slice_def iowrite_def e_def rab_offsets)
  then show ?case unfolding st Suc.IH H_def .
qed simp

lemma activate_step:
  "activate_slice j s i = s\<lparr>hw := hw (activate_slice j s i)\<rparr>"
  by (simp add: activate_slice_def write_slice_def iowrite_def Let_def)

lemma activate_loop:
  "foldl (activate_slice j) s [0 ..< n] = s\<lparr>hw := hw (foldl (activate_slice j) s [0 ..< n])\<rparr>
   \<and> (\<forall>k e. n \<le> k \<longrightarrow> shows1 (hw (foldl (activate_slice j) s [0 ..< n])) k e = shows1 (hw s) k e)
   \<and> (\<forall>k < n. let e = slices (mappings s ! j) ! k in
        if bit (e_flags_hw e) 0 then shows1 (hw (foldl (activate_slice j) s [0 ..< n])) k e
        else \<forall>e. shows1 (hw (foldl (activate_slice j) s [0 ..< n])) k e = shows1 (hw s) k e)"
proof (induction n)
  case (Suc n)
  define t where "t = foldl (activate_slice j) s [0 ..< n]"
  have t: "t = s\<lparr>hw := hw t\<rparr>"
    and ge: "\<And>k e. n \<le> k \<Longrightarrow> shows1 (hw t) k e = shows1 (hw s) k e"
    and lt: "\<And>k. k < n \<Longrightarrow> let e = slices (mappings s ! j) ! k in
        if bit (e_flags_hw e) 0 then shows1 (hw t) k e else \<forall>e. shows1 (hw t) k e = shows1 (hw s) k e"
    using Suc.IH unfolding t_def [symmetric] by blast+
  then have tm: "mappings t = mappings s" by (metis rab.select_convs(2) rab.surjective rab.update_convs(4))
  define e where "e = slices (mappings s ! j) ! n"
  have st: "foldl (activate_slice j) s [0 ..< Suc n] = activate_slice j t n" by (simp add: t_def)
  have a: "activate_slice j t n = (if bit (e_flags_hw e) 0
      then write_slice (entry1 n) (e_addr_start e) (e_addr_end e) (e_addr_offset e) (e_flags_hw e) t else t)"
    by (simp add: activate_slice_def tm e_def Let_def RAB_GET_PROT_en)
  have other: "shows1 (hw (activate_slice j t n)) k e' = shows1 (hw t) k e'" if "k \<noteq> n" for k e'
    using write_slice_other [of n k] that by (auto simp: a)
  have self: "if bit (e_flags_hw e) 0 then shows1 (hw (activate_slice j t n)) n e
      else \<forall>e'. shows1 (hw (activate_slice j t n)) n e' = shows1 (hw t) n e'"
    using write_slice_shows [of n] by (simp add: a)
  show ?case unfolding st
  proof (intro conjI allI impI)
    show "activate_slice j t n = s\<lparr>hw := hw (activate_slice j t n)\<rparr>"
      using activate_step [of j t n] t by (metis rab.update_convs(4) rab.surjective)
    show "shows1 (hw (activate_slice j t n)) k e' = shows1 (hw s) k e'" if "Suc n \<le> k" for k e'
      using ge other that by simp
    show "let e = slices (mappings s ! j) ! k in
        if bit (e_flags_hw e) 0 then shows1 (hw (activate_slice j t n)) k e
        else \<forall>e. shows1 (hw (activate_slice j t n)) k e = shows1 (hw s) k e" if "k < Suc n" for k
      using ge [of k] lt [of k] other self that by (cases "k = n") (simp_all add: e_def Let_def split: if_splits)
  qed
qed simp

text \<open>Switching the mapping: what is enabled in the hardware afterwards is exactly the new mapping.\<close>

lemma mapping_switch_mirror:
  assumes "mirror1 s"
  shows "mirror1 (pulp_rab_mapping_switch s j)"
    and "pulp_rab_mapping_switch s j = s\<lparr>mapping_active := j, hw := hw (pulp_rab_mapping_switch s j)\<rparr>"
proof -
  define e where "e = (\<lambda>k. slices (mappings s ! mapping_active s) ! k)"
  define h where "h = (\<lambda>a. if \<exists>k < 32. a = entry1 k + 24 \<and> RAB_GET_PROT (e_flags_hw (e k)) \<noteq> 0 then 0 else hw s a)"
  define s1 where "s1 = s\<lparr>hw := h\<rparr>"
  define s2 where "s2 = foldl (activate_slice j) s1 [0 ..< 32]"
  have s1: "foldl deactivate_slice s [0 ..< 32] = s1"
    using deactivate_loop [of s 32] by (simp add: s1_def h_def e_def)
  have off: "\<not> bit (h (entry1 k + 24)) 0" if "k < 32" for k
  proof (cases "RAB_GET_PROT (e_flags_hw (e k)) = 0")
    case True
    then have "\<not> bit (e_flags_hw (e k)) 0" by (rule RAB_GET_PROT_zero)
    then have "\<not> bit (hw s (entry1 k + 24)) 0"
      using assms that by (auto simp: mirror1_def shows1_def e_def)
    then show ?thesis using True by (auto simp: h_def)
  qed (use that in \<open>auto simp: h_def\<close>)
  have s2: "s2 = s1\<lparr>hw := hw s2\<rparr>" and act: "\<forall>k < 32. let e = slices (mappings s1 ! j) ! k in
        if bit (e_flags_hw e) 0 then shows1 (hw s2) k e else \<forall>e. shows1 (hw s2) k e = shows1 (hw s1) k e"
    using activate_loop [of j s1 32] unfolding s2_def by blast+
  have sw: "pulp_rab_mapping_switch s j = s2\<lparr>mapping_active := j\<rparr>"
    by (simp add: pulp_rab_mapping_switch_def RAB_L1_N_SLICES_PORT_1_def s1 s2_def)
  have m2: "mappings s2 = mappings s" by (subst s2) (simp add: s1_def)
  show "pulp_rab_mapping_switch s j = s\<lparr>mapping_active := j, hw := hw (pulp_rab_mapping_switch s j)\<rparr>"
    unfolding sw by (subst s2) (simp add: s1_def)
  have "shows1 (hw s2) k (slices (mappings s ! j) ! k)" if "k < 32" for k
    using act that off [OF that] by (auto simp: s1_def Let_def shows1_def split: if_splits)
  then show "mirror1 (pulp_rab_mapping_switch s j)"
    by (simp add: mirror1_def sw m2)
qed

text \<open>C27: Switching between the two mappings of port 1 leaves the tables alone, and if the registers showed the old
  active mapping before, they show the new one afterwards: a slice is enabled exactly if it is enabled in the new
  mapping, and then with that mapping's bounds, offset and flags.\<close>

theorem mapping_switch_installs:
  assumes "mirror1 s"
  shows "let s' = pulp_rab_mapping_switch s j
    in mappings s' = mappings s \<and> port_0 s' = port_0 s \<and> mapping_active s' = j \<and>
       (\<forall>k < 32. shows1 (hw s') k (slices (mappings s ! j) ! k))"
proof -
  let ?s' = "pulp_rab_mapping_switch s j"
  have eq: "?s' = s\<lparr>mapping_active := j, hw := hw ?s'\<rparr>" by (rule mapping_switch_mirror(2) [OF assms])
  have "mappings ?s' = mappings s" "port_0 ?s' = port_0 s" "mapping_active ?s' = j"
    by (subst eq, simp)+
  then show ?thesis using mapping_switch_mirror(1) [OF assms, of j] by (simp add: Let_def mirror1_def)
qed

text \<open>A state in which slice 3 is enabled in mapping 1 only.\<close>

definition ex_entry :: "u8 \<Rightarrow> L1EntryPort1" where
  "ex_entry fl = \<lparr>e_fixed = False, e_date_cur = 0, e_date_exp = 0, e_page_ptr_idx = 0, e_page_idx_start = 0,
     e_page_idx_end = 0, e_flags_drv = 0, e_addr_start = 0x5000, e_addr_end = 0x5FFF, e_addr_offset = 0x9000,
     e_flags_hw = fl\<rparr>"

definition ex_mapping :: "L1EntryPort1 list \<Rightarrow> L1TlbMappingPort1" where
  "ex_mapping es = \<lparr>slices = es, page_ptrs = replicate 32 None, page_ptr_ref_cntrs = replicate 32 0\<rparr>"

definition ex_rab :: rab where
  "ex_rab = \<lparr>port_0 = [], mappings = [ex_mapping (replicate 32 (ex_entry 0)),
       ex_mapping ((replicate 32 (ex_entry 0))[3 := ex_entry 7])],
     mapping_active = 0, hw = (\<lambda>_. 0), soc_mh_is_ena = False, n_slices_reserved = 0, stripe_reqs = [], mh_on = False,
     mh_date = 0, mh_acp = False, mh_lvl = 0, mh_wq = False, kern_log = []\<rparr>"

lemma ex_rab_mirror: "mirror1 ex_rab"
  by (simp add: mirror1_def shows1_def ex_rab_def ex_mapping_def ex_entry_def)

theorem mapping_switch_installs_witness:
  "mirror1 ex_rab \<and> hw (pulp_rab_mapping_switch ex_rab 1) (28 * 3 + 4096 + 24) = 7
     \<and> hw (pulp_rab_mapping_switch ex_rab 1) (28 * 3 + 4096 + 16) = 9"
proof -
  have e: "slices (mappings ex_rab ! 1) ! 3 = ex_entry 7"
    by (simp add: ex_rab_def ex_mapping_def)
  have "shows1 (hw (pulp_rab_mapping_switch ex_rab 1)) 3 (slices (mappings ex_rab ! 1) ! 3)"
    using mapping_switch_installs [OF ex_rab_mirror, of 1] by (simp add: Let_def)
  then show ?thesis
    using ex_rab_mirror unfolding e by (simp add: shows1_def ex_entry_def entry_nums)
qed

subsection \<open>Finding a slice\<close>

text \<open>\<open>pulp_rab_slice_get\<close> returns the first slice of the port that is expired (or unused), not fixed unless
  the request is, and managed by the host; it reports an error exactly if there is none.\<close>

theorem slice_get_first:
  "pulp_rab_slice_get s req = (err, req') \<Longrightarrow>
     (let ok = (\<lambda>k. pulp_rab_slice_check s (req\<lparr>rq_slice := k\<rparr>) \<and> pulp_rab_slice_is_managed_by_host s (req\<lparr>rq_slice := k\<rparr>))
      in (err = 0 \<and> rq_slice req' < n_slices_of (rq_port req) \<and> ok (rq_slice req') \<and> (\<forall>k < rq_slice req'. \<not> ok k)
            \<and> req' = req\<lparr>rq_slice := rq_slice req'\<rparr>)
         \<or> (err = 1 \<and> (\<forall>k < n_slices_of (rq_port req). \<not> ok k)))"
  unfolding pulp_rab_slice_get_def Let_def
  by (auto simp: find_None_iff find_Some_iff split: option.splits)

theorem slice_get_first_witness:
  "let req = \<lparr>rq_date_cur = 1, rq_date_exp = 2, rq_page_ptr_idx = 0, rq_page_idx_start = 0, rq_page_idx_end = 0,
         rq_port = 1, rq_lvl = 1, rq_mapping = 0, rq_slice = 9, rq_flags_drv = 0, rq_addr_start = 0,
         rq_addr_end = 0, rq_addr_offset = 0, rq_flags_hw = 7\<rparr>
   in pulp_rab_slice_get ex_rab req = (0, req\<lparr>rq_slice := 0\<rparr>)
      \<and> pulp_rab_slice_check ex_rab (req\<lparr>rq_slice := 0\<rparr>)"
proof -
  let ?req = "\<lparr>rq_date_cur = 1, rq_date_exp = 2, rq_page_ptr_idx = 0, rq_page_idx_start = 0, rq_page_idx_end = 0,
         rq_port = 1, rq_lvl = 1, rq_mapping = 0, rq_slice = 9, rq_flags_drv = 0, rq_addr_start = 0,
         rq_addr_end = 0, rq_addr_offset = 0, rq_flags_hw = 7\<rparr> :: RabSliceReq"
  have "[0 ..< RAB_L1_N_SLICES_PORT_1] = 0 # [1 ..< 32]" by (simp add: upt_conv_Cons RAB_L1_N_SLICES_PORT_1_def)
  then have g: "pulp_rab_slice_get ex_rab ?req = (0, ?req\<lparr>rq_slice := 0\<rparr>)"
    by (simp add: pulp_rab_slice_get_def n_slices_of_def pulp_rab_slice_check_def
        pulp_rab_slice_is_managed_by_host_def ex_rab_def ex_mapping_def ex_entry_def)
  show ?thesis using slice_get_first [OF g] g by (simp add: Let_def)
qed

end
