(* ===== verification/Drv_Rab_Req.thy ===== *)
theory Drv_Rab_Req
  imports Drv_Rab
begin

text \<open>
  Requests for mappings and their release in the driver (\<open>pulp_rab_req\<close>, \<open>pulp_rab_setup\<close>, \<open>pulp_rab_init\<close>,
  \<open>pulp_rab_free\<close> of \<open>pulp-driver/pulp_rab.c\<close>), and the invariant they keep.

  The C code forces the use of the first TLB level (\<open>rab_use_l1 = 1\<close>), so that the branch for the second level
  is never taken; it is not part of the model. A result \<open>None\<close> stands for undefined behaviour: page
  pointers that the kernel did not fill in, or segment vectors that could not be allocated, whose error code the unsigned
  comparison does not notice.
\<close>

definition MBOX_H_BASE_ADDR :: u32 where [hw_consts]: "MBOX_H_BASE_ADDR = 0xA6000000"
definition L2_MEM_H_BASE_ADDR :: u32 where [hw_consts]: "L2_MEM_H_BASE_ADDR = 0xA7000000"
definition PULP_H_BASE_ADDR :: u32 where [hw_consts]: "PULP_H_BASE_ADDR = 0xA0000000"
definition L3_MEM_SIZE_B :: u32 where [hw_consts]: "L3_MEM_SIZE_B = 128 * 1024 * 1024"
definition L3_MEM_H_BASE_ADDR :: u64 where [hw_consts]: "L3_MEM_H_BASE_ADDR = 0x80000000 - ucast L3_MEM_SIZE_B"
definition PULP_BASE_ADDR :: u64 where [hw_consts]: "PULP_BASE_ADDR = 0x10000000"
definition MBOX_BASE_ADDR :: u64 where [hw_consts]: "MBOX_BASE_ADDR = 0x1B800000"
definition L2_MEM_BASE_ADDR :: u64 where [hw_consts]: "L2_MEM_BASE_ADDR = 0x1C000000"
definition L3_MEM_BASE_ADDR :: u32 where [hw_consts]: "L3_MEM_BASE_ADDR = 0x80000000"
definition MBOX_SIZE_B :: u32 where [hw_consts]: "MBOX_SIZE_B = 0x1000"
definition L2_MEM_SIZE_B :: u32 where [hw_consts]: "L2_MEM_SIZE_B = 128 * 1024"
definition CLUSTERS_SIZE_B :: u32 where [hw_consts]: "CLUSTERS_SIZE_B = 1 * (4 * 1024 * 1024)"

definition const_offset :: "RabSliceReq \<Rightarrow> u64" where
  "const_offset req =
     (if rq_addr_start req = MBOX_H_BASE_ADDR then MBOX_BASE_ADDR + ucast MBOX_SIZE_B
      else if rq_addr_start req = L2_MEM_H_BASE_ADDR then L2_MEM_BASE_ADDR
      else if rq_addr_start req = PULP_H_BASE_ADDR then PULP_BASE_ADDR
      else if rq_addr_start req = L3_MEM_BASE_ADDR then L3_MEM_H_BASE_ADDR
      else rq_addr_offset req)"

text \<open>One mapping \<open>j\<close> of the inner loop; a non-zero first component is the return of the function.\<close>

definition req_mapping :: "kern \<Rightarrow> page list option \<Rightarrow> bool \<Rightarrow> int \<times> RabSliceReq \<times> rab \<Rightarrow> nat \<Rightarrow> int \<times> RabSliceReq \<times> rab" where
  "req_mapping K pages is_first r j =
     (let (err, req, s) = r in
      if err \<noteq> 0 then r
      else
        let req = (if rq_port req = 1 \<and> BIT_GET (rq_flags_drv req) RAB_FLAGS_DRV_EVERY
                   then req\<lparr>rq_mapping := j\<rparr> else req)
        in if rq_mapping req \<noteq> j then (0, req, s)
           else
             let (err, req) = (if is_first \<and> rq_port req = 1 then pulp_rab_page_ptrs_get_field s req else (0, req))
             in if err \<noteq> 0 then (err, req, s)
                else
                  let (err, req) = pulp_rab_slice_get s req
                  in if err \<noteq> 0 then (err, req, s)
                     else let (err, s) = pulp_rab_slice_setup (pulp_rab_slice_free K s req) req pages
                          in (err, req, s))"

definition flush_segment :: "page list \<Rightarrow> sg_seg list \<Rightarrow> nat \<Rightarrow> kern_call list" where
  "flush_segment pages segs i =
     map (\<lambda>j. CacheFlush (pages ! j)
            (if i = 0 then ucast (BF_GET (ucast (sg_start (segs ! i))) 0 PAGE_SHIFT) else 0)
            (if i = length segs - 1 then ucast (BF_GET (ucast (sg_end (segs ! i))) 0 PAGE_SHIFT) else PAGE_SIZE))
       [sg_page_start (segs ! i) ..< sg_page_end (segs ! i) + 1]"

definition req_of_seg :: "sg_seg \<Rightarrow> RabSliceReq \<Rightarrow> RabSliceReq" where
  "req_of_seg g req =
     req\<lparr>rq_addr_start := sg_start g, rq_addr_end := sg_end g, rq_addr_offset := sg_offset g,
         rq_page_idx_start := of_nat (sg_page_start g), rq_page_idx_end := of_nat (sg_page_end g)\<rparr>"

definition req_segment ::
  "kern \<Rightarrow> page list \<Rightarrow> sg_seg list \<Rightarrow> int \<times> RabSliceReq \<times> rab \<Rightarrow> nat \<Rightarrow> int \<times> RabSliceReq \<times> rab" where
  "req_segment K pages segs r i =
     (let (err, req, s) = r in
      if err \<noteq> 0 then r
      else
        let (err, req, s) = foldl (req_mapping K (Some pages) (i = 0)) (0, req_of_seg (segs ! i) req, s)
                              [0 ..< RAB_L1_N_MAPPINGS_PORT_1]
        in if err \<noteq> 0 then (err, req, s)
           else (0, req,
             if \<not> BIT_GET (rq_flags_hw req) RAB_FLAGS_HW_CC
             then s\<lparr>kern_log := kern_log s @ flush_segment pages segs i\<rparr> else s))"

definition pulp_rab_req :: "kern \<Rightarrow> rab \<Rightarrow> RabSliceReq \<Rightarrow> (int \<times> RabSliceReq \<times> rab) option" where
  "pulp_rab_req K s req =
     (let size_b = rq_addr_end req - rq_addr_start req;
          req = (if rq_port req = 0 \<or> rq_addr_start req = L3_MEM_BASE_ADDR
                 then req\<lparr>rq_flags_drv := BIT_SET (rq_flags_drv req) (RAB_FLAGS_DRV_CONST OR RAB_FLAGS_DRV_EVERY)\<rparr>
                 else req\<lparr>rq_flags_drv := BIT_SET (rq_flags_drv req) RAB_FLAGS_DRV_EVERY\<rparr>)
      in if BIT_GET (rq_flags_drv req) RAB_FLAGS_DRV_CONST
         then Some (foldl (req_mapping K None True) (0, req\<lparr>rq_addr_offset := const_offset req\<rparr>, s)
                      [0 ..< RAB_L1_N_MAPPINGS_PORT_1])
         else
           let len = pulp_mem_get_num_pages (rq_addr_start req) size_b;
               (err, pages) = pulp_mem_get_user_pages (gup_ok K) (gup_fast K) (rq_addr_start req) len
                                (ucast (rq_flags_hw req AND RAB_FLAGS_HW_WRITE))
           in if err \<noteq> 0 then Some (err, req, s)
              else if length pages \<noteq> unat len then None
              else
                let s = s\<lparr>kern_log := kern_log s @ [PinPages pages]\<rparr>;
                    req = (if rq_lvl req = 0 then snd (pulp_rab_num_free_slices s req) else req)
                in case pulp_mem_map_sg (kmalloc_ok K) (map (page_to_phys K) pages) (rq_addr_start req) (rq_addr_end req) of
                     Inl _ \<Rightarrow> None
                   | Inr segs \<Rightarrow> Some (foldl (req_segment K pages segs) (0, req, s) [0 ..< length segs]))"

subsection \<open>Initialisation\<close>

text \<open>\<open>junk\<close> stands for the uninitialised request on the stack.\<close>

definition setup_req :: "RabSliceReq \<Rightarrow> RabSliceReq" where
  "setup_req junk =
     junk\<lparr>rq_flags_drv := RAB_FLAGS_DRV_FIXED OR RAB_FLAGS_DRV_CONST,
          rq_flags_hw := RAB_FLAGS_HW_EN OR RAB_FLAGS_HW_READ OR RAB_FLAGS_HW_WRITE,
          rq_lvl := 0, rq_mapping := 0, rq_date_exp := RAB_MAX_DATE, rq_date_cur := RAB_MAX_DATE\<rparr>"

definition setup_one ::
  "kern \<Rightarrow> (int \<times> RabSliceReq \<times> rab) option \<Rightarrow> nat \<times> u32 \<times> u32 \<Rightarrow> (int \<times> RabSliceReq \<times> rab) option" where
  "setup_one K r x =
     (case r of None \<Rightarrow> None
      | Some (err, req, s) \<Rightarrow>
          if err \<noteq> 0 then r
          else pulp_rab_req K s (req\<lparr>rq_port := fst x, rq_addr_start := fst (snd x), rq_addr_end := fst (snd x) + snd (snd x)\<rparr>))"

definition pulp_rab_setup :: "kern \<Rightarrow> RabSliceReq \<Rightarrow> rab \<Rightarrow> (int \<times> RabSliceReq \<times> rab) option" where
  "pulp_rab_setup K junk s =
     foldl (setup_one K) (Some (0, setup_req junk, s))
       [(0, L2_MEM_H_BASE_ADDR, L2_MEM_SIZE_B), (0, MBOX_H_BASE_ADDR, MBOX_SIZE_B),
        (0, PULP_H_BASE_ADDR, CLUSTERS_SIZE_B), (1, L3_MEM_BASE_ADDR, L3_MEM_SIZE_B)]"

subsection \<open>Releasing\<close>

definition free_flags :: "rab \<Rightarrow> bool \<Rightarrow> RabSliceReq \<Rightarrow> nat \<Rightarrow> u8" where
  "free_flags s fixed req n_mappings =
     (let fl = (if rq_port req = 1
                then let fl = e_flags_drv (slices (mappings s ! rq_mapping req) ! rq_slice req)
                     in if BIT_GET fl RAB_FLAGS_DRV_EVERY \<and> rq_mapping req = n_mappings - 1
                        then BIT_CLEAR fl RAB_FLAGS_DRV_EVERY else fl
                else BIT_SET (rq_flags_drv req) RAB_FLAGS_DRV_CONST)
      in if fixed then BIT_SET fl RAB_FLAGS_DRV_FIXED else BIT_CLEAR fl RAB_FLAGS_DRV_FIXED)"

definition free_step :: "kern \<Rightarrow> bool \<Rightarrow> nat \<Rightarrow> RabSliceReq \<times> rab \<Rightarrow> nat \<Rightarrow> RabSliceReq \<times> rab" where
  "free_step K fixed n_mappings r k =
     (let (req, s) = r;
          req = req\<lparr>rq_slice := k\<rparr>;
          req = req\<lparr>rq_flags_drv := free_flags s fixed req n_mappings\<rparr>
      in (req, if pulp_rab_slice_check s req then pulp_rab_slice_free K s req else s))"

definition free_mapping :: "kern \<Rightarrow> bool \<Rightarrow> nat \<Rightarrow> RabSliceReq \<times> rab \<Rightarrow> nat \<Rightarrow> RabSliceReq \<times> rab" where
  "free_mapping K fixed n_mappings r j =
     (let (req, s) = r
      in foldl (free_step K fixed n_mappings) (req\<lparr>rq_mapping := j\<rparr>, s) [0 ..< n_slices_of (rq_port req)])"

definition free_port :: "kern \<Rightarrow> bool \<Rightarrow> RabSliceReq \<times> rab \<Rightarrow> nat \<Rightarrow> RabSliceReq \<times> rab" where
  "free_port K fixed r i =
     (let (req, s) = r; n_mappings = (if i = 0 then 1 else RAB_L1_N_MAPPINGS_PORT_1)
      in foldl (free_mapping K fixed n_mappings) (req\<lparr>rq_port := i\<rparr>, s) [0 ..< n_mappings])"

definition pulp_rab_free :: "kern \<Rightarrow> RabSliceReq \<Rightarrow> rab \<Rightarrow> u8 \<Rightarrow> bool \<Rightarrow> rab" where
  "pulp_rab_free K junk s date fixed =
     snd (foldl (free_port K fixed) (junk\<lparr>rq_date_cur := date, rq_flags_drv := 0\<rparr>, s) [0 ..< RAB_N_PORTS])"

subsection \<open>Disabling the miss handler on the SoC\<close>

definition EALREADY :: int where [hw_consts]: "EALREADY = 114"

definition soc_mh_dis_step :: "kern \<Rightarrow> RabSliceReq \<Rightarrow> rab \<Rightarrow> nat \<Rightarrow> rab" where
  "soc_mh_dis_step K junk s i =
     pulp_rab_slice_free K s (junk\<lparr>rq_port := 1, rq_mapping := 0, rq_flags_drv := BIT_SET 0 RAB_FLAGS_DRV_CONST, rq_slice := i\<rparr>)"

definition pulp_rab_soc_mh_dis :: "kern \<Rightarrow> RabSliceReq \<Rightarrow> rab \<Rightarrow> int \<times> rab" where
  "pulp_rab_soc_mh_dis K junk s =
     (if \<not> soc_mh_is_ena s then (- EALREADY, s)
      else
        let s = foldl (soc_mh_dis_step K junk) s [1 ..< n_slices_reserved s]
        in (0, s\<lparr>n_slices_reserved := RAB_L1_N_SLICES_PORT_1, soc_mh_is_ena := False\<rparr>))"

end
