(* ===== verification/Drv_Rab_Inv.thy ===== *)
theory Drv_Rab_Inv
  imports Drv_Rab_Req
begin

text \<open>
  The invariant of the slice tables of port 1 under requests, releases and switches of the driver, and what it
  gives: the reference counters of the page pointers count the slices, the two mappings stay equal, the pages of
  a slice are unpinned exactly once.
\<close>

subsection \<open>Counting references\<close>

definition idxs :: "L1TlbMappingPort1 \<Rightarrow> nat list" where "idxs m = map e_page_ptr_idx (slices m)"
definition cnt :: "L1TlbMappingPort1 \<Rightarrow> nat \<Rightarrow> nat" where "cnt m f = count_list (idxs m) f"

lemma count_list_update:
  "i < length xs \<Longrightarrow>
   count_list (xs[i := y]) f + (if xs ! i = f then 1 else 0) = count_list xs f + (if y = f then 1 else 0)"
proof (induction xs arbitrary: i)
  case (Cons x xs)
  show ?case
  proof (cases i)
    case (Suc i')
    then show ?thesis using Cons.IH [of i'] Cons.prems by (simp split: if_splits)
  qed simp
qed simp

lemma cnt_update:
  "k < length (slices m) \<Longrightarrow>
   cnt (m\<lparr>slices := (slices m)[k := e]\<rparr>) f + (if e_page_ptr_idx (slices m ! k) = f then 1 else 0)
     = cnt m f + (if e_page_ptr_idx e = f then 1 else 0)"
  using count_list_update [of k "idxs m" "e_page_ptr_idx e" f] by (simp add: cnt_def idxs_def map_update)

lemma cnt_le: "cnt m f \<le> length (slices m)"
  using count_le_length [of "idxs m" f] by (simp add: cnt_def idxs_def)

lemma cnt_pos: "k < length (slices m) \<Longrightarrow> e_page_ptr_idx (slices m ! k) = f \<Longrightarrow> 0 < cnt m f"
proof -
  assume "k < length (slices m)" "e_page_ptr_idx (slices m ! k) = f"
  then have "f \<in> set (idxs m)" by (auto simp: idxs_def)
  then show "0 < cnt m f" using count_list_0_iff [of "idxs m" f] by (simp add: cnt_def)
qed

lemma of_nat_small_0: "n \<le> 32 \<Longrightarrow> (of_nat n :: u32) = 0 \<longleftrightarrow> n = 0"
  by (simp add: word_eq_unat unsigned_of_nat take_bit_nat_eq_self)

lemma of_nat_cnt_0: "length (slices m) = 32 \<Longrightarrow> (of_nat (cnt m f) :: u32) = 0 \<longleftrightarrow> cnt m f = 0"
  using cnt_le [of m f] by (intro of_nat_small_0) simp

text \<open>An entry in use refers to the pages of its field; it was set up on every mapping and is neither constant nor
  striped.\<close>

definition entry_ok :: "L1TlbMappingPort1 \<Rightarrow> nat \<Rightarrow> bool" where
  "entry_ok m k \<longleftrightarrow>
     (let e = slices m ! k in
      e_page_ptr_idx e < 32 \<and>
      (if e_page_ptr_idx e = 0 then k = 0 \<or> e_flags_drv e = 0 \<and> e_flags_hw e = 0
       else \<not> bit (e_flags_drv e) 0 \<and> \<not> bit (e_flags_drv e) 1 \<and> bit (e_flags_drv e) 2 \<and> \<not> e_fixed e \<and>
            e_page_idx_start e \<le> e_page_idx_end e \<and>
            (\<exists>pages. page_ptrs m ! e_page_ptr_idx e = Some pages \<and> unat (e_page_idx_end e) < length pages)))"

text \<open>Slice 0 and field 0 belong to the constant mapping of the contiguous memory; every other field counts its slices.\<close>

definition m_ok :: "L1TlbMappingPort1 \<Rightarrow> bool" where
  "m_ok m \<longleftrightarrow>
     length (slices m) = 32 \<and> length (page_ptrs m) = 32 \<and> length (page_ptr_ref_cntrs m) = 32 \<and>
     page_ptrs m ! 0 = None \<and> page_ptr_ref_cntrs m ! 0 \<noteq> 0 \<and>
     e_fixed (slices m ! 0) \<and> e_date_exp (slices m ! 0) = 255 \<and> e_page_ptr_idx (slices m ! 0) = 0 \<and>
     (\<forall>f. 0 < f \<and> f < 32 \<longrightarrow>
        page_ptr_ref_cntrs m ! f = of_nat (cnt m f) \<and> (page_ptrs m ! f \<noteq> None \<longleftrightarrow> 0 < cnt m f)) \<and>
     (\<forall>k < 32. entry_ok m k)"

lemma m_okD:
  assumes "m_ok m"
  shows "length (slices m) = 32" "length (page_ptrs m) = 32" "length (page_ptr_ref_cntrs m) = 32"
    "page_ptrs m ! 0 = None" "page_ptr_ref_cntrs m ! 0 \<noteq> 0" "e_fixed (slices m ! 0)"
    "e_date_exp (slices m ! 0) = 255" "e_page_ptr_idx (slices m ! 0) = 0"
    "\<And>f. 0 < f \<Longrightarrow> f < 32 \<Longrightarrow> page_ptr_ref_cntrs m ! f = of_nat (cnt m f)"
    "\<And>f. 0 < f \<Longrightarrow> f < 32 \<Longrightarrow> page_ptrs m ! f \<noteq> None \<longleftrightarrow> 0 < cnt m f"
    "\<And>k. k < 32 \<Longrightarrow> entry_ok m k"
  using assms by (simp_all add: m_ok_def)

subsection \<open>Freeing and setting up keep the tables consistent\<close>

text \<open>The fields after a change of slice \<open>k\<close>: it suffices to look at the old and the new field.\<close>

lemma free_entry_unused:
  assumes "m_ok m" "k < 32" "e_page_ptr_idx (slices m ! k) = 0" "\<not> bit fl 0"
  shows "free_entry fl k m = m\<lparr>slices := (slices m)[k := clear1 (slices m ! k)]\<rparr>"
  using assms m_okD(4) [OF assms(1)] by (simp add: free_entry_def free_refs_def Let_def)

lemma free_entry_used:
  assumes "m_ok m" "k < 32" "e_page_ptr_idx (slices m ! k) = f" "0 < f"
  shows "free_entry fl k m =
    m\<lparr>slices := (slices m)[k := clear1 (slices m ! k)],
      page_ptr_ref_cntrs := (page_ptr_ref_cntrs m)[f := of_nat (cnt m f - 1)],
      page_ptrs := (if cnt m f = 1 then (page_ptrs m)[f := None] else page_ptrs m)\<rparr>"
    and "f < 32" "0 < cnt m f"
proof -
  note m = m_okD [OF assms(1)]
  show f: "f < 32" using m(11) [OF assms(2)] assms(3) by (auto simp: entry_ok_def Let_def)
  show c: "0 < cnt m f" using cnt_pos [of k m f] m(1) assms(2,3) by simp
  obtain pages where p: "page_ptrs m ! f = Some pages" using m(10) [OF assms(4) f] c by auto
  have r: "page_ptr_ref_cntrs m ! f - 1 = of_nat (cnt m f - 1)"
    using m(9) [OF assms(4) f] c by (cases "cnt m f") auto
  from of_nat_small_0 [of "cnt m f - 1"] have "(of_nat (cnt m f - 1) :: u32) = 0 \<longleftrightarrow> cnt m f = 1"
    using cnt_le [of m f] m(1) c by linarith
  then show "free_entry fl k m =
    m\<lparr>slices := (slices m)[k := clear1 (slices m ! k)],
      page_ptr_ref_cntrs := (page_ptr_ref_cntrs m)[f := of_nat (cnt m f - 1)],
      page_ptrs := (if cnt m f = 1 then (page_ptrs m)[f := None] else page_ptrs m)\<rparr>"
    using p r m(3) f assms(3) by (simp del: of_nat_diff add: free_entry_def free_refs_def Let_def)
qed

lemma clear1_simps [simp]:
  "e_page_ptr_idx (clear1 e) = 0" "e_flags_drv (clear1 e) = 0" "e_flags_hw (clear1 e) = 0" "e_fixed (clear1 e) = e_fixed e"
  "e_date_exp (clear1 e) = 0"
  by (simp_all add: clear1_def)

lemma entry_okI_unused:
  "e_page_ptr_idx (slices m ! k) = 0 \<Longrightarrow> e_flags_drv (slices m ! k) = 0 \<Longrightarrow> e_flags_hw (slices m ! k) = 0 \<Longrightarrow> entry_ok m k"
  by (simp add: entry_ok_def Let_def)

text \<open>An entry stays consistent if it and the pages of its field do.\<close>

lemma entry_ok_cong:
  "slices m' ! k = slices m ! k \<Longrightarrow>
   (e_page_ptr_idx (slices m ! k) \<noteq> 0 \<Longrightarrow>
      page_ptrs m' ! e_page_ptr_idx (slices m ! k) = page_ptrs m ! e_page_ptr_idx (slices m ! k)) \<Longrightarrow>
   entry_ok m k \<Longrightarrow> entry_ok m' k"
  by (auto simp: entry_ok_def Let_def)

lemma free_entry_ok:
  assumes ok: "m_ok m" and k: "k < 32" "k \<noteq> 0" and fl: "\<not> bit fl 0"
  shows "m_ok (free_entry fl k m)"
proof -
  note m = m_okD [OF ok]
  define f where "f = e_page_ptr_idx (slices m ! k)"
  define m' where "m' = free_entry fl k m"
  have sl: "slices m' = (slices m)[k := clear1 (slices m ! k)]"
    using free_entry_unused [OF ok k(1) _ fl] free_entry_used(1) [OF ok k(1)] by (cases "f = 0") (auto simp: f_def m'_def)
  have len: "length (slices m') = 32" "length (page_ptrs m') = 32" "length (page_ptr_ref_cntrs m') = 32"
    using m(1-3) free_entry_unused [OF ok k(1) _ fl] free_entry_used(1) [OF ok k(1)]
    by (cases "f = 0"; auto simp: f_def m'_def)+
  have cnt': "cnt m' g + (if f = g then 1 else 0) = cnt m g + (if g = 0 then 1 else 0)" for g
    using cnt_update [of k m "clear1 (slices m ! k)" g] k(1) m(1) sl by (simp add: f_def cnt_def idxs_def)
  have other: "page_ptrs m' ! g = page_ptrs m ! g" "page_ptr_ref_cntrs m' ! g = page_ptr_ref_cntrs m ! g"
    if "g \<noteq> f \<or> f = 0" for g
    using that free_entry_unused [OF ok k(1) _ fl] free_entry_used(1) [OF ok k(1)]
    by (cases "f = 0"; auto simp: f_def m'_def)+
  have self: "page_ptr_ref_cntrs m' ! f = of_nat (cnt m' f) \<and> (page_ptrs m' ! f \<noteq> None \<longleftrightarrow> 0 < cnt m' f)" if f0: "0 < f"
  proof -
    note u = free_entry_used [OF ok k(1) f_def [symmetric] f0]
    have c: "cnt m' f = cnt m f - 1" using cnt' [of f] f0 by simp
    have "page_ptrs m ! f \<noteq> None" using m(10) [OF f0 u(2)] u(3) by simp
    moreover have "page_ptr_ref_cntrs m' = (page_ptr_ref_cntrs m)[f := of_nat (cnt m f - 1)]"
      "page_ptrs m' = (if cnt m f = 1 then (page_ptrs m)[f := None] else page_ptrs m)"
      unfolding m'_def u(1) by simp_all
    ultimately show ?thesis using u(2,3) m(2,3) unfolding c by auto
  qed
  have ent: "entry_ok m' j" if j: "j < 32" for j
  proof (cases "j = k")
    case True
    then show ?thesis using sl k(1) m(1) by (intro entry_okI_unused) simp_all
  next
    case False
    have "page_ptrs m' ! e_page_ptr_idx (slices m ! j) = page_ptrs m ! e_page_ptr_idx (slices m ! j)"
      if "e_page_ptr_idx (slices m ! j) \<noteq> 0"
    proof (cases "e_page_ptr_idx (slices m ! j) = f")
      case True
      have "0 < cnt m' f" using cnt_pos [of j m' f] True False sl len(1) j by simp
      moreover have "0 < f" using True that by simp
      moreover from this have "cnt m' f = cnt m f - 1" using cnt' [of f] by simp
      ultimately show ?thesis
        using free_entry_used(1) [OF ok k(1) f_def [symmetric], of fl] True by (simp add: m'_def)
    qed (use other in auto)
    then show ?thesis using m(11) [OF j] sl False by (intro entry_ok_cong [of m' j m]) simp_all
  qed
  have "page_ptrs m' ! 0 = None" "page_ptr_ref_cntrs m' ! 0 \<noteq> 0"
    using other [of 0] m(4,5) by (cases "f = 0"; simp)+
  moreover have "page_ptr_ref_cntrs m' ! g = of_nat (cnt m' g) \<and> (page_ptrs m' ! g \<noteq> None \<longleftrightarrow> 0 < cnt m' g)"
    if g: "0 < g" "g < 32" for g
    using self m(9,10) [OF g] other [of g] cnt' [of g] g by (cases "g = f") auto
  moreover have "slices m' ! 0 = slices m ! 0" using sl k(2) by simp
  ultimately have "m_ok m'" unfolding m_ok_def using len ent m(6-8) by auto
  then show ?thesis by (simp add: m'_def)
qed

text \<open>Setting up slice \<open>k\<close>, unused after it was freed, with a field that is free or holds the same pages.\<close>

definition setup_mapping :: "RabSliceReq \<Rightarrow> page list option \<Rightarrow> nat \<Rightarrow> L1TlbMappingPort1 \<Rightarrow> L1TlbMappingPort1" where
  "setup_mapping req pages k m = setup_refs req pages (m\<lparr>slices := (slices m)[k := setup1 req]\<rparr>)"

definition user_req :: "RabSliceReq \<Rightarrow> bool" where
  "user_req req \<longleftrightarrow> rq_port req = 1 \<and> \<not> bit (rq_flags_drv req) 0 \<and> \<not> bit (rq_flags_drv req) 1 \<and>
     bit (rq_flags_drv req) 2 \<and> \<not> bit (rq_flags_drv req) 3"

definition pages_fit :: "RabSliceReq \<Rightarrow> page list \<Rightarrow> bool" where
  "pages_fit req pages \<longleftrightarrow> rq_page_idx_start req \<le> rq_page_idx_end req \<and> unat (rq_page_idx_end req) < length pages"

lemma setup_mapping_ok:
  assumes ok: "m_ok m" and k: "k < 32" "k \<noteq> 0" "e_page_ptr_idx (slices m ! k) = 0"
    and req: "user_req req" "pages_fit req pages" and f: "0 < rq_page_ptr_idx req" "rq_page_ptr_idx req < 32"
    and fld: "cnt m (rq_page_ptr_idx req) = 0 \<or> page_ptrs m ! rq_page_ptr_idx req = Some pages"
  shows "m_ok (setup_mapping req (Some pages) k m)"
proof -
  note m = m_okD [OF ok]
  define f where "f = rq_page_ptr_idx req"
  define m' where "m' = setup_mapping req (Some pages) k m"
  have sl: "slices m' = (slices m)[k := setup1 req]"
    and pp: "page_ptrs m' = (page_ptrs m)[f := Some pages]"
    and rc: "page_ptr_ref_cntrs m' = (page_ptr_ref_cntrs m)[f := page_ptr_ref_cntrs m ! f + 1]"
    using req(1) by (simp_all add: m'_def setup_mapping_def setup_refs_def f_def Let_def user_req_def)
  have s1: "e_page_ptr_idx (setup1 req) = f" by (simp add: setup1_def f_def)
  have cnt': "cnt m' g + (if 0 = g then 1 else 0) = cnt m g + (if f = g then 1 else 0)" for g
    using cnt_update [of k m "setup1 req" g] k m(1) sl s1 by (simp add: cnt_def idxs_def)
  have ent: "entry_ok m' j" if j: "j < 32" for j
  proof (cases "j = k")
    case True
    then show ?thesis using sl pp k(1) m(1,2) f req
      by (simp add: entry_ok_def Let_def s1 f_def) (simp add: setup1_def user_req_def pages_fit_def f_def)
  next
    case False
    have "page_ptrs m ! f = Some pages" if "e_page_ptr_idx (slices m ! j) = f"
      using fld cnt_pos [of j m f] that j m(1) by (simp add: f_def)
    then show ?thesis using m(11) [OF j] sl pp False m(2) f
      by (intro entry_ok_cong [of m' j m]) (auto simp: f_def nth_list_update)
  qed
  have "page_ptrs m' ! 0 = None" "page_ptr_ref_cntrs m' ! 0 \<noteq> 0"
    using pp rc m(4,5) f by (simp_all add: f_def)
  moreover have "page_ptr_ref_cntrs m' ! g = of_nat (cnt m' g) \<and> (page_ptrs m' ! g \<noteq> None \<longleftrightarrow> 0 < cnt m' g)"
    if g: "0 < g" "g < 32" for g
    using m(2,3) m(9,10) [OF g] cnt' [of g] g pp rc by (cases "g = f") auto
  moreover have "slices m' ! 0 = slices m ! 0" using sl k(2) by simp
  moreover have "length (slices m') = 32" "length (page_ptrs m') = 32" "length (page_ptr_ref_cntrs m') = 32"
    using sl pp rc m(1-3) by simp_all
  ultimately have "m_ok m'" unfolding m_ok_def using ent m(6-8) by auto
  then show ?thesis by (simp add: m'_def)
qed

subsection \<open>Finding slices and fields\<close>

lemma find_upt: "List.find P [0 ..< n] = Some i \<Longrightarrow> i < n \<and> P i"
  by (auto simp: find_Some_iff)

text \<open>Without the miss handler on the SoC the choice of a slice depends on the table of the mapping only.\<close>

definition avail :: "RabSliceReq \<Rightarrow> L1TlbMappingPort1 \<Rightarrow> nat \<Rightarrow> bool" where
  "avail req m k \<longleftrightarrow>
     (rq_date_cur req > e_date_exp (slices m ! k) \<or> rq_date_cur req = 0 \<and> e_date_exp (slices m ! k) = 253)
     \<and> (\<not> e_fixed (slices m ! k) \<or> bit (rq_flags_drv req) 3)"

lemma slice_check_avail:
  "rq_port req = 1 \<Longrightarrow> pulp_rab_slice_check s req = avail req (mappings s ! rq_mapping req) (rq_slice req)"
  by (auto simp: pulp_rab_slice_check_def avail_def Let_def)

lemma slice_get_avail:
  "rq_port req = 1 \<Longrightarrow> \<not> soc_mh_is_ena s \<Longrightarrow>
   pulp_rab_slice_get s req =
     (case List.find (avail req (mappings s ! rq_mapping req)) [0 ..< 32] of
        Some i \<Rightarrow> (0, req\<lparr>rq_slice := i\<rparr>) | None \<Rightarrow> (1, req\<lparr>rq_slice := 31\<rparr>))"
proof -
  assume a: "rq_port req = 1" "\<not> soc_mh_is_ena s"
  have "(\<lambda>i. pulp_rab_slice_check s (req\<lparr>rq_slice := i\<rparr>) \<and> pulp_rab_slice_is_managed_by_host s (req\<lparr>rq_slice := i\<rparr>))
      = avail req (mappings s ! rq_mapping req)"
    using a by (auto simp: fun_eq_iff slice_check_avail pulp_rab_slice_is_managed_by_host_def avail_def)
  then show ?thesis
    using a by (simp add: pulp_rab_slice_get_def n_slices_of_def RAB_L1_N_SLICES_PORT_1_def split: option.split)
qed

lemma avail_not_0: "m_ok m \<Longrightarrow> \<not> bit (rq_flags_drv req) 3 \<Longrightarrow> avail req m k \<Longrightarrow> k \<noteq> 0"
  by (cases "k = 0") (simp_all add: avail_def m_okD(6))

subsection \<open>One slice of a request\<close>

lemma setup_field_busy_slices [simp]: "setup_field_busy r (m\<lparr>slices := x\<rparr>) = setup_field_busy r m"
  by (simp add: setup_field_busy_def)

text \<open>Freeing and setting up a slice of mapping \<open>j\<close> for a request of the user: the table of the mapping changes, no
  kernel call is made (the request carries the flag \<open>EVERY\<close>), and the registers.\<close>

lemma free_setup_user:
  fixes K :: kern and pages :: "page list option"
  assumes req: "user_req r" "rq_mapping r = j" "rq_slice r = k" and s: "\<not> soc_mh_is_ena s" "j < length (mappings s)"
    and nb: "\<not> setup_field_busy r (free_entry (rq_flags_drv r) k (mappings s ! j))"
  defines "res \<equiv> pulp_rab_slice_setup (pulp_rab_slice_free K s r) r pages"
  shows "fst res = 0"
    and "snd res = s\<lparr>mappings := (mappings s)[j := setup_mapping r pages k (free_entry (rq_flags_drv r) k (mappings s ! j))],
           hw := hw (snd res)\<rparr>"
    and "mapping_active s = j \<Longrightarrow> shows1 (hw (snd res)) k' e =
           (if k' = k then shows1 (hw (write_slice (entry1 k) (rq_addr_start r) (rq_addr_end r) (rq_addr_offset r) (rq_flags_hw r) s)) k e
            else shows1 (hw s) k' e)"
    and "mapping_active s \<noteq> j \<Longrightarrow> hw (snd res) =
           (if page_ptrs (mappings s ! j) ! e_page_ptr_idx (slices (mappings s ! j) ! k) = None
               \<and> (ucast (hw s (entry1 k + 24)) :: u8) \<noteq> 0
            then (hw s)(entry1 k + 24 := 0) else hw s)"
proof -
  define m where "m = mappings s ! j"
  define fl where "fl = rq_flags_drv r"
  define s1 where "s1 = pulp_rab_slice_free K s r"
  have fl: "bit fl 2" "\<not> bit fl 0" "rq_port r = 1" using req(1) by (simp_all add: user_req_def fl_def)
  have nolog: "free_calls K fl f k m = []" for f
    using fl by (simp add: free_calls_def Let_def split: option.splits)
  have h1: "hw s1 = hw s \<or> hw s1 = (hw s)(entry1 k + 24 := 0)"
    using fl req(2,3) s(1) by (simp add: s1_def pulp_rab_slice_free_def Let_def rab_offsets pulp_rab_slice_is_managed_by_host_def)
  have s1: "s1 = s\<lparr>mappings := (mappings s)[j := free_entry fl k m], hw := hw s1\<rparr>"
    using fl req(2,3) s(1) nolog
    by (simp add: s1_def pulp_rab_slice_free_def Let_def pulp_rab_slice_is_managed_by_host_def fl_def [symmetric]
        m_def [symmetric] upd_mapping_def iowrite_def)
  have m1: "mappings s1 = (mappings s)[j := free_entry fl k m]" by (subst s1) simp
  have slf: "slices (free_entry fl k m) = (slices m)[k := clear1 (slices m ! k)]"
    by (simp add: free_entry_def free_refs_def Let_def split: option.splits)
  have nb': "\<not> setup_field_busy r ((free_entry fl k m)\<lparr>slices := (slices (free_entry fl k m))[k := setup1 r]\<rparr>)"
    using nb by (simp add: m_def fl_def)
  have act: "mapping_active s1 = mapping_active s" by (subst s1) simp
  have res: "res = (0, let s2 = upd_mapping j (\<lambda>_. setup_mapping r pages k (free_entry fl k m)) s1
      in if mapping_active s = j
         then write_slice (entry1 k) (rq_addr_start r) (rq_addr_end r) (rq_addr_offset r) (rq_flags_hw r) s2 else s2)"
    using fl(3) req(2,3) nb' s(2) act
    by (simp add: res_def s1_def [symmetric] pulp_rab_slice_setup_def Let_def m1 upd_mapping_def setup_mapping_def)
  show "fst res = 0" by (simp add: res)
  show "snd res = s\<lparr>mappings := (mappings s)[j := setup_mapping r pages k (free_entry (rq_flags_drv r) k (mappings s ! j))],
           hw := hw (snd res)\<rparr>"
    unfolding res by (simp add: Let_def upd_mapping_def write_slice_def iowrite_def m_def fl_def) (subst (1 2) s1, simp add: m_def fl_def)+
  show "shows1 (hw (snd res)) k' e =
           (if k' = k then shows1 (hw (write_slice (entry1 k) (rq_addr_start r) (rq_addr_end r) (rq_addr_offset r) (rq_flags_hw r) s)) k e
            else shows1 (hw s) k' e)" if "mapping_active s = j"
  proof -
    have hr: "hw (snd res) = hw (write_slice (entry1 k) (rq_addr_start r) (rq_addr_end r) (rq_addr_offset r) (rq_flags_hw r) s1)"
      using that by (simp add: res Let_def write_slice_def)
    show ?thesis
    proof (cases "k' = k")
      case True
      then show ?thesis unfolding hr by (simp add: write_slice_shows)
    next
      case False
      then show ?thesis unfolding hr using h1 iowrite_flags_other [of k k' s 0 e] by (auto simp: write_slice_other)
    qed
  qed
  show "hw (snd res) =
           (if page_ptrs (mappings s ! j) ! e_page_ptr_idx (slices (mappings s ! j) ! k) = None
               \<and> (ucast (hw s (entry1 k + 24)) :: u8) \<noteq> 0
            then (hw s)(entry1 k + 24 := 0) else hw s)" if "mapping_active s \<noteq> j"
    using that fl req(2,3) s(1)
    by (simp add: res Let_def s1_def pulp_rab_slice_free_def free_clears_hw_def rab_offsets fl_def [symmetric]
        pulp_rab_slice_is_managed_by_host_def)
qed

text \<open>One mapping of the inner loop of a request.\<close>

definition field_of :: "bool \<Rightarrow> RabSliceReq \<Rightarrow> L1TlbMappingPort1 \<Rightarrow> nat option" where
  "field_of is_first req m =
     (if is_first then List.find (\<lambda>i. page_ptr_ref_cntrs m ! i = 0) [0 ..< 32] else Some (rq_page_ptr_idx req))"

lemma avail_upd [simp]:
  "avail (req\<lparr>rq_mapping := j\<rparr>) = avail req" "avail (req\<lparr>rq_page_ptr_idx := f\<rparr>) = avail req"
  "avail (req\<lparr>rq_slice := k\<rparr>) = avail req"
  by (auto simp: fun_eq_iff avail_def)

lemma user_req_upd [simp]:
  "user_req (req\<lparr>rq_mapping := j\<rparr>) = user_req req" "user_req (req\<lparr>rq_page_ptr_idx := f\<rparr>) = user_req req"
  "user_req (req\<lparr>rq_slice := k\<rparr>) = user_req req" "user_req (req_of_seg g req) = user_req req"
  by (simp_all add: user_req_def req_of_seg_def)

lemma req_mapping_user_err:
  assumes "user_req req" "\<not> soc_mh_is_ena s"
    and "field_of is_first req (mappings s ! j) = None \<or> List.find (avail req (mappings s ! j)) [0 ..< 32] = None"
  shows "fst (req_mapping K pages is_first (0, req, s) j) \<noteq> 0 \<and> snd (snd (req_mapping K pages is_first (0, req, s) j)) = s"
proof -
  have u: "rq_port req = 1" "bit (rq_flags_drv req) 2" using assms(1) by (auto simp: user_req_def)
  define q where "q = req\<lparr>rq_mapping := j\<rparr>"
  have q: "rq_port q = 1" "rq_mapping q = j" "avail q = avail req" using u by (simp_all add: q_def)
  show ?thesis
    using assms u q slice_get_avail [of "q\<lparr>rq_page_ptr_idx := f\<rparr>" s for f] slice_get_avail [of q s]
    by (auto simp: req_mapping_def Let_def q_def [symmetric] field_of_def pulp_rab_page_ptrs_get_field_def hw_consts
        split: option.splits if_splits prod.splits)
qed

lemma req_mapping_user_ok:
  assumes "user_req req" "\<not> soc_mh_is_ena s" "j < length (mappings s)"
    and "field_of is_first req (mappings s ! j) = Some f" "List.find (avail req (mappings s ! j)) [0 ..< 32] = Some k"
    and r: "r = req\<lparr>rq_mapping := j, rq_page_ptr_idx := f, rq_slice := k\<rparr>"
    and nb: "\<not> setup_field_busy r (free_entry (rq_flags_drv r) k (mappings s ! j))"
  shows "req_mapping K pages is_first (0, req, s) j
      = (0, r, snd (pulp_rab_slice_setup (pulp_rab_slice_free K s r) r pages))"
proof -
  have u: "rq_port req = 1" "bit (rq_flags_drv req) 2" using assms(1) by (auto simp: user_req_def)
  define q where "q = req\<lparr>rq_mapping := j, rq_page_ptr_idx := f\<rparr>"
  have q: "rq_port q = 1" "rq_mapping q = j" "avail q = avail req" "r = q\<lparr>rq_slice := k\<rparr>"
    using u r by (simp_all add: q_def)
  have g: "pulp_rab_slice_get s q = (0, r)"
    using slice_get_avail [of q s] q assms(2,5) by simp
  have fld: "(if is_first \<and> rq_port req = 1 then pulp_rab_page_ptrs_get_field s (req\<lparr>rq_mapping := j\<rparr>)
      else (0, req\<lparr>rq_mapping := j\<rparr>)) = (0, q)"
    using assms(4) u(1) by (auto simp: field_of_def pulp_rab_page_ptrs_get_field_def RAB_L1_N_SLICES_PORT_1_def q_def
        split: if_splits)
  have e0: "fst (pulp_rab_slice_setup (pulp_rab_slice_free K s r) r pages) = 0"
    by (rule free_setup_user(1) [OF _ _ _ assms(2,3) nb]) (simp_all add: r assms(1))
  show ?thesis using u fld g e0 q(2)
    by (cases is_first) (simp_all add: req_mapping_def Let_def case_prod_beta)
qed

subsection \<open>A segment of a request, on both mappings\<close>

text \<open>The tables of port 1: two equal mappings.\<close>

definition tables_ok :: "rab \<Rightarrow> bool" where
  "tables_ok s \<longleftrightarrow>
     (\<exists>m. mappings s = [m, m] \<and> m_ok m) \<and> mapping_active s < 2 \<and> \<not> soc_mh_is_ena s \<and> length (port_0 s) = 4"

text \<open>The field of the first segment is free, and is that of the later ones, which hold the same pages.\<close>

definition field_fits :: "bool \<Rightarrow> RabSliceReq \<Rightarrow> page list \<Rightarrow> L1TlbMappingPort1 \<Rightarrow> bool" where
  "field_fits is_first req pages m \<longleftrightarrow> is_first \<or>
     0 < rq_page_ptr_idx req \<and> rq_page_ptr_idx req < 32 \<and> rq_page_idx_start req \<noteq> 0 \<and>
     (cnt m (rq_page_ptr_idx req) = 0 \<or> page_ptrs m ! rq_page_ptr_idx req = Some pages)"

lemma free_entry_slices [simp]: "slices (free_entry fl k m) = (slices m)[k := clear1 (slices m ! k)]"
  by (simp add: free_entry_def free_refs_def Let_def split: option.splits)

lemma free_entry_field:
  assumes "m_ok m" "k < 32" "\<not> bit fl 0" "0 < f" "f < 32"
    and "cnt m f = 0 \<or> page_ptrs m ! f = Some pages"
  shows "cnt (free_entry fl k m) f = 0 \<or> page_ptrs (free_entry fl k m) ! f = Some pages"
    and "cnt m f = 0 \<Longrightarrow> page_ptr_ref_cntrs (free_entry fl k m) ! f = 0"
proof -
  note m = m_okD [OF assms(1)]
  define g where "g = e_page_ptr_idx (slices m ! k)"
  have c: "cnt (free_entry fl k m) f + (if g = f then 1 else 0) = cnt m f"
    using cnt_update [of k m "clear1 (slices m ! k)" f] assms(2,4) m(1) by (simp add: g_def cnt_def idxs_def)
  have un: "g = 0 \<Longrightarrow> free_entry fl k m = m\<lparr>slices := (slices m)[k := clear1 (slices m ! k)]\<rparr>"
    using free_entry_unused [OF assms(1,2) _ assms(3)] by (simp add: g_def)
  show "cnt (free_entry fl k m) f = 0 \<or> page_ptrs (free_entry fl k m) ! f = Some pages"
    using c assms(6) un free_entry_used(1) [OF assms(1,2) g_def [symmetric], of fl]
    by (cases "g = 0"; cases "g = f") auto
  show "page_ptr_ref_cntrs (free_entry fl k m) ! f = 0" if "cnt m f = 0"
    using that c un free_entry_used(1) [OF assms(1,2) g_def [symmetric], of fl] m(9) [OF assms(4,5)]
    by (cases "g = 0"; cases "g = f") auto
qed

lemma find_field:
  assumes "m_ok m" "List.find (\<lambda>i. page_ptr_ref_cntrs m ! i = 0) [0 ..< 32] = Some f"
  shows "0 < f" "f < 32" "cnt m f = 0"
proof -
  have f: "f < 32" "page_ptr_ref_cntrs m ! f = 0" using find_upt [OF assms(2)] by auto
  then show "f < 32" "0 < f" using m_okD(5) [OF assms(1)] by (cases f; simp)+
  then show "cnt m f = 0"
    using m_okD(9) [OF assms(1), of f] f of_nat_cnt_0 [of m f] m_okD(1) [OF assms(1)] by simp
qed

text \<open>One mapping with a consistent table: either an error that changes nothing, or the table of the mapping is
  consistent again and holds the new entry.\<close>

lemma req_mapping_cases:
  assumes u: "user_req req" and s: "\<not> soc_mh_is_ena s" "j < length (mappings s)" "mappings s ! j = m" "m_ok m"
    and fit: "pages_fit req pages" "field_fits is_first req pages m"
  obtains (err) "fst (req_mapping K (Some pages) is_first (0, req, s) j) \<noteq> 0"
      "snd (snd (req_mapping K (Some pages) is_first (0, req, s) j)) = s"
      "field_of is_first req m = None \<or> List.find (avail req m) [0 ..< 32] = None"
    | (ok) f k m' where "field_of is_first req m = Some f" "List.find (avail req m) [0 ..< 32] = Some k"
      "0 < f" "f < 32" "0 < k" "k < 32"
      "req_mapping K (Some pages) is_first (0, req, s) j
         = (0, req\<lparr>rq_mapping := j, rq_page_ptr_idx := f, rq_slice := k\<rparr>,
            s\<lparr>mappings := (mappings s)[j := m'],
              hw := hw (snd (snd (req_mapping K (Some pages) is_first (0, req, s) j)))\<rparr>)"
      "m' = setup_mapping (req\<lparr>rq_page_ptr_idx := f\<rparr>) (Some pages) k (free_entry (rq_flags_drv req) k m)"
      "m_ok m'" "page_ptrs m' ! f = Some pages" "slices m' ! k = setup1 (req\<lparr>rq_page_ptr_idx := f\<rparr>)"
proof (cases "field_of is_first req m = None \<or> List.find (avail req m) [0 ..< 32] = None")
  case True
  then show thesis using err req_mapping_user_err [OF u s(1)] s(3) by blast
next
  case False
  then obtain f k where f: "field_of is_first req m = Some f" and k: "List.find (avail req m) [0 ..< 32] = Some k" by auto
  define r where "r = req\<lparr>rq_mapping := j, rq_page_ptr_idx := f, rq_slice := k\<rparr>"
  define q where "q = req\<lparr>rq_page_ptr_idx := f\<rparr>"
  have fl: "\<not> bit (rq_flags_drv req) 0" "\<not> bit (rq_flags_drv req) 1" "\<not> bit (rq_flags_drv req) 3"
    using u by (auto simp: user_req_def)
  have k32: "k < 32" "avail req m k" using find_upt [OF k] by auto
  have k0: "k \<noteq> 0" using avail_not_0 [OF s(4) fl(3) k32(2)] .
  have f32: "0 < f" "f < 32" and fld: "cnt m f = 0 \<or> page_ptrs m ! f = Some pages"
    and start: "rq_page_idx_start req = 0 \<Longrightarrow> cnt m f = 0"
    using f fit(2) find_field [OF s(4)] by (auto simp: field_of_def field_fits_def split: if_splits)
  define m0 where "m0 = free_entry (rq_flags_drv req) k m"
  have m0: "m_ok m0" using free_entry_ok [OF s(4) k32(1) k0 fl(1)] by (simp add: m0_def)
  have fld0: "cnt m0 f = 0 \<or> page_ptrs m0 ! f = Some pages" "cnt m f = 0 \<Longrightarrow> page_ptr_ref_cntrs m0 ! f = 0"
    using free_entry_field [OF s(4) k32(1) fl(1) f32 fld] by (simp_all add: m0_def)
  have nb: "\<not> setup_field_busy r (free_entry (rq_flags_drv r) k (mappings s ! j))"
    using start fld0(2) s(3) by (auto simp: setup_field_busy_def r_def m0_def)
  define m' where "m' = setup_mapping q (Some pages) k m0"
  have m'r: "setup_mapping r (Some pages) k m0 = m'"
    by (simp add: m'_def setup_mapping_def setup_refs_def setup1_def r_def q_def Let_def)
  have z: "e_page_ptr_idx (slices m0 ! k) = 0" using k32(1) m_okD(1) [OF s(4)] by (simp add: m0_def)
  have ok': "m_ok m'"
    unfolding m'_def using setup_mapping_ok [OF m0 k32(1) k0 z, of q pages] u fit(1) f32 fld0(1)
    by (simp add: q_def user_req_def pages_fit_def)
  have step: "req_mapping K (Some pages) is_first (0, req, s) j
      = (0, r, snd (pulp_rab_slice_setup (pulp_rab_slice_free K s r) r (Some pages)))"
    by (rule req_mapping_user_ok [OF u s(1,2) _ _ r_def nb]) (simp_all add: s(3) f k)
  have st: "snd (pulp_rab_slice_setup (pulp_rab_slice_free K s r) r (Some pages)) =
      s\<lparr>mappings := (mappings s)[j := m'], hw := hw (snd (pulp_rab_slice_setup (pulp_rab_slice_free K s r) r (Some pages)))\<rparr>"
    using free_setup_user(2) [OF _ _ _ s(1,2) nb, of K "Some pages"] u s(3) m'r
    by (simp add: r_def m0_def)
  show thesis
  proof (rule ok [OF f k f32 _ k32(1) _ _ ok'])
    show "0 < k" using k0 by simp
    show "req_mapping K (Some pages) is_first (0, req, s) j
         = (0, req\<lparr>rq_mapping := j, rq_page_ptr_idx := f, rq_slice := k\<rparr>,
            s\<lparr>mappings := (mappings s)[j := m'],
              hw := hw (snd (snd (req_mapping K (Some pages) is_first (0, req, s) j)))\<rparr>)"
      using step st by (simp add: r_def)
    show "m' = setup_mapping (req\<lparr>rq_page_ptr_idx := f\<rparr>) (Some pages) k (free_entry (rq_flags_drv req) k m)"
      by (simp add: m'_def m0_def q_def)
    show "page_ptrs m' ! f = Some pages"
      using m_okD(2) [OF m0] f32(2) fl(1) by (simp add: m'_def setup_mapping_def setup_refs_def q_def Let_def)
    show "slices m' ! k = setup1 (req\<lparr>rq_page_ptr_idx := f\<rparr>)"
      using m_okD(1) [OF m0] k32(1) by (simp add: m'_def setup_mapping_def setup_refs_def q_def Let_def)
  qed
qed

lemma req_pair_cases:
  fixes K :: kern
  assumes u: "user_req req" and s: "\<not> soc_mh_is_ena s" "mappings s = [m, m]" "m_ok m"
    and fit: "pages_fit req pages" "field_fits is_first req pages m"
  defines "R \<equiv> foldl (req_mapping K (Some pages) is_first) (0, req, s) [0 ..< 2]"
  obtains (err) "fst R \<noteq> 0" "snd (snd R) = s"
      "field_of is_first req m = None \<or> List.find (avail req m) [0 ..< 32] = None"
    | (ok) f k m' s0 where "0 < f" "f < 32" "0 < k" "k < 32"
      "R = (0, req\<lparr>rq_mapping := 1, rq_page_ptr_idx := f, rq_slice := k\<rparr>, s\<lparr>mappings := [m', m'], hw := hw (snd (snd R))\<rparr>)"
      "m_ok m'" "page_ptrs m' ! f = Some pages" "slices m' ! k = setup1 (req\<lparr>rq_page_ptr_idx := f\<rparr>)"
      "field_of is_first req m = Some f" "List.find (avail req m) [0 ..< 32] = Some k"
      "req_mapping K (Some pages) is_first (0, req, s) 0 = (0, req\<lparr>rq_mapping := 0, rq_page_ptr_idx := f, rq_slice := k\<rparr>, s0)"
      "s0 = s\<lparr>mappings := [m', m], hw := hw s0\<rparr>"
      "R = req_mapping K (Some pages) is_first (0, req\<lparr>rq_mapping := 0, rq_page_ptr_idx := f, rq_slice := k\<rparr>, s0) 1"
      "m' = setup_mapping (req\<lparr>rq_page_ptr_idx := f\<rparr>) (Some pages) k (free_entry (rq_flags_drv req) k m)"
proof -
  define r0 where "r0 = req_mapping K (Some pages) is_first (0, req, s) 0"
  have R: "R = req_mapping K (Some pages) is_first r0 1"
    by (simp add: R_def r0_def numeral_2_eq_2)
  show thesis
  proof (cases rule: req_mapping_cases [OF u s(1) _ _ s(3) fit, of 0 K, case_names len nth err ok])
    case err
    then have "R = r0" unfolding R by (simp add: req_mapping_def r0_def case_prod_beta Let_def)
    then show thesis using that(1) err(1,2,3) by (simp add: r0_def)
  next
    case (ok f k m')
    note o = ok
    define s0 where "s0 = snd (snd r0)"
    define q where "q = req\<lparr>rq_mapping := 0, rq_page_ptr_idx := f, rq_slice := k\<rparr>"
    define T where "T = s\<lparr>mappings := (mappings s)[0 := m'], hw := hw s0\<rparr>"
    have e: "r0 = (0, q, T)" unfolding T_def s0_def q_def r0_def by (rule ok(7))
    have T: "s0 = T" unfolding s0_def e by simp
    have r0: "r0 = (0, q, s0)" unfolding T by (rule e)
    have s0: "s0 = s\<lparr>mappings := [m', m], hw := hw s0\<rparr>" using T s(2) by (simp add: T_def)
    have s0m: "mappings s0 = [m', m]" "\<not> soc_mh_is_ena s0" by (subst s0, use s in simp)+
    have uq: "user_req q" "pages_fit q pages" "avail q = avail req" using u fit by (simp_all add: q_def pages_fit_def)
    have fq: "field_of is_first q m = Some f" using ok(1) by (auto simp: field_of_def q_def)
    have "field_fits is_first q pages m"
      using fit(2) ok(1) by (auto simp: field_fits_def field_of_def q_def split: if_splits)
    note cases1 = req_mapping_cases [OF uq(1) s0m(2) _ _ s(3) uq(2) this, of 1 K, case_names len nth err ok]
    show thesis
    proof (cases rule: cases1)
      case err
      then show thesis using fq ok(2) uq(3) by simp
    next
      case (ok f1 k1 m1)
      have eq: "f1 = f" "k1 = k"
        using ok(1,2) fq o(2) uq(3) by simp_all
      have m1: "m1 = m'"
        using ok(8) o(8) unfolding eq q_def by (simp add: setup_mapping_def setup_refs_def setup1_def Let_def)
      have s0': "s0\<lparr>mappings := [m', m'], hw := h\<rparr> = s\<lparr>mappings := [m', m'], hw := h\<rparr>" for h by (subst s0) simp
      have ups: "q\<lparr>rq_mapping := 1, rq_page_ptr_idx := f, rq_slice := k\<rparr>
          = req\<lparr>rq_mapping := 1, rq_page_ptr_idx := f, rq_slice := k\<rparr>" "(mappings s0)[1 := m'] = [m', m']"
        by (simp_all add: q_def s0m)
      have Rr: "R = req_mapping K (Some pages) is_first (0, q, s0) 1" by (simp only: R r0)
      have "R = (0, req\<lparr>rq_mapping := 1, rq_page_ptr_idx := f, rq_slice := k\<rparr>, s\<lparr>mappings := [m', m'], hw := hw (snd (snd R))\<rparr>)"
        using ok(7) unfolding eq m1 Rr [symmetric] ups s0' .
      then show thesis
        by (rule that(2) [OF o(3-6) _ o(9-11) o(1,2) r0 [unfolded r0_def q_def] s0 Rr [unfolded q_def] o(8)])
    qed (simp_all add: s0m)
  qed (simp_all add: s)
qed

subsection \<open>Requests\<close>

definition loop_ok :: "page list \<Rightarrow> nat \<Rightarrow> int \<times> RabSliceReq \<times> rab \<Rightarrow> bool" where
  "loop_ok pages i r \<longleftrightarrow>
     tables_ok (snd (snd r)) \<and>
     (fst r = 0 \<longrightarrow> user_req (fst (snd r)) \<and>
        (0 < i \<longrightarrow> 0 < rq_page_ptr_idx (fst (snd r)) \<and> rq_page_ptr_idx (fst (snd r)) < 32 \<and>
           (\<exists>m. mappings (snd (snd r)) = [m, m] \<and> page_ptrs m ! rq_page_ptr_idx (fst (snd r)) = Some pages)))"

definition segs_fit :: "page list \<Rightarrow> sg_seg list \<Rightarrow> bool" where
  "segs_fit pages segs \<longleftrightarrow>
     (\<forall>i < length segs. sg_page_start (segs ! i) \<le> sg_page_end (segs ! i) \<and> sg_page_end (segs ! i) < length pages \<and>
        sg_page_end (segs ! i) < 256 \<and> (0 < i \<longrightarrow> 0 < sg_page_start (segs ! i)))"

lemma seg_fits:
  assumes "segs_fit pages segs" "i < length segs"
  shows "pages_fit (req_of_seg (segs ! i) req) pages" "0 < i \<Longrightarrow> rq_page_idx_start (req_of_seg (segs ! i) req) \<noteq> 0"
proof -
  define a b where "a = sg_page_start (segs ! i)" and "b = sg_page_end (segs ! i)"
  have ab: "a \<le> b" "b < length pages" "b < 256" "0 < i \<Longrightarrow> 0 < a" using assms by (auto simp: segs_fit_def a_def b_def)
  have u: "unat (of_nat a :: u8) = a" "unat (of_nat b :: u8) = b" using ab by (auto intro: unat_of_nat_u8)
  show "pages_fit (req_of_seg (segs ! i) req) pages"
    using ab u by (simp add: pages_fit_def req_of_seg_def word_le_nat_alt a_def [symmetric] b_def [symmetric])
  show "rq_page_idx_start (req_of_seg (segs ! i) req) \<noteq> 0" if "0 < i"
    using ab(4) [OF that] u(1) by (auto simp: req_of_seg_def a_def [symmetric])
qed

lemma req_segment_loop_ok:
  assumes ok: "loop_ok pages i r" and fit: "segs_fit pages segs" "i < length segs"
  shows "loop_ok pages (Suc i) (req_segment K pages segs r i)"
proof (cases "fst r = 0")
  case False
  then show ?thesis using ok by (auto simp: loop_ok_def req_segment_def case_prod_beta)
next
  case True
  obtain req s where r: "r = (0, req, s)" using True by (cases r) auto
  obtain m where m: "mappings s = [m, m]" "m_ok m" "\<not> soc_mh_is_ena s" "mapping_active s < 2" "length (port_0 s) = 4"
    using ok r by (auto simp: loop_ok_def tables_ok_def)
  define q where "q = req_of_seg (segs ! i) req"
  have u: "user_req q" using ok r by (simp add: loop_ok_def q_def)
  have pf: "pages_fit q pages" using seg_fits(1) [OF fit] by (simp add: q_def)
  have ff: "field_fits (i = 0) q pages m"
    using ok r m seg_fits(2) [OF fit, of req] by (auto simp: loop_ok_def field_fits_def q_def) (auto simp: req_of_seg_def)
  define R where "R = foldl (req_mapping K (Some pages) (i = 0)) (0, q, s) [0 ..< 2]"
  have step: "req_segment K pages segs r i = (if fst R \<noteq> 0 then R
      else (0, fst (snd R), if \<not> bit (rq_flags_hw (fst (snd R))) 3
             then (snd (snd R))\<lparr>kern_log := kern_log (snd (snd R)) @ flush_segment pages segs i\<rparr> else snd (snd R)))"
    by (simp add: req_segment_def r R_def q_def RAB_L1_N_MAPPINGS_PORT_1_def case_prod_beta Let_def)
  show ?thesis
  proof (cases rule: req_pair_cases [OF u m(3,1,2) pf ff, of K, folded R_def, case_names err ok])
    case err
    then show ?thesis using ok r unfolding step by (auto simp: loop_ok_def)
  next
    case (ok f k m' s0)
    define s' where "s' = snd (snd R)"
    have R: "fst R = 0" "fst (snd R) = q\<lparr>rq_mapping := 1, rq_page_ptr_idx := f, rq_slice := k\<rparr>"
      by (subst ok(5), simp)+
    have s': "s' = s\<lparr>mappings := [m', m'], hw := hw s'\<rparr>"
      unfolding s'_def using arg_cong [OF ok(5), of "\<lambda>x. snd (snd x)"] by (simp only: snd_conv)
    have t: "mappings s' = [m', m']" "mapping_active s' < 2" "\<not> soc_mh_is_ena s'" "length (port_0 s') = 4"
      by (subst s', use m in simp)+
    show ?thesis unfolding step s'_def [symmetric]
      using R t ok(1,2,6,7) u by (auto simp: loop_ok_def tables_ok_def)
  qed
qed

lemma req_segments_loop_ok:
  "loop_ok pages 0 r \<Longrightarrow> segs_fit pages segs \<Longrightarrow> n \<le> length segs \<Longrightarrow>
   loop_ok pages n (foldl (req_segment K pages segs) r [0 ..< n])"
  by (induction n) (simp_all add: req_segment_loop_ok)

lemma sg_spec_fits:
  assumes "phys = map f pages" "pages \<noteq> []" "length pages \<le> 256"
  shows "segs_fit pages (sg_spec phys a e)"
  unfolding segs_fit_def
proof (intro allI impI)
  fix i assume i: "i < length (sg_spec phys a e)"
  define ss where "ss = sg_starts phys (length phys)"
  define j where "j = (if i = length ss - 1 then length phys else ss ! Suc i)"
  note nth = sg_spec_nth [OF i, folded ss_def, folded j_def]
  have "ss ! i < j" "j \<le> length phys"
    using starts_bounds [of i phys] nth(1) assms(1,2) by (auto simp: ss_def j_def)
  moreover have "0 < ss ! i" if "0 < i"
    using starts_tl_pos [of "ss ! i" phys "length phys"] nth(1) that nth_mem [of "i - 1" "tl ss"]
    by (simp add: ss_def nth_tl)
  ultimately show "sg_page_start (sg_spec phys a e ! i) \<le> sg_page_end (sg_spec phys a e ! i) \<and>
      sg_page_end (sg_spec phys a e ! i) < length pages \<and> sg_page_end (sg_spec phys a e ! i) < 256 \<and>
      (0 < i \<longrightarrow> 0 < sg_page_start (sg_spec phys a e ! i))"
    using assms nth(2) by (auto simp: sg_seg_of_def)
qed

lemma num_free_slices_req: "\<exists>k. snd (pulp_rab_num_free_slices s req) = req\<lparr>rq_slice := k\<rparr>"
proof -
  have "\<exists>k. snd (foldl (\<lambda>(n, req) i. let req = req\<lparr>rq_slice := i\<rparr> in (if pulp_rab_slice_check s req then n + 1 else n, req))
      (c, req) xs) = req\<lparr>rq_slice := k\<rparr>" for c :: int and xs req
  proof (induction xs arbitrary: c req)
    case Nil
    show ?case by (intro exI [of _ "rq_slice req"]) simp
  next
    case (Cons x xs)
    show ?case using Cons.IH [of _ "req\<lparr>rq_slice := x\<rparr>"] by (auto simp: Let_def)
  qed
  then show ?thesis by (simp add: pulp_rab_num_free_slices_def)
qed

text \<open>A request as the \<open>ioctl\<close> of the driver makes it for data of the user, for at most 256 pages.\<close>

definition user_request :: "RabSliceReq \<Rightarrow> bool" where
  "user_request req \<longleftrightarrow>
     rq_port req = 1 \<and> rq_addr_start req \<noteq> L3_MEM_BASE_ADDR \<and> rq_addr_start req < rq_addr_end req \<and>
     \<not> bit (rq_flags_drv req) 0 \<and> \<not> bit (rq_flags_drv req) 1 \<and> \<not> bit (rq_flags_drv req) 3 \<and>
     unat (pulp_mem_get_num_pages (rq_addr_start req) (rq_addr_end req - rq_addr_start req)) \<le> 256"

lemma flag_every_bits [simp]:
  "bit RAB_FLAGS_DRV_EVERY 2" "\<not> bit RAB_FLAGS_DRV_EVERY 0" "\<not> bit RAB_FLAGS_DRV_EVERY 1" "\<not> bit RAB_FLAGS_DRV_EVERY 3"
  "\<not> bit RAB_FLAGS_DRV_EVERY (Suc 0)"
  by (simp_all add: RAB_FLAGS_DRV_EVERY_def)

text \<open>What a request of the user does: pin the pages, then the loop over the segments.\<close>

lemma pulp_rab_req_user:
  assumes req: "user_request req" and some: "pulp_rab_req K s req = Some r"
  defines "q0 \<equiv> req\<lparr>rq_flags_drv := BIT_SET (rq_flags_drv req) RAB_FLAGS_DRV_EVERY\<rparr>"
  obtains (nomem) "r = (- ENOMEM, q0, s)" "\<not> gup_ok K"
    | (loop) pages k where "pages \<noteq> []" "length pages \<le> 256"
      "length pages = unat (pulp_mem_get_num_pages (rq_addr_start req) (rq_addr_end req - rq_addr_start req))"
      "list_all (kmalloc_ok K) [0 ..< 6]"
      "r = foldl (req_segment K pages (sg_spec (map (page_to_phys K) pages) (rq_addr_start req) (rq_addr_end req)))
             (0, q0\<lparr>rq_slice := k\<rparr>, s\<lparr>kern_log := kern_log s @ [PinPages pages]\<rparr>)
             [0 ..< length (sg_spec (map (page_to_phys K) pages) (rq_addr_start req) (rq_addr_end req))]"
proof -
  define a e where "a = rq_addr_start req" and "e = rq_addr_end req"
  define len where "len = pulp_mem_get_num_pages a (e - a)"
  have q0: "rq_addr_start q0 = a" "rq_addr_end q0 = e" "rq_flags_hw q0 = rq_flags_hw req" "rq_lvl q0 = rq_lvl req"
    by (simp_all add: q0_def a_def e_def)
  have u: "rq_port req \<noteq> 0" "a \<noteq> L3_MEM_BASE_ADDR" "a < e" "unat len \<le> 256" "\<not> bit (rq_flags_drv q0) 0"
    using req by (auto simp: user_request_def a_def e_def len_def q0_def)
  have pos: "unat len \<noteq> 0"
  proof -
    have "unat (e - a) \<noteq> 0" using u(3) by (simp add: unat_eq_zero)
    then show ?thesis unfolding len_def unat_get_num_pages by simp
  qed
  obtain err pages where g: "pulp_mem_get_user_pages (gup_ok K) (gup_fast K) a len
      (ucast (rq_flags_hw req AND RAB_FLAGS_HW_WRITE)) = (err, pages)" by fastforce
  have err: "err = 0 \<or> err = - ENOMEM \<and> \<not> gup_ok K"
    using g by (auto simp: pulp_mem_get_user_pages_def split: if_splits prod.splits)
  define s1 where "s1 = s\<lparr>kern_log := kern_log s @ [PinPages pages]\<rparr>"
  obtain k where k: "(if rq_lvl req = 0 then snd (pulp_rab_num_free_slices s1 q0) else q0) = q0\<lparr>rq_slice := k\<rparr>"
  proof (cases "rq_lvl req = 0")
    case True
    then show thesis using num_free_slices_req [of s1 q0] that by auto
  next
    case False
    then show thesis using that [of "rq_slice q0"] by simp
  qed
  have eq: "pulp_rab_req K s req =
     (if err \<noteq> 0 then Some (err, q0, s) else if length pages \<noteq> unat len then None
      else case pulp_mem_map_sg (kmalloc_ok K) (map (page_to_phys K) pages) a e of
             Inl _ \<Rightarrow> None
           | Inr segs \<Rightarrow> Some (foldl (req_segment K pages segs) (0, q0\<lparr>rq_slice := k\<rparr>, s1) [0 ..< length segs]))"
    using u q0 g k
    by (cases "rq_lvl req = 0") (simp_all add: pulp_rab_req_def Let_def q0_def [symmetric] a_def [symmetric] e_def [symmetric] len_def [symmetric]
        s1_def [symmetric] split: sum.split)
  show thesis
  proof (cases "err = 0")
    case False
    then show thesis using nomem some eq err by auto
  next
    case True
    then have l: "length pages = unat len" using some eq by (auto split: if_splits)
    then have ne: "pages \<noteq> []" using pos by auto
    have ok: "list_all (kmalloc_ok K) [0 ..< 6]"
      using True l some eq by (auto simp: pulp_mem_map_sg_def split: if_splits)
    show thesis
      using loop [OF ne _ _ ok, of k] True l some eq u(4) pulp_mem_map_sg_spec [OF ok, of "map (page_to_phys K) pages" a e] ne
      by (simp add: a_def e_def len_def s1_def)
  qed
qed

lemma req_tables_ok:
  assumes ok: "tables_ok s" and req: "user_request req" and some: "pulp_rab_req K s req = Some (err, req', s')"
  shows "tables_ok s'"
proof (cases rule: pulp_rab_req_user [OF req some, case_names nomem loop])
  case nomem
  then show ?thesis using ok by simp
next
  case (loop pages k)
  define segs where "segs = sg_spec (map (page_to_phys K) pages) (rq_addr_start req) (rq_addr_end req)"
  define q where "q = req\<lparr>rq_flags_drv := BIT_SET (rq_flags_drv req) RAB_FLAGS_DRV_EVERY, rq_slice := k\<rparr>"
  define s1 where "s1 = s\<lparr>kern_log := kern_log s @ [PinPages pages]\<rparr>"
  have fit: "segs_fit pages segs" using sg_spec_fits [OF refl loop(1,2)] by (simp add: segs_def)
  have "user_req q" using req by (simp add: user_req_def user_request_def q_def)
  moreover have "tables_ok s1" using ok by (simp add: tables_ok_def s1_def)
  ultimately have "loop_ok pages 0 (0, q, s1)" by (simp add: loop_ok_def)
  from req_segments_loop_ok [OF this fit order.refl, of K]
  have "loop_ok pages (length segs) (err, req', s')"
    using loop(5) by (simp add: segs_def q_def s1_def)
  then show ?thesis by (simp add: loop_ok_def)
qed

end
