(* ===== verification/Drv_Rab_Free.thy ===== *)
theory Drv_Rab_Free
  imports Drv_Rab_Inv
begin

text \<open>
  The release of expired slices (\<open>pulp_rab_free\<close>): it keeps the invariant of the tables and the correspondence with the
  registers, and unpins every page of an expired slice exactly once; the states that are reachable by initialisation,
  requests, releases and switches.
\<close>

subsection \<open>One pass over a mapping\<close>

definition expired :: "u8 \<Rightarrow> L1EntryPort1 \<Rightarrow> bool" where
  "expired date e \<longleftrightarrow> (date > e_date_exp e \<or> date = 0 \<and> e_date_exp e = 253) \<and> \<not> e_fixed e"

definition free1 :: "u8 \<Rightarrow> L1TlbMappingPort1 \<Rightarrow> nat \<Rightarrow> L1TlbMappingPort1" where
  "free1 date m k = (if expired date (slices m ! k) then free_entry (e_flags_drv (slices m ! k)) k m else m)"

definition free_upto :: "u8 \<Rightarrow> L1TlbMappingPort1 \<Rightarrow> nat \<Rightarrow> L1TlbMappingPort1" where
  "free_upto date m n = foldl (free1 date) m [0 ..< n]"

lemma free_entry_cong: "bit fl 0 = bit fl' 0 \<Longrightarrow> free_entry fl k m = free_entry fl' k m"
  by (simp add: free_entry_def free_refs_def Let_def split: option.splits)

lemma free_upto_simps: "free_upto date m 0 = m" "free_upto date m (Suc n) = free1 date (free_upto date m n) n"
  by (simp_all add: free_upto_def)

lemma m_ok_entry_const: "m_ok m \<Longrightarrow> k < 32 \<Longrightarrow> k \<noteq> 0 \<Longrightarrow> \<not> bit (e_flags_drv (slices m ! k)) 0"
  using m_okD(11) [of m k] by (auto simp: entry_ok_def Let_def split: if_splits)

lemma free1_ok: "m_ok m \<Longrightarrow> k < 32 \<Longrightarrow> m_ok (free1 date m k)"
proof -
  assume m: "m_ok m" "k < 32"
  show ?thesis
  proof (cases "expired date (slices m ! k)")
    case True
    then have "k \<noteq> 0" using m_okD(6) [OF m(1)] by (cases "k = 0") (simp_all add: expired_def)
    then show ?thesis using True free_entry_ok [OF m] m_ok_entry_const [OF m] by (simp add: free1_def)
  qed (use m in \<open>simp add: free1_def\<close>)
qed

lemma free_upto_ok: "m_ok m \<Longrightarrow> n \<le> 32 \<Longrightarrow> m_ok (free_upto date m n)"
  by (induction n) (simp_all add: free_upto_simps free1_ok)

lemma free_upto_slices:
  assumes "m_ok m" "n \<le> 32" "k < 32"
  shows "slices (free_upto date m n) ! k
    = (if k < n \<and> expired date (slices m ! k) then clear1 (slices m ! k) else slices m ! k)"
  using assms(2)
proof (induction n)
  case (Suc n)
  have l: "length (slices (free_upto date m n)) = 32" using free_upto_ok [OF assms(1)] Suc.prems m_okD(1) by simp
  show ?case using Suc assms(3) l
    by (auto simp: free_upto_simps free1_def nth_list_update less_Suc_eq)
qed (simp add: free_upto_simps)

text \<open>The page pointers of a field stay until its last slice is freed.\<close>

lemma free_entry_page_ptrs: "page_ptrs (free_entry fl k m) ! g = page_ptrs m ! g \<or> page_ptrs (free_entry fl k m) ! g = None"
proof -
  define f where "f = e_page_ptr_idx (slices m ! k)"
  have "page_ptrs (free_entry fl k m) = page_ptrs m \<or> page_ptrs (free_entry fl k m) = (page_ptrs m)[f := None]"
    by (auto simp: free_entry_def free_refs_def Let_def f_def split: option.splits)
  then show ?thesis by (cases "f < length (page_ptrs m)"; cases "g = f") (auto simp: list_update_beyond)
qed

lemma free_upto_page_ptrs:
  "page_ptrs (free_upto date m n) ! g = page_ptrs m ! g \<or> page_ptrs (free_upto date m n) ! g = None"
proof (induction n)
  case (Suc n)
  then show ?case
    using free_entry_page_ptrs [of "e_flags_drv (slices (free_upto date m n) ! n)" n "free_upto date m n" g]
    by (auto simp: free_upto_simps free1_def)
qed (simp add: free_upto_simps)

lemma free_upto_pages:
  assumes "m_ok m" "n \<le> k" "k < 32" "e_page_ptr_idx (slices m ! k) = f" "f \<noteq> 0"
  shows "page_ptrs (free_upto date m n) ! f = page_ptrs m ! f"
proof -
  have "slices (free_upto date m n) ! k = slices m ! k" using free_upto_slices [of m n k date] assms by simp
  moreover have "entry_ok (free_upto date m n) k" using free_upto_ok [of m n date] m_okD(11) assms by simp
  ultimately have "page_ptrs (free_upto date m n) ! f \<noteq> None" using assms(4,5) by (auto simp: entry_ok_def Let_def)
  then show ?thesis using free_upto_page_ptrs [of date m n f] by auto
qed

subsection \<open>The calls that unpin pages\<close>

fun put_of :: "kern_call \<Rightarrow> page list" where
  "put_of (PutPage p) = [p]"
| "put_of _ = []"

definition puts :: "kern_call list \<Rightarrow> page list" where "puts l = concat (map put_of l)"

lemma puts_simps [simp]: "puts [] = []" "puts (a @ b) = puts a @ puts b" "puts (c # l) = put_of c @ puts l"
  by (simp_all add: puts_def)

text \<open>The pages of a slice.\<close>

definition slice_pages :: "L1TlbMappingPort1 \<Rightarrow> nat \<Rightarrow> page list" where
  "slice_pages m k =
     (let e = slices m ! k
      in case page_ptrs m ! e_page_ptr_idx e of
           Some pages \<Rightarrow> map ((!) pages) [unat (e_page_idx_start e) ..< unat (e_page_idx_end e) + 1]
         | None \<Rightarrow> [])"

lemma puts_unlock: "puts (unlock_pages K fl pages e) = map ((!) pages) [unat (e_page_idx_start e) ..< unat (e_page_idx_end e) + 1]"
proof -
  have "puts (concat (map f xs)) = concat (map (\<lambda>x. puts (f x)) xs)" for f :: "nat \<Rightarrow> kern_call list" and xs
    by (induction xs) auto
  then show ?thesis unfolding unlock_pages_def
    by (simp add: if_distrib [of puts] concat_map_singleton cong: if_cong)
qed

lemma puts_free_calls:
  "puts (free_calls K fl flags_hw k m) = (if \<not> bit fl 1 \<and> \<not> bit fl 2 then slice_pages m k else [])"
  by (auto simp: free_calls_def slice_pages_def Let_def puts_unlock split: option.splits)

subsection \<open>A pass of \<open>pulp_rab_free\<close> over a mapping of port 1\<close>

text \<open>The flags with which slice \<open>k\<close> of mapping \<open>j\<close> is freed: \<open>EVERY\<close> is dropped in the last mapping.\<close>

definition pass_flags :: "nat \<Rightarrow> u8 \<Rightarrow> u8" where
  "pass_flags j fl =
     BIT_CLEAR (if bit fl 2 \<and> j = 1 then BIT_CLEAR fl RAB_FLAGS_DRV_EVERY else fl) RAB_FLAGS_DRV_FIXED"

lemma flag_fixed_bits [simp]:
  "bit RAB_FLAGS_DRV_FIXED 3" "\<not> bit RAB_FLAGS_DRV_FIXED 0" "\<not> bit RAB_FLAGS_DRV_FIXED 1" "\<not> bit RAB_FLAGS_DRV_FIXED 2"
  "\<not> bit RAB_FLAGS_DRV_FIXED (Suc 0)"
  by (simp_all add: RAB_FLAGS_DRV_FIXED_def)

lemma pass_flags_bits:
  "bit (pass_flags j fl) 0 = bit fl 0" "bit (pass_flags j fl) 1 = bit fl 1" "bit (pass_flags j fl) 2 = (bit fl 2 \<and> j \<noteq> 1)"
  "\<not> bit (pass_flags j fl) 3" "bit (pass_flags j fl) (Suc 0) = bit fl (Suc 0)"
  by (auto simp: pass_flags_def)

lemma free_step_port1:
  fixes K :: kern and k :: nat
  assumes req: "rq_port req = 1" "rq_mapping req = j" "rq_date_cur req = date"
    and s: "\<not> soc_mh_is_ena s" "j < length (mappings s)" "mappings s ! j = m"
  defines "R \<equiv> free_step K False 2 (req, s) k"
    and "fl \<equiv> pass_flags j (e_flags_drv (slices m ! k))"
  shows "rq_port (fst R) = 1 \<and> rq_mapping (fst R) = j \<and> rq_date_cur (fst R) = date"
    and "snd R = s\<lparr>mappings := (mappings s)[j := free1 date m k], hw := hw (snd R), kern_log := kern_log (snd R)\<rparr>"
    and "puts (kern_log (snd R)) = puts (kern_log s)
           @ (if expired date (slices m ! k) \<and> \<not> bit fl 1 \<and> \<not> bit fl 2 then slice_pages m k else [])"
    and "hw (snd R) = (if expired date (slices m ! k) \<and>
           (if page_ptrs m ! e_page_ptr_idx (slices m ! k) \<noteq> None \<or> bit fl 0 then mapping_active s = j
            else (ucast (hw s (entry1 k + 24)) :: u8) \<noteq> 0)
         then (hw s)(entry1 k + 24 := 0) else hw s)"
proof -
  define r where "r = req\<lparr>rq_slice := k, rq_flags_drv := fl\<rparr>"
  have r: "rq_port r = 1" "rq_mapping r = j" "rq_slice r = k" "rq_flags_drv r = fl" "rq_date_cur r = date"
    using req by (simp_all add: r_def)
  have fl: "free_flags s False (req\<lparr>rq_slice := k\<rparr>) 2 = fl"
    using req s by (simp add: free_flags_def Let_def fl_def pass_flags_def)
  have chk: "pulp_rab_slice_check s r = expired date (slices m ! k)"
    using r s(3) pass_flags_bits(4) [of j "e_flags_drv (slices m ! k)"]
    by (simp add: slice_check_avail avail_def expired_def fl_def)
  have R: "R = (r, if expired date (slices m ! k) then pulp_rab_slice_free K s r else s)"
    unfolding R_def free_step_def using chk by (simp add: Let_def fl r_def)
  have m1: "free1 date m k = (if expired date (slices m ! k) then free_entry fl k m else m)"
    using free_entry_cong [of fl "e_flags_drv (slices m ! k)"] by (simp add: free1_def fl_def pass_flags_bits)
  have fr: "pulp_rab_slice_free K s r = s\<lparr>mappings := (mappings s)[j := free_entry fl k m], hw := hw (pulp_rab_slice_free K s r),
      kern_log := kern_log s @ free_calls K fl (ucast (hw s (entry1 k + 24))) k m\<rparr>"
    using r s by (simp add: pulp_rab_slice_free_def Let_def pulp_rab_slice_is_managed_by_host_def upd_mapping_def iowrite_def rab_offsets)
  have same: "(mappings s)[j := m] = mappings s" using s(3) by auto
  show "rq_port (fst R) = 1 \<and> rq_mapping (fst R) = j \<and> rq_date_cur (fst R) = date" using r by (simp add: R)
  show "snd R = s\<lparr>mappings := (mappings s)[j := free1 date m k], hw := hw (snd R), kern_log := kern_log (snd R)\<rparr>"
    unfolding R m1 using same by (cases "expired date (slices m ! k)") (simp_all, subst (1 2) fr, simp)
  have kl: "kern_log (pulp_rab_slice_free K s r) = kern_log s @ free_calls K fl (ucast (hw s (entry1 k + 24))) k m"
    by (subst fr) simp
  show "puts (kern_log (snd R)) = puts (kern_log s)
           @ (if expired date (slices m ! k) \<and> \<not> bit fl 1 \<and> \<not> bit fl 2 then slice_pages m k else [])"
    using kl by (simp add: R puts_free_calls)
  show "hw (snd R) = (if expired date (slices m ! k) \<and>
           (if page_ptrs m ! e_page_ptr_idx (slices m ! k) \<noteq> None \<or> bit fl 0 then mapping_active s = j
            else (ucast (hw s (entry1 k + 24)) :: u8) \<noteq> 0)
         then (hw s)(entry1 k + 24 := 0) else hw s)"
    using r s by (auto simp: R pulp_rab_slice_free_def Let_def pulp_rab_slice_is_managed_by_host_def rab_offsets free_clears_hw_def)
qed

lemma free_mirror_slice:
  assumes hw: "h = (if (if page_ptrs m ! e_page_ptr_idx (slices m ! k) \<noteq> None \<or> bit fl 0 then mapping_active s = j
            else (ucast (hw s (entry1 k + 24)) :: u8) \<noteq> 0) then (hw s)(entry1 k + 24 := 0) else hw s)"
    and ok: "entry_ok m k" and fl: "\<not> bit fl 0"
    and old: "shows1 (hw s) k eo"
    and e: "mapping_active s = j \<Longrightarrow> \<not> bit (e_flags_hw e) 0"
      "mapping_active s \<noteq> j \<Longrightarrow> e = eo" "mapping_active s \<noteq> j \<Longrightarrow> e_page_ptr_idx (slices m ! k) = 0 \<Longrightarrow> \<not> bit (e_flags_hw eo) 0"
  shows "shows1 h k e"
proof -
  have u8: "\<not> bit (hw s (entry1 k + 24)) 0" if "(ucast (hw s (entry1 k + 24)) :: u8) = 0"
  proof -
    have "\<not> bit (ucast (hw s (entry1 k + 24)) :: u8) 0" using that by simp
    then show ?thesis by (simp add: bit_ucast_iff)
  qed
  show ?thesis
  proof (cases "mapping_active s = j")
    case True
    have "\<not> bit (h (entry1 k + 24)) 0" using hw True fl u8 by (auto split: if_splits)
    then show ?thesis using e(1) [OF True] by (simp add: shows1_def)
  next
    case False
    have "h = hw s \<or> h = (hw s)(entry1 k + 24 := 0) \<and> e_page_ptr_idx (slices m ! k) = 0"
      using hw False fl ok by (auto simp: entry_ok_def Let_def split: if_splits)
    then show ?thesis using e(2,3) [OF False] old by (auto simp: shows1_def)
  qed
qed

text \<open>The whole pass: the table of mapping \<open>j\<close> becomes \<open>free_upto\<close>; pages are unpinned in the pass over the last
  mapping only; and if the registers showed the active mapping and the slices that are switched off behind its back
  are disabled in it, they still do.\<close>

lemma free_pass:
  fixes K :: kern
  assumes req: "rq_port req = 1" "rq_mapping req = j" "rq_date_cur req = date"
    and s: "\<not> soc_mh_is_ena s" "j < 2" "length (mappings s) = 2" "mappings s ! j = m" "m_ok m"
    and n: "n \<le> 32"
  defines "R \<equiv> foldl (free_step K False 2) (req, s) [0 ..< n]"
  shows "(rq_port (fst R) = 1 \<and> rq_mapping (fst R) = j \<and> rq_date_cur (fst R) = date)
    \<and> snd R = s\<lparr>mappings := (mappings s)[j := free_upto date m n], hw := hw (snd R), kern_log := kern_log (snd R)\<rparr>
    \<and> puts (kern_log (snd R)) = puts (kern_log s)
        @ (if j = 1 then concat (map (\<lambda>k. if expired date (slices m ! k) then slice_pages m k else []) [0 ..< n]) else [])
    \<and> (mirror1 s \<longrightarrow> (\<forall>k < 32. mapping_active s \<noteq> j \<longrightarrow> expired date (slices m ! k) \<longrightarrow> e_page_ptr_idx (slices m ! k) = 0 \<longrightarrow>
          \<not> bit (e_flags_hw (slices (mappings s ! mapping_active s) ! k)) 0) \<longrightarrow> mirror1 (snd R))"
  using n unfolding R_def
proof (induction n)
  case 0
  have "s\<lparr>mappings := (mappings s)[j := m]\<rparr> = s" using s(4) by (metis list_update_id rab.surjective rab.update_convs(2))
  then show ?case using req by (simp add: free_upto_simps)
next
  case (Suc n)
  define P where "P = foldl (free_step K False 2) (req, s) [0 ..< n]"
  define q t where "q = fst P" and "t = snd P"
  have P: "P = (q, t)" by (simp add: q_def t_def)
  define m' where "m' = free_upto date m n"
  have IH: "rq_port q = 1" "rq_mapping q = j" "rq_date_cur q = date"
    "t = s\<lparr>mappings := (mappings s)[j := m'], hw := hw t, kern_log := kern_log t\<rparr>"
    "puts (kern_log t) = puts (kern_log s)
        @ (if j = 1 then concat (map (\<lambda>k. if expired date (slices m ! k) then slice_pages m k else []) [0 ..< n]) else [])"
    and mir: "mirror1 s \<Longrightarrow> (\<forall>k < 32. mapping_active s \<noteq> j \<longrightarrow> expired date (slices m ! k) \<longrightarrow> e_page_ptr_idx (slices m ! k) = 0 \<longrightarrow>
          \<not> bit (e_flags_hw (slices (mappings s ! mapping_active s) ! k)) 0) \<Longrightarrow> mirror1 t"
    using Suc unfolding P_def [symmetric] q_def t_def m'_def by auto
  have t: "\<not> soc_mh_is_ena t" "mappings t = (mappings s)[j := m']" "mapping_active t = mapping_active s"
    by (subst IH(4), use s in simp)+
  have n32: "n < 32" using Suc.prems by simp
  have m': "m_ok m'" using free_upto_ok [OF s(5)] n32 by (simp add: m'_def)
  have sl: "slices m' ! n = slices m ! n" using free_upto_slices [OF s(5) _ n32, of n date] n32 by (simp add: m'_def)
  have pg: "e_page_ptr_idx (slices m ! n) \<noteq> 0 \<Longrightarrow>
      page_ptrs m' ! e_page_ptr_idx (slices m ! n) = page_ptrs m ! e_page_ptr_idx (slices m ! n)"
    using free_upto_pages [OF s(5) order.refl n32 refl] by (simp add: m'_def)
  have sp: "slice_pages m' n = slice_pages m n"
    using pg sl m_okD(4) [OF m'] m_okD(4) [OF s(5)]
    by (cases "e_page_ptr_idx (slices m ! n) = 0") (simp_all add: slice_pages_def)
  define S where "S = free_step K False 2 (q, t) n"
  have S: "foldl (free_step K False 2) (req, s) [0 ..< Suc n] = S" by (simp add: S_def P_def [symmetric] P)
  have tj: "mappings t ! j = m'" "j < length (mappings t)" using t(2) s(2,3) by simp_all
  note st = free_step_port1 [OF IH(1-3) t(1) tj(2,1), of K n, folded S_def]
  define fl where "fl = pass_flags j (e_flags_drv (slices m ! n))"
  have ne: "expired date (slices m ! n) \<Longrightarrow> n \<noteq> 0"
    using m_okD(6) [OF s(5)] by (cases "n = 0") (simp_all add: expired_def)
  have flags: "slice_pages m n = [] \<or> \<not> bit fl 1 \<and> (bit fl 2 \<longleftrightarrow> j \<noteq> 1)"
    using m_okD(11) [OF s(5) n32] m_okD(4) [OF s(5)]
    by (auto simp: fl_def pass_flags_bits entry_ok_def Let_def slice_pages_def split: if_splits)
  have c0: "expired date (slices m ! n) \<Longrightarrow> \<not> bit fl 0"
    using m_ok_entry_const [OF s(5) n32] ne by (simp add: fl_def pass_flags_bits)
  have log: "puts (kern_log (snd S)) = puts (kern_log s)
        @ (if j = 1 then concat (map (\<lambda>k. if expired date (slices m ! k) then slice_pages m k else []) [0 ..< Suc n]) else [])"
    using st(3) IH(5) flags by (auto simp: sl sp fl_def [symmetric])
  have upd: "snd S = s\<lparr>mappings := (mappings s)[j := free_upto date m (Suc n)], hw := hw (snd S), kern_log := kern_log (snd S)\<rparr>"
  proof -
    have "t\<lparr>mappings := X, hw := h, kern_log := l\<rparr> = s\<lparr>mappings := X, hw := h, kern_log := l\<rparr>" for X h l
      by (subst IH(4)) simp
    from st(2) [unfolded this] show ?thesis by (simp add: t(2) free_upto_simps m'_def [symmetric])
  qed
  show ?case unfolding S
  proof (intro conjI impI)
    show "rq_port (fst S) = 1" "rq_mapping (fst S) = j" "rq_date_cur (fst S) = date" using st(1) by auto
    show "snd S = s\<lparr>mappings := (mappings s)[j := free_upto date m (Suc n)], hw := hw (snd S), kern_log := kern_log (snd S)\<rparr>"
      by (rule upd)
    show "puts (kern_log (snd S)) = puts (kern_log s)
        @ (if j = 1 then concat (map (\<lambda>k. if expired date (slices m ! k) then slice_pages m k else []) [0 ..< Suc n]) else [])"
      by (rule log)
    assume m0: "mirror1 s" and dis: "\<forall>k < 32. mapping_active s \<noteq> j \<longrightarrow> expired date (slices m ! k) \<longrightarrow>
        e_page_ptr_idx (slices m ! k) = 0 \<longrightarrow> \<not> bit (e_flags_hw (slices (mappings s ! mapping_active s) ! k)) 0"
    have mt: "shows1 (hw t) k (slices (mappings t ! mapping_active s) ! k)" if "k < 32" for k
      using mir [OF m0 dis] that t(3) by (simp add: mirror1_def)
    define E where "E = (\<lambda>k. slices (mappings (snd S) ! mapping_active s) ! k)"
    have mS: "mappings (snd S) = (mappings t)[j := free1 date m' n]" "mapping_active (snd S) = mapping_active s"
      by (subst st(2), simp add: t(3))+
    have E: "E k = (if k = n \<and> mapping_active s = j \<and> expired date (slices m ! n) then clear1 (slices m ! n)
        else slices (mappings t ! mapping_active s) ! k)" for k
      using tj mS(1) sl m_okD(1) [OF m'] n32 by (auto simp: E_def free1_def nth_list_update)
    have "shows1 (hw (snd S)) k (E k)" if k: "k < 32" for k
    proof (cases "k = n \<and> expired date (slices m ! n)")
      case False
      then show ?thesis using mt [OF k] E [of k] st(4) iowrite_flags_other [of n k t 0] by (auto simp: sl)
    next
      case True
      then have kn: "k = n" and ex: "expired date (slices m ! n)" by auto
      show ?thesis unfolding kn
      proof (rule free_mirror_slice [of _ m' n fl t j])
        show "hw (snd S) = (if if page_ptrs m' ! e_page_ptr_idx (slices m' ! n) \<noteq> None \<or> bit fl 0 then mapping_active t = j
            else (ucast (hw t (entry1 n + 24)) :: u8) \<noteq> 0 then (hw t)(entry1 n + 24 := 0) else hw t)"
          using st(4) ex by (simp add: sl fl_def)
        show "entry_ok m' n" by (rule m_okD(11) [OF m' n32])
        show "\<not> bit fl 0" by (rule c0 [OF ex])
        show "shows1 (hw t) n (slices (mappings t ! mapping_active s) ! n)" by (rule mt [OF n32])
        show "mapping_active t = j \<Longrightarrow> \<not> bit (e_flags_hw (E n)) 0" using E [of n] ex t(3) by simp
        show "mapping_active t \<noteq> j \<Longrightarrow> E n = slices (mappings t ! mapping_active s) ! n" using E [of n] t(3) by simp
        show "\<not> bit (e_flags_hw (slices (mappings t ! mapping_active s) ! n)) 0"
          if "mapping_active t \<noteq> j" "e_page_ptr_idx (slices m' ! n) = 0"
          using dis n32 ex that t(2,3) sl by simp
      qed
    qed
    then show "mirror1 (snd S)" using mS(2) by (simp add: mirror1_def E_def)
  qed
qed

subsection \<open>Both ports\<close>

lemma free_step_port0:
  fixes K :: kern and k n :: nat and s :: rab
  assumes "rq_port req = 0" "k < 4"
  defines "R \<equiv> free_step K False n (req, s) k"
  shows "rq_port (fst R) = 0 \<and> rq_date_cur (fst R) = rq_date_cur req"
    and "snd R = s\<lparr>port_0 := port_0 (snd R), hw := hw (snd R)\<rparr>"
    and "length (port_0 (snd R)) = length (port_0 s)" "hw (snd R) (entry1 k' + r) = hw s (entry1 k' + r)"
  using assms(1,2)
  by (auto simp: R_def free_step_def Let_def pulp_rab_slice_free_def iowrite_def rab_offsets)

lemma free_pass_port0:
  fixes K :: kern and c :: nat and s :: rab
  assumes "rq_port req = 0" "n \<le> 4"
  defines "R \<equiv> foldl (free_step K False c) (req, s) [0 ..< n]"
  shows "rq_port (fst R) = 0 \<and> rq_date_cur (fst R) = rq_date_cur req \<and>
    snd R = s\<lparr>port_0 := port_0 (snd R), hw := hw (snd R)\<rparr> \<and> length (port_0 (snd R)) = length (port_0 s) \<and>
    (\<forall>k r. hw (snd R) (entry1 k + r) = hw s (entry1 k + r))"
  using assms(2) unfolding R_def
proof (induction n)
  case (Suc n)
  define P where "P = foldl (free_step K False c) (req, s) [0 ..< n]"
  have IH: "rq_port (fst P) = 0" "rq_date_cur (fst P) = rq_date_cur req"
    "snd P = s\<lparr>port_0 := port_0 (snd P), hw := hw (snd P)\<rparr>" "length (port_0 (snd P)) = length (port_0 s)"
    "\<forall>k r. hw (snd P) (entry1 k + r) = hw s (entry1 k + r)"
    using Suc unfolding P_def by auto
  define S where "S = free_step K False c (fst P, snd P) n"
  have S: "foldl (free_step K False c) (req, s) [0 ..< Suc n] = S" by (simp add: S_def P_def)
  have st: "rq_port (fst S) = 0 \<and> rq_date_cur (fst S) = rq_date_cur (fst P)"
    "snd S = (snd P)\<lparr>port_0 := port_0 (snd S), hw := hw (snd S)\<rparr>"
    "length (port_0 (snd S)) = length (port_0 (snd P))" "\<forall>k r. hw (snd S) (entry1 k + r) = hw (snd P) (entry1 k + r)"
    using free_step_port0 [OF IH(1), of n K c "snd P"] Suc.prems unfolding S_def by auto
  have "(snd P)\<lparr>port_0 := x, hw := h\<rparr> = s\<lparr>port_0 := x, hw := h\<rparr>" for x h by (subst IH(3)) simp
  then show ?case unfolding S using st IH by simp
qed (simp add: assms(1))

lemma upt_2: "[0 ..< 2] = [0, Suc 0]"
  by (simp add: numeral_2_eq_2)

text \<open>\<open>pulp_rab_free\<close> for a table of two equal mappings: both become what \<open>free_upto\<close> gives.\<close>

lemma pulp_rab_free_spec:
  fixes K :: kern and junk :: RabSliceReq and date :: u8
  assumes ok: "tables_ok s" "mappings s = [m, m]"
  defines "s' \<equiv> pulp_rab_free K junk s date False"
  shows "mappings s' = [free_upto date m 32, free_upto date m 32]" "tables_ok s'" "mapping_active s' = mapping_active s"
    and "puts (kern_log s') = puts (kern_log s)
           @ concat (map (\<lambda>k. if expired date (slices m ! k) then slice_pages m k else []) [0 ..< 32])"
    and "mirror1 s \<Longrightarrow> mirror1 s'"
proof -
  have m: "m_ok m" "mapping_active s < 2" "\<not> soc_mh_is_ena s" "length (port_0 s) = 4" using ok by (auto simp: tables_ok_def)
  define M where "M = free_upto date m 32"
  have M: "m_ok M" using free_upto_ok [OF m(1)] by (simp add: M_def)
  define q0 where "q0 = junk\<lparr>rq_date_cur := date, rq_flags_drv := 0, rq_port := 0, rq_mapping := 0\<rparr>"
  define P0 where "P0 = foldl (free_step K False 1) (q0, s) [0 ..< 4]"
  note p0 = free_pass_port0 [of q0 4 K 1 s, folded P0_def, simplified]
  have p0: "rq_date_cur (fst P0) = date" "snd P0 = s\<lparr>port_0 := port_0 (snd P0), hw := hw (snd P0)\<rparr>"
    "length (port_0 (snd P0)) = 4" "\<And>k r. hw (snd P0) (entry1 k + r) = hw s (entry1 k + r)"
    using free_pass_port0 [of q0 4 K 1 s] m(4) unfolding P0_def by (auto simp: q0_def)
  define s0 where "s0 = snd P0"
  obtain x0 h0 where e0: "s0 = s\<lparr>port_0 := x0, hw := h0\<rparr>" using p0(2) unfolding s0_def by blast
  have s0: "mappings s0 = [m, m]" "mapping_active s0 = mapping_active s" "\<not> soc_mh_is_ena s0" "kern_log s0 = kern_log s"
    "length (port_0 s0) = 4"
    using ok m p0(3) by (simp_all add: e0 s0_def [symmetric])
  define q1 where "q1 = (fst P0)\<lparr>rq_port := 1, rq_mapping := 0\<rparr>"
  have q1: "rq_port q1 = 1" "rq_mapping q1 = 0" "rq_date_cur q1 = date" using p0(1) by (simp_all add: q1_def)
  define P1 where "P1 = foldl (free_step K False 2) (q1, s0) [0 ..< 32]"
  define s1 where "s1 = snd P1"
  have l1: "rq_port (fst P1) = 1" "rq_date_cur (fst P1) = date"
    "s1 = s0\<lparr>mappings := (mappings s0)[0 := M], hw := hw s1, kern_log := kern_log s1\<rparr>"
    "puts (kern_log s1) = puts (kern_log s0) @ []"
    and mir1: "mirror1 s0 \<longrightarrow> (\<forall>k < 32. mapping_active s0 \<noteq> 0 \<longrightarrow> expired date (slices m ! k) \<longrightarrow> e_page_ptr_idx (slices m ! k) = 0 \<longrightarrow>
          \<not> bit (e_flags_hw (slices (mappings s0 ! mapping_active s0) ! k)) 0) \<longrightarrow> mirror1 s1"
    using free_pass [OF q1 s0(3), of m 32 K, folded P1_def, folded s1_def, folded M_def] s0(1) m(1) by auto
  obtain h1 k1 where e1: "s1 = s0\<lparr>mappings := [M, m], hw := h1, kern_log := k1\<rparr>" using l1(3) s0(1) by auto
  have s1: "mappings s1 = [M, m]" "mapping_active s1 = mapping_active s" "\<not> soc_mh_is_ena s1" "length (port_0 s1) = 4"
    using s0 by (simp_all add: e1)
  define q2 where "q2 = (fst P1)\<lparr>rq_mapping := 1\<rparr>"
  have q2: "rq_port q2 = 1" "rq_mapping q2 = 1" "rq_date_cur q2 = date" using l1(1,2) by (simp_all add: q2_def)
  define P2 where "P2 = foldl (free_step K False 2) (q2, s1) [0 ..< 32]"
  have f0: "free_port K False (junk\<lparr>rq_date_cur := date, rq_flags_drv := 0\<rparr>, s) 0 = P0"
    by (simp add: free_port_def free_mapping_def n_slices_of_def RAB_L1_N_SLICES_PORT_0_def P0_def q0_def)
  have f1: "free_mapping K False 2 ((fst P0)\<lparr>rq_port := 1\<rparr>, s0) 0 = P1"
    by (simp add: free_mapping_def n_slices_of_def RAB_L1_N_SLICES_PORT_1_def P1_def q1_def)
  have f2: "free_mapping K False 2 P1 1 = P2"
    using l1(1) by (simp add: free_mapping_def n_slices_of_def RAB_L1_N_SLICES_PORT_1_def P2_def q2_def s1_def case_prod_beta)
  have f3: "free_port K False P0 1 = P2"
    unfolding free_port_def case_prod_beta Let_def
    by (simp add: RAB_L1_N_MAPPINGS_PORT_1_def upt_2 f1 [simplified] f2 [simplified] s0_def [symmetric])
  have s': "s' = snd P2"
    by (simp add: s'_def pulp_rab_free_def RAB_N_PORTS_def upt_2 f0 f3 [simplified])
  have l2: "s' = s1\<lparr>mappings := (mappings s1)[1 := M], hw := hw s', kern_log := kern_log s'\<rparr>"
    "puts (kern_log s') = puts (kern_log s1)
       @ concat (map (\<lambda>k. if expired date (slices m ! k) then slice_pages m k else []) [0 ..< 32])"
    and mir2: "mirror1 s1 \<longrightarrow> (\<forall>k < 32. mapping_active s1 \<noteq> 1 \<longrightarrow> expired date (slices m ! k) \<longrightarrow> e_page_ptr_idx (slices m ! k) = 0 \<longrightarrow>
          \<not> bit (e_flags_hw (slices (mappings s1 ! mapping_active s1) ! k)) 0) \<longrightarrow> mirror1 s'"
    using free_pass [OF q2 s1(3), of m 32 K, folded P2_def, folded s' M_def] s1(1) m(1) by auto
  obtain h2 k2 where e2: "s' = s1\<lparr>mappings := [M, M], hw := h2, kern_log := k2\<rparr>" using l2(1) s1(1) by auto
  show "mappings s' = [free_upto date m 32, free_upto date m 32]" by (simp add: e2 M_def)
  show "tables_ok s'" using M s1 m(2) by (simp add: e2 tables_ok_def)
  show "mapping_active s' = mapping_active s" using s1 by (simp add: e2)
  show "puts (kern_log s') = puts (kern_log s)
           @ concat (map (\<lambda>k. if expired date (slices m ! k) then slice_pages m k else []) [0 ..< 32])"
    using l2(2) l1(4) s0(4) by simp
  have unused: "\<not> bit (e_flags_hw (slices m ! k)) 0"
    if "k < 32" "expired date (slices m ! k)" "e_page_ptr_idx (slices m ! k) = 0" for k
    using m_okD(6) [OF m(1)] m_okD(11) [OF m(1) that(1)] that(2,3) by (cases "k = 0") (auto simp: expired_def entry_ok_def Let_def)
  have cleared: "\<not> bit (e_flags_hw (slices M ! k)) 0" if "k < 32" "expired date (slices m ! k)" for k
    using free_upto_slices [OF m(1) _ that(1), of 32 date] that by (simp add: M_def)
  show "mirror1 s'" if mir: "mirror1 s"
  proof -
    have "shows1 (hw s0) k e = shows1 (hw s) k e" for k e
      using p0(4) [of k 0] p0(4) [of k 8] p0(4) [of k 16] p0(4) [of k 24] unfolding s0_def
      by (intro shows1_cong) simp_all
    then have "mirror1 s0" using mir s0(1,2) ok(2) by (simp add: mirror1_def)
    then have "mirror1 s1"
      using mir1 unused s0(1,2) m(2) by (auto simp: less_2_cases_iff)
    then show ?thesis using mir2 cleared s1(1,2) m(2) by (auto simp: less_2_cases_iff)
  qed
qed

subsection \<open>The state after initialisation\<close>

definition blank_entry :: L1EntryPort1 where
  "blank_entry = \<lparr>e_fixed = False, e_date_cur = 0, e_date_exp = 0, e_page_ptr_idx = 0, e_page_idx_start = 0,
     e_page_idx_end = 0, e_flags_drv = 0, e_addr_start = 0, e_addr_end = 0, e_addr_offset = 0, e_flags_hw = 0\<rparr>"

definition blank_mapping :: L1TlbMappingPort1 where
  "blank_mapping = \<lparr>slices = replicate 32 blank_entry, page_ptrs = replicate 32 None, page_ptr_ref_cntrs = replicate 32 0\<rparr>"

text \<open>The static variables of the driver before \<open>pulp_rab_init\<close>, and the registers after a reset.\<close>

definition blank_rab :: rab where
  "blank_rab = \<lparr>port_0 = replicate 4 \<lparr>e0_fixed = False, e0_date_cur = 0, e0_date_exp = 0, e0_addr_start = 0,
       e0_addr_end = 0, e0_addr_offset = 0, e0_flags_hw = 0\<rparr>,
     mappings = [blank_mapping, blank_mapping], mapping_active = 0, hw = (\<lambda>_. 0), soc_mh_is_ena = False,
     n_slices_reserved = 32, stripe_reqs = [], mh_on = False, mh_date = 0, mh_acp = False, mh_lvl = 0, mh_wq = False,
     kern_log = []\<rparr>"

text \<open>A constant request for port 0.\<close>

lemma const_flags [simp]: "bit RAB_FLAGS_DRV_CONST 0" "\<not> bit RAB_FLAGS_DRV_CONST 2" "\<not> bit RAB_FLAGS_DRV_CONST 3"
  by (simp_all add: RAB_FLAGS_DRV_CONST_def)

definition const_req :: "RabSliceReq \<Rightarrow> RabSliceReq" where
  "const_req req = req\<lparr>rq_flags_drv := BIT_SET (rq_flags_drv req) (RAB_FLAGS_DRV_CONST OR RAB_FLAGS_DRV_EVERY),
     rq_addr_offset := const_offset req\<rparr>"

lemma const_req_simps [simp]:
  "bit (rq_flags_drv (const_req req)) 0" "bit (rq_flags_drv (const_req req)) 2"
  "bit (rq_flags_drv (const_req req)) 3 = bit (rq_flags_drv req) 3"
  "rq_port (const_req req) = rq_port req" "rq_mapping (const_req req) = rq_mapping req"
  "rq_date_cur (const_req req) = rq_date_cur req" "rq_date_exp (const_req req) = rq_date_exp req"
  "rq_flags_hw (const_req req) = rq_flags_hw req"
  by (simp_all add: const_req_def bit_or_iff)

lemma req_const:
  "rq_port req = 0 \<or> rq_addr_start req = L3_MEM_BASE_ADDR \<Longrightarrow>
   pulp_rab_req K s req = Some (foldl (req_mapping K None True) (0, const_req req, s) [0, Suc 0])"
proof -
  assume "rq_port req = 0 \<or> rq_addr_start req = L3_MEM_BASE_ADDR"
  moreover have "const_offset (req\<lparr>rq_flags_drv := x\<rparr>) = const_offset req" for x by (simp add: const_offset_def)
  moreover have "bit (BIT_SET (rq_flags_drv req) (RAB_FLAGS_DRV_CONST OR RAB_FLAGS_DRV_EVERY)) 0" by (simp add: bit_or_iff)
  ultimately show ?thesis
    by (simp add: pulp_rab_req_def Let_def RAB_L1_N_MAPPINGS_PORT_1_def upt_2 const_req_def)
qed

lemma req_port0:
  assumes req: "rq_port req = 0" "rq_mapping req = 0"
    and k: "List.find (\<lambda>i. pulp_rab_slice_check s ((const_req req)\<lparr>rq_slice := i\<rparr>)) [0 ..< 4] = Some k"
  obtains h where "pulp_rab_req K s req
      = Some (0, (const_req req)\<lparr>rq_slice := k\<rparr>, s\<lparr>port_0 := (port_0 s)[k := setup0 (const_req req)], hw := h\<rparr>)"
proof -
  define q where "q = const_req req"
  have q: "rq_port q = 0" "rq_mapping q = 0" using req by (simp_all add: q_def)
  have get: "pulp_rab_slice_get s q = (0, q\<lparr>rq_slice := k\<rparr>)"
    using k q by (simp add: pulp_rab_slice_get_def n_slices_of_def RAB_L1_N_SLICES_PORT_0_def
        pulp_rab_slice_is_managed_by_host_def q_def)
  define r where "r = q\<lparr>rq_slice := k\<rparr>"
  have r: "rq_port r = 0" "rq_mapping r = 0" "rq_slice r = k" "setup0 r = setup0 q" using q by (simp_all add: r_def setup0_def)
  obtain h1 where f: "pulp_rab_slice_free K s r = s\<lparr>port_0 := (port_0 s)[k := clear0 (port_0 s ! k)], hw := h1\<rparr>"
  proof
    show "pulp_rab_slice_free K s r
        = s\<lparr>port_0 := (port_0 s)[k := clear0 (port_0 s ! k)], hw := hw (pulp_rab_slice_free K s r)\<rparr>"
      using r by (simp add: pulp_rab_slice_free_def pulp_rab_slice_is_managed_by_host_def Let_def iowrite_def)
  qed
  obtain h where st: "pulp_rab_slice_setup (pulp_rab_slice_free K s r) r None
      = (0, s\<lparr>port_0 := (port_0 s)[k := setup0 q], hw := h\<rparr>)"
    using r by (simp add: f pulp_rab_slice_setup_def Let_def write_slice_def iowrite_def)
  have "req_mapping K None True (0, q, s) 0 = (0, r, s\<lparr>port_0 := (port_0 s)[k := setup0 q], hw := h\<rparr>)"
    using q get st by (simp add: req_mapping_def Let_def r_def)
  moreover have "req_mapping K None True (0, r, t) (Suc 0) = (0, r, t)" for t
    using r by (simp add: req_mapping_def Let_def)
  ultimately show thesis using that [of h] req_const [of req K s] req by (simp add: q_def r_def)
qed

text \<open>The constant request for the contiguous memory, on blank mappings.\<close>

definition l3_mapping :: "RabSliceReq \<Rightarrow> L1TlbMappingPort1" where
  "l3_mapping q = blank_mapping\<lparr>slices := (replicate 32 blank_entry)[0 := setup1 q],
     page_ptr_ref_cntrs := (replicate 32 0)[0 := 1]\<rparr>"

lemma find_hd: "P 0 \<Longrightarrow> 0 < n \<Longrightarrow> List.find P [0 ..< n] = Some 0"
  by (simp add: upt_conv_Cons)

lemma blank_free: "free_entry fl 0 blank_mapping = blank_mapping"
  by (simp add: free_entry_def free_refs_def blank_mapping_def blank_entry_def clear1_def Let_def list_update_same_conv)

lemma req_l3_mapping:
  assumes q: "rq_port q = 1" "bit (rq_flags_drv q) 0" "bit (rq_flags_drv q) 2" "rq_date_cur q = 255"
    and s: "j < length (mappings s)" "mappings s ! j = blank_mapping" "\<not> soc_mh_is_ena s"
  obtains h where "req_mapping K None True (0, q, s) j =
    (0, q\<lparr>rq_mapping := j, rq_page_ptr_idx := 0, rq_slice := 0\<rparr>,
     s\<lparr>mappings := (mappings s)[j := l3_mapping (q\<lparr>rq_page_ptr_idx := 0\<rparr>)], hw := h\<rparr>)"
proof -
  define r0 where "r0 = q\<lparr>rq_mapping := j, rq_page_ptr_idx := 0\<rparr>"
  define r where "r = r0\<lparr>rq_slice := 0\<rparr>"
  have fld: "pulp_rab_page_ptrs_get_field s (q\<lparr>rq_mapping := j\<rparr>) = (0, r0)"
    using find_hd [of "\<lambda>i. page_ptr_ref_cntrs blank_mapping ! i = 0" 32] s(2)
    by (simp add: pulp_rab_page_ptrs_get_field_def RAB_L1_N_SLICES_PORT_1_def r0_def blank_mapping_def)
  have "avail r0 blank_mapping 0" using q by (simp add: avail_def r0_def blank_mapping_def blank_entry_def)
  then have get: "pulp_rab_slice_get s r0 = (0, r)"
    using slice_get_avail [of r0 s] q s find_hd [of "avail r0 blank_mapping" 32] by (simp add: r0_def r_def)
  have r: "rq_port r = 1" "rq_mapping r = j" "rq_slice r = 0" "rq_page_ptr_idx r = 0" "bit (rq_flags_drv r) 0"
    "setup1 r = setup1 (q\<lparr>rq_page_ptr_idx := 0\<rparr>)" "bit (rq_flags_drv r) 2"
    using q by (simp_all add: r_def r0_def setup1_def)
  have bl: "page_ptrs blank_mapping ! e_page_ptr_idx (slices blank_mapping ! 0) = None"
    by (simp add: blank_mapping_def blank_entry_def)
  have calls: "free_calls K fl x 0 blank_mapping = []" for fl x using bl by (simp add: free_calls_def Let_def)
  have same: "(mappings s)[j := blank_mapping] = mappings s" using s(2) list_update_id [of "mappings s" j] by simp
  obtain h1 where f: "pulp_rab_slice_free K s r = s\<lparr>hw := h1\<rparr>"
  proof
    show "pulp_rab_slice_free K s r = s\<lparr>hw := hw (pulp_rab_slice_free K s r)\<rparr>"
      using r s same by (simp add: pulp_rab_slice_free_def pulp_rab_slice_is_managed_by_host_def Let_def iowrite_def
          upd_mapping_def blank_free calls)
  qed
  have sm: "setup_refs r None (blank_mapping\<lparr>slices := (slices blank_mapping)[0 := setup1 r]\<rparr>) = l3_mapping (q\<lparr>rq_page_ptr_idx := 0\<rparr>)"
    using r by (simp add: setup_refs_def l3_mapping_def blank_mapping_def Let_def list_update_same_conv)
  have nb: "\<not> setup_field_busy r (blank_mapping\<lparr>slices := (slices blank_mapping)[0 := setup1 r]\<rparr>)"
    using r by (simp add: setup_field_busy_def blank_mapping_def)
  obtain h where st: "pulp_rab_slice_setup (pulp_rab_slice_free K s r) r None
      = (0, s\<lparr>mappings := (mappings s)[j := l3_mapping (q\<lparr>rq_page_ptr_idx := 0\<rparr>)], hw := h\<rparr>)"
  proof
    show "pulp_rab_slice_setup (pulp_rab_slice_free K s r) r None
      = (0, s\<lparr>mappings := (mappings s)[j := l3_mapping (q\<lparr>rq_page_ptr_idx := 0\<rparr>)],
              hw := hw (snd (pulp_rab_slice_setup (pulp_rab_slice_free K s r) r None))\<rparr>)"
      using r s sm nb by (simp add: f pulp_rab_slice_setup_def Let_def write_slice_def iowrite_def upd_mapping_def)
  qed
  show thesis
    using that [of h] q fld get st by (simp add: req_mapping_def Let_def r_def r0_def)
qed

lemma l3_mapping_ok:
  assumes "bit (rq_flags_drv q) 3" "rq_date_exp q = 255" "rq_page_ptr_idx q = 0"
  shows "m_ok (l3_mapping q)"
proof -
  have sl: "slices (l3_mapping q) ! k = (if k = 0 then setup1 q else blank_entry)" if "k < 32" for k
    using that by (simp add: l3_mapping_def nth_list_update)
  have idx: "idxs (l3_mapping q) = replicate 32 0"
    by (rule nth_equalityI)
      (auto simp: idxs_def l3_mapping_def nth_list_update setup1_def assms(3) blank_entry_def)
  have "count_list (replicate n (0 :: nat)) f = 0" if "0 < f" for n f using that by (induction n) auto
  then have c: "cnt (l3_mapping q) f = 0" if "0 < f" for f using that by (simp add: cnt_def idx)
  have "entry_ok (l3_mapping q) k" if "k < 32" for k
    using sl [OF that] assms(3) by (simp add: entry_ok_def Let_def setup1_def blank_entry_def)
  then show ?thesis using sl [of 0] assms c
    by (auto simp: m_ok_def setup1_def) (auto simp: l3_mapping_def blank_mapping_def)
qed

definition e0_blank :: L1EntryPort0 where
  "e0_blank = \<lparr>e0_fixed = False, e0_date_cur = 0, e0_date_exp = 0, e0_addr_start = 0, e0_addr_end = 0,
     e0_addr_offset = 0, e0_flags_hw = 0\<rparr>"

lemma find_port0:
  assumes "rq_port q = 0" "rq_date_cur q = 255" "port_0 s = es @ e0_blank # rest" "length es < 4"
    and "\<forall>e \<in> set es. e0_date_exp e = 255"
  shows "List.find (\<lambda>i. pulp_rab_slice_check s (q\<lparr>rq_slice := i\<rparr>)) [0 ..< 4] = Some (length es)"
proof -
  have "pulp_rab_slice_check s (q\<lparr>rq_slice := length es\<rparr>)"
    using assms(1-3) by (simp add: pulp_rab_slice_check_def e0_blank_def Let_def)
  moreover have "\<not> pulp_rab_slice_check s (q\<lparr>rq_slice := i\<rparr>)" if "i < length es" for i
    using that assms by (auto simp: pulp_rab_slice_check_def Let_def nth_append)
  ultimately show ?thesis using assms(4)
    by (auto simp: find_Some_iff)
qed

lemma req_port0_next:
  assumes "rq_port r = 0" "rq_mapping r = 0" "rq_date_cur r = 255" "port_0 s = es @ e0_blank # rest" "length es < 4"
    and "\<forall>e \<in> set es. e0_date_exp e = 255"
  shows "\<exists>h. pulp_rab_req K s r = Some (0, (const_req r)\<lparr>rq_slice := length es\<rparr>,
    s\<lparr>port_0 := es @ setup0 (const_req r) # rest, hw := h\<rparr>)"
proof -
  have "List.find (\<lambda>i. pulp_rab_slice_check s ((const_req r)\<lparr>rq_slice := i\<rparr>)) [0 ..< 4] = Some (length es)"
    by (rule find_port0 [OF _ _ assms(4,5,6)]) (simp_all add: assms)
  from req_port0 [OF assms(1,2) this, of K] show ?thesis by (auto simp: assms(4))
qed

text \<open>\<open>pulp_rab_init\<close>: tables, defaults of the miss handling, the fixed mappings, disabling the miss handler on the SoC
  (whose result is ignored); the logger and the profiling are not built in.\<close>

definition pulp_rab_init :: "kern \<Rightarrow> RabSliceReq \<Rightarrow> rab \<Rightarrow> (int \<times> rab) option" where
  "pulp_rab_init K junk s =
     (let s = pulp_rab_l1_init s;
          s = s\<lparr>mh_on := False, mh_date := 0, mh_acp := False, mh_lvl := 0, n_slices_reserved := RAB_L1_N_SLICES_PORT_1\<rparr>
      in case pulp_rab_setup K junk s of
           None \<Rightarrow> None
         | Some (err, _, s) \<Rightarrow> Some (err, if err \<noteq> 0 then s else snd (pulp_rab_soc_mh_dis K junk s)))"

lemma setup_one_Some:
  "setup_one K (Some (0, req, s)) (p, a, l) = pulp_rab_req K s (req\<lparr>rq_port := p, rq_addr_start := a, rq_addr_end := a + l\<rparr>)"
  by (simp add: setup_one_def)

lemma pulp_rab_setup_ok:
  assumes "port_0 s = [e0_blank, e0_blank, e0_blank, e0_blank]" "mappings s = [blank_mapping, blank_mapping]"
    "\<not> soc_mh_is_ena s"
  obtains q es h m where "pulp_rab_setup K junk s = Some (0, q, s\<lparr>port_0 := es, mappings := [m, m], hw := h\<rparr>)" "m_ok m" "length es = 4"
    "\<exists>q. m = l3_mapping q"
proof -
  define r1 where "r1 = (setup_req junk)\<lparr>rq_port := 0, rq_addr_start := L2_MEM_H_BASE_ADDR, rq_addr_end := L2_MEM_H_BASE_ADDR + L2_MEM_SIZE_B\<rparr>"
  define q1 where "q1 = (const_req r1)\<lparr>rq_slice := 0\<rparr>"
  define r2 where "r2 = q1\<lparr>rq_port := 0, rq_addr_start := MBOX_H_BASE_ADDR, rq_addr_end := MBOX_H_BASE_ADDR + MBOX_SIZE_B\<rparr>"
  define q2 where "q2 = (const_req r2)\<lparr>rq_slice := 1\<rparr>"
  define r3 where "r3 = q2\<lparr>rq_port := 0, rq_addr_start := PULP_H_BASE_ADDR, rq_addr_end := PULP_H_BASE_ADDR + CLUSTERS_SIZE_B\<rparr>"
  define q3 where "q3 = (const_req r3)\<lparr>rq_slice := 2\<rparr>"
  define r4 where "r4 = q3\<lparr>rq_port := 1, rq_addr_start := L3_MEM_BASE_ADDR, rq_addr_end := L3_MEM_BASE_ADDR + L3_MEM_SIZE_B\<rparr>"
  have f0: "bit (rq_flags_drv (setup_req junk)) 3"
    by (simp add: setup_req_def bit_or_iff)
  have r1: "rq_port r1 = 0" "rq_mapping r1 = 0" "rq_date_cur r1 = 255" "rq_date_exp r1 = 255" "bit (rq_flags_drv r1) 3"
    using f0 by (simp_all add: r1_def setup_req_def)
  have r2: "rq_port r2 = 0" "rq_mapping r2 = 0" "rq_date_cur r2 = 255" "rq_date_exp r2 = 255" "bit (rq_flags_drv r2) 3"
    using r1 by (simp_all add: r2_def q1_def)
  have r3: "rq_port r3 = 0" "rq_mapping r3 = 0" "rq_date_cur r3 = 255" "rq_date_exp r3 = 255" "bit (rq_flags_drv r3) 3"
    using r2 by (simp_all add: r3_def q2_def)
  have r4: "rq_port r4 = 1" "rq_date_cur r4 = 255" "rq_date_exp r4 = 255" "bit (rq_flags_drv r4) 3" "rq_addr_start r4 = L3_MEM_BASE_ADDR"
    using r3 by (simp_all add: r4_def q3_def)
  define e where "e = (\<lambda>r. setup0 (const_req r))"
  have e: "e0_date_exp (e r) = rq_date_exp r" "setup0 (const_req r) = e r" for r by (simp_all add: e_def setup0_def)
  obtain h1 where s1: "pulp_rab_req K s r1 = Some (0, q1, s\<lparr>port_0 := [e r1, e0_blank, e0_blank, e0_blank], hw := h1\<rparr>)"
    using req_port0_next [OF r1(1-3), of s "[]" "[e0_blank, e0_blank, e0_blank]" K] assms(1)
    by (auto simp: q1_def e)
  define t1 where "t1 = s\<lparr>port_0 := [e r1, e0_blank, e0_blank, e0_blank], hw := h1\<rparr>"
  obtain h2 where s2: "pulp_rab_req K t1 r2 = Some (0, q2, t1\<lparr>port_0 := [e r1, e r2, e0_blank, e0_blank], hw := h2\<rparr>)"
    using req_port0_next [OF r2(1-3), of t1 "[e r1]" "[e0_blank, e0_blank]" K] r1(4)
    by (auto simp: q2_def e t1_def)
  define t2 where "t2 = t1\<lparr>port_0 := [e r1, e r2, e0_blank, e0_blank], hw := h2\<rparr>"
  obtain h3 where s3: "pulp_rab_req K t2 r3 = Some (0, q3, t2\<lparr>port_0 := [e r1, e r2, e r3, e0_blank], hw := h3\<rparr>)"
    using req_port0_next [OF r3(1-3), of t2 "[e r1, e r2]" "[e0_blank]" K] r1(4) r2(4)
    by (auto simp: q3_def e t2_def numeral_2_eq_2)
  define t3 where "t3 = t2\<lparr>port_0 := [e r1, e r2, e r3, e0_blank], hw := h3\<rparr>"
  have t3: "mappings t3 = [blank_mapping, blank_mapping]" "\<not> soc_mh_is_ena t3" using assms by (simp_all add: t3_def t2_def t1_def)
  define q where "q = const_req r4"
  define m where "m = l3_mapping (q\<lparr>rq_page_ptr_idx := 0\<rparr>)"
  have q: "rq_port q = 1" "bit (rq_flags_drv q) 0" "bit (rq_flags_drv q) 2" "rq_date_cur q = 255" using r4 by (simp_all add: q_def)
  obtain h4 where s4: "req_mapping K None True (0, q, t3) 0 = (0, q\<lparr>rq_mapping := 0, rq_page_ptr_idx := 0, rq_slice := 0\<rparr>,
      t3\<lparr>mappings := [m, blank_mapping], hw := h4\<rparr>)"
    using req_l3_mapping [OF q, of 0 t3 K] t3 by (auto simp: m_def)
  define t4 where "t4 = t3\<lparr>mappings := [m, blank_mapping], hw := h4\<rparr>"
  define q' where "q' = q\<lparr>rq_mapping := 0, rq_page_ptr_idx := 0, rq_slice := 0\<rparr>"
  have q': "rq_port q' = 1" "bit (rq_flags_drv q') 0" "bit (rq_flags_drv q') 2" "rq_date_cur q' = 255" using q by (simp_all add: q'_def)
  have m': "l3_mapping (q'\<lparr>rq_page_ptr_idx := 0\<rparr>) = m" by (simp add: m_def q'_def l3_mapping_def setup1_def)
  obtain h5 where s5: "req_mapping K None True (0, q', t4) (Suc 0) = (0, q'\<lparr>rq_mapping := 1, rq_page_ptr_idx := 0, rq_slice := 0\<rparr>,
      t4\<lparr>mappings := [m, m], hw := h5\<rparr>)"
    using req_l3_mapping [OF q', of 1 t4 K] t3(2) by (auto simp: m' t4_def)
  have l3: "pulp_rab_req K t3 r4 = Some (0, q'\<lparr>rq_mapping := 1, rq_page_ptr_idx := 0, rq_slice := 0\<rparr>, t4\<lparr>mappings := [m, m], hw := h5\<rparr>)"
    using req_const [of r4 K t3] r4(5) s4 s5 by (simp add: q_def [symmetric] q'_def [symmetric] t4_def [symmetric])
  have "pulp_rab_setup K junk s = Some (0, q'\<lparr>rq_mapping := 1, rq_page_ptr_idx := 0, rq_slice := 0\<rparr>, t4\<lparr>mappings := [m, m], hw := h5\<rparr>)"
    unfolding pulp_rab_setup_def
    by (simp add: setup_one_Some r1_def [symmetric] s1 t1_def [symmetric] r2_def [symmetric] s2 t2_def [symmetric]
        r3_def [symmetric] s3 t3_def [symmetric] r4_def [symmetric, simplified] l3)
  moreover have "\<exists>q. m = l3_mapping q" unfolding m_def by blast
  moreover have "m_ok m" unfolding m_def using r4 by (intro l3_mapping_ok) (simp_all add: q_def)
  ultimately show thesis
    using that by (simp add: t4_def t3_def t2_def t1_def)
qed

subsection \<open>Reachable states\<close>

lemma mapping_switch_state: "\<exists>h. pulp_rab_mapping_switch s j = s\<lparr>mapping_active := j, hw := h\<rparr>"
proof -
  obtain h1 where h1: "foldl deactivate_slice s [0 ..< 32] = s\<lparr>hw := h1\<rparr>" using deactivate_loop [of s 32] by blast
  obtain h2 where h2: "foldl (activate_slice j) (s\<lparr>hw := h1\<rparr>) [0 ..< 32] = s\<lparr>hw := h1, hw := h2\<rparr>"
    using activate_loop [of j "s\<lparr>hw := h1\<rparr>" 32] by blast
  show ?thesis by (intro exI [of _ h2]) (simp add: pulp_rab_mapping_switch_def RAB_L1_N_SLICES_PORT_1_def h1 h2)
qed

lemma replicate_4: "replicate 4 x = [x, x, x, x]"
  by (simp add: numeral_eq_Suc)

lemma pulp_rab_init_ok:
  obtains s q where "pulp_rab_init K junk blank_rab = Some (0, s)" "tables_ok s" "mapping_active s = 0"
    "mappings s = [l3_mapping q, l3_mapping q]"
proof -
  define t where "t = (pulp_rab_l1_init blank_rab)\<lparr>mh_on := False, mh_date := 0, mh_acp := False, mh_lvl := 0,
    n_slices_reserved := RAB_L1_N_SLICES_PORT_1\<rparr>"
  have t: "port_0 t = [e0_blank, e0_blank, e0_blank, e0_blank]" "mappings t = [blank_mapping, blank_mapping]"
    "\<not> soc_mh_is_ena t" "mapping_active t = 0"
    by (simp_all add: t_def pulp_rab_l1_init_def blank_rab_def blank_mapping_def blank_entry_def clear0_def clear1_def
        e0_blank_def replicate_4)
  obtain q es h m where st: "pulp_rab_setup K junk t = Some (0, q, t\<lparr>port_0 := es, mappings := [m, m], hw := h\<rparr>)"
    "m_ok m" "length es = 4" "\<exists>q. m = l3_mapping q" by (rule pulp_rab_setup_ok [OF t(1-3)])
  have "pulp_rab_init K junk blank_rab = Some (0, t\<lparr>port_0 := es, mappings := [m, m], hw := h\<rparr>)"
    using st(1) t(3) by (simp add: pulp_rab_init_def t_def [symmetric] Let_def pulp_rab_soc_mh_dis_def)
  then show thesis using that st(2,3,4) t(3,4) by (auto simp: tables_ok_def)
qed

text \<open>States of the driver after its initialisation, requests of the user, releases by date and switches; the kernel may
  answer differently at every step.\<close>

inductive rab_reachable :: "rab \<Rightarrow> bool" where
  init: "pulp_rab_init K junk blank_rab = Some (0, s) \<Longrightarrow> rab_reachable s"
| req: "rab_reachable s \<Longrightarrow> user_request rq \<Longrightarrow> pulp_rab_req K s rq = Some (err, rq', s') \<Longrightarrow> rab_reachable s'"
| free: "rab_reachable s \<Longrightarrow> rab_reachable (pulp_rab_free K junk s date False)"
| switch: "rab_reachable s \<Longrightarrow> j < 2 \<Longrightarrow> rab_reachable (pulp_rab_mapping_switch s j)"

lemma rab_reachable_tables: "rab_reachable s \<Longrightarrow> tables_ok s"
proof (induction rule: rab_reachable.induct)
  case (init K junk s)
  then show ?case using pulp_rab_init_ok [of K junk] by (metis option.inject prod.inject)
next
  case (req s rq K err rq' s')
  then show ?case using req_tables_ok by blast
next
  case (free s K junk date)
  then obtain m where "mappings s = [m, m]" by (auto simp: tables_ok_def)
  then show ?case using pulp_rab_free_spec(2) free by blast
next
  case (switch s j)
  then show ?case using mapping_switch_state [of s j] by (auto simp: tables_ok_def)
qed



subsection \<open>Witnesses\<close>

text \<open>A kernel that pins consecutive pages.\<close>

definition kern_ok :: kern where
  "kern_ok = \<lparr>kmalloc_ok = (\<lambda>_. True), gup_ok = True, gup_fast = (\<lambda>a n w. (n, map (\<lambda>i. a + of_nat i * 4096) [0 ..< nat n])),
     page_to_phys = (\<lambda>p. p + 0x100000), PageReserved = (\<lambda>_. False)\<rparr>"

definition req_ok :: RabSliceReq where
  "req_ok = \<lparr>rq_date_cur = 5, rq_date_exp = 9, rq_page_ptr_idx = 0, rq_page_idx_start = 0, rq_page_idx_end = 0, rq_port = 1,
     rq_lvl = 0, rq_mapping = 0, rq_slice = 0, rq_flags_drv = 0, rq_addr_start = 0x1100, rq_addr_end = 0x1200,
     rq_addr_offset = 0, rq_flags_hw = 7\<rparr>"

lemma req_ok_user: "user_request req_ok"
  by (simp add: user_request_def req_ok_def unat_get_num_pages L3_MEM_BASE_ADDR_def)

lemma req_ok_returns: "\<exists>r. pulp_rab_req kern_ok s req_ok = Some r"
proof -
  have "unat (pulp_mem_get_num_pages 0x1100 0x100) = 1" by (simp add: unat_get_num_pages)
  then have len: "pulp_mem_get_num_pages 0x1100 0x100 = 1" by (simp add: word_eq_unat)
  show ?thesis
    by (simp del: split_paired_Ex add: pulp_rab_req_def req_ok_def kern_ok_def L3_MEM_BASE_ADDR_def Let_def len pulp_mem_get_user_pages_def
        pulp_mem_map_sg_def list_all_iff)
qed

lemma reachable_ok: "\<exists>s. rab_reachable s \<and> (\<exists>s0 rq' err. rab_reachable s0 \<and> pulp_rab_req kern_ok s0 req_ok = Some (err, rq', s))"
proof -
  obtain s0 where "pulp_rab_init kern_ok req_ok blank_rab = Some (0, s0)" by (rule pulp_rab_init_ok)
  then have s0: "rab_reachable s0" by (rule rab_reachable.init)
  obtain err rq' s where r: "pulp_rab_req kern_ok s0 req_ok = Some (err, rq', s)" using req_ok_returns [of s0] by auto
  then show ?thesis using s0 rab_reachable.req [OF s0 req_ok_user r] by blast
qed



end
