(* ===== verification/Drv_Rab_Mh.thy ===== *)
theory Drv_Rab_Mh
  imports Drv_Rab_Free
begin

text \<open>
  RAB misses in the driver (\<open>pulp-driver/pulp_rab.c\<close>, sections "SoC Miss Handling" and "Host Miss Handling"):
  handing the management of port 1 over to the miss handler on the SoC and taking it back, and the
  routine of the host that empties the queue of misses. What the kernel answers to
  \<open>get_user_pages_remote\<close> is a parameter, as is the physical address of the page table.

  \<open>junk\<close> stands for the uninitialised request structures on the stack. The first part shows what happens to the registers
  when a request is set up on both mappings.
\<close>

subsection \<open>A request leaves its slice disabled while mapping 0 is active\<close>

text \<open>After the slice has been set up for mapping 0, \<open>pulp_rab_slice_free\<close> for mapping 1 finds flags in the register that it
  does not know, and clears them; the set-up for mapping 1 does not write the registers, as that mapping is not active.\<close>

lemma ucast_u8_0: "(ucast (w :: u64) :: u8) = 0 \<Longrightarrow> \<not> bit w 0"
proof -
  assume "(ucast w :: u8) = 0"
  then have "\<not> bit (ucast w :: u8) 0" by simp
  then show ?thesis by (simp add: bit_ucast_iff)
qed

lemma req_pair_disables:
  assumes u: "user_req req" and s: "\<not> soc_mh_is_ena s" "mappings s = [m, m]" "m_ok m" "mapping_active s = 0"
    and fit: "pages_fit req pages" "field_fits is_first req pages m"
    and R: "foldl (req_mapping K (Some pages) is_first) (0, req, s) [0 ..< 2] = (0, q, s')"
    and unused: "e_page_ptr_idx (slices m ! rq_slice q) = 0"
  shows "\<not> bit (hw s' (entry1 (rq_slice q) + 24)) 0 \<and> e_flags_hw (slices (mappings s' ! 0) ! rq_slice q) = rq_flags_hw req
    \<and> mapping_active s' = 0 \<and> mappings s' ! 0 = mappings s' ! 1"
proof (cases rule: req_pair_cases [OF u s(1-3) fit, of K, unfolded R, case_names err ok])
  case err
  then show ?thesis by simp
next
  case (ok f k m' s0)
  have q: "q = req\<lparr>rq_mapping := 1, rq_page_ptr_idx := f, rq_slice := k\<rparr>" using ok(5) by (simp only: prod.inject)
  obtain h where s': "s' = s\<lparr>mappings := [m', m'], hw := h\<rparr>" using ok(5) by (auto simp only: prod.inject)
  have sl: "slices m' ! k = setup1 (req\<lparr>rq_page_ptr_idx := f\<rparr>)" by (rule ok(8))
  define q0 where "q0 = req\<lparr>rq_mapping := 0, rq_page_ptr_idx := f, rq_slice := k\<rparr>"
  have s0: "s0 = s\<lparr>mappings := [m', m], hw := hw s0\<rparr>" by (rule ok(12))
  obtain h0 where e0: "s0 = s\<lparr>mappings := [m', m], hw := h0\<rparr>" using s0 by blast
  have s0': "\<not> soc_mh_is_ena s0" "mappings s0 = [m', m]" "mapping_active s0 = 0" using s by (simp_all add: e0)
  have k: "k < 32" "0 < k" by (rule ok(4), rule ok(3))
  have un: "e_page_ptr_idx (slices m ! k) = 0" using unused by (simp add: q)
  have fk: "field_of is_first req m = Some f" "List.find (avail req m) [0 ..< 32] = Some k" by (rule ok(9), rule ok(10))
  have fq: "field_of is_first q0 m = Some f" "avail q0 = avail req" "user_req q0"
    using fk(1) u by (auto simp: field_of_def q0_def)
  have step: "req_mapping K (Some pages) is_first (0, q0, s0) 1 = (0, q, s')" unfolding q0_def by (rule ok(13) [symmetric])
  define r where "r = q0\<lparr>rq_mapping := 1, rq_page_ptr_idx := f, rq_slice := k\<rparr>"
  have nb: "\<not> setup_field_busy r (free_entry (rq_flags_drv r) k (mappings s0 ! 1))"
  proof -
    have fl: "\<not> bit (rq_flags_drv req) 0" using u by (simp add: user_req_def)
    have "free_entry (rq_flags_drv r) k m = m\<lparr>slices := (slices m)[k := clear1 (slices m ! k)]\<rparr>"
      by (rule free_entry_unused [OF s(3) k(1) un]) (simp add: r_def q0_def fl)
    moreover have "page_ptr_ref_cntrs m ! f = 0 \<or> rq_page_idx_start req \<noteq> 0"
      using fk(1) fit(2) find_upt [of "\<lambda>i. page_ptr_ref_cntrs m ! i = 0" 32 f] by (auto simp: field_of_def field_fits_def split: if_splits)
    ultimately show ?thesis by (auto simp: s0'(2) setup_field_busy_def r_def q0_def)
  qed
  have res: "(0 :: int, q, s') = (0, r, snd (pulp_rab_slice_setup (pulp_rab_slice_free K s0 r) r (Some pages)))"
    unfolding step [symmetric]
    by (rule req_mapping_user_ok [OF fq(3) s0'(1) _ _ _ r_def nb]) (use fq fk in \<open>simp_all add: s0'(2)\<close>)
  have hw': "hw s' = (if page_ptrs (mappings s0 ! 1) ! e_page_ptr_idx (slices (mappings s0 ! 1) ! k) = None
               \<and> (ucast (hw s0 (entry1 k + 24)) :: u8) \<noteq> 0
            then (hw s0)(entry1 k + 24 := 0) else hw s0)"
    using res free_setup_user(4) [OF _ _ _ s0'(1) _ nb, of K "Some pages"] fq(3) s0'(2,3) by (simp add: r_def)
  have "\<not> bit (hw s' (entry1 k + 24)) 0"
  proof (cases "(ucast (hw s0 (entry1 k + 24)) :: u8) = 0")
    case True
    then show ?thesis using ucast_u8_0 by (simp add: hw')
  next
    case False
    then show ?thesis using un m_okD(4) [OF s(3)] by (simp add: hw' s0'(2))
  qed
  then show ?thesis using sl s(4) by (simp add: q s' setup1_def)
qed

text \<open>While mapping 0 is active, a successful request for a page of user data that is given an unused slice leaves the slice
  disabled in the hardware, although the tables of both mappings record it as enabled with the requested flags.\<close>

theorem req_leaves_slice_disabled:
  assumes s: "rab_reachable s" "mapping_active s = 0" and req: "user_request req"
    and one: "unat (pulp_mem_get_num_pages (rq_addr_start req) (rq_addr_end req - rq_addr_start req)) = 1"
    and some: "pulp_rab_req K s req = Some (0, q, s')"
    and unused: "e_page_ptr_idx (slices (mappings s ! 0) ! rq_slice q) = 0"
  shows "\<not> bit (hw s' (rab_entry 1 (rq_slice q) + RAB_SLICE_FLAGS_OFFSET_B)) 0
    \<and> e_flags_hw (slices (mappings s' ! 0) ! rq_slice q) = rq_flags_hw req
    \<and> mapping_active s' = 0 \<and> mappings s' ! 0 = mappings s' ! 1"
proof -
  obtain m where m: "mappings s = [m, m]" "m_ok m" "\<not> soc_mh_is_ena s"
    using rab_reachable_tables [OF s(1)] by (auto simp: tables_ok_def)
  show ?thesis
  proof (cases rule: pulp_rab_req_user [OF req some, case_names nomem loop])
    case nomem
    then show ?thesis by (simp add: ENOMEM_def)
  next
    case (loop pages k)
    define segs where "segs = sg_spec (map (page_to_phys K) pages) (rq_addr_start req) (rq_addr_end req)"
    define r where "r = req\<lparr>rq_flags_drv := BIT_SET (rq_flags_drv req) RAB_FLAGS_DRV_EVERY, rq_slice := k\<rparr>"
    define t where "t = s\<lparr>kern_log := kern_log s @ [PinPages pages]\<rparr>"
    have len: "length pages = 1" using loop(3) one by simp
    have l1: "length segs = 1" by (simp add: segs_def sg_spec_def sg_starts_def Let_def len)
    have fit: "segs_fit pages segs" using sg_spec_fits [OF refl loop(1,2)] by (simp add: segs_def)
    have step: "req_segment K pages segs (0, r, t) 0 = (0, q, s')"
      using loop(5) l1 by (simp add: segs_def [symmetric] r_def t_def)
    define R where "R = foldl (req_mapping K (Some pages) True) (0, req_of_seg (segs ! 0) r, t) [0 ..< 2]"
    have R: "fst R = 0" "fst (snd R) = q" "s' = snd (snd R) \<or> (\<exists>l. s' = (snd (snd R))\<lparr>kern_log := l\<rparr>)"
      using step
      by (auto simp: req_segment_def R_def [symmetric] RAB_L1_N_MAPPINGS_PORT_1_def case_prod_beta Let_def split: if_splits)
    have u: "user_req r" using req by (simp add: user_req_def user_request_def r_def)
    have "\<not> bit (hw (snd (snd R)) (entry1 (rq_slice q) + 24)) 0
      \<and> e_flags_hw (slices (mappings (snd (snd R)) ! 0) ! rq_slice q) = rq_flags_hw (req_of_seg (segs ! 0) r)
      \<and> mapping_active (snd (snd R)) = 0 \<and> mappings (snd (snd R)) ! 0 = mappings (snd (snd R)) ! 1"
    proof (rule req_pair_disables [of "req_of_seg (segs ! 0) r" t m pages True K])
      show "foldl (req_mapping K (Some pages) True) (0, req_of_seg (segs ! 0) r, t) [0 ..< 2] = (0, q, snd (snd R))"
        using R(1,2) unfolding R_def [symmetric] by (simp add: prod_eq_iff)
      show "pages_fit (req_of_seg (segs ! 0) r) pages" using seg_fits(1) [OF fit] l1 by simp
    qed (use u m s(2) unused in \<open>simp_all add: t_def field_fits_def\<close>)
    moreover have "rq_flags_hw (req_of_seg (segs ! 0) r) = rq_flags_hw req" by (simp add: req_of_seg_def r_def)
    ultimately show ?thesis using R(3) by (auto simp: RAB_SLICE_FLAGS_OFFSET_B_def)
  qed
qed

text \<open>The first request after the initialisation is such a case.\<close>

lemma l3_mapping_simps:
  "slices (l3_mapping q) ! 0 = setup1 q" "0 < k \<Longrightarrow> k < 32 \<Longrightarrow> slices (l3_mapping q) ! k = blank_entry"
  "0 < f \<Longrightarrow> f < 32 \<Longrightarrow> page_ptr_ref_cntrs (l3_mapping q) ! f = 0"
  by (simp_all add: l3_mapping_def blank_mapping_def nth_list_update)

lemma first_req_ok:
  assumes "mappings s = [l3_mapping x, l3_mapping x]" "tables_ok s"
  shows "\<exists>q s'. pulp_rab_req kern_ok s req_ok = Some (0, q, s') \<and> 0 < rq_slice q \<and> rq_slice q < 32"
proof -
  define m where "m = l3_mapping x"
  have m: "mappings s = [m, m]" "m_ok m" "\<not> soc_mh_is_ena s" using assms by (auto simp: tables_ok_def m_def)
  obtain r where r: "pulp_rab_req kern_ok s req_ok = Some r" using req_ok_returns by blast
  show ?thesis
  proof (cases rule: pulp_rab_req_user [OF req_ok_user r, case_names nomem loop])
    case nomem
    then show ?thesis by (simp add: kern_ok_def)
  next
    case (loop pages k)
    define segs where "segs = sg_spec (map (page_to_phys kern_ok) pages) (rq_addr_start req_ok) (rq_addr_end req_ok)"
    define p where "p = req_ok\<lparr>rq_flags_drv := BIT_SET (rq_flags_drv req_ok) RAB_FLAGS_DRV_EVERY, rq_slice := k\<rparr>"
    define t where "t = s\<lparr>kern_log := kern_log s @ [PinPages pages]\<rparr>"
    have len: "length pages = 1" using loop(3) by (simp add: req_ok_def unat_get_num_pages)
    have l1: "length segs = 1" by (simp add: segs_def sg_spec_def sg_starts_def Let_def len)
    have fit: "segs_fit pages segs" using sg_spec_fits [OF refl loop(1,2)] by (simp add: segs_def)
    have step: "r = req_segment kern_ok pages segs (0, p, t) 0"
      using loop(5) l1 by (simp add: segs_def [symmetric] p_def t_def)
    define q where "q = req_of_seg (segs ! 0) p"
    define R where "R = foldl (req_mapping kern_ok (Some pages) True) (0, q, t) [0 ..< 2]"
    have u: "user_req q" by (simp add: user_req_def q_def p_def req_ok_def req_of_seg_def)
    have pf: "pages_fit q pages" using seg_fits(1) [OF fit] l1 by (simp add: q_def)
    have ff: "field_fits True q pages m" by (simp add: field_fits_def)
    have t: "\<not> soc_mh_is_ena t" "mappings t = [m, m]" using m by (simp_all add: t_def)
    have fld: "field_of True q m \<noteq> None"
      using l3_mapping_simps(3) [of 1 x] by (auto simp: field_of_def find_None_iff m_def intro!: exI [of _ "1 :: nat"])
    have av: "List.find (avail q m) [0 ..< 32] \<noteq> None"
      using l3_mapping_simps(2) [of 1 x]
      by (auto simp: find_None_iff m_def avail_def q_def p_def req_of_seg_def req_ok_def blank_entry_def intro!: exI [of _ "1 :: nat"])
    show ?thesis
    proof (cases rule: req_pair_cases [OF u t m(2) pf ff, of kern_ok, folded R_def, case_names err ok])
      case err
      then show ?thesis using fld av by blast
    next
      case (ok f k m' s0)
      have "fst R = 0" "rq_slice (fst (snd R)) = k" by (subst ok(5), simp)+
      then show ?thesis using r step ok(3,4)
        by (auto simp: req_segment_def q_def [symmetric] R_def [symmetric] RAB_L1_N_MAPPINGS_PORT_1_def case_prod_beta Let_def)
    qed
  qed
qed

theorem req_leaves_slice_disabled_witness:
  "\<exists>s q s'. rab_reachable s \<and> pulp_rab_req kern_ok s req_ok = Some (0, q, s') \<and>
    (\<not> bit (hw s' (rab_entry 1 (rq_slice q) + RAB_SLICE_FLAGS_OFFSET_B)) 0
     \<and> e_flags_hw (slices (mappings s' ! 0) ! rq_slice q) = rq_flags_hw req_ok
     \<and> mapping_active s' = 0 \<and> mappings s' ! 0 = mappings s' ! 1)"
proof -
  obtain s x where i: "pulp_rab_init kern_ok req_ok blank_rab = Some (0, s)" and s: "tables_ok s" "mapping_active s = 0"
    "mappings s = [l3_mapping x, l3_mapping x]" by (rule pulp_rab_init_ok)
  have re: "rab_reachable s" using i by (rule rab_reachable.init)
  obtain q s' where r: "pulp_rab_req kern_ok s req_ok = Some (0, q, s')" "0 < rq_slice q" "rq_slice q < 32"
    using first_req_ok [OF s(3,1)] by blast
  have one: "unat (pulp_mem_get_num_pages (rq_addr_start req_ok) (rq_addr_end req_ok - rq_addr_start req_ok)) = 1"
    by (simp add: req_ok_def unat_get_num_pages)
  have un: "e_page_ptr_idx (slices (mappings s ! 0) ! rq_slice q) = 0"
    using l3_mapping_simps(2) [OF r(2,3), of x] s(3) by (simp add: blank_entry_def)
  show ?thesis
    by (intro exI [of _ s] exI [of _ q] exI [of _ s'] conjI) (rule re r(1) | use
        req_leaves_slice_disabled [OF re s(2) req_ok_user one r(1) un] in blast)+
qed

subsection \<open>Miss handler on the SoC\<close>

definition PGD_BASE_ADDR :: u32 where [hw_consts]: "PGD_BASE_ADDR = 0x20000000"

text \<open>\<open>pgd_size\<close> is the size of the top level of the page table, \<open>PTRS_PER_PGD * sizeof(pgd_t)\<close>. The result of
  \<open>pulp_rab_page_ptrs_get_field\<close> is ignored.\<close>

definition soc_mh_ena_static_1st_level :: "kern \<Rightarrow> u32 \<Rightarrow> u64 \<Rightarrow> rab \<Rightarrow> RabSliceReq \<Rightarrow> int \<times> rab" where
  "soc_mh_ena_static_1st_level K pgd_size pgd_pa s req =
     (let req = snd (pulp_rab_page_ptrs_get_field s req);
          req = req\<lparr>rq_addr_start := PGD_BASE_ADDR, rq_addr_end := PGD_BASE_ADDR + (pgd_size - 1), rq_addr_offset := pgd_pa\<rparr>;
          (ret, req) = pulp_rab_slice_get s req
      in if ret \<noteq> 0 then (ret, s) else pulp_rab_slice_setup (pulp_rab_slice_free K s req) req None)"

definition static_2nd_lvl_slices_are_supported :: bool where "static_2nd_lvl_slices_are_supported = False"

definition ready_step :: "kern \<Rightarrow> RabSliceReq \<Rightarrow> bool \<times> rab \<Rightarrow> nat \<Rightarrow> bool \<times> rab" where
  "ready_step K req r i =
     (let (ok, s) = r; req = req\<lparr>rq_slice := i\<rparr>
      in if \<not> ok then r
         else if pulp_rab_slice_check s req then (True, pulp_rab_slice_free K s req) else (False, s))"

definition rab_is_ready_for_soc_mh :: "kern \<Rightarrow> RabSliceReq \<Rightarrow> rab \<Rightarrow> bool \<times> rab" where
  "rab_is_ready_for_soc_mh K junk s =
     foldl (ready_step K (junk\<lparr>rq_date_cur := RAB_MAX_DATE_MH, rq_mapping := 0, rq_port := 1\<rparr>)) (True, s)
       [n_slices_reserved s ..< RAB_L1_N_SLICES_PORT_1]"

definition pulp_rab_mh_dis :: "rab \<Rightarrow> rab" where
  "pulp_rab_mh_dis s = s\<lparr>mh_on := False, mh_date := 0, mh_wq := False\<rparr>"

definition soc_mh_req :: "RabSliceReq \<Rightarrow> RabSliceReq" where
  "soc_mh_req junk =
     junk\<lparr>rq_date_cur := RAB_MAX_DATE, rq_date_exp := RAB_MAX_DATE, rq_page_idx_start := 0, rq_page_idx_end := 0, rq_port := 1,
          rq_mapping := 0, rq_flags_drv := BIT_SET 0 RAB_FLAGS_DRV_CONST,
          rq_flags_hw := BIT_SET 0 (RAB_FLAGS_HW_CC OR RAB_FLAGS_HW_READ OR RAB_FLAGS_HW_EN)\<rparr>"

text \<open>On platforms without static slices for the second level the argument that asks for them is dropped.\<close>

definition pulp_rab_soc_mh_ena :: "kern \<Rightarrow> RabSliceReq \<Rightarrow> RabSliceReq \<Rightarrow> u32 \<Rightarrow> u64 \<Rightarrow> rab \<Rightarrow> int \<times> rab" where
  "pulp_rab_soc_mh_ena K junk junk2 pgd_size pgd_pa s =
     (if soc_mh_is_ena s then (- EALREADY, s)
      else
        let s = s\<lparr>n_slices_reserved := 2\<rparr>;
            (ready, s) = rab_is_ready_for_soc_mh K junk2 s
        in if \<not> ready then (- EBUSY, s)
           else
             let (ret, s) = soc_mh_ena_static_1st_level K pgd_size pgd_pa (s\<lparr>soc_mh_is_ena := True\<rparr>) (soc_mh_req junk)
             in if ret \<noteq> 0 then (ret, s\<lparr>soc_mh_is_ena := False\<rparr>)
                else (0, pulp_rab_mh_dis s))"

subsection \<open>Miss handling by the host\<close>

definition pulp_rab_mh_ena :: "bool \<Rightarrow> bool \<Rightarrow> u32 \<Rightarrow> rab \<Rightarrow> int \<times> rab" where
  "pulp_rab_mh_ena wq_ok acp lvl s =
     (let s = (if mh_wq s then pulp_rab_mh_dis s else s);
          s = s\<lparr>mh_acp := acp, mh_lvl := lvl\<rparr>
      in if \<not> wq_ok then (- ENOMEM, s\<lparr>mh_wq := False\<rparr>)
         else (0, s\<lparr>mh_wq := True, mh_on := True, mh_date := 1\<rparr>))"

definition AXI_ID_WIDTH_CORE :: nat where [hw_consts]: "AXI_ID_WIDTH_CORE = 4"
definition AXI_ID_WIDTH_CLUSTER :: nat where [hw_consts]: "AXI_ID_WIDTH_CLUSTER = 2"
definition AXI_ID_WIDTH_SOC :: nat where [hw_consts]: "AXI_ID_WIDTH_SOC = 1"
definition AXI_ID_WIDTH :: nat where [hw_consts]: "AXI_ID_WIDTH = AXI_ID_WIDTH_CORE + AXI_ID_WIDTH_CLUSTER + AXI_ID_WIDTH_SOC"
definition AXI_USER_WIDTH :: nat where [hw_consts]: "AXI_USER_WIDTH = 6"
definition N_CLUSTERS :: u64 where [hw_consts]: "N_CLUSTERS = 1"
definition N_CORES :: u64 where [hw_consts]: "N_CORES = 8"
definition RAB_MH_FIFO_DEPTH :: nat where [hw_consts]: "RAB_MH_FIFO_DEPTH = 64"

text \<open>\<open>gup start write\<close> is the answer of \<open>get_user_pages_remote\<close> for one page.\<close>

record mh_kern =
  mh_kmalloc :: bool
  gup_remote :: "u64 \<Rightarrow> bool \<Rightarrow> int \<times> page"

definition miss_gup :: "mh_kern \<Rightarrow> u64 \<Rightarrow> int \<times> page \<times> bool" where
  "miss_gup G start =
     (let (result, p) = gup_remote G start True
      in if result = - EFAULT then let (result, p) = gup_remote G start False in (result, p, False)
         else (result, p, True))"

definition miss_req :: "RabSliceReq \<Rightarrow> rab \<Rightarrow> u64 \<Rightarrow> u64 \<Rightarrow> bool \<Rightarrow> RabSliceReq" where
  "miss_req junk s start addr_phys write =
     junk\<lparr>rq_port := 1, rq_date_cur := ucast (mh_date s), rq_date_exp := ucast (mh_date s), rq_page_idx_start := 0,
          rq_page_idx_end := 0, rq_mapping := pulp_rab_mapping_get_active s, rq_flags_drv := 0,
          rq_addr_start := ucast start, rq_addr_end := ucast start + PAGE_SIZE, rq_addr_offset := addr_phys,
          rq_flags_hw :=
            (let f = BIT_SET 0 (RAB_FLAGS_HW_READ OR RAB_FLAGS_HW_EN);
                 f = (if write then BIT_SET f RAB_FLAGS_HW_WRITE else f)
             in if mh_acp s then BIT_SET f RAB_FLAGS_HW_CC else f)\<rparr>"

text \<open>The first miss to a page. The slice that was found is used even if there was none (\<open>use_l1 = 1\<close> is forced): then
  the request names the last slice, or, with \<open>rab_mh_lvl = 2\<close>, whatever was on the stack.\<close>

definition miss_first :: "kern \<Rightarrow> mh_kern \<Rightarrow> RabSliceReq \<Rightarrow> rab \<Rightarrow> u32 \<Rightarrow> bool \<times> rab" where
  "miss_first K G junk s addr_start =
     (if \<not> mh_kmalloc G then (False, s)
      else
        let start = ucast addr_start AND BF_MASK_GEN PAGE_SHIFT (64 - PAGE_SHIFT);
            (result, page, write) = miss_gup G start
        in if result \<noteq> 1 then (False, s)
           else
             let s = s\<lparr>kern_log := kern_log s @ [PinPages [page]]\<rparr>;
                 req = miss_req junk s start (page_to_phys K page) write;
                 (err, req) = (if mh_lvl s = 2 then (0, req) else pulp_rab_slice_get s req)
             in if err \<noteq> 0 \<and> mh_lvl s = 1 then (False, s)
                else
                  let s = pulp_rab_slice_free K s req;
                      (err, req) = pulp_rab_page_ptrs_get_field s req
                  in if err \<noteq> 0 then (False, s)
                     else
                       let (err, s) = pulp_rab_slice_setup s req (Some [page])
                       in if err \<noteq> 0 then (False, s)
                          else
                            let s = (if \<not> mh_acp s then s\<lparr>kern_log := kern_log s @ [CacheFlush page 0 PAGE_SIZE]\<rparr> else s);
                                s = (if mh_lvl s = 1 \<and> rq_slice req = RAB_L1_N_SLICES_PORT_1 - 1
                                     then let d = mh_date s + 1 in s\<lparr>mh_date := (if d > ucast RAB_MAX_DATE_MH then 0 else d)\<rparr>
                                     else s)
                            in (True, s))"

definition miss_step :: "kern \<Rightarrow> mh_kern \<Rightarrow> RabSliceReq \<Rightarrow> u32 list \<times> rab \<Rightarrow> u32 \<times> u32 \<Rightarrow> u32 list \<times> rab" where
  "miss_step K G junk r miss =
     (let (addrs, s) = r; (meta, addr_start) = miss;
          id_pe = BF_GET (ucast meta) 0 AXI_ID_WIDTH_CORE;
          id_cluster = BF_GET (ucast meta) (AXI_ID_WIDTH_CLUSTER + AXI_ID_WIDTH_CORE) AXI_ID_WIDTH_SOC;
          axuser = BF_GET (ucast meta) (AXI_ID_WIDTH + 1) AXI_USER_WIDTH
      in (addrs @ [addr_start],
          if BF_GET (ucast meta) AXI_ID_WIDTH 1 = 0 then s
          else if BF_GET (ucast meta) AXI_ID_WIDTH_CORE AXI_ID_WIDTH_CLUSTER \<noteq> 2
                  \<or> id_cluster > N_CLUSTERS - 1 \<or> id_pe > N_CORES - 1 then s
          else
            let handled = list_ex (\<lambda>a. page_addr a = page_addr addr_start) addrs;
                (ok, s) = (if handled then (True, s) else miss_first K G junk s addr_start)
            in if ok \<and> axuser = 0
               then s\<lparr>kern_log := kern_log s @ [Wakeup (unat id_cluster) (ucast (BIT_N_SET (unat id_pe)))]\<rparr> else s))"

text \<open>\<open>fifo\<close> holds the misses that are queued in the hardware; reading the empty queue ends the routine.\<close>

definition pulp_rab_handle_miss :: "kern \<Rightarrow> mh_kern \<Rightarrow> RabSliceReq \<Rightarrow> (u32 \<times> u32) list \<Rightarrow> rab \<Rightarrow> (u32 \<times> u32) list \<times> rab" where
  "pulp_rab_handle_miss K G junk fifo s =
     (drop RAB_MH_FIFO_DEPTH fifo, snd (foldl (miss_step K G junk) ([], s) (take RAB_MH_FIFO_DEPTH fifo)))"

definition pulp_rab_mh_sched :: "rab \<Rightarrow> bool" where "pulp_rab_mh_sched s = mh_on s"

subsection \<open>Serving a miss\<close>

text \<open>There is always a free field for the slice that was just freed: there are as many fields as slices, and
  slice 0 and the freed one share field 0.\<close>

lemma free_field_exists:
  assumes m: "m_ok m" and k: "k < 32" "k \<noteq> 0" "e_page_ptr_idx (slices m ! k) = 0"
  shows "\<exists>f. List.find (\<lambda>i. page_ptr_ref_cntrs m ! i = 0) [0 ..< 32] = Some f \<and> 0 < f \<and> f < 32 \<and> cnt m f = 0"
proof -
  have "\<exists>f. 0 < f \<and> f < 32 \<and> cnt m f = 0"
  proof (rule ccontr)
    assume none: "\<not> ?thesis"
    define g where "g = (\<lambda>i. e_page_ptr_idx (slices m ! i))"
    have "{1 ..< 32} \<subseteq> g ` ({1 ..< 32} - {k})"
    proof
      fix f :: nat assume f: "f \<in> {1 ..< 32}"
      then have "cnt m f \<noteq> 0" using none by auto
      then have "f \<in> set (idxs m)" using count_list_0_iff [of "idxs m" f] by (auto simp: cnt_def)
      then obtain i where i: "i < 32" "g i = f" using m_okD(1) [OF m] by (auto simp: idxs_def g_def in_set_conv_nth)
      then have "i \<noteq> 0" "i \<noteq> k" using f m_okD(8) [OF m] k(3) by (auto simp: g_def intro: gr0I)
      then show "f \<in> g ` ({1 ..< 32} - {k})" using i by auto
    qed
    then have "card {1 ..< 32 :: nat} \<le> card (g ` ({1 ..< 32} - {k}))" by (intro card_mono) auto
    also have "\<dots> \<le> card ({1 ..< 32} - {k})" by (intro card_image_le) simp
    finally show False using k by simp
  qed
  then obtain f where f: "0 < f" "f < 32" "cnt m f = 0" by blast
  then have "page_ptr_ref_cntrs m ! f = 0" using m_okD(9) [OF m f(1,2)] by simp
  then have "List.find (\<lambda>i. page_ptr_ref_cntrs m ! i = 0) [0 ..< 32] \<noteq> None" using f(2) by (auto simp: find_None_iff)
  then obtain f' where "List.find (\<lambda>i. page_ptr_ref_cntrs m ! i = 0) [0 ..< 32] = Some f'" by auto
  then show ?thesis using find_field [OF m] by blast
qed

text \<open>Re-configuring slice \<open>k\<close> of the active mapping for a page.\<close>

lemma miss_setup:
  assumes m: "mappings s ! j = m" "j < length (mappings s)" "m_ok m" "mapping_active s = j" "\<not> soc_mh_is_ena s"
    and k: "0 < k" "k < 32" and r: "rq_port r = 1" "rq_mapping r = j" "rq_slice r = k" "rq_flags_drv r = 0"
  obtains f s' m' where "pulp_rab_page_ptrs_get_field (pulp_rab_slice_free K s r) r = (0, r\<lparr>rq_page_ptr_idx := f\<rparr>)"
      "pulp_rab_slice_setup (pulp_rab_slice_free K s r) (r\<lparr>rq_page_ptr_idx := f\<rparr>) (Some [p]) = (0, s')"
      "mappings s' = (mappings s)[j := m']" "slices m' = (slices m)[k := setup1 (r\<lparr>rq_page_ptr_idx := f\<rparr>)]"
      "page_ptrs m' ! f = Some [p]"
      "shows1 (hw s') k (setup1 (r\<lparr>rq_page_ptr_idx := f\<rparr>))" "mapping_active s' = j"
      "mh_acp s' = mh_acp s" "mh_lvl s' = mh_lvl s" "mh_date s' = mh_date s"
      "\<exists>l. kern_log s' = kern_log s @ l"
proof -
  define m0 where "m0 = free_entry 0 k m"
  have m0: "m_ok m0" using free_entry_ok [OF m(3) k(2) _, of 0] k by (simp add: m0_def)
  have sl0: "slices m0 = (slices m)[k := clear1 (slices m ! k)]" by (simp add: m0_def)
  have z: "e_page_ptr_idx (slices m0 ! k) = 0" using sl0 m_okD(1) [OF m(3)] k by simp
  obtain f where f: "List.find (\<lambda>i. page_ptr_ref_cntrs m0 ! i = 0) [0 ..< 32] = Some f" "f < 32" "cnt m0 f = 0" "0 < f"
    using free_field_exists [OF m0 k(2) _ z] k by auto
  define s1 where "s1 = pulp_rab_slice_free K s r"
  define q where "q = r\<lparr>rq_page_ptr_idx := f\<rparr>"
  have q: "rq_port q = 1" "rq_mapping q = j" "rq_slice q = k" "rq_flags_drv q = 0" "rq_page_ptr_idx q = f" using r by (simp_all add: q_def)
  have s1: "mappings s1 = (mappings s)[j := m0]" "mapping_active s1 = j" "mh_acp s1 = mh_acp s" "mh_lvl s1 = mh_lvl s"
    "mh_date s1 = mh_date s" "\<exists>l. kern_log s1 = kern_log s @ l"
    using r m by (auto simp: s1_def pulp_rab_slice_free_def Let_def pulp_rab_slice_is_managed_by_host_def m0_def)
  have fld: "pulp_rab_page_ptrs_get_field s1 r = (0, q)"
    using f(1) r m(2) s1(1) by (simp add: pulp_rab_page_ptrs_get_field_def RAB_L1_N_SLICES_PORT_1_def q_def)
  define m' where "m' = setup_mapping q (Some [p]) k m0"
  have nb: "\<not> setup_field_busy q x" if "page_ptr_ref_cntrs x = page_ptr_ref_cntrs m0" for x
    using f m_okD(9) [OF m0 f(4,2)] q that by (simp add: setup_field_busy_def)
  have st: "pulp_rab_slice_setup s1 q (Some [p]) =
      (0, write_slice (entry1 k) (rq_addr_start q) (rq_addr_end q) (rq_addr_offset q) (rq_flags_hw q)
            (s1\<lparr>mappings := (mappings s)[j := m']\<rparr>))"
    using q s1(1,2) m(2) nb by (simp add: pulp_rab_slice_setup_def Let_def upd_mapping_def m'_def setup_mapping_def)
  have "slices m' = (slices m)[k := setup1 q]"
    by (simp add: m'_def setup_mapping_def setup_refs_def Let_def sl0)
  moreover have "page_ptrs m' ! f = Some [p]"
    using m_okD(2) [OF m0] f(2) q by (simp add: m'_def setup_mapping_def setup_refs_def Let_def)
  moreover have "shows1 (hw (write_slice (entry1 k) (rq_addr_start q) (rq_addr_end q) (rq_addr_offset q) (rq_flags_hw q)
            (s1\<lparr>mappings := (mappings s)[j := m']\<rparr>))) k (setup1 q)"
    by (simp add: write_slice_shows setup1_def)
  ultimately show thesis
    using that [of f _ m'] fld st s1 by (simp add: q_def [symmetric] s1_def [symmetric])
qed

definition miss_page :: "u32 \<Rightarrow> u64" where
  "miss_page addr = ucast addr AND BF_MASK_GEN PAGE_SHIFT (64 - PAGE_SHIFT)"

lemma ucast_miss_page: "ucast (miss_page addr) = page_addr addr"
  unfolding miss_page_def page_addr_def PAGE_MASK_mask BF_MASK_GEN_def BIT_MASK_GEN_mask PAGE_SHIFT_def
  by (rule bit_word_eqI) (auto simp: bit_simps)

lemma miss_req_log [simp]: "miss_req junk (s\<lparr>kern_log := l\<rparr>) a b w = miss_req junk s a b w"
  by (simp add: miss_req_def pulp_rab_mapping_get_active_def)

lemma slice_get_log [simp]: "pulp_rab_slice_get (s\<lparr>kern_log := l\<rparr>) r = pulp_rab_slice_get s r"
  by (simp add: pulp_rab_slice_get_def pulp_rab_slice_check_def pulp_rab_slice_is_managed_by_host_def)

lemma miss_first_result:
  assumes s: "tables_ok s" "mapping_active s = j" "mappings s ! j = m"
    and g: "mh_kmalloc G" "miss_gup G (miss_page addr) = (1, p, write)"
    and lvl: "mh_lvl s \<noteq> 2"
    and get: "pulp_rab_slice_get s (miss_req junk s (miss_page addr) (page_to_phys K p) write) = (err, r)"
      "err = 0 \<or> mh_lvl s \<noteq> 1" "0 < rq_slice r" "rq_slice r < 32"
  shows "\<exists>s'. miss_first K G junk s addr = (True, s') \<and> mapping_active s' = j
    \<and> (let e = slices (mappings s' ! j) ! rq_slice r
       in e_addr_start e = page_addr addr \<and> e_addr_end e = page_addr addr + 4096 \<and> e_addr_offset e = page_to_phys K p
          \<and> bit (e_flags_hw e) 0 \<and> bit (e_flags_hw e) 1 \<and> bit (e_flags_hw e) 2 = write
          \<and> page_ptrs (mappings s' ! j) ! e_page_ptr_idx e = Some [p] \<and> shows1 (hw s') (rq_slice r) e)
    \<and> (\<forall>k < 32. k \<noteq> rq_slice r \<longrightarrow> slices (mappings s' ! j) ! k = slices m ! k)"
proof -
  have m: "m_ok m" "j < length (mappings s)" "\<not> soc_mh_is_ena s"
    using s by (auto simp: tables_ok_def less_2_cases_iff)
  define t where "t = s\<lparr>kern_log := kern_log s @ [PinPages [p]]\<rparr>"
  define req where "req = miss_req junk s (miss_page addr) (page_to_phys K p) write"
  have req: "rq_port req = 1" "rq_mapping req = j" "rq_flags_drv req = 0" "rq_addr_start req = page_addr addr"
    "rq_addr_end req = page_addr addr + 4096" "rq_addr_offset req = page_to_phys K p"
    using s(2) by (simp_all add: req_def miss_req_def pulp_rab_mapping_get_active_def ucast_miss_page)
  have flg: "bit (rq_flags_hw req) 0" "bit (rq_flags_hw req) 1" "bit (rq_flags_hw req) 2 = write"
    by (simp_all add: req_def miss_req_def Let_def bit_or_iff RAB_FLAGS_HW_READ_def RAB_FLAGS_HW_EN_def RAB_FLAGS_HW_WRITE_def
        RAB_FLAGS_HW_CC_def)
  have rr: "r = req\<lparr>rq_slice := rq_slice r\<rparr>"
    using get(1) unfolding req_def [symmetric]
    by (auto simp: pulp_rab_slice_get_def Let_def split: option.splits)
  have r: "rq_port r = 1" "rq_mapping r = j" "rq_slice r = rq_slice r" "rq_flags_drv r = 0"
    using req by (subst rr, simp)+
  have t: "mappings t ! j = m" "j < length (mappings t)" "mapping_active t = j" "\<not> soc_mh_is_ena t" "mh_lvl t = mh_lvl s"
    using s m by (simp_all add: t_def)
  obtain f s1 m' where c: "pulp_rab_page_ptrs_get_field (pulp_rab_slice_free K t r) r = (0, r\<lparr>rq_page_ptr_idx := f\<rparr>)"
      "pulp_rab_slice_setup (pulp_rab_slice_free K t r) (r\<lparr>rq_page_ptr_idx := f\<rparr>) (Some [p]) = (0, s1)"
      "mappings s1 = (mappings t)[j := m']" "slices m' = (slices m)[rq_slice r := setup1 (r\<lparr>rq_page_ptr_idx := f\<rparr>)]"
      "page_ptrs m' ! f = Some [p]" "shows1 (hw s1) (rq_slice r) (setup1 (r\<lparr>rq_page_ptr_idx := f\<rparr>))" "mapping_active s1 = j"
    by (rule miss_setup [OF t(1,2) m(1) t(3,4) get(3,4) r, of K p])
  have ne: "slices m' ! rq_slice r = setup1 (r\<lparr>rq_page_ptr_idx := f\<rparr>)" using c(4) m_okD(1) [OF m(1)] get(4) by simp
  define fin where "fin = (\<lambda>s :: rab.
     let s = (if \<not> mh_acp s then s\<lparr>kern_log := kern_log s @ [CacheFlush p 0 PAGE_SIZE]\<rparr> else s)
     in if mh_lvl s = 1 \<and> rq_slice r = RAB_L1_N_SLICES_PORT_1 - 1
        then let d = mh_date s + 1 in s\<lparr>mh_date := (if d > ucast RAB_MAX_DATE_MH then 0 else d)\<rparr> else s)"
  have fin: "mappings (fin x) = mappings x" "hw (fin x) = hw x" "mapping_active (fin x) = mapping_active x" for x
    by (simp_all add: fin_def Let_def)
  have res: "miss_first K G junk s addr = (True, fin s1)"
    using g lvl get(1,2) c(1,2)
    by (simp add: miss_first_def miss_page_def [symmetric] t_def fin_def Let_def)
  have rs: "rq_addr_start r = page_addr addr" "rq_addr_end r = page_addr addr + 4096" "rq_addr_offset r = page_to_phys K p"
    "rq_flags_hw r = rq_flags_hw req"
    using req by (subst rr, simp)+
  have "mappings (fin s1) ! j = m'" using c(3) t(2) by (simp add: fin)
  then show ?thesis
    using res c(4-7) ne rs flg by (simp add: fin setup1_def Let_def)
qed

text \<open>The entry of slice \<open>k\<close> in the active mapping translates the page of \<open>addr\<close> to \<open>p\<close>, and the registers show it.\<close>

definition serves :: "kern \<Rightarrow> rab \<Rightarrow> nat \<Rightarrow> u32 \<Rightarrow> page \<Rightarrow> bool \<Rightarrow> bool" where
  "serves K s k addr p write \<longleftrightarrow>
     (let e = slices (mappings s ! mapping_active s) ! k
      in e_addr_start e = page_addr addr \<and> e_addr_end e = page_addr addr + 4096 \<and> e_addr_offset e = page_to_phys K p
         \<and> bit (e_flags_hw e) 0 \<and> bit (e_flags_hw e) 1 \<and> bit (e_flags_hw e) 2 = write
         \<and> page_ptrs (mappings s ! mapping_active s) ! e_page_ptr_idx e = Some [p] \<and> shows1 (hw s) k e)"

lemma miss_get_slice:
  assumes "tables_ok s" "mapping_active s = j"
    and "pulp_rab_slice_get s (miss_req junk s a b w) = (err, r)"
  shows "(err = 0 \<and> 0 < rq_slice r \<and> rq_slice r < 32 \<and> avail r (mappings s ! j) (rq_slice r))
       \<or> (err = 1 \<and> rq_slice r = 31 \<and> (\<forall>k < 32. \<not> avail r (mappings s ! j) k))"
proof -
  have m: "m_ok (mappings s ! j)" "\<not> soc_mh_is_ena s" using assms(1,2) by (auto simp: tables_ok_def less_2_cases_iff)
  define q where "q = miss_req junk s a b w"
  have q: "rq_port q = 1" "rq_mapping q = j" "rq_flags_drv q = 0"
    using assms(2) by (simp_all add: q_def miss_req_def pulp_rab_mapping_get_active_def)
  note g = slice_get_avail [OF q(1) m(2), unfolded q(2)]
  show ?thesis
  proof (cases "List.find (avail q (mappings s ! j)) [0 ..< 32]")
    case None
    have "\<forall>k < 32. \<not> avail q (mappings s ! j) k" using None by (simp add: find_None_iff)
    moreover have "err = 1" "r = q\<lparr>rq_slice := 31\<rparr>" using g None assms(3) by (simp_all add: q_def [symmetric])
    ultimately show ?thesis by simp
  next
    case (Some k)
    then have k: "k < 32" "avail q (mappings s ! j) k" using find_upt by auto
    moreover have "k \<noteq> 0" using avail_not_0 [OF m(1) _ k(2)] q(3) by simp
    moreover have "err = 0" "r = q\<lparr>rq_slice := k\<rparr>" using g Some assms(3) by (simp_all add: q_def [symmetric])
    ultimately show ?thesis by simp
  qed
qed


text \<open>If no slice is available, the host's miss handler (unless restricted to the first level) takes the last slice of the active
  mapping all the same: a live mapping is overwritten before it has expired, even one that is fixed.\<close>

theorem handle_miss_evicts_live_slice:
  assumes s: "tables_ok s" "mh_lvl s = 0"
    and g: "mh_kmalloc G" "miss_gup G (miss_page addr) = (1, p, write)"
    and slot: "pulp_rab_slice_get s (miss_req junk s (miss_page addr) (page_to_phys K p) write) = (1, r)"
  shows "\<exists>s'. miss_first K G junk s addr = (True, s') \<and> serves K s' 31 addr p write
    \<and> \<not> avail r (mappings s ! mapping_active s) 31"
proof -
  have k: "rq_slice r = 31" "\<not> avail r (mappings s ! mapping_active s) 31"
    using miss_get_slice [OF s(1) refl slot] by auto
  then show ?thesis using miss_first_result [OF s(1) refl refl g _ slot] s(2) by (auto simp: serves_def)
qed

subsection \<open>A concrete state\<close>

definition mh_rab :: "u32 \<Rightarrow> rab" where
  "mh_rab date = blank_rab\<lparr>mappings := (let m = l3_mapping (req_ok\<lparr>rq_flags_drv := 13, rq_date_exp := 255\<rparr>) in [m, m]),
     mh_on := True, mh_date := date\<rparr>"

definition mh_ok :: mh_kern where "mh_ok = \<lparr>mh_kmalloc = True, gup_remote = (\<lambda>a w. (1, a))\<rparr>"

lemma mh_rab_ok: "tables_ok (mh_rab date)"
  using l3_mapping_ok [of "req_ok\<lparr>rq_flags_drv := 13, rq_date_exp := 255\<rparr>"]
  by (simp add: tables_ok_def mh_rab_def blank_rab_def req_ok_def Let_def)

lemma mh_rab_simps:
  "mapping_active (mh_rab date) = 0" "mh_lvl (mh_rab date) = 0" "mh_date (mh_rab date) = date" "mh_acp (mh_rab date) = False"
  "soc_mh_is_ena (mh_rab date) = False"
  "mappings (mh_rab date) ! 0 = l3_mapping (req_ok\<lparr>rq_flags_drv := 13, rq_date_exp := 255\<rparr>)"
  by (simp_all add: mh_rab_def blank_rab_def Let_def)

lemma mh_ok_gup: "miss_gup mh_ok a = (1, a, True)"
  by (simp add: miss_gup_def mh_ok_def EFAULT_def)

lemma mh_rab_get:
  "pulp_rab_slice_get (mh_rab 1) (miss_req req_ok (mh_rab 1) a b w) = (0, (miss_req req_ok (mh_rab 1) a b w)\<lparr>rq_slice := 1\<rparr>)"
proof -
  define q where "q = miss_req req_ok (mh_rab 1) a b w"
  define m where "m = l3_mapping (req_ok\<lparr>rq_flags_drv := 13, rq_date_exp := 255\<rparr>)"
  have q: "rq_port q = 1" "rq_mapping q = 0" "rq_flags_drv q = 0" "rq_date_cur q = 1"
    by (simp_all add: q_def miss_req_def pulp_rab_mapping_get_active_def mh_rab_simps)
  have "\<not> avail q m 0" "avail q m 1"
    using l3_mapping_simps(1) [of "req_ok\<lparr>rq_flags_drv := 13, rq_date_exp := 255\<rparr>"]
      l3_mapping_simps(2) [of 1 "req_ok\<lparr>rq_flags_drv := 13, rq_date_exp := 255\<rparr>"] q
    by (simp_all add: avail_def m_def setup1_def blank_entry_def)
  then have "List.find (avail q m) [0 ..< 32] = Some 1" by (auto simp: find_Some_iff less_Suc_eq intro!: exI [of _ "1 :: nat"])
  then show ?thesis using slice_get_avail [OF q(1), of "mh_rab 1"] q(2) by (simp add: q_def [symmetric] mh_rab_simps m_def)
qed

lemma mh_rab_none:
  "\<exists>r. pulp_rab_slice_get (mh_rab 0) (miss_req req_ok (mh_rab 0) a b w) = (1, r)"
proof -
  define q where "q = miss_req req_ok (mh_rab 0) a b w"
  define x where "x = req_ok\<lparr>rq_flags_drv := 13, rq_date_exp := 255\<rparr>"
  have q: "rq_port q = 1" "rq_mapping q = 0" "rq_flags_drv q = 0" "rq_date_cur q = 0"
    by (simp_all add: q_def miss_req_def pulp_rab_mapping_get_active_def mh_rab_simps)
  have "\<not> avail q (l3_mapping x) k" if "k < 32" for k
    using l3_mapping_simps(1) [of x] l3_mapping_simps(2) [OF _ that, of x] q
    by (cases "k = 0") (simp_all add: avail_def setup1_def blank_entry_def x_def)
  then have "List.find (avail q (l3_mapping x)) [0 ..< 32] = None" by (simp add: find_None_iff)
  then show ?thesis using slice_get_avail [OF q(1), of "mh_rab 0"] q(2) by (simp add: q_def [symmetric] mh_rab_simps x_def)
qed


theorem handle_miss_evicts_live_slice_witness:
  "\<exists>s'. miss_first kern_ok mh_ok req_ok (mh_rab 0) 0x1234 = (True, s') \<and> serves kern_ok s' 31 0x1234 (miss_page 0x1234) True"
proof -
  obtain r where r: "pulp_rab_slice_get (mh_rab 0)
      (miss_req req_ok (mh_rab 0) (miss_page 0x1234) (page_to_phys kern_ok (miss_page 0x1234)) True) = (1, r)"
    using mh_rab_none by blast
  show ?thesis using handle_miss_evicts_live_slice [OF mh_rab_ok _ _ mh_ok_gup r] by (auto simp: mh_rab_simps mh_ok_def)
qed

subsection \<open>Handing over to the SoC and back\<close>

lemma soc_dis_flags [simp]: "bit (BIT_SET 0 RAB_FLAGS_DRV_CONST) 0"
  by simp

lemma soc_mh_dis_loop:
  fixes K :: kern and junk :: RabSliceReq
  assumes s: "mapping_active s = 0" "mappings s \<noteq> []" "length (slices (mappings s ! 0)) = 32" and n: "n \<le> n_slices_reserved s" "n \<le> 32"
  defines "t \<equiv> foldl (soc_mh_dis_step K junk) s [1 ..< n]"
  shows "mapping_active t = 0 \<and> soc_mh_is_ena t = soc_mh_is_ena s \<and> n_slices_reserved t = n_slices_reserved s
    \<and> length (mappings t) = length (mappings s) \<and> length (slices (mappings t ! 0)) = 32
    \<and> (\<forall>k < 32. slices (mappings t ! 0) ! k = (if 0 < k \<and> k < n then clear1 (slices (mappings s ! 0) ! k) else slices (mappings s ! 0) ! k)
         \<and> hw t (entry1 k + 24) = (if 0 < k \<and> k < n then 0 else hw s (entry1 k + 24)))"
  using n unfolding t_def
proof (induction n)
  case 0
  then show ?case using s by simp
next
  case (Suc n)
  show ?case
  proof (cases "n = 0")
    case True
    then show ?thesis using s by simp
  next
    case False
    define u where "u = foldl (soc_mh_dis_step K junk) s [1 ..< n]"
    have u: "mapping_active u = 0" "soc_mh_is_ena u = soc_mh_is_ena s" "n_slices_reserved u = n_slices_reserved s"
      "length (mappings u) = length (mappings s)" "length (slices (mappings u ! 0)) = 32"
      "\<And>k. k < 32 \<Longrightarrow> slices (mappings u ! 0) ! k = (if 0 < k \<and> k < n then clear1 (slices (mappings s ! 0) ! k) else slices (mappings s ! 0) ! k)"
      "\<And>k. k < 32 \<Longrightarrow> hw u (entry1 k + 24) = (if 0 < k \<and> k < n then 0 else hw s (entry1 k + 24))"
      using Suc unfolding u_def by auto
    have st: "foldl (soc_mh_dis_step K junk) s [1 ..< Suc n] = soc_mh_dis_step K junk u n"
      using False by (simp add: u_def)
    define v where "v = soc_mh_dis_step K junk u n"
    have v: "mapping_active v = 0" "soc_mh_is_ena v = soc_mh_is_ena s" "n_slices_reserved v = n_slices_reserved s"
      "mappings v = (mappings u)[0 := free_entry (BIT_SET 0 RAB_FLAGS_DRV_CONST) n (mappings u ! 0)]"
      "hw v = (hw u)(entry1 n + 24 := 0)"
      using u(1-3) Suc.prems
      by (auto simp: v_def soc_mh_dis_step_def pulp_rab_slice_free_def Let_def pulp_rab_slice_is_managed_by_host_def
          free_clears_hw_def rab_offsets)
    have m0: "mappings v ! 0 = free_entry (BIT_SET 0 RAB_FLAGS_DRV_CONST) n (mappings u ! 0)"
      using v(4) u(4) s(2) by (cases "mappings u") auto
    have "slices (mappings v ! 0) ! k = (if 0 < k \<and> k < Suc n then clear1 (slices (mappings s ! 0) ! k) else slices (mappings s ! 0) ! k)
         \<and> hw v (entry1 k + 24) = (if 0 < k \<and> k < Suc n then 0 else hw s (entry1 k + 24))" if "k < 32" for k
      using u(5) u(6,7) [OF that] u(6) [of n] m0 v(5) False Suc.prems by (cases "k = n") auto
    then show ?thesis unfolding st v_def [symmetric] using v u(4,5) m0 by simp
  qed
qed

text \<open>Disabling the miss handler on the SoC gives all slices back to the host, and every slice but the first that was reserved
  for the page table is cleared in mapping 0 and disabled in the registers, so that the accelerator can no longer reach the
  page table; the other slices are kept.\<close>

theorem soc_mh_dis_revokes:
  assumes "soc_mh_is_ena s" "mapping_active s = 0" "mappings s \<noteq> []" "length (slices (mappings s ! 0)) = 32" "n_slices_reserved s \<le> 32"
  shows "\<exists>s'. pulp_rab_soc_mh_dis K junk s = (0, s') \<and> \<not> soc_mh_is_ena s' \<and> n_slices_reserved s' = 32
    \<and> (\<forall>k < 32. 0 < k \<and> k < n_slices_reserved s \<longrightarrow>
         slices (mappings s' ! 0) ! k = clear1 (slices (mappings s ! 0) ! k) \<and> hw s' (rab_entry 1 k + RAB_SLICE_FLAGS_OFFSET_B) = 0)
    \<and> (\<forall>k < 32. k = 0 \<or> n_slices_reserved s \<le> k \<longrightarrow>
         slices (mappings s' ! 0) ! k = slices (mappings s ! 0) ! k
         \<and> hw s' (rab_entry 1 k + RAB_SLICE_FLAGS_OFFSET_B) = hw s (rab_entry 1 k + RAB_SLICE_FLAGS_OFFSET_B))"
  using soc_mh_dis_loop [OF assms(2-4) order.refl assms(5), of K junk] assms(1)
  by (auto simp: pulp_rab_soc_mh_dis_def Let_def RAB_L1_N_SLICES_PORT_1_def RAB_SLICE_FLAGS_OFFSET_B_def)

theorem soc_mh_dis_revokes_witness:
  "let s = (mh_rab 1)\<lparr>soc_mh_is_ena := True, n_slices_reserved := 2\<rparr>
   in \<exists>s'. pulp_rab_soc_mh_dis kern_ok req_ok s = (0, s') \<and> \<not> soc_mh_is_ena s' \<and> n_slices_reserved s' = 32
    \<and> (\<forall>k < 32. 0 < k \<and> k < n_slices_reserved s \<longrightarrow>
         slices (mappings s' ! 0) ! k = clear1 (slices (mappings s ! 0) ! k) \<and> hw s' (rab_entry 1 k + RAB_SLICE_FLAGS_OFFSET_B) = 0)
    \<and> (\<forall>k < 32. k = 0 \<or> n_slices_reserved s \<le> k \<longrightarrow>
         slices (mappings s' ! 0) ! k = slices (mappings s ! 0) ! k
         \<and> hw s' (rab_entry 1 k + RAB_SLICE_FLAGS_OFFSET_B) = hw s (rab_entry 1 k + RAB_SLICE_FLAGS_OFFSET_B))"
  unfolding Let_def
  by (rule soc_mh_dis_revokes) (simp_all add: mh_rab_def blank_rab_def Let_def l3_mapping_def blank_mapping_def)

text \<open>Enabling the miss handler on the SoC maps the top level of the page table, read-only, through slice 1. The slice it frees for this was
  unused and thus names field 0, whose counter is lowered although slice 0, which holds the contiguous memory, still refers to it.\<close>

theorem soc_mh_ena_drops_reference:
  assumes s: "soc_mh_is_ena s" "n_slices_reserved s = 2" "mapping_active s = 0" "mappings s \<noteq> []" "m_ok (mappings s ! 0)"
    and e1: "e_page_ptr_idx (slices (mappings s ! 0) ! 1) = 0" "e_date_exp (slices (mappings s ! 0) ! 1) < 255"
      "\<not> e_fixed (slices (mappings s ! 0) ! 1)"
    and f: "List.find (\<lambda>i. page_ptr_ref_cntrs (mappings s ! 0) ! i = 0) [0 ..< 32] = Some f"
  shows "\<exists>s'. soc_mh_ena_static_1st_level K pgd_size pgd_pa s (soc_mh_req junk) = (0, s')
    \<and> (let m = mappings s' ! 0; e = slices m ! 1
       in e_addr_start e = PGD_BASE_ADDR \<and> e_addr_end e = PGD_BASE_ADDR + (pgd_size - 1) \<and> e_addr_offset e = pgd_pa
          \<and> bit (e_flags_hw e) 0 \<and> bit (e_flags_hw e) 1 \<and> \<not> bit (e_flags_hw e) 2 \<and> shows1 (hw s') 1 e
          \<and> slices m ! 0 = slices (mappings s ! 0) ! 0 \<and> e_page_ptr_idx (slices m ! 0) = 0
          \<and> page_ptr_ref_cntrs m ! 0 = page_ptr_ref_cntrs (mappings s ! 0) ! 0 - 1)"
proof -
  define m where "m = mappings s ! 0"
  have m: "m_ok m" using s by (simp add: m_def)
  note mm = m_okD [OF m]
  have f0: "0 < f" "f < 32" "cnt m f = 0" using find_field [OF m] f by (auto simp: m_def)
  have rf: "page_ptr_ref_cntrs m ! f = 0" using mm(9) [OF f0(1,2)] f0(3) by simp
  define q where "q = (soc_mh_req junk)\<lparr>rq_page_ptr_idx := f, rq_addr_start := PGD_BASE_ADDR, rq_addr_end := PGD_BASE_ADDR + (pgd_size - 1),
    rq_addr_offset := pgd_pa\<rparr>"
  have q: "rq_port q = 1" "rq_mapping q = 0" "rq_page_ptr_idx q = f" "rq_date_cur q = 255" "bit (rq_flags_drv q) 0"
    "\<not> bit (rq_flags_drv q) 3" "rq_addr_start q = PGD_BASE_ADDR" "rq_addr_end q = PGD_BASE_ADDR + (pgd_size - 1)" "rq_addr_offset q = pgd_pa"
    "bit (rq_flags_hw q) 0" "bit (rq_flags_hw q) 1" "\<not> bit (rq_flags_hw q) 2"
    by (simp_all add: q_def soc_mh_req_def bit_or_iff RAB_FLAGS_HW_CC_def RAB_FLAGS_HW_READ_def RAB_FLAGS_HW_EN_def)
  have fld: "pulp_rab_page_ptrs_get_field s (soc_mh_req junk) = (0, (soc_mh_req junk)\<lparr>rq_page_ptr_idx := f\<rparr>)"
    using f by (simp add: pulp_rab_page_ptrs_get_field_def RAB_L1_N_SLICES_PORT_1_def soc_mh_req_def)
  define r where "r = q\<lparr>rq_slice := 1\<rparr>"
  have "\<not> avail q m 0" "avail q m 1" using mm(6) e1(2,3) q by (simp_all add: avail_def m_def)
  then have "List.find (\<lambda>i. avail q m i \<and> i < 2) [0 ..< 32] = Some 1"
    by (auto simp: find_Some_iff less_Suc_eq intro!: exI [of _ "1 :: nat"])
  moreover have "(\<lambda>i. pulp_rab_slice_check s (q\<lparr>rq_slice := i\<rparr>) \<and> pulp_rab_slice_is_managed_by_host s (q\<lparr>rq_slice := i\<rparr>))
      = (\<lambda>i. avail q m i \<and> i < 2)"
    using s(1,2) q(1,2) by (auto simp: fun_eq_iff slice_check_avail pulp_rab_slice_is_managed_by_host_def m_def)
  ultimately have get: "pulp_rab_slice_get s q = (0, r)"
    using q(1) by (simp add: pulp_rab_slice_get_def n_slices_of_def RAB_L1_N_SLICES_PORT_1_def r_def)
  have rr: "rq_port r = 1" "rq_mapping r = 0" "rq_slice r = 1" "rq_page_ptr_idx r = f" "bit (rq_flags_drv r) 0" "setup1 r = setup1 q"
    "rq_addr_start r = rq_addr_start q" "rq_addr_end r = rq_addr_end q" "rq_addr_offset r = rq_addr_offset q" "rq_flags_hw r = rq_flags_hw q"
    using q by (simp_all add: r_def setup1_def)
  define m0 where "m0 = free_entry (rq_flags_drv r) 1 m"
  have m0: "m0 = m\<lparr>slices := (slices m)[1 := clear1 (slices m ! 1)],
      page_ptr_ref_cntrs := (page_ptr_ref_cntrs m)[0 := page_ptr_ref_cntrs m ! 0 - 1]\<rparr>"
    using mm(4,5) e1(1) rr(5) by (simp add: m0_def free_entry_def free_refs_def Let_def m_def)
  define s1 where "s1 = pulp_rab_slice_free K s r"
  have s1: "mappings s1 = (mappings s)[0 := m0]" "mapping_active s1 = 0"
    using rr s by (simp_all add: s1_def pulp_rab_slice_free_def Let_def pulp_rab_slice_is_managed_by_host_def m0_def m_def)
  define m' where "m' = setup_mapping r None 1 m0"
  have nb: "\<not> setup_field_busy r x" if "page_ptr_ref_cntrs x = page_ptr_ref_cntrs m0" for x
    using rf f0 rr(4) that m0 by (simp add: setup_field_busy_def)
  have len: "0 < length (mappings s)" using s(4) by simp
  have st: "pulp_rab_slice_setup s1 r None =
      (0, write_slice (entry1 1) (rq_addr_start r) (rq_addr_end r) (rq_addr_offset r) (rq_flags_hw r) (s1\<lparr>mappings := (mappings s)[0 := m']\<rparr>))"
    using rr s1 nb len by (simp add: pulp_rab_slice_setup_def Let_def upd_mapping_def m'_def setup_mapping_def)
  have "slices m' ! 1 = setup1 q" "slices m' ! 0 = slices m ! 0" "page_ptr_ref_cntrs m' ! 0 = page_ptr_ref_cntrs m ! 0 - 1"
    using mm(1,3) f0 rr(4,6) by (simp_all add: m'_def setup_mapping_def setup_refs_def Let_def m0)
  moreover have "soc_mh_ena_static_1st_level K pgd_size pgd_pa s (soc_mh_req junk) = pulp_rab_slice_setup s1 r None"
    using fld get by (simp add: soc_mh_ena_static_1st_level_def Let_def q_def s1_def)
  ultimately show ?thesis
    using st len q rr mm(8) by (simp add: Let_def m_def [symmetric] write_slice_shows setup1_def)
qed

theorem soc_mh_ena_drops_reference_witness:
  "let s = (mh_rab 1)\<lparr>soc_mh_is_ena := True, n_slices_reserved := 2\<rparr>
   in \<exists>s'. soc_mh_ena_static_1st_level kern_ok 0x1000 0x5000 s (soc_mh_req req_ok) = (0, s')
    \<and> (let m = mappings s' ! 0; e = slices m ! 1
       in e_addr_start e = PGD_BASE_ADDR \<and> e_addr_end e = PGD_BASE_ADDR + (0x1000 - 1) \<and> e_addr_offset e = 0x5000
          \<and> bit (e_flags_hw e) 0 \<and> bit (e_flags_hw e) 1 \<and> \<not> bit (e_flags_hw e) 2 \<and> shows1 (hw s') 1 e
          \<and> slices m ! 0 = slices (mappings s ! 0) ! 0 \<and> e_page_ptr_idx (slices m ! 0) = 0
          \<and> page_ptr_ref_cntrs m ! 0 = page_ptr_ref_cntrs (mappings s ! 0) ! 0 - 1)"
proof -
  define x where "x = req_ok\<lparr>rq_flags_drv := 13, rq_date_exp := 255\<rparr>"
  define s where "s = (mh_rab 1)\<lparr>soc_mh_is_ena := True, n_slices_reserved := 2\<rparr>"
  have s: "soc_mh_is_ena s" "n_slices_reserved s = 2" "mapping_active s = 0" "mappings s \<noteq> []" "mappings s ! 0 = l3_mapping x"
    by (simp_all add: s_def mh_rab_def blank_rab_def Let_def x_def)
  have m: "m_ok (l3_mapping x)" by (rule l3_mapping_ok) (simp_all add: x_def req_ok_def)
  have f: "List.find (\<lambda>i. page_ptr_ref_cntrs (l3_mapping x) ! i = 0) [0 ..< 32] = Some 1"
    using l3_mapping_simps(3) [of 1 x] m_okD(5) [OF m] by (auto simp: find_Some_iff less_Suc_eq intro!: exI [of _ "1 :: nat"])
  show ?thesis unfolding s_def [symmetric] Let_def
    using soc_mh_ena_drops_reference [OF s(1-4), of 1 kern_ok "0x1000" "0x5000" req_ok] m f l3_mapping_simps(2) [of 1 x]
    by (simp add: s(5) blank_entry_def Let_def)
qed

end
