(* ===== verification/Drv_Rab_Stripe.thy ===== *)
theory Drv_Rab_Stripe
  imports Drv_Rab_Mh
begin

text \<open>
  Striped mappings of the driver (\<open>pulp_rab_req_striped\<close>, \<open>pulp_rab_update\<close>, \<open>pulp_rab_switch\<close>,
  \<open>pulp_rab_free_striped\<close>) and the release of the device (\<open>pulp_rab_release\<close>) in \<open>pulp-driver/pulp_rab.c\<close>. An
  application that streams over large arrays announces the stripes of its data elements; the driver pins all pages
  once, computes for every stripe the slices that map it (the striping table), and reserves two or four sets of slices
  per element, which it reconfigures in turn when the accelerator asks for the next stripe.

  The data of the request (\<open>RabStripeReqUser\<close>, \<open>RabStripeElemUser\<close> and the two arrays of addresses) are copied from
  user space; here they are arguments. \<open>alloc\<close> tells which allocations of an element succeed: 0 to 3 for the arrays of slice
  indices, start addresses, end addresses and stripes, \<open>4 + j\<close> for the slices of stripe \<open>j\<close>. A result \<open>None\<close> is
  undefined behaviour: an access beyond the segments or stripes, or an index that was never set.
\<close>

definition HOST_READY :: u32 where [hw_consts]: "HOST_READY = 0x1000"
definition RAB_UPDATE_N_BITS_ELEM :: nat where [hw_consts]: "RAB_UPDATE_N_BITS_ELEM = 8"

record RabStripeElemUser =
  eu_id :: u8
  eu_type :: ElemType
  eu_flags :: u8
  eu_max_stripe_size_b :: u32
  eu_stripe_addr_start :: "u32 list"
  eu_stripe_addr_end :: "u32 list"

subsection \<open>The striping table\<close>

definition stripe_n_slices :: "u32 \<Rightarrow> nat" where
  "stripe_n_slices max_stripe_size_b =
     (let n_slices = unat max_stripe_size_b div 4096;
          n_slices = (if n_slices * 4096 < unat max_stripe_size_b then n_slices + 1 else n_slices)
      in n_slices + 1)"

definition elem_of_user :: "RabStripeElemUser \<Rightarrow> RabStripeElem" where
  "elem_of_user u =
     (let n_slices = stripe_n_slices (eu_max_stripe_size_b u)
      in \<lparr>el_id = eu_id u, el_type = eu_type u, el_page_ptr_idx = 0,
          el_n_slices = (if eu_type u = Inout then 4 * n_slices else 2 * n_slices), el_n_slices_per_stripe = n_slices,
          slice_idxs = [], set_offset = 0, stripe_idx = 1, el_n_stripes = length (eu_stripe_addr_start u), stripes = [],
          el_flags_hw = eu_flags u OR 2\<rparr>)"

function seg_idx_start :: "sg_seg list \<Rightarrow> u32 \<Rightarrow> nat \<Rightarrow> nat" where
  "seg_idx_start segs a i =
     (if i + 1 < length segs \<and> a \<ge> sg_start (segs ! (i + 1)) then seg_idx_start segs a (i + 1) else i)"
  by pat_completeness auto
termination by (relation "measure (\<lambda>(segs, a, i). length segs - i)") auto

function seg_idx_end :: "sg_seg list \<Rightarrow> u32 \<Rightarrow> nat \<Rightarrow> nat" where
  "seg_idx_end segs e i =
     (if i < length segs \<and> e > sg_end (segs ! i) then seg_idx_end segs e (i + 1) else i)"
  by pat_completeness auto
termination by (relation "measure (\<lambda>(segs, e, i). length segs - i)") auto

declare seg_idx_start.simps [simp del] seg_idx_end.simps [simp del]

definition page_base :: "u32 \<Rightarrow> u64" where
  "page_base a = push_bit PAGE_SHIFT (BF_GET (ucast a) PAGE_SHIFT (32 - PAGE_SHIFT))"

text \<open>Slice \<open>k\<close> of the \<open>n_slices\<close> slices of stripe \<open>j\<close>, whose first segment is \<open>si\<close>.\<close>

definition stripe_slice :: "sg_seg list \<Rightarrow> u32 list \<Rightarrow> u32 list \<Rightarrow> nat \<Rightarrow> nat \<Rightarrow> nat \<Rightarrow> nat \<Rightarrow> RabStripeSlice" where
  "stripe_slice segs starts ends j si n_slices k =
     \<lparr>ss_addr_start = (if k = 0 then starts ! j else sg_start (segs ! (si + k))),
      ss_addr_end = (if k < n_slices - 1 then sg_end (segs ! (si + k)) else ends ! j),
      ss_addr_offset =
        (if k = 0
         then let addr_offset = sg_offset (segs ! si) + (page_base (starts ! j) - page_base (sg_start (segs ! si)))
              in if j \<noteq> 0 then addr_offset + (ucast (starts ! j) AND BIT_MASK_GEN PAGE_SHIFT) else addr_offset
         else sg_offset (segs ! (si + k)))\<rparr>"

definition stripe_step ::
  "(nat \<Rightarrow> bool) \<Rightarrow> sg_seg list \<Rightarrow> u32 list \<Rightarrow> u32 list \<Rightarrow> (int + nat \<times> nat \<times> RabStripe list) option \<Rightarrow> nat
    \<Rightarrow> (int + nat \<times> nat \<times> RabStripe list) option" where
  "stripe_step alloc segs starts ends r j =
     (case r of
        Some (Inr (si, se, tab)) \<Rightarrow>
          (let si = seg_idx_start segs (starts ! j) si;
               se = seg_idx_end segs (ends ! j) se;
               n_slices = se + 1 - si
           in if \<not> alloc (4 + j) then Some (Inl (- ENOMEM))
              else if se = length segs \<or> se + 1 < si then None
              else Some (Inr (si, se, tab @ [\<lparr>st_n_slices = n_slices,
                     slice_configs = map (stripe_slice segs starts ends j si n_slices) [0 ..< n_slices]\<rparr>])))
      | _ \<Rightarrow> r)"

definition stripe_table ::
  "(nat \<Rightarrow> bool) \<Rightarrow> sg_seg list \<Rightarrow> u32 list \<Rightarrow> u32 list \<Rightarrow> (int + nat \<times> nat \<times> RabStripe list) option" where
  "stripe_table alloc segs starts ends =
     foldl (stripe_step alloc segs starts ends) (Some (Inr (0, 0, []))) [0 ..< length starts]"

subsection \<open>Requesting the slices\<close>

definition striped_req :: "RabStripeElem \<Rightarrow> nat \<Rightarrow> sg_seg list \<Rightarrow> RabSliceReq \<Rightarrow> RabSliceReq" where
  "striped_req el mapping segs req =
     req\<lparr>rq_port := 1, rq_mapping := mapping, rq_flags_hw := el_flags_hw el, rq_date_cur := 1, rq_date_exp := RAB_MAX_DATE,
         rq_page_idx_start := of_nat (sg_page_start (segs ! 0)),
         rq_page_idx_end := of_nat (sg_page_end (segs ! (length segs - 1)))\<rparr>"

text \<open>The request for slice \<open>j\<close> of an element: the slices of the first stripe are enabled at once.\<close>

definition striped_slice_req :: "RabStripeElem \<Rightarrow> nat \<Rightarrow> RabSliceReq \<Rightarrow> RabSliceReq" where
  "striped_slice_req el j req =
     (let req = (if j > st_n_slices (stripes el ! 0) - 1
                 then req\<lparr>rq_addr_start := 0, rq_addr_end := 0, rq_addr_offset := 0,
                        rq_flags_hw := BIT_CLEAR (el_flags_hw el) RAB_FLAGS_HW_EN\<rparr>
                 else let c = slice_configs (stripes el ! 0) ! j
                      in req\<lparr>rq_addr_start := ss_addr_start c, rq_addr_end := ss_addr_end c,
                           rq_addr_offset := ss_addr_offset c, rq_flags_hw := el_flags_hw el\<rparr>)
      in req\<lparr>rq_flags_drv := (if j > 0 then BIT_SET 0 RAB_FLAGS_DRV_STRIPED else 0)\<rparr>)"

definition striped_slice_step ::
  "kern \<Rightarrow> page list \<Rightarrow> int \<times> RabSliceReq \<times> RabStripeElem \<times> rab \<Rightarrow> nat \<Rightarrow> int \<times> RabSliceReq \<times> RabStripeElem \<times> rab" where
  "striped_slice_step K pages r j =
     (let (err, req, el, s) = r in
      if err \<noteq> 0 then r
      else
        let (err, req) = pulp_rab_slice_get s (striped_slice_req el j req)
        in if err \<noteq> 0 then (err, req, el, s)
           else
             let el = el\<lparr>slice_idxs := slice_idxs el @ [rq_slice req]\<rparr>;
                 (err, s) = pulp_rab_slice_setup (pulp_rab_slice_free K s req) req (Some pages)
             in (err, req, el, s))"

definition striped_slices ::
  "kern \<Rightarrow> page list \<Rightarrow> RabSliceReq \<Rightarrow> RabStripeElem \<Rightarrow> rab \<Rightarrow> int \<times> RabSliceReq \<times> RabStripeElem \<times> rab" where
  "striped_slices K pages req el s =
     (let (err, req) = pulp_rab_page_ptrs_get_field s req
      in if err \<noteq> 0 then (err, req, el, s)
         else foldl (striped_slice_step K pages) (0, req, el\<lparr>el_page_ptr_idx := rq_page_ptr_idx req\<rparr>, s)
                [0 ..< el_n_slices el])"

text \<open>One element: pinning, segmentation, cache flush, striping table, slices.\<close>

definition req_striped_elem ::
  "kern \<Rightarrow> (nat \<Rightarrow> bool) \<Rightarrow> nat \<Rightarrow> RabStripeElemUser \<Rightarrow> RabSliceReq \<Rightarrow> rab \<Rightarrow> (int \<times> RabSliceReq \<times> RabStripeElem \<times> rab) option" where
  "req_striped_elem K alloc mapping u req s =
     (let el = elem_of_user u; starts = eu_stripe_addr_start u; ends = eu_stripe_addr_end u
      in if \<not> alloc 0 \<or> \<not> alloc 1 \<or> \<not> alloc 2 then Some (- ENOMEM, req, el, s)
         else if starts = [] then None
         else
           let addr_start = starts ! 0; addr_end = ends ! (length starts - 1);
               len = pulp_mem_get_num_pages addr_start (addr_end - addr_start);
               (err, pages) = pulp_mem_get_user_pages (gup_ok K) (gup_fast K) addr_start len
                                (ucast (el_flags_hw el AND RAB_FLAGS_HW_WRITE))
           in if err \<noteq> 0 then Some (err, req, el, s)
              else if length pages \<noteq> unat len then None
              else
                let s = s\<lparr>kern_log := kern_log s @ [PinPages pages]\<rparr>
                in case pulp_mem_map_sg (kmalloc_ok K) (map (page_to_phys K) pages) addr_start addr_end of
                     Inl _ \<Rightarrow> None
                   | Inr segs \<Rightarrow>
                       (let s = (if \<not> BIT_GET (el_flags_hw el) RAB_FLAGS_HW_CC
                                 then s\<lparr>kern_log := kern_log s @ concat (map (flush_segment pages segs) [0 ..< length segs])\<rparr>
                                 else s)
                        in if \<not> alloc 3 then Some (- ENOMEM, req, el, s)
                           else case stripe_table alloc segs starts ends of
                                  None \<Rightarrow> None
                                | Some (Inl err) \<Rightarrow> Some (err, req, el, s)
                                | Some (Inr (_, _, tab)) \<Rightarrow>
                                    if st_n_slices (tab ! 0) = 0 then None
                                    else Some (striped_slices K pages (striped_req el mapping segs req)
                                                 (el\<lparr>stripes := tab\<rparr>) s)))"

definition req_striped_step ::
  "(nat \<Rightarrow> kern) \<Rightarrow> (nat \<Rightarrow> nat \<Rightarrow> bool) \<Rightarrow> nat \<Rightarrow> RabStripeElemUser list
    \<Rightarrow> (int \<times> RabSliceReq \<times> RabStripeElem list \<times> rab) option \<Rightarrow> nat \<Rightarrow> (int \<times> RabSliceReq \<times> RabStripeElem list \<times> rab) option" where
  "req_striped_step K alloc mapping us r i =
     (case r of None \<Rightarrow> None
      | Some (err, req, els, s) \<Rightarrow>
          if err \<noteq> 0 then r
          else map_option (\<lambda>(err, req, el, s). (err, req, els @ [el], s))
                 (req_striped_elem (K i) (alloc i) mapping (us ! i) req s))"

text \<open>The whole request; \<open>mem_ok\<close> is the result of the two allocations for the arrays of elements. Without elements the index of the
  mapping is not set when it is used.\<close>

definition pulp_rab_req_striped ::
  "(nat \<Rightarrow> kern) \<Rightarrow> bool \<Rightarrow> (nat \<Rightarrow> nat \<Rightarrow> bool) \<Rightarrow> RabSliceReq \<Rightarrow> u16 \<Rightarrow> RabStripeElemUser list \<Rightarrow> rab \<Rightarrow> (int \<times> rab) option" where
  "pulp_rab_req_striped K mem_ok alloc junk req_id us s =
     (if \<not> mem_ok then Some (- ENOMEM, s)
      else if us = [] then None
      else
        let mapping = unat req_id mod RAB_L1_N_MAPPINGS_PORT_1
        in case foldl (req_striped_step K alloc mapping us) (Some (0, junk, [], s)) [0 ..< length us] of
             None \<Rightarrow> None
           | Some (err, req, els, s) \<Rightarrow>
               if err \<noteq> 0 then Some (err, s)
               else Some (0, s\<lparr>stripe_reqs := (stripe_reqs s)[mapping := \<lparr>sr_id = req_id, sr_elements = els\<rparr>]\<rparr>))"

subsection \<open>Updating, switching and freeing\<close>

definition idx_mask :: "ElemType \<Rightarrow> nat" where "idx_mask ty = (if ty = Inout then 3 else 1)"

definition set_sel :: "RabStripeElem \<Rightarrow> nat" where
  "set_sel el = (stripe_idx el + set_offset el) AND idx_mask (el_type el)"

definition update_slice :: "RabStripeElem \<Rightarrow> rab \<Rightarrow> nat \<Rightarrow> rab" where
  "update_slice el s j =
     (let offset = rab_entry 1 (slice_idxs el ! (set_sel el * el_n_slices_per_stripe el + j));
          st = stripes el ! stripe_idx el;
          s = iowrite (offset + RAB_SLICE_FLAGS_OFFSET_B) 0 s
      in if j < st_n_slices st
         then let c = slice_configs st ! j
              in write_slice offset (ss_addr_start c) (ss_addr_end c) (ss_addr_offset c) (el_flags_hw el) s
         else s)"

definition next_stripe :: "RabStripeElem \<Rightarrow> RabStripeElem" where
  "next_stripe el =
     (let el = el\<lparr>stripe_idx := stripe_idx el + 1\<rparr>
      in if stripe_idx el = el_n_stripes el
         then let el = el\<lparr>stripe_idx := 0\<rparr>
              in if el_type el = Inout \<and> el_n_stripes el AND 3 \<noteq> 0
                 then el\<lparr>set_offset := (set_offset el + (el_n_stripes el AND 3)) AND 3\<rparr>
                 else if el_type el \<noteq> Inout \<and> el_n_stripes el AND 1 \<noteq> 0
                 then el\<lparr>set_offset := (if set_offset el \<noteq> 0 then 0 else 1)\<rparr>
                 else el
         else el)"

definition upd_elem :: "nat \<Rightarrow> nat \<Rightarrow> (RabStripeElem \<Rightarrow> RabStripeElem) \<Rightarrow> rab \<Rightarrow> rab" where
  "upd_elem j i f s =
     s\<lparr>stripe_reqs := (stripe_reqs s)[j := (stripe_reqs s ! j)
         \<lparr>sr_elements := (sr_elements (stripe_reqs s ! j))[i := f (sr_elements (stripe_reqs s ! j) ! i)]\<rparr>]\<rparr>"

definition update_elem :: "u32 \<Rightarrow> nat \<Rightarrow> rab \<Rightarrow> nat \<Rightarrow> rab" where
  "update_elem elem_mask rab_mapping s i =
     (if \<not> bit elem_mask i then s
      else let el = sr_elements (stripe_reqs s ! rab_mapping) ! i
           in upd_elem rab_mapping i next_stripe (foldl (update_slice el) s [0 ..< el_n_slices_per_stripe el]))"

definition pulp_rab_update :: "rab \<Rightarrow> u32 \<Rightarrow> rab" where
  "pulp_rab_update s update_req =
     (let elem_mask = ucast (BF_GET (ucast update_req) 0 RAB_UPDATE_N_BITS_ELEM);
          rab_mapping = pulp_rab_mapping_get_active s;
          s = foldl (update_elem elem_mask rab_mapping) s [0 ..< length (sr_elements (stripe_reqs s ! rab_mapping))]
      in s\<lparr>kern_log := kern_log s @ [MboxWrite (HOST_READY OR elem_mask)]\<rparr>)"

definition pulp_rab_switch :: "rab \<Rightarrow> rab" where
  "pulp_rab_switch s =
     (let rab_mapping = (if pulp_rab_mapping_get_active s \<noteq> 0 then 0 else 1);
          s = pulp_rab_mapping_switch s rab_mapping;
          s = foldl (\<lambda>s i. upd_elem rab_mapping i (\<lambda>el. el\<lparr>stripe_idx := (if el_type el = Out then 0 else 1)\<rparr>) s) s
                [0 ..< length (sr_elements (stripe_reqs s ! rab_mapping))]
      in s\<lparr>kern_log := kern_log s @ [MboxWrite HOST_READY]\<rparr>)"

definition free_striped_slice :: "kern \<Rightarrow> RabSliceReq \<Rightarrow> RabStripeElem \<Rightarrow> rab \<Rightarrow> nat \<Rightarrow> rab" where
  "free_striped_slice K req el s j =
     pulp_rab_slice_free K s
       (req\<lparr>rq_flags_hw := el_flags_hw el, rq_slice := slice_idxs el ! j,
            rq_flags_drv := (if j < el_n_slices el - 1 then BIT_SET 0 RAB_FLAGS_DRV_STRIPED else 0)\<rparr>)"

definition free_striped_elem :: "kern \<Rightarrow> RabSliceReq \<Rightarrow> rab \<Rightarrow> RabStripeElem \<Rightarrow> rab" where
  "free_striped_elem K req s el = foldl (free_striped_slice K req el) s [0 ..< el_n_slices el]"

definition pulp_rab_free_striped :: "kern \<Rightarrow> RabSliceReq \<Rightarrow> rab \<Rightarrow> u8 \<Rightarrow> rab" where
  "pulp_rab_free_striped K junk s req_id =
     (let rab_mapping = unat req_id mod RAB_L1_N_MAPPINGS_PORT_1;
          els = sr_elements (stripe_reqs s ! rab_mapping)
      in if els \<noteq> []
         then let s = foldl (free_striped_elem K (junk\<lparr>rq_port := 1, rq_mapping := rab_mapping\<rparr>)) s els
              in s\<lparr>stripe_reqs := (stripe_reqs s)[rab_mapping := (stripe_reqs s ! rab_mapping)\<lparr>sr_elements := []\<rparr>]\<rparr>
         else s)"

subsection \<open>Release of the device\<close>

definition pulp_rab_release :: "kern \<Rightarrow> RabSliceReq \<Rightarrow> rab \<Rightarrow> bool \<Rightarrow> int \<times> rab" where
  "pulp_rab_release K junk s driver =
     (let rab_n_slices_host = n_slices_reserved s;
          (ret, s) = pulp_rab_soc_mh_dis K junk s
      in if ret \<noteq> 0 \<and> ret \<noteq> - EALREADY then (ret, s)
         else
           let s = pulp_rab_mh_dis s;
               s = foldl (\<lambda>s i. iowrite (rab_entry 1 i + RAB_SLICE_FLAGS_OFFSET_B) 0 s) s
                     [rab_n_slices_host ..< RAB_L1_N_SLICES_PORT_1];
               s = foldl (\<lambda>s i. pulp_rab_free_striped K junk s (of_nat i)) s [0 ..< RAB_L1_N_MAPPINGS_PORT_1]
           in (0, pulp_rab_free K junk s (RAB_MAX_DATE - 1) driver))"

subsection \<open>Rotation of the sets\<close>

definition n_sets :: "ElemType \<Rightarrow> nat" where "n_sets ty = (if ty = Inout then 4 else 2)"

lemma and_3_mod: "x AND 3 = x mod 4" and and_1_mod: "x AND 1 = x mod 2" for x :: nat
proof -
  have "x AND 3 = take_bit 2 x" "x AND 1 = take_bit 1 x" by (simp_all add: take_bit_eq_mask mask_eq_exp_minus_1)
  then show "x AND 3 = x mod 4" "x AND 1 = x mod 2" by (simp_all add: take_bit_eq_mod)
qed

lemma set_sel_mod: "set_sel el = (stripe_idx el + set_offset el) mod n_sets (el_type el)"
  by (simp add: set_sel_def idx_mask_def n_sets_def and_3_mod and_1_mod)

text \<open>The indices of an element are within bounds.\<close>

definition elem_ok :: "RabStripeElem \<Rightarrow> bool" where
  "elem_ok el \<longleftrightarrow> stripe_idx el < el_n_stripes el \<and> set_offset el < n_sets (el_type el)"

lemma mod_4_shift: "((o' + n mod 4) mod 4) = (n + o') mod (4 :: nat)" for n o' :: nat
  by (simp add: mod_add_right_eq add.commute)

lemma next_stripe_rotates:
  assumes "elem_ok el"
  shows "set_sel (next_stripe el) = (set_sel el + 1) mod n_sets (el_type el)" "elem_ok (next_stripe el)"
proof -
  define i n b where "i = stripe_idx el" and "n = el_n_stripes el" and "b = set_offset el"
  have bounds: "i < n" "b < n_sets (el_type el)" using assms by (simp_all add: elem_ok_def i_def n_def b_def)
  have step: "(set_sel el + 1) mod n_sets (el_type el) = (Suc i + b) mod n_sets (el_type el)"
    by (simp add: set_sel_mod i_def b_def mod_Suc_eq)
  show "set_sel (next_stripe el) = (set_sel el + 1) mod n_sets (el_type el)"
  proof (cases "Suc i = n")
    case False
    then show ?thesis unfolding step by (simp add: next_stripe_def Let_def i_def n_def b_def set_sel_mod)
  next
    case True
    show ?thesis
    proof (cases "el_type el = Inout")
      case inout: True
      then have "set_sel (next_stripe el) = (if n mod 4 \<noteq> 0 then (b + n mod 4) mod 4 else b) mod 4"
        using True by (simp add: next_stripe_def Let_def i_def n_def b_def set_sel_mod n_sets_def and_3_mod and_1_mod)
      also have "\<dots> = (n + b) mod 4" by (auto simp: mod_4_shift mod_eq_0_iff_dvd elim!: dvdE)
      finally show ?thesis unfolding step using True inout by (simp add: n_sets_def)
    next
      case not_inout: False
      then have "set_sel (next_stripe el) = (if n mod 2 \<noteq> 0 then if b \<noteq> 0 then 0 else 1 else b) mod 2"
        using True by (simp add: next_stripe_def Let_def i_def n_def b_def set_sel_mod n_sets_def and_3_mod and_1_mod)
      also have "\<dots> = (n + b) mod 2"
        using bounds(2) not_inout by (cases "b = 0") (auto simp: n_sets_def mod_Suc less_2_cases_iff)
      finally show ?thesis unfolding step using True not_inout by (simp add: n_sets_def)
    qed
  qed
  show "elem_ok (next_stripe el)"
    using bounds by (auto simp: elem_ok_def next_stripe_def Let_def i_def n_def b_def n_sets_def and_3_mod)
qed

lemma next_stripe_simps [simp]:
  "el_type (next_stripe el) = el_type el" "slice_idxs (next_stripe el) = slice_idxs el"
  "el_n_slices_per_stripe (next_stripe el) = el_n_slices_per_stripe el" "stripes (next_stripe el) = stripes el"
  "el_n_slices (next_stripe el) = el_n_slices el"
  by (simp_all add: next_stripe_def Let_def)

subsection \<open>Registers of an update\<close>

definition same_regs :: "(nat \<Rightarrow> u64) \<Rightarrow> (nat \<Rightarrow> u64) \<Rightarrow> nat \<Rightarrow> bool" where
  "same_regs h h' k \<longleftrightarrow> (\<forall>r < 28. h (entry1 k + r) = h' (entry1 k + r))"

text \<open>What the registers of slice \<open>k\<close> show after it was configured as slice \<open>j\<close> of the element's current stripe.\<close>

definition shows_stripe :: "(nat \<Rightarrow> u64) \<Rightarrow> nat \<Rightarrow> RabStripeElem \<Rightarrow> nat \<Rightarrow> bool" where
  "shows_stripe h k el j \<longleftrightarrow>
     (let st = stripes el ! stripe_idx el; c = slice_configs st ! j
      in if j < st_n_slices st
         then h (entry1 k) = ucast (drop_bit 12 (ss_addr_start c)) \<and> h (entry1 k + 8) = ucast (drop_bit 12 (ss_addr_end c)) \<and>
              h (entry1 k + 16) = drop_bit 12 (ss_addr_offset c) \<and> h (entry1 k + 24) = ucast (el_flags_hw el)
         else h (entry1 k + 24) = 0)"

lemma same_regs_refl [simp]: "same_regs h h k"
  by (simp add: same_regs_def)

lemma same_regs_trans: "same_regs h h' k \<Longrightarrow> same_regs h' h'' k \<Longrightarrow> same_regs h h'' k"
  by (simp add: same_regs_def)

lemma shows_stripe_cong: "same_regs h h' k \<Longrightarrow> shows_stripe h k el j = shows_stripe h' k el j"
proof -
  assume s: "same_regs h h' k"
  have "h (entry1 k) = h' (entry1 k)" using s [unfolded same_regs_def, rule_format, of 0] by simp
  then show ?thesis using s by (simp add: shows_stripe_def same_regs_def Let_def)
qed

definition elem_slice :: "RabStripeElem \<Rightarrow> nat \<Rightarrow> nat \<Rightarrow> nat" where
  "elem_slice el q j = slice_idxs el ! (q * el_n_slices_per_stripe el + j)"

lemma update_slice_eq: "\<exists>h. update_slice el s j = s\<lparr>hw := h\<rparr>"
  by (simp add: update_slice_def write_slice_def iowrite_def Let_def) blast

lemma update_slice_regs:
  fixes el :: RabStripeElem and j :: nat
  defines "k \<equiv> elem_slice el (set_sel el) j"
  shows "shows_stripe (hw (update_slice el s j)) k el j"
    "k' \<noteq> k \<Longrightarrow> same_regs (hw (update_slice el s j)) (hw s) k'"
  by (auto simp: update_slice_def k_def [symmetric, unfolded elem_slice_def] Let_def shows_stripe_def write_slice_def rab_offsets
      same_regs_def)

lemma update_slices:
  fixes el :: RabStripeElem
  defines "sl \<equiv> elem_slice el (set_sel el)"
  assumes "inj_on sl {..< n}"
  shows "\<exists>h. foldl (update_slice el) s [0 ..< n] = s\<lparr>hw := h\<rparr> \<and> (\<forall>j < n. shows_stripe h (sl j) el j) \<and>
    (\<forall>k. k \<notin> sl ` {..< n} \<longrightarrow> same_regs h (hw s) k)"
  using assms(2)
proof (induction n)
  case (Suc n)
  have inj: "inj_on sl {..< n}" using Suc.prems by (rule inj_on_subset) auto
  then obtain h where h: "foldl (update_slice el) s [0 ..< n] = s\<lparr>hw := h\<rparr>" "\<forall>j < n. shows_stripe h (sl j) el j"
    "\<forall>k. k \<notin> sl ` {..< n} \<longrightarrow> same_regs h (hw s) k" using Suc.IH by blast
  obtain h' where h': "update_slice el (s\<lparr>hw := h\<rparr>) n = s\<lparr>hw := h, hw := h'\<rparr>" using update_slice_eq by blast
  have new: "shows_stripe h' (sl n) el n" "\<And>k. k \<noteq> sl n \<Longrightarrow> same_regs h' h k"
    using update_slice_regs [where el = el and s = "s\<lparr>hw := h\<rparr>" and j = n, folded sl_def] unfolding h' by simp_all
  have ne: "sl j \<noteq> sl n" if "j < n" for j using Suc.prems that by (auto simp: inj_on_def)
  have "foldl (update_slice el) s [0 ..< Suc n] = s\<lparr>hw := h'\<rparr>" using h(1) h' by simp
  moreover have "shows_stripe h' (sl j) el j" if "j < Suc n" for j
  proof (cases "j = n")
    case False
    then have j: "j < n" using that by simp
    show ?thesis using shows_stripe_cong [OF new(2) [OF ne [OF j]]] h(2) j by blast
  qed (use new in simp)
  moreover have "same_regs h' (hw s) k" if "k \<notin> sl ` {..< Suc n}" for k
    using that new(2) [of k] h(3) same_regs_trans [of h' h k "hw s"] by (auto simp: lessThan_Suc)
  ultimately show ?case by blast
qed (auto intro: exI [of _ "hw s"])

text \<open>The elements of a request are well formed, and no slice belongs to two sets or two elements.\<close>

definition elem_slices :: "RabStripeElem \<Rightarrow> nat set" where
  "elem_slices el = set (slice_idxs el)"

definition elems_ok :: "RabStripeElem list \<Rightarrow> bool" where
  "elems_ok els \<longleftrightarrow> (\<forall>el \<in> set els. elem_ok el \<and> length (slice_idxs el) = n_sets (el_type el) * el_n_slices_per_stripe el)
     \<and> distinct (concat (map slice_idxs els))"

lemma elem_slice_index:
  assumes "q < n_sets (el_type el)" "j < el_n_slices_per_stripe el"
    "length (slice_idxs el) = n_sets (el_type el) * el_n_slices_per_stripe el"
  shows "q * el_n_slices_per_stripe el + j < length (slice_idxs el)"
proof -
  have "q * el_n_slices_per_stripe el + j < Suc q * el_n_slices_per_stripe el" using assms(2) by simp
  also have "\<dots> \<le> n_sets (el_type el) * el_n_slices_per_stripe el" using assms(1) by (intro mult_right_mono) auto
  finally show ?thesis using assms(3) by simp
qed

lemma set_sel_lt: "set_sel el < n_sets (el_type el)"
  by (simp add: set_sel_mod n_sets_def)

lemma elem_slice_inj:
  assumes "distinct (slice_idxs el)" "length (slice_idxs el) = n_sets (el_type el) * el_n_slices_per_stripe el"
    "q < n_sets (el_type el)" "j < el_n_slices_per_stripe el" "q' < n_sets (el_type el)" "j' < el_n_slices_per_stripe el"
  shows "elem_slice el q j = elem_slice el q' j' \<longleftrightarrow> q = q' \<and> j = j'"
proof -
  let ?n = "el_n_slices_per_stripe el"
  have "elem_slice el q j = elem_slice el q' j' \<longleftrightarrow> q * ?n + j = q' * ?n + j'"
    unfolding elem_slice_def
    by (rule nth_eq_iff_index_eq [OF assms(1) elem_slice_index [OF assms(3,4,2)] elem_slice_index [OF assms(5,6,2)]])
  also have "\<dots> \<longleftrightarrow> q = q' \<and> j = j'"
  proof
    assume eq: "q * ?n + j = q' * ?n + j'"
    have "q = (q * ?n + j) div ?n" "q' = (q' * ?n + j') div ?n" using assms by simp_all
    then show "q = q' \<and> j = j'" using eq by simp
  qed simp
  finally show ?thesis .
qed

text \<open>One element: its selected set shows the next stripe, every other slice is untouched.\<close>

lemma update_elem_effect:
  assumes "i < length els" "elems_ok els" "m < length (stripe_reqs s)" "sr_elements (stripe_reqs s ! m) = els" "bit elem_mask i"
  shows "\<exists>h. update_elem elem_mask m s i
      = s\<lparr>hw := h, stripe_reqs := (stripe_reqs s)[m := (stripe_reqs s ! m)\<lparr>sr_elements := els[i := next_stripe (els ! i)]\<rparr>]\<rparr>
    \<and> (\<forall>j < el_n_slices_per_stripe (els ! i). shows_stripe h (elem_slice (els ! i) (set_sel (els ! i)) j) (els ! i) j)
    \<and> (\<forall>k. k \<notin> elem_slice (els ! i) (set_sel (els ! i)) ` {..< el_n_slices_per_stripe (els ! i)} \<longrightarrow> same_regs h (hw s) k)"
proof -
  define el where "el = els ! i"
  have el: "el \<in> set els" using assms(1) by (simp add: el_def)
  have d: "distinct (slice_idxs el)" "length (slice_idxs el) = n_sets (el_type el) * el_n_slices_per_stripe el"
    using assms(2) el by (auto simp: elems_ok_def distinct_concat_iff)
  have "inj_on (elem_slice el (set_sel el)) {..< el_n_slices_per_stripe el}"
    using elem_slice_inj [OF d set_sel_lt _ set_sel_lt] by (auto simp: inj_on_def)
  then obtain h where h: "foldl (update_slice el) s [0 ..< el_n_slices_per_stripe el] = s\<lparr>hw := h\<rparr>"
    "\<forall>j < el_n_slices_per_stripe el. shows_stripe h (elem_slice el (set_sel el) j) el j"
    "\<forall>k. k \<notin> elem_slice el (set_sel el) ` {..< el_n_slices_per_stripe el} \<longrightarrow> same_regs h (hw s) k"
    using update_slices by blast
  have "update_elem elem_mask m s i
      = s\<lparr>hw := h, stripe_reqs := (stripe_reqs s)[m := (stripe_reqs s ! m)\<lparr>sr_elements := els[i := next_stripe el]\<rparr>]\<rparr>"
    using assms h(1) by (simp add: update_elem_def upd_elem_def Let_def el_def)
  then show ?thesis using h(2,3) unfolding el_def by blast
qed

lemma distinct_concat_disjoint:
  "distinct (concat xss) \<Longrightarrow> i < length xss \<Longrightarrow> j < length xss \<Longrightarrow> i \<noteq> j \<Longrightarrow> x \<in> set (xss ! i) \<Longrightarrow> x \<notin> set (xss ! j)"
proof (induction xss arbitrary: i j)
  case (Cons xs xss)
  have sep: "y \<notin> set (xss ! k)" if "y \<in> set xs" "k < length xss" for y k
    using Cons.prems(1) that nth_mem [OF that(2)] by fastforce
  show ?case
  proof (cases i)
    case 0
    then show ?thesis using Cons.prems sep [of x "j - 1"] by (cases j) simp_all
  next
    case (Suc i')
    then show ?thesis using Cons.prems Cons.IH [of i' "j - 1"] sep [of x i'] by (cases j) auto
  qed
qed simp

lemma elem_slice_other:
  assumes "elems_ok els" "i < length els" "i' < length els" "i \<noteq> i'" "q < n_sets (el_type (els ! i))" "j < el_n_slices_per_stripe (els ! i)"
    "q' < n_sets (el_type (els ! i'))" "j' < el_n_slices_per_stripe (els ! i')"
  shows "elem_slice (els ! i) q j \<noteq> elem_slice (els ! i') q' j'"
proof -
  have len: "length (slice_idxs el) = n_sets (el_type el) * el_n_slices_per_stripe el" if "el \<in> set els" for el
    using assms(1) that by (auto simp: elems_ok_def)
  have "elem_slice (els ! i) q j \<in> set (map slice_idxs els ! i)"
    unfolding elem_slice_def using assms elem_slice_index [OF assms(5,6) len] by simp
  moreover have "elem_slice (els ! i') q' j' \<in> set (map slice_idxs els ! i')"
    unfolding elem_slice_def using assms elem_slice_index [OF assms(7,8) len] by simp
  ultimately show ?thesis
    using distinct_concat_disjoint [of "map slice_idxs els" i i'] assms by (auto simp: elems_ok_def)
qed

definition updated :: "u32 \<Rightarrow> nat \<Rightarrow> RabStripeElem list \<Rightarrow> RabStripeElem list" where
  "updated elem_mask n els = map (\<lambda>i. if i < n \<and> bit elem_mask i then next_stripe (els ! i) else els ! i) [0 ..< length els]"

lemma updated_simps:
  "length (updated elem_mask n els) = length els"
  "i < length els \<Longrightarrow> updated elem_mask n els ! i = (if i < n \<and> bit elem_mask i then next_stripe (els ! i) else els ! i)"
  by (simp_all add: updated_def)

lemma updated_ok: "elems_ok els \<Longrightarrow> elems_ok (updated elem_mask n els)"
proof -
  assume ok: "elems_ok els"
  have "map slice_idxs (updated elem_mask n els) = map slice_idxs els"
    by (intro nth_equalityI) (simp_all add: updated_simps)
  then show ?thesis using ok next_stripe_rotates(2)
    by (auto simp: elems_ok_def updated_def)
qed

lemma updated_Suc:
  "n < length els \<Longrightarrow> updated elem_mask (Suc n) els
     = (if bit elem_mask n then (updated elem_mask n els)[n := next_stripe (els ! n)] else updated elem_mask n els)"
  by (intro nth_equalityI) (auto simp: updated_simps nth_list_update less_Suc_eq)

text \<open>The slices that an update reconfigures.\<close>

definition touched :: "u32 \<Rightarrow> nat \<Rightarrow> RabStripeElem list \<Rightarrow> nat set" where
  "touched elem_mask n els =
     (\<Union>i \<in> {i. i < n \<and> bit elem_mask i}. elem_slice (els ! i) (set_sel (els ! i)) ` {..< el_n_slices_per_stripe (els ! i)})"

lemma update_elems:
  assumes "elems_ok els" "m < length (stripe_reqs s)" "sr_elements (stripe_reqs s ! m) = els" "n \<le> length els"
  shows "\<exists>h. foldl (update_elem elem_mask m) s [0 ..< n]
      = s\<lparr>hw := h, stripe_reqs := (stripe_reqs s)[m := (stripe_reqs s ! m)\<lparr>sr_elements := updated elem_mask n els\<rparr>]\<rparr>
    \<and> (\<forall>i < n. bit elem_mask i \<longrightarrow> (\<forall>j < el_n_slices_per_stripe (els ! i).
         shows_stripe h (elem_slice (els ! i) (set_sel (els ! i)) j) (els ! i) j))
    \<and> (\<forall>k. k \<notin> touched elem_mask n els \<longrightarrow> same_regs h (hw s) k)"
  using assms(4)
proof (induction n)
  case 0
  have "updated elem_mask 0 els = els" by (intro nth_equalityI) (simp_all add: updated_simps)
  moreover have "(stripe_reqs s ! m)\<lparr>sr_elements := els\<rparr> = stripe_reqs s ! m" using assms(3) by (cases "stripe_reqs s ! m") simp
  ultimately show ?case by (intro exI [of _ "hw s"]) simp
next
  case (Suc n)
  define sreq where "sreq = (\<lambda>els. (stripe_reqs s)[m := (stripe_reqs s ! m)\<lparr>sr_elements := els\<rparr>])"
  obtain h where h: "foldl (update_elem elem_mask m) s [0 ..< n] = s\<lparr>hw := h, stripe_reqs := sreq (updated elem_mask n els)\<rparr>"
    "\<forall>i < n. bit elem_mask i \<longrightarrow> (\<forall>j < el_n_slices_per_stripe (els ! i).
         shows_stripe h (elem_slice (els ! i) (set_sel (els ! i)) j) (els ! i) j)"
    "\<forall>k. k \<notin> touched elem_mask n els \<longrightarrow> same_regs h (hw s) k"
    using Suc unfolding sreq_def by auto
  let ?s = "s\<lparr>hw := h, stripe_reqs := sreq (updated elem_mask n els)\<rparr>"
  have n: "n < length els" using Suc.prems by simp
  have un: "updated elem_mask n els ! n = els ! n" using n by (simp add: updated_simps)
  show ?case
  proof (cases "bit elem_mask n")
    case False
    then have "foldl (update_elem elem_mask m) s [0 ..< Suc n] = s\<lparr>hw := h, stripe_reqs := sreq (updated elem_mask (Suc n) els)\<rparr>"
      using h(1) n by (simp add: update_elem_def updated_Suc)
    moreover have "touched elem_mask (Suc n) els = touched elem_mask n els"
      using False by (auto simp: touched_def less_Suc_eq)
    ultimately show ?thesis using h(2,3) False unfolding sreq_def by (intro exI [of _ h]) (auto simp: less_Suc_eq)
  next
    case True
    obtain h' where h': "update_elem elem_mask m ?s n
        = ?s\<lparr>hw := h', stripe_reqs := (stripe_reqs ?s)[m := (stripe_reqs ?s ! m)
            \<lparr>sr_elements := (updated elem_mask n els)[n := next_stripe (els ! n)]\<rparr>]\<rparr>"
      "\<forall>j < el_n_slices_per_stripe (els ! n). shows_stripe h' (elem_slice (els ! n) (set_sel (els ! n)) j) (els ! n) j"
      "\<forall>k. k \<notin> elem_slice (els ! n) (set_sel (els ! n)) ` {..< el_n_slices_per_stripe (els ! n)} \<longrightarrow> same_regs h' h k"
      using update_elem_effect [of n "updated elem_mask n els" m ?s elem_mask] n assms(2) True updated_ok [OF assms(1)]
      unfolding un by (auto simp: updated_simps sreq_def)
    have "foldl (update_elem elem_mask m) s [0 ..< Suc n] = s\<lparr>hw := h', stripe_reqs := sreq (updated elem_mask (Suc n) els)\<rparr>"
      using h(1) h'(1) True n assms(2) by (simp add: updated_Suc sreq_def)
    moreover have "shows_stripe h' (elem_slice (els ! i) (set_sel (els ! i)) j) (els ! i) j"
      if i: "i < Suc n" "bit elem_mask i" "j < el_n_slices_per_stripe (els ! i)" for i j
    proof (cases "i = n")
      case False
      then have "elem_slice (els ! i) (set_sel (els ! i)) j \<noteq> elem_slice (els ! n) (set_sel (els ! n)) j'"
        if "j' < el_n_slices_per_stripe (els ! n)" for j'
        using elem_slice_other [OF assms(1) _ n False set_sel_lt i(3) set_sel_lt that] i(1) n by simp
      then have "same_regs h' h (elem_slice (els ! i) (set_sel (els ! i)) j)" using h'(3) by auto
      then show ?thesis using shows_stripe_cong h(2) i False by (auto simp: less_Suc_eq)
    qed (use h'(2) i in simp)
    moreover have "same_regs h' (hw s) k" if "k \<notin> touched elem_mask (Suc n) els" for k
    proof -
      have "k \<notin> touched elem_mask n els" "k \<notin> elem_slice (els ! n) (set_sel (els ! n)) ` {..< el_n_slices_per_stripe (els ! n)}"
        using that True by (auto simp: touched_def less_Suc_eq)
      then show ?thesis using h(3) h'(3) same_regs_trans by blast
    qed
    ultimately show ?thesis unfolding sreq_def by blast
  qed
qed

subsection \<open>Correctness of the striping table\<close>

lemma seg_idx_start_spec:
  "i < length segs \<Longrightarrow> sg_start (segs ! i) \<le> x \<Longrightarrow>
     i \<le> seg_idx_start segs x i \<and> seg_idx_start segs x i < length segs \<and> sg_start (segs ! seg_idx_start segs x i) \<le> x \<and>
     (Suc (seg_idx_start segs x i) < length segs \<longrightarrow> x < sg_start (segs ! Suc (seg_idx_start segs x i)))"
proof (induction segs x i rule: seg_idx_start.induct)
  case (1 segs x i)
  show ?case
  proof (cases "i + 1 < length segs \<and> x \<ge> sg_start (segs ! (i + 1))")
    case True
    then have "seg_idx_start segs x i = seg_idx_start segs x (i + 1)" by (subst seg_idx_start.simps) simp
    then show ?thesis using 1 True by (metis Suc_eq_plus1 Suc_leD)
  next
    case False
    then have "seg_idx_start segs x i = i" by (subst seg_idx_start.simps) auto
    then show ?thesis using 1 False by auto
  qed
qed

lemma seg_idx_end_spec:
  "(\<forall>k < i. sg_end (segs ! k) < x) \<Longrightarrow> i \<le> length segs \<Longrightarrow>
     (\<forall>k < seg_idx_end segs x i. sg_end (segs ! k) < x) \<and> seg_idx_end segs x i \<le> length segs \<and>
     (seg_idx_end segs x i < length segs \<longrightarrow> x \<le> sg_end (segs ! seg_idx_end segs x i))"
proof (induction segs x i rule: seg_idx_end.induct)
  case (1 segs x i)
  show ?case
  proof (cases "i < length segs \<and> x > sg_end (segs ! i)")
    case True
    then have eq: "seg_idx_end segs x i = seg_idx_end segs x (i + 1)" by (subst seg_idx_end.simps) simp
    have "\<forall>k < i + 1. sg_end (segs ! k) < x" using 1(2) True by (auto simp: less_Suc_eq)
    then show ?thesis unfolding eq using 1(1) [OF True] True by simp
  next
    case False
    then have "seg_idx_end segs x i = i" by (subst seg_idx_end.simps) auto
    then show ?thesis using 1 False by auto
  qed
qed

lemma layout_order:
  assumes "sg_layout phys a e segs" "m < m'" "m' < length segs"
  shows "sg_end (segs ! m) \<le> sg_start (segs ! m')"
  using assms(2,3)
proof (induction m')
  case (Suc m')
  have "sg_start (segs ! m') < sg_end (segs ! m')" "sg_end (segs ! m') = sg_start (segs ! Suc m')"
    using sg_layoutD(6) [OF assms(1), of m'] sg_layoutD(4) [OF assms(1), of m'] Suc.prems by simp_all
  then show ?case using Suc by (cases "m = m'") auto
qed simp

lemma page_base_low: "page_base x + (ucast x AND mask 12) = ucast x"
proof -
  have "page_base x = ucast x AND NOT (mask 12)"
    by (rule bit_word_eqI) (auto simp: page_base_def PAGE_SHIFT_def bit_simps BF_GET_bit dest: bit_imp_le_length)
  then show ?thesis using unat_u32_lt [of x]
    by (intro iffD2 [OF word_eq_unat])
      (simp only: unat_word_ariths unat_and_not_mask unat_and_mask, simp add: div_mult_mod_eq)
qed

lemma ucast_diff: "s \<le> v \<Longrightarrow> (ucast (v - s) :: u64) = ucast v - ucast s" for s v :: u32
  by (rule iffD2 [OF word_eq_unat]) (simp add: unat_sub_if' word_le_nat_alt)

lemma aligned_low: "unat (x :: u32) mod 4096 = 0 \<Longrightarrow> (ucast x AND mask 12 :: u64) = 0"
  by (rule iffD2 [OF word_eq_unat]) (simp add: unat_and_mask)

text \<open>A stripe is mapped by its slices: each of its bytes lies in one of them, and those it lies in send it to its own page.\<close>

definition slice_covers :: "RabStripeSlice \<Rightarrow> u32 \<Rightarrow> bool" where
  "slice_covers c v \<longleftrightarrow> ss_addr_start c \<le> v \<and> v < ss_addr_end c"

definition stripe_good :: "u64 list \<Rightarrow> u32 \<Rightarrow> u32 \<Rightarrow> u32 \<Rightarrow> RabStripe \<Rightarrow> bool" where
  "stripe_good phys a lo hi st \<longleftrightarrow> st_n_slices st = length (slice_configs st) \<and> slice_configs st \<noteq> [] \<and>
     (\<forall>v. lo \<le> v \<and> v < hi \<longrightarrow> (\<exists>c \<in> set (slice_configs st). slice_covers c v) \<and>
        (\<forall>c \<in> set (slice_configs st). slice_covers c v \<longrightarrow> ss_addr_offset c + ucast (v - ss_addr_start c) = sg_target phys a v))"

text \<open>The offset of the first slice of a stripe. It is right if the segment begins at a page border, and for the
  first stripe of the element.\<close>

lemma first_offset:
  assumes "lo = starts ! j" "s0 = sg_start (segs ! si)" "s0 \<le> lo" "lo \<le> v"
  shows "ss_addr_offset (stripe_slice segs starts ends j si n 0) + ucast (v - lo)
    = sg_offset (segs ! si) + ucast (v - s0) + (if j \<noteq> 0 then ucast s0 AND mask 12 else - (ucast lo AND mask 12) + (ucast s0 AND mask 12))"
proof -
  have pb: "page_base x = ucast x - (ucast x AND mask 12)" for x using page_base_low [of x] by (simp add: eq_diff_eq)
  have "s0 \<le> v" using assms(3,4) by simp
  then show ?thesis
    using assms by (simp add: stripe_slice_def Let_def pb ucast_diff PAGE_SHIFT_def)
qed

lemma stripe_slices_good:
  assumes lay: "sg_layout phys a e segs" and idx: "si \<le> se" "se < length segs"
    and lo: "lo = starts ! j" "sg_start (segs ! si) \<le> lo" "Suc si < length segs \<longrightarrow> lo < sg_start (segs ! Suc si)"
    and hi: "hi = ends ! j" "hi \<le> sg_end (segs ! se)" "\<forall>k < se. sg_end (segs ! k) < hi" "hi \<le> e"
    and al: "if j = 0 then lo = sg_start (segs ! si) else unat (sg_start (segs ! si)) mod 4096 = 0"
  defines "n \<equiv> se + 1 - si"
  shows "stripe_good phys a lo hi \<lparr>st_n_slices = n, slice_configs = map (stripe_slice segs starts ends j si n) [0 ..< n]\<rparr>"
proof -
  let ?c = "stripe_slice segs starts ends j si n"
  have st: "ss_addr_start (?c k) = (if k = 0 then lo else sg_start (segs ! (si + k)))" for k
    by (simp add: stripe_slice_def lo(1))
  have en: "ss_addr_end (?c k) = (if si + k < se then sg_end (segs ! (si + k)) else hi)" if "k < n" for k
    using that idx(1) by (auto simp: stripe_slice_def hi(1) n_def)
  have in_seg: "sg_start (segs ! (si + k)) \<le> v \<and> v < sg_end (segs ! (si + k))"
    if "k < n" "slice_covers (?c k) v" for k v
  proof (cases "si + k < se")
    case True
    then show ?thesis using that st [of k] en [OF that(1)] lo(2) by (auto simp: slice_covers_def split: if_splits)
  next
    case False
    then have "si + k = se" using that(1) by (simp add: n_def)
    then show ?thesis using that st [of k] en [OF that(1)] lo(2) hi(2) by (auto simp: slice_covers_def split: if_splits)
  qed
  have off: "ss_addr_offset (?c k) + ucast (v - ss_addr_start (?c k)) = sg_target phys a v"
    if k: "k < n" and v: "slice_covers (?c k) v" for k v
  proof (cases "k = 0")
    case False
    then show ?thesis
      using sg_layoutD(7) [OF lay, of "si + k" v] in_seg [OF k v] k idx by (simp add: stripe_slice_def n_def)
  next
    case True
    have "sg_offset (segs ! si) + ucast (v - sg_start (segs ! si)) = sg_target phys a v"
      using sg_layoutD(7) [OF lay, of si v] in_seg [OF k v] idx True by simp
    moreover have "lo \<le> v" using v True st [of 0] by (simp add: slice_covers_def)
    ultimately show ?thesis
      using first_offset [OF lo(1) refl lo(2), of v ends n] al aligned_low [of "sg_start (segs ! si)"] True st [of 0]
      by (simp split: if_splits)
  qed
  have "\<exists>k < n. slice_covers (?c k) v" if v: "lo \<le> v" "v < hi" for v
  proof -
    have "a \<le> sg_start (segs ! si)"
      using sg_layoutD(1,2) [OF lay] sg_layoutD(6) [OF lay, of 0] layout_order [OF lay, of 0 si] idx by (cases "si = 0") auto
    then have "a \<le> v" "v < e" using v lo(2) hi(4) by auto
    then obtain m where m: "m < length segs" "sg_start (segs ! m) \<le> v" "v < sg_end (segs ! m)"
      using layout_covers [OF lay] by blast
    have "si \<le> m"
    proof (rule ccontr)
      assume "\<not> si \<le> m"
      then have "sg_end (segs ! m) \<le> lo" using layout_order [OF lay, of m si] idx lo(2) by (simp add: order_trans)
      then show False using m v by simp
    qed
    moreover have "m \<le> se"
    proof (rule ccontr)
      assume "\<not> m \<le> se"
      then have "sg_end (segs ! se) \<le> v" using layout_order [OF lay, of se m] m by (simp add: order_trans)
      then show False using v hi(2) by simp
    qed
    ultimately show ?thesis using st [of "m - si"] en [of "m - si"] m v
      by (intro exI [of _ "m - si"]) (auto simp: slice_covers_def n_def)
  qed
  moreover have "0 < n" using idx(1) by (simp add: n_def)
  ultimately show ?thesis unfolding stripe_good_def using off by (auto simp: Bex_def)
qed

text \<open>The stripes of an element follow each other; they may overlap and leave gaps.\<close>

definition stripes_ordered :: "u32 list \<Rightarrow> u32 list \<Rightarrow> bool" where
  "stripes_ordered starts ends \<longleftrightarrow> starts \<noteq> [] \<and> length ends = length starts \<and> sorted starts \<and> sorted ends \<and>
     (\<forall>j < length starts. starts ! j < ends ! j)"

text \<open>The segments of a stripe: the first is the one its start lies in, the last the first one that reaches its end.\<close>

lemma stripe_indices:
  assumes lay: "sg_layout phys a e segs" and lo: "a \<le> lo" "lo < hi" "hi \<le> e"
    and si: "i < length segs" "sg_start (segs ! i) \<le> lo" and se: "k \<le> length segs" "\<forall>m < k. sg_end (segs ! m) < hi"
  defines "si \<equiv> seg_idx_start segs lo i" and "se \<equiv> seg_idx_end segs hi k"
  shows "si \<le> se" "se < length segs" "sg_start (segs ! si) \<le> lo" "Suc si < length segs \<longrightarrow> lo < sg_start (segs ! Suc si)"
    "hi \<le> sg_end (segs ! se)" "\<forall>m < se. sg_end (segs ! m) < hi"
    "si = 0 \<or> unat (sg_start (segs ! si)) mod 4096 = 0" "lo = a \<Longrightarrow> si = 0"
proof -
  have s: "si < length segs" "sg_start (segs ! si) \<le> lo" "Suc si < length segs \<longrightarrow> lo < sg_start (segs ! Suc si)"
    using seg_idx_start_spec [OF si] unfolding si_def by blast+
  have e: "\<forall>m < se. sg_end (segs ! m) < hi" "se \<le> length segs" "se < length segs \<longrightarrow> hi \<le> sg_end (segs ! se)"
    using seg_idx_end_spec [OF se(2,1)] unfolding se_def by blast+
  have "se \<noteq> length segs"
  proof
    assume "se = length segs"
    then have "sg_end (segs ! (length segs - 1)) < hi" using e(1) sg_layoutD(1) [OF lay] by simp
    then show False using sg_layoutD(3) [OF lay] lo(3) by simp
  qed
  then have se': "se < length segs" "hi \<le> sg_end (segs ! se)" using e by simp_all
  show "si \<le> se"
  proof (rule ccontr)
    assume "\<not> si \<le> se"
    then have "sg_end (segs ! se) \<le> sg_start (segs ! si)" using layout_order [OF lay, of se si] s(1) by simp
    then have "hi \<le> lo" using se'(2) s(2) by simp
    then show False using lo(2) by simp
  qed
  show "lo = a \<Longrightarrow> si = 0"
  proof (rule ccontr)
    assume "lo = a" "si \<noteq> 0"
    then have "sg_end (segs ! 0) \<le> a" using layout_order [OF lay, of 0 si] s(1,2) by simp
    then show False using sg_layoutD(6) [OF lay, of 0] sg_layoutD(1,2) [OF lay] by simp
  qed
  show "si = 0 \<or> unat (sg_start (segs ! si)) mod 4096 = 0"
    using sg_layoutD(5) [OF lay, of "si - 1"] s(1) by (cases si) simp_all
  show "se < length segs" "sg_start (segs ! si) \<le> lo" "Suc si < length segs \<longrightarrow> lo < sg_start (segs ! Suc si)"
    "hi \<le> sg_end (segs ! se)" "\<forall>m < se. sg_end (segs ! m) < hi"
    by (rule se' s e)+
qed

lemma stripe_table_loop:
  assumes lay: "sg_layout phys (starts ! 0) (ends ! (length starts - 1)) segs" and ord: "stripes_ordered starts ends"
    and al: "unat (starts ! 0) mod 4096 = 0" and ok: "\<forall>j < length starts. alloc (4 + j)" and n: "n \<le> length starts"
  shows "\<exists>si se tab. foldl (stripe_step alloc segs starts ends) (Some (Inr (0, 0, []))) [0 ..< n] = Some (Inr (si, se, tab))
    \<and> length tab = n \<and> (\<forall>j < n. stripe_good phys (starts ! 0) (starts ! j) (ends ! j) (tab ! j))
    \<and> si < length segs \<and> se < length segs \<and> (\<forall>j < length starts. n \<le> Suc j \<longrightarrow>
         sg_start (segs ! si) \<le> starts ! j \<and> (\<forall>k < se. sg_end (segs ! k) < ends ! j))"
  using n
proof (induction n)
  case 0
  have "starts ! 0 \<le> starts ! j" if "j < length starts" for j
    using ord that by (simp add: stripes_ordered_def sorted_nth_mono)
  then show ?case using sg_layoutD(1,2) [OF lay] by simp
next
  case (Suc n)
  obtain si se tab where IH: "foldl (stripe_step alloc segs starts ends) (Some (Inr (0, 0, []))) [0 ..< n] = Some (Inr (si, se, tab))"
    "length tab = n" "\<forall>j < n. stripe_good phys (starts ! 0) (starts ! j) (ends ! j) (tab ! j)" "si < length segs" "se < length segs"
    and nxt: "\<forall>j < length starts. n \<le> Suc j \<longrightarrow> sg_start (segs ! si) \<le> starts ! j \<and> (\<forall>k < se. sg_end (segs ! k) < ends ! j)"
    using Suc.IH [OF Suc_leD [OF Suc.prems]] by blast
  have n: "n < length starts" using Suc.prems by simp
  have mono: "starts ! i \<le> starts ! j" "ends ! i \<le> ends ! j" if "i \<le> j" "j < length starts" for i j
    using ord that by (simp_all add: stripes_ordered_def sorted_nth_mono)
  have lt: "starts ! n < ends ! n" using ord n by (simp add: stripes_ordered_def)
  have en: "starts ! 0 \<le> starts ! n" "ends ! n \<le> ends ! (length starts - 1)" using mono n by simp_all
  have nx: "sg_start (segs ! si) \<le> starts ! n" "\<forall>k < se. sg_end (segs ! k) < ends ! n" using nxt n by simp_all
  define si' se' where "si' = seg_idx_start segs (starts ! n) si" and "se' = seg_idx_end segs (ends ! n) se"
  note ix = stripe_indices [OF lay en(1) lt en(2) IH(4) nx(1) less_imp_le [OF IH(5)] nx(2), folded si'_def se'_def]
  have al': "if n = 0 then starts ! n = sg_start (segs ! si') else unat (sg_start (segs ! si')) mod 4096 = 0"
    using ix(7,8) sg_layoutD(2) [OF lay] al by auto
  define st where "st = \<lparr>st_n_slices = se' + 1 - si', slice_configs = map (stripe_slice segs starts ends n si' (se' + 1 - si')) [0 ..< se' + 1 - si']\<rparr>"
  have good: "stripe_good phys (starts ! 0) (starts ! n) (ends ! n) st"
    unfolding st_def by (rule stripe_slices_good [OF lay ix(1,2) refl ix(3,4) refl ix(5,6) en(2) al'])
  have "foldl (stripe_step alloc segs starts ends) (Some (Inr (0, 0, []))) [0 ..< Suc n]
      = stripe_step alloc segs starts ends (Some (Inr (si, se, tab))) n" using IH(1) by simp
  also have "\<dots> = Some (Inr (si', se', tab @ [st]))"
    using n ok ix(1,2) by (simp add: stripe_step_def si'_def [symmetric] se'_def [symmetric] Let_def st_def)
  finally have fold: "foldl (stripe_step alloc segs starts ends) (Some (Inr (0, 0, []))) [0 ..< Suc n] = Some (Inr (si', se', tab @ [st]))" .
  have tab: "\<forall>j < Suc n. stripe_good phys (starts ! 0) (starts ! j) (ends ! j) ((tab @ [st]) ! j)"
    using IH(2,3) good by (simp add: nth_append less_Suc_eq)
  have "sg_start (segs ! si') \<le> starts ! j \<and> (\<forall>k < se'. sg_end (segs ! k) < ends ! j)" if "j < length starts" "Suc n \<le> Suc j" for j
    using mono [of n j] that ix(3,6) by (meson Suc_le_mono less_le_trans order_trans)
  then show ?case using fold IH(2) tab ix(1,2) by (intro exI [of _ si'] exI [of _ se'] exI [of _ "tab @ [st]"]) simp
qed

lemma striping_table:
  assumes "list_all km_ok [0 ..< 6]" "\<forall>j < length starts. alloc (4 + j)" "stripes_ordered starts ends"
    and "length phys = unat (pulp_mem_get_num_pages (starts ! 0) (ends ! (length starts - 1) - starts ! 0))"
    and "unat (starts ! 0) mod 4096 = 0"
  shows "\<exists>segs si se tab. pulp_mem_map_sg km_ok phys (starts ! 0) (ends ! (length starts - 1)) = Inr segs
    \<and> stripe_table alloc segs starts ends = Some (Inr (si, se, tab)) \<and> length tab = length starts
    \<and> (\<forall>j < length starts. stripe_good phys (starts ! 0) (starts ! j) (ends ! j) (tab ! j))"
proof -
  define a e where "a = starts ! 0" and "e = ends ! (length starts - 1)"
  have n: "0 < length starts" "length starts - 1 < length starts" using assms(3) by (auto simp: stripes_ordered_def)
  have "a \<le> starts ! (length starts - 1)"
    using assms(3) n unfolding a_def by (auto simp: stripes_ordered_def intro: sorted_nth_mono)
  then have ord: "a < e" using assms(3) n unfolding e_def stripes_ordered_def by (auto intro: le_less_trans)
  have pages: "length phys = unat (pulp_mem_get_num_pages a (e - a))" using assms(4) by (simp add: a_def e_def)
  have ne: "phys \<noteq> []" using page_within(1) [OF ord pages, of "unat a"] ord by (auto simp: word_less_nat_alt)
  define segs where "segs = sg_spec phys a e"
  have lay: "sg_layout phys (starts ! 0) (ends ! (length starts - 1)) segs"
    unfolding segs_def a_def [symmetric] e_def [symmetric] by (rule sg_spec_layout [OF ord pages])
  obtain si se tab where "stripe_table alloc segs starts ends = Some (Inr (si, se, tab))" "length tab = length starts"
    "\<forall>j < length starts. stripe_good phys (starts ! 0) (starts ! j) (ends ! j) (tab ! j)"
    using stripe_table_loop [OF lay assms(3,5,2) order.refl] unfolding stripe_table_def by blast
  moreover have "pulp_mem_map_sg km_ok phys (starts ! 0) (ends ! (length starts - 1)) = Inr segs"
    using pulp_mem_map_sg_spec [OF assms(1) ne, of a e] by (simp add: segs_def a_def e_def)
  ultimately show ?thesis by blast
qed

text \<open>C10: For an element that begins at a page border and whose stripes are in order, \<open>pulp_rab_req_striped\<close> computes a striping table
  with a non-empty list of slices for each stripe. Every byte of a stripe lies in one of the stripe's slices, and every slice
  it lies in translates it to its own physical page and page offset.\<close>

theorem stripe_table_translates:
  assumes "list_all km_ok [0 ..< 6]" "\<forall>j < length starts. alloc (4 + j)" "stripes_ordered starts ends"
    and "length phys = unat (pulp_mem_get_num_pages (starts ! 0) (ends ! (length starts - 1) - starts ! 0))"
    and "unat (starts ! 0) mod 4096 = 0"
  shows "\<exists>segs si se tab. pulp_mem_map_sg km_ok phys (starts ! 0) (ends ! (length starts - 1)) = Inr segs
    \<and> stripe_table alloc segs starts ends = Some (Inr (si, se, tab)) \<and> length tab = length starts
    \<and> (\<forall>j < length starts. st_n_slices (tab ! j) = length (slice_configs (tab ! j)) \<and> slice_configs (tab ! j) \<noteq> []
        \<and> (\<forall>v. starts ! j \<le> v \<and> v < ends ! j \<longrightarrow>
             (\<exists>c \<in> set (slice_configs (tab ! j)). ss_addr_start c \<le> v \<and> v < ss_addr_end c)
             \<and> (\<forall>c \<in> set (slice_configs (tab ! j)). ss_addr_start c \<le> v \<and> v < ss_addr_end c \<longrightarrow>
                  ss_addr_offset c + ucast (v - ss_addr_start c)
                    = phys ! (unat v div 4096 - unat (starts ! 0) div 4096) + of_nat (unat v mod 4096))))"
  using striping_table [OF assms] unfolding stripe_good_def slice_covers_def sg_target_def by blast


lemma update_effect:
  fixes update_req :: u32
  assumes "mapping_active s < length (stripe_reqs s)" "sr_elements (stripe_reqs s ! mapping_active s) = els" "elems_ok els"
  defines "mk \<equiv> ucast (BF_GET (ucast update_req) 0 8) :: u32"
  shows "\<exists>h. pulp_rab_update s update_req = s\<lparr>hw := h, stripe_reqs := (stripe_reqs s)[mapping_active s :=
      (stripe_reqs s ! mapping_active s)\<lparr>sr_elements := updated mk (length els) els\<rparr>], kern_log := kern_log s @ [MboxWrite (0x1000 OR mk)]\<rparr>
    \<and> (\<forall>i < length els. bit mk i \<longrightarrow> (\<forall>j < el_n_slices_per_stripe (els ! i).
         shows_stripe h (elem_slice (els ! i) (set_sel (els ! i)) j) (els ! i) j))
    \<and> (\<forall>k. k \<notin> touched mk (length els) els \<longrightarrow> same_regs h (hw s) k)"
proof -
  obtain h where h: "foldl (update_elem mk (mapping_active s)) s [0 ..< length els]
      = s\<lparr>hw := h, stripe_reqs := (stripe_reqs s)[mapping_active s := (stripe_reqs s ! mapping_active s)
          \<lparr>sr_elements := updated mk (length els) els\<rparr>]\<rparr>"
    "\<forall>i < length els. bit mk i \<longrightarrow> (\<forall>j < el_n_slices_per_stripe (els ! i).
         shows_stripe h (elem_slice (els ! i) (set_sel (els ! i)) j) (els ! i) j)"
    "\<forall>k. k \<notin> touched mk (length els) els \<longrightarrow> same_regs h (hw s) k"
    using update_elems [OF assms(3,1,2) order.refl, of mk] by blast
  have "pulp_rab_update s update_req = s\<lparr>hw := h, stripe_reqs := (stripe_reqs s)[mapping_active s :=
      (stripe_reqs s ! mapping_active s)\<lparr>sr_elements := updated mk (length els) els\<rparr>], kern_log := kern_log s @ [MboxWrite (0x1000 OR mk)]\<rparr>"
    using h(1) assms(2)
    by (simp add: pulp_rab_update_def pulp_rab_mapping_get_active_def RAB_UPDATE_N_BITS_ELEM_def HOST_READY_def mk_def [symmetric] Let_def)
  then show ?thesis using h(2,3) by blast
qed

lemma elem_mask_bit: "bit (ucast (BF_GET (ucast (r :: u32)) 0 8) :: u32) i \<longleftrightarrow> i < 8 \<and> bit r i"
  by (auto simp: bit_ucast_iff BF_GET_bit dest: bit_imp_le_length)


subsection \<open>Concrete elements\<close>

text \<open>An input element of three stripes, each mapped by one slice, with slices 4 and 5 as its two sets.\<close>

definition ex_stripe :: "u32 \<Rightarrow> RabStripe" where
  "ex_stripe a = \<lparr>st_n_slices = 1, slice_configs = [\<lparr>ss_addr_start = a, ss_addr_end = a + 0x1000, ss_addr_offset = ucast a + 0x70000000\<rparr>]\<rparr>"

definition ex_elem :: RabStripeElem where
  "ex_elem = \<lparr>el_id = 0, el_type = In, el_page_ptr_idx = 2, el_n_slices = 2, el_n_slices_per_stripe = 1, slice_idxs = [4, 5],
     set_offset = 1, stripe_idx = 2, el_n_stripes = 3, stripes = map ex_stripe [0x1000, 0x2000, 0x3000], el_flags_hw = 3\<rparr>"

definition ex_striped :: rab where
  "ex_striped = ex_rab\<lparr>stripe_reqs := [\<lparr>sr_id = 0, sr_elements = [ex_elem]\<rparr>, \<lparr>sr_id = 1, sr_elements = [ex_elem]\<rparr>],
     mappings := replicate 2 ((ex_mapping ((replicate 32 (ex_entry 0))[4 := (ex_entry 7)\<lparr>e_page_ptr_idx := 2, e_page_idx_end := 1\<rparr>,
        5 := (ex_entry 6)\<lparr>e_page_ptr_idx := 2, e_page_idx_end := 1\<rparr>]))
        \<lparr>page_ptrs := (replicate 32 None)[2 := Some [0x11, 0x22]], page_ptr_ref_cntrs := (replicate 32 0)[2 := 2]\<rparr>)\<rparr>"

lemma ex_striped_simps:
  "mapping_active ex_striped = 0" "stripe_reqs ex_striped = [\<lparr>sr_id = 0, sr_elements = [ex_elem]\<rparr>, \<lparr>sr_id = 1, sr_elements = [ex_elem]\<rparr>]"
  "kern_log ex_striped = []" "length (mappings ex_striped) = 2" "\<not> soc_mh_is_ena ex_striped"
  by (simp_all add: ex_striped_def ex_rab_def)

lemma ex_elem_ok: "elems_ok [ex_elem]"
  by (simp add: elems_ok_def elem_ok_def ex_elem_def n_sets_def)

lemma ex_elem_sel: "set_sel ex_elem = 1" "elem_slice ex_elem 1 0 = 5" "elem_slice ex_elem (Suc 0) 0 = 5" "elem_slice ex_elem 0 0 = 4"
    "set_sel (next_stripe ex_elem) = 0"
  by (simp_all add: set_sel_mod ex_elem_def n_sets_def elem_slice_def next_stripe_def)


theorem stripe_table_translates_witness:
  "let starts = [0x2000, 0x3800]; ends = [0x3000, 0x4400]; phys = [0x5000, 0x9000, 0x7000]
   in \<exists>segs si se tab. pulp_mem_map_sg (\<lambda>_. True) phys 0x2000 0x4400 = Inr segs
      \<and> stripe_table (\<lambda>_. True) segs starts ends = Some (Inr (si, se, tab))
      \<and> (\<exists>c \<in> set (slice_configs (tab ! 1)). ss_addr_start c \<le> 0x3900 \<and> 0x3900 < ss_addr_end c
           \<and> ss_addr_offset c + ucast (0x3900 - ss_addr_start c) = 0x9900)"
proof -
  define starts ends :: "u32 list" where "starts = [0x2000, 0x3800]" and "ends = [0x3000, 0x4400]"
  define phys :: "u64 list" where "phys = [0x5000, 0x9000, 0x7000]"
  have a: "list_all (\<lambda>_. True) [0 ..< 6 :: nat]" "\<forall>j < length starts. True" "stripes_ordered starts ends"
    "length phys = unat (pulp_mem_get_num_pages (starts ! 0) (ends ! (length starts - 1) - starts ! 0))" "unat (starts ! 0) mod 4096 = 0"
    by (auto simp: stripes_ordered_def starts_def ends_def phys_def unat_get_num_pages list_all_iff less_Suc_eq)
  obtain segs si se tab where t: "pulp_mem_map_sg (\<lambda>_. True) phys (starts ! 0) (ends ! (length starts - 1)) = Inr segs"
    "stripe_table (\<lambda>_. True) segs starts ends = Some (Inr (si, se, tab))"
    "\<forall>j < length starts. (\<forall>v. starts ! j \<le> v \<and> v < ends ! j \<longrightarrow>
             (\<exists>c \<in> set (slice_configs (tab ! j)). ss_addr_start c \<le> v \<and> v < ss_addr_end c)
             \<and> (\<forall>c \<in> set (slice_configs (tab ! j)). ss_addr_start c \<le> v \<and> v < ss_addr_end c \<longrightarrow>
                  ss_addr_offset c + ucast (v - ss_addr_start c)
                    = phys ! (unat v div 4096 - unat (starts ! 0) div 4096) + of_nat (unat v mod 4096)))"
    using stripe_table_translates [where alloc = "\<lambda>_. True", OF a] by blast
  have "starts ! 1 \<le> 0x3900 \<and> 0x3900 < ends ! 1" "1 < length starts" by (simp_all add: starts_def ends_def)
  then have "(\<exists>c \<in> set (slice_configs (tab ! 1)). ss_addr_start c \<le> 0x3900 \<and> 0x3900 < ss_addr_end c)
    \<and> (\<forall>c \<in> set (slice_configs (tab ! 1)). ss_addr_start c \<le> 0x3900 \<and> 0x3900 < ss_addr_end c \<longrightarrow>
         ss_addr_offset c + ucast (0x3900 - ss_addr_start c)
           = phys ! (unat (0x3900 :: u32) div 4096 - unat (starts ! 0) div 4096) + of_nat (unat (0x3900 :: u32) mod 4096))"
    using t(3) by blast
  moreover have "phys ! (unat (0x3900 :: u32) div 4096 - unat (starts ! 0) div 4096) + of_nat (unat (0x3900 :: u32) mod 4096) = 0x9900"
    by (simp add: phys_def starts_def)
  ultimately have "\<exists>c \<in> set (slice_configs (tab ! 1)). ss_addr_start c \<le> 0x3900 \<and> 0x3900 < ss_addr_end c
           \<and> ss_addr_offset c + ucast (0x3900 - ss_addr_start c) = 0x9900" by metis
  then show ?thesis using t(1,2) unfolding Let_def phys_def starts_def ends_def by auto
qed


end
