(* ===== verification/Drv_Mbox.thy ===== *)
theory Drv_Mbox
  imports Drv_Rab_Stripe
begin

text \<open>
  The mailbox of the Linux driver (\<open>pulp-driver/pulp_mbox.c\<close>). The accelerator sends words to the host through a hardware mailbox.
  The interrupt handler sorts them: words of a transfer to the runtime go to a software ring buffer from which the user process
  reads them (\<open>pulp_mbox_read\<close>), commands for the RAB (\<open>RAB_UPDATE\<close>, \<open>RAB_SWITCH\<close>) are carried out by the driver
  itself (\<open>Drv_Rab_Stripe\<close>).

  The record \<open>ring\<close> holds the buffer \<open>mbox_fifo\<close> with its read and write pointers as indices; \<open>mbox\<close> holds the
  other variables of the file and the registers it uses: \<open>mb_in\<close> are the words in the mailbox (\<open>RDDATA\<close> takes the first,
  \<open>STATUS\<close> tells if there is one), \<open>mb_is\<close> and \<open>mb_ie\<close> interrupt status and enable. Writing ones to the status register
  acknowledges interrupts, writing the control register flushes. \<open>mb_wakeups\<close> counts the calls that wake up readers.
\<close>

datatype MailboxMode = MBOX_OFF | MBOX_DRIVER | MBOX_USER

definition MBOX_FIFO_DEPTH :: nat where [hw_consts]: "MBOX_FIFO_DEPTH = 16"
definition MBOX_IRQ_MASK_ALL :: u32 where [hw_consts]: "MBOX_IRQ_MASK_ALL = 7"
definition MBOX_IRQ_MASK_ERROR :: u32 where [hw_consts]: "MBOX_IRQ_MASK_ERROR = 4"
definition MBOX_IRQ_MASK_READ :: u32 where [hw_consts]: "MBOX_IRQ_MASK_READ = 2"
definition MBOX_IRQ_MASK_WRITE :: u32 where [hw_consts]: "MBOX_IRQ_MASK_WRITE = 1"
definition MBOX_IRQ_MASK_NONE :: u32 where [hw_consts]: "MBOX_IRQ_MASK_NONE = 0"
definition MBOX_CTRL_MASK_FLUSH_WRITES :: u32 where [hw_consts]: "MBOX_CTRL_MASK_FLUSH_WRITES = 1"
definition MBOX_CTRL_MASK_FLUSH_READS :: u32 where [hw_consts]: "MBOX_CTRL_MASK_FLUSH_READS = 2"
definition MBOX_N_BITS_REQ_TYPE :: nat where [hw_consts]: "MBOX_N_BITS_REQ_TYPE = 4"
definition TO_RUNTIME :: u32 where [hw_consts]: "TO_RUNTIME = 0x10000000"
definition RAB_UPDATE :: u32 where [hw_consts]: "RAB_UPDATE = 0x20000000"
definition RAB_SWITCH :: u32 where [hw_consts]: "RAB_SWITCH = 0x30000000"
definition ERESTARTSYS :: int where [hw_consts]: "ERESTARTSYS = 512"

record ring =
  mbox_fifo :: "u32 list"
  mbox_fifo_full :: bool
  mbox_fifo_rd :: nat
  mbox_fifo_wr :: nat

record mbox =
  mbox_mode :: MailboxMode
  mbox_ring :: ring
  n_words_written :: u32
  n_words_to_write :: u32
  mb_in :: "u32 list"
  mb_is :: u32
  mb_ie :: u32
  mb_wakeups :: nat
  mb_rab :: rab

subsection \<open>Registers\<close>

definition pulp_mbox_empty :: "mbox \<Rightarrow> bool" where "pulp_mbox_empty s \<longleftrightarrow> mb_in s = []"

definition pulp_mbox_rddata :: "mbox \<Rightarrow> u32 \<times> mbox" where "pulp_mbox_rddata s = (hd (mb_in s), s\<lparr>mb_in := tl (mb_in s)\<rparr>)"

definition pulp_mbox_irqs :: "mbox \<Rightarrow> u32" where "pulp_mbox_irqs s = mb_is s"

definition pulp_mbox_set_irqs :: "u32 \<Rightarrow> mbox \<Rightarrow> mbox" where "pulp_mbox_set_irqs val s = s\<lparr>mb_is := mb_is s AND NOT val\<rparr>"

definition pulp_mbox_ack_read_irq :: "mbox \<Rightarrow> mbox" where "pulp_mbox_ack_read_irq = pulp_mbox_set_irqs MBOX_IRQ_MASK_READ"

definition pulp_mbox_ack_write_irq :: "mbox \<Rightarrow> mbox" where "pulp_mbox_ack_write_irq = pulp_mbox_set_irqs MBOX_IRQ_MASK_WRITE"

definition pulp_mbox_ack_error_irq :: "mbox \<Rightarrow> mbox" where "pulp_mbox_ack_error_irq = pulp_mbox_set_irqs MBOX_IRQ_MASK_ERROR"

definition pulp_mbox_set_irqen :: "u32 \<Rightarrow> mbox \<Rightarrow> mbox" where "pulp_mbox_set_irqen val s = s\<lparr>mb_ie := val\<rparr>"

definition pulp_mbox_set_ctrl :: "u32 \<Rightarrow> mbox \<Rightarrow> mbox" where
  "pulp_mbox_set_ctrl val s = (if val AND MBOX_CTRL_MASK_FLUSH_READS \<noteq> 0 then s\<lparr>mb_in := []\<rparr> else s)"

definition MBOX_GET_REQ_TYPE :: "u32 \<Rightarrow> u32" where
  "MBOX_GET_REQ_TYPE request =
     push_bit (32 - MBOX_N_BITS_REQ_TYPE) (ucast (BF_GET (ucast request) (32 - MBOX_N_BITS_REQ_TYPE) MBOX_N_BITS_REQ_TYPE))"

definition MBOX_GET_N_WORDS :: "u32 \<Rightarrow> u32" where
  "MBOX_GET_N_WORDS request = ucast (BF_GET (ucast request) 0 (32 - MBOX_N_BITS_REQ_TYPE))"

subsection \<open>Operations\<close>

definition pulp_mbox_set_mode :: "MailboxMode \<Rightarrow> mbox \<Rightarrow> int \<times> mbox" where
  "pulp_mbox_set_mode mode s =
     (let s = s\<lparr>mbox_mode := mode\<rparr>
      in (0, if mode = MBOX_OFF then pulp_mbox_set_irqen MBOX_IRQ_MASK_NONE s
             else pulp_mbox_set_irqen (MBOX_IRQ_MASK_READ OR MBOX_IRQ_MASK_ERROR) s))"

definition pulp_mbox_get_mode :: "mbox \<Rightarrow> MailboxMode" where "pulp_mbox_get_mode s = mbox_mode s"

definition pulp_mbox_clear :: "mbox \<Rightarrow> mbox" where
  "pulp_mbox_clear s =
     pulp_mbox_set_irqs MBOX_IRQ_MASK_ALL (pulp_mbox_set_ctrl (MBOX_CTRL_MASK_FLUSH_WRITES OR MBOX_CTRL_MASK_FLUSH_READS)
       (s\<lparr>mbox_ring := (mbox_ring s)\<lparr>mbox_fifo_wr := 0, mbox_fifo_rd := 0, mbox_fifo_full := False\<rparr>,
          n_words_written := 0, n_words_to_write := 0\<rparr>))"

definition pulp_mbox_init :: "mbox \<Rightarrow> mbox" where
  "pulp_mbox_init s = pulp_mbox_clear (s\<lparr>mbox_mode := MBOX_OFF, mbox_ring := (mbox_ring s)\<lparr>mbox_fifo_full := False\<rparr>\<rparr>)"

text \<open>Writing a word to the ring buffer.\<close>

definition mbox_fifo_put :: "u32 \<Rightarrow> ring \<Rightarrow> ring" where
  "mbox_fifo_put mbox_data r =
     (let r = r\<lparr>mbox_fifo := (mbox_fifo r)[mbox_fifo_wr r := mbox_data], mbox_fifo_wr := mbox_fifo_wr r + 1\<rparr>;
          r = (if mbox_fifo_wr r \<ge> 2 * MBOX_FIFO_DEPTH then r\<lparr>mbox_fifo_wr := 0\<rparr> else r)
      in if mbox_fifo_wr r = mbox_fifo_rd r then r\<lparr>mbox_fifo_full := True\<rparr> else r)"

text \<open>One pass of the loop that empties the mailbox; the same loop stands in \<open>pulp_mbox_intr\<close> and \<open>pulp_mbox_read\<close>. The second
  component counts the words written to the ring buffer.\<close>

definition mbox_word :: "mbox \<times> nat \<Rightarrow> mbox \<times> nat" where
  "mbox_word x =
     (let (s, n) = x; (mbox_data, s) = pulp_mbox_rddata s in
      if n_words_written s = n_words_to_write s
      then let req_type = MBOX_GET_REQ_TYPE mbox_data
           in if req_type = TO_RUNTIME then (s\<lparr>n_words_to_write := MBOX_GET_N_WORDS mbox_data, n_words_written := 0\<rparr>, n)
              else if req_type = RAB_UPDATE then (s\<lparr>mb_rab := pulp_rab_update (mb_rab s) mbox_data\<rparr>, n)
              else if req_type = RAB_SWITCH then (s\<lparr>mb_rab := pulp_rab_switch (mb_rab s)\<rparr>, n)
              else (s, n)
      else (s\<lparr>mbox_ring := mbox_fifo_put mbox_data (mbox_ring s), n_words_written := n_words_written s + 1\<rparr>, n + 1))"

lemma mbox_word_in: "mb_in (fst (mbox_word (s, n))) = tl (mb_in s)"
  by (simp add: mbox_word_def pulp_mbox_rddata_def Let_def)

function mbox_drain :: "mbox \<times> nat \<Rightarrow> mbox \<times> nat" where
  "mbox_drain x = (if \<not> pulp_mbox_empty (fst x) \<and> \<not> mbox_fifo_full (mbox_ring (fst x)) then mbox_drain (mbox_word x) else x)"
  by pat_completeness auto
termination
proof (relation "measure (\<lambda>x. length (mb_in (fst x)))")
  fix x :: "mbox \<times> nat" assume "\<not> pulp_mbox_empty (fst x) \<and> \<not> mbox_fifo_full (mbox_ring (fst x))"
  then show "(mbox_word x, x) \<in> measure (\<lambda>x. length (mb_in (fst x)))"
    using mbox_word_in [of "fst x" "snd x"] by (simp add: pulp_mbox_empty_def)
qed simp

declare mbox_drain.simps [simp del]

definition pulp_mbox_intr :: "mbox \<Rightarrow> mbox" where
  "pulp_mbox_intr s =
     (if mbox_mode s = MBOX_OFF then snd (pulp_mbox_set_mode MBOX_OFF s)
      else
        let mbox_is = pulp_mbox_irqs s
        in if mbox_is AND MBOX_IRQ_MASK_READ \<noteq> 0
           then let (s, n_words_written_tmp) = mbox_drain (s, 0); s = pulp_mbox_ack_read_irq s
                in if n_words_written_tmp \<noteq> 0 then s\<lparr>mb_wakeups := mb_wakeups s + 1\<rparr> else s
           else if mbox_is AND MBOX_IRQ_MASK_ERROR \<noteq> 0 then pulp_mbox_ack_error_irq s
           else pulp_mbox_ack_write_irq s)"

text \<open>
  Reading has two critical sections with the copy to user space between them. The first gives the number of bytes that will be
  copied, an error, or \<open>None\<close> while the process sleeps; \<open>sig\<close> tells that a signal arrives. In between the words
  from the read pointer on are copied. The second gets the number of bytes that could not be copied.
\<close>

definition mbox_read_begin :: "bool \<Rightarrow> bool \<Rightarrow> nat \<Rightarrow> mbox \<Rightarrow> (int + nat) option" where
  "mbox_read_begin nonblock sig count s =
     (let r = mbox_ring s in
      if mbox_fifo_wr r = mbox_fifo_rd r \<and> \<not> mbox_fifo_full r
      then if nonblock then Some (Inl (- EAGAIN)) else if sig then Some (Inl (- ERESTARTSYS)) else None
      else if mbox_fifo_wr r > mbox_fifo_rd r then Some (Inr (min count ((mbox_fifo_wr r - mbox_fifo_rd r) * 4)))
      else Some (Inr (min count ((2 * MBOX_FIFO_DEPTH - mbox_fifo_rd r) * 4))))"

definition mbox_copied :: "nat \<Rightarrow> nat \<Rightarrow> mbox \<Rightarrow> u32 list" where
  "mbox_copied count not_copied s = take ((count - not_copied) div 4) (drop (mbox_fifo_rd (mbox_ring s)) (mbox_fifo (mbox_ring s)))"

definition mbox_fifo_get :: "nat \<Rightarrow> ring \<Rightarrow> ring" where
  "mbox_fifo_get n r =
     (let r = r\<lparr>mbox_fifo_rd := mbox_fifo_rd r + n\<rparr>
      in if mbox_fifo_rd r \<ge> 2 * MBOX_FIFO_DEPTH then r\<lparr>mbox_fifo_rd := 0\<rparr> else r)"

definition mbox_read_end :: "nat \<Rightarrow> nat \<Rightarrow> mbox \<Rightarrow> int \<times> mbox" where
  "mbox_read_end count not_copied s =
     (let n = (count - not_copied) div 4;
          s = s\<lparr>mbox_ring := mbox_fifo_get n (mbox_ring s)\<rparr>;
          s = (if mbox_fifo_full (mbox_ring s) \<and> n > 0
               then fst (mbox_drain (s\<lparr>mbox_ring := (mbox_ring s)\<lparr>mbox_fifo_full := False\<rparr>\<rparr>, 0)) else s)
      in (if not_copied \<noteq> 0 then - EFAULT else int count, s))"

text \<open>A read that is not interrupted: the result, the copied words, the new state; \<open>None\<close> while the process sleeps.\<close>

definition pulp_mbox_read :: "bool \<Rightarrow> bool \<Rightarrow> nat \<Rightarrow> (nat \<Rightarrow> nat) \<Rightarrow> mbox \<Rightarrow> (int \<times> u32 list \<times> mbox) option" where
  "pulp_mbox_read nonblock sig count copy_to_user s =
     (case mbox_read_begin nonblock sig count s of
        None \<Rightarrow> None
      | Some (Inl err) \<Rightarrow> Some (err, [], s)
      | Some (Inr count) \<Rightarrow>
          (let not_copied = copy_to_user count; (ret, s') = mbox_read_end count not_copied s
           in Some (ret, mbox_copied count not_copied s, s')))"

subsection \<open>The ring buffer is a queue\<close>

text \<open>What the mailbox relies on: an implementation of a bounded queue with its contents in order.\<close>

locale bounded_queue =
  fixes ok :: "'r \<Rightarrow> bool" and contents :: "'r \<Rightarrow> 'a list" and capacity :: nat
    and full :: "'r \<Rightarrow> bool" and put :: "'a \<Rightarrow> 'r \<Rightarrow> 'r" and chunk :: "'r \<Rightarrow> 'a list" and get :: "nat \<Rightarrow> 'r \<Rightarrow> 'r"
  assumes full_iff: "ok r \<Longrightarrow> full r \<longleftrightarrow> length (contents r) = capacity"
    and bounded: "ok r \<Longrightarrow> length (contents r) \<le> capacity"
    and put: "ok r \<Longrightarrow> \<not> full r \<Longrightarrow> ok (put x r) \<and> contents (put x r) = contents r @ [x]"
    and chunk: "ok r \<Longrightarrow> chunk r = take (length (chunk r)) (contents r)"
    and chunk_empty: "ok r \<Longrightarrow> chunk r = [] \<longleftrightarrow> contents r = []"
    and get: "ok r \<Longrightarrow> n \<le> length (chunk r) \<Longrightarrow> ok (get n r) \<and> contents (get n r) = drop n (contents r)"
begin

lemma put_chunk: "ok r \<Longrightarrow> \<not> full r \<Longrightarrow> n \<le> length (chunk r) \<Longrightarrow> n \<le> length (contents (put x r))"
proof -
  assume r: "ok r" "\<not> full r" "n \<le> length (chunk r)"
  have "length (chunk r) \<le> length (contents r)" by (metis chunk [OF r(1)] length_take min.cobounded1)
  then show ?thesis using put [OF r(1,2)] r(3) by simp
qed

lemma get_delivers: "ok r \<Longrightarrow> n \<le> length (chunk r) \<Longrightarrow> take n (chunk r) @ contents (get n r) = contents r"
proof -
  assume r: "ok r" "n \<le> length (chunk r)"
  have "take n (chunk r) = take n (contents r)" using chunk [OF r(1)] r(2) by (metis min.absorb1 take_take)
  then show ?thesis using get [OF r] by simp
qed

end

definition ring_count :: "ring \<Rightarrow> nat" where
  "ring_count r = (if mbox_fifo_full r then 32 else if mbox_fifo_rd r \<le> mbox_fifo_wr r then mbox_fifo_wr r - mbox_fifo_rd r
     else mbox_fifo_wr r + 32 - mbox_fifo_rd r)"

definition ring_contents :: "ring \<Rightarrow> u32 list" where
  "ring_contents r = take (ring_count r) (drop (mbox_fifo_rd r) (mbox_fifo r) @ mbox_fifo r)"

definition ring_ok :: "ring \<Rightarrow> bool" where
  "ring_ok r \<longleftrightarrow> length (mbox_fifo r) = 32 \<and> mbox_fifo_rd r < 32 \<and> mbox_fifo_wr r < 32
     \<and> (mbox_fifo_full r \<longrightarrow> mbox_fifo_wr r = mbox_fifo_rd r)"

text \<open>The words that can be read at once: up to the write pointer or the end of the buffer.\<close>

definition ring_avail :: "ring \<Rightarrow> nat" where
  "ring_avail r = (if mbox_fifo_wr r = mbox_fifo_rd r \<and> \<not> mbox_fifo_full r then 0
     else if mbox_fifo_wr r > mbox_fifo_rd r then mbox_fifo_wr r - mbox_fifo_rd r else 32 - mbox_fifo_rd r)"

definition ring_chunk :: "ring \<Rightarrow> u32 list" where
  "ring_chunk r = take (ring_avail r) (drop (mbox_fifo_rd r) (mbox_fifo r))"

text \<open>Taking words also resets the flag, as \<open>pulp_mbox_read\<close> does.\<close>

definition ring_get :: "nat \<Rightarrow> ring \<Rightarrow> ring" where
  "ring_get n r = (let r = mbox_fifo_get n r in if mbox_fifo_full r \<and> n > 0 then r\<lparr>mbox_fifo_full := False\<rparr> else r)"

lemma ring_count_le: "ring_ok r \<Longrightarrow> ring_count r \<le> 32 \<and> (mbox_fifo_full r \<longleftrightarrow> ring_count r = 32)"
  by (auto simp: ring_ok_def ring_count_def)

lemma ring_contents_length: "ring_ok r \<Longrightarrow> length (ring_contents r) = ring_count r"
  using ring_count_le [of r] by (auto simp: ring_contents_def ring_ok_def min_def simp del: take_append)

lemma ring_contents_nth:
  assumes "ring_ok r" "i < ring_count r"
  shows "ring_contents r ! i = mbox_fifo r ! ((mbox_fifo_rd r + i) mod 32)"
proof -
  have len: "length (mbox_fifo r) = 32" "mbox_fifo_rd r < 32" "i < 32" using assms ring_count_le [of r] by (auto simp: ring_ok_def)
  show ?thesis
  proof (cases "mbox_fifo_rd r + i < 32")
    case True
    then have "i < 32 - mbox_fifo_rd r" by simp
    then show ?thesis using True assms len by (simp add: ring_contents_def nth_append del: take_append)
  next
    case False
    then have "(mbox_fifo_rd r + i) mod 32 = i - (32 - mbox_fifo_rd r)" "\<not> i < 32 - mbox_fifo_rd r" using len by (auto simp: mod_if)
    then show ?thesis using assms False len by (simp add: ring_contents_def nth_append add.commute del: take_append)
  qed
qed

lemma ring_count_mod: "ring_ok r \<Longrightarrow> \<not> mbox_fifo_full r \<Longrightarrow> mbox_fifo_wr r = (mbox_fifo_rd r + ring_count r) mod 32"
  by (auto simp: ring_ok_def ring_count_def mod_if)

lemma ring_put:
  assumes "ring_ok r" "\<not> mbox_fifo_full r"
  shows "ring_ok (mbox_fifo_put w r) \<and> ring_contents (mbox_fifo_put w r) = ring_contents r @ [w]"
proof -
  define r' where "r' = mbox_fifo_put w r"
  have f: "mbox_fifo r' = (mbox_fifo r)[mbox_fifo_wr r := w]" "mbox_fifo_rd r' = mbox_fifo_rd r"
    by (simp_all add: r'_def mbox_fifo_put_def Let_def)
  have ok: "ring_ok r'" and cnt: "ring_count r' = Suc (ring_count r)"
    using assms by (auto simp: r'_def mbox_fifo_put_def ring_ok_def ring_count_def Let_def MBOX_FIFO_DEPTH_def)
  have "ring_contents r' ! i = (ring_contents r @ [w]) ! i" if i: "i < Suc (ring_count r)" for i
  proof -
    have n: "ring_count r < 32" using assms ring_count_le [of r] by auto
    have wr: "mbox_fifo_wr r = (mbox_fifo_rd r + ring_count r) mod 32" by (rule ring_count_mod [OF assms])
    have "(mbox_fifo_rd r + i) mod 32 = mbox_fifo_wr r \<longleftrightarrow> i = ring_count r"
      using i n assms(1) unfolding wr ring_ok_def by (auto simp: mod_if split: if_splits)
    then show ?thesis
      using i ring_contents_nth [OF ok, of i] ring_contents_nth [OF assms(1), of i] assms(1) ring_contents_length [OF assms(1)]
      unfolding cnt f by (cases "i = ring_count r") (auto simp: nth_append ring_ok_def less_Suc_eq)
  qed
  then have "ring_contents r' = ring_contents r @ [w]"
    using ring_contents_length [OF ok] ring_contents_length [OF assms(1)] cnt by (intro nth_equalityI) simp_all
  then show ?thesis using ok by (simp add: r'_def)
qed

lemma ring_avail:
  assumes "ring_ok r"
  shows "ring_avail r \<le> ring_count r" "mbox_fifo_rd r + ring_avail r \<le> 32" "length (ring_chunk r) = ring_avail r"
    "ring_avail r = 0 \<longleftrightarrow> ring_count r = 0"
  using assms by (auto simp: ring_avail_def ring_count_def ring_ok_def ring_chunk_def)

lemma ring_chunk_contents:
  assumes "ring_ok r"
  shows "ring_chunk r = take (length (ring_chunk r)) (ring_contents r)"
proof -
  have "ring_avail r \<le> length (drop (mbox_fifo_rd r) (mbox_fifo r))" using ring_avail(2) [OF assms] assms by (simp add: ring_ok_def)
  then show ?thesis using ring_avail(1) [OF assms] unfolding ring_avail(3) [OF assms] ring_contents_def ring_chunk_def by (simp add: min_def)
qed

lemma ring_get_ok:
  assumes "ring_ok r" "n \<le> length (ring_chunk r)"
  shows "ring_ok (ring_get n r) \<and> ring_contents (ring_get n r) = drop n (ring_contents r)"
proof -
  define r' where "r' = ring_get n r"
  have n: "n \<le> ring_avail r" "n \<le> ring_count r" "mbox_fifo_rd r + n \<le> 32" using assms ring_avail [OF assms(1)] by auto
  have rd: "mbox_fifo_rd r' = (if mbox_fifo_rd r + n = 32 then 0 else mbox_fifo_rd r + n)"
    using n(3) by (simp add: r'_def ring_get_def mbox_fifo_get_def Let_def MBOX_FIFO_DEPTH_def)
  have f: "mbox_fifo r' = mbox_fifo r" "mbox_fifo_wr r' = mbox_fifo_wr r" "mbox_fifo_full r' \<longleftrightarrow> mbox_fifo_full r \<and> n = 0"
    by (auto simp: r'_def ring_get_def mbox_fifo_get_def Let_def)
  have ok: "ring_ok r'" using assms(1) n(3) unfolding ring_ok_def rd f by auto
  have cnt: "ring_count r' = ring_count r - n"
    using assms(1) n(1) unfolding ring_count_def ring_avail_def rd f ring_ok_def
    by (cases "n = 0"; cases "mbox_fifo_full r"; cases "mbox_fifo_rd r < mbox_fifo_wr r"; cases "mbox_fifo_rd r + n = 32")
      (simp_all split: if_splits, arith+)
  have md: "mbox_fifo_rd r' = (mbox_fifo_rd r + n) mod 32" using n(3) unfolding rd by auto
  have "ring_contents r' ! i = drop n (ring_contents r) ! i" if "i < ring_count r - n" for i
    using that ring_contents_nth [OF ok, of i] ring_contents_nth [OF assms(1), of "n + i"] ring_contents_length [OF assms(1)] n
    unfolding cnt f md by (simp add: mod_add_left_eq add.assoc)
  then have "ring_contents r' = drop n (ring_contents r)"
    using ring_contents_length [OF ok] ring_contents_length [OF assms(1)] cnt by (intro nth_equalityI) simp_all
  then show ?thesis using ok by (simp add: r'_def)
qed

interpretation mb: bounded_queue ring_ok ring_contents 32 mbox_fifo_full mbox_fifo_put ring_chunk ring_get
proof
  fix r :: ring assume ok: "ring_ok r"
  show "mbox_fifo_full r \<longleftrightarrow> length (ring_contents r) = 32" "length (ring_contents r) \<le> 32"
    using ring_count_le [OF ok] ring_contents_length [OF ok] by auto
  show "ring_chunk r = [] \<longleftrightarrow> ring_contents r = []"
    using ring_avail(3,4) [OF ok] ring_contents_length [OF ok] by (metis length_0_conv)
qed (rule ring_put ring_chunk_contents ring_get_ok; assumption)+

subsection \<open>The stream of words\<close>

text \<open>
  What the words of the mailbox mean, for a stream in which \<open>n\<close> more words belong to a transfer: the words for the runtime, the
  commands for the RAB, and the number of words that the current transfer still lacks. The type of a request is in the
  four upper bits.
\<close>

datatype rab_cmd = Update u32 | Switch

definition word_type :: "u32 \<Rightarrow> nat" where "word_type w = unat w div 2 ^ 28"
definition word_len :: "u32 \<Rightarrow> nat" where "word_len w = unat w mod 2 ^ 28"

definition next_len :: "nat \<Rightarrow> u32 \<Rightarrow> nat" where
  "next_len n w = (if n = 0 then if word_type w = 1 then word_len w else 0 else n - 1)"

primrec payload :: "nat \<Rightarrow> u32 list \<Rightarrow> u32 list" where
  "payload n [] = []"
| "payload n (w # ws) = (if n = 0 then payload (next_len n w) ws else w # payload (next_len n w) ws)"

definition word_cmds :: "nat \<Rightarrow> u32 \<Rightarrow> rab_cmd list" where
  "word_cmds n w = (if n = 0 \<and> word_type w = 2 then [Update w] else if n = 0 \<and> word_type w = 3 then [Switch] else [])"

primrec commands :: "nat \<Rightarrow> u32 list \<Rightarrow> rab_cmd list" where
  "commands n [] = []"
| "commands n (w # ws) = word_cmds n w @ commands (next_len n w) ws"

definition do_cmd :: "rab \<Rightarrow> rab_cmd \<Rightarrow> rab" where
  "do_cmd r c = (case c of Update w \<Rightarrow> pulp_rab_update r w | Switch \<Rightarrow> pulp_rab_switch r)"

lemma payload_snoc: "payload n (ws @ [w]) = payload n ws @ (if foldl next_len n ws = 0 then [] else [w])"
  by (induction ws arbitrary: n) simp_all

lemma commands_snoc: "commands n (ws @ [w]) = commands n ws @ word_cmds (foldl next_len n ws) w"
  by (induction ws arbitrary: n) simp_all

lemma req_type: "MBOX_GET_REQ_TYPE w = push_bit 28 (drop_bit 28 w)"
  by (rule bit_word_eqI) (auto simp: MBOX_GET_REQ_TYPE_def bit_simps BF_GET_bit MBOX_N_BITS_REQ_TYPE_def)

lemma req_type_unat: "unat (MBOX_GET_REQ_TYPE w) = 2 ^ 28 * word_type w"
proof -
  have "unat (drop_bit 28 w) = word_type w" by (simp add: drop_bit_eq_div word_type_def unat_div_distrib)
  moreover have "word_type w < 16" using unat_u32_lt [of w] by (simp add: word_type_def less_mult_imp_div_less)
  ultimately show ?thesis unfolding req_type
    by (simp add: push_bit_eq_mult unat_word_ariths mult.commute)
qed

lemma req_type_is:
  "MBOX_GET_REQ_TYPE w = TO_RUNTIME \<longleftrightarrow> word_type w = 1" "MBOX_GET_REQ_TYPE w = RAB_UPDATE \<longleftrightarrow> word_type w = 2"
  "MBOX_GET_REQ_TYPE w = RAB_SWITCH \<longleftrightarrow> word_type w = 3"
  by (simp_all add: word_eq_unat req_type_unat TO_RUNTIME_def RAB_UPDATE_def RAB_SWITCH_def)

lemma n_words_unat: "unat (MBOX_GET_N_WORDS w) = word_len w"
proof -
  have "MBOX_GET_N_WORDS w = take_bit 28 w"
    by (rule bit_word_eqI) (auto simp: MBOX_GET_N_WORDS_def bit_simps BF_GET_bit MBOX_N_BITS_REQ_TYPE_def)
  then show ?thesis by (simp add: take_bit_eq_mod word_len_def unat_mod_distrib)
qed

text \<open>
  Runs of the mailbox: words arrive in the hardware at any time; the two loops take one word at a time whenever the mailbox is not
  empty and the ring buffer not full; interrupt registers, mode and wake-ups change arbitrarily; a reader goes through its two
  critical sections with the copy between them. \<open>arrived\<close> are the words the accelerator has sent, \<open>delivered\<close>
  those that the reader has got.
\<close>

datatype reader = Idle | Begun nat | Copied nat nat "u32 list"

inductive mbox_run :: "mbox \<Rightarrow> u32 list \<Rightarrow> u32 list \<Rightarrow> reader \<Rightarrow> mbox \<Rightarrow> bool" for s0 where
  init: "length (mbox_fifo (mbox_ring s0)) = 32 \<Longrightarrow> mbox_run s0 [] [] Idle (pulp_mbox_init s0)"
| arrive: "mbox_run s0 a d p s \<Longrightarrow> mbox_run s0 (a @ [w]) d p (s\<lparr>mb_in := mb_in s @ [w]\<rparr>)"
| word: "mbox_run s0 a d p s \<Longrightarrow> mb_in s \<noteq> [] \<Longrightarrow> \<not> mbox_fifo_full (mbox_ring s) \<Longrightarrow> mbox_run s0 a d p (fst (mbox_word (s, n)))"
| irq: "mbox_run s0 a d p s \<Longrightarrow> mbox_run s0 a d p (s\<lparr>mbox_mode := m, mb_is := x, mb_ie := e, mb_wakeups := k\<rparr>)"
| start: "mbox_run s0 a d Idle s \<Longrightarrow> mbox_read_begin nonblock sig count s = Some (Inr c) \<Longrightarrow> mbox_run s0 a d (Begun c) s"
| copy: "mbox_run s0 a d (Begun c) s \<Longrightarrow> nc \<le> c \<Longrightarrow> mbox_run s0 a d (Copied c nc (mbox_copied c nc s)) s"
| finish: "mbox_run s0 a d (Copied c nc ws) s \<Longrightarrow>
    mbox_run s0 a (d @ ws) Idle (s\<lparr>mbox_ring := ring_get ((c - nc) div 4) (mbox_ring s)\<rparr>)"

text \<open>What the reader relies on between its steps: the words it is going to take are at the front of the queue, whatever arrives.\<close>

definition reader_ok :: "reader \<Rightarrow> ring \<Rightarrow> bool" where
  "reader_ok p r = (case p of Idle \<Rightarrow> True | Begun c \<Rightarrow> c \<le> 4 * ring_avail r
     | Copied c nc ws \<Rightarrow> nc \<le> c \<and> c \<le> 4 * ring_avail r \<and> ws = take ((c - nc) div 4) (ring_contents r))"

definition mbox_inv :: "rab \<Rightarrow> u32 list \<Rightarrow> u32 list \<Rightarrow> reader \<Rightarrow> mbox \<Rightarrow> nat \<Rightarrow> bool" where
  "mbox_inv r0 a d p s k \<longleftrightarrow> ring_ok (mbox_ring s) \<and> reader_ok p (mbox_ring s) \<and> k \<le> length a \<and> mb_in s = drop k a
     \<and> d @ ring_contents (mbox_ring s) = payload 0 (take k a) \<and> mb_rab s = foldl do_cmd r0 (commands 0 (take k a))
     \<and> unat (n_words_written s) \<le> unat (n_words_to_write s)
     \<and> foldl next_len 0 (take k a) = unat (n_words_to_write s) - unat (n_words_written s)"

lemma ring_avail_put: "ring_ok r \<Longrightarrow> \<not> mbox_fifo_full r \<Longrightarrow> ring_avail r \<le> ring_avail (mbox_fifo_put w r)"
  by (auto simp: ring_ok_def ring_avail_def mbox_fifo_put_def Let_def MBOX_FIFO_DEPTH_def)

lemma reader_ok_put:
  assumes "ring_ok r" "\<not> mbox_fifo_full r" "reader_ok p r"
  shows "reader_ok p (mbox_fifo_put w r)"
proof -
  have av: "ring_avail r \<le> ring_avail (mbox_fifo_put w r)" by (rule ring_avail_put [OF assms(1,2)])
  have "take n (ring_contents (mbox_fifo_put w r)) = take n (ring_contents r)" if "n \<le> ring_avail r" for n
    using ring_put [OF assms(1,2), of w] that ring_avail(1) [OF assms(1)] ring_contents_length [OF assms(1)] by simp
  moreover have "(c - nc) div 4 \<le> ring_avail r" if "c \<le> 4 * ring_avail r" for c nc :: nat using that by linarith
  ultimately show ?thesis using assms(3) av by (auto simp: reader_ok_def split: reader.splits)
qed

lemma mbox_word_inv:
  assumes "mbox_inv r0 a d p s k" "mb_in s \<noteq> []" "\<not> mbox_fifo_full (mbox_ring s)"
  shows "mbox_inv r0 a d p (fst (mbox_word (s, n))) (Suc k)"
proof -
  define w m c where "w = a ! k" and "m = foldl next_len 0 (take k a)" and "c = commands 0 (take k a)"
  have k: "k < length a" using assms(1,2) by (auto simp: mbox_inv_def)
  then have inn: "mb_in s = w # drop (Suc k) a" and eqs: "take (Suc k) a = take k a @ [w]"
    using assms(1) by (simp_all add: mbox_inv_def w_def Cons_nth_drop_Suc take_Suc_conv_app_nth)
  have q: "ring_ok (mbox_ring s)" "reader_ok p (mbox_ring s)" "d @ ring_contents (mbox_ring s) = payload 0 (take k a)"
    "mb_rab s = foldl do_cmd r0 c" and m: "m = unat (n_words_to_write s) - unat (n_words_written s)"
    "unat (n_words_written s) \<le> unat (n_words_to_write s)"
    using assms(1) by (simp_all add: mbox_inv_def m_def c_def)
  have m0: "n_words_written s = n_words_to_write s \<longleftrightarrow> m = 0" using m by (auto simp: word_eq_unat)
  note spec = payload_snoc commands_snoc m_def [symmetric] c_def [symmetric]
  show ?thesis
  proof (cases "m = 0")
    case True
    have "fst (mbox_word (s, n)) = s\<lparr>mb_in := drop (Suc k) a,
        n_words_to_write := (if word_type w = 1 then MBOX_GET_N_WORDS w else n_words_to_write s),
        n_words_written := (if word_type w = 1 then 0 else n_words_written s), mb_rab := foldl do_cmd (mb_rab s) (word_cmds 0 w)\<rparr>"
      using True m0 by (simp add: mbox_word_def pulp_mbox_rddata_def inn req_type_is word_cmds_def do_cmd_def)
    then show ?thesis using q True k m0 by (simp add: mbox_inv_def eqs spec next_len_def n_words_unat)
  next
    case False
    have "fst (mbox_word (s, n)) = s\<lparr>mb_in := drop (Suc k) a, mbox_ring := mbox_fifo_put w (mbox_ring s), n_words_written := n_words_written s + 1\<rparr>"
      using False m0 by (simp add: mbox_word_def pulp_mbox_rddata_def inn)
    moreover have "unat (n_words_written s + 1) = unat (n_words_written s) + 1"
      using False m unat_u32_lt [of "n_words_to_write s"] by (simp add: unat_word_ariths)
    moreover have "d @ ring_contents (mbox_fifo_put w (mbox_ring s)) = payload 0 (take k a) @ [w]"
      using ring_put [OF q(1) assms(3), of w] q(3) by simp
    ultimately show ?thesis
      using q False k m ring_put [OF q(1) assms(3), of w] reader_ok_put [OF q(1) assms(3) q(2), of w]
      by (simp add: mbox_inv_def eqs spec next_len_def word_cmds_def)
  qed
qed

lemma reader_chunk: "ring_ok r \<Longrightarrow> n \<le> ring_avail r \<Longrightarrow> take n (drop (mbox_fifo_rd r) (mbox_fifo r)) = take n (ring_contents r)"
  using ring_chunk_contents [of r] ring_avail(3) [of r] unfolding ring_chunk_def by (metis min.absorb1 take_take)

lemma read_begin_avail: "mbox_read_begin nonblock sig count s = Some (Inr c) \<Longrightarrow> c \<le> 4 * ring_avail (mbox_ring s)"
  by (auto simp: mbox_read_begin_def ring_avail_def MBOX_FIFO_DEPTH_def Let_def split: if_splits)

lemma mbox_run_inv: "mbox_run s0 a d p s \<Longrightarrow> \<exists>k. mbox_inv (mb_rab s0) a d p s k"
proof (induction rule: mbox_run.induct)
  case init
  then show ?case
    by (intro exI [of _ 0]) (simp add: mbox_inv_def pulp_mbox_init_def pulp_mbox_clear_def pulp_mbox_set_irqs_def pulp_mbox_set_ctrl_def
        reader_ok_def ring_ok_def ring_contents_def ring_count_def hw_consts)
next
  case (arrive a d p s w)
  then obtain k where "mbox_inv (mb_rab s0) a d p s k" by blast
  then show ?case by (intro exI [of _ k]) (simp add: mbox_inv_def)
next
  case (word a d p s n)
  then show ?case using mbox_word_inv by blast
next
  case (copy a d c s nc)
  then obtain k where k: "mbox_inv (mb_rab s0) a d (Begun c) s k" by blast
  then have "c \<le> 4 * ring_avail (mbox_ring s)" by (simp add: mbox_inv_def reader_ok_def)
  then have "(c - nc) div 4 \<le> ring_avail (mbox_ring s)" by linarith
  then show ?case
    using k copy.hyps(2) by (intro exI [of _ k]) (simp add: mbox_inv_def reader_ok_def mbox_copied_def reader_chunk)
next
  case (finish a d c nc ws s)
  then obtain k where k: "mbox_inv (mb_rab s0) a d (Copied c nc ws) s k" by blast
  let ?n = "(c - nc) div 4"
  have "c \<le> 4 * ring_avail (mbox_ring s)" and ok: "ring_ok (mbox_ring s)" and ws: "ws = take ?n (ring_contents (mbox_ring s))"
    using k by (auto simp: mbox_inv_def reader_ok_def)
  then have n: "?n \<le> ring_avail (mbox_ring s)" by linarith
  have "ring_ok (ring_get ?n (mbox_ring s)) \<and> ring_contents (ring_get ?n (mbox_ring s)) = drop ?n (ring_contents (mbox_ring s))"
    using mb.get [OF ok, of ?n] n ring_avail(3) [OF ok] by simp
  then show ?case using k ws by (intro exI [of _ k]) (simp add: mbox_inv_def reader_ok_def)
qed (auto simp: mbox_inv_def reader_ok_def dest: read_begin_avail)


subsection \<open>The operations are runs\<close>

lemma drain_run: "mbox_run s0 a d p (fst x) \<Longrightarrow> mbox_run s0 a d p (fst (mbox_drain x))"
proof (induction x rule: mbox_drain.induct)
  case (1 x)
  show ?case
  proof (cases "\<not> pulp_mbox_empty (fst x) \<and> \<not> mbox_fifo_full (mbox_ring (fst x))")
    case True
    then have "mbox_run s0 a d p (fst (mbox_word x))"
      using mbox_run.word [OF 1(2), of "snd x"] by (simp add: pulp_mbox_empty_def)
    then show ?thesis using True 1(1) by (simp add: mbox_drain.simps [of x])
  next
    case False
    then show ?thesis using 1(2) by (auto simp: mbox_drain.simps [of x])
  qed
qed

lemma drain_ends: "mb_in (fst (mbox_drain x)) = [] \<or> mbox_fifo_full (mbox_ring (fst (mbox_drain x)))"
proof (induction x rule: mbox_drain.induct)
  case (1 x)
  then show ?case by (cases "\<not> pulp_mbox_empty (fst x) \<and> \<not> mbox_fifo_full (mbox_ring (fst x))")
      (simp_all add: mbox_drain.simps [of x] pulp_mbox_empty_def)
qed

text \<open>The loop counts the words it puts into the ring buffer.\<close>

lemma mbox_word_count:
  assumes "mbox_inv r0 a d p s k" "mb_in s \<noteq> []" "\<not> mbox_fifo_full (mbox_ring s)"
  shows "length (ring_contents (mbox_ring (fst (mbox_word (s, n))))) + n = length (ring_contents (mbox_ring s)) + snd (mbox_word (s, n))"
  using ring_put [of "mbox_ring s" "hd (mb_in s)"] assms
  by (auto simp: mbox_inv_def mbox_word_def pulp_mbox_rddata_def Let_def split: if_splits)

lemma drain_count:
  assumes "mbox_inv r0 a d p s k"
  shows "length (ring_contents (mbox_ring (fst (mbox_drain (s, n))))) + n = length (ring_contents (mbox_ring s)) + snd (mbox_drain (s, n))"
  using assms
proof (induction "(s, n)" arbitrary: s n k rule: mbox_drain.induct)
  case (1 s n)
  show ?case
  proof (cases "\<not> pulp_mbox_empty s \<and> \<not> mbox_fifo_full (mbox_ring s)")
    case True
    obtain s' n' where w: "mbox_word (s, n) = (s', n')" by fastforce
    have go: "mb_in s \<noteq> []" "\<not> mbox_fifo_full (mbox_ring s)" using True by (simp_all add: pulp_mbox_empty_def)
    have "mbox_inv r0 a d p s' (Suc k)" using mbox_word_inv [OF 1(2) go, of n] w by simp
    then show ?thesis
      using 1(1) [of s' n' "Suc k"] True w mbox_word_count [OF 1(2) go, of n] by (simp add: mbox_drain.simps [of "(s, n)"])
  next
    case False
    then show ?thesis by (auto simp: mbox_drain.simps [of "(s, n)"])
  qed
qed

lemma irq_run:
  assumes "mbox_run s0 a d p s"
  shows "mbox_run s0 a d p (pulp_mbox_set_irqs x s)" "mbox_run s0 a d p (snd (pulp_mbox_set_mode m s))"
    "mbox_run s0 a d p (s\<lparr>mb_wakeups := n\<rparr>)"
proof -
  note step = irq [OF assms]
  show "mbox_run s0 a d p (pulp_mbox_set_irqs x s)"
    using step [where m = "mbox_mode s" and x = "mb_is s AND NOT x" and e = "mb_ie s" and k = "mb_wakeups s"]
    by (simp add: pulp_mbox_set_irqs_def)
  show "mbox_run s0 a d p (snd (pulp_mbox_set_mode m s))"
    using step [where m = m and x = "mb_is s" and k = "mb_wakeups s"]
    by (auto simp: pulp_mbox_set_mode_def pulp_mbox_set_irqen_def Let_def)
  show "mbox_run s0 a d p (s\<lparr>mb_wakeups := n\<rparr>)"
    using step [where m = "mbox_mode s" and x = "mb_is s" and e = "mb_ie s" and k = n] by simp
qed

lemmas ack_defs = pulp_mbox_ack_read_irq_def pulp_mbox_ack_write_irq_def pulp_mbox_ack_error_irq_def

lemma intr_run:
  assumes "mbox_run s0 a d p s"
  shows "mbox_run s0 a d p (pulp_mbox_intr s)"
proof -
  obtain s' n where dr: "mbox_drain (s, 0) = (s', n)" by fastforce
  have run: "mbox_run s0 a d p (pulp_mbox_set_irqs x s')" for x
    using drain_run [of s0 a d p "(s, 0)"] assms dr by (simp add: irq_run(1))
  show ?thesis
    using irq_run(3) [OF run [of MBOX_IRQ_MASK_READ]] run irq_run(1,2) [OF assms] by (simp add: pulp_mbox_intr_def ack_defs Let_def dr)
qed

lemma read_end_get:
  "snd (mbox_read_end c nc s) =
     (let n = (c - nc) div 4; s' = s\<lparr>mbox_ring := ring_get n (mbox_ring s)\<rparr>
      in if mbox_fifo_full (mbox_ring s) \<and> n > 0 then fst (mbox_drain (s', 0)) else s')"
  by (simp add: mbox_read_end_def ring_get_def Let_def mbox_fifo_get_def)

lemma read_run:
  assumes "mbox_run s0 a d Idle s" "pulp_mbox_read nonblock sig count copy s = Some (ret, ws, s')" "\<forall>c. copy c \<le> c"
  shows "mbox_run s0 a (d @ ws) Idle s'"
proof (cases "mbox_read_begin nonblock sig count s")
  case (Some b)
  show ?thesis
  proof (cases b)
    case (Inl err)
    then show ?thesis using assms(1,2) Some by (simp add: pulp_mbox_read_def)
  next
    case (Inr c)
    let ?n = "(c - copy c) div 4"
    have ws: "ws = mbox_copied c (copy c) s" "s' = snd (mbox_read_end c (copy c) s)"
      using assms(2) Some Inr by (auto simp: pulp_mbox_read_def Let_def split: prod.splits)
    have "mbox_run s0 a d (Copied c (copy c) ws) s"
      unfolding ws(1) using start [OF assms(1)] Some Inr assms(3) by (intro copy) auto
    then have "mbox_run s0 a (d @ ws) Idle (s\<lparr>mbox_ring := ring_get ?n (mbox_ring s)\<rparr>)" by (rule finish)
    then show ?thesis unfolding ws(2) read_end_get using drain_run [of s0 a "d @ ws" Idle "(s\<lparr>mbox_ring := ring_get ?n (mbox_ring s)\<rparr>, 0)"]
      by (simp add: Let_def)
  qed
qed (use assms(2) in \<open>simp add: pulp_mbox_read_def\<close>)

subsection \<open>Everything arrives\<close>

text \<open>A process that reads as much as it can, without waiting, \<open>n\<close> times.\<close>

fun mbox_reads :: "nat \<Rightarrow> mbox \<Rightarrow> u32 list \<times> mbox" where
  "mbox_reads 0 s = ([], s)"
| "mbox_reads (Suc n) s =
     (case pulp_mbox_read True False (4 * (2 * MBOX_FIFO_DEPTH)) (\<lambda>_. 0) s of
        None \<Rightarrow> ([], s)
      | Some (ret, ws, s') \<Rightarrow> (let (ws', s'') = mbox_reads n s' in (ws @ ws', s'')))"

definition mbox_left :: "mbox \<Rightarrow> nat" where
  "mbox_left s = length (ring_contents (mbox_ring s)) + length (mb_in s)"

text \<open>After a drain the mailbox is empty or the ring buffer full; reads keep it so.\<close>

definition drained :: "mbox \<Rightarrow> bool" where
  "drained s \<longleftrightarrow> mb_in s = [] \<or> mbox_fifo_full (mbox_ring s)"

lemma word_left: "mbox_inv r0 a d p s k \<Longrightarrow> mb_in s \<noteq> [] \<Longrightarrow> \<not> mbox_fifo_full (mbox_ring s) \<Longrightarrow> mbox_left (fst (mbox_word (s, n))) \<le> mbox_left s"
  using ring_put [of "mbox_ring s" "hd (mb_in s)"]
  by (auto simp: mbox_left_def mbox_inv_def mbox_word_def pulp_mbox_rddata_def Let_def)

lemma drain_left: "mbox_inv r0 a d p (fst x) k \<Longrightarrow> mbox_left (fst (mbox_drain x)) \<le> mbox_left (fst x)"
proof (induction x arbitrary: k rule: mbox_drain.induct)
  case (1 x)
  show ?case
  proof (cases "\<not> pulp_mbox_empty (fst x) \<and> \<not> mbox_fifo_full (mbox_ring (fst x))")
    case True
    then have go: "mb_in (fst x) \<noteq> []" "\<not> mbox_fifo_full (mbox_ring (fst x))" by (simp_all add: pulp_mbox_empty_def)
    have "mbox_left (fst (mbox_drain (mbox_word x))) \<le> mbox_left (fst (mbox_word x))"
      using 1(1) [OF True, of "Suc k"] mbox_word_inv [OF 1(2) go, of "snd x"] by simp
    then show ?thesis using True word_left [OF 1(2) go, of "snd x"] by (simp add: mbox_drain.simps [of x])
  next
    case False
    then show ?thesis by (auto simp: mbox_drain.simps [of x])
  qed
qed

lemma read_all_chunk:
  assumes "ring_ok (mbox_ring s)"
  shows "\<exists>ret ws s'. pulp_mbox_read True False 128 (\<lambda>_. 0) s = Some (ret, ws, s') \<and>
    (if ring_contents (mbox_ring s) = [] then ws = [] \<and> s' = s else s' = snd (mbox_read_end (4 * ring_avail (mbox_ring s)) 0 s))"
proof -
  have e: "ring_contents (mbox_ring s) = [] \<longleftrightarrow> mbox_fifo_wr (mbox_ring s) = mbox_fifo_rd (mbox_ring s) \<and> \<not> mbox_fifo_full (mbox_ring s)"
    using ring_contents_length [OF assms] ring_avail(4) [OF assms] assms
    by (auto simp: ring_avail_def ring_ok_def split: if_splits)
  have "mbox_read_begin True False 128 s = (if ring_contents (mbox_ring s) = [] then Some (Inl (- EAGAIN)) else Some (Inr (4 * ring_avail (mbox_ring s))))"
    using assms unfolding e by (auto simp: mbox_read_begin_def ring_avail_def ring_ok_def MBOX_FIFO_DEPTH_def Let_def min_def)
  then show ?thesis by (simp add: pulp_mbox_read_def split_beta)
qed

lemma read_step:
  assumes run: "mbox_run s0 a d Idle s" and dr: "drained s"
  shows "\<exists>ret ws s'. pulp_mbox_read True False 128 (\<lambda>_. 0) s = Some (ret, ws, s') \<and> mbox_run s0 a (d @ ws) Idle s' \<and> drained s'
    \<and> (if mbox_left s = 0 then ws = [] \<and> s' = s else mbox_left s' < mbox_left s)"
proof -
  obtain k where inv: "mbox_inv (mb_rab s0) a d Idle s k" using mbox_run_inv [OF run] by blast
  define r where "r = mbox_ring s"
  have ok: "ring_ok r" using inv by (simp add: mbox_inv_def r_def)
  obtain ret ws s' where rd: "pulp_mbox_read True False 128 (\<lambda>_. 0) s = Some (ret, ws, s')"
    "if ring_contents r = [] then ws = [] \<and> s' = s else s' = snd (mbox_read_end (4 * ring_avail r) 0 s)"
    using read_all_chunk [of s] ok unfolding r_def by blast
  have run': "mbox_run s0 a (d @ ws) Idle s'" by (rule read_run [OF run rd(1)]) simp
  show ?thesis
  proof (cases "ring_contents r = []")
    case True
    then have "mbox_left s = 0" "s' = s" "ws = []"
      using dr rd(2) mb.full_iff [OF ok] by (auto simp: drained_def mbox_left_def r_def)
    then show ?thesis using rd(1) run' dr by simp
  next
    case False
    define n s1 where "n = ring_avail r" and "s1 = s\<lparr>mbox_ring := ring_get n r\<rparr>"
    have n: "0 < n" "n \<le> length (ring_contents r)"
      using False ring_avail(1,4) [OF ok] ring_contents_length [OF ok] by (auto simp: n_def)
    have s': "s' = (if mbox_fifo_full r then fst (mbox_drain (s1, 0)) else s1)"
      using rd(2) False n(1) by (simp add: read_end_get Let_def n_def s1_def r_def)
    have "ring_contents (ring_get n r) = drop n (ring_contents r)" "ring_ok (ring_get n r)"
      using mb.get [OF ok, of n] ring_avail(3) [OF ok] by (simp_all add: n_def)
    then have l1: "mbox_left s1 < mbox_left s" and inv1: "\<exists>d. mbox_inv (mb_rab s0) a d Idle s1 k"
      using n inv by (auto simp: mbox_left_def s1_def r_def mbox_inv_def reader_ok_def intro!: exI [of _ "d @ take n (ring_contents (mbox_ring s))"])
    have "mbox_left s' < mbox_left s"
      using drain_left [of "mb_rab s0" a _ Idle "(s1, 0)" k] inv1 l1 unfolding s' by (auto intro: le_less_trans)
    moreover have "drained s'"
      using drain_ends [of "(s1, 0)"] dr unfolding s' drained_def by (auto simp: s1_def r_def)
    ultimately show ?thesis using rd(1) run' False by (simp add: mbox_left_def r_def)
  qed
qed

lemma reads_all:
  assumes "mbox_run s0 a d Idle s" "drained s" "mbox_left s \<le> n"
  shows "let (ws, s') = mbox_reads n s in mbox_run s0 a (d @ ws) Idle s' \<and> mbox_left s' = 0"
  using assms
proof (induction n arbitrary: d s)
  case (Suc n)
  obtain ret ws s' where st: "pulp_mbox_read True False 128 (\<lambda>_. 0) s = Some (ret, ws, s')" "mbox_run s0 a (d @ ws) Idle s'" "drained s'"
    "if mbox_left s = 0 then ws = [] \<and> s' = s else mbox_left s' < mbox_left s"
    using read_step [OF Suc.prems(1,2)] by blast
  have "mbox_left s' \<le> n" using st(4) Suc.prems(3) by (auto split: if_splits)
  then show ?case using Suc.IH [OF st(2,3)] st(1) by (simp add: MBOX_FIFO_DEPTH_def Let_def split_beta)
qed simp


text \<open>The interrupt handler, on every branch: outside driver mode it disables all interrupts and touches nothing else; on a read
  interrupt it empties the mailbox or fills the ring buffer, acknowledges the interrupt and wakes up readers if and only if it
  has put words into the ring buffer; on an error or a write interrupt it only acknowledges it.\<close>

theorem pulp_mbox_intr_spec:
  assumes "mbox_run s0 a d p s"
  shows "let s' = pulp_mbox_intr s
    in if mbox_mode s = MBOX_OFF then s' = s\<lparr>mb_ie := 0\<rparr>
       else if mb_is s AND 2 \<noteq> 0
       then (mb_in s' = [] \<or> mbox_fifo_full (mbox_ring s')) \<and> mb_is s' = mb_is (fst (mbox_drain (s, 0))) AND NOT 2
         \<and> mb_wakeups s' = mb_wakeups (fst (mbox_drain (s, 0)))
              + (if length (ring_contents (mbox_ring s)) < length (ring_contents (mbox_ring s')) then 1 else 0)
       else s' = s\<lparr>mb_is := mb_is s AND NOT (if mb_is s AND 4 \<noteq> 0 then 4 else 1)\<rparr>"
proof -
  obtain s1 n where dr: "mbox_drain (s, 0) = (s1, n)" by fastforce
  obtain k where "mbox_inv (mb_rab s0) a d p s k" using mbox_run_inv [OF assms] by blast
  from drain_count [OF this, of 0] have cnt: "length (ring_contents (mbox_ring s1)) = length (ring_contents (mbox_ring s)) + n" by (simp add: dr)
  have en: "mb_in s1 = [] \<or> mbox_fifo_full (mbox_ring s1)" using drain_ends [of "(s, 0)"] by (simp add: dr)
  show ?thesis
    using cnt en by (auto simp: pulp_mbox_intr_def pulp_mbox_set_mode_def pulp_mbox_set_irqen_def pulp_mbox_irqs_def ack_defs
        pulp_mbox_set_irqs_def dr Let_def hw_consts)
qed

text \<open>C40: Two processes that read at the same time corrupt the ring buffer. If it holds a single word, both can begin a read of that word
  before either finishes; both get it, and afterwards the buffer pretends to hold 31 words that were never sent.\<close>

theorem mbox_readers_race:
  assumes "ring_ok (mbox_ring s)" "ring_contents (mbox_ring s) = [w]" "mbox_fifo_rd (mbox_ring s) < 30" "4 \<le> count"
  shows "mbox_read_begin nonblock sig count s = Some (Inr 4) \<and>
    (let s1 = snd (mbox_read_end 4 0 s); s2 = snd (mbox_read_end 4 0 s1)
     in mbox_copied 4 0 s = [w] \<and> ring_contents (mbox_ring s1) = [] \<and> length (ring_contents (mbox_ring s2)) = 31)"
proof -
  define r where "r = mbox_ring s"
  have ok: "ring_ok r" using assms(1) by (simp add: r_def)
  have c1: "ring_count r = 1" using assms(2) ring_contents_length [OF ok] by (simp add: r_def)
  have rd: "mbox_fifo_rd r < 30" using assms(3) by (simp add: r_def)
  have r: "\<not> mbox_fifo_full r" "mbox_fifo_wr r = mbox_fifo_rd r + 1" "length (mbox_fifo r) = 32"
    using c1 rd ok by (auto simp: ring_count_def ring_ok_def split: if_splits)
  have av: "ring_avail r = 1" using r by (simp add: ring_avail_def)
  have rb: "mbox_read_begin nonblock sig count s = Some (Inr 4)"
    using r rd assms(4) by (simp add: mbox_read_begin_def r_def [symmetric] Let_def)
  define s1 where "s1 = snd (mbox_read_end 4 0 s)"
  have s1: "mbox_ring s1 = r\<lparr>mbox_fifo_rd := mbox_fifo_rd r + 1\<rparr>"
    using r rd by (simp add: s1_def read_end_get r_def [symmetric] Let_def ring_get_def mbox_fifo_get_def MBOX_FIFO_DEPTH_def)
  have s2: "mbox_ring (snd (mbox_read_end 4 0 s1)) = r\<lparr>mbox_fifo_rd := mbox_fifo_rd r + 2\<rparr>"
    using r rd by (simp add: read_end_get s1 Let_def ring_get_def mbox_fifo_get_def MBOX_FIFO_DEPTH_def)
  have "mbox_copied 4 0 s = take 1 (ring_contents r)"
    using reader_chunk [OF ok, of 1] av by (simp add: mbox_copied_def r_def)
  moreover have "ring_ok (r\<lparr>mbox_fifo_rd := mbox_fifo_rd r + 2\<rparr>)" "ring_count (r\<lparr>mbox_fifo_rd := mbox_fifo_rd r + 2\<rparr>) = 31"
    using r rd by (simp_all add: ring_ok_def ring_count_def)
  then have "length (ring_contents (r\<lparr>mbox_fifo_rd := mbox_fifo_rd r + 2\<rparr>)) = 31" using ring_contents_length by metis
  moreover have "ring_contents (r\<lparr>mbox_fifo_rd := mbox_fifo_rd r + 1\<rparr>) = []"
    using r by (simp add: ring_contents_def ring_count_def)
  ultimately show ?thesis
    using assms(2) rb s1 s2 by (simp add: Let_def s1_def [symmetric] r_def [symmetric])
qed

subsection \<open>A concrete mailbox\<close>

text \<open>A transfer of one word to the runtime, and an update of the first element of the concrete RAB of \<open>Drv_Rab_Stripe\<close>.\<close>

definition ex_mbox :: mbox where
  "ex_mbox = \<lparr>mbox_mode = MBOX_OFF, mbox_ring = \<lparr>mbox_fifo = replicate 32 0, mbox_fifo_full = False, mbox_fifo_rd = 0, mbox_fifo_wr = 0\<rparr>,
     n_words_written = 0, n_words_to_write = 0, mb_in = [], mb_is = 0, mb_ie = 0, mb_wakeups = 0, mb_rab = ex_striped\<rparr>"

definition ex_words :: "u32 list" where "ex_words = [0x10000001, 42, 0x20000001]"

text \<open>The mailbox with the words in the hardware and a pending read interrupt.\<close>

definition ex_pending :: mbox where "ex_pending = ex_mbox\<lparr>mb_in := ex_words, mbox_mode := MBOX_DRIVER, mb_is := 2, mb_ie := 6\<rparr>"

lemma ex_words_run: "mbox_run ex_mbox ex_words [] Idle ex_pending"
proof -
  have "pulp_mbox_init ex_mbox = ex_mbox"
    by (simp add: pulp_mbox_init_def pulp_mbox_clear_def pulp_mbox_set_irqs_def pulp_mbox_set_ctrl_def ex_mbox_def hw_consts)
  then have "mbox_run ex_mbox [] [] Idle ex_mbox" using init [of ex_mbox] by (simp add: ex_mbox_def)
  from arrive [OF arrive [OF arrive [OF this, of "0x10000001"], of 42], of "0x20000001"]
  have "mbox_run ex_mbox ex_words [] Idle (ex_mbox\<lparr>mb_in := ex_words\<rparr>)" by (simp add: ex_words_def ex_mbox_def)
  from irq [OF this, where m = MBOX_DRIVER and x = 2 and e = 6 and k = 0] show ?thesis by (simp add: ex_pending_def ex_mbox_def)
qed

lemma ex_payload: "payload 0 ex_words = [42]" "commands 0 ex_words = [Update 0x20000001]"
  by (simp_all add: ex_words_def next_len_def word_type_def word_len_def word_cmds_def)



theorem pulp_mbox_intr_spec_witness: "mb_wakeups (pulp_mbox_intr ex_mbox) = 0 \<and> mb_ie (pulp_mbox_intr ex_mbox) = 0"
proof -
  have "pulp_mbox_init ex_mbox = ex_mbox"
    by (simp add: pulp_mbox_init_def pulp_mbox_clear_def pulp_mbox_set_irqs_def pulp_mbox_set_ctrl_def ex_mbox_def hw_consts)
  then have "mbox_run ex_mbox [] [] Idle ex_mbox" using init [of ex_mbox] by (simp add: ex_mbox_def)
  from pulp_mbox_intr_spec [OF this] show ?thesis by (simp add: ex_mbox_def Let_def)
qed

theorem mbox_readers_race_witness:
  "let s = ex_mbox\<lparr>mbox_ring := mbox_fifo_put 42 (mbox_ring ex_mbox)\<rparr>; s1 = snd (mbox_read_end 4 0 s); s2 = snd (mbox_read_end 4 0 s1)
   in mbox_copied 4 0 s = [42] \<and> length (ring_contents (mbox_ring s2)) = 31"
proof -
  define s where "s = ex_mbox\<lparr>mbox_ring := mbox_fifo_put 42 (mbox_ring ex_mbox)\<rparr>"
  have e: "ring_ok (mbox_ring ex_mbox)" "ring_contents (mbox_ring ex_mbox) = []" "\<not> mbox_fifo_full (mbox_ring ex_mbox)"
    by (simp_all add: ring_ok_def ring_contents_def ring_count_def ex_mbox_def)
  then have "ring_ok (mbox_ring s)" "ring_contents (mbox_ring s) = [42]" "mbox_fifo_rd (mbox_ring s) < 30"
    using ring_put [OF e(1,3), of 42] by (simp_all add: s_def mbox_fifo_put_def ex_mbox_def Let_def)
  from mbox_readers_race [OF this order.refl] show ?thesis by (simp add: s_def [symmetric] Let_def)
qed

end
