(* ===== verification/Drv_Dma.thy ===== *)
theory Drv_Dma
  imports Drv_Rab_Free
begin

text \<open>
  Transfers with the DMA engine of the host (\<open>pulp-driver/pulp_dma.c\<close>): the driver pins the user pages of a range of the main
  memory, splits it into physically contiguous segments (\<open>Drv_Mem\<close>), flushes the caches and submits one memory copy per
  segment; the last one calls \<open>pulp_dma_xfer_cleanup\<close> when it is done, which unpins the pages.

  The DMA engine of the kernel is a parameter: \<open>prep cmd dst src size is_last\<close> tells if \<open>device_prep_dma_memcpy\<close> of the channel
  \<open>cmd\<close> yields a descriptor. Calls into the kernel are recorded in order in \<open>dma_log\<close>. A channel is identified by the
  index \<open>dma_cmd\<close> into the array of channels.
\<close>

record dma_chan =
  ch_id :: int
  ch_driver :: string

record dmafilter_param =
  f_chan_id :: int
  f_driver_name :: "string option"

definition dmafilter_fn :: "dmafilter_param \<Rightarrow> dma_chan \<Rightarrow> bool" where
  "dmafilter_fn flt chan \<longleftrightarrow>
     (case f_driver_name flt of None \<Rightarrow> True | Some name \<Rightarrow> ch_driver chan = name)
     \<and> \<not> (f_chan_id flt \<ge> 0 \<and> ch_id chan \<noteq> f_chan_id flt)"

text \<open>\<open>chans\<close> are the channels that the kernel offers to the filter, in order.\<close>

definition pulp_dma_chan_req :: "dma_chan list \<Rightarrow> int \<Rightarrow> int + dma_chan" where
  "pulp_dma_chan_req chans chan_id =
     (case List.find (dmafilter_fn \<lparr>f_chan_id = chan_id, f_driver_name = Some ''dma-pl330''\<rparr>) chans of
        None \<Rightarrow> Inl (- EBUSY)
      | Some chan \<Rightarrow> Inr chan)"

record dma_desc =
  d_dst :: u32
  d_src :: u32
  d_size :: u32
  d_interrupt :: bool
  d_callback :: bool

datatype dma_event = Kern kern_call | Submit u8 dma_desc | IssuePending u8 | TerminateAll u8 | ReleaseChannel u8

record DmaCleanup =
  cl_pages :: "page list"
  cl_n_pages :: u32

record dma =
  dma_log :: "dma_event list"
  dma_cleanup :: "DmaCleanup list"

definition dma_emit :: "dma_event list \<Rightarrow> dma \<Rightarrow> dma" where
  "dma_emit l s = s\<lparr>dma_log := dma_log s @ l\<rparr>"

definition pulp_dma_chan_clean :: "u8 \<Rightarrow> dma \<Rightarrow> dma" where
  "pulp_dma_chan_clean chan s = dma_emit [TerminateAll chan, ReleaseChannel chan] s"

definition pulp_dma_xfer_prep :: "(u8 \<Rightarrow> u32 \<Rightarrow> u32 \<Rightarrow> u32 \<Rightarrow> bool \<Rightarrow> bool) \<Rightarrow> u8 \<Rightarrow> u32 \<Rightarrow> u32 \<Rightarrow> u32 \<Rightarrow> bool \<Rightarrow> int + dma_desc" where
  "pulp_dma_xfer_prep prep chan addr_dst addr_src size_b is_last =
     (if prep chan addr_dst addr_src size_b is_last
      then Inr \<lparr>d_dst = addr_dst, d_src = addr_src, d_size = size_b, d_interrupt = is_last, d_callback = False\<rparr>
      else Inl (- EBUSY))"

definition pulp_dma_xfer_cleanup :: "kern \<Rightarrow> DmaCleanup \<Rightarrow> kern_call list" where
  "pulp_dma_xfer_cleanup K c =
     concat (map (\<lambda>i. (if \<not> PageReserved K (cl_pages c ! i) then [SetPageDirty (cl_pages c ! i)] else []) @ [PutPage (cl_pages c ! i)])
               [0 ..< unat (cl_n_pages c)])
     @ [KfreePages (cl_pages c)]"

text \<open>One segment: the state of the loop is the error, \<open>addr_pulp\<close>, \<open>size_b\<close> and the log.\<close>

definition dma_step ::
  "(u8 \<Rightarrow> u32 \<Rightarrow> u32 \<Rightarrow> u32 \<Rightarrow> bool \<Rightarrow> bool) \<Rightarrow> page list \<Rightarrow> sg_seg list \<Rightarrow> u8 \<Rightarrow> int \<times> u32 \<times> u32 \<times> dma \<Rightarrow> nat \<Rightarrow> int \<times> u32 \<times> u32 \<times> dma" where
  "dma_step prep pages segs dma_cmd r i =
     (let (err, addr_pulp, size_b, s) = r in
      if err \<noteq> 0 then r
      else
        let g = segs ! i;
            addr_pulp = addr_pulp + size_b;
            addr_src = (if dma_cmd \<noteq> 0 then addr_pulp else ucast (sg_offset g));
            addr_dst = (if dma_cmd \<noteq> 0 then ucast (sg_offset g) else addr_pulp);
            size_b = sg_end g - sg_start g;
            s = dma_emit (map Kern (flush_segment pages segs i)) s;
            is_last = (i = length segs - 1)
        in case pulp_dma_xfer_prep prep dma_cmd addr_dst addr_src size_b is_last of
             Inl err \<Rightarrow> (err, addr_pulp, size_b, s)
           | Inr d \<Rightarrow> (0, addr_pulp, size_b, dma_emit [Submit dma_cmd (d\<lparr>d_callback := is_last\<rparr>)] s))"

text \<open>The transfer. \<open>descs_ok\<close> tells if the array of descriptors could be allocated; its address is not checked. The result is
  \<open>None\<close> where the code has undefined behaviour.\<close>

definition pulp_dma_xfer_async ::
  "kern \<Rightarrow> (u8 \<Rightarrow> u32 \<Rightarrow> u32 \<Rightarrow> u32 \<Rightarrow> bool \<Rightarrow> bool) \<Rightarrow> bool \<Rightarrow> u32 \<Rightarrow> u32 \<Rightarrow> u32 \<Rightarrow> u8 \<Rightarrow> dma \<Rightarrow> (int \<times> dma) option" where
  "pulp_dma_xfer_async K prep descs_ok addr_l3 addr_pulp size_b dma_cmd s =
     (let len = pulp_mem_get_num_pages addr_l3 size_b;
          (err, pages) = pulp_mem_get_user_pages (gup_ok K) (gup_fast K) addr_l3 len (ucast dma_cmd)
      in if err \<noteq> 0 then Some (err, s)
         else if length pages \<noteq> unat len then None
         else
           let s = dma_emit [Kern (PinPages pages)] s
           in case pulp_mem_map_sg (kmalloc_ok K) (map (page_to_phys K) pages) addr_l3 (addr_l3 + size_b) of
                Inl _ \<Rightarrow> None
              | Inr segs \<Rightarrow>
                  if \<not> descs_ok then None
                  else
                    let s = s\<lparr>dma_cleanup := (dma_cleanup s)[unat dma_cmd := \<lparr>cl_pages = pages, cl_n_pages = len\<rparr>]\<rparr>;
                        (err, _, _, s) = foldl (dma_step prep pages segs dma_cmd) (0, addr_pulp, 0, s) [0 ..< length segs]
                    in if err \<noteq> 0 then Some (err, s) else Some (0, dma_emit [IssuePending dma_cmd] s))"

subsection \<open>The submitted copies\<close>

fun submitted_of :: "dma_event \<Rightarrow> dma_desc list" where
  "submitted_of (Submit c d) = [d]"
| "submitted_of _ = []"

definition submitted :: "dma_event list \<Rightarrow> dma_desc list" where "submitted l = concat (map submitted_of l)"

lemma submitted_simps [simp]:
  "submitted [] = []" "submitted (l @ l') = submitted l @ submitted l'" "submitted (e # l) = submitted_of e @ submitted l"
  "submitted (map Kern ks) = []"
  by (simp_all add: submitted_def concat_eq_Nil_conv)

lemma flush_puts [simp]: "PutPage p \<notin> set (flush_segment pages segs i)"
  by (auto simp: flush_segment_def)

text \<open>The copy for segment \<open>i\<close>.\<close>

definition seg_desc :: "sg_seg list \<Rightarrow> u32 \<Rightarrow> u8 \<Rightarrow> u32 \<Rightarrow> nat \<Rightarrow> dma_desc" where
  "seg_desc segs addr_pulp dma_cmd a i =
     (let g = segs ! i; p = addr_pulp + (sg_start g - a); h = ucast (sg_offset g); l = (i = length segs - 1)
      in \<lparr>d_dst = (if dma_cmd \<noteq> 0 then h else p), d_src = (if dma_cmd \<noteq> 0 then p else h), d_size = sg_end g - sg_start g,
          d_interrupt = l, d_callback = l\<rparr>)"

lemma dma_loop:
  assumes lay: "sg_layout phys a e segs" and prep: "\<forall>c x y z l. prep c x y z l" and n: "n \<le> length segs"
  shows "\<exists>l. foldl (dma_step prep pages segs dma_cmd) (0, addr_pulp, 0, s) [0 ..< n]
      = (0, if n = 0 then addr_pulp else addr_pulp + (sg_start (segs ! (n - 1)) - a),
         if n = 0 then 0 else sg_end (segs ! (n - 1)) - sg_start (segs ! (n - 1)), dma_emit l s)
    \<and> submitted l = map (seg_desc segs addr_pulp dma_cmd a) [0 ..< n] \<and> (\<forall>p. Kern (PutPage p) \<notin> set l)"
  using n
proof (induction n)
  case 0
  then show ?case by (intro exI [of _ "[]"]) (simp add: dma_emit_def)
next
  case (Suc n)
  define ap sz where "ap = (if n = 0 then addr_pulp else addr_pulp + (sg_start (segs ! (n - 1)) - a))"
    and "sz = (if n = 0 then 0 else sg_end (segs ! (n - 1)) - sg_start (segs ! (n - 1)))"
  obtain l where IH: "foldl (dma_step prep pages segs dma_cmd) (0, addr_pulp, 0, s) [0 ..< n] = (0, ap, sz, dma_emit l s)"
    "submitted l = map (seg_desc segs addr_pulp dma_cmd a) [0 ..< n]" "\<forall>p. Kern (PutPage p) \<notin> set l"
    using Suc by (auto simp: ap_def sz_def)
  have nx: "ap + sz = addr_pulp + (sg_start (segs ! n) - a)"
    using sg_layoutD(2) [OF lay] sg_layoutD(4) [OF lay, of "n - 1"] Suc.prems by (cases n) (simp_all add: ap_def sz_def)
  define l' where "l' = map Kern (flush_segment pages segs n) @ [Submit dma_cmd (seg_desc segs addr_pulp dma_cmd a n)]"
  have "dma_step prep pages segs dma_cmd (0, ap, sz, dma_emit l s) n
      = (0, addr_pulp + (sg_start (segs ! n) - a), sg_end (segs ! n) - sg_start (segs ! n), dma_emit (l @ l') s)"
    using prep by (simp add: dma_step_def pulp_dma_xfer_prep_def nx Let_def dma_emit_def l'_def seg_desc_def)
  moreover have "\<forall>p. Kern (PutPage p) \<notin> set (l @ l')" using IH(3) by (auto simp: l'_def flush_segment_def)
  ultimately show ?case using IH(1,2) by (intro exI [of _ "l @ l'"]) (simp add: l'_def)
qed

lemma page_within_phys:
  assumes "a < e" "length phys = unat (pulp_mem_get_num_pages a (e - a))" "\<forall>p \<in> set phys. unat p + 4096 \<le> 2 ^ 32" "a \<le> v" "v < e"
  shows "unat (sg_target phys a v) = unat (phys ! (unat v div 4096 - unat a div 4096)) + unat v mod 4096"
    "unat (sg_target phys a v) < 2 ^ 32"
proof -
  define p where "p = phys ! (unat v div 4096 - unat a div 4096)"
  have "unat v div 4096 - unat a div 4096 < length phys"
    using page_within [OF assms(1,2), of "unat v"] assms(4,5) by (simp add: word_less_nat_alt word_le_nat_alt)
  then have p: "unat p + 4096 \<le> 2 ^ 32" using assms(3) by (simp add: p_def)
  have m: "unat v mod 4096 < 4096" by simp
  have "unat (of_nat (unat v mod 4096) :: u64) = unat v mod 4096" by (simp add: unsigned_of_nat take_bit_nat_eq_self)
  then have eq: "unat (sg_target phys a v) = unat p + unat v mod 4096"
    using p m by (simp add: sg_target_def p_def [symmetric] unat_word_ariths)
  then show "unat (sg_target phys a v) = unat (phys ! (unat v div 4096 - unat a div 4096)) + unat v mod 4096" by (simp add: p_def)
  show "unat (sg_target phys a v) < 2 ^ 32" unfolding eq using p m by linarith
qed

lemma seg_sizes:
  assumes "sg_layout phys a e segs" "n < length segs"
  shows "a \<le> sg_start (segs ! n) \<and> (\<Sum>i < Suc n. unat (sg_end (segs ! i) - sg_start (segs ! i))) = unat (sg_end (segs ! n) - a)"
  using assms(2)
proof (induction n)
  case 0
  then show ?case using sg_layoutD(2) [OF assms(1)] by simp
next
  case (Suc n)
  have lt: "sg_start (segs ! n) < sg_end (segs ! n)" "sg_start (segs ! Suc n) < sg_end (segs ! Suc n)"
    and nx: "sg_end (segs ! n) = sg_start (segs ! Suc n)"
    using Suc.prems sg_layoutD(4) [OF assms(1), of n] sg_layoutD(6) [OF assms(1), of n] sg_layoutD(6) [OF assms(1), of "Suc n"] by simp_all
  have a: "a \<le> sg_start (segs ! n)" using Suc by simp
  then have "a \<le> sg_start (segs ! Suc n)" using lt nx by simp
  moreover have "unat (y - x) = unat y - unat x" if "x \<le> y" for x y :: u32 using that by (rule unat_sub)
  ultimately show ?case
    using Suc lt nx a by (simp add: word_le_nat_alt word_less_nat_alt)
qed

lemma seg_total:
  assumes "sg_layout phys a e segs"
  shows "(\<Sum>i < length segs. unat (sg_end (segs ! i) - sg_start (segs ! i))) = unat (e - a)"
proof (cases "length segs")
  case (Suc n)
  then show ?thesis using seg_sizes [OF assms, of n] sg_layoutD(3) [OF assms] by simp
qed (use sg_layoutD(1) [OF assms] in simp)

text \<open>The addresses of a copy on the side of the host and on the side of the accelerator.\<close>

definition d_host :: "u8 \<Rightarrow> dma_desc \<Rightarrow> u32" where "d_host dma_cmd d = (if dma_cmd \<noteq> 0 then d_dst d else d_src d)"
definition d_pulp :: "u8 \<Rightarrow> dma_desc \<Rightarrow> u32" where "d_pulp dma_cmd d = (if dma_cmd \<noteq> 0 then d_src d else d_dst d)"

lemma seg_desc_covers:
  assumes lay: "sg_layout phys a e segs" and len: "length phys = unat (pulp_mem_get_num_pages a (e - a))" "a < e"
    and low: "\<forall>p \<in> set phys. unat p + 4096 \<le> 2 ^ 32" and v: "a \<le> v" "v < e"
  shows "\<exists>i < length segs. \<exists>k < unat (d_size (seg_desc segs ap c a i)). d_pulp c (seg_desc segs ap c a i) + of_nat k = ap + (v - a)
    \<and> unat (d_host c (seg_desc segs ap c a i)) + k = unat (phys ! (unat v div 4096 - unat a div 4096)) + unat v mod 4096"
proof -
  obtain i where i: "i < length segs" "sg_start (segs ! i) \<le> v" "v < sg_end (segs ! i)" using layout_covers [OF lay v] by blast
  define g k where "g = segs ! i" and "k = unat (v - sg_start g)"
  have kv: "k = unat v - unat (sg_start g)" using i(2) by (simp add: k_def g_def unat_sub)
  have lt: "sg_start g < sg_end g" using sg_layoutD(6) [OF lay i(1)] by (simp add: g_def)
  have a: "a \<le> sg_start g" using seg_sizes [OF lay i(1)] by (simp add: g_def)
  have ke: "k < unat (sg_end g - sg_start g)"
    using i(2,3) lt kv by (simp add: g_def unat_sub word_less_nat_alt word_le_nat_alt)
  have off: "sg_offset g = sg_target phys a (sg_start g)"
    using sg_layoutD(7) [OF lay i(1), of "sg_start g"] lt by (simp add: g_def)
  have "sg_start g < e" using i(2) v(2) by (simp add: g_def)
  then have off32: "unat (sg_offset g) < 2 ^ 32" using page_within_phys(2) [OF len(2,1) low a] off by simp
  have "sg_offset g + ucast (v - sg_start g) = sg_target phys a v" using sg_layoutD(7) [OF lay i(1) i(2,3)] by (simp add: g_def)
  moreover have "unat (sg_offset g + ucast (v - sg_start g)) = unat (sg_offset g) + k"
    using off32 unat_u32_lt [of "v - sg_start g"] by (simp add: unat_word_ariths k_def unsigned_ucast_eq take_bit_nat_eq_self)
  ultimately have "unat (sg_offset g) + k = unat (phys ! (unat v div 4096 - unat a div 4096)) + unat v mod 4096"
    using page_within_phys(1) [OF len(2,1) low v] by simp
  moreover have "unat (ucast (sg_offset g) :: u32) = unat (sg_offset g)" using off32 by (simp add: unsigned_ucast_eq take_bit_nat_eq_self)
  moreover have "ap + (sg_start g - a) + of_nat k = ap + (v - a)" by (simp add: k_def)
  ultimately show ?thesis
    using i(1) ke by (intro exI [of _ i] conjI exI [of _ k]) (simp_all add: seg_desc_def d_host_def d_pulp_def g_def [symmetric] Let_def)
qed

text \<open>What a transfer does when the kernel provides everything.\<close>

lemma dma_xfer_steps:
  assumes "addr_l3 < addr_l3 + size_b" "list_all (kmalloc_ok K) [0 ..< 6]" "\<forall>c x y z l. prep c x y z l"
    and gup: "pulp_mem_get_user_pages (gup_ok K) (gup_fast K) addr_l3 (pulp_mem_get_num_pages addr_l3 size_b) (ucast dma_cmd) = (0, pages)"
      "length pages = unat (pulp_mem_get_num_pages addr_l3 size_b)"
  obtains segs l where "sg_layout (map (page_to_phys K) pages) addr_l3 (addr_l3 + size_b) segs"
    "pulp_dma_xfer_async K prep True addr_l3 addr_pulp size_b dma_cmd s =
       Some (0, s\<lparr>dma_log := dma_log s @ l, dma_cleanup := (dma_cleanup s)[unat dma_cmd :=
         \<lparr>cl_pages = pages, cl_n_pages = pulp_mem_get_num_pages addr_l3 size_b\<rparr>]\<rparr>)"
    "submitted l = map (seg_desc segs addr_pulp dma_cmd addr_l3) [0 ..< length segs]" "\<forall>p. Kern (PutPage p) \<notin> set l"
proof -
  define e phys where "e = addr_l3 + size_b" and "phys = map (page_to_phys K) pages"
  have len: "length phys = unat (pulp_mem_get_num_pages addr_l3 (e - addr_l3))" "addr_l3 < e"
    using assms(1) gup(2) by (simp_all add: e_def phys_def)
  have ne: "phys \<noteq> []" using page_within(1) [OF len(2,1), of "unat addr_l3"] len(2) by (auto simp: word_less_nat_alt)
  define segs where "segs = sg_spec phys addr_l3 e"
  have lay: "sg_layout phys addr_l3 e segs" unfolding segs_def by (rule sg_spec_layout [OF len(2,1)])
  have mp: "pulp_mem_map_sg (kmalloc_ok K) phys addr_l3 e = Inr segs" unfolding segs_def by (rule pulp_mem_map_sg_spec [OF assms(2) ne])
  define s1 where "s1 = (dma_emit [Kern (PinPages pages)] s)\<lparr>dma_cleanup := (dma_cleanup s)[unat dma_cmd :=
      \<lparr>cl_pages = pages, cl_n_pages = pulp_mem_get_num_pages addr_l3 size_b\<rparr>]\<rparr>"
  obtain l r where l: "foldl (dma_step prep pages segs dma_cmd) (0, addr_pulp, 0, s1) [0 ..< length segs] = (0, fst r, snd r, dma_emit l s1)"
    "submitted l = map (seg_desc segs addr_pulp dma_cmd addr_l3) [0 ..< length segs]" "\<forall>p. Kern (PutPage p) \<notin> set l"
    using dma_loop [OF lay assms(3) order.refl, of pages dma_cmd addr_pulp s1] by (metis fst_conv snd_conv)
  have "pulp_dma_xfer_async K prep True addr_l3 addr_pulp size_b dma_cmd s = Some (0, dma_emit [IssuePending dma_cmd] (dma_emit l s1))"
    using gup mp l(1) by (simp add: pulp_dma_xfer_async_def s1_def dma_emit_def phys_def e_def)
  then show ?thesis
    using lay l(2,3) by (intro that [of segs "Kern (PinPages pages) # l @ [IssuePending dma_cmd]"]) (simp_all add: e_def phys_def s1_def dma_emit_def)
qed



text \<open>A channel that \<open>pulp_dma_chan_req\<close> returns is one of those offered, belongs to the PL330 engine and has the requested
  number (any number if that is negative); it fails with \<open>EBUSY\<close> exactly if no such channel is offered.\<close>

theorem dma_chan_req_spec:
  "case pulp_dma_chan_req chans chan_id of
     Inl err \<Rightarrow> err = - 16 \<and> (\<forall>c \<in> set chans. ch_driver c \<noteq> ''dma-pl330'' \<or> 0 \<le> chan_id \<and> ch_id c \<noteq> chan_id)
   | Inr c \<Rightarrow> c \<in> set chans \<and> ch_driver c = ''dma-pl330'' \<and> (0 \<le> chan_id \<longrightarrow> ch_id c = chan_id)"
  by (auto simp: pulp_dma_chan_req_def dmafilter_fn_def EBUSY_def find_None_iff find_Some_iff split: option.split)

text \<open>When the engine yields no descriptor for the last segment, the transfer fails, but the copies before it stay submitted
  without ever being issued, no copy will call the clean-up, and the pages stay pinned.\<close>

theorem dma_failure_leaks_pages:
  assumes "pulp_mem_get_user_pages (gup_ok K) (gup_fast K) addr_l3 (pulp_mem_get_num_pages addr_l3 size_b) (ucast dma_cmd) = (0, pages)"
    and "length pages = unat (pulp_mem_get_num_pages addr_l3 size_b)" "list_all (kmalloc_ok K) [0 ..< 6]" "addr_l3 < addr_l3 + size_b"
    and "\<forall>c x y z. \<not> prep c x y z True" "\<forall>c x y z. prep c x y z False"
  shows "\<exists>s' l. pulp_dma_xfer_async K prep True addr_l3 addr_pulp size_b dma_cmd s = Some (- 16, s') \<and> dma_log s' = dma_log s @ l
    \<and> (\<forall>p. Kern (PutPage p) \<notin> set l) \<and> (\<forall>c. IssuePending c \<notin> set l) \<and> (\<forall>d \<in> set (submitted l). \<not> d_callback d)"
proof -
  define e phys where "e = addr_l3 + size_b" and "phys = map (page_to_phys K) pages"
  have len: "length phys = unat (pulp_mem_get_num_pages addr_l3 (e - addr_l3))" "addr_l3 < e"
    using assms(2,4) by (simp_all add: e_def phys_def)
  have ne: "phys \<noteq> []" using page_within(1) [OF len(2,1), of "unat addr_l3"] len(2) by (auto simp: word_less_nat_alt)
  define segs where "segs = sg_spec phys addr_l3 e"
  have "segs \<noteq> []" using sg_layoutD(1) [OF sg_spec_layout [OF len(2,1)]] by (simp add: segs_def)
  then obtain n where n: "length segs = Suc n" by (cases "length segs") auto
  have mp: "pulp_mem_map_sg (kmalloc_ok K) phys addr_l3 e = Inr segs" unfolding segs_def by (rule pulp_mem_map_sg_spec [OF assms(3) ne])
  have loop: "\<exists>ap sz l. foldl (dma_step prep pages segs dma_cmd) (0, addr_pulp, 0, s1) [0 ..< m] = (0, ap, sz, dma_emit l s1)
      \<and> (\<forall>p. Kern (PutPage p) \<notin> set l) \<and> (\<forall>c. IssuePending c \<notin> set l) \<and> (\<forall>d \<in> set (submitted l). \<not> d_callback d)" if "m \<le> n" for m s1
    using that
  proof (induction m)
    case 0
    then show ?case by (intro exI [of _ addr_pulp] exI [of _ 0] exI [of _ "[]"]) (simp add: dma_emit_def)
  next
    case (Suc m)
    then obtain ap sz l where IH: "foldl (dma_step prep pages segs dma_cmd) (0, addr_pulp, 0, s1) [0 ..< m] = (0, ap, sz, dma_emit l s1)"
      "\<forall>p. Kern (PutPage p) \<notin> set l" "\<forall>c. IssuePending c \<notin> set l" "\<forall>d \<in> set (submitted l). \<not> d_callback d" by auto
    have "m \<noteq> length segs - 1" using Suc.prems n by simp
    then obtain ap' sz' d where "dma_step prep pages segs dma_cmd (0, ap, sz, dma_emit l s1) m
        = (0, ap', sz', dma_emit (l @ map Kern (flush_segment pages segs m) @ [Submit dma_cmd d]) s1)" "\<not> d_callback d"
      using assms(6) by (simp add: dma_step_def pulp_dma_xfer_prep_def Let_def dma_emit_def)
    then show ?case using IH
      by (intro exI [of _ ap'] exI [of _ sz'] exI [of _ "l @ map Kern (flush_segment pages segs m) @ [Submit dma_cmd d]"])
        auto
  qed
  define s1 where "s1 = (dma_emit [Kern (PinPages pages)] s)\<lparr>dma_cleanup := (dma_cleanup s)[unat dma_cmd :=
      \<lparr>cl_pages = pages, cl_n_pages = pulp_mem_get_num_pages addr_l3 size_b\<rparr>]\<rparr>"
  obtain ap sz l where l: "foldl (dma_step prep pages segs dma_cmd) (0, addr_pulp, 0, s1) [0 ..< n] = (0, ap, sz, dma_emit l s1)"
    "\<forall>p. Kern (PutPage p) \<notin> set l" "\<forall>c. IssuePending c \<notin> set l" "\<forall>d \<in> set (submitted l). \<not> d_callback d" using loop [OF order.refl] by blast
  obtain ap' sz' where st: "dma_step prep pages segs dma_cmd (0, ap, sz, dma_emit l s1) n
      = (- 16, ap', sz', dma_emit (l @ map Kern (flush_segment pages segs n)) s1)"
    using assms(5) n by (simp add: dma_step_def pulp_dma_xfer_prep_def Let_def dma_emit_def EBUSY_def)
  have "pulp_dma_xfer_async K prep True addr_l3 addr_pulp size_b dma_cmd s = Some (- 16, dma_emit (l @ map Kern (flush_segment pages segs n)) s1)"
    using assms(1,2) mp l(1) st n by (simp add: pulp_dma_xfer_async_def s1_def dma_emit_def phys_def e_def)
  moreover have "dma_log (dma_emit (l @ map Kern (flush_segment pages segs n)) s1)
      = dma_log s @ (Kern (PinPages pages) # l @ map Kern (flush_segment pages segs n))" by (simp add: s1_def dma_emit_def)
  ultimately show ?thesis using l(2-4)
    by (intro exI [of _ "dma_emit (l @ map Kern (flush_segment pages segs n)) s1"]
          exI [of _ "Kern (PinPages pages) # l @ map Kern (flush_segment pages segs n)"])
      auto
qed

subsection \<open>A concrete transfer\<close>

text \<open>0x300 bytes across a page border, with the kernel of \<open>Drv_Rab_Free\<close>.\<close>

definition ex_dma :: dma where "ex_dma = \<lparr>dma_log = [], dma_cleanup = replicate 2 \<lparr>cl_pages = [], cl_n_pages = 0\<rparr>\<rparr>"

lemma ex_dma_pages:
  "pulp_mem_get_user_pages (gup_ok kern_ok) (gup_fast kern_ok) 0x1F00 (pulp_mem_get_num_pages 0x1F00 0x300) (ucast (c :: u8)) = (0, [0x1000, 0x2000])"
  "length [0x1000, 0x2000 :: page] = unat (pulp_mem_get_num_pages 0x1F00 0x300)" "list_all (kmalloc_ok kern_ok) [0 ..< 6]"
  "(0x1F00 :: u32) < 0x1F00 + 0x300"
proof -
  have len: "pulp_mem_get_num_pages 0x1F00 0x300 = 2" by (simp add: word_eq_unat unat_get_num_pages)
  have "(0x1F00 :: u64) AND BF_MASK_GEN PAGE_SHIFT (32 - PAGE_SHIFT) = 0x1000"
    by (simp add: BF_MASK_GEN_def BIT_MASK_GEN_def BIT_N_SET_def PAGE_SHIFT_def mask_eq_exp_minus_1)
  then show "pulp_mem_get_user_pages (gup_ok kern_ok) (gup_fast kern_ok) 0x1F00 (pulp_mem_get_num_pages 0x1F00 0x300) (ucast c)
      = (0, [0x1000, 0x2000])"
    unfolding len by (simp add: pulp_mem_get_user_pages_def kern_ok_def Let_def upt_rec)
  show "length [0x1000, 0x2000 :: page] = unat (pulp_mem_get_num_pages 0x1F00 0x300)" unfolding len by simp
qed (simp_all add: kern_ok_def list_all_iff)



theorem dma_failure_leaks_pages_witness:
  "\<exists>s'. pulp_dma_xfer_async kern_ok (\<lambda>_ _ _ _ l. \<not> l) True 0x1F00 0x10000 0x300 0 ex_dma = Some (- 16, s')
    \<and> (\<forall>p. Kern (PutPage p) \<notin> set (dma_log s'))"
  using dma_failure_leaks_pages [where ?addr_l3.0 = "0x1F00" and size_b = "0x300" and K = kern_ok and prep = "\<lambda>_ _ _ _ l. \<not> l" and dma_cmd = 0
      and pages = "[0x1000, 0x2000]" and addr_pulp = "0x10000" and s = ex_dma] ex_dma_pages(1) [of 0] ex_dma_pages(2-4) by (auto simp: ex_dma_def)

end
