(* ===== verification/Drv_Rab_Release.thy ===== *)
theory Drv_Rab_Release
  imports Drv_Rab_Stripe
begin

text \<open>
  Giving striped mappings back: \<open>pulp_rab_free_striped\<close> unpins the pages of every element exactly once, although several slices refer
  to them; and what switching to a mapping does to its striped elements.
\<close>

subsection \<open>Freeing the slices of an element\<close>

text \<open>An element holds its pages in a mapping: all its slices, and no others, refer to its field of page pointers, and each covers all
  pages.\<close>

definition elem_held :: "L1TlbMappingPort1 \<Rightarrow> RabStripeElem \<Rightarrow> page list \<Rightarrow> bool" where
  "elem_held m el pages \<longleftrightarrow>
     (let f = el_page_ptr_idx el; ks = slice_idxs el
      in el_n_slices el = length ks \<and> ks \<noteq> [] \<and> distinct ks \<and> pages \<noteq> [] \<and>
         (\<forall>k \<in> set ks. k < 32 \<and> e_page_ptr_idx (slices m ! k) = f \<and> e_page_idx_start (slices m ! k) = 0
            \<and> Suc (unat (e_page_idx_end (slices m ! k))) = length pages) \<and>
         f < 32 \<and> page_ptrs m ! f = Some pages \<and> page_ptr_ref_cntrs m ! f = of_nat (length ks))"

definition m_shape :: "L1TlbMappingPort1 \<Rightarrow> bool" where
  "m_shape m \<longleftrightarrow> length (slices m) = 32 \<and> length (page_ptrs m) = 32 \<and> length (page_ptr_ref_cntrs m) = 32"

text \<open>The mapping after the first \<open>n\<close> slices of an element were freed.\<close>

definition freed_upto :: "RabStripeElem \<Rightarrow> nat \<Rightarrow> L1TlbMappingPort1 \<Rightarrow> L1TlbMappingPort1" where
  "freed_upto el n m =
     (let f = el_page_ptr_idx el; ks = slice_idxs el
      in m\<lparr>slices := map (\<lambda>k. if k \<in> set (take n ks) then clear1 (slices m ! k) else slices m ! k) [0 ..< 32],
           page_ptrs := (if n = length ks then (page_ptrs m)[f := None] else page_ptrs m),
           page_ptr_ref_cntrs := (page_ptr_ref_cntrs m)[f := of_nat (length ks - n)]\<rparr>)"

lemma freed_upto_0: "m_shape m \<Longrightarrow> elem_held m el pages \<Longrightarrow> freed_upto el 0 m = m"
proof -
  assume m: "m_shape m" "elem_held m el pages"
  have "map ((!) (slices m)) [0 ..< 32] = slices m" using m(1) map_nth [of "slices m"] by (simp add: m_shape_def)
  moreover have "(page_ptr_ref_cntrs m)[el_page_ptr_idx el := of_nat (length (slice_idxs el))] = page_ptr_ref_cntrs m"
    using m(2) list_update_id [of "page_ptr_ref_cntrs m" "el_page_ptr_idx el"] by (simp add: elem_held_def Let_def)
  ultimately show ?thesis using m(2) by (simp add: freed_upto_def Let_def elem_held_def)
qed

lemma held_few: "elem_held m el pages \<Longrightarrow> length (slice_idxs el) \<le> 32"
proof -
  assume h: "elem_held m el pages"
  then have "set (slice_idxs el) \<subseteq> {..< 32}" "distinct (slice_idxs el)" by (auto simp: elem_held_def Let_def)
  then show ?thesis using card_mono [of "{..< 32 :: nat}" "set (slice_idxs el)"] by (simp add: distinct_card)
qed

lemma free_entry_step:
  assumes m: "m_shape m" "elem_held m el pages" and n: "n < length (slice_idxs el)"
  shows "free_entry fl (slice_idxs el ! n) (freed_upto el n m) = freed_upto el (Suc n) m"
proof -
  define f ks k where "f = el_page_ptr_idx el" and "ks = slice_idxs el" and "k = ks ! n"
  define m' where "m' = freed_upto el n m"
  note h = m(2) [unfolded elem_held_def Let_def, folded f_def ks_def]
  have "distinct (take n ks @ ks ! n # drop (Suc n) ks)" using h id_take_nth_drop [of n ks] n by (simp add: ks_def)
  then have k: "k < 32" "k \<in> set ks" "k \<notin> set (take n ks)" using h n by (simp_all add: k_def ks_def)
  have r: "length (slices m) = 32" "length (page_ptr_ref_cntrs m) = 32" "length (page_ptrs m) = 32" using m(1) by (simp_all add: m_shape_def)
  have m': "slices m' = map (\<lambda>k. if k \<in> set (take n ks) then clear1 (slices m ! k) else slices m ! k) [0 ..< 32]"
    "page_ptrs m' = page_ptrs m" "page_ptr_ref_cntrs m' = (page_ptr_ref_cntrs m)[f := of_nat (length ks - n)]"
    using n by (simp_all add: m'_def freed_upto_def Let_def f_def ks_def)
  have sk: "slices m' ! k = slices m ! k" using k by (simp add: m')
  have f: "f < 32" "page_ptrs m ! f = Some pages" "e_page_ptr_idx (slices m ! k) = f" using h k by auto
  have dec: "(of_nat (length ks - n) :: u32) - 1 = of_nat (length ks - Suc n)"
    using n by (simp add: ks_def of_nat_diff)
  have zero: "(of_nat (length ks - Suc n) :: u32) = 0 \<longleftrightarrow> Suc n = length ks"
    using of_nat_small_0 [of "length ks - Suc n"] held_few [OF m(2)] n by (auto simp: ks_def)
  have upd: "(map (\<lambda>k. if k \<in> set (take n ks) then clear1 (slices m ! k) else slices m ! k) [0 ..< 32])[k := clear1 (slices m ! k)]
      = map (\<lambda>k. if k \<in> set (take (Suc n) ks) then clear1 (slices m ! k) else slices m ! k) [0 ..< 32]"
    using n k(1) by (intro nth_equalityI) (auto simp: nth_list_update take_Suc_conv_app_nth ks_def k_def)
  have cf: "page_ptr_ref_cntrs m' ! f = of_nat (length ks - n)" using f(1) r by (simp add: m')
  have R: "slices (free_refs fl k m') = slices m'"
    "page_ptr_ref_cntrs (free_refs fl k m') = (page_ptr_ref_cntrs m)[f := of_nat (length ks - Suc n)]"
    "page_ptrs (free_refs fl k m') = (if Suc n = length ks then (page_ptrs m)[f := None] else page_ptrs m)"
    unfolding free_refs_def sk f(3) m'(2) f(2) option.case Let_def cf dec
    using f(1) r zero by (simp_all add: m')
  show ?thesis
    unfolding m'_def [symmetric] ks_def [symmetric] k_def [symmetric]
  proof (rule L1TlbMappingPort1.equality)
    show "slices (free_entry fl k m') = slices (freed_upto el (Suc n) m)"
      using upd sk by (simp add: free_entry_def Let_def R m'(1) freed_upto_def ks_def [symmetric])
    show "page_ptrs (free_entry fl k m') = page_ptrs (freed_upto el (Suc n) m)"
      by (simp add: free_entry_def Let_def R freed_upto_def ks_def [symmetric] f_def [symmetric])
    show "page_ptr_ref_cntrs (free_entry fl k m') = page_ptr_ref_cntrs (freed_upto el (Suc n) m)"
      by (simp add: free_entry_def Let_def R freed_upto_def ks_def [symmetric] f_def [symmetric])
  qed simp
qed

text \<open>The calls into the kernel: nothing for all slices but the last one, which unlocks all pages and releases the array.\<close>

lemma free_calls_step:
  assumes m: "m_shape m" "elem_held m el pages" and n: "n < length (slice_idxs el)"
  defines "fl \<equiv> if n < el_n_slices el - 1 then BIT_SET 0 RAB_FLAGS_DRV_STRIPED else 0"
  shows "puts (free_calls K fl flags_hw (slice_idxs el ! n) (freed_upto el n m)) = (if Suc n = length (slice_idxs el) then pages else [])"
proof -
  define k where "k = slice_idxs el ! n"
  note h = m(2) [unfolded elem_held_def Let_def]
  have "distinct (take n (slice_idxs el) @ k # drop (Suc n) (slice_idxs el))"
    using h id_take_nth_drop [of n "slice_idxs el"] n by (simp add: k_def)
  then have k: "k < 32" "k \<in> set (slice_idxs el)" "k \<notin> set (take n (slice_idxs el))" using h n by (simp_all add: k_def)
  have fl: "bit fl 1 \<longleftrightarrow> Suc n \<noteq> length (slice_idxs el)" "\<not> bit fl 2"
    using h n by (auto simp: fl_def RAB_FLAGS_DRV_STRIPED_def bit_numeral_rec)
  have "slice_pages (freed_upto el n m) k = pages"
  proof -
    have e: "slices (freed_upto el n m) ! k = slices m ! k" "page_ptrs (freed_upto el n m) = page_ptrs m"
      using k n by (simp_all add: freed_upto_def Let_def)
    have "map ((!) pages) [0 ..< length pages] = pages" by (rule map_nth)
    then show ?thesis using h k by (simp add: slice_pages_def e)
  qed
  then show ?thesis using fl by (simp add: puts_free_calls k_def)
qed

lemma slice_free_port1:
  assumes "rq_port req = 1" "\<not> soc_mh_is_ena s"
  shows "\<exists>h. pulp_rab_slice_free K s req = s\<lparr>mappings := (mappings s)[rq_mapping req :=
        free_entry (rq_flags_drv req) (rq_slice req) (mappings s ! rq_mapping req)], hw := h,
      kern_log := kern_log s @ free_calls K (rq_flags_drv req) (ucast (hw s (rab_entry 1 (rq_slice req) + RAB_SLICE_FLAGS_OFFSET_B)))
        (rq_slice req) (mappings s ! rq_mapping req)\<rparr>"
proof -
  define off where "off = rab_entry (rq_port req) (rq_slice req) + RAB_SLICE_FLAGS_OFFSET_B"
  define h where "h = (if free_clears_hw s req (ucast (hw s off)) then (hw s)(off := 0) else hw s)"
  have "(if free_clears_hw s req (ucast (hw s off)) then iowrite off 0 s else s) = s\<lparr>hw := h\<rparr>"
    by (simp add: h_def iowrite_def)
  then have "pulp_rab_slice_free K s req = s\<lparr>mappings := (mappings s)[rq_mapping req :=
        free_entry (rq_flags_drv req) (rq_slice req) (mappings s ! rq_mapping req)], hw := h,
      kern_log := kern_log s @ free_calls K (rq_flags_drv req) (ucast (hw s off)) (rq_slice req) (mappings s ! rq_mapping req)\<rparr>"
    using assms unfolding pulp_rab_slice_free_def Let_def pulp_rab_slice_is_managed_by_host_def off_def [symmetric]
    by (simp add: upd_mapping_def)
  then show ?thesis using assms(1) unfolding off_def by auto
qed

lemma free_striped_slices:
  assumes m: "m_shape m" "elem_held m el pages" and s: "mappings s ! j = m" "j < length (mappings s)" "\<not> soc_mh_is_ena s"
    and req: "rq_port req = 1" "rq_mapping req = j" and n: "n \<le> length (slice_idxs el)"
  shows "\<exists>h l. foldl (free_striped_slice K req el) s [0 ..< n]
      = s\<lparr>mappings := (mappings s)[j := freed_upto el n m], hw := h, kern_log := kern_log s @ l\<rparr>
    \<and> puts l = (if n = length (slice_idxs el) then pages else [])"
  using n
proof (induction n)
  case 0
  have "0 \<noteq> length (slice_idxs el)" using m(2) by (auto simp: elem_held_def Let_def)
  then show ?case using freed_upto_0 [OF m] s list_update_id [of "mappings s" j]
    by (intro exI [of _ "hw s"] exI [of _ "[]"]) simp
next
  case (Suc n)
  then obtain h l where IH: "foldl (free_striped_slice K req el) s [0 ..< n]
      = s\<lparr>mappings := (mappings s)[j := freed_upto el n m], hw := h, kern_log := kern_log s @ l\<rparr>" "puts l = []"
    by auto
  define t where "t = s\<lparr>mappings := (mappings s)[j := freed_upto el n m], hw := h, kern_log := kern_log s @ l\<rparr>"
  define fl where "fl = (if n < el_n_slices el - 1 then BIT_SET 0 RAB_FLAGS_DRV_STRIPED else 0)"
  define k where "k = slice_idxs el ! n"
  have n: "n < length (slice_idxs el)" using Suc.prems by simp
  obtain h' where "free_striped_slice K req el t n = t\<lparr>mappings := (mappings t)[j := free_entry fl k (freed_upto el n m)], hw := h',
      kern_log := kern_log t @ free_calls K fl (ucast (hw t (rab_entry 1 k + RAB_SLICE_FLAGS_OFFSET_B))) k (freed_upto el n m)\<rparr>"
    using req s slice_free_port1 [of "req\<lparr>rq_flags_hw := el_flags_hw el, rq_slice := k, rq_flags_drv := fl\<rparr>" t K]
    unfolding free_striped_slice_def fl_def [symmetric] k_def [symmetric] by (auto simp: t_def)
  moreover define c where "c = free_calls K fl (ucast (hw t (rab_entry 1 k + RAB_SLICE_FLAGS_OFFSET_B))) k (freed_upto el n m)"
  moreover have "free_entry fl k (freed_upto el n m) = freed_upto el (Suc n) m" unfolding k_def by (rule free_entry_step [OF m n])
  ultimately have "foldl (free_striped_slice K req el) s [0 ..< Suc n]
      = s\<lparr>mappings := (mappings s)[j := freed_upto el (Suc n) m], hw := h', kern_log := kern_log s @ l @ c\<rparr>"
    using IH(1) s(2) by (simp add: t_def [symmetric]) (simp add: t_def)
  moreover have "puts (l @ c) = (if Suc n = length (slice_idxs el) then pages else [])"
    using IH(2) free_calls_step [OF m n, of K] unfolding c_def fl_def k_def by simp
  ultimately show ?case by blast
qed

text \<open>The elements of a request: each holds its pages, and no two share a slice or a field.\<close>

definition elems_held :: "L1TlbMappingPort1 \<Rightarrow> (RabStripeElem \<times> page list) list \<Rightarrow> bool" where
  "elems_held m xs \<longleftrightarrow> m_shape m \<and> (\<forall>(el, pages) \<in> set xs. elem_held m el pages)
     \<and> distinct (map (el_page_ptr_idx \<circ> fst) xs) \<and> distinct (concat (map (slice_idxs \<circ> fst) xs))"

lemma freed_shape: "m_shape m \<Longrightarrow> m_shape (freed_upto el n m)"
  by (simp add: m_shape_def freed_upto_def Let_def)

lemma elem_held_other:
  assumes "elem_held m el' pages" "el_page_ptr_idx el' \<noteq> el_page_ptr_idx el" "set (slice_idxs el') \<inter> set (slice_idxs el) = {}"
  shows "elem_held (freed_upto el n m) el' pages"
proof -
  have "slices (freed_upto el n m) ! k = slices m ! k" if "k \<in> set (slice_idxs el')" "k < 32" for k
    using assms(3) that set_take_subset [of n "slice_idxs el"] by (auto simp: freed_upto_def Let_def)
  then show ?thesis using assms(1,2) by (auto simp: elem_held_def Let_def freed_upto_def)
qed

lemma free_striped_elems:
  assumes "elems_held m xs" "mappings s ! j = m" "j < length (mappings s)" "\<not> soc_mh_is_ena s" "rq_port req = 1" "rq_mapping req = j"
  shows "\<exists>h l. foldl (free_striped_elem K req) s (map fst xs)
      = s\<lparr>mappings := (mappings s)[j := foldl (\<lambda>m el. freed_upto el (length (slice_idxs el)) m) m (map fst xs)], hw := h,
          kern_log := kern_log s @ l\<rparr> \<and> puts l = concat (map snd xs)"
  using assms(1-4)
proof (induction xs arbitrary: s m)
  case Nil
  then show ?case using list_update_id [of "mappings s" j] by (intro exI [of _ "hw s"] exI [of _ "[]"]) simp
next
  case (Cons x xs)
  obtain el pages where x: "x = (el, pages)" by (cases x)
  define m' where "m' = freed_upto el (length (slice_idxs el)) m"
  have held: "m_shape m" "elem_held m el pages" using Cons.prems(1) by (auto simp: elems_held_def x)
  then have n: "el_n_slices el = length (slice_idxs el)" by (simp add: elem_held_def Let_def)
  obtain h l where 1: "free_striped_elem K req s el = s\<lparr>mappings := (mappings s)[j := m'], hw := h, kern_log := kern_log s @ l\<rparr>"
    "puts l = pages"
    using free_striped_slices [OF held Cons.prems(2-4) assms(5,6) order.refl, of K] unfolding free_striped_elem_def n m'_def by auto
  have "elem_held m' el' pages'" if "(el', pages') \<in> set xs" for el' pages'
    unfolding m'_def
  proof (rule elem_held_other)
    show "elem_held m el' pages'" using Cons.prems(1) that by (auto simp: elems_held_def)
    show "el_page_ptr_idx el' \<noteq> el_page_ptr_idx el" "set (slice_idxs el') \<inter> set (slice_idxs el) = {}"
      using Cons.prems(1) that by (force simp: elems_held_def x)+
  qed
  then have "elems_held m' xs" using Cons.prems(1) freed_shape [OF held(1)] by (auto simp: elems_held_def m'_def)
  then obtain h' l' where 2: "foldl (free_striped_elem K req) (s\<lparr>mappings := (mappings s)[j := m'], hw := h, kern_log := kern_log s @ l\<rparr>) (map fst xs)
      = s\<lparr>mappings := (mappings s)[j := m', j := foldl (\<lambda>m el. freed_upto el (length (slice_idxs el)) m) m' (map fst xs)], hw := h',
          kern_log := kern_log s @ l @ l'\<rparr>" "puts l' = concat (map snd xs)"
    using Cons.IH [of m' "s\<lparr>mappings := (mappings s)[j := m'], hw := h, kern_log := kern_log s @ l\<rparr>"] Cons.prems(3,4) by auto
  show ?case
    using 1 2 by (intro exI [of _ h'] exI [of _ "l @ l'"]) (simp add: x m'_def)
qed

lemma freed_all:
  assumes "elems_held m xs"
  defines "m' \<equiv> foldl (\<lambda>m el. freed_upto el (length (slice_idxs el)) m) m (map fst xs)"
  shows "k < 32 \<Longrightarrow> slices m' ! k = (if \<exists>x \<in> set xs. k \<in> set (slice_idxs (fst x)) then clear1 (slices m ! k) else slices m ! k)"
    and "f < 32 \<Longrightarrow> page_ptrs m' ! f = (if \<exists>x \<in> set xs. f = el_page_ptr_idx (fst x) then None else page_ptrs m ! f)"
    and "f < 32 \<Longrightarrow> page_ptr_ref_cntrs m' ! f = (if \<exists>x \<in> set xs. f = el_page_ptr_idx (fst x) then 0 else page_ptr_ref_cntrs m ! f)"
proof -
  have "m_shape m" using assms(1) by (simp add: elems_held_def)
  then have "(k < 32 \<longrightarrow> slices m' ! k = (if \<exists>x \<in> set xs. k \<in> set (slice_idxs (fst x)) then clear1 (slices m ! k) else slices m ! k))
    \<and> (f < 32 \<longrightarrow> page_ptrs m' ! f = (if \<exists>x \<in> set xs. f = el_page_ptr_idx (fst x) then None else page_ptrs m ! f))
    \<and> (f < 32 \<longrightarrow> page_ptr_ref_cntrs m' ! f = (if \<exists>x \<in> set xs. f = el_page_ptr_idx (fst x) then 0 else page_ptr_ref_cntrs m ! f))"
    unfolding m'_def
  proof (induction xs arbitrary: m)
    case (Cons x xs)
    define n where "n = freed_upto (fst x) (length (slice_idxs (fst x))) m"
    have n: "k < 32 \<Longrightarrow> slices n ! k = (if k \<in> set (slice_idxs (fst x)) then clear1 (slices m ! k) else slices m ! k)"
      "f < 32 \<Longrightarrow> page_ptrs n ! f = (if f = el_page_ptr_idx (fst x) then None else page_ptrs m ! f)"
      "f < 32 \<Longrightarrow> page_ptr_ref_cntrs n ! f = (if f = el_page_ptr_idx (fst x) then 0 else page_ptr_ref_cntrs m ! f)"
      using Cons.prems by (simp_all add: n_def freed_upto_def Let_def m_shape_def nth_list_update)
    have "clear1 (clear1 e) = clear1 e" for e by (simp add: clear1_def)
    moreover have "m_shape n" unfolding n_def by (rule freed_shape [OF Cons.prems])
    ultimately show ?case using Cons.IH [of n] n by (auto simp: n_def [symmetric])
  qed simp
  then show "k < 32 \<Longrightarrow> slices m' ! k = (if \<exists>x \<in> set xs. k \<in> set (slice_idxs (fst x)) then clear1 (slices m ! k) else slices m ! k)"
    "f < 32 \<Longrightarrow> page_ptrs m' ! f = (if \<exists>x \<in> set xs. f = el_page_ptr_idx (fst x) then None else page_ptrs m ! f)"
    "f < 32 \<Longrightarrow> page_ptr_ref_cntrs m' ! f = (if \<exists>x \<in> set xs. f = el_page_ptr_idx (fst x) then 0 else page_ptr_ref_cntrs m ! f)"
    by blast+
qed


subsection \<open>Switching to a mapping with striped elements\<close>

lemma reset_stripes:
  assumes "m < length (stripe_reqs s)" "n \<le> length (sr_elements (stripe_reqs s ! m))"
  shows "foldl (\<lambda>s i. upd_elem m i g s) s [0 ..< n] = s\<lparr>stripe_reqs := (stripe_reqs s)[m := (stripe_reqs s ! m)
    \<lparr>sr_elements := map g (take n (sr_elements (stripe_reqs s ! m))) @ drop n (sr_elements (stripe_reqs s ! m))\<rparr>]\<rparr>"
  using assms(2)
proof (induction n)
  case 0
  have "(stripe_reqs s ! m)\<lparr>sr_elements := sr_elements (stripe_reqs s ! m)\<rparr> = stripe_reqs s ! m" by simp
  then show ?case by simp
next
  case (Suc n)
  then have n: "n < length (sr_elements (stripe_reqs s ! m))" by simp
  show ?case using Suc assms(1) update_prefix [OF n, of g] by (simp add: upd_elem_def)
qed

definition reset_stripe :: "RabStripeElem \<Rightarrow> RabStripeElem" where
  "reset_stripe el = el\<lparr>stripe_idx := (if el_type el = Out then 0 else 1)\<rparr>"

lemma switch_elements:
  assumes "m = (if mapping_active s \<noteq> 0 then 0 else 1)" "m < length (stripe_reqs s)"
  shows "mapping_active (pulp_rab_switch s) = m" "length (stripe_reqs (pulp_rab_switch s)) = length (stripe_reqs s)"
    "sr_elements (stripe_reqs (pulp_rab_switch s) ! m) = map reset_stripe (sr_elements (stripe_reqs s ! m))"
proof -
  obtain h where h: "pulp_rab_mapping_switch s m = s\<lparr>mapping_active := m, hw := h\<rparr>" using mapping_switch_state by blast
  define t where "t = s\<lparr>mapping_active := m, hw := h\<rparr>"
  have t: "stripe_reqs t = stripe_reqs s" "mapping_active t = m" by (simp_all add: t_def)
  have "pulp_rab_switch s = (foldl (\<lambda>s i. upd_elem m i reset_stripe s) t [0 ..< length (sr_elements (stripe_reqs t ! m))])
      \<lparr>kern_log := kern_log (foldl (\<lambda>s i. upd_elem m i reset_stripe s) t [0 ..< length (sr_elements (stripe_reqs t ! m))])
         @ [MboxWrite HOST_READY]\<rparr>"
    unfolding pulp_rab_switch_def pulp_rab_mapping_get_active_def assms(1) [symmetric] Let_def h t_def [symmetric] reset_stripe_def [abs_def] ..
  then show "mapping_active (pulp_rab_switch s) = m" "length (stripe_reqs (pulp_rab_switch s)) = length (stripe_reqs s)"
    "sr_elements (stripe_reqs (pulp_rab_switch s) ! m) = map reset_stripe (sr_elements (stripe_reqs s ! m))"
    using reset_stripes [of m t "length (sr_elements (stripe_reqs t ! m))" reset_stripe] assms(2) t by simp_all
qed

text \<open>Switching to a mapping resets the stripe of its elements but not the rotation of their sets. If the rotation of an element stands
  before its first set (as after a pass over an odd number of stripes), the first update after the switch configures stripe 1
  in set 0, the set in which the mapping that was switched in holds stripe 0.\<close>

theorem switch_overwrites_first_stripe:
  assumes "m = (if mapping_active s \<noteq> 0 then 0 else 1)" "m < length (stripe_reqs s)" "sr_elements (stripe_reqs s ! m) = els"
    and "elems_ok els" "\<forall>el \<in> set els. 1 < el_n_stripes el"
    and "i < length els" "i < 8" "bit update_req i" "el_type (els ! i) \<noteq> Out" "set_offset (els ! i) = n_sets (el_type (els ! i)) - 1"
  shows "let s1 = pulp_rab_switch s; el = sr_elements (stripe_reqs s1 ! m) ! i; s2 = pulp_rab_update s1 update_req
    in stripe_idx el = 1 \<and> set_sel el = 0 \<and> (\<forall>j < el_n_slices_per_stripe el. shows_stripe (hw s2) (elem_slice el 0 j) el j)"
proof -
  define s1 els1 where "s1 = pulp_rab_switch s" and "els1 = map reset_stripe els"
  note sw = switch_elements [OF assms(1,2), folded s1_def, unfolded assms(3), folded els1_def]
  have "slice_idxs \<circ> reset_stripe = slice_idxs" by (auto simp: reset_stripe_def)
  then have "elems_ok els1"
    using assms(4,5) by (auto simp: elems_ok_def elem_ok_def els1_def reset_stripe_def)
  then obtain h where h: "hw (pulp_rab_update s1 update_req) = h" "\<forall>i < length els1. bit (ucast (BF_GET (ucast update_req) 0 8) :: u32) i \<longrightarrow>
      (\<forall>j < el_n_slices_per_stripe (els1 ! i). shows_stripe h (elem_slice (els1 ! i) (set_sel (els1 ! i)) j) (els1 ! i) j)"
    using update_effect [of s1 els1 update_req] sw assms(2) by auto
  have el: "els1 ! i = (els ! i)\<lparr>stripe_idx := 1\<rparr>" using assms(6,9) by (simp add: els1_def reset_stripe_def)
  have sel: "set_sel (els1 ! i) = 0" using assms(9,10) by (simp add: el set_sel_mod n_sets_def split: if_splits)
  have "i < length els1" using assms(6) by (simp add: els1_def)
  then have "\<forall>j < el_n_slices_per_stripe (els1 ! i). shows_stripe h (elem_slice (els1 ! i) 0 j) (els1 ! i) j"
    using h(2) assms(7,8) unfolding elem_mask_bit by (simp add: sel [symmetric])
  moreover have "stripe_idx (els1 ! i) = 1" by (simp add: el)
  ultimately show ?thesis unfolding Let_def s1_def [symmetric] sw(3) h(1) using sel by blast
qed

subsection \<open>Concrete elements\<close>

theorem switch_overwrites_first_stripe_witness:
  "let s1 = pulp_rab_switch ex_striped; s2 = pulp_rab_update s1 1
   in stripe_idx (sr_elements (stripe_reqs s1 ! 1) ! 0) = 1 \<and> hw s2 (28 * 4 + 4096 + 16) = 0x70002"
proof -
  have a: "1 = (if mapping_active ex_striped \<noteq> 0 then 0 else 1 :: nat)" "1 < length (stripe_reqs ex_striped)"
    "sr_elements (stripe_reqs ex_striped ! 1) = [ex_elem]" "\<forall>el \<in> set [ex_elem]. 1 < el_n_stripes el" "0 < length [ex_elem]"
    "(0 :: nat) < 8" "bit (1 :: u32) 0" "el_type ([ex_elem] ! 0) \<noteq> Out" "set_offset ([ex_elem] ! 0) = n_sets (el_type ([ex_elem] ! 0)) - 1"
    by (simp_all add: ex_striped_simps ex_elem_def n_sets_def)
  define el where "el = sr_elements (stripe_reqs (pulp_rab_switch ex_striped) ! 1) ! 0"
  have el: "el = ex_elem\<lparr>stripe_idx := 1\<rparr>"
    using switch_elements(3) [OF a(1,2)] by (simp add: el_def ex_striped_simps reset_stripe_def ex_elem_def)
  have "shows_stripe (hw (pulp_rab_update (pulp_rab_switch ex_striped) 1)) (elem_slice el 0 0) el 0"
    using switch_overwrites_first_stripe [OF a(1-3) ex_elem_ok a(4-9)] unfolding Let_def el_def [symmetric]
    by (simp add: el ex_elem_def)
  then show ?thesis
    unfolding Let_def el_def [symmetric]
    by (simp add: el shows_stripe_def Let_def ex_elem_def ex_stripe_def entry_nums elem_slice_def)
qed

lemma ex_elems_held: "elems_held (mappings ex_striped ! j) [(ex_elem, [0x11, 0x22])]" if "j < 2"
  using that by (auto simp: elems_held_def m_shape_def elem_held_def ex_striped_def ex_mapping_def ex_entry_def ex_elem_def Let_def)


end
