(* ===== verification/Drv_Rab_Wf.thy ===== *)
theory Drv_Rab_Wf
  imports Drv_Rab_Release
begin

text \<open>
  The shape of the data that \<open>pulp_rab_req_striped\<close> builds: a request that succeeds leaves elements on which \<open>pulp_rab_update\<close> and
  \<open>pulp_rab_free_striped\<close> never index beyond an array, and no slice belongs to two sets or two elements.
\<close>

definition elem_typed :: "RabStripeElem \<Rightarrow> bool" where
  "elem_typed el \<longleftrightarrow>
     el_n_slices el = n_sets (el_type el) * el_n_slices_per_stripe el \<and> length (slice_idxs el) = el_n_slices el
     \<and> (\<forall>k \<in> set (slice_idxs el). k < RAB_L1_N_SLICES_PORT_1) \<and> set_offset el < n_sets (el_type el)
     \<and> stripe_idx el = 1 \<and> length (stripes el) = el_n_stripes el \<and> 0 < el_n_stripes el
     \<and> (\<forall>st \<in> set (stripes el). length (slice_configs st) = st_n_slices st)"

text \<open>The expiration dates of the slices of a mapping.\<close>

definition dates :: "nat \<Rightarrow> rab \<Rightarrow> u8 list" where
  "dates m s = map e_date_exp (slices (mappings s ! m))"

definition req_fixed :: "nat \<Rightarrow> RabSliceReq \<Rightarrow> bool" where
  "req_fixed m req \<longleftrightarrow> rq_port req = 1 \<and> rq_mapping req = m \<and> rq_date_cur req = 1 \<and> rq_date_exp req = RAB_MAX_DATE"

lemma slice_get_expired:
  assumes "pulp_rab_slice_get s req = (0, req')" "req_fixed m req" "length (dates m s) = 32"
  shows "rq_slice req' < 32 \<and> dates m s ! rq_slice req' = 0 \<and> req_fixed m req'"
proof -
  obtain k where k: "req' = req\<lparr>rq_slice := k\<rparr>" "k < 32" "pulp_rab_slice_check s (req\<lparr>rq_slice := k\<rparr>)"
    using assms(1,2) by (auto simp: pulp_rab_slice_get_def find_Some_iff n_slices_of_def RAB_L1_N_SLICES_PORT_1_def req_fixed_def
        split: option.splits)
  have "e_date_exp (slices (mappings s ! m) ! k) < 1"
    using k(3) assms(2) by (auto simp: pulp_rab_slice_check_def req_fixed_def Let_def)
  then show ?thesis using k(1,2) assms(2,3) by (simp add: dates_def req_fixed_def)
qed

lemma slice_free_dates:
  assumes "req_fixed m req" "m < length (mappings s)"
  shows "dates m (pulp_rab_slice_free K s req) \<in> {dates m s, (dates m s)[rq_slice req := 0]}"
    "length (mappings (pulp_rab_slice_free K s req)) = length (mappings s)" "stripe_reqs (pulp_rab_slice_free K s req) = stripe_reqs s"
  using assms by (auto simp: pulp_rab_slice_free_def req_fixed_def dates_def Let_def upd_mapping_def iowrite_def map_update clear1_def)

lemma slice_setup_dates:
  assumes "pulp_rab_slice_setup s req pages = (0, s')" "req_fixed m req" "m < length (mappings s)"
  shows "dates m s' = (dates m s)[rq_slice req := RAB_MAX_DATE]" "length (mappings s') = length (mappings s)"
    "stripe_reqs s' = stripe_reqs s"
  using assms
  by (auto simp: pulp_rab_slice_setup_def req_fixed_def dates_def Let_def upd_mapping_def setup_refs_def write_slice_def iowrite_def
      map_update setup1_def EIO_def split: if_splits)

lemma slice_step_dates:
  assumes "striped_slice_step K pages (0, req, el, s) j = (0, req', el', s')" "req_fixed m req" "m < length (mappings s)"
    "length (dates m s) = 32"
  shows "\<exists>k < 32. el' = el\<lparr>slice_idxs := slice_idxs el @ [k]\<rparr> \<and> dates m s ! k = 0 \<and> dates m s' = (dates m s)[k := RAB_MAX_DATE]
    \<and> req_fixed m req' \<and> length (mappings s') = length (mappings s) \<and> stripe_reqs s' = stripe_reqs s"
proof -
  define req0 where "req0 = striped_slice_req el j req"
  have r0: "req_fixed m req0" using assms(2) by (simp add: req0_def striped_slice_req_def req_fixed_def Let_def)
  obtain req1 where g: "pulp_rab_slice_get s req0 = (0, req1)" "req' = req1" "el' = el\<lparr>slice_idxs := slice_idxs el @ [rq_slice req1]\<rparr>"
    "pulp_rab_slice_setup (pulp_rab_slice_free K s req1) req1 (Some pages) = (0, s')"
    using assms(1) by (auto simp: striped_slice_step_def req0_def [symmetric] split: prod.splits if_splits)
  note k = slice_get_expired [OF g(1) r0 assms(4)]
  then have r1: "req_fixed m req1" by blast
  note f = slice_free_dates [OF r1 assms(3), of K]
  have d: "dates m s' = (dates m s)[rq_slice req1 := RAB_MAX_DATE]"
    using slice_setup_dates(1) [OF g(4) r1] f(1,2) assms(3) by auto
  show ?thesis using d g(2,3) k slice_setup_dates(2,3) [OF g(4) r1] f(2,3) assms(3) by auto
qed

text \<open>The loop over the slices of one element.\<close>

lemma slice_steps_dates:
  assumes "foldl (striped_slice_step K pages) (0, req, el, s) js = (0, req', el', s')" "req_fixed m req" "m < length (mappings s)"
    "length (dates m s) = 32"
  shows "\<exists>ks. length ks = length js \<and> distinct ks \<and> el' = el\<lparr>slice_idxs := slice_idxs el @ ks\<rparr> \<and>
    (\<forall>k \<in> set ks. k < 32 \<and> dates m s ! k = 0 \<and> dates m s' ! k = RAB_MAX_DATE) \<and> (\<forall>k < 32. k \<notin> set ks \<longrightarrow> dates m s' ! k = dates m s ! k)
    \<and> length (dates m s') = 32 \<and> length (mappings s') = length (mappings s) \<and> stripe_reqs s' = stripe_reqs s"
  using assms
proof (induction js arbitrary: req el s)
  case Nil
  then show ?case by simp
next
  case (Cons j js)
  obtain err1 req1 el1 s1 where 1: "striped_slice_step K pages (0, req, el, s) j = (err1, req1, el1, s1)"
    by (metis prod_cases4)
  have stuck: "foldl (striped_slice_step K pages) (e, r) js = (e, r)" if "e \<noteq> 0" for e r js
    using that by (induction js) (simp_all add: striped_slice_step_def split: prod.splits)
  have e1: "err1 = 0" using Cons.prems(1) 1 stuck [of err1 "(req1, el1, s1)" js] by (cases "err1 = 0") auto
  obtain k where k: "k < 32" "el1 = el\<lparr>slice_idxs := slice_idxs el @ [k]\<rparr>" "dates m s ! k = 0" "dates m s1 = (dates m s)[k := RAB_MAX_DATE]"
    "req_fixed m req1" "length (mappings s1) = length (mappings s)" "stripe_reqs s1 = stripe_reqs s"
    using slice_step_dates [OF 1 [unfolded e1] Cons.prems(2-4)] by blast
  have l1: "length (dates m s1) = 32" using k(4) Cons.prems(4) by simp
  obtain ks where ks: "length ks = length js" "distinct ks" "el' = el1\<lparr>slice_idxs := slice_idxs el1 @ ks\<rparr>"
    "\<forall>k \<in> set ks. k < 32 \<and> dates m s1 ! k = 0 \<and> dates m s' ! k = RAB_MAX_DATE"
    "\<forall>k < 32. k \<notin> set ks \<longrightarrow> dates m s' ! k = dates m s1 ! k"
    "length (dates m s') = 32" "length (mappings s') = length (mappings s1)" "stripe_reqs s' = stripe_reqs s1"
    using Cons.IH [OF _ k(5) _ l1, of el1] Cons.prems(1,3) 1 e1 k(6) by auto
  have nk: "k \<notin> set ks" using ks(4) k(1,4) Cons.prems(4) by auto
  have old: "dates m s1 ! i = dates m s ! i" if "i \<noteq> k" for i using k(4) that by simp
  have new: "dates m s' ! k = RAB_MAX_DATE" using ks(5) nk k(1,4) Cons.prems(4) by simp
  show ?case
  proof (intro exI [of _ "k # ks"] conjI ballI allI impI)
    fix i assume "i \<in> set (k # ks)"
    then have i: "i = k \<or> i \<noteq> k \<and> i \<in> set ks" by auto
    show "i < 32" "dates m s ! i = 0" "dates m s' ! i = RAB_MAX_DATE" using i ks(4) k(1,3) new old [of i] by auto
  next
    fix i :: nat assume "i < 32" "i \<notin> set (k # ks)"
    then show "dates m s' ! i = dates m s ! i" using ks(5) old by simp
  qed (use ks k nk in simp_all)
qed

text \<open>The striping table has one entry per stripe.\<close>

lemma stripe_table_shape:
  assumes "foldl (stripe_step alloc segs starts ends) (Some (Inr (a, b, tab))) js = Some (Inr (a', b', tab'))"
    "\<forall>st \<in> set tab. length (slice_configs st) = st_n_slices st"
  shows "length tab' = length tab + length js \<and> (\<forall>st \<in> set tab'. length (slice_configs st) = st_n_slices st)"
  using assms
proof (induction js arbitrary: a b tab)
  case (Cons j js)
  have stuck: "foldl (stripe_step alloc segs starts ends) r js = r" if "\<nexists>x. r = Some (Inr x)" for r js
    using that by (induction js) (auto simp: stripe_step_def split: option.splits sum.splits)
  define r where "r = stripe_step alloc segs starts ends (Some (Inr (a, b, tab))) j"
  obtain a1 b1 tab1 where 1: "r = Some (Inr (a1, b1, tab1))"
    using stuck [of r js] Cons.prems(1) unfolding r_def by (metis foldl_Cons prod_cases3)
  then have "length tab1 = Suc (length tab)" "\<forall>st \<in> set tab1. length (slice_configs st) = st_n_slices st"
    using Cons.prems(2) by (auto simp: r_def stripe_step_def Let_def split: if_splits)
  then show ?case using Cons.IH [of a1 b1 tab1] Cons.prems(1) 1 by (simp add: r_def)
qed simp

lemma stripe_step_error: "r \<noteq> Some (Inl 0) \<Longrightarrow> stripe_step alloc segs starts ends r j \<noteq> Some (Inl 0)"
  by (cases r; cases "the r") (simp_all add: stripe_step_def ENOMEM_def Let_def split: prod.split)

lemma stripe_table_error: "stripe_table alloc segs starts ends \<noteq> Some (Inl 0)"
proof -
  have "foldl (stripe_step alloc segs starts ends) r js \<noteq> Some (Inl 0)" if "r \<noteq> Some (Inl 0)" for r js
    using that by (induction js arbitrary: r) (simp_all add: stripe_step_error)
  then show ?thesis by (simp add: stripe_table_def)
qed

lemma n_sets_elem: "el_n_slices (elem_of_user u) = n_sets (eu_type u) * el_n_slices_per_stripe (elem_of_user u)"
  by (simp add: elem_of_user_def n_sets_def Let_def)

text \<open>One element: what a successful request has passed through.\<close>

lemma req_striped_elem_success:
  assumes "req_striped_elem K alloc m u req s = Some (0, r)"
  shows "eu_stripe_addr_start u \<noteq> [] \<and> (\<exists>segs a b tab l pages.
    stripe_table alloc segs (eu_stripe_addr_start u) (eu_stripe_addr_end u) = Some (Inr (a, b, tab))
    \<and> striped_slices K pages (striped_req (elem_of_user u) m segs req) ((elem_of_user u)\<lparr>stripes := tab\<rparr>) (s\<lparr>kern_log := l\<rparr>) = (0, r))"
proof -
  have ne: "(- ENOMEM :: int) \<noteq> 0" by (simp add: ENOMEM_def)
  have te: "stripe_table alloc segs starts ends = Some (Inl err) \<Longrightarrow> err \<noteq> 0" for segs starts ends err
    using stripe_table_error [of alloc segs starts ends] by auto
  show ?thesis
    using assms ne te unfolding req_striped_elem_def Let_def
    by (simp split: if_splits prod.splits sum.splits option.splits) blast+
qed

lemma req_striped_elem_typed:
  assumes "req_striped_elem K alloc m u req s = Some (0, req', el, s')" "m < length (mappings s)" "length (dates m s) = 32"
  shows "elem_typed el \<and> el_n_stripes el = length (eu_stripe_addr_start u) \<and> distinct (slice_idxs el)
    \<and> (\<forall>k \<in> set (slice_idxs el). dates m s ! k = 0 \<and> dates m s' ! k = RAB_MAX_DATE)
    \<and> (\<forall>k < 32. k \<notin> set (slice_idxs el) \<longrightarrow> dates m s' ! k = dates m s ! k)
    \<and> length (dates m s') = 32 \<and> length (mappings s') = length (mappings s) \<and> stripe_reqs s' = stripe_reqs s"
proof -
  define el0 where "el0 = elem_of_user u"
  obtain segs a b tab l pages where ne: "eu_stripe_addr_start u \<noteq> []"
    and tab: "stripe_table alloc segs (eu_stripe_addr_start u) (eu_stripe_addr_end u) = Some (Inr (a, b, tab))"
    and sl: "striped_slices K pages (striped_req el0 m segs req) (el0\<lparr>stripes := tab\<rparr>) (s\<lparr>kern_log := l\<rparr>) = (0, req', el, s')"
    using req_striped_elem_success [OF assms(1)] unfolding el0_def by blast
  define s0 where "s0 = s\<lparr>kern_log := l\<rparr>"
  have s0: "mappings s0 = mappings s" "stripe_reqs s0 = stripe_reqs s" by (simp_all add: s0_def)
  have tb: "length tab = length (eu_stripe_addr_start u)" "\<forall>st \<in> set tab. length (slice_configs st) = st_n_slices st"
    using stripe_table_shape [OF tab [unfolded stripe_table_def]] by simp_all
  define req1 where "req1 = striped_req el0 m segs req"
  obtain req2 where f: "pulp_rab_page_ptrs_get_field s0 req1 = (0, req2)"
    "foldl (striped_slice_step K pages) (0, req2, el0\<lparr>stripes := tab, el_page_ptr_idx := rq_page_ptr_idx req2\<rparr>, s0) [0 ..< el_n_slices el0]
       = (0, req', el, s')"
    using sl unfolding s0_def [symmetric] by (auto simp: striped_slices_def req1_def [symmetric] Let_def split: prod.splits if_splits)
  have r2: "req_fixed m req2"
    using f(1) by (auto simp: pulp_rab_page_ptrs_get_field_def req1_def striped_req_def req_fixed_def split: option.splits)
  have d0: "dates m s0 = dates m s" using s0 by (simp add: dates_def)
  obtain ks where ks: "length ks = el_n_slices el0" "distinct ks"
    "el = el0\<lparr>stripes := tab, el_page_ptr_idx := rq_page_ptr_idx req2, slice_idxs := slice_idxs el0 @ ks\<rparr>"
    "\<forall>k \<in> set ks. k < 32 \<and> dates m s ! k = 0 \<and> dates m s' ! k = RAB_MAX_DATE"
    "\<forall>k < 32. k \<notin> set ks \<longrightarrow> dates m s' ! k = dates m s ! k"
    "length (dates m s') = 32" "length (mappings s') = length (mappings s)" "stripe_reqs s' = stripe_reqs s"
    using slice_steps_dates [OF f(2) r2] assms(2,3) s0 d0 by auto
  have "slice_idxs el0 = []" "set_offset el0 = 0" "stripe_idx el0 = 1" "el_n_stripes el0 = length (eu_stripe_addr_start u)" "el_type el0 = eu_type u"
    by (simp_all add: el0_def elem_of_user_def Let_def)
  then show ?thesis using ks tb ne n_sets_elem [of u, folded el0_def]
    by (simp add: elem_typed_def RAB_L1_N_SLICES_PORT_1_def n_sets_def)
qed

text \<open>The loop over the elements: the slices of all elements have the latest date, so that no later element is given one of them.\<close>

lemma req_striped_loop:
  assumes "foldl (req_striped_step K alloc m us) (Some (0, req, els, s)) js = Some (0, req', els', s')"
    "m < length (mappings s)" "length (dates m s) = 32" "\<forall>el \<in> set els. elem_typed el"
    "distinct (concat (map slice_idxs els))" "\<forall>k \<in> set (concat (map slice_idxs els)). dates m s ! k = RAB_MAX_DATE"
  shows "(\<forall>el \<in> set els'. elem_typed el) \<and> distinct (concat (map slice_idxs els'))
    \<and> map el_n_stripes els' = map el_n_stripes els @ map (\<lambda>i. length (eu_stripe_addr_start (us ! i))) js
    \<and> length (mappings s') = length (mappings s) \<and> stripe_reqs s' = stripe_reqs s"
  using assms
proof (induction js arbitrary: req els s)
  case (Cons i js)
  have stuck: "foldl (req_striped_step K alloc m us) r js \<noteq> Some (0, req', els', s')" if "r = None \<or> (\<exists>e x. r = Some (e, x) \<and> e \<noteq> 0)" for r js
    using that by (induction js arbitrary: r) (auto simp: req_striped_step_def)
  define r where "r = req_striped_elem (K i) (alloc i) m (us ! i) req s"
  have step: "req_striped_step K alloc m us (Some (0, req, els, s)) i = map_option (\<lambda>(err, req, el, s). (err, req, els @ [el], s)) r"
    by (simp add: req_striped_step_def r_def)
  note fold = Cons.prems(1) [unfolded foldl_Cons step]
  have "r \<noteq> None" using stuck [of None js] fold by (cases r) simp_all
  then obtain e req1 el s1 where r: "r = Some (e, req1, el, s1)" by auto
  have e: "e = 0" using stuck [of "Some (e, req1, els @ [el], s1)" js] fold [unfolded r] by (cases "e = 0") simp_all
  note 1 = r [unfolded e]
  note el = req_striped_elem_typed [OF 1 [unfolded r_def] Cons.prems(2,3)]
  have lt: "k < 32" if "el' \<in> set (els @ [el])" "k \<in> set (slice_idxs el')" for el' k
    using that el Cons.prems(4) by (auto simp: elem_typed_def RAB_L1_N_SLICES_PORT_1_def)
  have "distinct (concat (map slice_idxs (els @ [el])))" using el Cons.prems(5,6) by auto
  moreover have "\<forall>k \<in> set (concat (map slice_idxs (els @ [el]))). dates m s1 ! k = RAB_MAX_DATE"
    using el Cons.prems(6) lt by (auto simp: Ball_def) metis
  moreover have "foldl (req_striped_step K alloc m us) (Some (0, req1, els @ [el], s1)) js = Some (0, req', els', s')"
    using fold unfolding 1 by simp
  ultimately show ?case using Cons.IH [of req1 "els @ [el]" s1] el Cons.prems(2,4) by simp
qed simp

text \<open>C30: If \<open>pulp_rab_req_striped\<close> succeeds, the request it leaves for the mapping is well typed: there is one element per element
  of the user, with as many slice indices as its two or four sets need, all of them slices of port 1, one entry of the striping
  table per stripe, each with as many slices as it announces; all slices are different, within and across elements. If moreover
  every element has at least two stripes, the elements meet the requirements of \<open>pulp_rab_update\<close>.\<close>

theorem req_striped_typed:
  assumes "pulp_rab_req_striped K mem_ok alloc junk req_id us s = Some (0, s')" "length (mappings s) = 2" "length (stripe_reqs s) = 2"
    and "\<forall>mp \<in> set (mappings s). length (slices mp) = 32"
  shows "let els = sr_elements (stripe_reqs s' ! (unat req_id mod 2))
    in length (mappings s') = 2 \<and> length (stripe_reqs s') = 2 \<and> (\<forall>el \<in> set els. elem_typed el) \<and> distinct (concat (map slice_idxs els))
       \<and> map el_n_stripes els = map (\<lambda>u. length (eu_stripe_addr_start u)) us
       \<and> ((\<forall>u \<in> set us. 1 < length (eu_stripe_addr_start u)) \<longrightarrow> elems_ok els)"
proof -
  define m where "m = unat req_id mod 2"
  have m: "m < 2" by (simp add: m_def)
  obtain req els s1 where 1: "foldl (req_striped_step K alloc m us) (Some (0, junk, [], s)) [0 ..< length us] = Some (0, req, els, s1)"
    "s' = s1\<lparr>stripe_reqs := (stripe_reqs s1)[m := \<lparr>sr_id = req_id, sr_elements = els\<rparr>]\<rparr>"
    using assms(1) unfolding pulp_rab_req_striped_def RAB_L1_N_MAPPINGS_PORT_1_def m_def [symmetric]
    by (auto simp: Let_def ENOMEM_def split: if_splits option.splits)
  have "map ((!) us) [0 ..< length us] = us" by (rule map_nth)
  then have mp: "map (\<lambda>i. f (us ! i)) [0 ..< length us] = map f us" for f :: "RabStripeElemUser \<Rightarrow> nat"
    by (metis (no_types, lifting) map_map comp_def map_eq_conv)
  have d: "length (dates m s) = 32" using assms(2,4) m by (simp add: dates_def)
  have els: "\<forall>el \<in> set els. elem_typed el" "distinct (concat (map slice_idxs els))"
    "map el_n_stripes els = map (\<lambda>u. length (eu_stripe_addr_start u)) us" "length (mappings s1) = 2" "stripe_reqs s1 = stripe_reqs s"
    using req_striped_loop [OF 1(1) _ d] assms(2) m mp by simp_all
  have "elems_ok els" if "\<forall>u \<in> set us. 1 < length (eu_stripe_addr_start u)"
  proof -
    have "\<forall>n \<in> set (map el_n_stripes els). 1 < n" using that unfolding els(3) by simp
    then show ?thesis using els(1,2) by (auto simp: elems_ok_def elem_ok_def elem_typed_def)
  qed
  then show ?thesis using els m assms(3) by (simp add: 1(2) Let_def m_def [symmetric])
qed

subsection \<open>A request that succeeds\<close>

text \<open>A mapping whose unused slices refer to the reserved field 0, which has no pages.\<close>

definition idle_ok :: "nat \<Rightarrow> rab \<Rightarrow> bool" where
  "idle_ok m s \<longleftrightarrow> m < length (mappings s) \<and> m_shape (mappings s ! m) \<and> \<not> soc_mh_is_ena s \<and> page_ptrs (mappings s ! m) ! 0 = None
     \<and> (\<forall>k < 32. dates m s ! k = 0 \<longrightarrow> \<not> e_fixed (slices (mappings s ! m) ! k) \<and> e_page_ptr_idx (slices (mappings s ! m) ! k) = 0)"

definition free_of :: "nat \<Rightarrow> rab \<Rightarrow> nat set" where
  "free_of m s = {k. k < 32 \<and> dates m s ! k = 0}"

definition cntrs :: "nat \<Rightarrow> rab \<Rightarrow> u32 list" where
  "cntrs m s = page_ptr_ref_cntrs (mappings s ! m)"

lemma slice_get_finds:
  assumes "idle_ok m s" "req_fixed m req" "free_of m s \<noteq> {}"
  obtains k where "k \<in> free_of m s" "pulp_rab_slice_get s req = (0, req\<lparr>rq_slice := k\<rparr>)"
proof -
  have good: "pulp_rab_slice_check s (req\<lparr>rq_slice := k\<rparr>) \<and> pulp_rab_slice_is_managed_by_host s (req\<lparr>rq_slice := k\<rparr>) \<longleftrightarrow> k \<in> free_of m s"
    if "k < 32" for k
    using that assms(1,2) by (auto simp: idle_ok_def free_of_def dates_def m_shape_def req_fixed_def pulp_rab_slice_check_def
        pulp_rab_slice_is_managed_by_host_def Let_def)
  define P where "P = (\<lambda>i. pulp_rab_slice_check s (req\<lparr>rq_slice := i\<rparr>) \<and> pulp_rab_slice_is_managed_by_host s (req\<lparr>rq_slice := i\<rparr>))"
  have "List.find P [0 ..< 32] \<noteq> None"
    using assms(3) good by (auto simp: find_None_iff P_def free_of_def)
  then obtain k where k: "List.find P [0 ..< 32] = Some k" by blast
  then have "k < 32" "P k" by (auto simp: find_Some_iff)
  then have "k \<in> free_of m s" using good by (simp add: P_def)
  moreover have "pulp_rab_slice_get s req = (0, req\<lparr>rq_slice := k\<rparr>)"
    using k assms(2) by (simp add: pulp_rab_slice_get_def P_def n_slices_of_def RAB_L1_N_SLICES_PORT_1_def req_fixed_def)
  ultimately show ?thesis by (rule that)
qed

lemma slice_step_succeeds:
  assumes "idle_ok m s" "req_fixed m req" "free_of m s \<noteq> {}" "rq_page_ptr_idx req = f" "f \<noteq> 0"
    "j = 0 \<Longrightarrow> cntrs m s ! f = 0"
  shows "\<exists>req' el' s' k. striped_slice_step K pages (0, req, el, s) j = (0, req', el', s') \<and> req_fixed m req' \<and> rq_page_ptr_idx req' = f
    \<and> k \<in> free_of m s \<and> free_of m s' = free_of m s - {k} \<and> idle_ok m s' \<and> cntrs m s' = (cntrs m s)[f := cntrs m s ! f + 1]"
proof -
  define req0 where "req0 = striped_slice_req el j req"
  have r0: "req_fixed m req0" "rq_page_ptr_idx req0 = f" "\<not> bit (rq_flags_drv req0) 0" "j \<noteq> 0 \<Longrightarrow> bit (rq_flags_drv req0) 1"
    using assms(2,4) by (simp_all add: req0_def striped_slice_req_def req_fixed_def Let_def BIT_SET_def RAB_FLAGS_DRV_STRIPED_def bit_simps)
  obtain k where k: "k \<in> free_of m s" "pulp_rab_slice_get s req0 = (0, req0\<lparr>rq_slice := k\<rparr>)"
    by (rule slice_get_finds [OF assms(1) r0(1) assms(3)])
  define req1 where "req1 = req0\<lparr>rq_slice := k\<rparr>"
  have r1: "req_fixed m req1" "rq_slice req1 = k" "rq_page_ptr_idx req1 = f" "rq_flags_drv req1 = rq_flags_drv req0"
    using r0 by (simp_all add: req1_def req_fixed_def)
  define mp where "mp = mappings s ! m"
  have ml: "m < length (mappings s)" "k < 32" "page_ptrs mp ! 0 = None" "e_page_ptr_idx (slices mp ! k) = 0" "m_shape mp" "\<not> soc_mh_is_ena s"
    using assms(1) k(1) by (auto simp: idle_ok_def free_of_def mp_def)
  have fe: "free_entry (rq_flags_drv req1) k mp = mp\<lparr>slices := (slices mp)[k := clear1 (slices mp ! k)]\<rparr>"
    using ml r0(3) r1(4) by (simp add: free_entry_def free_refs_def Let_def)
  define s1 where "s1 = pulp_rab_slice_free K s req1"
  have s1: "mappings s1 = (mappings s)[m := mp\<lparr>slices := (slices mp)[k := clear1 (slices mp ! k)]\<rparr>]" "\<not> soc_mh_is_ena s1"
    using r1 ml fe by (auto simp: s1_def pulp_rab_slice_free_def req_fixed_def upd_mapping_def Let_def mp_def
        pulp_rab_slice_is_managed_by_host_def iowrite_def)
  define mp2 where "mp2 = mp\<lparr>slices := (slices mp)[k := setup1 req1]\<rparr>"
  have nb: "\<not> setup_field_busy req1 mp2"
    using assms(6) r0(4) r1(3,4) by (cases "j = 0") (simp_all add: setup_field_busy_def mp_def mp2_def cntrs_def)
  obtain s2 where s2: "pulp_rab_slice_setup s1 req1 (Some pages) = (0, s2)" "mappings s2 = (mappings s)[m := setup_refs req1 (Some pages) mp2]"
    "soc_mh_is_ena s2 = soc_mh_is_ena s1"
    using r1 nb ml s1 by (simp add: pulp_rab_slice_setup_def req_fixed_def upd_mapping_def Let_def mp2_def write_slice_def iowrite_def)
  have d: "dates m s2 = (dates m s)[k := RAB_MAX_DATE]"
    using slice_setup_dates(1) [OF s2(1) r1(1)] slice_free_dates [OF r1(1) ml(1), of K] ml(1) r1(2) unfolding s1_def by auto
  have fr: "free_of m s2 = free_of m s - {k}"
    using ml unfolding free_of_def d by (auto simp: nth_list_update dates_def m_shape_def mp_def)
  have "e_fixed (slices (mappings s2 ! m) ! i) = e_fixed (slices mp ! i)" "e_page_ptr_idx (slices (mappings s2 ! m) ! i) = e_page_ptr_idx (slices mp ! i)"
    if "i \<noteq> k" for i using that ml(1) s2(2) by (simp_all add: setup_refs_def mp2_def Let_def)
  moreover have "dates m s2 ! k \<noteq> 0" using d ml(2,5) by (simp add: dates_def m_shape_def mp_def)
  moreover have "dates m s2 ! i = dates m s ! i" if "i \<noteq> k" for i using d that by simp
  ultimately have "\<forall>i < 32. dates m s2 ! i = 0 \<longrightarrow> \<not> e_fixed (slices (mappings s2 ! m) ! i) \<and> e_page_ptr_idx (slices (mappings s2 ! m) ! i) = 0"
    using assms(1) unfolding idle_ok_def mp_def by metis
  moreover have "m_shape (mappings s2 ! m)" "page_ptrs (mappings s2 ! m) ! 0 = None"
    using ml s2(2) r1(3) assms(5) by (simp_all add: setup_refs_def mp2_def Let_def m_shape_def)
  ultimately have idle: "idle_ok m s2" using ml s2(2,3) s1(2) by (simp add: idle_ok_def)
  have "striped_slice_step K pages (0, req, el, s) j = (0, req1, el\<lparr>slice_idxs := slice_idxs el @ [k]\<rparr>, s2)"
    using k(2) s2(1) r1(2) by (simp add: striped_slice_step_def req0_def [symmetric] req1_def [symmetric] s1_def [symmetric])
  moreover have "cntrs m s2 = (cntrs m s)[f := cntrs m s ! f + 1]"
    using s2(2) ml(1) r1(3) by (simp add: cntrs_def setup_refs_def mp2_def mp_def Let_def)
  ultimately show ?thesis using r1 k(1) fr idle by blast
qed

lemma slice_steps_succeed:
  assumes "idle_ok m s" "req_fixed m req" "n \<le> card (free_of m s)" "rq_page_ptr_idx req = f" "f \<noteq> 0" "f < 32" "cntrs m s ! f = 0"
  shows "\<exists>req' el' s'. foldl (striped_slice_step K pages) (0, req, el, s) [0 ..< n] = (0, req', el', s') \<and> req_fixed m req'
    \<and> rq_page_ptr_idx req' = f \<and> card (free_of m s') = card (free_of m s) - n \<and> idle_ok m s'
    \<and> cntrs m s' = (cntrs m s)[f := of_nat n]"
  using assms(3)
proof (induction n)
  case 0
  then show ?case using assms list_update_id [of "cntrs m s" f] by simp
next
  case (Suc n)
  then obtain req1 el1 s1 where 1: "foldl (striped_slice_step K pages) (0, req, el, s) [0 ..< n] = (0, req1, el1, s1)" "req_fixed m req1"
    "rq_page_ptr_idx req1 = f" "card (free_of m s1) = card (free_of m s) - n" "idle_ok m s1" "cntrs m s1 = (cntrs m s)[f := of_nat n]"
    by fastforce
  have len: "length (cntrs m s) = 32" using assms(1) by (simp add: idle_ok_def m_shape_def cntrs_def)
  have fin: "finite (free_of m s1)" by (simp add: free_of_def)
  have "free_of m s1 \<noteq> {}" using 1(4) Suc.prems by auto
  moreover have "n = 0 \<Longrightarrow> cntrs m s1 ! f = 0" using 1(6) len assms(6) by simp
  ultimately obtain req2 el2 s2 k where 2: "striped_slice_step K pages (0, req1, el1, s1) n = (0, req2, el2, s2)" "req_fixed m req2"
    "rq_page_ptr_idx req2 = f" "k \<in> free_of m s1" "free_of m s2 = free_of m s1 - {k}" "idle_ok m s2"
    "cntrs m s2 = (cntrs m s1)[f := cntrs m s1 ! f + 1]"
    using slice_step_succeeds [OF 1(5,2) _ 1(3) assms(5), of n K pages el1] by blast
  have "card (free_of m s2) = card (free_of m s) - Suc n" using 1(4) 2(4,5) fin by simp
  moreover have "cntrs m s2 = (cntrs m s)[f := of_nat (Suc n)]" using 1(6) 2(7) len assms(6) by (simp add: add.commute)
  ultimately show ?case using 1(1) 2 by simp
qed

text \<open>Fields of page pointers that no slice refers to.\<close>

definition free_fields :: "nat \<Rightarrow> rab \<Rightarrow> nat set" where
  "free_fields m s = {f. f < 32 \<and> cntrs m s ! f = 0}"

lemma free_of_card: "card (free_of m s) \<le> 32"
  using card_mono [of "{..< 32}" "free_of m s"] by (auto simp: free_of_def)

lemma striped_slices_succeed:
  assumes "idle_ok m s" "req_fixed m req" "el_n_slices el \<le> card (free_of m s)" "0 < el_n_slices el"
    "free_fields m s \<noteq> {}" "0 \<notin> free_fields m s"
  shows "\<exists>req' el' s' f. striped_slices K pages req el s = (0, req', el', s') \<and> idle_ok m s'
    \<and> card (free_of m s') = card (free_of m s) - el_n_slices el \<and> f \<in> free_fields m s \<and> free_fields m s' = free_fields m s - {f}"
proof -
  have "List.find (\<lambda>i. page_ptr_ref_cntrs (mappings s ! rq_mapping req) ! i = 0) [0 ..< 32] \<noteq> None"
    using assms(2,5) by (auto simp: find_None_iff free_fields_def cntrs_def req_fixed_def)
  then obtain f where f: "List.find (\<lambda>i. page_ptr_ref_cntrs (mappings s ! rq_mapping req) ! i = 0) [0 ..< 32] = Some f" by blast
  then have ff: "f \<in> free_fields m s" using assms(2) by (auto simp: find_Some_iff free_fields_def cntrs_def req_fixed_def)
  define req1 where "req1 = req\<lparr>rq_page_ptr_idx := f\<rparr>"
  have r1: "req_fixed m req1" "rq_page_ptr_idx req1 = f" using assms(2) by (simp_all add: req1_def req_fixed_def)
  have fld: "f \<noteq> 0" "f < 32" "cntrs m s ! f = 0" using ff assms(6) by (auto simp: free_fields_def intro: ccontr)
  obtain req2 el2 s2 where 2: "foldl (striped_slice_step K pages) (0, req1, el\<lparr>el_page_ptr_idx := f\<rparr>, s) [0 ..< el_n_slices el] = (0, req2, el2, s2)"
    "card (free_of m s2) = card (free_of m s) - el_n_slices el" "idle_ok m s2" "cntrs m s2 = (cntrs m s)[f := of_nat (el_n_slices el)]"
    using slice_steps_succeed [OF assms(1) r1(1) assms(3) r1(2) fld, of K pages "el\<lparr>el_page_ptr_idx := f\<rparr>"] by blast
  have len: "length (cntrs m s) = 32" using assms(1) by (simp add: idle_ok_def m_shape_def cntrs_def)
  have "unat (of_nat (el_n_slices el) :: u32) = el_n_slices el"
    using assms(3) free_of_card [of m s] by (simp add: unat_of_nat)
  then have nz: "(of_nat (el_n_slices el) :: u32) \<noteq> 0" using assms(4) by (metis less_irrefl unat_0)
  then have "free_fields m s2 = free_fields m s - {f}"
    using fld(2) len unfolding free_fields_def 2(4) by (auto simp: nth_list_update split: if_splits)
  moreover have "striped_slices K pages req el s = (0, req2, el2, s2)"
    using f 2(1) by (simp add: striped_slices_def pulp_rab_page_ptrs_get_field_def RAB_L1_N_SLICES_PORT_1_def req1_def)
  ultimately show ?thesis using 2 ff by blast
qed

text \<open>What an element needs: ordered stripes from a page border on, and a kernel that provides memory and all pages.\<close>

definition kern_provides :: "kern \<Rightarrow> bool" where
  "kern_provides K \<longleftrightarrow> list_all (kmalloc_ok K) [0 ..< 6] \<and> gup_ok K \<and> (\<forall>a n w. length (snd (gup_fast K a n w)) = nat n)"

definition user_ok :: "RabStripeElemUser \<Rightarrow> bool" where
  "user_ok u \<longleftrightarrow> stripes_ordered (eu_stripe_addr_start u) (eu_stripe_addr_end u) \<and> unat (eu_stripe_addr_start u ! 0) mod 4096 = 0"

definition slices_needed :: "RabStripeElemUser \<Rightarrow> nat" where
  "slices_needed u = n_sets (eu_type u) * stripe_n_slices (eu_max_stripe_size_b u)"

lemma provides_pages:
  assumes "kern_provides K"
  obtains pages where "pulp_mem_get_user_pages (gup_ok K) (gup_fast K) a (pulp_mem_get_num_pages a n) w = (0, pages)"
    "length pages = unat (pulp_mem_get_num_pages a n)"
proof -
  define len where "len = pulp_mem_get_num_pages a n"
  have "unat n < 4294967296" "unat a mod 4096 < 4096" using unsigned_less [of n, where ?'a = nat] by simp_all
  then have "unat a mod 4096 + unat n + 4095 \<le> 4294975486" by linarith
  then have "unat len \<le> 4294975486 div 4096" unfolding len_def unat_get_num_pages by (rule div_le_mono)
  moreover have "uint len = int (unat len)" by simp
  ultimately have "uint len < 2147483648" by linarith
  moreover have "- 2147483648 \<le> uint len" by (rule order_trans [of _ 0]) simp_all
  ultimately have "signed_take_bit 31 (uint len) = uint len" by (intro signed_take_bit_int_eq_self) simp_all
  then have "nat (sint len) = unat len" by (simp add: sint_uint)
  then show ?thesis
    using assms that unfolding len_def by (simp add: kern_provides_def pulp_mem_get_user_pages_def split_beta Let_def)
qed

lemma req_striped_elem_succeeds:
  assumes "idle_ok m s" "kern_provides K" "\<forall>j. alloc j" "user_ok u" "slices_needed u \<le> card (free_of m s)"
    "free_fields m s \<noteq> {}" "0 \<notin> free_fields m s"
  shows "\<exists>req' el' s' f. req_striped_elem K alloc m u req s = Some (0, req', el', s') \<and> idle_ok m s'
    \<and> card (free_of m s') = card (free_of m s) - slices_needed u \<and> f \<in> free_fields m s \<and> free_fields m s' = free_fields m s - {f}"
proof -
  define starts ends el where "starts = eu_stripe_addr_start u" and "ends = eu_stripe_addr_end u" and "el = elem_of_user u"
  define a e where "a = starts ! 0" and "e = ends ! (length starts - 1)"
  obtain pages where pages: "pulp_mem_get_user_pages (gup_ok K) (gup_fast K) a (pulp_mem_get_num_pages a (e - a))
      (ucast (el_flags_hw el AND RAB_FLAGS_HW_WRITE)) = (0, pages)" "length pages = unat (pulp_mem_get_num_pages a (e - a))"
    by (rule provides_pages [OF assms(2)])
  have ord: "stripes_ordered starts ends" "unat (starts ! 0) mod 4096 = 0" using assms(4) by (simp_all add: user_ok_def starts_def ends_def)
  obtain segs si se tab where seg: "pulp_mem_map_sg (kmalloc_ok K) (map (page_to_phys K) pages) a e = Inr segs"
    and tab: "stripe_table alloc segs starts ends = Some (Inr (si, se, tab))" "length tab = length starts"
      "\<forall>j < length starts. stripe_good (map (page_to_phys K) pages) (starts ! 0) (starts ! j) (ends ! j) (tab ! j)"
    using striping_table [OF _ _ ord(1) _ ord(2), of "kmalloc_ok K" alloc "map (page_to_phys K) pages"] assms(2,3) pages(2)
    unfolding kern_provides_def a_def e_def by auto
  have ne: "starts \<noteq> []" using ord(1) by (simp add: stripes_ordered_def)
  have st0: "st_n_slices (tab ! 0) \<noteq> 0" using tab(3) ne by (auto simp: stripe_good_def)
  define l where "l = kern_log s @ [PinPages pages] @ (if \<not> bit (el_flags_hw el) 3 then concat (map (flush_segment pages segs) [0 ..< length segs]) else [])"
  have idle: "idle_ok m (s\<lparr>kern_log := l\<rparr>)" "free_of m (s\<lparr>kern_log := l\<rparr>) = free_of m s" "free_fields m (s\<lparr>kern_log := l\<rparr>) = free_fields m s"
    using assms(1) by (simp_all add: idle_ok_def free_of_def free_fields_def dates_def cntrs_def)
  have req: "req_striped_elem K alloc m u req s = Some (striped_slices K pages (striped_req el m segs req) (el\<lparr>stripes := tab\<rparr>) (s\<lparr>kern_log := l\<rparr>))"
    using ne assms(3) pages seg tab(1) st0 
    unfolding req_striped_elem_def Let_def starts_def [symmetric] ends_def [symmetric] el_def [symmetric] a_def [symmetric] e_def [symmetric]
    by (simp add: l_def)
  have n: "el_n_slices (el\<lparr>stripes := tab\<rparr>) = slices_needed u" "0 < slices_needed u"
    by (simp_all add: el_def elem_of_user_def slices_needed_def n_sets_def stripe_n_slices_def Let_def)
  have "req_fixed m (striped_req el m segs req)" by (simp add: striped_req_def req_fixed_def)
  then show ?thesis
    using striped_slices_succeed [OF idle(1), of "striped_req el m segs req" "el\<lparr>stripes := tab\<rparr>" K pages] assms(5-7) n idle(2,3)
    unfolding req by auto
qed

lemma req_striped_steps_succeed:
  assumes "idle_ok m s" "\<forall>i. kern_provides (K i)" "\<forall>i j. alloc i j" "\<forall>i \<in> set js. user_ok (us ! i)"
    "sum_list (map (\<lambda>i. slices_needed (us ! i)) js) \<le> card (free_of m s)" "length js \<le> card (free_fields m s)" "0 \<notin> free_fields m s"
  shows "\<exists>req' els' s'. foldl (req_striped_step K alloc m us) (Some (0, req, els, s)) js = Some (0, req', els', s')"
  using assms(1,4-7)
proof (induction js arbitrary: req els s)
  case (Cons i js)
  have "free_fields m s \<noteq> {}" using Cons.prems(4) by auto
  then obtain req1 el s1 f where 1: "req_striped_elem (K i) (alloc i) m (us ! i) req s = Some (0, req1, el, s1)" "idle_ok m s1"
    "card (free_of m s1) = card (free_of m s) - slices_needed (us ! i)" "f \<in> free_fields m s" "free_fields m s1 = free_fields m s - {f}"
    using req_striped_elem_succeeds [OF Cons.prems(1), of "K i" "alloc i" "us ! i" req] assms(2,3) Cons.prems by auto
  have "card (free_fields m s1) = card (free_fields m s) - 1" using 1(4,5) by (simp add: free_fields_def)
  then have enough: "(\<Sum>i\<leftarrow>js. slices_needed (us ! i)) \<le> card (free_of m s1)" "length js \<le> card (free_fields m s1)"
    using Cons.prems(3,4) 1(3) by simp_all
  obtain req' els' s' where
    "foldl (req_striped_step K alloc m us) (Some (0, req1, els @ [el], s1)) js = Some (0, req', els', s')"
    using Cons.IH [OF 1(2) _ enough, of req1 "els @ [el]"] Cons.prems(2,5) 1(5) by auto
  moreover have "req_striped_step K alloc m us (Some (0, req, els, s)) i = Some (0, req1, els @ [el], s1)"
    using 1(1) by (simp add: req_striped_step_def)
  ultimately show ?case by simp
qed simp

lemma req_striped_returns:
  assumes "idle_ok m s" "m = unat req_id mod 2" "mem_ok" "us \<noteq> []" "\<forall>i. kern_provides (K i)" "\<forall>i j. alloc i j" "\<forall>u \<in> set us. user_ok u"
    "sum_list (map slices_needed us) \<le> card (free_of m s)" "length us \<le> card (free_fields m s)" "0 \<notin> free_fields m s"
  shows "\<exists>s'. pulp_rab_req_striped K mem_ok alloc junk req_id us s = Some (0, s')"
proof -
  have "map slices_needed us = map (\<lambda>i. slices_needed (us ! i)) [0 ..< length us]"
    by (rule nth_equalityI) simp_all
  then obtain req els s' where
    "foldl (req_striped_step K alloc m us) (Some (0, junk, [], s)) [0 ..< length us] = Some (0, req, els, s')"
    using req_striped_steps_succeed [OF assms(1,5,6), of "[0 ..< length us]" us junk "[]"] assms(7-10) by auto
  then show ?thesis
    using assms(3,4) unfolding pulp_rab_req_striped_def RAB_L1_N_MAPPINGS_PORT_1_def assms(2) by (simp add: Let_def)
qed

text \<open>C11: A striped request succeeds if the kernel provides memory and pages, the stripes of every element are in order and begin at a page
  border, enough slices of the mapping are unused (two or four sets of slices per element), and there is a free field of page
  pointers for every element.\<close>

theorem req_striped_succeeds:
  assumes "idle_ok (unat req_id mod 2) s" "mem_ok" "us \<noteq> []" "\<forall>i. kern_provides (K i)" "\<forall>i j. alloc i j" "\<forall>u \<in> set us. user_ok u"
    and "(\<Sum>u\<leftarrow>us. n_sets (eu_type u) * stripe_n_slices (eu_max_stripe_size_b u)) \<le> card (free_of (unat req_id mod 2) s)"
    and "length us \<le> card (free_fields (unat req_id mod 2) s)" "0 \<notin> free_fields (unat req_id mod 2) s"
  shows "\<exists>s'. pulp_rab_req_striped K mem_ok alloc junk req_id us s = Some (0, s')"
  using req_striped_returns [OF assms(1) refl assms(2-6) _ assms(8,9)] assms(7) by (simp add: slices_needed_def [abs_def])

subsection \<open>A concrete request\<close>

definition ex_user :: RabStripeElemUser where
  "ex_user = \<lparr>eu_id = 0, eu_type = In, eu_flags = 7, eu_max_stripe_size_b = 0x1000, eu_stripe_addr_start = [0x2000, 0x3000],
     eu_stripe_addr_end = [0x3000, 0x4000]\<rparr>"

definition ex_idle :: rab where
  "ex_idle = ex_rab\<lparr>mappings := replicate 2 ((ex_mapping ((replicate 32 (ex_entry 0))[0 := (ex_entry 7)\<lparr>e_fixed := True, e_date_exp := 255\<rparr>]))
     \<lparr>page_ptr_ref_cntrs := (replicate 32 0)[0 := 1]\<rparr>), stripe_reqs := replicate 2 \<lparr>sr_id = 0, sr_elements = []\<rparr>\<rparr>"

lemma ex_idle_free: "free_of 0 ex_idle = {1 ..< 32}" "free_fields 0 ex_idle = {1 ..< 32}"
  by (auto simp: free_of_def free_fields_def dates_def cntrs_def ex_idle_def ex_mapping_def ex_entry_def nth_list_update split: if_splits)

lemma ex_idle_ok: "idle_ok 0 ex_idle"
  by (auto simp: idle_ok_def dates_def ex_idle_def ex_rab_def ex_mapping_def ex_entry_def m_shape_def nth_list_update)

lemma ex_kern_provides: "kern_provides kern_ok"
  by (simp add: kern_provides_def kern_ok_def list_all_iff)

lemma ex_user_ok: "user_ok ex_user"
  by (simp add: user_ok_def ex_user_def stripes_ordered_def less_Suc_eq)

theorem req_striped_succeeds_witness:
  "idle_ok 0 ex_idle \<and> (\<exists>s'. pulp_rab_req_striped (\<lambda>_. kern_ok) True (\<lambda>_ _. True) req_ok 0 [ex_user] ex_idle = Some (0, s'))"
proof -
  have "idle_ok (unat (0 :: u16) mod 2) ex_idle" using ex_idle_ok by simp
  then show ?thesis
    using req_striped_succeeds [of 0 ex_idle True "[ex_user]" "\<lambda>_. kern_ok" "\<lambda>_ _. True" req_ok] ex_idle_ok ex_idle_free ex_kern_provides ex_user_ok
    by (simp add: ex_user_def n_sets_def stripe_n_slices_def)
qed

theorem req_striped_typed_witness:
  "\<exists>s'. pulp_rab_req_striped (\<lambda>_. kern_ok) True (\<lambda>_ _. True) req_ok 0 [ex_user] ex_idle = Some (0, s')
     \<and> map el_n_stripes (sr_elements (stripe_reqs s' ! 0)) = [2] \<and> elems_ok (sr_elements (stripe_reqs s' ! 0))"
proof -
  obtain s' where s': "pulp_rab_req_striped (\<lambda>_. kern_ok) True (\<lambda>_ _. True) req_ok 0 [ex_user] ex_idle = Some (0, s')"
    using req_striped_returns [OF ex_idle_ok, of 0 True "[ex_user]" "\<lambda>_. kern_ok" "\<lambda>_ _. True" req_ok] ex_idle_free ex_kern_provides ex_user_ok
    by (auto simp: slices_needed_def ex_user_def n_sets_def stripe_n_slices_def)
  have "length (mappings ex_idle) = 2" "length (stripe_reqs ex_idle) = 2" "\<forall>mp \<in> set (mappings ex_idle). length (slices mp) = 32"
    by (simp_all add: ex_idle_def ex_mapping_def)
  from req_striped_typed [OF s' this] s' show ?thesis by (auto simp: Let_def ex_user_def)
qed

end
