(* ===== verification/Drv_Rab_L2.thy ===== *)
theory Drv_Rab_L2
  imports Drv_Rab
begin

text \<open>
  The second TLB level of the RAB in the Linux driver (\<open>pulp-driver/pulp_rab.c\<close>, section "L2 Management"): 32 sets of 32
  entries, filled and replaced in turn, kept twice, in the driver (\<open>l2\<close>) and in two memories of the hardware, one for
  virtual frame numbers with flags and one for physical frame numbers.

  The state is the record \<open>l2_tlb\<close>; \<open>l2_hw\<close> is the configuration port, indexed by byte offset, \<open>l2_log\<close> the
  calls into the kernel. The abstract view of a set is a queue of at most 32 entries (\<open>l2_queue\<close>), oldest first, and the
  code refines its operations. The printing functions are not modelled.
\<close>

definition RAB_L2_N_ENTRIES_PER_SET :: nat where [hw_consts]: "RAB_L2_N_ENTRIES_PER_SET = 32"
definition RAB_L2_N_SETS :: nat where [hw_consts]: "RAB_L2_N_SETS = 32"

definition RAB_L2_EN_ON_PORT :: "nat \<Rightarrow> bool" where "RAB_L2_EN_ON_PORT port = [False, True] ! port"

record L2Entry =
  l2_flags :: u8
  l2_pfn_v :: u32
  l2_pfn_p :: u32
  l2_page_ptr :: "page option"

record L2Set =
  l2_entry :: "L2Entry list"
  next_entry_idx :: u8
  is_full :: bool

record l2_tlb =
  l2_set :: "L2Set list"
  l2_hw :: "nat \<Rightarrow> u32"
  l2_log :: "kern_call list"

definition l2_off_v :: "nat \<Rightarrow> nat \<Rightarrow> nat \<Rightarrow> nat" where
  "l2_off_v port set_num entry_num =
     (port + 1) * 0x4000 + set_num * RAB_L2_N_ENTRIES_PER_SET * 4 + entry_num * 4"

definition l2_off_p :: "nat \<Rightarrow> nat \<Rightarrow> nat \<Rightarrow> nat" where
  "l2_off_p port set_num entry_num =
     (port + 1) * 0x4000 + set_num * RAB_L2_N_ENTRIES_PER_SET * 4 + entry_num * 4
       + RAB_L2_N_ENTRIES_PER_SET * RAB_L2_N_SETS * 4"

definition l2_write :: "nat \<Rightarrow> u32 \<Rightarrow> l2_tlb \<Rightarrow> l2_tlb" where
  "l2_write off v t = t\<lparr>l2_hw := (l2_hw t)(off := v)\<rparr>"

definition l2_upd_set :: "nat \<Rightarrow> (L2Set \<Rightarrow> L2Set) \<Rightarrow> l2_tlb \<Rightarrow> l2_tlb" where
  "l2_upd_set i f t = t\<lparr>l2_set := (l2_set t)[i := f (l2_set t ! i)]\<rparr>"

definition l2_upd_entry :: "nat \<Rightarrow> nat \<Rightarrow> (L2Entry \<Rightarrow> L2Entry) \<Rightarrow> l2_tlb \<Rightarrow> l2_tlb" where
  "l2_upd_entry i k f = l2_upd_set i (\<lambda>s. s\<lparr>l2_entry := (l2_entry s)[k := f (l2_entry s ! k)]\<rparr>)"

definition clear_l2_entry :: "nat \<Rightarrow> nat \<Rightarrow> l2_tlb \<Rightarrow> nat \<Rightarrow> l2_tlb" where
  "clear_l2_entry port i_set t i_entry =
     l2_upd_entry i_set i_entry (\<lambda>e. e\<lparr>l2_flags := 0, l2_pfn_p := 0, l2_pfn_v := 0\<rparr>)
       (l2_write (l2_off_v port i_set i_entry) 0 t)"

definition clear_l2_set :: "nat \<Rightarrow> l2_tlb \<Rightarrow> nat \<Rightarrow> l2_tlb" where
  "clear_l2_set port t i_set =
     l2_upd_set i_set (\<lambda>s. s\<lparr>next_entry_idx := 0, is_full := False\<rparr>)
       (foldl (clear_l2_entry port i_set) t [0 ..< RAB_L2_N_ENTRIES_PER_SET])"

definition pulp_rab_l2_clear_hw :: "l2_tlb \<Rightarrow> nat \<Rightarrow> l2_tlb" where
  "pulp_rab_l2_clear_hw t port =
     (if RAB_L2_EN_ON_PORT port then foldl (clear_l2_set port) t [0 ..< RAB_L2_N_SETS] else t)"

definition pulp_rab_l2_init :: "l2_tlb \<Rightarrow> l2_tlb" where
  "pulp_rab_l2_init t = foldl pulp_rab_l2_clear_hw t [0 ..< RAB_N_PORTS]"

definition l2_set_num :: "L2Entry \<Rightarrow> nat" where
  "l2_set_num tlb_entry = unat (BF_GET (ucast (l2_pfn_v tlb_entry)) 0 5)"

definition pulp_rab_l2_check_availability :: "l2_tlb \<Rightarrow> L2Entry \<Rightarrow> bool" where
  "pulp_rab_l2_check_availability t tlb_entry = is_full (l2_set t ! l2_set_num tlb_entry)"

text \<open>The word of the memory of virtual frame numbers: the flags with the frame number written over bits 4 to 23.\<close>

definition l2_data_v :: "u8 \<Rightarrow> u32 \<Rightarrow> u32" where
  "l2_data_v fl pfn_v = ucast (BF_SET (ucast fl) (ucast pfn_v) 4 20)"

definition l2_unpin :: "(page \<Rightarrow> bool) \<Rightarrow> u32 \<Rightarrow> page \<Rightarrow> kern_call list" where
  "l2_unpin reserved data page_old =
     (if data AND 8 = 0 then [CacheInv page_old] else [])
     @ (if \<not> reserved page_old then [SetPageDirty page_old] else []) @ [PutPage page_old]"

definition pulp_rab_l2_invalidate_entry :: "(page \<Rightarrow> bool) \<Rightarrow> l2_tlb \<Rightarrow> nat \<Rightarrow> nat \<Rightarrow> nat \<Rightarrow> l2_tlb" where
  "pulp_rab_l2_invalidate_entry reserved t port set_num entry_num =
     (let e = l2_entry (l2_set t ! set_num) ! entry_num;
          fl = push_bit 1 (drop_bit 1 (l2_flags e));
          data = l2_data_v fl (l2_pfn_v e);
          t = l2_write (l2_off_v port set_num entry_num) data (l2_upd_entry set_num entry_num (\<lambda>e. e\<lparr>l2_flags := fl\<rparr>) t)
      in case l2_page_ptr e of
           None \<Rightarrow> t
         | Some page_old \<Rightarrow>
             (l2_upd_entry set_num entry_num (\<lambda>e. e\<lparr>l2_page_ptr := None\<rparr>) t)
               \<lparr>l2_log := l2_log t @ l2_unpin reserved data page_old\<rparr>)"

definition l2_write_entry :: "l2_tlb \<Rightarrow> L2Entry \<Rightarrow> nat \<Rightarrow> nat \<Rightarrow> nat \<Rightarrow> l2_tlb" where
  "l2_write_entry t tlb_entry port set_num entry_num =
     (let t = l2_write (l2_off_v port set_num entry_num) (l2_data_v (l2_flags tlb_entry) (l2_pfn_v tlb_entry)) t;
          t = l2_write (l2_off_p port set_num entry_num) (l2_pfn_p tlb_entry) t;
          t = l2_upd_entry set_num entry_num (\<lambda>_. tlb_entry) t;
          t = l2_upd_set set_num (\<lambda>s. s\<lparr>next_entry_idx := next_entry_idx s + 1\<rparr>) t
      in if unat (next_entry_idx (l2_set t ! set_num)) = RAB_L2_N_ENTRIES_PER_SET
         then l2_upd_set set_num (\<lambda>s. s\<lparr>is_full := True, next_entry_idx := 0\<rparr>) t else t)"

definition pulp_rab_l2_setup_entry :: "(page \<Rightarrow> bool) \<Rightarrow> l2_tlb \<Rightarrow> L2Entry \<Rightarrow> nat \<Rightarrow> bool \<Rightarrow> int \<times> l2_tlb" where
  "pulp_rab_l2_setup_entry reserved t tlb_entry port enable_replace =
     (let set_num = l2_set_num tlb_entry;
          entry_num = unat (next_entry_idx (l2_set t ! set_num));
          full = pulp_rab_l2_check_availability t tlb_entry
      in if full \<and> \<not> enable_replace then (1, t)
         else
           let t = (if full then pulp_rab_l2_invalidate_entry reserved t port set_num entry_num else t)
           in (0, l2_write_entry t tlb_entry port set_num entry_num))"

definition l2_invalidate_set :: "(page \<Rightarrow> bool) \<Rightarrow> nat \<Rightarrow> l2_tlb \<Rightarrow> nat \<Rightarrow> l2_tlb" where
  "l2_invalidate_set reserved port t set_num =
     l2_upd_set set_num (\<lambda>s. s\<lparr>next_entry_idx := 0\<rparr>)
       (foldl (\<lambda>t entry_num. pulp_rab_l2_invalidate_entry reserved t port set_num entry_num) t
          [0 ..< unat (next_entry_idx (l2_set t ! set_num))])"

definition pulp_rab_l2_invalidate_all_entries :: "(page \<Rightarrow> bool) \<Rightarrow> l2_tlb \<Rightarrow> nat \<Rightarrow> l2_tlb" where
  "pulp_rab_l2_invalidate_all_entries reserved t port =
     pulp_rab_l2_clear_hw (foldl (l2_invalidate_set reserved port) t [0 ..< RAB_L2_N_SETS]) port"

subsection \<open>Registers and words\<close>

lemma l2_offs: "l2_off_v 1 i k = 32768 + 128 * i + 4 * k" "l2_off_p 1 i k = 36864 + 128 * i + 4 * k"
  by (simp_all add: l2_off_v_def l2_off_p_def RAB_L2_N_ENTRIES_PER_SET_def RAB_L2_N_SETS_def)

lemma l2_pair_inj: "k < 32 \<Longrightarrow> k' < 32 \<Longrightarrow> 128 * i + 4 * k = 128 * i' + 4 * k' \<longleftrightarrow> i = i' \<and> k = k'" for i i' k k' :: nat
proof -
  assume k: "k < 32" "k' < 32"
  have "i = i' \<and> k = k'" if eq: "32 * i + k = 32 * i' + k'"
  proof -
    have "i = (32 * i + k) div 32" "i' = (32 * i' + k') div 32" using k by simp_all
    then show ?thesis using eq by simp
  qed
  then show ?thesis by auto
qed

definition offv :: "nat \<Rightarrow> nat \<Rightarrow> nat" where "offv i k = l2_off_v 1 i k"
definition offp :: "nat \<Rightarrow> nat \<Rightarrow> nat" where "offp i k = l2_off_p 1 i k"

lemma off_fold [simp]: "l2_off_v 1 i k = offv i k" "l2_off_v (Suc 0) i k = offv i k" "l2_off_p 1 i k = offp i k"
    "l2_off_p (Suc 0) i k = offp i k"
  by (simp_all add: offv_def offp_def)

lemma off_inj [simp]:
  "k < 32 \<Longrightarrow> k' < 32 \<Longrightarrow> offv i k = offv i' k' \<longleftrightarrow> i = i' \<and> k = k'"
  "k < 32 \<Longrightarrow> k' < 32 \<Longrightarrow> offp i k = offp i' k' \<longleftrightarrow> i = i' \<and> k = k'"
  "i < 32 \<Longrightarrow> k < 32 \<Longrightarrow> offv i k \<noteq> offp i' k'" "i < 32 \<Longrightarrow> k < 32 \<Longrightarrow> offp i' k' \<noteq> offv i k"
  unfolding offv_def offp_def l2_offs using l2_pair_inj [of k k' i i'] by simp_all

lemma l2_data_v_bit:
  "n < 32 \<Longrightarrow> bit (l2_data_v fl v) n \<longleftrightarrow> (if 4 \<le> n \<and> n < 24 then bit v (n - 4) else bit fl n)"
  by (auto simp: l2_data_v_def bit_ucast_iff BF_SET_bit dest: bit_imp_le_length)

definition l2_tag :: "u32 \<Rightarrow> u32" where "l2_tag w = drop_bit 4 w AND mask 20"

lemma l2_data_v_tag: "l2_tag (l2_data_v fl v) = v AND mask 20"
  by (rule bit_word_eqI) (auto simp: l2_tag_def bit_simps l2_data_v_bit dest: bit_imp_le_length)

lemma l2_data_v_flags: "l2_data_v fl v AND mask 4 = ucast fl AND mask 4"
  by (rule bit_word_eqI) (auto simp: bit_simps l2_data_v_bit dest: bit_imp_le_length)

lemma l2_data_v_valid: "bit (l2_data_v fl v) 0 \<longleftrightarrow> bit fl 0"
  by (simp add: l2_data_v_bit)

subsection \<open>The queue of a set\<close>

definition l2_queue :: "L2Set \<Rightarrow> L2Entry list" where
  "l2_queue s = (let n = unat (next_entry_idx s)
     in if is_full s then drop n (l2_entry s) @ take n (l2_entry s) else take n (l2_entry s))"

definition l2_push :: "L2Entry \<Rightarrow> L2Set \<Rightarrow> L2Set" where
  "l2_push e s = (let n = unat (next_entry_idx s)
     in s\<lparr>l2_entry := (l2_entry s)[n := e], next_entry_idx := (if n + 1 = 32 then 0 else next_entry_idx s + 1),
         is_full := (is_full s \<or> n + 1 = 32)\<rparr>)"

definition l2_shape :: "L2Set \<Rightarrow> bool" where
  "l2_shape s \<longleftrightarrow> length (l2_entry s) = 32 \<and> unat (next_entry_idx s) < 32"

lemma unat_next_Suc: "unat n < 32 \<Longrightarrow> unat (n + 1 :: u8) = Suc (unat n)"
  by (simp add: unat_word_ariths)

lemma l2_queue_length: "l2_shape s \<Longrightarrow> length (l2_queue s) = (if is_full s then 32 else unat (next_entry_idx s))"
  by (auto simp: l2_queue_def l2_shape_def Let_def)

lemma l2_push_shape: "l2_shape s \<Longrightarrow> l2_shape (l2_push e s)"
  by (auto simp: l2_shape_def l2_push_def Let_def unat_next_Suc)

text \<open>Entering an entry appends it to the queue; if the set is full the oldest one leaves.\<close>

lemma l2_push_queue:
  assumes "l2_shape s"
  shows "l2_queue (l2_push e s) = (if is_full s then tl (l2_queue s) else l2_queue s) @ [e]"
proof -
  define n es where "n = unat (next_entry_idx s)" and "es = l2_entry s"
  have n: "n < 32" "length es = 32" using assms by (simp_all add: l2_shape_def n_def es_def)
  have upd: "es[n := e] = take n es @ e # drop (Suc n) es" using n by (simp add: upd_conv_take_nth_drop)
  have tl: "tl (drop n es @ take n es) = drop (Suc n) es @ take n es"
    using n by (simp add: Cons_nth_drop_Suc [symmetric, of n es])
  have q: "l2_queue s = (if is_full s then drop n es @ take n es else take n es)"
    by (simp add: l2_queue_def n_def es_def Let_def)
  show ?thesis
  proof (cases "n + 1 = 32")
    case True
    then have "l2_queue (l2_push e s) = es[n := e]" by (simp add: l2_queue_def l2_push_def n_def es_def Let_def)
    moreover have "drop (Suc n) es = []" using True n by simp
    ultimately show ?thesis unfolding q tl [symmetric] using upd tl by auto
  next
    case False
    then have "l2_queue (l2_push e s)
        = (if is_full s then drop (Suc n) (es[n := e]) @ take (Suc n) (es[n := e]) else take (Suc n) (es[n := e]))"
      using n by (simp add: l2_queue_def l2_push_def n_def es_def Let_def unat_next_Suc)
    also have "take (Suc n) (es[n := e]) = take n es @ [e]" using n by (simp add: upd min_def)
    also have "drop (Suc n) (es[n := e]) = drop (Suc n) es" by simp
    finally show ?thesis unfolding q using tl by simp
  qed
qed

subsection \<open>Invariant\<close>

text \<open>A cell of the hardware shows an entry: it is enabled exactly if the entry is, and then with the entry's
  frame numbers and flags, in the set of its virtual frame number.\<close>

definition l2_shows :: "(nat \<Rightarrow> u32) \<Rightarrow> nat \<Rightarrow> nat \<Rightarrow> L2Entry \<Rightarrow> bool" where
  "l2_shows h i k e \<longleftrightarrow>
     (bit (h (offv i k)) 0 \<longleftrightarrow> bit (l2_flags e) 0) \<and>
     (bit (l2_flags e) 0 \<longrightarrow>
        h (offv i k) = l2_data_v (l2_flags e) (l2_pfn_v e) \<and> h (offp i k) = l2_pfn_p e \<and> l2_set_num e = i)"

definition l2_set_ok :: "(nat \<Rightarrow> u32) \<Rightarrow> nat \<Rightarrow> L2Set \<Rightarrow> bool" where
  "l2_set_ok h i s \<longleftrightarrow> l2_shape s \<and> (\<forall>k < 32. l2_shows h i k (l2_entry s ! k)) \<and>
     (\<not> is_full s \<longrightarrow> (\<forall>k < 32. unat (next_entry_idx s) \<le> k \<longrightarrow> \<not> bit (l2_flags (l2_entry s ! k)) 0))"

definition l2_ok :: "l2_tlb \<Rightarrow> bool" where
  "l2_ok t \<longleftrightarrow> length (l2_set t) = 32 \<and> (\<forall>i < 32. l2_set_ok (l2_hw t) i (l2_set t ! i))"

lemma l2_set_ok_cong:
  assumes "\<And>k. k < 32 \<Longrightarrow> h (offv i k) = h' (offv i k)" "\<And>k. k < 32 \<Longrightarrow> h (offp i k) = h' (offp i k)"
  shows "l2_set_ok h i s = l2_set_ok h' i s"
  using assms by (simp add: l2_set_ok_def l2_shows_def)

lemma l2_set_num_mod: "l2_set_num e = unat (l2_pfn_v e) mod 32"
  unfolding l2_set_num_def BF_GET_def BIT_MASK_GEN_mask by (simp add: unat_and_mask)

lemma l2_set_num_lt: "l2_set_num e < 32"
  by (simp add: l2_set_num_mod)

lemma l2_push_ok:
  assumes ok: "l2_set_ok h i s" and i: "i < 32" and e: "l2_set_num e = i"
  defines "n \<equiv> unat (next_entry_idx s)"
  shows "l2_set_ok (h(offv i n := l2_data_v (l2_flags e) (l2_pfn_v e), offp i n := l2_pfn_p e)) i (l2_push e s)"
proof -
  have sh: "l2_shape s" using ok by (simp add: l2_set_ok_def)
  then have n: "n < 32" "length (l2_entry s) = 32" by (simp_all add: l2_shape_def n_def)
  have es: "l2_entry (l2_push e s) = (l2_entry s)[n := e]" by (simp add: l2_push_def n_def Let_def)
  have "l2_shows (h(offv i n := l2_data_v (l2_flags e) (l2_pfn_v e), offp i n := l2_pfn_p e)) i k ((l2_entry s)[n := e] ! k)"
    if k: "k < 32" for k
    using ok k n i e by (cases "k = n") (simp_all add: l2_set_ok_def l2_shows_def l2_data_v_valid)
  moreover have "\<not> bit (l2_flags ((l2_entry s)[n := e] ! k)) 0"
    if "\<not> is_full (l2_push e s)" "k < 32" "unat (next_entry_idx (l2_push e s)) \<le> k" for k
  proof -
    have "Suc n \<le> k" "\<not> is_full s" using that n by (auto simp: l2_push_def n_def Let_def unat_next_Suc split: if_splits)
    then show ?thesis using ok that(2) by (simp add: l2_set_ok_def n_def)
  qed
  ultimately show ?thesis using l2_push_shape [OF sh] by (simp add: l2_set_ok_def es)
qed

subsection \<open>Entering and evicting\<close>

definition l2_evict :: "(page \<Rightarrow> bool) \<Rightarrow> L2Entry \<Rightarrow> kern_call list" where
  "l2_evict reserved e = (case l2_page_ptr e of None \<Rightarrow> []
     | Some p \<Rightarrow> (if bit (l2_flags e) 3 then [] else [CacheInv p]) @ (if reserved p then [] else [SetPageDirty p]) @ [PutPage p])"

definition l2_off_entry :: "L2Entry \<Rightarrow> L2Entry" where
  "l2_off_entry e = e\<lparr>l2_flags := push_bit 1 (drop_bit 1 (l2_flags e)), l2_page_ptr := None\<rparr>"

lemma lsb_off: "bit (push_bit 1 (drop_bit 1 fl)) n \<longleftrightarrow> 0 < n \<and> bit fl n" for fl :: u8
  unfolding bit_push_bit_iff bit_drop_bit_eq by (auto dest: bit_imp_le_length)

lemma l2_data_CC: "l2_data_v (push_bit 1 (drop_bit 1 fl)) v AND 8 = 0 \<longleftrightarrow> \<not> bit fl 3"
proof -
  have "l2_data_v (push_bit 1 (drop_bit 1 fl)) v AND 8 = 0 \<longleftrightarrow> \<not> bit (l2_data_v (push_bit 1 (drop_bit 1 fl)) v) 3"
    using and_single_bit_0 [of "l2_data_v (push_bit 1 (drop_bit 1 fl)) v" 3] by simp
  also have "\<dots> \<longleftrightarrow> \<not> bit (push_bit 1 (drop_bit 1 fl)) 3" by (subst l2_data_v_bit) simp_all
  finally show ?thesis unfolding lsb_off by simp
qed

lemma list_upd_self_None: "l2_page_ptr e = None \<Longrightarrow> e\<lparr>l2_flags := f\<rparr> = e\<lparr>l2_flags := f, l2_page_ptr := None\<rparr>"
  by (cases e) simp

lemma invalidate_entry_eq:
  assumes "i < length (l2_set t)" "k < length (l2_entry (l2_set t ! i))"
  defines "e \<equiv> l2_entry (l2_set t ! i) ! k"
  shows "pulp_rab_l2_invalidate_entry reserved t 1 i k =
    t\<lparr>l2_set := (l2_set t)[i := (l2_set t ! i)\<lparr>l2_entry := (l2_entry (l2_set t ! i))[k := l2_off_entry e]\<rparr>],
      l2_hw := (l2_hw t)(offv i k := l2_data_v (push_bit 1 (drop_bit 1 (l2_flags e))) (l2_pfn_v e)),
      l2_log := l2_log t @ l2_evict reserved e\<rparr>"
proof -
  define fl where "fl = push_bit 1 (drop_bit 1 (l2_flags e))"
  have off: "l2_off_entry e = e\<lparr>l2_flags := fl, l2_page_ptr := None\<rparr>" by (simp add: l2_off_entry_def fl_def)
  have cc: "l2_data_v fl v AND 8 = 0 \<longleftrightarrow> \<not> bit (l2_flags e) 3" for v unfolding fl_def by (rule l2_data_CC)
  have ev: "l2_evict reserved e = (case l2_page_ptr e of None \<Rightarrow> [] | Some p \<Rightarrow> l2_unpin reserved (l2_data_v fl (l2_pfn_v e)) p)"
    by (simp add: l2_evict_def l2_unpin_def cc split: option.split)
  show ?thesis
  proof (cases "l2_page_ptr e")
    case None
    then have "e\<lparr>l2_flags := fl\<rparr> = l2_off_entry e" unfolding off by (rule list_upd_self_None)
    then show ?thesis using assms(1,2) None
      by (simp add: pulp_rab_l2_invalidate_entry_def Let_def e_def [symmetric] fl_def [symmetric, simplified] l2_write_def l2_upd_entry_def
          l2_upd_set_def ev)
  next
    case (Some p)
    then show ?thesis using assms(1,2)
      by (simp add: pulp_rab_l2_invalidate_entry_def Let_def e_def [symmetric] fl_def [symmetric, simplified] l2_write_def l2_upd_entry_def
          l2_upd_set_def ev off)
  qed
qed

lemma full_upd_order:
  "s\<lparr>l2_entry := es, is_full := b, next_entry_idx := c\<rparr> = s\<lparr>l2_entry := es, next_entry_idx := c, is_full := b\<rparr>"
  by simp

lemma write_entry_eq:
  assumes "i < length (l2_set t)" "l2_shape (l2_set t ! i)"
  defines "n \<equiv> unat (next_entry_idx (l2_set t ! i))"
  shows "l2_write_entry t e 1 i n = t\<lparr>l2_set := (l2_set t)[i := l2_push e (l2_set t ! i)],
    l2_hw := (l2_hw t)(offv i n := l2_data_v (l2_flags e) (l2_pfn_v e), offp i n := l2_pfn_p e)\<rparr>"
  using assms(1,2)
  by (auto simp: l2_write_entry_def Let_def l2_write_def l2_upd_entry_def l2_upd_set_def n_def l2_push_def l2_shape_def
      unat_next_Suc RAB_L2_N_ENTRIES_PER_SET_def full_upd_order)

lemma setup_entry_eq:
  fixes e :: L2Entry
  assumes "l2_ok t"
  defines "i \<equiv> l2_set_num e"
  defines "n \<equiv> unat (next_entry_idx (l2_set t ! i))"
  shows "pulp_rab_l2_setup_entry reserved t e 1 enable_replace =
    (if is_full (l2_set t ! i) \<and> \<not> enable_replace then (1, t)
     else (0, t\<lparr>l2_set := (l2_set t)[i := l2_push e (l2_set t ! i)],
       l2_hw := (l2_hw t)(offv i n := l2_data_v (l2_flags e) (l2_pfn_v e), offp i n := l2_pfn_p e),
       l2_log := l2_log t @ (if is_full (l2_set t ! i) then l2_evict reserved (hd (l2_queue (l2_set t ! i))) else [])\<rparr>))"
proof -
  have i: "i < length (l2_set t)" "i < 32" and sh: "l2_shape (l2_set t ! i)"
    using assms(1) l2_set_num_lt [of e] by (auto simp: l2_ok_def i_def l2_set_ok_def)
  let ?s = "l2_set t ! i"
  have n: "n < 32" "length (l2_entry ?s) = 32" using sh by (auto simp: l2_shape_def n_def)
  show ?thesis
  proof (cases "is_full ?s")
    case False
    then show ?thesis
      using write_entry_eq [OF i(1) sh, of e]
      by (simp add: pulp_rab_l2_setup_entry_def pulp_rab_l2_check_availability_def i_def n_def Let_def)
  next
    case True
    have hd: "hd (l2_queue ?s) = l2_entry ?s ! n"
      using True n by (simp add: l2_queue_def Let_def n_def [symmetric] hd_append hd_drop_conv_nth)
    define t1 where "t1 = pulp_rab_l2_invalidate_entry reserved t 1 i n"
    have t1: "t1 = t\<lparr>l2_set := (l2_set t)[i := ?s\<lparr>l2_entry := (l2_entry ?s)[n := l2_off_entry (l2_entry ?s ! n)]\<rparr>],
      l2_hw := (l2_hw t)(offv i n := l2_data_v (push_bit 1 (drop_bit 1 (l2_flags (l2_entry ?s ! n)))) (l2_pfn_v (l2_entry ?s ! n))),
      l2_log := l2_log t @ l2_evict reserved (l2_entry ?s ! n)\<rparr>"
      unfolding t1_def using invalidate_entry_eq [of i t n reserved] i n by simp
    have s1: "l2_set t1 ! i = ?s\<lparr>l2_entry := (l2_entry ?s)[n := l2_off_entry (l2_entry ?s ! n)]\<rparr>" "i < length (l2_set t1)"
      using i by (simp_all add: t1)
    have w: "l2_write_entry t1 e 1 i n = t1\<lparr>l2_set := (l2_set t1)[i := l2_push e (l2_set t1 ! i)],
        l2_hw := (l2_hw t1)(offv i n := l2_data_v (l2_flags e) (l2_pfn_v e), offp i n := l2_pfn_p e)\<rparr>"
      using write_entry_eq [OF s1(2), of e] sh by (simp add: s1 n_def l2_shape_def)
    have p: "l2_push e (l2_set t1 ! i) = l2_push e ?s" by (simp add: s1 l2_push_def n_def Let_def)
    have "pulp_rab_l2_setup_entry reserved t e 1 enable_replace = (if enable_replace then (0, l2_write_entry t1 e 1 i n) else (1, t))"
      using True by (simp add: pulp_rab_l2_setup_entry_def pulp_rab_l2_check_availability_def i_def n_def Let_def t1_def)
    also have "l2_write_entry t1 e 1 i n = t\<lparr>l2_set := (l2_set t)[i := l2_push e ?s],
       l2_hw := (l2_hw t)(offv i n := l2_data_v (l2_flags e) (l2_pfn_v e), offp i n := l2_pfn_p e),
       l2_log := l2_log t @ l2_evict reserved (l2_entry ?s ! n)\<rparr>"
      unfolding w p by (simp add: t1)
    finally show ?thesis using True hd by simp
  qed
qed

subsection \<open>Clearing\<close>

definition l2_clr_entry :: "L2Entry \<Rightarrow> L2Entry" where
  "l2_clr_entry e = e\<lparr>l2_flags := 0, l2_pfn_p := 0, l2_pfn_v := 0\<rparr>"

definition l2_clr_set :: "L2Set \<Rightarrow> L2Set" where
  "l2_clr_set s = s\<lparr>l2_entry := map l2_clr_entry (l2_entry s), next_entry_idx := 0, is_full := False\<rparr>"

lemma clear_entries_eq:
  assumes "i < length (l2_set t)" "n \<le> length (l2_entry (l2_set t ! i))"
  defines "es \<equiv> l2_entry (l2_set t ! i)"
  shows "foldl (clear_l2_entry 1 i) t [0 ..< n] =
    t\<lparr>l2_set := (l2_set t)[i := (l2_set t ! i)\<lparr>l2_entry := map l2_clr_entry (take n es) @ drop n es\<rparr>],
      l2_hw := (\<lambda>a. if \<exists>k < n. a = offv i k then 0 else l2_hw t a)\<rparr>"
  using assms(2)
proof (induction n)
  case (Suc n)
  then have n: "n < length es" and IH: "foldl (clear_l2_entry 1 i) t [0 ..< n] =
    t\<lparr>l2_set := (l2_set t)[i := (l2_set t ! i)\<lparr>l2_entry := map l2_clr_entry (take n es) @ drop n es\<rparr>],
      l2_hw := (\<lambda>a. if \<exists>k < n. a = offv i k then 0 else l2_hw t a)\<rparr>" by (auto simp: es_def)
  have h: "(\<lambda>a. if \<exists>k < Suc n. a = offv i k then 0 else l2_hw t a)
      = (\<lambda>a. if \<exists>k < n. a = offv i k then 0 else l2_hw t a)(offv i n := 0)"
    by (auto simp: fun_eq_iff less_Suc_eq)
  have "foldl (clear_l2_entry 1 i) t [0 ..< Suc n] = clear_l2_entry 1 i (foldl (clear_l2_entry 1 i) t [0 ..< n]) n" by simp
  also have "\<dots> = t\<lparr>l2_set := (l2_set t)[i := (l2_set t ! i)\<lparr>l2_entry := map l2_clr_entry (take (Suc n) es) @ drop (Suc n) es\<rparr>],
      l2_hw := (\<lambda>a. if \<exists>k < Suc n. a = offv i k then 0 else l2_hw t a)\<rparr>"
    unfolding IH h using update_prefix [OF n, of l2_clr_entry] assms(1)
    by (simp add: clear_l2_entry_def l2_upd_entry_def l2_upd_set_def l2_write_def l2_clr_entry_def [abs_def])
  finally show ?case .
next
  case 0
  show ?case by (simp add: es_def)
qed

lemma clear_set_eq:
  assumes "i < length (l2_set t)" "length (l2_entry (l2_set t ! i)) = 32"
  shows "clear_l2_set 1 t i = t\<lparr>l2_set := (l2_set t)[i := l2_clr_set (l2_set t ! i)],
      l2_hw := (\<lambda>a. if \<exists>k < 32. a = offv i k then 0 else l2_hw t a)\<rparr>"
  using clear_entries_eq [of i t 32] assms
  by (simp add: clear_l2_set_def l2_upd_set_def RAB_L2_N_ENTRIES_PER_SET_def l2_clr_set_def)

lemma clear_sets_eq:
  assumes "m \<le> length (l2_set t)" "\<forall>s \<in> set (l2_set t). length (l2_entry s) = 32"
  shows "foldl (clear_l2_set 1) t [0 ..< m] = t\<lparr>l2_set := map l2_clr_set (take m (l2_set t)) @ drop m (l2_set t),
      l2_hw := (\<lambda>a. if \<exists>i < m. \<exists>k < 32. a = offv i k then 0 else l2_hw t a)\<rparr>"
  using assms(1)
proof (induction m)
  case (Suc m)
  define xs where "xs = map l2_clr_set (take m (l2_set t)) @ drop m (l2_set t)"
  have m: "m < length (l2_set t)" using Suc.prems by simp
  have x: "m < length xs" "xs ! m = l2_set t ! m" using m by (simp_all add: xs_def nth_append)
  have len: "length (l2_entry (l2_set t ! m)) = 32" using m assms(2) by simp
  have IH: "foldl (clear_l2_set 1) t [0 ..< m] = t\<lparr>l2_set := xs,
      l2_hw := (\<lambda>a. if \<exists>i < m. \<exists>k < 32. a = offv i k then 0 else l2_hw t a)\<rparr>" using Suc by (simp add: xs_def)
  have h: "(\<lambda>a. if \<exists>k < 32. a = offv m k then 0 else if \<exists>i < m. \<exists>k < 32. a = offv i k then 0 else l2_hw t a)
      = (\<lambda>a. if \<exists>i < Suc m. \<exists>k < 32. a = offv i k then 0 else l2_hw t a)"
    by (auto simp: fun_eq_iff less_Suc_eq)
  have "foldl (clear_l2_set 1) t [0 ..< Suc m] = clear_l2_set 1 (foldl (clear_l2_set 1) t [0 ..< m]) m" by simp
  also have "\<dots> = t\<lparr>l2_set := xs[m := l2_clr_set (xs ! m)],
      l2_hw := (\<lambda>a. if \<exists>i < Suc m. \<exists>k < 32. a = offv i k then 0 else l2_hw t a)\<rparr>"
    unfolding IH by (subst clear_set_eq) (simp_all add: x len h cong: if_cong)
  also have "xs[m := l2_clr_set (xs ! m)] = map l2_clr_set (take (Suc m) (l2_set t)) @ drop (Suc m) (l2_set t)"
    unfolding xs_def by (rule update_prefix [OF m])
  finally show ?case .
qed simp

lemma clear_hw_eq:
  assumes "length (l2_set t) = 32" "\<forall>s \<in> set (l2_set t). length (l2_entry s) = 32"
  shows "pulp_rab_l2_clear_hw t 1 = t\<lparr>l2_set := map l2_clr_set (l2_set t),
      l2_hw := (\<lambda>a. if \<exists>i < 32. \<exists>k < 32. a = offv i k then 0 else l2_hw t a)\<rparr>"
  using clear_sets_eq [of 32 t] assms by (simp add: pulp_rab_l2_clear_hw_def RAB_L2_EN_ON_PORT_def RAB_L2_N_SETS_def)

lemma clr_set_ok:
  assumes "length (l2_entry s) = 32" "\<And>k. k < 32 \<Longrightarrow> h (offv i k) = 0"
  shows "l2_set_ok h i (l2_clr_set s)" "l2_queue (l2_clr_set s) = []"
  using assms by (simp_all add: l2_set_ok_def l2_shape_def l2_clr_set_def l2_clr_entry_def l2_shows_def l2_queue_def)

lemma clear_hw_ok:
  assumes "length (l2_set t) = 32" "\<forall>s \<in> set (l2_set t). length (l2_entry s) = 32"
  shows "l2_ok (pulp_rab_l2_clear_hw t 1)" "i < 32 \<Longrightarrow> l2_queue (l2_set (pulp_rab_l2_clear_hw t 1) ! i) = []"
    "l2_log (pulp_rab_l2_clear_hw t 1) = l2_log t"
proof -
  note eq = clear_hw_eq [OF assms]
  show "l2_ok (pulp_rab_l2_clear_hw t 1)"
    unfolding l2_ok_def eq using assms by (auto intro!: clr_set_ok(1)) blast
  show "i < 32 \<Longrightarrow> l2_queue (l2_set (pulp_rab_l2_clear_hw t 1) ! i) = []"
    unfolding eq using assms clr_set_ok(2) [of "l2_set t ! i" "\<lambda>_. 0" i] by simp
  show "l2_log (pulp_rab_l2_clear_hw t 1) = l2_log t" unfolding eq by simp
qed

subsection \<open>Invalidating\<close>

lemma invalidate_entries:
  assumes "i < length (l2_set t)" "n \<le> length (l2_entry (l2_set t ! i))"
  defines "es \<equiv> l2_entry (l2_set t ! i)"
  shows "\<exists>h. foldl (\<lambda>t k. pulp_rab_l2_invalidate_entry reserved t 1 i k) t [0 ..< n] =
    t\<lparr>l2_set := (l2_set t)[i := (l2_set t ! i)\<lparr>l2_entry := map l2_off_entry (take n es) @ drop n es\<rparr>],
      l2_hw := h, l2_log := l2_log t @ concat (map (l2_evict reserved) (take n es))\<rparr>"
  using assms(2)
proof (induction n)
  case (Suc n)
  define xs where "xs = map l2_off_entry (take n es) @ drop n es"
  have n: "n < length es" using Suc.prems by (simp add: es_def)
  have x: "n < length xs" "xs ! n = es ! n" using n by (simp_all add: xs_def nth_append)
  obtain h where IH: "foldl (\<lambda>t k. pulp_rab_l2_invalidate_entry reserved t 1 i k) t [0 ..< n] =
    t\<lparr>l2_set := (l2_set t)[i := (l2_set t ! i)\<lparr>l2_entry := xs\<rparr>],
      l2_hw := h, l2_log := l2_log t @ concat (map (l2_evict reserved) (take n es))\<rparr>"
    using Suc unfolding xs_def by auto
  let ?t = "t\<lparr>l2_set := (l2_set t)[i := (l2_set t ! i)\<lparr>l2_entry := xs\<rparr>],
      l2_hw := h, l2_log := l2_log t @ concat (map (l2_evict reserved) (take n es))\<rparr>"
  have "xs[n := l2_off_entry (xs ! n)] = map l2_off_entry (take (Suc n) es) @ drop (Suc n) es"
    unfolding xs_def by (rule update_prefix [OF n])
  moreover have "take (Suc n) es = take n es @ [es ! n]" using n by (simp add: take_Suc_conv_app_nth)
  ultimately have "\<exists>h. pulp_rab_l2_invalidate_entry reserved ?t 1 i n =
    t\<lparr>l2_set := (l2_set t)[i := (l2_set t ! i)\<lparr>l2_entry := map l2_off_entry (take (Suc n) es) @ drop (Suc n) es\<rparr>],
      l2_hw := h, l2_log := l2_log t @ concat (map (l2_evict reserved) (take (Suc n) es))\<rparr>"
    using assms(1) x by (subst invalidate_entry_eq) auto
  then show ?case using IH by simp
qed (auto simp: es_def intro!: exI [of _ "l2_hw t"])

definition l2_visited :: "(page \<Rightarrow> bool) \<Rightarrow> L2Set \<Rightarrow> kern_call list" where
  "l2_visited reserved s = concat (map (l2_evict reserved) (take (unat (next_entry_idx s)) (l2_entry s)))"

lemma invalidate_set:
  assumes "i < length (l2_set t)" "l2_shape (l2_set t ! i)"
  shows "\<exists>s h. l2_invalidate_set reserved 1 t i = t\<lparr>l2_set := (l2_set t)[i := s], l2_hw := h,
      l2_log := l2_log t @ l2_visited reserved (l2_set t ! i)\<rparr> \<and> length (l2_entry s) = 32"
proof -
  have n: "unat (next_entry_idx (l2_set t ! i)) \<le> length (l2_entry (l2_set t ! i))" using assms(2) by (simp add: l2_shape_def)
  define n where "n = unat (next_entry_idx (l2_set t ! i))"
  define es where "es = l2_entry (l2_set t ! i)"
  have len: "length es = 32" using assms(2) by (simp add: l2_shape_def es_def)
  obtain h where "foldl (\<lambda>t k. pulp_rab_l2_invalidate_entry reserved t 1 i k) t [0 ..< n] =
    t\<lparr>l2_set := (l2_set t)[i := (l2_set t ! i)\<lparr>l2_entry := map l2_off_entry (take n es) @ drop n es\<rparr>],
      l2_hw := h, l2_log := l2_log t @ concat (map (l2_evict reserved) (take n es))\<rparr>"
    using invalidate_entries [OF assms(1) n, of reserved] unfolding n_def es_def by blast
  then have "l2_invalidate_set reserved 1 t i = t\<lparr>l2_set := (l2_set t)[i :=
        (l2_set t ! i)\<lparr>l2_entry := map l2_off_entry (take n es) @ drop n es, next_entry_idx := 0\<rparr>], l2_hw := h,
      l2_log := l2_log t @ l2_visited reserved (l2_set t ! i)\<rparr>"
    using assms(1) by (simp add: l2_invalidate_set_def l2_upd_set_def n_def es_def l2_visited_def)
  moreover have "length (map l2_off_entry (take n es) @ drop n es) = 32" using len by simp
  ultimately show ?thesis by (intro exI conjI) (assumption, simp)
qed

lemma invalidate_sets:
  assumes "m \<le> length (l2_set t)" "\<forall>s \<in> set (l2_set t). l2_shape s"
  shows "\<exists>xs h. foldl (l2_invalidate_set reserved 1) t [0 ..< m] = t\<lparr>l2_set := xs @ drop m (l2_set t), l2_hw := h,
      l2_log := l2_log t @ concat (map (l2_visited reserved) (take m (l2_set t)))\<rparr>
    \<and> length xs = m \<and> (\<forall>s \<in> set xs. length (l2_entry s) = 32)"
  using assms(1)
proof (induction m)
  case (Suc m)
  obtain xs h where IH: "foldl (l2_invalidate_set reserved 1) t [0 ..< m] = t\<lparr>l2_set := xs @ drop m (l2_set t), l2_hw := h,
      l2_log := l2_log t @ concat (map (l2_visited reserved) (take m (l2_set t)))\<rparr>"
    and xs: "length xs = m" "\<forall>s \<in> set xs. length (l2_entry s) = 32" using Suc by auto
  have m: "m < length (l2_set t)" using Suc.prems by simp
  define t1 where "t1 = t\<lparr>l2_set := xs @ drop m (l2_set t), l2_hw := h,
      l2_log := l2_log t @ concat (map (l2_visited reserved) (take m (l2_set t)))\<rparr>"
  have s1: "m < length (l2_set t1)" "l2_set t1 ! m = l2_set t ! m" using m xs by (simp_all add: t1_def nth_append)
  have "l2_shape (l2_set t1 ! m)" using m assms(2) s1 by simp
  from invalidate_set [OF s1(1) this, of reserved] obtain s h' where
    inv: "l2_invalidate_set reserved 1 t1 m = t1\<lparr>l2_set := (l2_set t1)[m := s], l2_hw := h',
      l2_log := l2_log t1 @ l2_visited reserved (l2_set t ! m)\<rparr>" and s: "length (l2_entry s) = 32" using s1 by auto
  have "(xs @ drop m (l2_set t))[m := s] = (xs @ [s]) @ drop (Suc m) (l2_set t)"
    using m xs by (simp add: list_update_append Cons_nth_drop_Suc [symmetric])
  moreover have "take (Suc m) (l2_set t) = take m (l2_set t) @ [l2_set t ! m]" using m by (simp add: take_Suc_conv_app_nth)
  ultimately have "foldl (l2_invalidate_set reserved 1) t [0 ..< Suc m] = t\<lparr>l2_set := (xs @ [s]) @ drop (Suc m) (l2_set t), l2_hw := h',
      l2_log := l2_log t @ concat (map (l2_visited reserved) (take (Suc m) (l2_set t)))\<rparr>"
    using IH inv by (simp add: t1_def)
  moreover have "length (xs @ [s]) = Suc m" "\<forall>s \<in> set (xs @ [s]). length (l2_entry s) = 32" using xs s by auto
  ultimately show ?case by blast
qed (auto intro!: exI [of _ "l2_hw t"])

lemma l2_ok_shapes: "l2_ok t \<Longrightarrow> length (l2_set t) = 32 \<and> (\<forall>s \<in> set (l2_set t). l2_shape s)"
  by (auto simp: l2_ok_def l2_set_ok_def in_set_conv_nth)

lemma invalidate_all:
  fixes reserved :: "page \<Rightarrow> bool"
  assumes "l2_ok t"
  defines "t' \<equiv> pulp_rab_l2_invalidate_all_entries reserved t 1"
  shows "l2_ok t'" "i < 32 \<Longrightarrow> l2_queue (l2_set t' ! i) = []"
    "l2_log t' = l2_log t @ concat (map (l2_visited reserved) (l2_set t))"
proof -
  obtain xs h where eq: "foldl (l2_invalidate_set reserved 1) t [0 ..< 32] = t\<lparr>l2_set := xs, l2_hw := h,
      l2_log := l2_log t @ concat (map (l2_visited reserved) (l2_set t))\<rparr>"
    and xs: "length xs = 32" "\<forall>s \<in> set xs. length (l2_entry s) = 32"
    using invalidate_sets [of 32 t reserved] l2_ok_shapes [OF assms(1)] by auto
  define t1 where "t1 = t\<lparr>l2_set := xs, l2_hw := h, l2_log := l2_log t @ concat (map (l2_visited reserved) (l2_set t))\<rparr>"
  have t': "t' = pulp_rab_l2_clear_hw t1 1"
    unfolding t'_def pulp_rab_l2_invalidate_all_entries_def RAB_L2_N_SETS_def eq t1_def ..
  have t1: "length (l2_set t1) = 32" "\<forall>s \<in> set (l2_set t1). length (l2_entry s) = 32" using xs by (simp_all add: t1_def)
  show "l2_ok t'" "i < 32 \<Longrightarrow> l2_queue (l2_set t' ! i) = []"
    "l2_log t' = l2_log t @ concat (map (l2_visited reserved) (l2_set t))"
    unfolding t' using clear_hw_ok [OF t1] by (simp_all add: t1_def)
qed

subsection \<open>Reachable states and the contents of the hardware\<close>

text \<open>The enabled cells of a set of the hardware: virtual and physical frame number and flags.\<close>

definition l2_hw_set :: "(nat \<Rightarrow> u32) \<Rightarrow> nat \<Rightarrow> (u32 \<times> u32 \<times> u32) set" where
  "l2_hw_set h i = {(l2_tag (h (offv i k)), h (offp i k), h (offv i k) AND mask 4) | k. k < 32 \<and> bit (h (offv i k)) 0}"

definition l2_cell :: "L2Entry \<Rightarrow> u32 \<times> u32 \<times> u32" where
  "l2_cell e = (l2_pfn_v e AND mask 20, l2_pfn_p e, ucast (l2_flags e) AND mask 4)"

lemma l2_queue_enabled:
  assumes "l2_set_ok h i s"
  shows "{e \<in> set (l2_queue s). bit (l2_flags e) 0} = {l2_entry s ! k | k. k < 32 \<and> bit (l2_flags (l2_entry s ! k)) 0}"
proof -
  define n es where "n = unat (next_entry_idx s)" and "es = l2_entry s"
  have n: "n < 32" "length es = 32" using assms by (auto simp: l2_set_ok_def l2_shape_def n_def es_def)
  have q: "set (l2_queue s) = (if is_full s then set es else set (take n es))"
    using set_append [of "take n es" "drop n es"] by (auto simp: l2_queue_def n_def es_def Let_def)
  have low: "k < n" if "\<not> is_full s" "k < 32" "bit (l2_flags (es ! k)) 0" for k
    using that assms by (auto simp: l2_set_ok_def n_def es_def simp flip: not_le)
  have take: "set (take n es) = {es ! k | k. k < n}" using n by (auto simp: nth_image [symmetric])
  have all: "set es = {es ! k | k. k < 32}" using n by (auto simp: set_conv_nth)
  show ?thesis
  proof (cases "is_full s")
    case True
    then show ?thesis unfolding q all es_def [symmetric] by auto
  next
    case False
    then show ?thesis using low n(1) unfolding q take es_def [symmetric]
      by (auto intro: less_trans)
  qed
qed

lemma l2_hw_set_queue:
  assumes "l2_set_ok h i s"
  shows "l2_hw_set h i = l2_cell ` {e \<in> set (l2_queue s). bit (l2_flags e) 0}"
proof -
  have sh: "l2_shows h i k (l2_entry s ! k)" if "k < 32" for k using assms that by (simp add: l2_set_ok_def)
  have "(l2_tag (h (offv i k)), h (offp i k), h (offv i k) AND mask 4) = l2_cell (l2_entry s ! k)"
    if "k < 32" "bit (l2_flags (l2_entry s ! k)) 0" for k
    using sh [OF that(1)] that(2) by (simp add: l2_shows_def l2_cell_def l2_data_v_tag l2_data_v_flags)
  moreover have "bit (h (offv i k)) 0 \<longleftrightarrow> bit (l2_flags (l2_entry s ! k)) 0" if "k < 32" for k
    using sh [OF that] by (simp add: l2_shows_def)
  ultimately show ?thesis unfolding l2_queue_enabled [OF assms] l2_hw_set_def by (auto simp: image_iff) metis+
qed

text \<open>The states of the table after its initialisation, with entries entered and all of them dropped in any order. Frame numbers
  of 32-bit addresses have 20 bits.\<close>

inductive l2_reachable :: "l2_tlb \<Rightarrow> bool" where
  init: "length (l2_set t) = 32 \<Longrightarrow> \<forall>s \<in> set (l2_set t). length (l2_entry s) = 32 \<Longrightarrow> l2_reachable (pulp_rab_l2_init t)"
| enter: "l2_reachable t \<Longrightarrow> l2_reachable (snd (pulp_rab_l2_setup_entry reserved t e 1 enable_replace))"
| drop_all: "l2_reachable t \<Longrightarrow> l2_reachable (pulp_rab_l2_invalidate_all_entries reserved t 1)"

lemma l2_init_clear: "pulp_rab_l2_init t = pulp_rab_l2_clear_hw t 1"
  by (simp add: pulp_rab_l2_init_def RAB_N_PORTS_def pulp_rab_l2_clear_hw_def RAB_L2_EN_ON_PORT_def numeral_2_eq_2)

lemma setup_entry_ok:
  assumes "l2_ok t"
  shows "l2_ok (snd (pulp_rab_l2_setup_entry reserved t e 1 enable_replace))"
proof -
  define i where "i = l2_set_num e"
  have i: "i < 32" by (simp add: i_def l2_set_num_lt)
  have len: "length (l2_set t) = 32" and ok: "\<And>j. j < 32 \<Longrightarrow> l2_set_ok (l2_hw t) j (l2_set t ! j)"
    using assms by (simp_all add: l2_ok_def)
  have sh: "unat (next_entry_idx (l2_set t ! i)) < 32" using ok [OF i] by (simp add: l2_set_ok_def l2_shape_def)
  let ?n = "unat (next_entry_idx (l2_set t ! i))"
  let ?h = "(l2_hw t)(offv i ?n := l2_data_v (l2_flags e) (l2_pfn_v e), offp i ?n := l2_pfn_p e)"
  have "l2_set_ok ?h j ((l2_set t)[i := l2_push e (l2_set t ! i)] ! j)" if j: "j < 32" for j
  proof (cases "j = i")
    case True
    then show ?thesis using l2_push_ok [OF ok [OF i] i i_def [symmetric]] len i by simp
  next
    case False
    then have "l2_set_ok ?h j (l2_set t ! j) = l2_set_ok (l2_hw t) j (l2_set t ! j)"
      using sh i j by (intro l2_set_ok_cong) auto
    then show ?thesis using False ok [OF j] by simp
  qed
  then show ?thesis
    unfolding setup_entry_eq [OF assms] i_def [symmetric] using assms len by (simp add: l2_ok_def)
qed

lemma l2_reachable_ok: "l2_reachable t \<Longrightarrow> l2_ok t"
proof (induction rule: l2_reachable.induct)
  case (init t)
  then show ?case unfolding l2_init_clear by (rule clear_hw_ok(1))
qed (rule setup_entry_ok invalidate_all(1), assumption)+

text \<open>In every reachable state of the second TLB level, each of the 32 sets of the hardware holds exactly the enabled entries of the
  queue that the driver keeps for the set, with their frame numbers and flags; a queue has at most 32 entries.\<close>

theorem l2_hardware_holds_queues:
  assumes "l2_reachable t"
  shows "length (l2_set t) = 32 \<and> (\<forall>i < 32. length (l2_queue (l2_set t ! i)) \<le> 32
    \<and> l2_hw_set (l2_hw t) i =
        (\<lambda>e. (l2_pfn_v e AND mask 20, l2_pfn_p e, ucast (l2_flags e) AND mask 4)) ` {e \<in> set (l2_queue (l2_set t ! i)). bit (l2_flags e) 0})"
proof (intro conjI allI impI)
  have ok: "l2_ok t" using assms by (rule l2_reachable_ok)
  then show "length (l2_set t) = 32" by (simp add: l2_ok_def)
  fix i :: nat assume i: "i < 32"
  then have s: "l2_set_ok (l2_hw t) i (l2_set t ! i)" using ok by (simp add: l2_ok_def)
  then show "length (l2_queue (l2_set t ! i)) \<le> 32" by (simp add: l2_queue_length l2_set_ok_def l2_shape_def)
  show "l2_hw_set (l2_hw t) i =
        (\<lambda>e. (l2_pfn_v e AND mask 20, l2_pfn_p e, ucast (l2_flags e) AND mask 4)) ` {e \<in> set (l2_queue (l2_set t ! i)). bit (l2_flags e) 0}"
    using l2_hw_set_queue [OF s] by (simp add: l2_cell_def [abs_def])
qed

text \<open>C24: \<open>pulp_rab_l2_setup_entry\<close> implements a queue of 32 entries for the set of the virtual frame number. If the set is not full the
  entry is appended. If it is full, then without permission to replace the call fails and changes nothing, and with it the
  oldest entry leaves, its page being unpinned once (made dirty unless reserved, its cache lines dropped unless it is
  coherent). The queues of all other sets stay as they are.\<close>

theorem l2_setup_refines_fifo:
  assumes "l2_reachable t"
  shows "let (err, t') = pulp_rab_l2_setup_entry reserved t e 1 enable_replace;
      i = l2_set_num e; q = (\<lambda>j. l2_queue (l2_set t ! j))
    in if length (q i) = 32 \<and> \<not> enable_replace then err = 1 \<and> t' = t
       else err = 0 \<and> l2_queue (l2_set t' ! i) = (if length (q i) = 32 then tl (q i) else q i) @ [e]
         \<and> (\<forall>j. j \<noteq> i \<longrightarrow> l2_queue (l2_set t' ! j) = q j)
         \<and> l2_log t' = l2_log t @ (if length (q i) = 32 then l2_evict reserved (hd (q i)) else [])"
proof -
  define i where "i = l2_set_num e"
  have ok: "l2_ok t" using assms by (rule l2_reachable_ok)
  have i: "i < length (l2_set t)" and sh: "l2_shape (l2_set t ! i)"
    using ok l2_set_num_lt [of e] by (auto simp: l2_ok_def i_def l2_set_ok_def)
  have full: "length (l2_queue (l2_set t ! i)) = 32 \<longleftrightarrow> is_full (l2_set t ! i)"
    using sh by (auto simp: l2_queue_length l2_shape_def)
  show ?thesis
    unfolding setup_entry_eq [OF ok] i_def [symmetric] Let_def full
    using i l2_push_queue [OF sh, of e] by auto
qed

text \<open>\<open>pulp_rab_l2_invalidate_all_entries\<close> empties every set and disables all its entries. It visits the entries below
  the next index of each set only, so that the pages of a set that has been filled up (its next index is 0 again) are
  never unpinned: if every set is empty or has just been filled, the call unpins no page at all.\<close>

theorem l2_invalidate_all_leaks:
  assumes "l2_reachable t"
    and "\<forall>i < 32. l2_queue (l2_set t ! i) = [] \<or> is_full (l2_set t ! i) \<and> next_entry_idx (l2_set t ! i) = 0"
  shows "let t' = pulp_rab_l2_invalidate_all_entries reserved t 1
    in (\<forall>i < 32. l2_queue (l2_set t' ! i) = [] \<and> l2_hw_set (l2_hw t') i = {}) \<and> l2_log t' = l2_log t"
proof -
  define t' where "t' = pulp_rab_l2_invalidate_all_entries reserved t 1"
  have ok: "l2_ok t" using assms(1) by (rule l2_reachable_ok)
  have ok': "l2_ok t'" and q: "\<And>i. i < 32 \<Longrightarrow> l2_queue (l2_set t' ! i) = []"
    and log: "l2_log t' = l2_log t @ concat (map (l2_visited reserved) (l2_set t))"
    unfolding t'_def using invalidate_all [OF ok] by blast+
  have "l2_visited reserved (l2_set t ! i) = []" if i: "i < 32" for i
  proof (cases "is_full (l2_set t ! i)")
    case True
    then have "length (l2_queue (l2_set t ! i)) = 32"
      using ok i by (simp add: l2_queue_length l2_ok_def l2_set_ok_def)
    then have "next_entry_idx (l2_set t ! i) = 0" using assms(2) i by auto
    then show ?thesis by (simp add: l2_visited_def)
  next
    case False
    then have "take (unat (next_entry_idx (l2_set t ! i))) (l2_entry (l2_set t ! i)) = []"
      using assms(2) i by (auto simp: l2_queue_def Let_def)
    then show ?thesis by (simp only: l2_visited_def list.map concat.simps)
  qed
  then have "map (l2_visited reserved) (l2_set t) = replicate 32 []"
    using ok by (intro nth_equalityI) (simp_all add: l2_ok_def)
  then have "l2_log t' = l2_log t" using log by (simp add: concat_replicate_trivial)
  moreover have "l2_hw_set (l2_hw t') i = {}" if i: "i < 32" for i
  proof -
    have "l2_set_ok (l2_hw t') i (l2_set t' ! i)" using ok' i by (simp add: l2_ok_def)
    then show ?thesis using l2_hw_set_queue q [OF i] by simp
  qed
  ultimately show ?thesis using q unfolding t'_def by (simp add: Let_def)
qed

subsection \<open>A concrete table\<close>

text \<open>The table after its initialisation, and with 32 pages of one set entered.\<close>

definition ex_page :: "nat \<Rightarrow> L2Entry" where
  "ex_page k = \<lparr>l2_flags = 7, l2_pfn_v = 32 * of_nat k + 3, l2_pfn_p = 0x100 + of_nat k, l2_page_ptr = Some (of_nat k)\<rparr>"

definition ex_l2 :: l2_tlb where
  "ex_l2 = pulp_rab_l2_init \<lparr>l2_set = replicate 32 \<lparr>l2_entry = replicate 32 \<lparr>l2_flags = 0, l2_pfn_v = 0, l2_pfn_p = 0,
     l2_page_ptr = None\<rparr>, next_entry_idx = 0, is_full = False\<rparr>, l2_hw = (\<lambda>_. 0), l2_log = []\<rparr>"

fun ex_l2_filled :: "nat \<Rightarrow> l2_tlb" where
  "ex_l2_filled 0 = ex_l2"
| "ex_l2_filled (Suc n) = snd (pulp_rab_l2_setup_entry (\<lambda>_. False) (ex_l2_filled n) (ex_page n) 1 True)"

lemma ex_l2_reachable: "l2_reachable (ex_l2_filled n)"
proof (induction n)
  case 0
  show ?case unfolding ex_l2_filled.simps ex_l2_def by (rule l2_reachable.init) simp_all
next
  case (Suc n)
  then show ?case unfolding ex_l2_filled.simps by (rule l2_reachable.enter)
qed

lemma ex_page_set: "l2_set_num (ex_page k) = 3"
proof -
  have "(32 * of_nat k + 3 :: u32) = of_nat (32 * k + 3)" by simp
  then have "unat (32 * of_nat k + 3 :: u32) = (32 * k + 3) mod 2 ^ 32" by (simp only: unat_of_nat) simp
  then show ?thesis by (simp add: l2_set_num_mod ex_page_def mod_mod_cancel)
qed

lemma ex_l2_queues:
  "n \<le> 32 \<Longrightarrow> l2_queue (l2_set (ex_l2_filled n) ! 3) = map ex_page [0 ..< n]
     \<and> (\<forall>j < 32. j \<noteq> 3 \<longrightarrow> l2_queue (l2_set (ex_l2_filled n) ! j) = []) \<and> l2_log (ex_l2_filled n) = []
     \<and> (n = 32 \<longrightarrow> is_full (l2_set (ex_l2_filled n) ! 3) \<and> next_entry_idx (l2_set (ex_l2_filled n) ! 3) = 0)"
proof (induction n)
  case 0
  have "pulp_rab_l2_init t = pulp_rab_l2_clear_hw t 1" for t by (rule l2_init_clear)
  then show ?case
    using clear_hw_ok(2,3) [of "\<lparr>l2_set = replicate 32 \<lparr>l2_entry = replicate 32 \<lparr>l2_flags = 0, l2_pfn_v = 0, l2_pfn_p = 0,
      l2_page_ptr = None\<rparr>, next_entry_idx = 0, is_full = False\<rparr>, l2_hw = (\<lambda>_. 0), l2_log = []\<rparr>"]
    by (simp add: ex_l2_def)
next
  case (Suc n)
  define t where "t = ex_l2_filled n"
  have ok: "l2_ok t" unfolding t_def by (rule l2_reachable_ok) (rule ex_l2_reachable)
  have IH: "l2_queue (l2_set t ! 3) = map ex_page [0 ..< n]" "\<forall>j < 32. j \<noteq> 3 \<longrightarrow> l2_queue (l2_set t ! j) = []" "l2_log t = []"
    using Suc unfolding t_def by auto
  have sh: "l2_shape (l2_set t ! 3)" and len: "length (l2_set t) = 32" using ok by (auto simp: l2_ok_def l2_set_ok_def)
  have nf: "\<not> is_full (l2_set t ! 3)" and nx: "unat (next_entry_idx (l2_set t ! 3)) = n"
    using l2_queue_length [OF sh] IH(1) Suc.prems by (auto split: if_splits)
  have eq: "l2_set (ex_l2_filled (Suc n)) = (l2_set t)[3 := l2_push (ex_page n) (l2_set t ! 3)]"
    "l2_log (ex_l2_filled (Suc n)) = l2_log t"
    unfolding ex_l2_filled.simps t_def [symmetric] setup_entry_eq [OF ok] ex_page_set using nf by simp_all
  show ?case unfolding eq
    using IH len nf nx l2_push_queue [OF sh, of "ex_page n"] by (auto simp: nth_list_update l2_push_def Let_def)
qed

theorem l2_hardware_holds_queues_witness:
  "l2_reachable (ex_l2_filled 1) \<and> l2_hw_set (l2_hw (ex_l2_filled 1)) 3 = {(3, 0x100, 7)}
     \<and> l2_hw_set (l2_hw (ex_l2_filled 1)) 4 = {}"
proof -
  have q: "l2_queue (l2_set (ex_l2_filled 1) ! 3) = [ex_page 0]" "l2_queue (l2_set (ex_l2_filled 1) ! 4) = []"
    using ex_l2_queues [of 1] by simp_all
  have m: "mask 20 = (0xFFFFF :: u32)" "mask 4 = (15 :: u32)" by (simp_all add: mask_eq_exp_minus_1)
  have "(3 :: u32) AND 0xFFFFF = 3" "(7 :: u32) AND 15 = 7" "bit (7 :: u8) 0" "ucast (7 :: u8) = (7 :: u32)" by simp_all
  then show ?thesis
    using l2_hardware_holds_queues [OF ex_l2_reachable, of 1] ex_l2_reachable [of 1] q by (auto simp: ex_page_def m)
qed

theorem l2_setup_refines_fifo_witness:
  "let t' = snd (pulp_rab_l2_setup_entry (\<lambda>_. False) (ex_l2_filled 32) (ex_page 32) 1 True)
   in l2_queue (l2_set t' ! 3) = map ex_page [1 ..< 33] \<and> l2_log t' = [CacheInv 0, SetPageDirty 0, PutPage 0]"
proof -
  have q: "l2_queue (l2_set (ex_l2_filled 32) ! 3) = map ex_page [0 ..< 32]" "l2_log (ex_l2_filled 32) = []"
    using ex_l2_queues [of 32] by simp_all
  have e: "[0 ..< 32] = 0 # [1 ..< 32]" "[Suc 0 ..< 33] = [Suc 0 ..< 32] @ [32]"
    using upt_Suc_append [of "Suc 0" 32] by (simp_all add: upt_conv_Cons)
  have "l2_evict (\<lambda>_. False) (ex_page 0) = [CacheInv 0, SetPageDirty 0, PutPage 0]"
    by (simp add: l2_evict_def ex_page_def)
  then show ?thesis
    using l2_setup_refines_fifo [OF ex_l2_reachable, of "\<lambda>_. False" 32 "ex_page 32" True]
    by (simp add: ex_page_set q e Let_def split_beta)
qed

theorem l2_invalidate_all_leaks_witness:
  "l2_queue (l2_set (ex_l2_filled 32) ! 3) = map ex_page [0 ..< 32]
     \<and> l2_log (pulp_rab_l2_invalidate_all_entries (\<lambda>_. False) (ex_l2_filled 32) 1) = []"
proof -
  have q: "l2_queue (l2_set (ex_l2_filled 32) ! 3) = map ex_page [0 ..< 32]" "l2_log (ex_l2_filled 32) = []"
    "\<forall>i < 32. l2_queue (l2_set (ex_l2_filled 32) ! i) = [] \<or> is_full (l2_set (ex_l2_filled 32) ! i)
       \<and> next_entry_idx (l2_set (ex_l2_filled 32) ! i) = 0"
    using ex_l2_queues [of 32] by auto
  then show ?thesis using l2_invalidate_all_leaks [OF ex_l2_reachable q(3)] by (auto simp: Let_def)
qed

end
