(* ===== verification/Omp_Rt.thy ===== *)
theory Omp_Rt
  imports Prelude
begin

text \<open>
  The OpenMP runtime of the cluster for code compiled with LLVM: the teams and work-sharing
  constructs of \<open>pulp-rt/include/omp.h\<close> and \<open>pulp-rt/libs/omp/omp.c\<close> in the configuration of the
  chip (\<open>EU_VERSION\<close> 3, no hardware loop unit), and the entry points of the compiler in
  \<open>libomptarget-pulp-rtl/kmp.c\<close> and \<open>libcall.c\<close>.

  The team record and the construct counters of the cores (\<open>core_epoch\<close>) are one state. A body
  between \<open>eu_mutex_lock\<close> and \<open>eu_mutex_unlock\<close> is one step of it; a function with two critical
  sections (\<open>sectionInit\<close>, \<open>dynLoopInit\<close>) is the composition of two steps, which the
  interleaving semantics below takes apart again. Out parameters are part of the result. Values of
  type \<open>int\<close> are integers with the wrap-around of \<open>i32\<close>; division and remainder round towards zero
  as in C. The work of a parallel region is a parameter. Trace output has no effect on the state.
\<close>

record omp_team_t =
  nbThreads :: int
  loop_epoch :: int
  loop_start :: int
  loop_end :: int
  loop_incr :: int
  loop_chunk :: int
  loop_is_setup :: int

record omp_t =
  plainTeam :: omp_team_t
  numThreads :: int
  maxThreads :: int
  coreMask :: int
  core_epoch :: "nat \<Rightarrow> int"
  bar_mask :: int  \<comment> \<open>cores of hardware barrier 0\<close>
  dispatch_mask :: int  \<comment> \<open>cores that take dispatched work\<close>

definition set_team :: "(omp_team_t \<Rightarrow> omp_team_t) \<Rightarrow> omp_t \<Rightarrow> omp_t" where
  "set_team f s = s\<lparr>plainTeam := f (plainTeam s)\<rparr>"

definition next_epoch :: "nat \<Rightarrow> omp_t \<Rightarrow> omp_t" where
  "next_epoch core s = s\<lparr>core_epoch := (core_epoch s)(core := i32 (core_epoch s core + 1))\<rparr>"

definition in_epoch :: "nat \<Rightarrow> omp_t \<Rightarrow> bool" where
  "in_epoch core s \<longleftrightarrow> i32 (loop_epoch (plainTeam s) - core_epoch s core) = 0"

subsection \<open>Sections and single\<close>

definition sectionGet :: "nat \<Rightarrow> omp_t \<Rightarrow> int \<times> omp_t" where
  "sectionGet core s =
     (if in_epoch core s then
        let start = loop_start (plainTeam s);
            s1 = set_team (\<lambda>t. t\<lparr>loop_start := i32 (start + 1)\<rparr>) s
        in if start \<ge> loop_end (plainTeam s)
           then (0, next_epoch core (set_team (\<lambda>t. t\<lparr>loop_epoch := i32 (loop_epoch t + 1), loop_is_setup := 0\<rparr>) s1))
           else (start, s1)
      else (0, next_epoch core s))"

text \<open>The first critical section of \<open>sectionInit\<close>: whether it goes on to \<open>sectionGet\<close>.\<close>

definition sectionSetup :: "nat \<Rightarrow> int \<Rightarrow> omp_t \<Rightarrow> bool \<times> omp_t" where
  "sectionSetup core cnt s =
     (if in_epoch core s then
        (True, if loop_is_setup (plainTeam s) = 0
               then set_team (\<lambda>t. t\<lparr>loop_is_setup := 1, loop_start := 1, loop_end := i32 (cnt + 1)\<rparr>) s
               else s)
      else (False, next_epoch core s))"

definition sectionInit :: "nat \<Rightarrow> int \<Rightarrow> omp_t \<Rightarrow> int \<times> omp_t" where
  "sectionInit core cnt s =
     (case sectionSetup core cnt s of (go, s1) \<Rightarrow> if go then sectionGet core s1 else (0, s1))"

definition singleStart :: "nat \<Rightarrow> omp_t \<Rightarrow> int \<times> omp_t" where
  "singleStart core s =
     (if in_epoch core s
      then (1, next_epoch core (set_team (\<lambda>t. t\<lparr>loop_epoch := i32 (loop_epoch t + 1)\<rparr>) s))
      else (0, next_epoch core s))"

subsection \<open>Dynamic loops\<close>

text \<open>The result of \<open>dynLoopIter\<close>: the first and the last index of the chunk and whether
  \<open>*isLast\<close> was set; \<open>None\<close> when it returns 0.\<close>

definition dynLoopIter :: "omp_t \<Rightarrow> (int \<times> int \<times> bool) option \<times> omp_t" where
  "dynLoopIter s =
     (let t = plainTeam s in
      if loop_start t > loop_end t then (None, set_team (\<lambda>t. t\<lparr>loop_is_setup := 0\<rparr>) s)
      else
        let istart = loop_start t;
            iend = i32 (istart + loop_chunk t - 1);
            res = (if iend \<ge> loop_end t then (istart, loop_end t, True) else (istart, iend, False))
        in (Some res, set_team (\<lambda>t. t\<lparr>loop_start := i32 (loop_start t + loop_chunk t)\<rparr>) s))"

definition dynLoopSetup :: "int \<Rightarrow> int \<Rightarrow> int \<Rightarrow> int \<Rightarrow> omp_t \<Rightarrow> omp_t" where
  "dynLoopSetup start end' incr chunk_size =
     set_team (\<lambda>t. t\<lparr>loop_is_setup := 1, loop_start := start, loop_end := end', loop_incr := incr,
                     loop_chunk := chunk_size\<rparr>)"

definition dynLoopInitNoIter :: "nat \<Rightarrow> int \<Rightarrow> int \<Rightarrow> int \<Rightarrow> int \<Rightarrow> omp_t \<Rightarrow> omp_t" where
  "dynLoopInitNoIter core start end' incr chunk_size s =
     (if \<not> in_epoch core s then next_epoch core s
      else if loop_is_setup (plainTeam s) = 0 then dynLoopSetup start end' incr chunk_size s
      else s)"

definition dynLoopInitSingle :: "int \<Rightarrow> int \<Rightarrow> int \<Rightarrow> int \<Rightarrow> omp_t \<Rightarrow> omp_t" where
  "dynLoopInitSingle start end' incr chunk_size s = dynLoopSetup start end' incr chunk_size s"

text \<open>\<open>dynLoopInit\<close> passes a null pointer for \<open>isLast\<close>, which \<open>dynLoopIter\<close> dereferences at the
  last chunk: the outer \<open>None\<close>.\<close>

definition dynLoopInit ::
    "nat \<Rightarrow> int \<Rightarrow> int \<Rightarrow> int \<Rightarrow> int \<Rightarrow> omp_t \<Rightarrow> ((int \<times> int) option \<times> omp_t) option" where
  "dynLoopInit core start end' incr chunk_size s =
     (if \<not> in_epoch core s then Some (None, next_epoch core s)
      else
        let s1 = (if loop_is_setup (plainTeam s) = 0 then dynLoopSetup start end' incr chunk_size s else s)
        in (case dynLoopIter s1 of
              (None, s2) \<Rightarrow> Some (None, s2)
            | (Some (istart, iend, isLast), s2) \<Rightarrow> if isLast then None else Some (Some (istart, iend), s2)))"

subsection \<open>Parallel regions\<close>

text \<open>\<open>work\<close> is the effect of the cores of the team executing the region.\<close>

definition partialParallelRegion :: "(omp_t \<Rightarrow> omp_t) \<Rightarrow> int \<Rightarrow> omp_t \<Rightarrow> omp_t" where
  "partialParallelRegion work num_threads s =
     (let coreSet = i32 (push_bit (nat num_threads) 1 - 1);
          nbCores = nbThreads (plainTeam s);
          s1 = set_team (\<lambda>t. t\<lparr>nbThreads := take_bit 8 num_threads\<rparr>)
                 (s\<lparr>bar_mask := coreSet, dispatch_mask := coreSet\<rparr>);
          s2 = work s1;
          s3 = set_team (\<lambda>t. t\<lparr>loop_epoch := 0\<rparr>) (s2\<lparr>bar_mask := coreMask s, dispatch_mask := coreMask s\<rparr>);
          s4 = s3\<lparr>core_epoch := (\<lambda>i. if int i < nbThreads (plainTeam s3) then 0 else core_epoch s3 i)\<rparr>
      in set_team (\<lambda>t. t\<lparr>nbThreads := nbCores\<rparr>) s4)"

definition parallelRegion :: "(omp_t \<Rightarrow> omp_t) \<Rightarrow> int \<Rightarrow> omp_t \<Rightarrow> omp_t" where
  "parallelRegion work num_threads s =
     (if (push_bit (nat num_threads) 1 AND coreMask s) \<le> 1 then work s
      else partialParallelRegion work num_threads s)"

definition rt_omp_init :: "int \<Rightarrow> omp_t \<Rightarrow> omp_t" where
  "rt_omp_init nb_active_pe s =
     (let mask' = i32 (push_bit (nat nb_active_pe) 1 - 1)
      in set_team (\<lambda>t. t\<lparr>nbThreads := take_bit 8 nb_active_pe, loop_epoch := 0, loop_is_setup := 0\<rparr>)
           (s\<lparr>coreMask := take_bit 16 mask', bar_mask := mask', dispatch_mask := mask',
              numThreads := nb_active_pe, maxThreads := nb_active_pe\<rparr>))"

definition omp_set_num_threads :: "int \<Rightarrow> omp_t \<Rightarrow> omp_t" where
  "omp_set_num_threads num s = s\<lparr>numThreads := (if num > maxThreads s then maxThreads s else num)\<rparr>"

definition kmpc_push_num_threads :: "int \<Rightarrow> omp_t \<Rightarrow> omp_t" where
  "kmpc_push_num_threads num s = s\<lparr>numThreads := (if num > maxThreads s then maxThreads s else num)\<rparr>"

definition omp_get_max_threads :: "omp_t \<Rightarrow> int" where "omp_get_max_threads s = numThreads s"

definition omp_get_thread_limit :: "omp_t \<Rightarrow> int" where "omp_get_thread_limit s = maxThreads s"

definition omp_get_num_threads :: "omp_t \<Rightarrow> int" where "omp_get_num_threads s = nbThreads (plainTeam s)"

text \<open>\<open>__kmpc_fork_call\<close> packs the microtask and its arguments into one block; the wrapper each core
  runs unpacks them again and passes the address of the arguments, here the argument list.\<close>

definition fork_args :: "u32 \<Rightarrow> u32 list \<Rightarrow> u32 list" where
  "fork_args microtask args = microtask # args"

definition microtask_wrapper :: "(u32 \<Rightarrow> u32 list \<Rightarrow> omp_t \<Rightarrow> omp_t) \<Rightarrow> u32 list \<Rightarrow> omp_t \<Rightarrow> omp_t" where
  "microtask_wrapper call blk = call (blk ! 0) (drop 1 blk)"

definition kmpc_fork_call ::
    "(u32 \<Rightarrow> u32 list \<Rightarrow> omp_t \<Rightarrow> omp_t) \<Rightarrow> u32 \<Rightarrow> u32 list \<Rightarrow> omp_t \<Rightarrow> omp_t" where
  "kmpc_fork_call call microtask args s =
     parallelRegion (microtask_wrapper call (fork_args microtask args)) (numThreads s) s"

subsection \<open>Static loops\<close>

definition c_div :: "int \<Rightarrow> int \<Rightarrow> int" where
  "c_div a b = (if (a < 0) = (b < 0) then \<bar>a\<bar> div \<bar>b\<bar> else - (\<bar>a\<bar> div \<bar>b\<bar>))"

definition c_mod :: "int \<Rightarrow> int \<Rightarrow> int" where
  "c_mod a b = a - c_div a b * b"

text \<open>The out parameters of \<open>__kmpc_for_static_init_4\<close>: lower and upper bound of the core, stride
  between its chunks, and whether it has the last iteration. \<open>None\<close> is the untouched state of a
  schedule the function does not know.\<close>

record static_bounds =
  plower :: int
  pupper :: int
  pstride :: int
  plastiter :: bool

definition kmpc_for_static_init_4 ::
    "int \<Rightarrow> nat \<Rightarrow> int \<Rightarrow> int \<Rightarrow> int \<Rightarrow> int \<Rightarrow> int \<Rightarrow> static_bounds option" where
  "kmpc_for_static_init_4 nb threadNum sched lower0 upper0 incr chunk0 =
     (let loopSize = i32 (c_div (i32 (upper0 - lower0)) incr + 1);
          tn = int threadNum
      in if sched = 33 then
           let span = i32 (incr * chunk0);
               stride = i32 (span * nb);
               lo = i32 (lower0 + i32 (span * tn));
               up = i32 (i32 (lo + span) - incr);
               beginLastChunk = i32 (upper0 - c_mod upper0 span)
           in Some \<lparr>plower = lo, pupper = up, pstride = stride,
                    plastiter = c_mod (i32 (beginLastChunk - lo)) stride = 0\<rparr>
         else if sched = 34 then
           let chunk = c_div loopSize nb;
               leftOver = i32 (loopSize - i32 (chunk * nb));
               chunk' = (if tn < leftOver then i32 (chunk + 1) else chunk);
               lo = (if tn < leftOver then i32 (lower0 + i32 (i32 (tn * chunk') * incr))
                     else i32 (i32 (lower0 + i32 (i32 (tn * chunk) * incr)) + leftOver));
               up = i32 (i32 (lo + i32 (chunk' * incr)) - incr)
           in Some \<lparr>plower = lo, pupper = up, pstride = loopSize,
                    plastiter = (up = upper0 \<and> lo \<le> upper0)\<rparr>
         else None)"

text \<open>The 64-bit entry points narrow the bounds to 32 bits.\<close>

definition kmpc_for_static_init_8 ::
    "int \<Rightarrow> nat \<Rightarrow> int \<Rightarrow> int \<Rightarrow> int \<Rightarrow> int \<Rightarrow> int \<Rightarrow> static_bounds option" where
  "kmpc_for_static_init_8 nb threadNum sched lower0 upper0 incr chunk0 =
     kmpc_for_static_init_4 nb threadNum sched (i32 lower0) (i32 upper0) (i32 incr) (i32 chunk0)"

subsection \<open>Dispatched loops\<close>

definition kmpc_dispatch_init_4 :: "nat \<Rightarrow> int \<Rightarrow> int \<Rightarrow> int \<Rightarrow> int \<Rightarrow> omp_t \<Rightarrow> omp_t" where
  "kmpc_dispatch_init_4 core lb ub st chunk s = dynLoopInitNoIter core lb ub st chunk s"

definition kmpc_dispatch_next_4 :: "omp_t \<Rightarrow> (int \<times> int \<times> bool) option \<times> omp_t" where
  "kmpc_dispatch_next_4 s = dynLoopIter s"

definition kmpc_dispatch_init_8u :: "nat \<Rightarrow> int \<Rightarrow> int \<Rightarrow> int \<Rightarrow> int \<Rightarrow> omp_t \<Rightarrow> omp_t" where
  "kmpc_dispatch_init_8u core lb ub st chunk s =
     kmpc_dispatch_init_4 core (i32 lb) (i32 ub) (i32 st) (i32 chunk) s"

definition kmpc_single :: "nat \<Rightarrow> omp_t \<Rightarrow> int \<times> omp_t" where
  "kmpc_single core s = singleStart core s"

definition kmpc_master :: "nat \<Rightarrow> int" where
  "kmpc_master thread_num = (if thread_num = 0 then 1 else 0)"

subsection \<open>Interleaved execution of sections and single constructs\<close>

text \<open>
  Every core of the team runs the same sequence of constructs, without a barrier between them. One
  step of a core is one critical section of the runtime. The log records which section (or the body
  of which single construct) was handed to some core, with the number of its construct.
\<close>

datatype construct = Sections int | Single

record ws_run =
  rt :: omp_t
  pos :: "nat \<Rightarrow> nat"  \<comment> \<open>the construct the core is at\<close>
  ready :: "nat \<Rightarrow> bool"  \<comment> \<open>inside it, about to ask for a section\<close>
  handed :: "(nat \<times> int) list"

definition ws_step :: "construct list \<Rightarrow> ws_run \<Rightarrow> nat \<Rightarrow> ws_run" where
  "ws_step prog r i =
     (if length prog \<le> pos r i then r
      else if ready r i then
        (case sectionGet i (rt r) of (v, s) \<Rightarrow>
           if v = 0 then r\<lparr>rt := s, ready := (ready r)(i := False), pos := (pos r)(i := pos r i + 1)\<rparr>
           else r\<lparr>rt := s, handed := handed r @ [(pos r i, v)]\<rparr>)
      else (case prog ! pos r i of
          Sections cnt \<Rightarrow>
            (case sectionSetup i cnt (rt r) of (go, s) \<Rightarrow>
               if go then r\<lparr>rt := s, ready := (ready r)(i := True)\<rparr>
               else r\<lparr>rt := s, pos := (pos r)(i := pos r i + 1)\<rparr>)
        | Single \<Rightarrow>
            (case singleStart i (rt r) of (v, s) \<Rightarrow>
               r\<lparr>rt := s, pos := (pos r)(i := pos r i + 1),
                 handed := (if v = 0 then handed r else handed r @ [(pos r i, v)])\<rparr>)))"

definition ws_init :: "omp_t \<Rightarrow> ws_run" where
  "ws_init s = \<lparr>rt = s, pos = (\<lambda>_. 0), ready = (\<lambda>_. False), handed = []\<rparr>"

definition ws_exec :: "construct list \<Rightarrow> omp_t \<Rightarrow> nat list \<Rightarrow> ws_run" where
  "ws_exec prog s sched = foldl (ws_step prog) (ws_init s) sched"

fun construct_work :: "construct \<Rightarrow> int set" where
  "construct_work (Sections cnt) = {1 .. cnt}"
| "construct_work Single = {1}"

definition all_work :: "construct list \<Rightarrow> nat \<Rightarrow> (nat \<times> int) set" where
  "all_work prog n = {(k, v). k < n \<and> v \<in> construct_work (prog ! k)}"

definition prog_ok :: "construct list \<Rightarrow> bool" where
  "prog_ok prog \<longleftrightarrow> int (length prog) < 2 ^ 31 \<and> (\<forall>cnt. Sections cnt \<in> set prog \<longrightarrow> 0 \<le> cnt \<and> cnt < 2 ^ 31 - 1)"

text \<open>The construct the team is at: its number is the epoch of the team.\<close>

definition open_work :: "construct list \<Rightarrow> nat \<Rightarrow> omp_team_t \<Rightarrow> (nat \<times> int) set" where
  "open_work prog e t = (if loop_is_setup t = 0 then {} else Pair e ` {1 ..< loop_start t})"

definition team_ok :: "construct list \<Rightarrow> nat \<Rightarrow> omp_team_t \<Rightarrow> bool" where
  "team_ok prog e t \<longleftrightarrow> loop_epoch t = int e \<and> e \<le> length prog \<and>
     (loop_is_setup t = 0 \<or>
      (\<exists>cnt. e < length prog \<and> prog ! e = Sections cnt \<and> loop_end t = cnt + 1 \<and>
             1 \<le> loop_start t \<and> loop_start t \<le> cnt + 1))"

definition ws_inv :: "construct list \<Rightarrow> nat \<Rightarrow> ws_run \<Rightarrow> bool" where
  "ws_inv prog e r \<longleftrightarrow> team_ok prog e (plainTeam (rt r)) \<and>
     (\<forall>i. core_epoch (rt r) i = int (pos r i) \<and> pos r i \<le> e \<and>
          (ready r i \<longrightarrow> (pos r i = e \<longrightarrow> loop_is_setup (plainTeam (rt r)) \<noteq> 0))) \<and>
     distinct (handed r) \<and> set (handed r) = all_work prog e \<union> open_work prog e (plainTeam (rt r))"

lemma set_team_simps [simp]:
  "plainTeam (set_team f s) = f (plainTeam s)" "core_epoch (set_team f s) = core_epoch s"
  "plainTeam (next_epoch i s) = plainTeam s"
  by (simp_all add: set_team_def next_epoch_def)

lemma all_work_Suc: "all_work prog (Suc e) = all_work prog e \<union> Pair e ` construct_work (prog ! e)"
  by (auto simp: all_work_def less_Suc_eq)

lemma all_work_less: "(k, v) \<in> all_work prog e \<Longrightarrow> k < e"
  by (simp add: all_work_def)

lemma prog_ok_nth: "prog_ok prog \<Longrightarrow> e < length prog \<Longrightarrow> prog ! e = Sections cnt \<Longrightarrow> 0 \<le> cnt \<and> cnt < 2 ^ 31 - 1"
  using nth_mem [of e prog] by (auto simp: prog_ok_def)

lemma ws_inv_in_epoch:
  assumes "ws_inv prog e r" "prog_ok prog"
  shows "in_epoch i (rt r) \<longleftrightarrow> pos r i = e"
proof -
  have ep: "loop_epoch (plainTeam (rt r)) = int e" "core_epoch (rt r) i = int (pos r i)" "pos r i \<le> e"
    "e \<le> length prog" "int (length prog) < 2 ^ 31"
    using assms by (simp_all add: ws_inv_def team_ok_def prog_ok_def)
  then have "int e - int (pos r i) < 2 ^ 31" "- (2 ^ 31) \<le> int e - int (pos r i)" by linarith+
  then have "i32 (int e - int (pos r i)) = int e - int (pos r i)" by (intro i32_id)
  then show ?thesis using ep(1,2) by (auto simp: in_epoch_def)
qed

text \<open>A core that is behind the team leaves its construct, and nothing else changes.\<close>

lemma ws_inv_skip:
  assumes inv: "ws_inv prog e r" "prog_ok prog" and "pos r i < e"
  shows "ws_inv prog e (r\<lparr>rt := next_epoch i (rt r), ready := (ready r)(i := False), pos := (pos r)(i := pos r i + 1)\<rparr>)"
proof -
  have "i32 (int (pos r i) + 1) = int (pos r i) + 1"
    using assms by (intro i32_id) (auto simp: ws_inv_def team_ok_def prog_ok_def)
  then show ?thesis using inv(1) assms(3) by (auto simp: ws_inv_def next_epoch_def)
qed

text \<open>The team goes on to the next construct when all work of the open one was handed out.\<close>

lemma ws_inv_next:
  assumes inv: "ws_inv prog e r" "prog_ok prog" and e: "pos r i = e" "e < length prog"
    and t: "loop_epoch t = i32 (loop_epoch (plainTeam (rt r)) + 1)" "loop_is_setup t = 0"
    and h: "distinct h" "set h = all_work prog (Suc e)"
  shows "ws_inv prog (Suc e) (r\<lparr>rt := next_epoch i (set_team (\<lambda>_. t) (rt r)), ready := (ready r)(i := False),
           pos := (pos r)(i := pos r i + 1), handed := h\<rparr>)"
proof -
  have "i32 (int e + 1) = int e + 1" using inv e by (intro i32_id) (auto simp: prog_ok_def)
  then show ?thesis
    using inv(1) e t h by (auto simp: ws_inv_def next_epoch_def team_ok_def open_work_def le_SucI)
qed

lemma ws_step_get:
  assumes inv: "ws_inv prog e r" "prog_ok prog" and i: "pos r i < length prog" "ready r i"
  shows "\<exists>e'. ws_inv prog e' (ws_step prog r i)"
proof (cases "pos r i = e")
  case False
  then have "pos r i < e" using inv(1) by (auto simp: ws_inv_def order_le_less)
  moreover have "\<not> in_epoch i (rt r)" using False ws_inv_in_epoch [OF inv] by simp
  ultimately show ?thesis
    using ws_inv_skip [OF inv, of i] i by (auto simp: ws_step_def sectionGet_def)
next
  case True
  let ?t = "plainTeam (rt r)"
  have ep: "in_epoch i (rt r)" using True ws_inv_in_epoch [OF inv] by simp
  have "loop_is_setup ?t \<noteq> 0" using inv(1) i(2) True by (auto simp: ws_inv_def)
  then obtain cnt where c: "e < length prog" "prog ! e = Sections cnt" "loop_end ?t = cnt + 1"
    "1 \<le> loop_start ?t" "loop_start ?t \<le> cnt + 1" "loop_is_setup ?t \<noteq> 0"
    using inv(1) by (auto simp: ws_inv_def team_ok_def)
  have b: "cnt < 2 ^ 31 - 1" using prog_ok_nth [OF inv(2) c(1,2)] by simp
  have h: "distinct (handed r)" "set (handed r) = all_work prog e \<union> Pair e ` {1 ..< loop_start ?t}"
    using inv(1) c(6) by (simp_all add: ws_inv_def open_work_def)
  show ?thesis
  proof (cases "loop_start ?t \<ge> loop_end ?t")
    case True': True
    then have "loop_start ?t = cnt + 1" using c by simp
    then have "set (handed r) = all_work prog (Suc e)" using h(2) c(2) by (auto simp: all_work_Suc)
    then show ?thesis
      using ws_inv_next [OF inv True c(1), where h = "handed r" and
          t = "?t\<lparr>loop_start := i32 (loop_start ?t + 1), loop_epoch := i32 (loop_epoch ?t + 1), loop_is_setup := 0\<rparr>"]
        h(1) i ep True' by (auto simp: ws_step_def sectionGet_def set_team_def)
  next
    case False
    then have "i32 (loop_start ?t + 1) = loop_start ?t + 1" using c b by (intro i32_id) simp_all
    moreover have "{1 ..< loop_start ?t + 1} = insert (loop_start ?t) {1 ..< loop_start ?t}" using c(4) by auto
    ultimately have "ws_inv prog e (r\<lparr>rt := set_team (\<lambda>t. t\<lparr>loop_start := i32 (loop_start ?t + 1)\<rparr>) (rt r),
        handed := handed r @ [(e, loop_start ?t)]\<rparr>)"
      using inv(1) c h False by (auto simp: ws_inv_def team_ok_def open_work_def dest: all_work_less)
    then show ?thesis
      using False i ep c(4) True by (auto simp: ws_step_def sectionGet_def Let_def)
  qed
qed

lemma ws_step_enter:
  assumes inv: "ws_inv prog e r" "prog_ok prog" and i: "pos r i < length prog" "\<not> ready r i"
    and c: "prog ! pos r i = Sections cnt"
  shows "\<exists>e'. ws_inv prog e' (ws_step prog r i)"
proof (cases "pos r i = e")
  case False
  then have "pos r i < e" using inv(1) by (auto simp: ws_inv_def order_le_less)
  moreover have "\<not> in_epoch i (rt r)" using False ws_inv_in_epoch [OF inv] by simp
  moreover have "(ready r)(i := False) = ready r" using i(2) by (auto simp: fun_eq_iff)
  ultimately show ?thesis
    using ws_inv_skip [OF inv, of i] i c by (auto simp: ws_step_def sectionSetup_def)
next
  case True
  have "in_epoch i (rt r)" using True ws_inv_in_epoch [OF inv] by simp
  moreover have "i32 (cnt + 1) = cnt + 1" using prog_ok_nth [OF inv(2) i(1) c] by (intro i32_id) simp_all
  ultimately have "ws_inv prog e (ws_step prog r i)"
    using inv(1) i c True prog_ok_nth [OF inv(2) i(1) c]
    by (auto simp: ws_step_def sectionSetup_def ws_inv_def team_ok_def open_work_def)
  then show ?thesis ..
qed

lemma ws_step_single:
  assumes inv: "ws_inv prog e r" "prog_ok prog" and i: "pos r i < length prog" "\<not> ready r i"
    and c: "prog ! pos r i = Single"
  shows "\<exists>e'. ws_inv prog e' (ws_step prog r i)"
proof (cases "pos r i = e")
  case False
  then have "pos r i < e" using inv(1) by (auto simp: ws_inv_def order_le_less)
  moreover have "\<not> in_epoch i (rt r)" using False ws_inv_in_epoch [OF inv] by simp
  moreover have "(ready r)(i := False) = ready r" using i(2) by (auto simp: fun_eq_iff)
  ultimately show ?thesis
    using ws_inv_skip [OF inv, of i] i c by (auto simp: ws_step_def singleStart_def)
next
  case True
  let ?t = "plainTeam (rt r)"
  have ep: "in_epoch i (rt r)" using True ws_inv_in_epoch [OF inv] by simp
  have su: "loop_is_setup ?t = 0" using inv(1) c True by (auto simp: ws_inv_def team_ok_def)
  then have h: "distinct (handed r)" "set (handed r) = all_work prog e"
    using inv(1) by (simp_all add: ws_inv_def open_work_def)
  have "(ready r)(i := False) = ready r" using i(2) by (auto simp: fun_eq_iff)
  moreover have "distinct (handed r @ [(e, 1)])" "set (handed r @ [(e, 1)]) = all_work prog (Suc e)"
    using h c True by (auto simp: all_work_Suc dest: all_work_less)
  ultimately show ?thesis
    using ws_inv_next [OF inv True, where h = "handed r @ [(e, 1)]" and
        t = "?t\<lparr>loop_epoch := i32 (loop_epoch ?t + 1)\<rparr>"] su i c True ep
    by (auto simp: ws_step_def singleStart_def set_team_def)
qed

lemma ws_step_inv:
  assumes "ws_inv prog e r" "prog_ok prog"
  shows "\<exists>e'. ws_inv prog e' (ws_step prog r i)"
proof (cases "pos r i < length prog")
  case False
  then show ?thesis using assms(1) by (auto simp: ws_step_def)
next
  case True
  then show ?thesis
    using ws_step_get [OF assms True] ws_step_enter [OF assms True] ws_step_single [OF assms True]
    by (cases "prog ! pos r i") auto
qed

lemma ws_exec_inv:
  assumes "prog_ok prog" "loop_epoch (plainTeam s) = 0" "loop_is_setup (plainTeam s) = 0" "\<And>i. core_epoch s i = 0"
  shows "\<exists>e. ws_inv prog e (ws_exec prog s sched)"
proof (induction sched rule: rev_induct)
  case Nil
  have "ws_inv prog 0 (ws_init s)"
    using assms by (auto simp: ws_inv_def ws_init_def team_ok_def open_work_def all_work_def)
  then show ?case by (auto simp: ws_exec_def)
next
  case (snoc i sched)
  then show ?case using ws_step_inv [OF _ assms(1)] by (auto simp: ws_exec_def)
qed

subsection \<open>Dynamic loops, one chunk after the other\<close>

text \<open>The team while a loop from \<open>lo\<close> to \<open>hi\<close> with a given chunk size is being handed out, up to
  the index \<open>nxt\<close>.\<close>

definition loop_at :: "int \<Rightarrow> int \<Rightarrow> int \<Rightarrow> omp_t \<Rightarrow> bool" where
  "loop_at chunk hi nxt s \<longleftrightarrow> loop_start (plainTeam s) = nxt \<and> loop_end (plainTeam s) = hi \<and>
     loop_chunk (plainTeam s) = chunk"

primrec dyn_chunks :: "nat \<Rightarrow> omp_t \<Rightarrow> (int \<times> int) list \<times> omp_t" where
  "dyn_chunks 0 s = ([], s)"
| "dyn_chunks (Suc n) s =
     (case dynLoopIter s of
        (None, s1) \<Rightarrow> ([], s1)
      | (Some (a, b, _), s1) \<Rightarrow> (case dyn_chunks n s1 of (cs, s2) \<Rightarrow> ((a, b) # cs, s2)))"

lemma dynLoopIter_at:
  assumes "loop_at chunk hi nxt s" "0 < chunk" "- (2 ^ 31) \<le> nxt" "hi + chunk < 2 ^ 31"
  shows "nxt > hi \<Longrightarrow> fst (dynLoopIter s) = None \<and> loop_at chunk hi nxt (snd (dynLoopIter s))"
    and "nxt \<le> hi \<Longrightarrow> \<exists>isLast. fst (dynLoopIter s) = Some (nxt, min hi (nxt + chunk - 1), isLast) \<and>
           (isLast \<longleftrightarrow> hi \<le> nxt + chunk - 1) \<and> loop_at chunk hi (nxt + chunk) (snd (dynLoopIter s))"
proof -
  show "nxt > hi \<Longrightarrow> fst (dynLoopIter s) = None \<and> loop_at chunk hi nxt (snd (dynLoopIter s))"
    using assms by (simp add: dynLoopIter_def loop_at_def)
  assume "nxt \<le> hi"
  then have "i32 (nxt + chunk - 1) = nxt + chunk - 1" "i32 (nxt + chunk) = nxt + chunk"
    using assms by (auto intro!: i32_id)
  then show "\<exists>isLast. fst (dynLoopIter s) = Some (nxt, min hi (nxt + chunk - 1), isLast) \<and>
      (isLast \<longleftrightarrow> hi \<le> nxt + chunk - 1) \<and> loop_at chunk hi (nxt + chunk) (snd (dynLoopIter s))"
    using assms \<open>nxt \<le> hi\<close> by (auto simp: dynLoopIter_def loop_at_def)
qed

lemma upto_split3: "i \<le> j \<Longrightarrow> j < k \<Longrightarrow> [i..k] = [i..j] @ [j + 1..k]"
  using upto_split2 [of i j k] by simp

lemma dyn_chunks_at:
  assumes "loop_at chunk hi nxt s" "0 < chunk" "- (2 ^ 31) \<le> nxt" "hi + chunk < 2 ^ 31"
    and "hi - nxt < int n"
  shows "concat (map (\<lambda>(a, b). [a..b]) (fst (dyn_chunks n s))) = [nxt..hi]"
  using assms
proof (induction n arbitrary: nxt s)
  case 0
  then show ?case by simp
next
  case (Suc n)
  show ?case
  proof (cases "nxt > hi")
    case True
    then show ?thesis using dynLoopIter_at(1) [OF Suc.prems(1-4)] by (auto simp: split: prod.splits)
  next
    case False
    then obtain isLast where it: "fst (dynLoopIter s) = Some (nxt, min hi (nxt + chunk - 1), isLast)"
      "loop_at chunk hi (nxt + chunk) (snd (dynLoopIter s))"
      using dynLoopIter_at(2) [OF Suc.prems(1-4)] by auto
    have IH: "concat (map (\<lambda>(a, b). [a..b]) (fst (dyn_chunks n (snd (dynLoopIter s))))) = [nxt + chunk..hi]"
      using Suc.prems False by (intro Suc.IH [OF it(2)]) simp_all
    have "[nxt..hi] = [nxt..min hi (nxt + chunk - 1)] @ [nxt + chunk..hi]"
      using False Suc.prems(2) upto_split3 [of nxt "nxt + chunk - 1" hi] by (auto simp: min_def)
    then show ?thesis using it(1) IH by (auto split: prod.splits)
  qed
qed

lemma dynLoopIter_epoch: "in_epoch j (snd (dynLoopIter s)) = in_epoch j s"
  by (simp add: dynLoopIter_def Let_def in_epoch_def set_team_def)

lemma dyn_chunks_epoch: "in_epoch j (snd (dyn_chunks n s)) = in_epoch j s"
proof (induction n arbitrary: s)
  case (Suc n)
  show ?case
    using Suc [of "snd (dynLoopIter s)"] dynLoopIter_epoch [of j s]
    by (auto split: prod.splits option.splits)
qed simp

lemma dyn_chunks_done:
  assumes "loop_at chunk hi nxt s" "0 < chunk" "- (2 ^ 31) \<le> nxt" "hi + chunk < 2 ^ 31"
    and "hi - nxt + 1 < int n" "0 < n"
  shows "loop_is_setup (plainTeam (snd (dyn_chunks n s))) = 0"
  using assms
proof (induction n arbitrary: nxt s)
  case (Suc n)
  show ?case
  proof (cases "nxt > hi")
    case True
    then have "dynLoopIter s = (None, set_team (\<lambda>t. t\<lparr>loop_is_setup := 0\<rparr>) s)"
      using Suc.prems(1) by (simp add: dynLoopIter_def loop_at_def)
    then show ?thesis by simp
  next
    case False
    then obtain isLast where it: "fst (dynLoopIter s) = Some (nxt, min hi (nxt + chunk - 1), isLast)"
      "loop_at chunk hi (nxt + chunk) (snd (dynLoopIter s))"
      using dynLoopIter_at(2) [OF Suc.prems(1-4)] by auto
    have "loop_is_setup (plainTeam (snd (dyn_chunks n (snd (dynLoopIter s))))) = 0"
      using Suc.prems False by (intro Suc.IH [OF it(2)]) simp_all
    then show ?thesis using it(1) by (auto split: prod.splits)
  qed
qed simp

subsection \<open>Static schedules\<close>

lemma c_div_nonneg: "0 \<le> a \<Longrightarrow> 0 < b \<Longrightarrow> c_div a b = a div b"
  by (simp add: c_div_def)

lemma c_mod_nonneg: "0 \<le> a \<Longrightarrow> 0 < b \<Longrightarrow> c_mod a b = a mod b"
  by (simp add: c_mod_def c_div_nonneg minus_div_mult_eq_mod)

lemma c_mod_0_iff: "0 < b \<Longrightarrow> c_mod a b = 0 \<longleftrightarrow> b dvd a"
proof (cases "0 \<le> a")
  case False
  assume b: "0 < b"
  have "c_mod a b = - ((- a) mod b)"
    using b False minus_div_mult_eq_mod [of "- a" b] by (simp add: c_mod_def c_div_def)
  then show ?thesis by (simp add: mod_eq_0_iff_dvd)
qed (simp add: c_mod_nonneg mod_eq_0_iff_dvd)

text \<open>Where the share of core number \<open>t\<close> of \<open>n\<close> iterations over \<open>nb\<close> cores begins.\<close>

definition share_start :: "int \<Rightarrow> int \<Rightarrow> int \<Rightarrow> int" where
  "share_start n nb t = t * (n div nb) + min t (n mod nb)"

lemma share_start_bounds: "0 < nb \<Longrightarrow> share_start n nb 0 = 0" "0 < nb \<Longrightarrow> share_start n nb nb = n"
  by (simp_all add: share_start_def min_absorb2 less_imp_le)

lemma share_start_mono: "0 \<le> n \<Longrightarrow> 0 < nb \<Longrightarrow> s \<le> t \<Longrightarrow> share_start n nb s \<le> share_start n nb t"
  unfolding share_start_def by (intro add_mono mult_right_mono) (auto simp: pos_imp_zdiv_nonneg_iff)

lemma static_share:
  assumes "- (2 ^ 31) \<le> lower0" "lower0 \<le> upper0" "upper0 < 2 ^ 31 - 1" "upper0 - lower0 + 1 < 2 ^ 31"
    and nb: "0 < nb" "nb < 2 ^ 31" "int t < nb"
  shows "\<exists>b. kmpc_for_static_init_4 nb t 34 lower0 upper0 1 chunk = Some b \<and>
     plower b = lower0 + share_start (upper0 - lower0 + 1) nb (int t) \<and>
     pupper b = lower0 + share_start (upper0 - lower0 + 1) nb (int t + 1) - 1 \<and>
     (plastiter b \<longleftrightarrow> pupper b = upper0 \<and> plower b \<le> upper0)"
proof -
  define n q r k where "n = upper0 - lower0 + 1" and "q = n div nb" and "r = n mod nb" and "k = int t"
  have n: "0 < n" "n < 2 ^ 31" using assms by (simp_all add: n_def)
  have q: "0 \<le> q" "q * nb + r = n" and r: "0 \<le> r" "r < nb" and k: "0 \<le> k" "k < nb"
    using n(1) nb by (simp_all add: q_def r_def k_def pos_imp_zdiv_nonneg_iff)
  have qk: "0 \<le> k * q" "(k + 1) * q \<le> nb * q" using q(1) k by (auto intro!: mult_right_mono)
  have sh: "share_start (upper0 - lower0 + 1) nb (int t) = k * q + min k r"
    "share_start (upper0 - lower0 + 1) nb (int t + 1) = (k + 1) * q + min (k + 1) r"
    by (simp_all add: share_start_def n_def q_def r_def k_def)
  have rq: "1 \<le> r + q" using q r n(1) by (cases "q = 0") auto
  have lin: "k * q + q + r \<le> n" using qk(2) q(2) by (simp add: algebra_simps)
  have sz: "i32 (c_div (i32 (upper0 - lower0)) 1 + 1) = n"
    using assms n by (simp add: n_def c_div_nonneg)
  have i: "c_div n nb = q" "i32 (q * nb) = q * nb" "i32 (n - q * nb) = r"
    using n nb q r by (auto simp: c_div_nonneg q_def intro!: i32_id)
  show ?thesis
  proof (cases "k < r")
    case True
    have e: "k * (q + 1) = k * q + k" "(k + 1) * q = k * q + q" by (simp_all add: algebra_simps)
    have b: "q + 1 < 2 ^ 31" "k * (q + 1) < 2 ^ 31" "lower0 + (k * q + k) + (q + 1) \<le> upper0 + 1"
      using True qk(1) lin q(1) n k unfolding e n_def by linarith+
    have "i32 (q + 1) = q + 1" "i32 (k * (q + 1)) = k * (q + 1)"
      "i32 (lower0 + k * (q + 1)) = lower0 + k * (q + 1)"
      "i32 (lower0 + k * (q + 1) + (q + 1)) = lower0 + k * (q + 1) + (q + 1)"
      "i32 (lower0 + k * (q + 1) + (q + 1) - 1) = lower0 + k * (q + 1) + (q + 1) - 1"
      using b q(1) qk(1) k assms(1,3) unfolding e by (intro i32_id; linarith)+
    then have "kmpc_for_static_init_4 nb t 34 lower0 upper0 1 chunk =
        Some \<lparr>plower = lower0 + k * (q + 1), pupper = lower0 + k * (q + 1) + (q + 1) - 1, pstride = n,
              plastiter = (lower0 + k * (q + 1) + (q + 1) - 1 = upper0 \<and> lower0 + k * (q + 1) \<le> upper0)\<rparr>"
      using True by (simp add: kmpc_for_static_init_4_def Let_def k_def [symmetric] sz i)
    then show ?thesis using True e unfolding sh by simp
  next
    case False
    have e: "(k + 1) * q = k * q + q" by (simp add: algebra_simps)
    have b: "k * q < 2 ^ 31" "lower0 + k * q + r + q \<le> upper0 + 1" "q < 2 ^ 31"
      using False qk(1) lin q(1) n k r unfolding n_def by linarith+
    have "i32 (k * q) = k * q" "i32 (lower0 + k * q) = lower0 + k * q" "i32 q = q"
      "i32 (lower0 + k * q + r) = lower0 + k * q + r" "i32 (lower0 + k * q + r + q) = lower0 + k * q + r + q"
      "i32 (lower0 + k * q + r + q - 1) = lower0 + k * q + r + q - 1"
      using b q(1) qk(1) k r rq assms(1,3) by (intro i32_id; linarith)+
    then have "kmpc_for_static_init_4 nb t 34 lower0 upper0 1 chunk =
        Some \<lparr>plower = lower0 + k * q + r, pupper = lower0 + k * q + r + q - 1, pstride = n,
              plastiter = (lower0 + k * q + r + q - 1 = upper0 \<and> lower0 + k * q + r \<le> upper0)\<rparr>"
      using False by (simp add: kmpc_for_static_init_4_def Let_def k_def [symmetric] sz i)
    then show ?thesis using False e unfolding sh by simp
  qed
qed

lemma static_chunk:
  assumes "- (2 ^ 31) \<le> lower0" "lower0 \<le> upper0" "0 < chunk" "0 < nb" "int t < nb"
    and "lower0 + chunk * nb < 2 ^ 31" "chunk * nb < 2 ^ 31" "upper0 - lower0 < 2 ^ 31 - 1" "upper0 < 2 ^ 31"
  shows "\<exists>b. kmpc_for_static_init_4 nb t 33 lower0 upper0 1 chunk = Some b \<and>
     plower b = lower0 + chunk * int t \<and> pupper b = lower0 + chunk * int t + chunk - 1 \<and>
     pstride b = chunk * nb \<and>
     (lower0 = 0 \<longrightarrow> (plastiter b \<longleftrightarrow> chunk * nb dvd upper0 - upper0 mod chunk - chunk * int t))"
proof -
  define k where "k = int t"
  have k: "0 \<le> k" "k < nb" using assms by (simp_all add: k_def)
  have ck: "0 \<le> chunk * k" "chunk * k + chunk \<le> chunk * nb"
    using k assms(3) mult_left_mono [of "k + 1" nb chunk] by (simp_all add: algebra_simps)
  have i: "i32 chunk = chunk" "i32 (chunk * nb) = chunk * nb" "i32 (chunk * k) = chunk * k"
    "i32 (lower0 + chunk * k) = lower0 + chunk * k"
    "i32 (lower0 + chunk * k + chunk) = lower0 + chunk * k + chunk"
    "i32 (lower0 + chunk * k + chunk - 1) = lower0 + chunk * k + chunk - 1"
    using ck assms by (intro i32_id; linarith)+
  have "plastiter (the (kmpc_for_static_init_4 nb t 33 lower0 upper0 1 chunk)) \<longleftrightarrow>
      chunk * nb dvd upper0 - upper0 mod chunk - chunk * k" if "lower0 = 0"
  proof -
    have m: "0 \<le> upper0 mod chunk" "upper0 mod chunk \<le> upper0"
      using assms(2,3) that by (simp_all add: zmod_le_nonneg_dividend)
    have "i32 (upper0 - upper0 mod chunk) = upper0 - upper0 mod chunk"
      "i32 (upper0 - upper0 mod chunk - chunk * k) = upper0 - upper0 mod chunk - chunk * k"
      using m ck assms by (intro i32_id; linarith)+
    moreover have "0 < chunk * nb" using assms(3,4) by simp
    ultimately show ?thesis
      using that i assms(2,3) by (simp add: kmpc_for_static_init_4_def Let_def k_def [symmetric]
          c_mod_nonneg c_mod_0_iff)
  qed
  then show ?thesis using i by (simp add: kmpc_for_static_init_4_def Let_def k_def)
qed

text \<open>The iterations the compiler's loop runs with the bounds of a chunked schedule: chunk after chunk,
  each cut off at the end of the loop.\<close>

definition static_iters :: "int \<Rightarrow> static_bounds \<Rightarrow> int set" where
  "static_iters upper0 b =
     {i. \<exists>k :: nat. plower b + int k * pstride b \<le> i \<and> i \<le> min upper0 (pupper b + int k * pstride b)}"

lemma chunk_owner:
  assumes "0 < (chunk :: int)" "0 < nb" "0 \<le> t" "t < nb" "0 \<le> x"
  shows "(\<exists>k :: nat. chunk * t + int k * (chunk * nb) \<le> x \<and> x \<le> chunk * t + chunk - 1 + int k * (chunk * nb)) \<longleftrightarrow>
    (x div chunk) mod nb = t"
proof
  assume "\<exists>k :: nat. chunk * t + int k * (chunk * nb) \<le> x \<and> x \<le> chunk * t + chunk - 1 + int k * (chunk * nb)"
  then obtain k :: nat where k: "chunk * (t + int k * nb) \<le> x" "x < chunk * (t + int k * nb) + chunk"
    by (auto simp: algebra_simps)
  then have "x div chunk = t + int k * nb"
    using assms(1) div_pos_neg_trivial int_div_pos_eq [of x chunk "t + int k * nb" "x - chunk * (t + int k * nb)"]
    by simp
  then show "(x div chunk) mod nb = t" using assms by simp
next
  assume a: "(x div chunk) mod nb = t"
  define k where "k = nat (x div chunk div nb)"
  have "x div chunk = nb * int k + t"
    using a assms(1,2,5) mult_div_mod_eq [of nb "x div chunk"]
    by (simp add: k_def pos_imp_zdiv_nonneg_iff)
  moreover have "chunk * (x div chunk) \<le> x" "x < chunk * (x div chunk) + chunk"
    using mult_div_mod_eq [of chunk x] pos_mod_sign [of chunk x] pos_mod_bound [of chunk x] assms(1) by linarith+
  ultimately have "chunk * t + int k * (chunk * nb) \<le> x \<and> x \<le> chunk * t + chunk - 1 + int k * (chunk * nb)"
    by (simp add: algebra_simps)
  then show "\<exists>k :: nat. chunk * t + int k * (chunk * nb) \<le> x \<and> x \<le> chunk * t + chunk - 1 + int k * (chunk * nb)" ..
qed

subsection \<open>Progress of a core\<close>

definition effort :: "nat \<Rightarrow> ws_run \<Rightarrow> nat" where
  "effort i r = 2 * pos r i + (if ready r i then 1 else 0) + length (handed r)"

lemma ws_step_effort:
  "effort i r \<le> effort i (ws_step prog r j)"
  "pos r i < length prog \<Longrightarrow> effort i r < effort i (ws_step prog r i)"
  "pos r i \<le> pos (ws_step prog r j) i" "pos r i \<le> length prog \<Longrightarrow> pos (ws_step prog r j) i \<le> length prog"
  by (auto simp: ws_step_def effort_def split: prod.splits construct.splits)

lemma finite_construct_work: "finite (construct_work c)"
  by (cases c) simp_all

lemma finite_all_work: "finite (all_work prog n)"
proof -
  have "all_work prog n = Sigma {..<n} (\<lambda>k. construct_work (prog ! k))" by (auto simp: all_work_def)
  then show ?thesis using finite_construct_work by simp
qed

lemma ws_exec_effort:
  "pos (ws_exec prog s sched) i = length prog \<or> count_list sched i \<le> effort i (ws_exec prog s sched)"
proof (induction sched rule: rev_induct)
  case Nil
  then show ?case by simp
next
  case (snoc j sched)
  let ?r = "ws_exec prog s sched"
  have le: "pos ?r i \<le> length prog"
  proof (induction sched rule: rev_induct)
    case Nil
    then show ?case by (simp add: ws_exec_def ws_init_def)
  next
    case (snoc x xs)
    then show ?case using ws_step_effort(4) by (simp add: ws_exec_def)
  qed
  show ?case
  proof (cases "pos ?r i = length prog")
    case True
    then show ?thesis
      using ws_step_effort(3,4) [of ?r i prog j] by (auto simp: ws_exec_def ws_step_effort(4) intro: le_antisym)
  next
    case False
    then have "pos ?r i < length prog" "count_list sched i \<le> effort i ?r" using le snoc by auto
    then show ?thesis
      using ws_step_effort(1) [of i ?r prog j] ws_step_effort(2) [of ?r i prog]
      by (cases "i = j") (auto simp: ws_exec_def)
  qed
qed

lemma open_work_subset:
  "team_ok prog e t \<Longrightarrow> all_work prog e \<union> open_work prog e t \<subseteq> all_work prog (length prog)"
  by (auto simp: team_ok_def open_work_def all_work_def split: if_splits)

subsection \<open>Correctness of the work-sharing constructs\<close>

definition omp_ex :: omp_t where
  "omp_ex = rt_omp_init 8 \<lparr>plainTeam = \<lparr>nbThreads = 0, loop_epoch = 0, loop_start = 0, loop_end = 0,
     loop_incr = 0, loop_chunk = 0, loop_is_setup = 0\<rparr>, numThreads = 0, maxThreads = 0, coreMask = 0,
     core_epoch = (\<lambda>_. 0), bar_mask = 0, dispatch_mask = 0\<rparr>"

lemma omp_ex_simps [simp]:
  "loop_epoch (plainTeam omp_ex) = 0" "loop_is_setup (plainTeam omp_ex) = 0" "core_epoch omp_ex i = 0"
  "coreMask omp_ex = 255" "in_epoch i omp_ex"
  by (simp_all add: omp_ex_def rt_omp_init_def Let_def set_team_def in_epoch_def)

text \<open>C6: Sections and single constructs run exactly once. Whatever sequence of constructs the cores of
  the team run, without barriers in between, and however their critical sections interleave: no
  section is ever handed out twice, only sections that exist are, and a core leaves a construct only
  when all its sections have been handed out.\<close>

theorem sections_exactly_once:
  assumes "prog_ok prog" and "loop_epoch (plainTeam s) = 0" and "loop_is_setup (plainTeam s) = 0"
    and "\<forall>i. core_epoch s i = 0"
  shows "distinct (handed (ws_exec prog s sched)) \<and>
     set (handed (ws_exec prog s sched)) \<subseteq> all_work prog (length prog) \<and>
     all_work prog (pos (ws_exec prog s sched) i) \<subseteq> set (handed (ws_exec prog s sched))"
proof -
  obtain e where inv: "ws_inv prog e (ws_exec prog s sched)" using ws_exec_inv assms by blast
  then have "all_work prog (pos (ws_exec prog s sched) i) \<subseteq> all_work prog e"
    by (auto simp: ws_inv_def all_work_def intro: order_less_le_trans)
  then show ?thesis using inv open_work_subset [of prog e] by (auto simp: ws_inv_def)
qed

theorem sections_exactly_once_witness:
  "distinct (handed (ws_exec [Sections 2, Single] omp_ex [0, 1, 1, 0, 0, 2, 1, 0, 1, 2, 2]))"
  using sections_exactly_once [of "[Sections 2, Single]" omp_ex "[0, 1, 1, 0, 0, 2, 1, 0, 1, 2, 2]"]
  by (simp add: prog_ok_def)

text \<open>No core waits for another one in these constructs: a core that takes two steps per construct
  and one per section of the program has finished, whatever the other cores do, and then every
  section has been handed out.\<close>

theorem sections_finish:
  assumes "prog_ok prog" and "loop_epoch (plainTeam s) = 0" and "loop_is_setup (plainTeam s) = 0"
    and "\<forall>i. core_epoch s i = 0"
    and "2 * length prog + card (all_work prog (length prog)) \<le> count_list sched i"
  shows "pos (ws_exec prog s sched) i = length prog \<and>
         set (handed (ws_exec prog s sched)) = all_work prog (length prog)"
proof -
  let ?r = "ws_exec prog s sched"
  obtain e where inv: "ws_inv prog e ?r" using ws_exec_inv assms(1-4) by blast
  then have sub: "set (handed ?r) \<subseteq> all_work prog (length prog)" "distinct (handed ?r)"
    using open_work_subset [of prog e] by (auto simp: ws_inv_def)
  have le: "pos ?r i \<le> e" "e \<le> length prog" using inv by (auto simp: ws_inv_def team_ok_def)
  have "length (handed ?r) \<le> card (all_work prog (length prog))"
    using card_mono [OF finite_all_work sub(1)] distinct_card [OF sub(2)] by simp
  then have p: "pos ?r i = length prog"
    using ws_exec_effort [of prog s sched i] assms(5) le by (auto simp: effort_def split: if_splits)
  then have "all_work prog (length prog) \<subseteq> set (handed ?r)" using inv le by (auto simp: ws_inv_def)
  then show ?thesis using p sub by blast
qed

theorem sections_finish_witness:
  "set (handed (ws_exec [Single] omp_ex [1, 0, 0, 1, 0])) = {(0, 1)}"
proof -
  have w: "all_work [Single] (length [Single]) = {(0, 1)}" by (auto simp: all_work_def)
  then show ?thesis using sections_finish [of "[Single]" omp_ex "[1, 0, 0, 1, 0]" 0] by (simp add: prog_ok_def)
qed

text \<open>A dynamically scheduled loop: when the first core has set it up, the chunks that the following
  requests return, whichever cores make them, are consecutive, and together they are the iterations
  of the loop, each exactly once, in order.\<close>

theorem kmpc_dispatch_covers:
  assumes "loop_is_setup (plainTeam s) = 0" and "in_epoch core s" and "0 < chunk" and "- (2 ^ 31) \<le> lb"
    and "ub + chunk < 2 ^ 31" and "ub - lb < int n"
  shows "concat (map (\<lambda>(a, b). [a..b]) (fst (dyn_chunks n (kmpc_dispatch_init_4 core lb ub st chunk s)))) = [lb..ub]"
proof -
  have "loop_at chunk ub lb (kmpc_dispatch_init_4 core lb ub st chunk s)"
    using assms(1,2) by (simp add: kmpc_dispatch_init_4_def dynLoopInitNoIter_def dynLoopSetup_def loop_at_def)
  from dyn_chunks_at [OF this assms(3-6)] show ?thesis .
qed

theorem kmpc_dispatch_covers_witness:
  "fst (dyn_chunks 9 (kmpc_dispatch_init_4 0 3 10 1 3 omp_ex)) = [(3, 5), (6, 8), (9, 10)] \<and>
   concat (map (\<lambda>(a, b). [a..b]) (fst (dyn_chunks 9 (kmpc_dispatch_init_4 0 3 10 1 3 omp_ex)))) = [3..10]"
proof
  show "fst (dyn_chunks 9 (kmpc_dispatch_init_4 0 3 10 1 3 omp_ex)) = [(3, 5), (6, 8), (9, 10)]" by code_simp
  show "concat (map (\<lambda>(a, b). [a..b]) (fst (dyn_chunks 9 (kmpc_dispatch_init_4 0 3 10 1 3 omp_ex)))) = [3..10]"
    using kmpc_dispatch_covers [of omp_ex 0 3 3 10 9 1] by simp
qed

text \<open>A core that comes late repeats a dynamically scheduled loop. A core that enters the construct
  after the others have run all its iterations, with nothing in between, sets the loop up a second
  time and is handed every iteration again: the runtime never advances the epoch of a dynamic loop.\<close>

theorem kmpc_dispatch_late_core_repeats:
  assumes "loop_is_setup (plainTeam s) = 0" and "in_epoch core s" and "in_epoch late s" and "0 < chunk"
    and "- (2 ^ 31) \<le> lb" and "ub + chunk < 2 ^ 31" and "ub - lb + 1 < int n" and "0 < n"
  shows "concat (map (\<lambda>(a, b). [a..b]) (fst (dyn_chunks n (kmpc_dispatch_init_4 late lb ub st chunk
           (snd (dyn_chunks n (kmpc_dispatch_init_4 core lb ub st chunk s))))))) = [lb..ub]"
proof -
  let ?s1 = "kmpc_dispatch_init_4 core lb ub st chunk s"
  let ?s2 = "snd (dyn_chunks n ?s1)"
  let ?s3 = "kmpc_dispatch_init_4 late lb ub st chunk ?s2"
  have at: "loop_at chunk ub lb ?s1" and ep: "in_epoch late ?s1"
    using assms(1-3) by (simp_all add: kmpc_dispatch_init_4_def dynLoopInitNoIter_def dynLoopSetup_def
        loop_at_def in_epoch_def)
  have "loop_is_setup (plainTeam ?s2) = 0" "in_epoch late ?s2"
    using dyn_chunks_done [OF at assms(4-8)] dyn_chunks_epoch [of late n ?s1] ep by simp_all
  then have "loop_at chunk ub lb ?s3"
    by (simp add: kmpc_dispatch_init_4_def dynLoopInitNoIter_def dynLoopSetup_def loop_at_def)
  from dyn_chunks_at [OF this assms(4-6)] show ?thesis using assms(7) by simp
qed

theorem kmpc_dispatch_late_core_repeats_witness:
  "concat (map (\<lambda>(a, b). [a..b]) (fst (dyn_chunks 9 (kmpc_dispatch_init_4 1 0 7 1 4
     (snd (dyn_chunks 9 (kmpc_dispatch_init_4 0 0 7 1 4 omp_ex))))))) = [0..7]"
proof -
  have "(7 :: int) - 0 + 1 < int 9" by simp
  then show ?thesis using kmpc_dispatch_late_core_repeats [of omp_ex 0 1 4 0 7 9 1] by simp
qed

text \<open>C19: The static schedule without a chunk size splits a loop with increment 1 into one interval per
  core. The intervals are pairwise disjoint, together they are the iterations of the loop, their
  lengths differ by at most one, and the core with the last iteration is told so.\<close>

theorem kmpc_static_partition:
  assumes "- (2 ^ 31) \<le> lb" and "lb \<le> ub" and "ub < 2 ^ 31 - 1" and "ub - lb + 1 < 2 ^ 31"
    and "0 < nb" and "nb < 2 ^ 31"
  shows "\<exists>b. (\<forall>t < nb. kmpc_for_static_init_4 (int nb) t 34 lb ub 1 chunk = Some (b t) \<and>
            (plastiter (b t) \<longleftrightarrow> ub \<in> {plower (b t) .. pupper (b t)}) \<and>
            pupper (b t) - plower (b t) + 1 \<in> {(ub - lb + 1) div int nb, (ub - lb + 1) div int nb + 1}) \<and>
         (\<Union>t < nb. {plower (b t) .. pupper (b t)}) = {lb .. ub} \<and>
         (\<forall>t < nb. \<forall>u < t. {plower (b u) .. pupper (b u)} \<inter> {plower (b t) .. pupper (b t)} = {})"
proof -
  define n where "n = ub - lb + 1"
  define f where "f t = lb + share_start n (int nb) (int t)" for t
  define b where "b t = the (kmpc_for_static_init_4 (int nb) t 34 lb ub 1 chunk)" for t
  have nb: "0 < int nb" "int nb < 2 ^ 31" using assms(5,6) by simp_all
  have mono: "f t \<le> f u" if "t \<le> u" for t u
    using share_start_mono [of n "int nb" "int t" "int u"] that assms(2) nb(1) by (simp add: f_def n_def)
  have ends: "f 0 = lb" "f nb = ub + 1" using share_start_bounds nb(1) by (simp_all add: f_def n_def)
  have b: "kmpc_for_static_init_4 (int nb) t 34 lb ub 1 chunk = Some (b t)" "plower (b t) = f t"
    "pupper (b t) = f (Suc t) - 1" "plastiter (b t) \<longleftrightarrow> f (Suc t) - 1 = ub \<and> f t \<le> ub" if "t < nb" for t
    using static_share [OF assms(1-4) nb, of t chunk] that
    by (auto simp: b_def f_def n_def add.commute [of 1])
  have last: "f (Suc t) - 1 \<le> ub" if "t < nb" for t using mono [of "Suc t" nb] that ends(2) by simp
  have "f (Suc t) - f t \<in> {n div int nb, n div int nb + 1}" for t
    by (auto simp: f_def share_start_def algebra_simps min_def)
  then have "(plastiter (b t) \<longleftrightarrow> ub \<in> {plower (b t) .. pupper (b t)}) \<and>
      pupper (b t) - plower (b t) + 1 \<in> {n div int nb, n div int nb + 1}" if "t < nb" for t
    using b(2-4) [OF that] last [OF that] by auto
  moreover have "(\<Union>t < k. {f t .. f (Suc t) - 1}) = {lb .. f k - 1}" for k
  proof (induction k)
    case (Suc k)
    have "{lb .. f k - 1} \<union> {f k .. f (Suc k) - 1} = {lb .. f (Suc k) - 1}"
      using mono [of 0 k] mono [of k "Suc k"] ends(1) by auto
    then show ?case using Suc by (simp add: lessThan_Suc Un_commute)
  qed (simp add: ends(1))
  then have "(\<Union>t < nb. {plower (b t) .. pupper (b t)}) = {lb .. ub}" using b(2,3) ends(2) by simp
  moreover have "{plower (b u) .. pupper (b u)} \<inter> {plower (b t) .. pupper (b t)} = {}" if "t < nb" "u < t" for t u
    using b(2,3) [of t] b(2,3) [of u] mono [of "Suc u" t] that by auto
  ultimately show ?thesis using b(1) unfolding n_def by blast
qed

theorem kmpc_static_partition_witness:
  "\<exists>b. \<forall>t < 8. kmpc_for_static_init_4 8 t 34 0 9 1 0 = Some (b t)"
  using kmpc_static_partition [of 0 9 8 0] by auto

text \<open>The static schedule with a chunk size deals the chunks of a loop with increment 1 out to the
  cores in turn: core \<open>t\<close> of \<open>nb\<close> runs an iteration exactly if the number of its chunk is \<open>t\<close> modulo
  \<open>nb\<close>, so that every iteration is run by exactly one core; for loops from 0 the core with the last
  iteration is told so.\<close>

theorem kmpc_static_chunked_partition:
  assumes "- (2 ^ 31) \<le> lb" and "lb \<le> ub" and "0 < chunk" and "0 < nb" and "int t < nb"
    and "lb + chunk * nb < 2 ^ 31" and "chunk * nb < 2 ^ 31" and "ub - lb < 2 ^ 31 - 1" and "ub < 2 ^ 31"
  shows "\<exists>b. kmpc_for_static_init_4 nb t 33 lb ub 1 chunk = Some b \<and>
     static_iters ub b = {i \<in> {lb .. ub}. ((i - lb) div chunk) mod nb = int t} \<and>
     (lb = 0 \<longrightarrow> (plastiter b \<longleftrightarrow> ub \<in> static_iters ub b))"
proof -
  obtain b where b: "kmpc_for_static_init_4 nb t 33 lb ub 1 chunk = Some b"
    "plower b = lb + chunk * int t" "pupper b = lb + chunk * int t + chunk - 1" "pstride b = chunk * nb"
    "lb = 0 \<longrightarrow> (plastiter b \<longleftrightarrow> chunk * nb dvd ub - ub mod chunk - chunk * int t)"
    using static_chunk [OF assms] by blast
  have pos: "0 \<le> chunk * int t" "0 < chunk * nb" using assms(3,4) by simp_all
  have it: "static_iters ub b = {i \<in> {lb .. ub}. ((i - lb) div chunk) mod nb = int t}"
  proof (rule set_eqI)
    fix i
    have "lb \<le> i" if le: "plower b + int k * pstride b \<le> i" for k
    proof -
      have "0 \<le> int k * (chunk * nb)" using assms(3,4) by simp
      then show ?thesis using le pos(1) unfolding b(2,4) by linarith
    qed
    then show "i \<in> static_iters ub b \<longleftrightarrow> i \<in> {i \<in> {lb .. ub}. ((i - lb) div chunk) mod nb = int t}"
      using chunk_owner [of chunk nb "int t" "i - lb"] assms(3-5)
      by (auto simp: static_iters_def b(2-4) algebra_simps)
  qed
  moreover have "plastiter b \<longleftrightarrow> ub \<in> static_iters ub b" if "lb = 0"
  proof -
    have "ub - ub mod chunk = chunk * (ub div chunk)" by (simp add: minus_mod_eq_mult_div)
    then have "ub - ub mod chunk - chunk * int t = chunk * (ub div chunk - int t)" by (simp add: algebra_simps)
    then have "plastiter b \<longleftrightarrow> nb dvd ub div chunk - int t" using b(5) that assms(3) by simp
    also have "\<dots> \<longleftrightarrow> (ub div chunk) mod nb = int t"
      using assms(4,5) by (simp add: mod_eq_dvd_iff [symmetric])
    finally show ?thesis using that it assms(2) by simp
  qed
  ultimately show ?thesis using b(1) by blast
qed

theorem kmpc_static_chunked_partition_witness:
  "\<exists>b. kmpc_for_static_init_4 8 1 33 0 99 1 4 = Some b \<and> 37 \<in> static_iters 99 b"
  using kmpc_static_chunked_partition [of 0 99 4 8 1] by auto

text \<open>With an increment above 1 the static schedule is wrong for the cores without an extra
  iteration: the number of left-over iterations is added to their lower bound without being
  multiplied by the increment, so that they run indices which are no iterations of the loop.\<close>

theorem kmpc_static_increment_off_grid:
  assumes "0 \<le> lb" and "lb \<le> ub" and "ub < 2 ^ 30" and "1 < incr" and "incr \<le> ub" and "0 < nb" and "nb < 2 ^ 31"
    and "((ub - lb) div incr + 1) mod nb \<le> int t" and "int t < nb"
    and "\<not> incr dvd ((ub - lb) div incr + 1) mod nb"
  shows "\<exists>b. kmpc_for_static_init_4 nb t 34 lb ub incr chunk = Some b \<and> \<not> incr dvd plower b - lb"
proof -
  define n q r k where "n = (ub - lb) div incr + 1" and "q = n div nb" and "r = n mod nb" and "k = int t"
  have d0: "0 \<le> (ub - lb) div incr" using assms(2,4) by (simp add: pos_imp_zdiv_nonneg_iff)
  have d1: "(ub - lb) div incr * incr \<le> ub - lb"
    using assms(4) div_mult_mod_eq [of "ub - lb" incr] pos_mod_sign [of incr "ub - lb"] by linarith
  note d = d0 d1
  have le: "(ub - lb) div incr \<le> (ub - lb) div incr * incr"
    using d(1) assms(4) mult_left_mono [of 1 incr "(ub - lb) div incr"] by simp
  have n: "0 < n" "n < 2 ^ 31" "n * incr \<le> ub - lb + incr"
    using d le assms(1-3) by (simp_all add: n_def algebra_simps)
  have q: "0 \<le> q" "q * nb + r = n" and r: "0 \<le> r" "r < nb" "r \<le> k" and k: "0 \<le> k" "k < nb"
    using n(1) assms by (simp_all add: q_def r_def k_def n_def pos_imp_zdiv_nonneg_iff)
  have kq: "0 \<le> k * q" "k * q \<le> nb * q" using q(1) k by (auto intro!: mult_right_mono)
  then have kqn: "k * q + r \<le> n" using q(2) by (simp add: algebra_simps)
  then have "(k * q + r) * incr \<le> n * incr" using assms(4) by (intro mult_right_mono) simp_all
  then have g: "k * q * incr + r * incr \<le> ub - lb + incr" using n(3) by (simp add: algebra_simps)
  have ri: "0 \<le> r * incr" "r \<le> r * incr" "0 \<le> k * q * incr"
    using r(1) assms(4) kq(1) mult_left_mono [of 1 incr r] by simp_all
  have sz: "i32 (c_div (i32 (ub - lb)) incr + 1) = n" using assms n by (simp add: n_def c_div_nonneg)
  have "0 \<le> q * nb" using q(1) assms(6) by simp
  then have "i32 (q * nb) = q * nb" "i32 r = r" using n(2) q(2) r assms(7) by (intro i32_id; linarith)+
  moreover have "n - q * nb = r" using q(2) by simp
  ultimately have i: "c_div n nb = q" "i32 (q * nb) = q * nb" "i32 (n - q * nb) = r"
    using n(1) assms(6) by (simp_all add: c_div_nonneg q_def)
  have j: "i32 (k * q) = k * q" "i32 (k * q * incr) = k * q * incr" "i32 (lb + k * q * incr) = lb + k * q * incr"
    "i32 (lb + k * q * incr + r) = lb + k * q * incr + r"
  proof -
    have "k * q < 2 ^ 31" using kqn n(2) r(1) by linarith
    moreover define x where "x = k * q * incr"
    moreover have "0 \<le> x" "lb + x + r < 2 ^ 31" "x < 2 ^ 31" using g ri r(1) assms(1,3,5) by (simp_all add: x_def)
    ultimately show "i32 (k * q) = k * q" "i32 (k * q * incr) = k * q * incr"
      "i32 (lb + k * q * incr) = lb + k * q * incr" "i32 (lb + k * q * incr + r) = lb + k * q * incr + r"
      unfolding x_def [symmetric] using kq(1) r(1) assms(1) by (intro i32_id; linarith)+
  qed
  obtain b where b: "kmpc_for_static_init_4 nb t 34 lb ub incr chunk = Some b" "plower b = lb + k * q * incr + r"
    using r(3) by (simp add: kmpc_for_static_init_4_def Let_def k_def [symmetric] sz i j)
  have "\<not> incr dvd k * q * incr + r" using assms(10) by (simp add: n_def [symmetric] r_def [symmetric] dvd_add_right_iff)
  then show ?thesis using b by (auto simp: add.assoc)
qed

theorem kmpc_static_increment_off_grid_witness:
  "\<exists>b. kmpc_for_static_init_4 2 1 34 0 8 2 0 = Some b \<and> \<not> 2 dvd plower b"
  using kmpc_static_increment_off_grid [of 0 8 2 2 1 0] by simp

text \<open>A partial parallel region desynchronizes the cores outside it: its epilogue resets the epochs of
  the team and of the cores of the region only, so that a core outside it that has been through one
  construct before takes the next single construct although another core has already run it.\<close>

theorem partial_region_breaks_single:
  assumes "1 < push_bit (nat num) 1 AND coreMask s" and "0 < num" and "num < 256" and "num \<le> int i"
    and "\<forall>s'. core_epoch (work s') i = 1" and "\<forall>s'. nbThreads (plainTeam (work s')) = nbThreads (plainTeam s')"
  shows "fst (singleStart 0 (parallelRegion work num s)) = 1 \<and>
         fst (singleStart i (snd (singleStart 0 (parallelRegion work num s)))) = 1"
proof -
  let ?s = "parallelRegion work num s"
  have n: "take_bit 8 num = num" using assms(2,3) by (simp add: take_bit_int_eq_self)
  have ep: "loop_epoch (plainTeam ?s) = 0" "core_epoch ?s 0 = 0" "core_epoch ?s i = 1"
    using assms n by (auto simp: parallelRegion_def partialParallelRegion_def Let_def set_team_def)
  moreover have "i \<noteq> 0" using assms(2,4) by auto
  ultimately show ?thesis by (simp add: singleStart_def in_epoch_def next_epoch_def set_team_def)
qed

theorem partial_region_breaks_single_witness:
  "fst (singleStart 2 (snd (singleStart 0 (parallelRegion (\<lambda>s. s\<lparr>core_epoch := (\<lambda>_. 1)\<rparr>) 2 omp_ex)))) = 1"
proof -
  have "1 < push_bit (nat 2) 1 AND coreMask omp_ex" by simp
  then show ?thesis
    using partial_region_breaks_single [of 2 omp_ex 2 "\<lambda>s. s\<lparr>core_epoch := (\<lambda>_. 1)\<rparr>"] by simp
qed

end
