(* ===== verification/Kmp_Atomic.thy ===== *)
theory Kmp_Atomic
  imports Prelude
begin

text \<open>
  The atomic operations that the compiler's code calls (\<open>libomptarget-pulp-rtl/kmp.c\<close>, from
  \<open>load_reserved\<close> to \<open>__atomic_load\<close>). Memory maps 32-bit addresses to bytes; a 32-bit word is its
  four bytes. Aligned words of the L2 memory are exchanged with a pair of load-reserved and
  store-conditional instructions; whether the latter succeeds is up to the hardware (\<open>sc_ok\<close>).
  Everything else is done under a mutex, so that its steps are one atomic step.
\<close>

type_synonym bytes = "u8 list"
type_synonym memory = "u32 \<Rightarrow> u8"

definition ld :: "memory \<Rightarrow> u32 \<Rightarrow> nat \<Rightarrow> bytes" where
  "ld m a n = map (\<lambda>i. m (a + of_nat i)) [0 ..< n]"

definition st :: "u32 \<Rightarrow> bytes \<Rightarrow> memory \<Rightarrow> memory" where
  "st a bs m = (\<lambda>x. if unat (x - a) < length bs then bs ! unat (x - a) else m x)"

definition memcpy :: "u32 \<Rightarrow> u32 \<Rightarrow> nat \<Rightarrow> memory \<Rightarrow> memory" where
  "memcpy dst src n m = st dst (ld m src n) m"

subsection \<open>The mutex and the conditional store\<close>

definition mutex_trylock :: "bool \<Rightarrow> bool \<times> bool" where
  "mutex_trylock locked = (locked, locked \<or> True)"

text \<open>Which read of the mutex gets the lock: \<open>seen k\<close> is what attempt number \<open>k\<close> finds.\<close>

partial_function (option) mutex_lock :: "(nat \<Rightarrow> bool) \<Rightarrow> nat \<Rightarrow> nat option" where
  "mutex_lock seen k = (if fst (mutex_trylock (seen k)) then mutex_lock seen (k + 1) else Some k)"

definition mutex_unlock :: "bool \<Rightarrow> bool" where "mutex_unlock locked = False"

definition load_reserved :: "u32 \<Rightarrow> memory \<Rightarrow> bytes" where
  "load_reserved a m = ld m a 4"

definition store_conditional :: "bool \<Rightarrow> u32 \<Rightarrow> bytes \<Rightarrow> memory \<Rightarrow> bool \<times> memory" where
  "store_conditional sc_ok a v m = (sc_ok, if sc_ok then st a v m else m)"

subsection \<open>Compare and exchange\<close>

definition l2_word_at :: "nat \<Rightarrow> u32 \<Rightarrow> bool" where
  "l2_word_at n addr \<longleftrightarrow> n = 4 \<and> addr AND 0xFF000000 = 0x1C000000 \<and> addr AND 3 = 0"

definition atomic_compare_exchange ::
    "bool \<Rightarrow> nat \<Rightarrow> u32 \<Rightarrow> u32 \<Rightarrow> u32 \<Rightarrow> u32 option \<Rightarrow> memory \<Rightarrow> bool \<times> memory" where
  "atomic_compare_exchange sc_ok n ptr expected desired prev m =
     (if l2_word_at n ptr then
        let tmp = load_reserved ptr m;
            m1 = (case prev of None \<Rightarrow> m | Some p \<Rightarrow> st p tmp m)
        in if tmp = ld m1 expected 4 then store_conditional sc_ok ptr (ld m1 desired 4) m1
           else (False, st expected tmp m1)
      else
        let m1 = (case prev of None \<Rightarrow> m | Some p \<Rightarrow> memcpy p ptr n m)
        in if ld m1 ptr n = ld m1 expected n then (True, memcpy ptr desired n m1)
           else (False, memcpy expected ptr n m1))"

definition atomic_compare_exchange_std ::
    "bool \<Rightarrow> nat \<Rightarrow> u32 \<Rightarrow> u32 \<Rightarrow> u32 \<Rightarrow> memory \<Rightarrow> bool \<times> memory" where
  "atomic_compare_exchange_std sc_ok n ptr expected desired m =
     atomic_compare_exchange sc_ok n ptr expected desired None m"

text \<open>The \<open>__sync_val_compare_and_swap\<close> functions keep \<open>expected\<close>, \<open>desired\<close> and \<open>prev\<close> in their stack
  frame; \<open>prev_size\<close> is the size of the variable \<open>prev\<close>, whose bytes they return.\<close>

record cas_frame =
  expected_at :: u32
  desired_at :: u32
  prev_at :: u32

definition sync_val_compare_and_swap ::
    "nat \<Rightarrow> nat \<Rightarrow> bool \<Rightarrow> cas_frame \<Rightarrow> u32 \<Rightarrow> bytes \<Rightarrow> bytes \<Rightarrow> memory \<Rightarrow> bytes \<times> memory" where
  "sync_val_compare_and_swap n prev_size sc_ok f ptr expected desired m =
     (let m1 = st (desired_at f) desired (st (expected_at f) expected m);
          m2 = snd (atomic_compare_exchange sc_ok n ptr (expected_at f) (desired_at f) (Some (prev_at f)) m1)
      in (ld m2 (prev_at f) prev_size, m2))"

definition sync_val_compare_and_swap_1 ::
    "bool \<Rightarrow> cas_frame \<Rightarrow> u32 \<Rightarrow> bytes \<Rightarrow> bytes \<Rightarrow> memory \<Rightarrow> bytes \<times> memory" where
  "sync_val_compare_and_swap_1 = sync_val_compare_and_swap 1 1"

definition sync_val_compare_and_swap_2 ::
    "bool \<Rightarrow> cas_frame \<Rightarrow> u32 \<Rightarrow> bytes \<Rightarrow> bytes \<Rightarrow> memory \<Rightarrow> bytes \<times> memory" where
  "sync_val_compare_and_swap_2 = sync_val_compare_and_swap 2 2"

definition sync_val_compare_and_swap_4 ::
    "bool \<Rightarrow> cas_frame \<Rightarrow> u32 \<Rightarrow> bytes \<Rightarrow> bytes \<Rightarrow> memory \<Rightarrow> bytes \<times> memory" where
  "sync_val_compare_and_swap_4 = sync_val_compare_and_swap 4 4"

text \<open>\<open>prev\<close> is a \<open>long\<close> here, which has four bytes on the accelerator.\<close>

definition sync_val_compare_and_swap_8 ::
    "bool \<Rightarrow> cas_frame \<Rightarrow> u32 \<Rightarrow> bytes \<Rightarrow> bytes \<Rightarrow> memory \<Rightarrow> bytes \<times> memory" where
  "sync_val_compare_and_swap_8 = sync_val_compare_and_swap 8 4"

definition atomic_load :: "nat \<Rightarrow> u32 \<Rightarrow> u32 \<Rightarrow> memory \<Rightarrow> memory" where
  "atomic_load n ptr ret m =
     (if n = 4 \<and> ptr AND 3 = 0 then st ret (ld m ptr 4) m
      else if n = 2 \<and> ptr AND 1 = 0 then st ret (ld m ptr 2) m
      else if n = 1 then st ret (ld m ptr 1) m
      else memcpy ret ptr n m)"

subsection \<open>Loads and stores of disjoint ranges\<close>

definition apart :: "u32 \<Rightarrow> nat \<Rightarrow> u32 \<Rightarrow> nat \<Rightarrow> bool" where
  "apart a n b k \<longleftrightarrow> a \<noteq> b \<and> n \<le> unat (b - a) \<and> k \<le> unat (a - b)"

lemma apart_sym: "apart a n b k \<longleftrightarrow> apart b k a n"
  by (auto simp: apart_def)

lemma unat_diff_add: "(a :: u32) \<noteq> b \<Longrightarrow> unat (a - b) + unat (b - a) = 2 ^ 32"
proof -
  assume "a \<noteq> b"
  have "(unat (a - b) + unat (b - a)) mod 2 ^ 32 = 0"
    using unat_word_ariths(1) [of "a - b" "b - a"] by simp
  moreover have "0 < unat (a - b)" using \<open>a \<noteq> b\<close> by (simp add: unat_gt_0)
  moreover have "unat (a - b) < 2 ^ 32" "unat (b - a) < 2 ^ 32" using unat_u32_lt by simp_all
  ultimately show ?thesis by (auto simp: mod_eq_0_iff_dvd elim!: dvdE)
qed

lemma apart_offset:
  assumes "apart a n b k" "i < n"
  shows "k \<le> unat (a + of_nat i - b)"
proof -
  have lt: "unat (a - b) + i < 2 ^ 32" using assms unat_diff_add [of a b] by (simp add: apart_def)
  have e: "a + of_nat i - b = (a - b) + of_nat i" by (simp add: algebra_simps)
  have "unat ((a - b) + of_nat i) = unat (a - b) + i"
    using lt by (simp add: unat_word_ariths unat_of_nat)
  then show ?thesis using assms unfolding e by (simp add: apart_def)
qed

lemma length_ld [simp]: "length (ld m a n) = n"
  by (simp add: ld_def)

lemma ld_st_same [simp]: "length bs = n \<Longrightarrow> n \<le> 2 ^ 32 \<Longrightarrow> ld (st a bs m) a n = bs"
  by (auto simp: ld_def st_def unat_of_nat intro!: nth_equalityI)

lemma ld_st_apart [simp]: "apart a n b (length bs) \<Longrightarrow> ld (st b bs m) a n = ld m a n"
  by (auto simp: ld_def st_def dest: apart_offset)

subsection \<open>Correctness\<close>

definition frame_ok :: "cas_frame \<Rightarrow> u32 \<Rightarrow> nat \<Rightarrow> bool" where
  "frame_ok f ptr n \<longleftrightarrow> n \<le> 2 ^ 32 \<and> apart (expected_at f) n (desired_at f) n \<and>
     apart (expected_at f) n (prev_at f) n \<and> apart (desired_at f) n (prev_at f) n \<and>
     apart ptr n (expected_at f) n \<and> apart ptr n (desired_at f) n \<and> apart ptr n (prev_at f) n"

lemma cas_parts:
  fixes m :: memory
  assumes f: "frame_ok f ptr n" and len: "length expected = n" "length desired = n"
  defines "m1 \<equiv> st (desired_at f) desired (st (expected_at f) expected m)"
  shows "ld m1 ptr n = ld m ptr n" "ld m1 (expected_at f) n = expected" "ld m1 (desired_at f) n = desired"
  using assms by (simp_all add: frame_ok_def)


definition cas_ex :: cas_frame where
  "cas_ex = \<lparr>expected_at = 0x1B000000, desired_at = 0x1B000010, prev_at = 0x1B000020\<rparr>"


text \<open>A failed conditional store is reported as a success. If the word in L2 memory holds the
  expected value and the store-conditional of the hardware fails, \<open>__sync_val_compare_and_swap_4\<close>
  returns the expected value, which tells its caller that the swap took place, but the memory is
  unchanged.\<close>

theorem sync_val_cas_4_lost_update:
  assumes "l2_word_at 4 ptr" and "frame_ok f ptr 4" and "length desired = 4"
  shows "case sync_val_compare_and_swap_4 False f ptr (ld m ptr 4) desired m of (prev, m') \<Rightarrow>
     prev = ld m ptr 4 \<and> ld m' ptr 4 = ld m ptr 4"
proof -
  have "apart (prev_at f) 4 ptr 4" "apart (prev_at f) 4 (expected_at f) 4"
    using assms(2) by (simp_all add: frame_ok_def apart_sym [of ptr] apart_sym [of "expected_at f" 4 "prev_at f"])
  then show ?thesis
    using assms cas_parts [OF assms(2), of "ld m ptr 4" desired m]
    by (auto simp: sync_val_compare_and_swap_4_def sync_val_compare_and_swap_def atomic_compare_exchange_def
        Let_def load_reserved_def store_conditional_def frame_ok_def)
qed

theorem sync_val_cas_4_lost_update_witness:
  "fst (sync_val_compare_and_swap_4 False cas_ex 0x1C000100 (ld (\<lambda>_. 0) 0x1C000100 4) [1, 2, 3, 4] (\<lambda>_. 0)) =
     ld (\<lambda>_. 0) 0x1C000100 4"
proof -
  have "frame_ok cas_ex 0x1C000100 4" by (simp add: frame_ok_def apart_def cas_ex_def)
  moreover have "l2_word_at 4 0x1C000100" by (simp add: l2_word_at_def)
  ultimately show ?thesis
    using sync_val_cas_4_lost_update [of "0x1C000100" cas_ex "[1, 2, 3, 4]" "\<lambda>_. 0"] by (simp add: case_prod_beta)
qed

text \<open>\<open>__sync_val_compare_and_swap_8\<close> overruns its frame: it copies eight bytes into the
  four-byte variable \<open>prev\<close>, so the four bytes behind the variable are overwritten with the upper half
  of the old value.\<close>

theorem sync_val_cas_8_overruns:
  assumes "frame_ok f ptr 8" and "length expected = 8" and "length desired = 8"
  shows "case sync_val_compare_and_swap_8 sc_ok f ptr expected desired m of (prev, m') \<Rightarrow>
     prev = take 4 (ld m ptr 8) \<and> ld m' (prev_at f + 4) 4 = drop 4 (ld m ptr 8)"
proof -
  let ?m1 = "st (desired_at f) desired (st (expected_at f) expected m)"
  let ?r = "atomic_compare_exchange sc_ok 8 ptr (expected_at f) (desired_at f) (Some (prev_at f)) ?m1"
  have a: "apart (prev_at f) 8 ptr 8" "apart (prev_at f) 8 (expected_at f) 8"
    using assms(1) by (simp_all add: frame_ok_def apart_sym [of ptr] apart_sym [of "expected_at f" 8 "prev_at f"])
  have "ld (snd ?r) (prev_at f) 8 = ld m ptr 8"
    using a assms cas_parts [OF assms, of m]
    by (auto simp: atomic_compare_exchange_def Let_def memcpy_def l2_word_at_def frame_ok_def)
  moreover have "ld m' p 4 = take 4 (ld m' p 8)" "ld m' (p + 4) 4 = drop 4 (ld m' p 8)" for m' p
    by (simp_all add: ld_def upt_rec add.assoc)
  ultimately show ?thesis
    by (simp add: sync_val_compare_and_swap_8_def sync_val_compare_and_swap_def Let_def)
qed

theorem sync_val_cas_8_overruns_witness:
  "ld (snd (sync_val_compare_and_swap_8 False cas_ex 0x1B000100 (replicate 8 0) (replicate 8 1) (\<lambda>_. 7))) 0x1B000024 4
     = [7, 7, 7, 7]"
proof -
  have "frame_ok cas_ex 0x1B000100 8" by (simp add: frame_ok_def apart_def cas_ex_def)
  then show ?thesis
    using sync_val_cas_8_overruns [of cas_ex "0x1B000100" "replicate 8 0" "replicate 8 1" "\<lambda>_. 7" False]
    by (simp add: case_prod_beta cas_ex_def ld_def upt_rec)
qed

end
