(* ===== verification/Rab_Hal.thy ===== *)
theory Rab_Hal
  imports Pgtable
begin

text \<open>
  The hardware abstraction layer of the remapping address block (RAB), the software-managed
  IOMMU between the PULP accelerator and the main memory of the host:
  \<open>archi/rab/rab_v1.h\<close> (registers), \<open>hal/rab/rab_v1.h\<close> (TLB entries of level 1 and
  2, miss FIFO) and the bit-field macros of \<open>hal/utils.h\<close>.

  An L1 slice (\<open>rab_cfg_t\<close>) is its eight 32-bit words. The physical address type depends
  on the host architecture; how it is laid out in words 4 and 5 of a slice is the record
  \<open>pa_ops\<close>, with one value per architecture and the locale \<open>phys_addr_codec\<close> for
  the law the slice functions rely on. The configuration registers of the L2 TLB are a memory
  from register addresses to words, so that the address arithmetic of the macros is part of the
  model.
\<close>

subsection \<open>Constants of the RAB and of the AXI interconnect\<close>

definition RAB_L1_N_SLICES_PORT_1 :: nat where [hw_consts]: "RAB_L1_N_SLICES_PORT_1 = 32"
definition RAB_L2_N_SETS :: nat where [hw_consts]: "RAB_L2_N_SETS = 32"
definition RAB_L2_N_ENTRIES_PER_SET :: nat where [hw_consts]: "RAB_L2_N_ENTRIES_PER_SET = 32"
definition AXI_USER_WIDTH :: nat where [hw_consts]: "AXI_USER_WIDTH = 6"
definition AXI_ID_WIDTH_CORE :: nat where [hw_consts]: "AXI_ID_WIDTH_CORE = 4"
definition AXI_ID_WIDTH_CLUSTER :: nat where [hw_consts]: "AXI_ID_WIDTH_CLUSTER = 2"
definition AXI_ID_WIDTH_SOC :: nat where [hw_consts]: "AXI_ID_WIDTH_SOC = 1"
definition AXI_ID_WIDTH :: nat where [hw_consts]:
  "AXI_ID_WIDTH = AXI_ID_WIDTH_CORE + AXI_ID_WIDTH_CLUSTER + AXI_ID_WIDTH_SOC"
definition RAB_PORT_ID_WIDTH :: nat where [hw_consts]: "RAB_PORT_ID_WIDTH = 1"
definition ARCHI_RAB_CFG_ADDR :: u32 where [hw_consts]: "ARCHI_RAB_CFG_ADDR = 0x1A100000 + 0x00030000"

definition RAB_CFG_FLAG_EN :: u8 where [hw_consts]: "RAB_CFG_FLAG_EN = 1"
definition RAB_CFG_FLAG_RDEN :: u8 where [hw_consts]: "RAB_CFG_FLAG_RDEN = 2"
definition RAB_CFG_FLAG_WREN :: u8 where [hw_consts]: "RAB_CFG_FLAG_WREN = 4"
definition RAB_CFG_FLAG_COHERENT :: u8 where [hw_consts]: "RAB_CFG_FLAG_COHERENT = 8"

definition RAB_CFG_L2_ADDR :: u32 where [hw_consts]: "RAB_CFG_L2_ADDR = ARCHI_RAB_CFG_ADDR + 2 * 0x4000"

definition RAB_CFG_L2_VARAM_PTR :: "u8 \<Rightarrow> u8 \<Rightarrow> u32" where
  "RAB_CFG_L2_VARAM_PTR i_set i_entry =
     RAB_CFG_L2_ADDR + ucast i_set * of_nat RAB_L2_N_ENTRIES_PER_SET * 4 + ucast i_entry * 4"

definition RAB_CFG_L2_PARAM_PTR :: "u8 \<Rightarrow> u8 \<Rightarrow> u32" where
  "RAB_CFG_L2_PARAM_PTR i_set i_entry =
     RAB_CFG_L2_ADDR + ucast i_set * of_nat RAB_L2_N_ENTRIES_PER_SET * 4 + ucast i_entry * 4
     + of_nat RAB_L2_N_SETS * of_nat RAB_L2_N_ENTRIES_PER_SET * 4"

definition RAB_CFG_L2_SET_PFN_MASK :: u32 where
  "RAB_CFG_L2_SET_PFN_MASK = of_nat RAB_L2_N_SETS - 1"

subsection \<open>Bit fields (\<open>hal/utils.h\<close>)\<close>

definition BIT_MASK_ONE :: "nat \<Rightarrow> u32" where "BIT_MASK_ONE n = push_bit n 1"
definition BIT_MASK_LSBS :: "nat \<Rightarrow> u32" where "BIT_MASK_LSBS n = BIT_MASK_ONE n - 1"
definition BIT_MASK_IMEDS :: "nat \<Rightarrow> nat \<Rightarrow> u32" where
  "BIT_MASK_IMEDS start n = push_bit start (BIT_MASK_LSBS n)"
definition BIT_SET :: "u32 \<Rightarrow> u32 \<Rightarrow> u32" where "BIT_SET y m = y OR m"
definition BIT_CLEAR :: "u32 \<Rightarrow> u32 \<Rightarrow> u32" where "BIT_CLEAR y m = y AND NOT m"
definition BIT_FLIP :: "u32 \<Rightarrow> u32 \<Rightarrow> u32" where "BIT_FLIP y m = y XOR m"
definition BIT_MASK_PREP :: "u32 \<Rightarrow> nat \<Rightarrow> nat \<Rightarrow> u32" where
  "BIT_MASK_PREP x start n = push_bit start (x AND BIT_MASK_LSBS n)"
definition BIT_GET :: "u32 \<Rightarrow> nat \<Rightarrow> nat \<Rightarrow> u32" where
  "BIT_GET y start n = drop_bit start y AND BIT_MASK_LSBS n"
definition BIT_INSERT :: "u32 \<Rightarrow> u32 \<Rightarrow> nat \<Rightarrow> nat \<Rightarrow> u32" where
  "BIT_INSERT y x start n = (y AND NOT (BIT_MASK_IMEDS start n)) OR BIT_MASK_PREP x start n"

subsection \<open>Physical addresses in the words of a slice (\<open>copy_phys_addr\<close>)\<close>

record 'p pa_ops =
  pa_load :: "u32 \<Rightarrow> u32 \<Rightarrow> 'p"
  pa_store :: "'p \<Rightarrow> u32 \<Rightarrow> u32 \<Rightarrow> u32 \<times> u32"

definition rv64_copy_phys_addr :: "u64 pa_ops" where
  "rv64_copy_phys_addr =
     \<lparr>pa_load = (\<lambda>w0 w1. push_bit 32 (ucast w1) OR ucast w0),
      pa_store = (\<lambda>p _ _. (ucast p, ucast (drop_bit 32 p)))\<rparr>"

definition arm64_copy_phys_addr :: "arm64_phys_addr pa_ops" where
  "arm64_copy_phys_addr =
     \<lparr>pa_load = (\<lambda>w0 w1. \<lparr>lower = w0, upper = ucast (w1 AND 0xFF)\<rparr>),
      pa_store = (\<lambda>p _ w1. (lower p, (w1 AND NOT 0xFF) OR ucast (upper p)))\<rparr>"

definition arm_copy_phys_addr :: "u32 pa_ops" where
  "arm_copy_phys_addr = \<lparr>pa_load = (\<lambda>w0 _. w0), pa_store = (\<lambda>p _ w1. (p, w1))\<rparr>"

subsection \<open>L1 slices\<close>

type_synonym rab_cfg_t = "u32 list"

record 'p rab_cfg_val_t =
  va_start :: virt_addr_t
  va_end :: virt_addr_t
  offset :: 'p
  flags :: u8

definition read_rab_cfg_val :: "'p pa_ops \<Rightarrow> rab_cfg_t \<Rightarrow> 'p rab_cfg_val_t" where
  "read_rab_cfg_val ops src =
     \<lparr>va_start = src ! 0, va_end = src ! 2, offset = pa_load ops (src ! 4) (src ! 5),
      flags = ucast (src ! 6 AND 0xFF)\<rparr>"

text \<open>
  The slice is live while it is written, so the model keeps every intermediate state of the
  registers, in the order of the stores; the last one is the result.
\<close>

definition write_rab_cfg_trace :: "'p pa_ops \<Rightarrow> rab_cfg_t \<Rightarrow> 'p rab_cfg_val_t \<Rightarrow> rab_cfg_t list" where
  "write_rab_cfg_trace ops dst src =
     (let s1 = dst[6 := 0];
          s2 = s1[0 := va_start src];
          s3 = s2[2 := va_end src];
          pa = pa_store ops (offset src) (s3 ! 4) (s3 ! 5);
          s4 = s3[4 := fst pa, 5 := snd pa];
          s5 = s4[6 := 0x000000FF AND ucast (flags src)]
      in [s1, s2, s3, s4, s5])"

definition write_rab_cfg_val :: "'p pa_ops \<Rightarrow> rab_cfg_t \<Rightarrow> 'p rab_cfg_val_t \<Rightarrow> rab_cfg_t" where
  "write_rab_cfg_val ops dst src = last (write_rab_cfg_trace ops dst src)"

definition rab_flags :: "bool \<Rightarrow> bool \<Rightarrow> u8" where
  "rab_flags rdonly cache_coherent =
     RAB_CFG_FLAG_EN OR RAB_CFG_FLAG_RDEN OR (if rdonly then 0 else RAB_CFG_FLAG_WREN)
     OR (if cache_coherent then RAB_CFG_FLAG_COHERENT else 0)"

definition config_rab_slice ::
    "'p pa_ops \<Rightarrow> virt_addr_t \<Rightarrow> virt_addr_t \<Rightarrow> 'p \<Rightarrow> rab_cfg_t \<Rightarrow> bool \<Rightarrow> bool \<Rightarrow> int \<times> rab_cfg_t" where
  "config_rab_slice ops begin_va end_va phys_addr rab_slice rdonly cache_coherent =
     (let cfg = \<lparr>va_start = begin_va, va_end = end_va - 1, offset = phys_addr,
                 flags = rab_flags rdonly cache_coherent\<rparr>
      in (0, write_rab_cfg_val ops rab_slice cfg))"

definition disable_rab_slice :: "rab_cfg_t \<Rightarrow> int \<times> rab_cfg_t" where
  "disable_rab_slice rab_slice = (0, rab_slice[6 := 0])"

definition rab_slice_is_enabled :: "('p, 'a) rab_cfg_val_t_scheme \<Rightarrow> bool" where
  "rab_slice_is_enabled cfg \<longleftrightarrow> flags cfg AND RAB_CFG_FLAG_EN = RAB_CFG_FLAG_EN"

definition rab_slice_contains_virt_addr :: "('p, 'a) rab_cfg_val_t_scheme \<Rightarrow> virt_addr_t \<Rightarrow> bool" where
  "rab_slice_contains_virt_addr cfg va \<longleftrightarrow> va_start cfg \<le> va \<and> va \<le> va_end cfg"

subsection \<open>L2 entries\<close>

text \<open>
  \<open>phys_pfn\<close> is held in 64 bits, the widest of the three architectures; the store to the
  32-bit register truncates it, as the assignment in C does.
\<close>

type_synonym rab_l2_mem = "u32 \<Rightarrow> u32"

record rab_cfg_l2_val_t =
  virt_pfn :: virt_pfn_t
  phys_pfn :: u64
  l2_flags :: u8
  l2_set :: u8

definition page_set :: "virt_pfn_t \<Rightarrow> u8" where
  "page_set pfn = ucast (pfn AND RAB_CFG_L2_SET_PFN_MASK)"

definition write_rab_cfg_l2_trace ::
    "u32 \<Rightarrow> u32 \<Rightarrow> rab_l2_mem \<Rightarrow> rab_cfg_l2_val_t \<Rightarrow> rab_l2_mem list" where
  "write_rab_cfg_l2_trace varam_ptr param_ptr m src =
     (let m1 = m(varam_ptr := 0);
          m2 = m1(param_ptr := ucast (phys_pfn src));
          m3 = m2(varam_ptr := push_bit 4 (virt_pfn src) OR ucast (l2_flags src))
      in [m1, m2, m3])"

definition write_rab_cfg_l2_val ::
    "u32 \<Rightarrow> u32 \<Rightarrow> rab_l2_mem \<Rightarrow> rab_cfg_l2_val_t \<Rightarrow> rab_l2_mem" where
  "write_rab_cfg_l2_val varam_ptr param_ptr m src =
     last (write_rab_cfg_l2_trace varam_ptr param_ptr m src)"

definition config_rab_l2_entry ::
    "virt_pfn_t \<Rightarrow> u64 \<Rightarrow> u8 \<Rightarrow> u8 \<Rightarrow> bool \<Rightarrow> bool \<Rightarrow> rab_l2_mem \<Rightarrow> int \<times> rab_l2_mem" where
  "config_rab_l2_entry vpfn ppfn i_set i_entry rdonly cache_coherent m =
     (let cfg = \<lparr>virt_pfn = vpfn, phys_pfn = ppfn, l2_flags = rab_flags rdonly cache_coherent,
                 l2_set = i_set\<rparr>
      in (0, write_rab_cfg_l2_val (RAB_CFG_L2_VARAM_PTR i_set i_entry)
               (RAB_CFG_L2_PARAM_PTR i_set i_entry) m cfg))"

subsection \<open>The miss FIFO\<close>

text \<open>
  The FIFO is the list of its pending entries, oldest first; an entry is what the meta-data
  register and the address register show for it. The meta-data register of an empty FIFO has bit
  31 set; reading the address register pops the entry.
\<close>

type_synonym rab_fifo = "(u32 \<times> virt_addr_t) list"

record rab_miss_t =
  virt_addr :: virt_addr_t
  core_id :: int
  cluster_id :: int
  intra_cluster_id :: int
  is_prefetch :: bool

definition rab_fifo_meta :: "rab_fifo \<Rightarrow> u32" where
  "rab_fifo_meta fifo = (case fifo of [] \<Rightarrow> BIT_MASK_ONE 31 | (meta, _) # _ \<Rightarrow> meta)"

definition decode_rab_miss :: "u32 \<Rightarrow> virt_addr_t \<Rightarrow> rab_miss_t" where
  "decode_rab_miss meta va =
     \<lparr>virt_addr = va,
      core_id = uint (BIT_GET meta 0 AXI_ID_WIDTH_CORE),
      cluster_id = uint (BIT_GET meta (AXI_ID_WIDTH_CLUSTER + AXI_ID_WIDTH_CORE) AXI_ID_WIDTH_SOC),
      intra_cluster_id = uint (BIT_GET meta AXI_ID_WIDTH_CORE AXI_ID_WIDTH_CLUSTER),
      is_prefetch =
        (BIT_GET meta (AXI_ID_WIDTH + RAB_PORT_ID_WIDTH) AXI_USER_WIDTH
           = BIT_MASK_LSBS AXI_USER_WIDTH)\<rparr>"

fun get_rab_miss :: "rab_fifo \<Rightarrow> (int + rab_miss_t) \<times> rab_fifo" where
  "get_rab_miss fifo =
     (if BIT_GET (rab_fifo_meta fifo) 31 1 \<noteq> 0 then (Inl (- ENOENT), fifo)
      else (case fifo of
              [] \<Rightarrow> (Inl (- ENOENT), [])
            | (meta, va) # rest \<Rightarrow> (Inr (decode_rab_miss meta va), rest)))"

declare get_rab_miss.simps [simp del]

subsection \<open>The law of a physical address encoding and its three instances\<close>

locale phys_addr_codec =
  fixes ops :: "'p pa_ops"
  assumes load_store: "pa_load ops (fst (pa_store ops p w0 w1)) (snd (pa_store ops p w0 w1)) = p"
begin

lemma read_write_rab_cfg_val:
  assumes "length dst = 8"
  shows "read_rab_cfg_val ops (write_rab_cfg_val ops dst v) = v"
  using assms
  by (simp add: read_rab_cfg_val_def write_rab_cfg_val_def write_rab_cfg_trace_def Let_def
      load_store)

lemma read_config_rab_slice:
  assumes "length sl = 8"
  shows "read_rab_cfg_val ops (snd (config_rab_slice ops b e pa sl ro coh)) =
           \<lparr>va_start = b, va_end = e - 1, offset = pa, flags = rab_flags ro coh\<rparr>"
  using assms by (simp add: config_rab_slice_def read_write_rab_cfg_val)

end

interpretation rv64_pa: phys_addr_codec rv64_copy_phys_addr
proof unfold_locales
  fix p :: u64 and w0 w1 :: u32
  have "push_bit 32 (ucast (ucast (drop_bit 32 p) :: u32)) OR ucast (ucast p :: u32) = p"
    by (rule bit_word_eqI)
      (auto simp: bit_or_iff bit_push_bit_iff bit_ucast_iff bit_drop_bit_eq dest: bit_imp_le_length)
  then show "pa_load rv64_copy_phys_addr (fst (pa_store rv64_copy_phys_addr p w0 w1))
      (snd (pa_store rv64_copy_phys_addr p w0 w1)) = p"
    by (simp add: rv64_copy_phys_addr_def)
qed

interpretation arm64_pa: phys_addr_codec arm64_copy_phys_addr
proof unfold_locales
  fix p :: arm64_phys_addr and w0 w1 :: u32
  have "ucast ((w1 AND NOT 0xFF) OR ucast (upper p)) = upper p"
    by (rule bit_word_eqI)
      (auto simp: FF_eq_mask bit_or_iff bit_and_iff bit_not_iff bit_mask_iff bit_ucast_iff)
  then show "pa_load arm64_copy_phys_addr (fst (pa_store arm64_copy_phys_addr p w0 w1))
      (snd (pa_store arm64_copy_phys_addr p w0 w1)) = p"
    by (simp add: arm64_copy_phys_addr_def)
qed

interpretation arm_pa: phys_addr_codec arm_copy_phys_addr
  by unfold_locales (simp add: arm_copy_phys_addr_def)

subsection \<open>Slices: order of the stores, ranges, flags\<close>

lemma length_write_rab_cfg_val [simp]: "length (write_rab_cfg_val ops dst v) = length dst"
  by (simp add: write_rab_cfg_val_def write_rab_cfg_trace_def Let_def)

lemma length_config_rab_slice [simp]: "length (snd (config_rab_slice ops b e pa s ro coh)) = length s"
  by (simp add: config_rab_slice_def)

lemma fst_config_rab_slice [simp]: "fst (config_rab_slice ops b e pa s ro coh) = 0"
  by (simp add: config_rab_slice_def)

lemma rab_flags_enabled [simp]: "rab_flags ro coh AND RAB_CFG_FLAG_EN = RAB_CFG_FLAG_EN"
  by (simp add: rab_flags_def hw_consts)

lemma rab_flags_lt: "unat (rab_flags ro coh) < 16"
  by (simp add: rab_flags_def hw_consts)

lemma rab_flags_writable: "rab_flags ro coh AND RAB_CFG_FLAG_WREN = 0 \<longleftrightarrow> ro"
  by (simp add: rab_flags_def hw_consts)

lemma disabled_slice_not_enabled:
  "length s = 8 \<Longrightarrow> \<not> rab_slice_is_enabled (read_rab_cfg_val ops (snd (disable_rab_slice s)))"
  by (simp add: disable_rab_slice_def read_rab_cfg_val_def rab_slice_is_enabled_def hw_consts)

subsection \<open>L2 registers: the address map is injective\<close>

lemma unat_L2_VARAM:
  assumes "unat s < 32" "unat e < 32"
  shows "unat (RAB_CFG_L2_VARAM_PTR s e) = 0x1A138000 + unat s * 128 + unat e * 4"
  using assms
  by (simp add: RAB_CFG_L2_VARAM_PTR_def hw_consts unat_word_ariths 
      unsigned_ucast_eq take_bit_nat_eq_self)

lemma unat_L2_PARAM:
  assumes "unat s < 32" "unat e < 32"
  shows "unat (RAB_CFG_L2_PARAM_PTR s e) = 0x1A139000 + unat s * 128 + unat e * 4"
  using assms
  by (simp add: RAB_CFG_L2_PARAM_PTR_def hw_consts unat_word_ariths unsigned_ucast_eq
      take_bit_nat_eq_self)

lemma set_entry_inj:
  assumes "a * 128 + b * 4 = c * 128 + d * (4 :: nat)" "b < 32" "d < 32"
  shows "a = c \<and> b = d"
proof -
  have eq: "a * 32 + b = c * 32 + d" using assms(1) by linarith
  have "(a * 32 + b) div 32 = a" "(c * 32 + d) div 32 = c" using assms(2,3) by simp_all
  then show ?thesis using eq by simp
qed

lemma L2_ptr_inj:
  assumes "unat s < 32" "unat e < 32" "unat s' < 32" "unat e' < 32"
  shows "RAB_CFG_L2_VARAM_PTR s e = RAB_CFG_L2_VARAM_PTR s' e' \<longleftrightarrow> s = s' \<and> e = e'"
    and "RAB_CFG_L2_PARAM_PTR s e = RAB_CFG_L2_PARAM_PTR s' e' \<longleftrightarrow> s = s' \<and> e = e'"
    and "RAB_CFG_L2_VARAM_PTR s e \<noteq> RAB_CFG_L2_PARAM_PTR s' e'"
    and "RAB_CFG_L2_PARAM_PTR s' e' \<noteq> RAB_CFG_L2_VARAM_PTR s e"
  using assms by (auto simp: word_eq_unat unat_L2_VARAM unat_L2_PARAM dest: set_entry_inj)

text \<open>The word written to the virtual-address RAM, and what the RAB compares against it.\<close>

definition l2_varam_word :: "virt_pfn_t \<Rightarrow> u8 \<Rightarrow> u32" where
  "l2_varam_word pfn fl = push_bit 4 pfn OR ucast fl"

lemma config_rab_l2_entry_regs:
  assumes "unat s < 32" "unat e < 32" "unat s' < 32" "unat e' < 32"
  shows "snd (config_rab_l2_entry vpfn ppfn s e ro coh m) (RAB_CFG_L2_VARAM_PTR s' e') =
           (if s' = s \<and> e' = e then l2_varam_word vpfn (rab_flags ro coh)
            else m (RAB_CFG_L2_VARAM_PTR s' e'))"
    and "snd (config_rab_l2_entry vpfn ppfn s e ro coh m) (RAB_CFG_L2_PARAM_PTR s' e') =
           (if s' = s \<and> e' = e then ucast ppfn else m (RAB_CFG_L2_PARAM_PTR s' e'))"
  using assms
  by (auto simp: config_rab_l2_entry_def write_rab_cfg_l2_val_def write_rab_cfg_l2_trace_def Let_def
      l2_varam_word_def L2_ptr_inj)

lemma fst_config_rab_l2_entry [simp]: "fst (config_rab_l2_entry v p s e ro coh m) = 0"
  by (simp add: config_rab_l2_entry_def Let_def)

lemma unat_ucast_flags: "unat (ucast (rab_flags ro coh) :: u32) < 16"
  using rab_flags_lt [of ro coh] by (simp add: unsigned_ucast_eq take_bit_nat_eq_self)

lemma l2_varam_word_fields:
  assumes "unat fl < 16" "unat pfn < 2 ^ 28"
  shows "drop_bit 4 (l2_varam_word pfn fl) = pfn" "l2_varam_word pfn fl AND 15 = ucast fl"
proof -
  have fl: "unat (ucast fl :: u32) = unat fl"
    using assms by (simp add: unsigned_ucast_eq take_bit_nat_eq_self)
  have fl_mask: "(ucast fl :: u32) = ucast fl AND mask 4"
    using assms(1) fl by (simp add: word_eq_unat unat_and_mask)
  have "push_bit 4 pfn AND (ucast fl AND mask 4) = 0"
    by (rule bit_word_eqI) (auto simp: bit_and_iff bit_push_bit_iff bit_mask_iff)
  then have disj: "push_bit 4 pfn AND ucast fl = 0" using fl_mask by metis
  have push: "unat (push_bit 4 pfn) = unat pfn * 16"
    using assms(2) by (simp add: unat_push_bit)
  then have sum: "unat (l2_varam_word pfn fl) = unat pfn * 16 + unat fl"
    by (simp only: l2_varam_word_def unat_or_disjoint [OF disj] fl)
  show "drop_bit 4 (l2_varam_word pfn fl) = pfn"
    using assms sum by (simp add: word_eq_unat unat_drop_bit)
  have "(15 :: u32) = mask 4" by (simp add: mask_eq_exp_minus_1)
  then have "unat (l2_varam_word pfn fl AND 15) = unat (l2_varam_word pfn fl) mod 2 ^ 4"
    by (simp only: unat_and_mask)
  also have "\<dots> = unat fl" unfolding sum using assms(1) by simp
  finally show "l2_varam_word pfn fl AND 15 = ucast fl"
    by (simp only: word_eq_unat fl)
qed

subsection \<open>What a TLB entry of level 2 translates\<close>

definition l2_entry_match :: "rab_l2_mem \<Rightarrow> virt_pfn_t \<Rightarrow> u8 \<Rightarrow> bool" where
  "l2_entry_match m pfn e \<longleftrightarrow>
     (let w = m (RAB_CFG_L2_VARAM_PTR (page_set pfn) e)
      in w AND 1 = 1 \<and> drop_bit 4 w = pfn)"

text \<open>Some entry of the set of \<open>va\<close> translates it to page frame \<open>ppfn\<close> with
  flags \<open>fl\<close>.\<close>

definition l2_entry_maps :: "rab_l2_mem \<Rightarrow> virt_pfn_t \<Rightarrow> u32 \<Rightarrow> u8 \<Rightarrow> u8 \<Rightarrow> bool" where
  "l2_entry_maps m pfn ppfn fl e \<longleftrightarrow> l2_entry_match m pfn e \<and>
     m (RAB_CFG_L2_PARAM_PTR (page_set pfn) e) = ppfn \<and>
     m (RAB_CFG_L2_VARAM_PTR (page_set pfn) e) AND 15 = ucast fl"

definition l2_maps :: "rab_l2_mem \<Rightarrow> virt_addr_t \<Rightarrow> u32 \<Rightarrow> u8 \<Rightarrow> bool" where
  "l2_maps m va ppfn fl \<longleftrightarrow>
     list_ex (l2_entry_maps m (virt_addr2pfn va) ppfn fl) (map of_nat [0 ..< 32])"

lemma unat_page_set: "unat (page_set pfn) = unat pfn mod 32"
proof -
  have "RAB_CFG_L2_SET_PFN_MASK = mask 5"
    by (simp add: RAB_CFG_L2_SET_PFN_MASK_def RAB_L2_N_SETS_def mask_eq_exp_minus_1)
  then have "unat (pfn AND RAB_CFG_L2_SET_PFN_MASK) = unat pfn mod 2 ^ 5"
    by (metis unat_and_mask)
  moreover have "unat pfn mod 32 < 256"
    by (rule less_trans [of _ 32]) simp_all
  ultimately show ?thesis
    by (simp add: page_set_def unsigned_ucast_eq take_bit_nat_eq_self)
qed

lemma page_set_lt: "unat (page_set pfn) < 32"
  by (simp add: unat_page_set)

lemma l2_mapsI:
  assumes "unat e < 32" "l2_entry_maps m (virt_addr2pfn va) ppfn fl e"
  shows "l2_maps m va ppfn fl"
  using assms by (force simp: l2_maps_def list_ex_iff intro!: bexI [of _ "unat e"])

lemma l2_mapsE:
  assumes "l2_maps m va ppfn fl"
  obtains e where "unat e < 32" "l2_entry_maps m (virt_addr2pfn va) ppfn fl e"
proof -
  from assms obtain k :: nat where "k < 32" "l2_entry_maps m (virt_addr2pfn va) ppfn fl (of_nat k)"
    by (auto simp: l2_maps_def list_ex_iff)
  then show ?thesis using that [of "of_nat k"] by (simp add: unat_of_nat)
qed

lemma config_rab_l2_entry_maps:
  assumes "unat e < 32"
  shows "l2_maps (snd (config_rab_l2_entry (virt_addr2pfn va) ppfn (page_set (virt_addr2pfn va)) e ro coh m))
           va (ucast ppfn) (rab_flags ro coh)"
proof -
  let ?w = "l2_varam_word (virt_addr2pfn va) (rab_flags ro coh)"
  have pfn: "unat (virt_addr2pfn va) < 2 ^ 28"
    using virt_addr2pfn_lt [of va] by simp
  note f = l2_varam_word_fields [OF rab_flags_lt pfn, of ro coh]
  have "?w AND 1 = (?w AND 15) AND 1" by (simp add: and.assoc)
  also have "\<dots> = ucast (rab_flags ro coh AND RAB_CFG_FLAG_EN)"
    unfolding f(2) by (simp add: rab_flags_def hw_consts)
  also have "\<dots> = 1" by (simp only: rab_flags_enabled) (simp add: hw_consts)
  finally have "?w AND 1 = 1" .
  then show ?thesis
    using assms f
    by (intro l2_mapsI [OF assms])
      (simp add: l2_entry_match_def l2_entry_maps_def config_rab_l2_entry_regs page_set_lt Let_def)
qed

lemma config_rab_l2_entry_other_set:
  assumes "unat e < 32" "page_set (virt_addr2pfn va) \<noteq> i_set" "unat i_set < 32"
  shows "l2_maps (snd (config_rab_l2_entry vpfn ppfn i_set e ro coh m)) va x fl = l2_maps m va x fl"
proof -
  have "l2_entry_maps (snd (config_rab_l2_entry vpfn ppfn i_set e ro coh m)) (virt_addr2pfn va) x fl k =
      l2_entry_maps m (virt_addr2pfn va) x fl k" if "unat k < 32" for k
    using assms that
    by (simp add: l2_entry_match_def l2_entry_maps_def config_rab_l2_entry_regs page_set_lt)
  then show ?thesis by (metis l2_mapsI l2_mapsE)
qed

subsection \<open>Properties\<close>

text \<open>C37: What \<open>config_rab_slice\<close> writes into the registers of a slice, \<open>read_rab_cfg_val\<close> reads
  back, on all three host architectures: the range, the physical address in the layout of the
  architecture and the flags.\<close>

theorem rab_slice_round_trip:
  assumes "length sl = 8"
  shows "read_rab_cfg_val rv64_copy_phys_addr
           (snd (config_rab_slice rv64_copy_phys_addr b e pa sl ro coh)) =
         \<lparr>va_start = b, va_end = e - 1, offset = pa, flags = rab_flags ro coh\<rparr> \<and>
       read_rab_cfg_val arm64_copy_phys_addr
           (snd (config_rab_slice arm64_copy_phys_addr b e pa' sl ro coh)) =
         \<lparr>va_start = b, va_end = e - 1, offset = pa', flags = rab_flags ro coh\<rparr> \<and>
       read_rab_cfg_val arm_copy_phys_addr
           (snd (config_rab_slice arm_copy_phys_addr b e pa'' sl ro coh)) =
         \<lparr>va_start = b, va_end = e - 1, offset = pa'', flags = rab_flags ro coh\<rparr>"
  using assms
  by (simp add: rv64_pa.read_config_rab_slice arm64_pa.read_config_rab_slice
      arm_pa.read_config_rab_slice)

theorem rab_slice_round_trip_witness:
  "read_rab_cfg_val arm64_copy_phys_addr (snd (config_rab_slice arm64_copy_phys_addr 0x1000 0x2000
     \<lparr>lower = 0x80000000, upper = 5\<rparr> (replicate 8 0) True False)) =
   \<lparr>va_start = 0x1000, va_end = 0x1FFF, offset = \<lparr>lower = 0x80000000, upper = 5\<rparr>, flags = 3\<rparr>"
  using rab_slice_round_trip [of "replicate 8 0" "0x1000" "0x2000" 0 True False
      "\<lparr>lower = 0x80000000, upper = 5\<rparr>" 0]
  by (simp add: rab_flags_def hw_consts)

text \<open>A slice is never live while it is half written: in every state of its registers before the
  last store of \<open>write_rab_cfg_val\<close> the slice is disabled, whatever it held before; likewise the
  virtual-address word of an L2 entry is 0, so the entry matches nothing, until its last store.\<close>

theorem rab_writes_never_half_configured:
  assumes "length dst = 8" and "varam_ptr \<noteq> param_ptr"
  shows "(\<forall>sl \<in> set (butlast (write_rab_cfg_trace ops dst src)).
            \<not> rab_slice_is_enabled (read_rab_cfg_val ops sl)) \<and>
         (\<forall>m' \<in> set (butlast (write_rab_cfg_l2_trace varam_ptr param_ptr m src2)). m' varam_ptr = 0)"
  using assms
  by (simp add: write_rab_cfg_trace_def write_rab_cfg_l2_trace_def Let_def read_rab_cfg_val_def
      rab_slice_is_enabled_def hw_consts)

theorem rab_writes_never_half_configured_witness:
  "\<not> rab_slice_is_enabled (read_rab_cfg_val arm_copy_phys_addr
      (hd (write_rab_cfg_trace arm_copy_phys_addr [1, 0, 2, 0, 3, 0, 15, 0]
        \<lparr>va_start = 0x1000, va_end = 0x1FFF, offset = 7, flags = 15\<rparr>)))"
  using rab_writes_never_half_configured [of "[1, 0, 2, 0, 3, 0, 15, 0]" 0 4 arm_copy_phys_addr
      "\<lparr>va_start = 0x1000, va_end = 0x1FFF, offset = 7, flags = 15\<rparr>"]
  by (simp add: write_rab_cfg_trace_def Let_def)

end
