(* ===== verification/Ptw.thy ===== *)
theory Ptw
  imports Rab_Hal
begin

text \<open>
  What the page-table walks of the three host architectures share
  (\<open>libvmm/src/arch/*/pgtable_walk.c\<close>, \<open>vmm/host.h\<close>, \<open>vmm/config.h\<close>): the
  state they keep and the way they read page tables. A PULP core reads the tables of the host
  through the RAB: the first-level table is mapped by the host driver at \<open>VMM_PGD_BPTR\<close>, the
  tables below it are mapped one at a time by the walk itself, in the slices that follow.

  The RAB is hardware, so a load through it is a parameter \<open>ld\<close> of the model; the locale
  \<open>rab_bus\<close> states what the walks rely on. \<open>bus_load\<close> is an executable instance.
\<close>

record ptw_state =
  l1 :: "rab_cfg_t list"           \<comment> \<open>L1 slices, index 0 is \<open>RAB_CFG_BPTR\<close>\<close>
  cur_mapped_pte_addr :: virt_addr_t \<comment> \<open>static variable of the ARM walks\<close>

type_synonym 'v rab_ld = "rab_cfg_t list \<Rightarrow> virt_addr_t \<Rightarrow> 'v"

definition VMM_PGD_BPTR :: u32 where [hw_consts]: "VMM_PGD_BPTR = 0x20000000"

definition slice_hit :: "'p pa_ops \<Rightarrow> rab_cfg_t \<Rightarrow> virt_addr_t \<Rightarrow> bool" where
  "slice_hit ops sl va \<longleftrightarrow> rab_slice_is_enabled (read_rab_cfg_val ops sl)
     \<and> rab_slice_contains_virt_addr (read_rab_cfg_val ops sl) va"

text \<open>
  What the RAB does with a load that hits exactly one slice: it reads main memory at the slice's
  physical base plus the distance of the address from the start of the slice.
\<close>

locale rab_bus =
  fixes ops :: "'p pa_ops" and pa_addr :: "'p \<Rightarrow> u64" and ld :: "'v rab_ld" and mem :: "u64 \<Rightarrow> 'v"
  assumes ld_hit:
    "i < length slices \<Longrightarrow> slice_hit ops (slices ! i) va \<Longrightarrow>
     (\<And>j. j < length slices \<Longrightarrow> j \<noteq> i \<Longrightarrow> \<not> slice_hit ops (slices ! j) va) \<Longrightarrow>
     ld slices va =
       mem (pa_addr (offset (read_rab_cfg_val ops (slices ! i)))
            + ucast (va - va_start (read_rab_cfg_val ops (slices ! i))))"

definition bus_load :: "'p pa_ops \<Rightarrow> ('p \<Rightarrow> u64) \<Rightarrow> (u64 \<Rightarrow> 'v::zero) \<Rightarrow> 'v rab_ld" where
  "bus_load ops pa_addr mem slices va =
     (case find (\<lambda>sl. slice_hit ops sl va) slices of
        None \<Rightarrow> 0
      | Some sl \<Rightarrow> mem (pa_addr (offset (read_rab_cfg_val ops sl))
                       + ucast (va - va_start (read_rab_cfg_val ops sl))))"

lemma find_unique:
  assumes "i < length xs" "P (xs ! i)" "\<And>j. j < length xs \<Longrightarrow> j \<noteq> i \<Longrightarrow> \<not> P (xs ! j)"
  shows "find P xs = Some (xs ! i)"
  using assms by (auto simp: find_Some_iff intro!: exI [of _ i])

interpretation bus_load: rab_bus ops pa_addr "bus_load ops pa_addr mem" mem for ops pa_addr mem
  by unfold_locales (simp add: bus_load_def find_unique)

subsection \<open>Windows: the address ranges that the slices of a walk translate\<close>

definition slice_within :: "'p pa_ops \<Rightarrow> rab_cfg_t \<Rightarrow> u32 \<Rightarrow> u32 \<Rightarrow> bool" where
  "slice_within ops sl lo hi \<longleftrightarrow> (let c = read_rab_cfg_val ops sl in
     rab_slice_is_enabled c \<longrightarrow> lo \<le> va_start c \<and> va_end c \<le> hi)"

definition slice_outside :: "'p pa_ops \<Rightarrow> rab_cfg_t \<Rightarrow> u32 \<Rightarrow> u32 \<Rightarrow> bool" where
  "slice_outside ops sl lo hi \<longleftrightarrow> (let c = read_rab_cfg_val ops sl in
     rab_slice_is_enabled c \<longrightarrow> va_end c < lo \<or> hi < va_start c)"

definition slice_window :: "'p pa_ops \<Rightarrow> rab_cfg_t \<Rightarrow> u32 \<Rightarrow> u32 \<Rightarrow> 'p \<Rightarrow> bool" where
  "slice_window ops sl lo hi pa \<longleftrightarrow> (let c = read_rab_cfg_val ops sl in
     rab_slice_is_enabled c \<and> va_start c = lo \<and> va_end c = hi \<and> offset c = pa)"

lemma slice_within_no_hit: "slice_within ops sl lo hi \<Longrightarrow> va < lo \<or> hi < va \<Longrightarrow> \<not> slice_hit ops sl va"
  by (auto simp: slice_within_def slice_hit_def rab_slice_contains_virt_addr_def Let_def)

lemma slice_outside_no_hit: "slice_outside ops sl lo hi \<Longrightarrow> lo \<le> va \<Longrightarrow> va \<le> hi \<Longrightarrow> \<not> slice_hit ops sl va"
  by (auto simp: slice_outside_def slice_hit_def rab_slice_contains_virt_addr_def Let_def)

lemma slice_window_hit: "slice_window ops sl lo hi pa \<Longrightarrow> lo \<le> va \<Longrightarrow> va \<le> hi \<Longrightarrow> slice_hit ops sl va"
  by (auto simp: slice_window_def slice_hit_def rab_slice_contains_virt_addr_def Let_def)

lemma slice_window_within: "slice_window ops sl lo hi pa \<Longrightarrow> slice_within ops sl lo hi"
  by (auto simp: slice_window_def slice_within_def Let_def)

lemma slice_disabled_within:
  assumes "length sl = 8"
  shows "slice_within ops (sl[6 := 0]) lo hi" "slice_outside ops (sl[6 := 0]) lo hi"
  using disabled_slice_not_enabled [OF assms, of ops]
  by (simp_all add: slice_within_def slice_outside_def disable_rab_slice_def)

context phys_addr_codec
begin

lemma config_rab_slice_window:
  assumes "length sl = 8"
  shows "slice_window ops (snd (config_rab_slice ops lo hi pa sl ro coh)) lo (hi - 1) pa"
  using assms by (simp add: slice_window_def read_config_rab_slice rab_slice_is_enabled_def)

end

context rab_bus
begin

lemma ld_window:
  assumes "i < length slices" "slice_window ops (slices ! i) lo hi pa" "lo \<le> va" "va \<le> hi"
    and "\<And>j. j < length slices \<Longrightarrow> j \<noteq> i \<Longrightarrow> \<not> slice_hit ops (slices ! j) va"
  shows "ld slices va = mem (pa_addr pa + ucast (va - lo))"
  using ld_hit [of i slices va] assms slice_window_hit [OF assms(2-4)]
  by (simp add: slice_window_def Let_def)

end

end
