(* ===== verification/Ptw_Riscv64.thy ===== *)
theory Ptw_Riscv64
  imports Ptw
begin

text \<open>
  The page-table walk of a PULP core on a RISC-V host,
  \<open>libvmm/src/arch/riscv64/pgtable_walk.c\<close>. The core reads the host's page tables through
  the RAB: the first-level table is mapped by the host driver at \<open>VMM_PGD_BPTR\<close>, the
  tables below it are mapped one at a time, by the walk itself, at \<open>PTE_BPTR\<close>.

  A load through the RAB is the parameter \<open>ld\<close>, with the law of \<open>rab_bus\<close>.
  The theory ends with the Sv39 translation of the RISC-V privileged architecture
  (\<open>sv39\<close>) and the proof that the walk computes it.
\<close>

subsection \<open>The walk\<close>

definition RV_PGD_SLICE :: nat where [hw_consts]: "RV_PGD_SLICE = 1"
definition RV_PTE_SLICE :: nat where [hw_consts]: "RV_PTE_SLICE = RV_PGD_SLICE + 1"

text \<open>\<open>PTE_BPTR\<close> and \<open>PTE_EPTR\<close> are sums of a \<open>phys_addr_t*\<close> and \<open>PT_SIZE\<close>:
  the step of the pointer is the eight bytes of a page-table entry.\<close>

definition RV_PTE_BPTR :: u32 where [hw_consts]: "RV_PTE_BPTR = VMM_PGD_BPTR + 8 * RV_PT_SIZE"
definition RV_PTE_EPTR :: u32 where [hw_consts]: "RV_PTE_EPTR = RV_PTE_BPTR + 8 * RV_PT_SIZE"

definition rv64_config_pt_rab_slice :: "u64 \<Rightarrow> 'a ptw_state_scheme \<Rightarrow> int \<times> 'a ptw_state_scheme" where
  "rv64_config_pt_rab_slice pt_addr s =
     (let r = config_rab_slice rv64_copy_phys_addr RV_PTE_BPTR RV_PTE_EPTR pt_addr
                (l1 s ! RV_PTE_SLICE) True False
      in (fst r, s\<lparr>l1 := (l1 s)[RV_PTE_SLICE := snd r]\<rparr>))"

definition rv64_get_page_phys_addr :: "u64 \<Rightarrow> virt_addr_t \<Rightarrow> nat \<Rightarrow> int + (u64 \<times> bool)" where
  "rv64_get_page_phys_addr pte va level =
     (if drop_bit RV_PPN_SHIFT pte AND (push_bit (RV_PPN_SIZE * level) 1 - 1) \<noteq> 0
      then Inl (- EFAULT)
      else if \<not> rv64_pte_leaf_is_readable pte \<or> \<not> rv64_pte_leaf_has_user_perm pte
      then Inl (- EFAULT)
      else Inr (push_bit PAGE_SHIFT
                  ((drop_bit RV_PPN_SHIFT pte AND (push_bit (RV_PPN_SIZE * RV_LEVELS) 1 - 1))
                   OR (ucast (drop_bit RV_VPN_SHIFT va) AND (push_bit (RV_VPN_SIZE * level) 1 - 1))),
                \<not> rv64_pte_leaf_is_writable pte))"

definition rv64_get_pt_addr :: "u64 \<Rightarrow> u64" where
  "rv64_get_pt_addr pte = push_bit PAGE_SHIFT (drop_bit RV_PPN_SHIFT pte)"

definition rv64_pte_offset :: "virt_addr_t \<Rightarrow> nat \<Rightarrow> u32" where
  "rv64_pte_offset va level =
     (if RV_VPN_SIZE * (level + 1) + RV_VPN_SHIFT \<le> 8 * 4
      then drop_bit (RV_VPN_SIZE * level + RV_VPN_SHIFT) va AND (push_bit RV_VPN_SIZE 1 - 1)
      else 0)"

definition rv64_get_pte ::
    "u64 rab_ld \<Rightarrow> rab_cfg_t list \<Rightarrow> u32 \<Rightarrow> virt_addr_t \<Rightarrow> nat \<Rightarrow> int + (u64 \<times> bool)" where
  "rv64_get_pte ld slices pt_ptr va level =
     (let pte = ld slices (pt_ptr + 8 * rv64_pte_offset va level)
      in if \<not> rv64_pte_val_is_valid pte then Inl (- EFAULT)
         else Inr (pte, rv64_pte_val_is_leaf pte))"

primrec rv64_walk ::
    "u64 rab_ld \<Rightarrow> virt_addr_t \<Rightarrow> nat \<Rightarrow> u32 \<Rightarrow> 'a ptw_state_scheme
     \<Rightarrow> (int + (u64 \<times> bool)) \<times> 'a ptw_state_scheme" where
  "rv64_walk ld va 0 pt_ptr s =
     (case rv64_get_pte ld (l1 s) pt_ptr va 0 of
        Inl e \<Rightarrow> (Inl e, s)
      | Inr (pte, leaf) \<Rightarrow>
          if leaf then (rv64_get_page_phys_addr pte va 0, s) else (Inl (- EFAULT), s))"
| "rv64_walk ld va (Suc level) pt_ptr s =
     (case rv64_get_pte ld (l1 s) pt_ptr va (Suc level) of
        Inl e \<Rightarrow> (Inl e, s)
      | Inr (pte, leaf) \<Rightarrow>
          if leaf then (rv64_get_page_phys_addr pte va (Suc level), s)
          else (case rv64_config_pt_rab_slice (rv64_get_pt_addr pte) s of
                  (ret, s') \<Rightarrow> if ret < 0 then (Inl ret, s')
                               else rv64_walk ld va level RV_PTE_BPTR s'))"

definition rv64_virt_addr_to_page_phys_addr ::
    "u64 rab_ld \<Rightarrow> virt_addr_t \<Rightarrow> 'a ptw_state_scheme
     \<Rightarrow> (int + (u64 \<times> bool)) \<times> 'a ptw_state_scheme" where
  "rv64_virt_addr_to_page_phys_addr ld va s = rv64_walk ld va (RV_LEVELS - 1) VMM_PGD_BPTR s"

subsection \<open>Loads through the RAB\<close>

locale rab_hw = rab_bus rv64_copy_phys_addr "\<lambda>p. p" ld mem for ld :: "u64 rab_ld" and mem

definition rab_load :: "(u64 \<Rightarrow> u64) \<Rightarrow> u64 rab_ld" where
  "rab_load = bus_load rv64_copy_phys_addr (\<lambda>p. p)"

interpretation rab_load: rab_hw "rab_load mem" mem for mem
  unfolding rab_load_def by unfold_locales

subsection \<open>The translation of the RISC-V privileged architecture\<close>

definition sv39_vpn :: "nat \<Rightarrow> nat \<Rightarrow> nat" where
  "sv39_vpn va level = va div 2 ^ (12 + 9 * level) mod 512"

primrec sv39 :: "(u64 \<Rightarrow> u64) \<Rightarrow> nat \<Rightarrow> nat \<Rightarrow> nat \<Rightarrow> (nat \<times> bool) option" where
  "sv39 mem va 0 table =
     (let pte = mem (of_nat (table + 8 * sv39_vpn va 0)) in
      if \<not> bit pte 0 \<or> \<not> bit pte 1 \<and> bit pte 2 then None
      else if bit pte 1 \<or> bit pte 3
      then (if bit pte 1 \<and> bit pte 4
            then Some (unat pte div 2 ^ 10 * 4096, \<not> bit pte 2) else None)
      else None)"
| "sv39 mem va (Suc level) table =
     (let pte = mem (of_nat (table + 8 * sv39_vpn va (Suc level))) in
      if \<not> bit pte 0 \<or> \<not> bit pte 1 \<and> bit pte 2 then None
      else if bit pte 1 \<or> bit pte 3
      then (if unat pte div 2 ^ 10 mod 2 ^ (9 * Suc level) = 0 \<and> bit pte 1 \<and> bit pte 4
            then Some ((unat pte div 2 ^ 10 + va div 4096 mod 2 ^ (9 * Suc level)) * 4096, \<not> bit pte 2)
            else None)
      else sv39 mem va level (unat pte div 2 ^ 10 * 4096))"

text \<open>
  The configuration of the L1 slices in which a walk starts: slice 1 maps the first-level table
  at \<open>VMM_PGD_BPTR\<close>, and no other enabled slice reaches into the window the walk uses,
  except slice 2, which the walk owns.
\<close>

definition rv64_ptw_wf :: "nat \<Rightarrow> rab_cfg_t list \<Rightarrow> bool" where
  "rv64_ptw_wf root slices \<longleftrightarrow>
     length slices = 32 \<and> (\<forall>sl \<in> set slices. length sl = 8) \<and>
     (let pgd = read_rab_cfg_val rv64_copy_phys_addr (slices ! 1) in
        rab_slice_is_enabled pgd \<and> va_start pgd = 0x20000000 \<and> 0x20000FFF \<le> va_end pgd
        \<and> va_end pgd < 0x20008000 \<and> offset pgd = of_nat root) \<and>
     (let pte = read_rab_cfg_val rv64_copy_phys_addr (slices ! 2) in
        rab_slice_is_enabled pte \<longrightarrow> 0x20008000 \<le> va_start pte) \<and>
     (\<forall>i < 32. i \<noteq> 1 \<longrightarrow> i \<noteq> 2 \<longrightarrow>
        (let c = read_rab_cfg_val rv64_copy_phys_addr (slices ! i) in
           rab_slice_is_enabled c \<longrightarrow> va_end c < 0x20000000 \<or> 0x2000FFFF < va_start c))"

subsection \<open>Entries and offsets: the bit operations in terms of the specification\<close>

lemmas rv64_pte_bit_defs = rv64_pte_val_is_valid_def rv64_pte_val_is_leaf_def
  rv64_pte_leaf_is_readable_def rv64_pte_leaf_is_writable_def rv64_pte_leaf_has_user_perm_def
  RV_PTE_VALID_def RV_PTE_READ_def RV_PTE_WRITE_def RV_PTE_EXEC_def RV_PTE_USER_def

lemma rv64_pte_bits:
  "rv64_pte_val_is_valid v \<longleftrightarrow> bit v 0 \<and> (bit v 1 \<or> \<not> bit v 2)"
  "rv64_pte_val_is_leaf v \<longleftrightarrow> bit v 1 \<or> bit v 3"
  "rv64_pte_leaf_is_readable v \<longleftrightarrow> bit v 1"
  "rv64_pte_leaf_is_writable v \<longleftrightarrow> bit v 2"
  "rv64_pte_leaf_has_user_perm v \<longleftrightarrow> bit v 4"
proof -
  have len: "(0::nat) < LENGTH(64)" "(1::nat) < LENGTH(64)" "(2::nat) < LENGTH(64)"
    "(4::nat) < LENGTH(64)" by simp_all
  note rules = rv64_pte_bit_defs and_single_bit_0 len [THEN and_single_bit]
  show "rv64_pte_val_is_valid v \<longleftrightarrow> bit v 0 \<and> (bit v 1 \<or> \<not> bit v 2)"
    by (simp only: rules) blast
  show "rv64_pte_val_is_leaf v \<longleftrightarrow> bit v 1 \<or> bit v 3" by (simp only: rules) blast
  show "rv64_pte_leaf_is_readable v \<longleftrightarrow> bit v 1" by (simp only: rules)
  show "rv64_pte_leaf_is_writable v \<longleftrightarrow> bit v 2" by (simp only: rules)
  show "rv64_pte_leaf_has_user_perm v \<longleftrightarrow> bit v 4" by (simp only: rules)
qed

lemma unat_rv64_pte_offset:
  assumes "level \<le> 2" "unat va < 2 ^ 30"
  shows "unat (rv64_pte_offset va level) = sv39_vpn (unat va) level"
proof (cases "level = 2")
  case True
  with assms show ?thesis by (simp add: rv64_pte_offset_def sv39_vpn_def hw_consts)
next
  case False
  with assms(1) show ?thesis
    by (simp add: rv64_pte_offset_def sv39_vpn_def hw_consts unat_and_mask unat_drop_bit
        add.commute [of "9 * level"] del: push_bit_of_1)
qed

lemma sv39_vpn_lt: "sv39_vpn va level < 512"
  by (simp add: sv39_vpn_def)

lemma unat_rv64_get_pt_addr:
  assumes "unat pte < 2 ^ 37"
  shows "unat (rv64_get_pt_addr pte) = unat pte div 2 ^ 10 * 4096"
  using assms by (simp add: rv64_get_pt_addr_def hw_consts unat_push_bit unat_drop_bit)

text \<open>A leaf entry gives the page of the specification, or is refused where it is refused.\<close>

lemma rv64_get_page_phys_addr_cases:
  assumes "unat pte < 2 ^ 37" "level \<le> 2"
  shows "case rv64_get_page_phys_addr pte va level of
      Inl e \<Rightarrow> e < 0 \<and> \<not> (unat pte div 2 ^ 10 mod 2 ^ (9 * level) = 0 \<and> bit pte 1 \<and> bit pte 4)
    | Inr (pa, ro) \<Rightarrow> unat pte div 2 ^ 10 mod 2 ^ (9 * level) = 0 \<and> bit pte 1 \<and> bit pte 4
        \<and> unat pa = (unat pte div 2 ^ 10 + unat va div 4096 mod 2 ^ (9 * level)) * 4096
        \<and> ro = (\<not> bit pte 2)"
proof -
  let ?ppn = "drop_bit 10 pte" and ?off = "ucast (drop_bit 12 va) AND mask (9 * level) :: u64"
  have ppn: "unat ?ppn = unat pte div 2 ^ 10" "unat pte div 2 ^ 10 < 2 ^ 27"
    using assms(1) by (simp_all add: unat_drop_bit)
  have mask27: "?ppn AND mask 27 = ?ppn"
    using ppn by (simp add: word_eq_unat unat_and_mask)
  have zero: "?ppn AND mask (9 * level) = 0 \<longleftrightarrow> unat pte div 2 ^ 10 mod 2 ^ (9 * level) = 0"
    using ppn(1) by (simp add: word_eq_unat unat_and_mask)
  have va: "unat (ucast (drop_bit 12 va) :: u64) = unat va div 4096"
    using unat_u32_lt [of va] by (simp add: unsigned_ucast_eq unat_drop_bit take_bit_nat_eq_self)
  have off: "unat ?off = unat va div 4096 mod 2 ^ (9 * level)"
    by (simp add: unat_and_mask va)
  have sum: "unat (push_bit 12 (?ppn OR ?off)) = (unat pte div 2 ^ 10 + unat ?off) * 4096"
    if "?ppn AND mask (9 * level) = 0"
  proof -
    have "?ppn AND ?off = 0"
      using that by (rule and_and_zero)
    then have or: "unat (?ppn OR ?off) = unat pte div 2 ^ 10 + unat ?off"
      by (simp add: unat_or_disjoint ppn(1))
    have "unat ?off < 2 ^ 20"
      using unat_u32_lt [of va] by (simp add: off le_less_trans [OF mod_less_eq_dividend])
    then have "unat (?ppn OR ?off) * 2 ^ 12 < 2 ^ 64"
      using ppn(2) or by simp
    then have "unat (push_bit 12 (?ppn OR ?off)) = unat (?ppn OR ?off) * 2 ^ 12"
      by (intro unat_push_bit) simp
    then show ?thesis using or by (simp only:) simp
  qed
  show ?thesis
    unfolding rv64_get_page_phys_addr_def rv64_pte_bits hw_consts push_bit_1_minus_1
    using sum off zero by (simp add: mask27 errno_values del: push_bit_or push_bit_and)
qed

subsection \<open>What a walk changes: slice 2 only\<close>

lemma RV_PTE_SLICE_eq: "RV_PTE_SLICE = 2"
  by (simp add: RV_PTE_SLICE_def RV_PGD_SLICE_def)

lemma rv64_config_pt_rab_slice_simps [simp]:
  "fst (rv64_config_pt_rab_slice pt s) = 0"
  "length (l1 (snd (rv64_config_pt_rab_slice pt s))) = length (l1 s)"
  "i \<noteq> 2 \<Longrightarrow> l1 (snd (rv64_config_pt_rab_slice pt s)) ! i = l1 s ! i"
  "ptw_state.more (snd (rv64_config_pt_rab_slice pt s)) = ptw_state.more s"
  "cur_mapped_pte_addr (snd (rv64_config_pt_rab_slice pt s)) = cur_mapped_pte_addr s"
  by (simp_all add: rv64_config_pt_rab_slice_def Let_def hw_consts)

lemma rv64_walk_frame:
  "length (l1 (snd (rv64_walk ld va level ptr s))) = length (l1 s) \<and>
   (\<forall>i. i \<noteq> 2 \<longrightarrow> l1 (snd (rv64_walk ld va level ptr s)) ! i = l1 s ! i) \<and>
   ptw_state.more (snd (rv64_walk ld va level ptr s)) = ptw_state.more s"
proof (induction level arbitrary: ptr s)
  case 0
  show ?case by (simp split: sum.split prod.split)
next
  case (Suc level)
  show ?case
    using Suc.IH [of RV_PTE_BPTR "snd (rv64_config_pt_rab_slice pt s)" for pt]
    by (auto simp: case_prod_beta split: sum.split)
qed

lemma rv64_config_pt_rab_slice_wf:
  assumes wf: "rv64_ptw_wf root (l1 s)"
  shows "rv64_ptw_wf root (l1 (snd (rv64_config_pt_rab_slice pt s)))"
proof -
  have len: "length (l1 s) = 32" "length (l1 s ! 2) = 8"
    using wf by (auto simp: rv64_ptw_wf_def)
  let ?sl = "snd (config_rab_slice rv64_copy_phys_addr RV_PTE_BPTR RV_PTE_EPTR pt (l1 s ! 2) True False)"
  have upd: "l1 (snd (rv64_config_pt_rab_slice pt s)) = (l1 s)[2 := ?sl]"
    by (simp add: rv64_config_pt_rab_slice_def Let_def RV_PTE_SLICE_eq)
  have start: "va_start (read_rab_cfg_val rv64_copy_phys_addr ?sl) = 0x20008000"
    using len(2) by (simp add: rv64_pa.read_config_rab_slice hw_consts)
  have lens: "\<forall>sl \<in> set ((l1 s)[2 := ?sl]). length sl = 8"
    using wf len set_update_subset_insert [of "l1 s" 2 ?sl] by (auto simp: rv64_ptw_wf_def)
  show ?thesis
    using wf len start lens unfolding upd rv64_ptw_wf_def by (simp add: Let_def)
qed

context rab_hw
begin

lemma ld_pgd_window:
  assumes wf: "rv64_ptw_wf root slices" and idx: "unat idx < 512"
  shows "ld slices (VMM_PGD_BPTR + 8 * idx) = mem (of_nat (root + 8 * unat idx))"
proof -
  let ?va = "VMM_PGD_BPTR + 8 * idx"
  let ?c = "\<lambda>i. read_rab_cfg_val rv64_copy_phys_addr (slices ! i)"
  have va: "unat ?va = 0x20000000 + 8 * unat idx"
    using idx by (simp add: hw_consts unat_word_ariths)
  have pgd: "slice_hit rv64_copy_phys_addr (slices ! 1) ?va" "va_start (?c 1) = 0x20000000"
    "offset (?c 1) = of_nat root"
    using wf va idx
    by (auto simp: rv64_ptw_wf_def Let_def slice_hit_def rab_slice_contains_virt_addr_def
        word_le_nat_alt)
  have other: "\<not> slice_hit rv64_copy_phys_addr (slices ! j) ?va" if "j < 32" "j \<noteq> 1" for j
    using wf va idx that
    by (cases "j = 2") (auto simp: rv64_ptw_wf_def Let_def slice_hit_def
        rab_slice_contains_virt_addr_def word_le_nat_alt word_less_nat_alt)
  have "ld slices ?va = mem (offset (?c 1) + ucast (?va - va_start (?c 1)))"
    using wf pgd(1) other by (intro ld_hit) (auto simp: rv64_ptw_wf_def)
  moreover have "(ucast (?va - 0x20000000) :: u64) = of_nat (8 * unat idx)"
    using idx by (simp add: word_eq_unat hw_consts unsigned_ucast_eq unat_word_ariths
        take_bit_nat_eq_self unsigned_of_nat)
  ultimately show ?thesis by (simp only: pgd of_nat_add)
qed

lemma ld_pte_window:
  assumes wf: "rv64_ptw_wf root (l1 s)" and idx: "unat idx < 512"
  shows "ld (l1 (snd (rv64_config_pt_rab_slice pt s))) (RV_PTE_BPTR + 8 * idx) =
           mem (of_nat (unat pt + 8 * unat idx))"
proof -
  let ?va = "RV_PTE_BPTR + 8 * idx" and ?slices = "l1 (snd (rv64_config_pt_rab_slice pt s))"
  let ?c = "\<lambda>i. read_rab_cfg_val rv64_copy_phys_addr (?slices ! i)"
  have len: "length (l1 s) = 32" "length (l1 s ! 2) = 8"
    using wf by (auto simp: rv64_ptw_wf_def)
  have va: "unat ?va = 0x20008000 + 8 * unat idx"
    using idx by (simp add: hw_consts unat_word_ariths)
  have "?slices ! 2 =
      snd (config_rab_slice rv64_copy_phys_addr RV_PTE_BPTR RV_PTE_EPTR pt (l1 s ! 2) True False)"
    using len by (simp add: rv64_config_pt_rab_slice_def Let_def RV_PTE_SLICE_eq)
  then have c2: "?c 2 = \<lparr>va_start = RV_PTE_BPTR, va_end = RV_PTE_EPTR - 1, offset = pt,
      flags = rab_flags True False\<rparr>"
    using len by (simp add: rv64_pa.read_config_rab_slice)
  have hit: "slice_hit rv64_copy_phys_addr (?slices ! 2) ?va"
    using va idx by (simp add: slice_hit_def c2 rab_slice_is_enabled_def
        rab_slice_contains_virt_addr_def word_le_nat_alt) (simp add: hw_consts)
  have other: "\<not> slice_hit rv64_copy_phys_addr (?slices ! j) ?va" if "j < 32" "j \<noteq> 2" for j
    using wf va idx that
    by (cases "j = 1") (auto simp: rv64_ptw_wf_def Let_def slice_hit_def
        rab_slice_contains_virt_addr_def word_le_nat_alt word_less_nat_alt)
  have "ld ?slices ?va = mem (offset (?c 2) + ucast (?va - va_start (?c 2)))"
    using len hit other by (intro ld_hit) auto
  moreover have "(ucast (8 * idx) :: u64) = of_nat (8 * unat idx)"
    using idx by (simp add: word_eq_unat unsigned_ucast_eq unat_word_ariths
        take_bit_nat_eq_self unsigned_of_nat)
  ultimately show ?thesis by (simp add: c2)
qed

text \<open>The walk computes the translation of the specification, table by table.\<close>

lemma rv64_walk_sv39:
  assumes wf: "rv64_ptw_wf root (l1 s)" and mem: "\<And>a. unat (mem a) < 2 ^ 37"
    and va: "unat va < 2 ^ 30" and level: "level \<le> 2"
    and window: "\<And>idx. unat idx < 512 \<Longrightarrow> ld (l1 s) (ptr + 8 * idx) = mem (of_nat (table + 8 * unat idx))"
  shows "case fst (rv64_walk ld va level ptr s) of
           Inl e \<Rightarrow> e < 0 \<and> sv39 mem (unat va) level table = None
         | Inr (pa, ro) \<Rightarrow> sv39 mem (unat va) level table = Some (unat pa, ro)"
  using wf level window
proof (induction level arbitrary: s ptr table)
  case 0
  define pte where "pte = ld (l1 s) (ptr + 8 * rv64_pte_offset va 0)"
  have "unat (rv64_pte_offset va 0) = sv39_vpn (unat va) 0"
    using va by (intro unat_rv64_pte_offset) simp_all
  then have pte: "mem (of_nat (table + 8 * sv39_vpn (unat va) 0)) = pte"
    using "0.prems"(3) [of "rv64_pte_offset va 0"] sv39_vpn_lt by (simp add: pte_def)
  have "unat pte < 2 ^ 37" using mem pte by metis
  from rv64_get_page_phys_addr_cases [OF this, of 0 va] show ?case
    unfolding rv64_walk.simps sv39.simps rv64_get_pte_def pte_def [symmetric] pte Let_def
    by (auto simp: rv64_pte_bits errno_values split: sum.splits)
next
  case (Suc level)
  let ?n = "Suc level"
  define pte where "pte = ld (l1 s) (ptr + 8 * rv64_pte_offset va ?n)"
  have "unat (rv64_pte_offset va ?n) = sv39_vpn (unat va) ?n"
    using va Suc.prems(2) by (intro unat_rv64_pte_offset) simp_all
  then have pte: "mem (of_nat (table + 8 * sv39_vpn (unat va) ?n)) = pte"
    using Suc.prems(3) [of "rv64_pte_offset va ?n"] sv39_vpn_lt by (simp add: pte_def)
  have lt: "unat pte < 2 ^ 37" using mem pte by metis
  let ?s = "snd (rv64_config_pt_rab_slice (rv64_get_pt_addr pte) s)"
  have IH: "case fst (rv64_walk ld va level RV_PTE_BPTR ?s) of
       Inl e \<Rightarrow> e < 0 \<and> sv39 mem (unat va) level (unat pte div 2 ^ 10 * 4096) = None
     | Inr (pa, ro) \<Rightarrow> sv39 mem (unat va) level (unat pte div 2 ^ 10 * 4096) = Some (unat pa, ro)"
  proof (rule Suc.IH)
    show "rv64_ptw_wf root (l1 ?s)" using Suc.prems(1) by (rule rv64_config_pt_rab_slice_wf)
    show "level \<le> 2" using Suc.prems(2) by simp
    show "ld (l1 ?s) (RV_PTE_BPTR + 8 * idx) = mem (of_nat (unat pte div 2 ^ 10 * 4096 + 8 * unat idx))"
      if "unat idx < 512" for idx
      using ld_pte_window [OF Suc.prems(1) that] by (simp only: unat_rv64_get_pt_addr [OF lt])
  qed
  show ?case
    using IH rv64_get_page_phys_addr_cases [OF lt Suc.prems(2), of va]
    unfolding rv64_walk.simps sv39.simps rv64_get_pte_def pte_def [symmetric] pte Let_def
    by (auto simp: rv64_pte_bits errno_values case_prod_beta simp del: mult_Suc_right split: sum.splits)
qed

end

lemma rv64_walk_wf:
  assumes "rv64_ptw_wf root (l1 s)"
  shows "rv64_ptw_wf root (l1 (snd (rv64_walk ld va level ptr s)))"
  using assms
proof (induction level arbitrary: ptr s)
  case 0
  then show ?case by (simp split: sum.split prod.split)
next
  case (Suc level)
  then show ?case
    by (auto simp: case_prod_beta rv64_config_pt_rab_slice_wf split: sum.split)
qed

text \<open>The width test at the first level makes the walk blind to bits 30 and 31.\<close>

lemma rv64_walk_high_bits:
  "rv64_virt_addr_to_page_phys_addr ld va s = rv64_virt_addr_to_page_phys_addr ld (va AND mask 30) s"
proof -
  define va' where "va' = va AND mask 30"
  have off: "rv64_pte_offset va' level = rv64_pte_offset va level" for level
    unfolding va'_def rv64_pte_offset_def hw_consts push_bit_1_minus_1
    by (auto intro!: bit_word_eqI simp: bit_and_iff bit_drop_bit_eq bit_mask_iff) presburger
  have page: "rv64_get_page_phys_addr pte va' level = rv64_get_page_phys_addr pte va level"
    if "level \<le> 2" for pte level
  proof -
    have "(ucast (drop_bit 12 va') AND mask (9 * level) :: u64) =
        ucast (drop_bit 12 va) AND mask (9 * level)"
      unfolding va'_def using that by (auto intro!: bit_word_eqI simp: bit_and_iff bit_drop_bit_eq bit_mask_iff bit_ucast_iff)
    then show ?thesis
      unfolding rv64_get_page_phys_addr_def hw_consts push_bit_1_minus_1 by (simp only:)
  qed
  have "rv64_walk ld va' level ptr s = rv64_walk ld va level ptr s" if "level \<le> 2" for level ptr
    using that by (induction level arbitrary: ptr s) (simp_all add: rv64_get_pte_def off page Let_def case_prod_beta)
  then show ?thesis
    by (simp add: rv64_virt_addr_to_page_phys_addr_def RV_LEVELS_def flip: va'_def)
qed

text \<open>
  A concrete host: three tables at \<open>0x80000000\<close>, \<open>0x80001000\<close> and
  \<open>0x80002000\<close> that map the page of virtual address \<open>0x401000\<close> read-only to
  physical page \<open>0x12345\<close>.
\<close>

definition rv64_ex_mem :: "u64 \<Rightarrow> u64" where
  "rv64_ex_mem a =
     (if a = 0x80000000 then 0x80001 * 1024 + 1
      else if a = 0x80001010 then 0x80002 * 1024 + 1
      else if a = 0x80002008 then 0x12345 * 1024 + 0x13
      else 0)"

definition rv64_ex_slices :: "rab_cfg_t list" where
  "rv64_ex_slices =
     (replicate 32 (replicate 8 0))[1 := [0x20000000, 0, 0x20000FFF, 0, 0x80000000, 0, 3, 0]]"

lemma rv64_ex_wf: "rv64_ptw_wf 0x80000000 rv64_ex_slices"
proof -
  have "\<not> rab_slice_is_enabled (read_rab_cfg_val rv64_copy_phys_addr (rv64_ex_slices ! i))"
    if "i < 32" "i \<noteq> 1" for i
    using that by (simp add: rv64_ex_slices_def read_rab_cfg_val_def rab_slice_is_enabled_def hw_consts)
  moreover have "\<forall>sl \<in> set rv64_ex_slices. length sl = 8"
    by (auto simp: rv64_ex_slices_def in_set_conv_nth nth_list_update)
  moreover have "rv64_ex_slices ! 1 = [0x20000000, 0, 0x20000FFF, 0, 0x80000000, 0, 3, 0]"
    "length rv64_ex_slices = 32"
    by (simp_all add: rv64_ex_slices_def)
  ultimately show ?thesis
    by (simp add: rv64_ptw_wf_def Let_def read_rab_cfg_val_def rab_slice_is_enabled_def
        rv64_copy_phys_addr_def hw_consts)
qed

lemma rv64_ex_mem_lt: "unat (rv64_ex_mem a) < 2 ^ 37"
  by (simp add: rv64_ex_mem_def)

subsection \<open>Properties\<close>



text \<open>A walk leaves the configuration usable for the next one: it changes no slice but slice 2
  (the one reserved for page tables below the first level) and keeps the well-formedness its own
  correctness rests on.\<close>

theorem rv64_walk_keeps_slices:
  assumes "rv64_ptw_wf root (l1 s)"
  shows "rv64_ptw_wf root (l1 (snd (rv64_virt_addr_to_page_phys_addr ld va s))) \<and>
         (\<forall>i. i \<noteq> 2 \<longrightarrow> l1 (snd (rv64_virt_addr_to_page_phys_addr ld va s)) ! i = l1 s ! i)"
  using rv64_walk_wf [OF assms, of ld va 2 VMM_PGD_BPTR] rv64_walk_frame [of ld va 2 VMM_PGD_BPTR s]
  by (simp add: rv64_virt_addr_to_page_phys_addr_def RV_LEVELS_def)

theorem rv64_walk_keeps_slices_witness:
  "rv64_ptw_wf 0x80000000 (l1 (snd (rv64_virt_addr_to_page_phys_addr (rab_load rv64_ex_mem) 0x401234
      \<lparr>l1 = rv64_ex_slices, cur_mapped_pte_addr = 0\<rparr>)))"
  using rv64_walk_keeps_slices [where root = "0x80000000" and
      s = "\<lparr>l1 = rv64_ex_slices, cur_mapped_pte_addr = 0\<rparr>"] rv64_ex_wf by simp

text \<open>The walk ignores bits 30 and 31 of the virtual address (at the first level the test on the
  width of \<open>virt_addr_t\<close> always takes the zero offset): two addresses that differ only there
  get the same translation, whatever the page tables say.\<close>

theorem rv64_walk_ignores_high_bits:
  "rv64_virt_addr_to_page_phys_addr ld va s = rv64_virt_addr_to_page_phys_addr ld (va AND mask 30) s"
  by (rule rv64_walk_high_bits)

end
