(* ===== verification/Vmm.thy ===== *)
theory Vmm
  imports Ptw_Riscv64
begin

text \<open>
  The virtual memory management library of the accelerator, \<open>libvmm/src/vmm.c\<close>: mapping
  and unmapping pages in the two TLB levels of the RAB, the list of recently mapped pages, and the
  miss handling thread. Everything that depends on the host architecture is collected in a record
  \<open>vmm_arch\<close>: the layout of physical addresses, the index of the last slice the host or
  the page-table walk owns (\<open>RAB_CFG_PTE_PTR\<close>) and the walk itself. The locale
  \<open>vmm_walker\<close> states what the library relies on from a walk.

  \<open>lvl\<close> stands for the constant \<open>VMM_RAB_LVL\<close> (2 in \<open>vmm/config.h\<close>); both
  variants of the code are modelled.
\<close>

record vmm_state = ptw_state +
  l2 :: rab_l2_mem
  page_rab_cfg_ptr :: nat
  page_rab_cfg_l2_i_set :: "u8 list"
  recently_mapped_pages :: "virt_addr_t list"
  rmp_wptr :: nat
  miss_fifo :: rab_fifo
  evt_trig :: "(u32 \<times> u32) list" \<comment> \<open>writes to event unit trigger registers, oldest first\<close>

record 'p vmm_arch =
  pa_copy :: "'p pa_ops"
  pa2pfn :: "'p \<Rightarrow> u64"
  pte_slice :: nat
  walk :: "virt_addr_t \<Rightarrow> vmm_state \<Rightarrow> (int + ('p \<times> bool)) \<times> vmm_state"

text \<open>What the code reads from hardware besides the RAB registers: the identity of the core that
  runs the miss handler, whether a prefetching read hits in the RAB, and the meta-data word with
  which the RAB logs a miss of such a read.\<close>

record hw_env =
  my_cluster :: int
  my_core :: int
  probe_hit :: "vmm_state \<Rightarrow> virt_addr_t \<Rightarrow> bool"
  mht_meta :: u32

definition ARCHI_NB_PE :: nat where [hw_consts]: "ARCHI_NB_PE = 8"

definition RAB_CFG_VMM_BPTR :: "'p vmm_arch \<Rightarrow> nat" where
  "RAB_CFG_VMM_BPTR arch = pte_slice arch + 1"

definition RAB_CFG_VMM_N_SLICES :: "'p vmm_arch \<Rightarrow> nat" where
  "RAB_CFG_VMM_N_SLICES arch = RAB_L1_N_SLICES_PORT_1 - RAB_CFG_VMM_BPTR arch"

subsection \<open>Mapping\<close>

definition reset_page_rab_cfg_ptrs :: "nat \<Rightarrow> 'p vmm_arch \<Rightarrow> vmm_state \<Rightarrow> vmm_state" where
  "reset_page_rab_cfg_ptrs lvl arch s =
     (let s1 = s\<lparr>page_rab_cfg_ptr := RAB_CFG_VMM_BPTR arch\<rparr>
      in if lvl = 2 then s1\<lparr>page_rab_cfg_l2_i_set := replicate RAB_L2_N_SETS 0\<rparr> else s1)"

definition config_page_rab_entry ::
    "nat \<Rightarrow> 'p vmm_arch \<Rightarrow> virt_addr_t \<Rightarrow> 'p \<Rightarrow> bool \<Rightarrow> bool \<Rightarrow> vmm_state \<Rightarrow> int \<times> vmm_state" where
  "config_page_rab_entry lvl arch page_va page_pa page_rdonly cache_coherent s =
     (if lvl = 1 then
        let i = (if page_rab_cfg_ptr s \<ge> RAB_L1_N_SLICES_PORT_1 then RAB_CFG_VMM_BPTR arch
                 else page_rab_cfg_ptr s);
            r = config_rab_slice (pa_copy arch) page_va (page_va + PAGE_SIZE) page_pa (l1 s ! i)
                  page_rdonly cache_coherent
        in (fst r, s\<lparr>l1 := (l1 s)[i := snd r], page_rab_cfg_ptr := i + 1\<rparr>)
      else
        let vpfn = virt_addr2pfn page_va;
            ppfn = pa2pfn arch page_pa;
            i_set = page_set vpfn;
            cnt = page_rab_cfg_l2_i_set s ! unat i_set;
            i = (if unat cnt \<ge> RAB_L2_N_ENTRIES_PER_SET then 0 else cnt);
            r = config_rab_l2_entry vpfn ppfn i_set i page_rdonly cache_coherent (l2 s)
        in (fst r, s\<lparr>l2 := snd r,
              page_rab_cfg_l2_i_set := (page_rab_cfg_l2_i_set s)[unat i_set := i + 1]\<rparr>))"

definition map_page :: "nat \<Rightarrow> 'p vmm_arch \<Rightarrow> virt_addr_t \<Rightarrow> vmm_state \<Rightarrow> int \<times> vmm_state" where
  "map_page lvl arch va s =
     (case walk arch va s of
        (Inl ret, s1) \<Rightarrow> (ret, s1)
      | (Inr (page_pa, page_rdonly), s1) \<Rightarrow>
          (case config_page_rab_entry lvl arch (page_addr va) page_pa page_rdonly True s1 of
             (ret, s2) \<Rightarrow> if ret \<noteq> 0 then (ret, s2) else (0, s2)))"

text \<open>The loop of \<open>map_pages\<close> counts a 32-bit address up to \<open>last_page\<close>, inclusive;
  whether it ends is a question of its own, so its result is optional.\<close>

partial_function (option) map_pages_loop ::
    "nat \<Rightarrow> 'p vmm_arch \<Rightarrow> virt_addr_t \<Rightarrow> virt_addr_t \<Rightarrow> vmm_state \<Rightarrow> (int \<times> vmm_state) option" where
  "map_pages_loop lvl arch addr last_page s =
     (if addr \<le> last_page then
        (case map_page lvl arch addr s of
           (ret, s1) \<Rightarrow> if ret < 0 then Some (ret, s1)
                        else map_pages_loop lvl arch (addr + PAGE_SIZE) last_page s1)
      else Some (0, s))"

definition map_pages ::
    "nat \<Rightarrow> 'p vmm_arch \<Rightarrow> virt_addr_t \<Rightarrow> u32 \<Rightarrow> vmm_state \<Rightarrow> (int \<times> vmm_state) option" where
  "map_pages lvl arch virt_ptr n_bytes s =
     (let end_addr = virt_ptr + n_bytes;
          first_page = page_addr virt_ptr;
          last_page = page_addr (end_addr - 1);
          n_pages = drop_bit PAGE_SHIFT (last_page - first_page) + 1
      in if unat n_pages > RAB_CFG_VMM_N_SLICES arch then Some (- ENOMEM, s)
         else map_pages_loop lvl arch first_page last_page s)"

subsection \<open>Recently mapped pages\<close>

definition reset_recently_mapped_pages :: "vmm_state \<Rightarrow> vmm_state" where
  "reset_recently_mapped_pages s = s\<lparr>recently_mapped_pages := replicate ARCHI_NB_PE 0, rmp_wptr := 0\<rparr>"

definition page_has_recently_been_mapped :: "virt_addr_t \<Rightarrow> vmm_state \<Rightarrow> bool" where
  "page_has_recently_been_mapped page s \<longleftrightarrow> list_ex (\<lambda>p. p = page \<and> p \<noteq> 0) (recently_mapped_pages s)"

definition add_to_recently_mapped_pages :: "virt_addr_t \<Rightarrow> vmm_state \<Rightarrow> vmm_state" where
  "add_to_recently_mapped_pages page s =
     s\<lparr>recently_mapped_pages := (recently_mapped_pages s)[rmp_wptr s := page],
       rmp_wptr := (if rmp_wptr s + 1 \<ge> ARCHI_NB_PE then 0 else rmp_wptr s + 1)\<rparr>"

definition remove_from_recently_mapped_pages :: "virt_addr_t \<Rightarrow> vmm_state \<Rightarrow> vmm_state" where
  "remove_from_recently_mapped_pages page s =
     s\<lparr>recently_mapped_pages :=
         map (\<lambda>p. if p = page then 0 else p) (recently_mapped_pages s)\<rparr>"

text \<open>\<open>page_is_mapped\<close> issues a prefetching read. If it misses, the RAB logs the miss of the
  handler core itself at the end of the FIFO.\<close>

definition page_is_mapped :: "hw_env \<Rightarrow> virt_addr_t \<Rightarrow> vmm_state \<Rightarrow> bool \<times> vmm_state" where
  "page_is_mapped env page s =
     (if probe_hit env s page then (True, s)
      else (False, s\<lparr>miss_fifo := miss_fifo s @ [(mht_meta env, page)]\<rparr>))"

subsection \<open>Unmapping\<close>

fun unmap_page_loop :: "'p vmm_arch \<Rightarrow> virt_addr_t \<Rightarrow> nat list \<Rightarrow> vmm_state \<Rightarrow> int \<times> vmm_state" where
  "unmap_page_loop arch va [] s = (- ENOENT, s)"
| "unmap_page_loop arch va (i # is) s =
     (let val = read_rab_cfg_val (pa_copy arch) (l1 s ! i)
      in if rab_slice_is_enabled val \<and> rab_slice_contains_virt_addr val va then
           let r = disable_rab_slice (l1 s ! i);
               s1 = s\<lparr>l1 := (l1 s)[i := snd r]\<rparr>
           in if fst r \<noteq> 0 then (fst r, s1)
              else (0, remove_from_recently_mapped_pages (page_addr va) s1)
         else unmap_page_loop arch va is s)"

definition unmap_page :: "'p vmm_arch \<Rightarrow> virt_addr_t \<Rightarrow> vmm_state \<Rightarrow> int \<times> vmm_state" where
  "unmap_page arch va s = unmap_page_loop arch va [RAB_CFG_VMM_BPTR arch ..< RAB_L1_N_SLICES_PORT_1] s"

subsection \<open>Miss handling\<close>

definition eu_evt_trig_addr :: "nat \<Rightarrow> u32" where
  "eu_evt_trig_addr event = 0x1B204000 + 0x0100 + 0x00 + push_bit 2 (of_nat event)"

definition eu_evt_trig_cluster_addr :: "int \<Rightarrow> nat \<Rightarrow> u32" where
  "eu_evt_trig_cluster_addr cluster event =
     0x10000000 + of_int cluster * 0x00400000 + 0x00200000 + 0x00000800 + 0x0600 + 0x00
     + push_bit 2 (of_nat event)"

definition ARCHI_EVT_RAB_WAKEUP :: nat where [hw_consts]: "ARCHI_EVT_RAB_WAKEUP = 0"

definition wake_up_core :: "hw_env \<Rightarrow> int \<Rightarrow> int \<Rightarrow> vmm_state \<Rightarrow> int \<times> vmm_state" where
  "wake_up_core env cluster core s =
     (let core_mask = BIT_MASK_ONE (nat core);
          wake_up_addr = (if cluster = my_cluster env then eu_evt_trig_addr ARCHI_EVT_RAB_WAKEUP
                          else eu_evt_trig_cluster_addr cluster ARCHI_EVT_RAB_WAKEUP)
      in (0, s\<lparr>evt_trig := evt_trig s @ [(wake_up_addr, core_mask)]\<rparr>))"

text \<open>One miss of another core: the part of the loop body of \<open>handle_rab_misses\<close> that maps
  the page and wakes the core up.\<close>

definition map_missed_page ::
    "hw_env \<Rightarrow> nat \<Rightarrow> 'p vmm_arch \<Rightarrow> virt_addr_t \<Rightarrow> vmm_state \<Rightarrow> int \<times> vmm_state" where
  "map_missed_page env lvl arch miss_page s =
     (if page_has_recently_been_mapped miss_page s then (0, s)
      else (case page_is_mapped env miss_page s of
              (True, s1) \<Rightarrow> (0, s1)
            | (False, s1) \<Rightarrow>
                (case map_page lvl arch miss_page s1 of
                   (ret, s2) \<Rightarrow> if ret < 0 then (ret, s2)
                                else (0, add_to_recently_mapped_pages miss_page s2))))"

definition handle_rab_miss ::
    "hw_env \<Rightarrow> nat \<Rightarrow> 'p vmm_arch \<Rightarrow> rab_miss_t \<Rightarrow> vmm_state \<Rightarrow> int \<times> vmm_state" where
  "handle_rab_miss env lvl arch m s =
     (case map_missed_page env lvl arch (page_addr (virt_addr m)) s of
        (ret, s1) \<Rightarrow>
          if ret < 0 then (ret, s1)
          else if \<not> is_prefetch m then wake_up_core env (cluster_id m) (core_id m) s1
          else (0, s1))"

partial_function (option) handle_rab_misses_loop ::
    "hw_env \<Rightarrow> nat \<Rightarrow> 'p vmm_arch \<Rightarrow> nat \<Rightarrow> vmm_state \<Rightarrow> (int \<times> vmm_state) option" where
  "handle_rab_misses_loop env lvl arch n_misses_handled s =
     (case get_rab_miss (miss_fifo s) of
        (Inl ret, fifo) \<Rightarrow>
          Some (if ret = - ENOENT \<and> n_misses_handled > 0 then 0 else ret, s\<lparr>miss_fifo := fifo\<rparr>)
      | (Inr m, fifo) \<Rightarrow>
          if intra_cluster_id m \<noteq> 2 then Some (- EFAULT, s\<lparr>miss_fifo := fifo\<rparr>)
          else if cluster_id m = my_cluster env \<and> core_id m = my_core env
          then handle_rab_misses_loop env lvl arch n_misses_handled (s\<lparr>miss_fifo := fifo\<rparr>)
          else (case handle_rab_miss env lvl arch m (s\<lparr>miss_fifo := fifo\<rparr>) of
                  (ret, s1) \<Rightarrow> if ret < 0 then Some (ret, s1)
                               else handle_rab_misses_loop env lvl arch (n_misses_handled + 1) s1))"

definition handle_rab_misses ::
    "hw_env \<Rightarrow> nat \<Rightarrow> 'p vmm_arch \<Rightarrow> vmm_state \<Rightarrow> (int \<times> vmm_state) option" where
  "handle_rab_misses env lvl arch s = handle_rab_misses_loop env lvl arch 0 s"

definition reset_vmm :: "nat \<Rightarrow> 'p vmm_arch \<Rightarrow> vmm_state \<Rightarrow> vmm_state" where
  "reset_vmm lvl arch s = reset_page_rab_cfg_ptrs lvl arch (reset_recently_mapped_pages s)"

declare map_pages_loop.simps [code] handle_rab_misses_loop.simps [code]

subsection \<open>The RISC-V host\<close>

definition rv64_arch :: "u64 rab_ld \<Rightarrow> u64 vmm_arch" where
  "rv64_arch ld =
     \<lparr>pa_copy = rv64_copy_phys_addr, pa2pfn = rv64_phys_addr2pfn, pte_slice = RV_PTE_SLICE,
      walk = rv64_virt_addr_to_page_phys_addr ld\<rparr>"

subsection \<open>Well-formed states\<close>

definition vmm_inv :: "vmm_state \<Rightarrow> bool" where
  "vmm_inv s \<longleftrightarrow> length (page_rab_cfg_l2_i_set s) = 32
     \<and> list_all (\<lambda>c. unat c \<le> 32) (page_rab_cfg_l2_i_set s)
     \<and> length (recently_mapped_pages s) = 8 \<and> rmp_wptr s < 8"

lemma vmm_invD:
  assumes "vmm_inv s"
  shows "length (page_rab_cfg_l2_i_set s) = 32" "length (recently_mapped_pages s) = 8" "rmp_wptr s < 8"
    "i < 32 \<Longrightarrow> unat (page_rab_cfg_l2_i_set s ! i) \<le> 32"
  using assms by (auto simp: vmm_inv_def list_all_length)

lemma vmm_inv_reset: "vmm_inv (reset_vmm 2 arch s)"
  by (simp add: vmm_inv_def reset_vmm_def reset_page_rab_cfg_ptrs_def reset_recently_mapped_pages_def
      Let_def hw_consts list_all_length)

text \<open>The entry of a set that the next mapping replaces.\<close>

definition next_l2_entry :: "vmm_state \<Rightarrow> virt_addr_t \<Rightarrow> u8" where
  "next_l2_entry s va =
     (let cnt = page_rab_cfg_l2_i_set s ! unat (page_set (virt_addr2pfn va))
      in if unat cnt \<ge> 32 then 0 else cnt)"

lemma next_l2_entry_lt: "unat (next_l2_entry s va) < 32"
  by (simp add: next_l2_entry_def Let_def)

lemma config_page_rab_entry_l2:
  "config_page_rab_entry 2 arch va pa ro coh s =
     (0, s\<lparr>l2 := snd (config_rab_l2_entry (virt_addr2pfn va) (pa2pfn arch pa)
                      (page_set (virt_addr2pfn va)) (next_l2_entry s va) ro coh (l2 s)),
           page_rab_cfg_l2_i_set := (page_rab_cfg_l2_i_set s)
             [unat (page_set (virt_addr2pfn va)) := next_l2_entry s va + 1]\<rparr>)"
  by (simp add: config_page_rab_entry_def Let_def next_l2_entry_def RAB_L2_N_ENTRIES_PER_SET_def)

lemma config_page_rab_entry_l2_inv:
  assumes "vmm_inv s"
  shows "vmm_inv (snd (config_page_rab_entry 2 arch va pa ro coh s))"
proof -
  have "unat (next_l2_entry s va + 1) \<le> 32"
    using next_l2_entry_lt [of s va] by (simp add: unat_word_ariths)
  then show ?thesis
    using assms by (simp add: config_page_rab_entry_l2 vmm_inv_def list_all_update)
qed

subsection \<open>What the library relies on from a page-table walk\<close>

locale vmm_walker =
  fixes arch :: "'p vmm_arch"
    and winv :: "rab_cfg_t list \<Rightarrow> virt_addr_t \<Rightarrow> bool"
    and trans :: "virt_addr_t \<Rightarrow> ('p \<times> bool) option"
  assumes walk_result:
    "winv (l1 s) (cur_mapped_pte_addr s) \<Longrightarrow>
     (case fst (walk arch va s) of Inl e \<Rightarrow> e < 0 \<and> trans va = None | Inr x \<Rightarrow> trans va = Some x)"
  and walk_inv:
    "winv (l1 s) (cur_mapped_pte_addr s) \<Longrightarrow>
     winv (l1 (snd (walk arch va s))) (cur_mapped_pte_addr (snd (walk arch va s)))"
  and walk_frame: "ptw_state.more (snd (walk arch va s)) = ptw_state.more s"
  and trans_page: "trans (page_addr va) = trans va"
  and winv_disable:
    "winv slices c \<Longrightarrow> pte_slice arch < i \<Longrightarrow> winv (slices[i := (slices ! i)[6 := 0]]) c"
  and walk_slices: "pte_slice arch < i \<Longrightarrow> l1 (snd (walk arch va s)) ! i = l1 s ! i"
begin

abbreviation ready :: "vmm_state \<Rightarrow> bool" where
  "ready s \<equiv> winv (l1 s) (cur_mapped_pte_addr s) \<and> vmm_inv s"

text \<open>The second TLB level translates an address the way the host's page tables do.\<close>

definition served :: "vmm_state \<Rightarrow> virt_addr_t \<Rightarrow> bool" where
  "served s va \<longleftrightarrow> (case trans va of
     None \<Rightarrow> False
   | Some (pa, ro) \<Rightarrow> l2_maps (l2 s) va (ucast (pa2pfn arch pa)) (rab_flags ro True))"

lemma walk_fields:
  "l2 (snd (walk arch va s)) = l2 s"
  "page_rab_cfg_l2_i_set (snd (walk arch va s)) = page_rab_cfg_l2_i_set s"
  "recently_mapped_pages (snd (walk arch va s)) = recently_mapped_pages s"
  "rmp_wptr (snd (walk arch va s)) = rmp_wptr s"
  "miss_fifo (snd (walk arch va s)) = miss_fifo s"
  "evt_trig (snd (walk arch va s)) = evt_trig s"
  using walk_frame [of va s]
  by (cases s, cases "snd (walk arch va s)"; simp add: vmm_state.defs)+

lemma next_l2_entry_walk: "next_l2_entry (snd (walk arch va s)) p = next_l2_entry s p"
  by (simp add: next_l2_entry_def walk_fields)

lemma map_page_fail:
  assumes "ready s" "trans va = None"
  shows "fst (map_page 2 arch va s) < 0"
  using walk_result [of s va] assms
  by (cases "walk arch va s") (auto simp: map_page_def split: sum.splits prod.splits)

lemma map_page_fail_state:
  assumes "ready s" "trans va = None"
  shows "l2 (snd (map_page 2 arch va s)) = l2 s" "miss_fifo (snd (map_page 2 arch va s)) = miss_fifo s"
    "evt_trig (snd (map_page 2 arch va s)) = evt_trig s"
proof -
  have "snd (map_page 2 arch va s) = snd (walk arch va s)"
    using walk_result [of s va] assms
    by (cases "walk arch va s") (auto simp: map_page_def split: sum.splits)
  then show "l2 (snd (map_page 2 arch va s)) = l2 s"
    "miss_fifo (snd (map_page 2 arch va s)) = miss_fifo s"
    "evt_trig (snd (map_page 2 arch va s)) = evt_trig s"
    by (simp_all add: walk_fields)
qed

lemma map_page_eq:
  assumes "ready s" "trans va = Some (pa, ro)"
  shows "map_page 2 arch va s =
           config_page_rab_entry 2 arch (page_addr va) pa ro True (snd (walk arch va s))"
proof -
  have "fst (walk arch va s) = Inr (pa, ro)"
    using walk_result [of s va] assms by (auto split: sum.splits)
  then show ?thesis
    by (cases "walk arch va s") (simp add: map_page_def config_page_rab_entry_l2)
qed

lemma map_page_ready:
  assumes "ready s" "trans va = Some (pa, ro)"
  shows "ready (snd (map_page 2 arch va s))"
proof -
  have "vmm_inv (snd (walk arch va s))" using assms(1) by (simp add: vmm_inv_def walk_fields)
  then have "vmm_inv (snd (map_page 2 arch va s))"
    unfolding map_page_eq [OF assms] by (rule config_page_rab_entry_l2_inv)
  then show ?thesis
    using walk_inv [of s va] assms(1)
    by (simp add: map_page_eq [OF assms]) (simp add: config_page_rab_entry_l2)
qed

lemma map_page_ok:
  assumes "ready s" "trans va = Some (pa, ro)"
  shows "fst (map_page 2 arch va s) = 0"
    and "l2 (snd (map_page 2 arch va s)) =
           snd (config_rab_l2_entry (virt_addr2pfn va) (pa2pfn arch pa) (page_set (virt_addr2pfn va))
                  (next_l2_entry s va) ro True (l2 s))"
    and "miss_fifo (snd (map_page 2 arch va s)) = miss_fifo s"
    and "evt_trig (snd (map_page 2 arch va s)) = evt_trig s"
    and "recently_mapped_pages (snd (map_page 2 arch va s)) = recently_mapped_pages s"
    and "rmp_wptr (snd (map_page 2 arch va s)) = rmp_wptr s"
  using next_l2_entry_walk [of va s "page_addr va"]
  by (simp_all add: map_page_eq [OF assms] config_page_rab_entry_l2 walk_fields next_l2_entry_def)

lemma map_page_l1:
  assumes "ready s" "trans va = Some (pa, ro)"
  shows "l1 (snd (map_page 2 arch va s)) = l1 (snd (walk arch va s))"
  by (simp add: map_page_eq [OF assms] config_page_rab_entry_l2)

lemma map_page_hit:
  assumes "ready s" "trans va = Some (pa, ro)"
  shows "served (snd (map_page 2 arch va s)) va"
  using assms by (simp add: served_def map_page_ok config_rab_l2_entry_maps next_l2_entry_lt)

lemma map_page_keeps_hit:
  assumes "ready s" "trans va = Some (pa, ro)"
    and "page_set (virt_addr2pfn p) \<noteq> page_set (virt_addr2pfn va)"
  shows "served (snd (map_page 2 arch va s)) p = served s p"
  using assms by (auto simp: served_def map_page_ok config_rab_l2_entry_other_set next_l2_entry_lt page_set_lt split: option.split)

end

subsection \<open>Ranges of pages\<close>

definition nth_page :: "virt_addr_t \<Rightarrow> nat \<Rightarrow> virt_addr_t" where
  "nth_page addr k = addr + 4096 * of_nat k"

lemma nth_page_0 [simp]: "nth_page addr 0 = addr"
  by (simp add: nth_page_def)

lemma nth_page_Suc: "nth_page (addr + 4096) k = nth_page addr (Suc k)"
  by (simp add: nth_page_def algebra_simps)

lemma unat_nth_page:
  assumes "unat addr + 4096 * k < 2 ^ 32"
  shows "unat (nth_page addr k) = unat addr + 4096 * k"
  using assms by (simp add: nth_page_def unat_word_ariths unsigned_of_nat take_bit_nat_eq_self)

lemma unat_pfn_nth_page:
  assumes "unat addr + 4096 * k < 2 ^ 32"
  shows "unat (virt_addr2pfn (nth_page addr k)) = unat (virt_addr2pfn addr) + k"
  using assms by (simp add: unat_virt_addr2pfn unat_nth_page)

text \<open>Pages that are less than 32 pages apart live in different sets.\<close>

lemma nth_page_set_ne:
  assumes "unat addr + 4096 * k < 2 ^ 32" "0 < k" "k < 32"
  shows "page_set (virt_addr2pfn (nth_page addr k)) \<noteq> page_set (virt_addr2pfn addr)"
proof -
  have "\<not> 32 dvd k" using assms(2,3) by (auto dest: dvd_imp_le)
  then have "(unat (virt_addr2pfn addr) + k) mod 32 \<noteq> unat (virt_addr2pfn addr) mod 32"
    using mod_eq_dvd_iff_nat [of "unat (virt_addr2pfn addr)" "unat (virt_addr2pfn addr) + k" 32] by simp
  then show ?thesis by (simp add: word_eq_unat unat_page_set unat_pfn_nth_page [OF assms(1)])
qed

context vmm_walker
begin

lemma map_pages_loop_ok:
  assumes "ready s" "unat addr + 4096 * n = unat last_page + 4096" "unat last_page + 4096 < 2 ^ 32"
    and "n \<le> 32" "\<And>k. k < n \<Longrightarrow> trans (nth_page addr k) \<noteq> None"
    and "\<And>p. p \<in> P \<Longrightarrow> served s p"
    and "\<And>p k. p \<in> P \<Longrightarrow> k < n \<Longrightarrow>
           page_set (virt_addr2pfn p) \<noteq> page_set (virt_addr2pfn (nth_page addr k))"
  shows "\<exists>s'. map_pages_loop 2 arch addr last_page s = Some (0, s') \<and> ready s' \<and>
           (\<forall>p \<in> P. served s' p) \<and> (\<forall>k < n. served s' (nth_page addr k))"
  using assms
proof (induction n arbitrary: addr s P)
  case 0
  then have "\<not> addr \<le> last_page" by (simp add: word_le_nat_alt)
  with 0 show ?case by (simp add: map_pages_loop.simps)
next
  case (Suc n)
  let ?s = "snd (map_page 2 arch addr s)"
  have le: "addr \<le> last_page" using Suc.prems(2) by (simp add: word_le_nat_alt)
  have next_addr: "unat (addr + 4096) = unat addr + 4096"
    using Suc.prems(2,3) by (simp add: unat_word_ariths)
  obtain pa ro where tr: "trans addr = Some (pa, ro)"
    using Suc.prems(5) [of 0] by auto
  note ok = map_page_ok [OF Suc.prems(1) tr] and keep = map_page_keeps_hit [OF Suc.prems(1) tr]
  have "\<exists>s'. map_pages_loop 2 arch (addr + 4096) last_page ?s = Some (0, s') \<and> ready s' \<and>
      (\<forall>p \<in> insert addr P. served s' p) \<and> (\<forall>k < n. served s' (nth_page (addr + 4096) k))"
  proof (rule Suc.IH)
    show "ready ?s" by (rule map_page_ready [OF Suc.prems(1) tr])
    show "unat (addr + 4096) + 4096 * n = unat last_page + 4096" using Suc.prems(2) next_addr by simp
    show "trans (nth_page (addr + 4096) k) \<noteq> None" if "k < n" for k
      using Suc.prems(5) [of "Suc k"] that by (simp add: nth_page_Suc)
    show "served ?s p" if "p \<in> insert addr P" for p
      using that Suc.prems(6,7) [of p] keep [of p] map_page_hit [OF Suc.prems(1) tr]
      by (cases "p = addr") force+
    show "page_set (virt_addr2pfn p) \<noteq> page_set (virt_addr2pfn (nth_page (addr + 4096) k))"
      if "p \<in> insert addr P" "k < n" for p k
      using that Suc.prems(2,3,4,7) nth_page_set_ne [of addr "Suc k"] by (auto simp: nth_page_Suc)
  qed (use Suc.prems(3,4) in simp_all)
  then obtain s' where s': "map_pages_loop 2 arch (addr + 4096) last_page ?s = Some (0, s')" "ready s'"
    "\<forall>p \<in> insert addr P. served s' p" "\<forall>k < n. served s' (nth_page addr (Suc k))"
    by (auto simp: nth_page_Suc)
  have "map_pages_loop 2 arch addr last_page s = Some (0, s')"
    using le ok(1) s'(1) by (subst map_pages_loop.simps) (simp add: case_prod_beta)
  moreover have "\<forall>k < Suc n. served s' (nth_page addr k)"
    using s'(3,4) by (auto simp: less_Suc_eq_0_disj)
  ultimately show ?case using s'(2,3) by auto
qed

end

text \<open>The number of pages of a range, and the arithmetic of \<open>map_pages\<close> on it.\<close>

definition n_pages_of :: "nat \<Rightarrow> nat \<Rightarrow> nat" where
  "n_pages_of va n = (va + n - 1) div 4096 - va div 4096 + 1"

lemma map_pages_arith:
  fixes va n :: u32
  assumes "0 < unat n" "unat va + unat n \<le> 2 ^ 32 - 4096"
  shows "unat (page_addr (va + n - 1)) = (unat va + unat n - 1) div 4096 * 4096"
    and "unat (drop_bit PAGE_SHIFT (page_addr (va + n - 1) - page_addr va) + 1) =
           n_pages_of (unat va) (unat n)"
    and "unat (page_addr va) + 4096 * n_pages_of (unat va) (unat n) =
           unat (page_addr (va + n - 1)) + 4096"
proof -
  have "unat (va + n) = unat va + unat n"
    using assms(2) by (simp add: unat_word_ariths)
  then have "unat (va + n - 1) = unat va + unat n - 1"
    using assms(1) by (subst unat_sub) (simp_all add: word_le_nat_alt)
  then show last: "unat (page_addr (va + n - 1)) = (unat va + unat n - 1) div 4096 * 4096"
    by (simp only: unat_page_addr)
  have le: "unat va div 4096 \<le> (unat va + unat n - 1) div 4096"
    using assms(1) by (intro div_le_mono) simp
  then show "unat (page_addr va) + 4096 * n_pages_of (unat va) (unat n) =
      unat (page_addr (va + n - 1)) + 4096"
    unfolding last unfolding unat_page_addr n_pages_of_def by (simp add: diff_mult_distrib2)
  have "unat (page_addr (va + n - 1) - page_addr va) =
      (unat va + unat n - 1) div 4096 * 4096 - unat va div 4096 * 4096"
    using le last by (subst unat_sub) (simp_all add: word_le_nat_alt unat_page_addr)
  then have "unat (drop_bit PAGE_SHIFT (page_addr (va + n - 1) - page_addr va)) =
      (unat va + unat n - 1) div 4096 - unat va div 4096"
    by (simp add: unat_drop_bit PAGE_SHIFT_def flip: diff_mult_distrib)
  moreover have "(unat va + unat n - 1) div 4096 < 2 ^ 20"
    using assms(2) by (simp add: div_less_iff_less_mult)
  from less_imp_diff_less [OF this, of "unat va div 4096"]
  have "(unat va + unat n - 1) div 4096 - unat va div 4096 + 1 < 2 ^ 32" by simp
  ultimately show "unat (drop_bit PAGE_SHIFT (page_addr (va + n - 1) - page_addr va) + 1) =
      n_pages_of (unat va) (unat n)"
    by (simp add: unat_word_ariths n_pages_of_def)
qed

context vmm_walker
begin

lemma served_page:
  assumes "page_addr a = page_addr b"
  shows "served s a = served s b"
proof -
  have "trans a = trans b" using assms trans_page by metis
  moreover have "virt_addr2pfn a = virt_addr2pfn b" using assms by (simp only: same_page_iff)
  ultimately show ?thesis by (auto simp: served_def l2_maps_def split: option.split)
qed

lemma map_pages_ok:
  assumes "ready s" "0 < unat n" "unat va + unat n \<le> 2 ^ 32 - 4096"
    and np: "n_pages_of (unat va) (unat n) \<le> RAB_CFG_VMM_N_SLICES arch"
    and tr: "\<And>a. unat va \<le> unat a \<Longrightarrow> unat a < unat va + unat n \<Longrightarrow> trans a \<noteq> None"
  shows "\<exists>s'. map_pages 2 arch va n s = Some (0, s') \<and> ready s' \<and>
           (\<forall>a. unat va \<le> unat a \<and> unat a < unat va + unat n \<longrightarrow> served s' a)"
proof -
  define N first lst where "N = n_pages_of (unat va) (unat n)" and "first = page_addr va"
    and "lst = page_addr (va + n - 1)"
  note arith = map_pages_arith [OF assms(2,3), folded N_def first_def lst_def]
  have N32: "N \<le> 32"
    using np by (simp add: N_def RAB_CFG_VMM_N_SLICES_def RAB_CFG_VMM_BPTR_def hw_consts)
  have lst_lt: "unat lst + 4096 < 2 ^ 32"
    using arith(1) assms(2,3) div_times_less_eq_dividend [of "unat va + unat n - 1" 4096] by simp
  have first_le: "unat first \<le> unat va" by (simp add: first_def unat_page_addr)
  have page_k: "unat (nth_page first k) = unat first + 4096 * k" if "k < N" for k
    using that arith(3) lst_lt by (intro unat_nth_page) simp
  have "trans (nth_page first k) \<noteq> None" if k: "k < N" for k
  proof (cases k)
    case 0
    then show ?thesis using tr [of va] assms(2) by (simp add: first_def trans_page)
  next
    case (Suc j)
    have "unat (nth_page first k) \<le> unat lst" using page_k [OF k] k arith(3) by simp
    also have "\<dots> < unat va + unat n"
      using arith(1) assms(2) div_times_less_eq_dividend [of "unat va + unat n - 1" 4096] by simp
    finally have hi: "unat (nth_page first k) < unat va + unat n" .
    have "unat va \<le> unat first + 4096" by (simp add: first_def unat_page_addr)
    then have "unat va \<le> unat (nth_page first k)" using page_k [OF k] Suc by simp
    moreover have "page_addr (nth_page first k) = nth_page first k"
      using page_k [OF k] by (simp add: word_eq_unat unat_page_addr first_def)
    ultimately show ?thesis using tr hi by metis
  qed
  then obtain s' where s': "map_pages_loop 2 arch first lst s = Some (0, s')" "ready s'"
    "\<forall>k < N. served s' (nth_page first k)"
    using map_pages_loop_ok [OF assms(1) arith(3) lst_lt N32, of "{}"] by auto
  have "map_pages 2 arch va n s = Some (0, s')"
    using np arith(2) s'(1)
    by (simp add: map_pages_def Let_def N_def first_def lst_def)
  moreover have "served s' a" if a: "unat va \<le> unat a" "unat a < unat va + unat n" for a
  proof -
    define k where "k = unat a div 4096 - unat va div 4096"
    have va_a: "unat va div 4096 \<le> unat a div 4096" using a(1) by (rule div_le_mono)
    have "unat a div 4096 \<le> (unat va + unat n - 1) div 4096" using a(2) by (intro div_le_mono) simp
    then have "k < N" by (simp add: k_def N_def n_pages_of_def less_Suc_eq_le diff_le_mono)
    moreover from this have "unat (page_addr a) = unat (nth_page first k)"
      using page_k va_a by (simp add: unat_page_addr k_def first_def algebra_simps)
    ultimately show ?thesis
      using s'(3) served_page [of a "nth_page first k"]
      by (metis page_addr_idem word_eq_unat)
  qed
  ultimately show ?thesis using s'(2) by blast
qed

end

subsection \<open>The replacement order of the L2 entries\<close>

text \<open>
  \<open>l2_recent h s\<close>: for every set, the registers hold the 32 most recent entries of the
  history \<open>h\<close> of that set (newest first, as pairs of the words in the virtual and the
  physical address RAM), counting backwards from the replacement counter.
\<close>

definition l2_recent :: "(nat \<Rightarrow> (u32 \<times> u32) list) \<Rightarrow> vmm_state \<Rightarrow> bool" where
  "l2_recent h s \<longleftrightarrow> (\<forall>n < 32. \<forall>j < min 32 (length (h n)).
     let e = of_nat ((unat (page_rab_cfg_l2_i_set s ! n) + 31 - j) mod 32) in
     (l2 s (RAB_CFG_L2_VARAM_PTR (of_nat n) e), l2 s (RAB_CFG_L2_PARAM_PTR (of_nat n) e)) = h n ! j)"

lemma of_nat_u8_eq: "n < 256 \<Longrightarrow> of_nat n = (w :: u8) \<longleftrightarrow> n = unat w"
  using unat_of_nat_u8 by (metis word_eq_unat)

text \<open>Counting back from the slot just written reaches the slots of the older entries.\<close>

lemma fifo_slot:
  fixes i c j :: nat
  assumes i: "i = (if c \<ge> 32 then 0 else c)" and c: "c \<le> 32" and j: "j < 31"
  shows "(i + 32 - Suc j) mod 32 \<noteq> i" and "(i + 32 - Suc j) mod 32 = (c + 31 - j) mod 32"
proof -
  have i32: "i < 32" using i by simp
  show "(i + 32 - Suc j) mod 32 \<noteq> i"
  proof (cases "Suc j \<le> i")
    case True
    then have "i + 32 - Suc j = i - Suc j + 32" by simp
    then have "(i + 32 - Suc j) mod 32 = i - Suc j" using i32 by (simp only: mod_add_self2) simp
    then show ?thesis using True by simp
  next
    case False
    then have "(i + 32 - Suc j) mod 32 = i + 32 - Suc j" by simp
    then show ?thesis using j by simp
  qed
  show "(i + 32 - Suc j) mod 32 = (c + 31 - j) mod 32"
  proof (cases "c = 32")
    case True
    then have "c + 31 - j = (31 - j) + 32" "i = 0" using i j by simp_all
    then show ?thesis using j by (simp only: mod_add_self2) simp
  next
    case False
    then show ?thesis using i c by (simp add: add.commute [of 31])
  qed
qed

lemma l2_recent_step:
  fixes va :: virt_addr_t and ro coh :: bool and arch :: "'p vmm_arch" and pa :: 'p
  assumes inv: "vmm_inv s" and rec: "l2_recent h s"
  defines "n0 \<equiv> unat (page_set (virt_addr2pfn va))"
  defines "w \<equiv> (l2_varam_word (virt_addr2pfn va) (rab_flags ro coh), ucast (pa2pfn arch pa))"
  shows "l2_recent (h(n0 := w # h n0)) (snd (config_page_rab_entry 2 arch va pa ro coh s))"
proof -
  define i where "i = next_l2_entry s va"
  define c where "c = unat (page_rab_cfg_l2_i_set s ! n0)"
  have n0: "n0 < 32" by (simp add: n0_def page_set_lt)
  have i: "unat i < 32" "unat i = (if c \<ge> 32 then 0 else c)" "c \<le> 32"
    using vmm_invD(4) [OF inv n0] by (auto simp: i_def c_def n0_def next_l2_entry_def Let_def)
  have i1: "unat (i + 1) = unat i + 1" using i(1) by (simp add: unat_word_ariths)
  let ?s = "snd (config_page_rab_entry 2 arch va pa ro coh s)"
  have cnt: "page_rab_cfg_l2_i_set ?s = (page_rab_cfg_l2_i_set s)[n0 := i + 1]"
    by (simp add: config_page_rab_entry_l2 n0_def i_def)
  have regs: "(l2 ?s (RAB_CFG_L2_VARAM_PTR (of_nat n) e), l2 ?s (RAB_CFG_L2_PARAM_PTR (of_nat n) e)) =
      (if n = n0 \<and> e = i then w
       else (l2 s (RAB_CFG_L2_VARAM_PTR (of_nat n) e), l2 s (RAB_CFG_L2_PARAM_PTR (of_nat n) e)))"
    if "n < 32" "unat e < 32" for n e
    using that i(1) page_set_lt [of "virt_addr2pfn va"]
    by (auto simp: config_page_rab_entry_l2 config_rab_l2_entry_regs unat_of_nat_u8 of_nat_u8_eq
        w_def n0_def i_def [symmetric])
  show ?thesis
    unfolding l2_recent_def
  proof (intro allI impI)
    fix n j
    assume n: "n < (32::nat)" and j: "j < min 32 (length ((h(n0 := w # h n0)) n))"
    let ?e = "\<lambda>k. of_nat (k mod 32) :: u8"
    have e: "unat (?e k) = k mod 32" for k
      by (rule unat_of_nat_u8) (rule less_trans [of _ 32], simp_all)
    show "let e = of_nat ((unat (page_rab_cfg_l2_i_set ?s ! n) + 31 - j) mod 32) in
       (l2 ?s (RAB_CFG_L2_VARAM_PTR (of_nat n) e), l2 ?s (RAB_CFG_L2_PARAM_PTR (of_nat n) e)) =
       (h(n0 := w # h n0)) n ! j"
    proof (cases "n = n0")
      case False
      then show ?thesis
        using rec n j by (simp add: l2_recent_def Let_def regs [OF n] e cnt del: prod.inject)
    next
      case True
      have idx: "(unat (page_rab_cfg_l2_i_set ?s ! n) + 31 - j) mod 32 = (unat i + 32 - j) mod 32"
        using True n0 vmm_invD(1) [OF inv] by (simp add: cnt i1 add.commute [of "unat i" 32])
      show ?thesis
      proof (cases j)
        case 0
        have "?e (unat i + 32) = i" using i(1) by (simp add: word_eq_unat e)
        then show ?thesis using 0 True n regs [OF n, of i] i(1) idx by (simp add: Let_def)
      next
        case (Suc j')
        have j': "j' < 31" using j Suc by simp
        note ne = fifo_slot(1) [OF i(2,3) j', folded Suc] and same = fifo_slot(2) [OF i(2,3) j', folded Suc]
        have "?e (unat i + 32 - j) \<noteq> i" using ne e by metis
        moreover have "(l2 s (RAB_CFG_L2_VARAM_PTR (of_nat n) (?e (c + 31 - j'))),
            l2 s (RAB_CFG_L2_PARAM_PTR (of_nat n) (?e (c + 31 - j')))) = h n0 ! j'"
          using rec n j Suc True unfolding l2_recent_def Let_def by (simp add: c_def)
        ultimately show ?thesis
          using True Suc n regs [OF n, of "?e (unat i + 32 - j)"] e idx same by (simp add: Let_def)
      qed
    qed
  qed
qed

subsection \<open>Unmapping\<close>

definition vmm_slice_hit :: "'p vmm_arch \<Rightarrow> vmm_state \<Rightarrow> virt_addr_t \<Rightarrow> nat \<Rightarrow> bool" where
  "vmm_slice_hit arch s va i \<longleftrightarrow> slice_hit (pa_copy arch) (l1 s ! i) va"

lemma unmap_page_loop_eq:
  "unmap_page_loop arch va is s =
     (case find (vmm_slice_hit arch s va) is of
        None \<Rightarrow> (- ENOENT, s)
      | Some i \<Rightarrow> (0, remove_from_recently_mapped_pages (page_addr va)
                     (s\<lparr>l1 := (l1 s)[i := (l1 s ! i)[6 := 0]]\<rparr>)))"
  by (induction "is") (auto simp: vmm_slice_hit_def slice_hit_def Let_def disable_rab_slice_def)

lemma vmm_slice_hit_disabled:
  assumes "i < length (l1 s)" "length (l1 s ! i) = 8"
  shows "\<not> vmm_slice_hit arch (s\<lparr>l1 := (l1 s)[i := (l1 s ! i)[6 := 0]]\<rparr>) va i"
  using assms
  by (simp add: vmm_slice_hit_def slice_hit_def read_rab_cfg_val_def rab_slice_is_enabled_def hw_consts)

subsection \<open>Miss handling\<close>

lemma get_rab_miss_simps [simp]:
  "get_rab_miss [] = (Inl (- ENOENT), [])"
  "\<not> bit meta 31 \<Longrightarrow> get_rab_miss ((meta, va) # fifo) = (Inr (decode_rab_miss meta va), fifo)"
proof -
  have "BIT_GET w 31 1 = 0 \<longleftrightarrow> \<not> bit w 31" for w
  proof -
    have "BIT_GET w 31 1 = drop_bit 31 w AND 1" by (simp add: BIT_GET_def BIT_MASK_LSBS_def BIT_MASK_ONE_def)
    then show ?thesis by (simp add: and_one_eq bit_iff_odd_drop_bit flip: even_iff_mod_2_eq_zero)
  qed
  then show "get_rab_miss [] = (Inl (- ENOENT), [])"
    "\<not> bit meta 31 \<Longrightarrow> get_rab_miss ((meta, va) # fifo) = (Inr (decode_rab_miss meta va), fifo)"
    by (simp_all add: get_rab_miss.simps rab_fifo_meta_def BIT_MASK_ONE_def)
qed

text \<open>Entries the handler logs about itself, and entries of other cores.\<close>

definition own_miss :: "hw_env \<Rightarrow> u32 \<Rightarrow> bool" where
  "own_miss env meta \<longleftrightarrow> \<not> bit meta 31 \<and> intra_cluster_id (decode_rab_miss meta 0) = 2 \<and>
     cluster_id (decode_rab_miss meta 0) = my_cluster env \<and> core_id (decode_rab_miss meta 0) = my_core env"

definition core_miss :: "hw_env \<Rightarrow> u32 \<Rightarrow> bool" where
  "core_miss env meta \<longleftrightarrow> \<not> bit meta 31 \<and> intra_cluster_id (decode_rab_miss meta 0) = 2 \<and>
     \<not> (cluster_id (decode_rab_miss meta 0) = my_cluster env \<and>
        core_id (decode_rab_miss meta 0) = my_core env)"

lemma decode_rab_miss_ids:
  "intra_cluster_id (decode_rab_miss meta va) = intra_cluster_id (decode_rab_miss meta 0)"
  "cluster_id (decode_rab_miss meta va) = cluster_id (decode_rab_miss meta 0)"
  "core_id (decode_rab_miss meta va) = core_id (decode_rab_miss meta 0)"
  "is_prefetch (decode_rab_miss meta va) = is_prefetch (decode_rab_miss meta 0)"
  "virt_addr (decode_rab_miss meta va) = va"
  by (simp_all add: decode_rab_miss_def)

text \<open>The write to the event unit that wakes the core of a miss up.\<close>

definition wake_write :: "hw_env \<Rightarrow> u32 \<Rightarrow> u32 \<times> u32" where
  "wake_write env meta =
     (let m = decode_rab_miss meta 0 in
      (if cluster_id m = my_cluster env then eu_evt_trig_addr 0
       else eu_evt_trig_cluster_addr (cluster_id m) 0, BIT_MASK_ONE (nat (core_id m))))"

definition wake_writes :: "hw_env \<Rightarrow> rab_fifo \<Rightarrow> (u32 \<times> u32) list" where
  "wake_writes env fifo =
     map (\<lambda>(meta, va). wake_write env meta)
       (filter (\<lambda>(meta, va). \<not> is_prefetch (decode_rab_miss meta 0)) fifo)"

lemma handle_own_misses:
  assumes "list_all (\<lambda>(meta, va). own_miss env meta) (miss_fifo s)"
  shows "handle_rab_misses_loop env lvl arch n s =
           Some (if n > 0 then 0 else - ENOENT, s\<lparr>miss_fifo := []\<rparr>)"
  using assms
proof (induction "miss_fifo s" arbitrary: s)
  case Nil
  then show ?case by (subst handle_rab_misses_loop.simps) (simp flip: Nil.hyps)
next
  case (Cons e fifo)
  obtain meta va where e: "e = (meta, va)" by (cases e)
  have own: "own_miss env meta" and rest: "list_all (\<lambda>(meta, va). own_miss env meta) fifo"
    using Cons.prems by (simp_all flip: Cons.hyps(2) add: e)
  have "handle_rab_misses_loop env lvl arch n s =
      handle_rab_misses_loop env lvl arch n (s\<lparr>miss_fifo := fifo\<rparr>)"
    using own
    by (subst handle_rab_misses_loop.simps)
      (simp add: own_miss_def decode_rab_miss_ids [of meta va] e flip: Cons.hyps(2))
  also have "\<dots> = Some (if n > 0 then 0 else - ENOENT, s\<lparr>miss_fifo := []\<rparr>)"
    using Cons.hyps(1) [of "s\<lparr>miss_fifo := fifo\<rparr>"] rest by simp
  finally show ?case .
qed

context vmm_walker
begin

lemma map_missed_page_ok:
  assumes "ready s" "trans page \<noteq> None"
  shows "\<exists>s' probes. map_missed_page env 2 arch page s = (0, s') \<and> ready s' \<and>
           miss_fifo s' = miss_fifo s @ probes \<and> set probes \<subseteq> {(mht_meta env, page)} \<and>
           evt_trig s' = evt_trig s"
proof (cases "page_has_recently_been_mapped page s \<or> probe_hit env s page")
  case True
  then show ?thesis using assms(1) by (auto simp: map_missed_page_def page_is_mapped_def)
next
  case False
  obtain pa ro where tr: "trans page = Some (pa, ro)" using assms(2) by auto
  let ?s1 = "s\<lparr>miss_fifo := miss_fifo s @ [(mht_meta env, page)]\<rparr>"
  have r1: "ready ?s1" using assms(1) by (simp add: vmm_inv_def)
  let ?s2 = "snd (map_page 2 arch page ?s1)"
  note ok = map_page_ok [OF r1 tr] and r2 = map_page_ready [OF r1 tr]
  have "map_missed_page env 2 arch page s = (0, add_to_recently_mapped_pages page ?s2)"
    using False ok(1) by (simp add: map_missed_page_def page_is_mapped_def case_prod_beta)
  moreover have "ready (add_to_recently_mapped_pages page ?s2)"
    using r2 by (auto simp: vmm_inv_def add_to_recently_mapped_pages_def ARCHI_NB_PE_def)
  ultimately show ?thesis
    using ok by (auto simp: add_to_recently_mapped_pages_def)
qed

lemma handle_rab_miss_ok:
  assumes "ready s" "trans va \<noteq> None"
  shows "\<exists>s' probes. handle_rab_miss env 2 arch (decode_rab_miss meta va) s = (0, s') \<and> ready s' \<and>
           miss_fifo s' = miss_fifo s @ probes \<and> set probes \<subseteq> {(mht_meta env, page_addr va)} \<and>
           evt_trig s' = evt_trig s @ wake_writes env [(meta, va)]"
proof -
  obtain s1 probes where s1: "map_missed_page env 2 arch (page_addr va) s = (0, s1)" "ready s1"
    "miss_fifo s1 = miss_fifo s @ probes" "set probes \<subseteq> {(mht_meta env, page_addr va)}"
    "evt_trig s1 = evt_trig s"
    using map_missed_page_ok [OF assms(1), of "page_addr va" env] assms(2) trans_page [of va] by metis
  then show ?thesis
    by (auto simp: handle_rab_miss_def decode_rab_miss_ids [of meta va] wake_up_core_def
        wake_writes_def wake_write_def Let_def ARCHI_EVT_RAB_WAKEUP_def vmm_inv_def)
qed

lemma handle_rab_misses_loop_ok:
  assumes "ready s" "miss_fifo s = fifo @ own"
    and "list_all (\<lambda>(meta, va). core_miss env meta \<and> trans va \<noteq> None) fifo"
    and "list_all (\<lambda>(meta, va). own_miss env meta) own" and "own_miss env (mht_meta env)"
  shows "\<exists>s'. handle_rab_misses_loop env 2 arch n s =
                Some (if n + length fifo > 0 then 0 else - ENOENT, s') \<and>
              ready s' \<and> miss_fifo s' = [] \<and> evt_trig s' = evt_trig s @ wake_writes env fifo"
  using assms
proof (induction fifo arbitrary: s n own)
  case Nil
  then show ?case
    using handle_own_misses [of env s 2 arch n] by (auto simp: vmm_inv_def wake_writes_def)
next
  case (Cons e fifo)
  obtain meta va where e: "e = (meta, va)" by (cases e)
  let ?s0 = "s\<lparr>miss_fifo := fifo @ own\<rparr>"
  have "ready ?s0" using Cons.prems(1) by (simp add: vmm_inv_def)
  then obtain s1 probes where s1: "handle_rab_miss env 2 arch (decode_rab_miss meta va) ?s0 = (0, s1)"
    "ready s1" "miss_fifo s1 = fifo @ own @ probes" "set probes \<subseteq> {(mht_meta env, page_addr va)}"
    "evt_trig s1 = evt_trig s @ wake_writes env [(meta, va)]"
    using handle_rab_miss_ok [of ?s0 va env meta] Cons.prems(3) e by auto
  have "list_all (\<lambda>(meta, va). own_miss env meta) (own @ probes)"
    using s1(4) Cons.prems(4,5) by (auto simp: list_all_iff)
  with Cons.IH [OF s1(2,3), of "n + 1"] Cons.prems(3,5) obtain s' where s':
    "handle_rab_misses_loop env 2 arch (n + 1) s1 = Some (0, s')" "ready s'" "miss_fifo s' = []"
    "evt_trig s' = evt_trig s1 @ wake_writes env fifo"
    by auto
  have "handle_rab_misses_loop env 2 arch n s = handle_rab_misses_loop env 2 arch (n + 1) s1"
    using Cons.prems(2,3) s1(1)
    by (subst handle_rab_misses_loop.simps)
      (auto simp: e core_miss_def decode_rab_miss_ids [of meta va])
  then show ?case using s' s1(5) by (simp add: e wake_writes_def)
qed

end

subsection \<open>The library as a state machine\<close>

text \<open>
  The states in which the miss handling thread and the cores that call the library find it: the
  thread resets it at boot; then operations run in any order, and at any time between two of them
  the RAB logs further misses.
\<close>

inductive vmm_reachable :: "hw_env \<Rightarrow> 'p vmm_arch \<Rightarrow> vmm_state \<Rightarrow> vmm_state \<Rightarrow> bool"
  for env arch boot where
  vr_reset: "vmm_reachable env arch boot (reset_vmm 2 arch boot)"
| vr_map_page: "vmm_reachable env arch boot s \<Longrightarrow>
    vmm_reachable env arch boot (snd (map_page 2 arch va s))"
| vr_map_pages: "vmm_reachable env arch boot s \<Longrightarrow> map_pages 2 arch va n s = Some (ret, s') \<Longrightarrow>
    vmm_reachable env arch boot s'"
| vr_unmap_page: "vmm_reachable env arch boot s \<Longrightarrow>
    vmm_reachable env arch boot (snd (unmap_page arch va s))"
| vr_miss: "vmm_reachable env arch boot s \<Longrightarrow>
    vmm_reachable env arch boot (s\<lparr>miss_fifo := miss_fifo s @ [(meta, va)]\<rparr>)"
| vr_handle: "vmm_reachable env arch boot s \<Longrightarrow> handle_rab_misses env 2 arch s = Some (ret, s') \<Longrightarrow>
    vmm_reachable env arch boot s'"

lemma vmm_inv_fields [simp]:
  "vmm_inv (s\<lparr>l1 := x\<rparr>) = vmm_inv s"
  "vmm_inv (s\<lparr>miss_fifo := f\<rparr>) = vmm_inv s"
  "vmm_inv (s\<lparr>evt_trig := e\<rparr>) = vmm_inv s"
  "vmm_inv (remove_from_recently_mapped_pages p s) = vmm_inv s"
  "vmm_inv s \<Longrightarrow> vmm_inv (add_to_recently_mapped_pages p s)"
  by (auto simp: vmm_inv_def remove_from_recently_mapped_pages_def add_to_recently_mapped_pages_def
      hw_consts)

context vmm_walker
begin

lemma map_page_inv:
  assumes "ready s" shows "ready (snd (map_page 2 arch va s))"
proof (cases "trans va")
  case None
  have "vmm_inv (snd (walk arch va s))" using assms by (simp add: vmm_inv_def walk_fields)
  moreover have "snd (map_page 2 arch va s) = snd (walk arch va s)"
    using walk_result [of s va] assms None
    by (cases "walk arch va s") (auto simp: map_page_def split: sum.splits)
  ultimately show ?thesis using walk_inv [of s va] assms by simp
next
  case (Some x)
  then show ?thesis using map_page_ready [OF assms] by (cases x) simp
qed

end

text \<open>What every mapped page keeps, every loop of the library keeps.\<close>

lemma map_pages_loop_preserves:
  assumes "map_pages_loop lvl arch addr last_page s = Some r"
    and "\<And>va s. I s \<Longrightarrow> I (snd (map_page lvl arch va s))" and "I s"
  shows "I (snd r)"
  using assms
proof (induction rule: map_pages_loop.raw_induct [rotated, consumes 1, case_names step])
  case (step f lvl arch addr last_page s r)
  let ?s = "snd (map_page lvl arch addr s)"
  show ?case
  proof (cases "addr \<le> last_page \<and> \<not> fst (map_page lvl arch addr s) < 0")
    case True
    then have "f lvl arch (addr + PAGE_SIZE) last_page ?s = Some r"
      using step(2) by (simp add: case_prod_beta)
    from step(1) [OF this step(3) step(3) [OF step(4)]] show ?thesis by simp
  next
    case False
    then have "snd r = s \<or> snd r = ?s"
      using step(2) by (cases "addr \<le> last_page") (simp_all add: case_prod_beta, auto)
    then show ?thesis using step(4) step(3) [OF step(4)] by auto
  qed
qed

lemma handle_rab_misses_loop_preserves:
  assumes "handle_rab_misses_loop env lvl arch n s = Some r"
    and "\<And>m s. I s \<Longrightarrow> I (snd (handle_rab_miss env lvl arch m s))"
    and "\<And>f s. I s \<Longrightarrow> I (s\<lparr>miss_fifo := f\<rparr>)" and "I s"
  shows "I (snd r)"
  using assms
proof (induction rule: handle_rab_misses_loop.raw_induct [rotated, consumes 1, case_names step])
  case (step f env lvl arch n s r)
  obtain res fifo where g: "get_rab_miss (miss_fifo s) = (res, fifo)" by (rule prod.exhaust)
  let ?s = "s\<lparr>miss_fifo := fifo\<rparr>"
  from step(2) g consider "snd r = ?s" | "f env lvl arch n ?s = Some r"
    | m where "r = handle_rab_miss env lvl arch m ?s"
    | m where "f env lvl arch (n + 1) (snd (handle_rab_miss env lvl arch m ?s)) = Some r"
    by (auto simp: case_prod_beta split: if_splits sum.splits)
  then show ?case using step(1) [OF _ step(3,4)] step(3-5) by cases auto
qed

lemma recently_mapped_frame [simp]:
  "l1 (add_to_recently_mapped_pages p s) = l1 s"
  "cur_mapped_pte_addr (add_to_recently_mapped_pages p s) = cur_mapped_pte_addr s"
  "l1 (remove_from_recently_mapped_pages p s) = l1 s"
  "cur_mapped_pte_addr (remove_from_recently_mapped_pages p s) = cur_mapped_pte_addr s"
  by (simp_all add: add_to_recently_mapped_pages_def remove_from_recently_mapped_pages_def)

context vmm_walker
begin

lemma handle_rab_miss_inv:
  assumes "ready s" shows "ready (snd (handle_rab_miss env 2 arch m s))"
proof -
  let ?p = "page_addr (virt_addr m)"
  have "ready (snd (page_is_mapped env ?p s))" using assms by (simp add: page_is_mapped_def)
  then have "ready (snd (map_missed_page env 2 arch ?p s))"
    using assms map_page_inv [of "snd (page_is_mapped env ?p s)" ?p]
    by (auto simp: map_missed_page_def case_prod_beta split: bool.split)
  then show ?thesis
    by (simp add: handle_rab_miss_def case_prod_beta wake_up_core_def Let_def)
qed

lemma unmap_page_inv:
  assumes "ready s" shows "ready (snd (unmap_page arch va s))"
  using assms
  by (auto simp: unmap_page_def unmap_page_loop_eq RAB_CFG_VMM_BPTR_def find_Some_iff
      intro: winv_disable split: option.split)

lemma reachable_ready:
  assumes "vmm_reachable env arch boot s" "winv (l1 boot) (cur_mapped_pte_addr boot)"
  shows "ready s"
  using assms
proof induction
  case vr_reset
  then show ?case
    using vmm_inv_reset [of arch boot]
    by (simp add: reset_vmm_def reset_page_rab_cfg_ptrs_def reset_recently_mapped_pages_def Let_def)
next
  case (vr_map_pages s va n ret s')
  then show ?case
    using map_pages_loop_preserves [of 2 arch _ _ s "(ret, s')" ready] map_page_inv
    by (auto simp: map_pages_def Let_def split: if_splits)
next
  case (vr_handle s ret s')
  then show ?case
    using handle_rab_misses_loop_preserves [of env 2 arch 0 s "(ret, s')" ready] handle_rab_miss_inv
    by (simp add: handle_rab_misses_def)
qed (simp_all add: map_page_inv unmap_page_inv)

end

subsection \<open>Histories of mappings and the last page of the address space\<close>

definition l2_word :: "'p vmm_arch \<Rightarrow> virt_addr_t \<times> 'p \<times> bool \<Rightarrow> u32 \<times> u32" where
  "l2_word arch = (\<lambda>(va, pa, ro).
     (l2_varam_word (virt_addr2pfn va) (rab_flags ro True), ucast (pa2pfn arch pa)))"

text \<open>The entries that a list of mappings (oldest first) makes in a set, newest first.\<close>

definition l2_history :: "'p vmm_arch \<Rightarrow> (virt_addr_t \<times> 'p \<times> bool) list \<Rightarrow> nat \<Rightarrow> (u32 \<times> u32) list" where
  "l2_history arch reqs n =
     map (l2_word arch) (rev (filter (\<lambda>(va, _). unat (page_set (virt_addr2pfn va)) = n) reqs))"

definition config_all :: "'p vmm_arch \<Rightarrow> (virt_addr_t \<times> 'p \<times> bool) list \<Rightarrow> vmm_state \<Rightarrow> vmm_state" where
  "config_all arch = fold (\<lambda>(va, pa, ro) s. snd (config_page_rab_entry 2 arch va pa ro True s))"

lemma config_all_inv: "vmm_inv s \<Longrightarrow> vmm_inv (config_all arch reqs s)"
  by (induction reqs arbitrary: s) (auto simp: config_all_def config_page_rab_entry_l2_inv)

lemma config_all_recent: "l2_recent (l2_history arch reqs) (config_all arch reqs (reset_vmm 2 arch s))"
proof (induction reqs rule: rev_induct)
  case Nil
  show ?case by (simp add: l2_recent_def l2_history_def)
next
  case (snoc r reqs)
  obtain va pa ro where r: "r = (va, pa, ro)" by (cases r)
  let ?n = "unat (page_set (virt_addr2pfn va))"
  have hist: "l2_history arch (reqs @ [r]) =
      (l2_history arch reqs)(?n := l2_word arch r # l2_history arch reqs ?n)"
    by (auto simp: l2_history_def r fun_eq_iff)
  have conf: "config_all arch (reqs @ [r]) s0 =
      snd (config_page_rab_entry 2 arch va pa ro True (config_all arch reqs s0))" for s0
    by (simp add: config_all_def r)
  show ?case
    unfolding hist conf
    using l2_recent_step [OF config_all_inv [OF vmm_inv_reset] snoc.IH,
      where va = va and pa = pa and ro = ro and coh = True and arch = arch]
    by (simp only: r l2_word_def prod.case)
qed

lemma page_addr_step: "page_addr a = a \<Longrightarrow> page_addr (a + 4096) = a + 4096"
proof -
  assume "page_addr a = a"
  then have "4096 dvd unat a" using unat_page_addr [of a] by (metis dvd_triv_right)
  then have "4096 dvd unat (a + 4096)" by (simp add: unat_word_ariths dvd_mod)
  then show ?thesis by (simp add: word_eq_unat unat_page_addr)
qed

lemma page_addr_le_top: "page_addr a = a \<Longrightarrow> a \<le> 0xFFFFF000"
  using unat_page_addr [of a] virt_addr2pfn_lt [of a]
  by (simp add: word_le_nat_alt unat_virt_addr2pfn)

text \<open>Counting up to the last page of the address space, the loop never finds an address above it.\<close>

lemma map_pages_loop_top:
  assumes "map_pages_loop lvl arch addr last_page s = Some r"
    and "last_page = 0xFFFFF000" and "page_addr addr = addr"
  shows "fst r < 0"
  using assms
proof (induction rule: map_pages_loop.raw_induct [rotated, consumes 1, case_names step])
  case (step f lvl arch addr last_page s r)
  let ?s = "snd (map_page lvl arch addr s)"
  have le: "addr \<le> last_page" using step(3,4) page_addr_le_top by simp
  show ?case
  proof (cases "fst (map_page lvl arch addr s) < 0")
    case True
    then have "r = map_page lvl arch addr s"
      using step(2) le by (simp add: case_prod_beta)
    then show ?thesis using True by simp
  next
    case False
    then have "f lvl arch (addr + 4096) last_page ?s = Some r"
      using step(2) le by (simp add: case_prod_beta)
    from step(1) [OF this step(3) page_addr_step [OF step(4)]] show ?thesis .
  qed
qed

end
