(* ===== verification/Vmm_Riscv64.thy ===== *)
theory Vmm_Riscv64
  imports Vmm
begin

text \<open>
  The virtual memory management library on a RISC-V host: the walk of \<open>Ptw_Riscv64\<close>
  fulfils the contract \<open>vmm_walker\<close> for every RAB that satisfies \<open>rab_hw\<close> and all
  page tables with 27-bit page numbers (locale \<open>rv64_host\<close>), and the properties of the
  library's operations over the model's own definitions.
\<close>

definition rv64_trans :: "(u64 \<Rightarrow> u64) \<Rightarrow> nat \<Rightarrow> virt_addr_t \<Rightarrow> (u64 \<times> bool) option" where
  "rv64_trans mem root va =
     map_option (\<lambda>(pa, ro). (of_nat pa, ro)) (sv39 mem (unat va mod 2 ^ 30) 2 root)"

lemma sv39_page:
  "sv39 mem (va div 4096 * 4096) level table = sv39 mem va level table"
proof (induction level arbitrary: table)
  case 0
  have "sv39_vpn (va div 4096 * 4096) 0 = sv39_vpn va 0" by (simp add: sv39_vpn_def)
  then show ?case by simp
next
  case (Suc level)
  have "sv39_vpn (va div 4096 * 4096) l = sv39_vpn va l" for l
    by (simp add: sv39_vpn_def power_add div_mult2_eq)
  then show ?case using Suc by (simp add: Let_def)
qed

lemma rv64_trans_page: "rv64_trans mem root (page_addr va) = rv64_trans mem root va"
proof -
  have "unat (page_addr va) mod 2 ^ 30 = (unat va mod 2 ^ 30) div 4096 * 4096"
    unfolding unat_page_addr using mod_mult2_eq [of "unat va" 4096 "2 ^ 18"]
    by (simp add: mod_mult_mult2 [of "unat va div 4096" 4096 "2 ^ 18", simplified])
  then show ?thesis by (simp only: rv64_trans_def sv39_page)
qed

text \<open>Disabling a slice that neither the host nor the walk owns does not affect the walk.\<close>

lemma rv64_ptw_wf_disable:
  assumes wf: "rv64_ptw_wf root slices" and i: "2 < i"
  shows "rv64_ptw_wf root (slices[i := (slices ! i)[6 := 0]])"
proof (cases "i < 32")
  case False
  then show ?thesis using wf by (simp add: rv64_ptw_wf_def list_update_beyond)
next
  case True
  have len: "length slices = 32" "\<forall>sl \<in> set slices. length sl = 8"
    using wf by (simp_all add: rv64_ptw_wf_def)
  then have off: "\<not> rab_slice_is_enabled (read_rab_cfg_val rv64_copy_phys_addr ((slices ! i)[6 := 0]))"
    using disabled_slice_not_enabled [of "slices ! i"] True by (simp add: disable_rab_slice_def)
  have "\<forall>sl \<in> set (slices[i := (slices ! i)[6 := 0]]). length sl = 8"
    using len True set_update_subset_insert [of slices i "(slices ! i)[6 := 0]"] by auto
  then show ?thesis
    using wf i off True unfolding rv64_ptw_wf_def Let_def by (auto simp: nth_list_update)
qed

locale rv64_host = rab_hw +
  fixes root :: nat
  assumes mem_lt: "unat (mem a) < 2 ^ 37"
begin

lemma rv64_walk_trans:
  assumes "rv64_ptw_wf root (l1 s)"
  shows "case fst (rv64_virt_addr_to_page_phys_addr ld va s) of
      Inl e \<Rightarrow> e < 0 \<and> rv64_trans mem root va = None
    | Inr x \<Rightarrow> rv64_trans mem root va = Some x"
proof -
  define va' where "va' = va AND mask 30"
  have va': "unat va' = unat va mod 2 ^ 30" by (simp only: va'_def unat_and_mask)
  have eq: "rv64_virt_addr_to_page_phys_addr ld va s = rv64_walk ld va' 2 VMM_PGD_BPTR s"
    using rv64_walk_high_bits [of ld va s]
    by (simp only: va'_def rv64_virt_addr_to_page_phys_addr_def RV_LEVELS_def) simp
  have "case fst (rv64_walk ld va' 2 VMM_PGD_BPTR s) of
      Inl e \<Rightarrow> e < 0 \<and> sv39 mem (unat va') 2 root = None
    | Inr (pa, ro) \<Rightarrow> sv39 mem (unat va') 2 root = Some (unat pa, ro)"
    using assms mem_lt va' ld_pgd_window by (intro rv64_walk_sv39) auto
  then show ?thesis
    unfolding eq by (auto simp: rv64_trans_def va' split: sum.splits)
qed

end

sublocale rv64_host \<subseteq> vm: vmm_walker "rv64_arch ld" "\<lambda>slices _. rv64_ptw_wf root slices" "rv64_trans mem root"
proof unfold_locales
  fix s :: vmm_state and va i
  assume wf: "rv64_ptw_wf root (l1 s)"
  show "case fst (walk (rv64_arch ld) va s) of
      Inl e \<Rightarrow> e < 0 \<and> rv64_trans mem root va = None | Inr x \<Rightarrow> rv64_trans mem root va = Some x"
    using rv64_walk_trans [OF wf] by (simp add: rv64_arch_def)
  show "rv64_ptw_wf root (l1 (snd (walk (rv64_arch ld) va s)))"
    using rv64_walk_wf [OF wf] by (simp add: rv64_arch_def rv64_virt_addr_to_page_phys_addr_def)
next
  fix s :: vmm_state and va i
  show "rv64_trans mem root (page_addr va) = rv64_trans mem root va" by (rule rv64_trans_page)
  show "rv64_ptw_wf root (slices[i := (slices ! i)[6 := 0]])"
    if "rv64_ptw_wf root slices" "pte_slice (rv64_arch ld) < i" for slices
    using that rv64_ptw_wf_disable by (simp add: rv64_arch_def RV_PTE_SLICE_eq)
  show "ptw_state.more (snd (walk (rv64_arch ld) va s)) = ptw_state.more s"
    using rv64_walk_frame [of ld va "RV_LEVELS - 1" VMM_PGD_BPTR s]
    by (simp add: rv64_arch_def rv64_virt_addr_to_page_phys_addr_def)
  show "l1 (snd (walk (rv64_arch ld) va s)) ! i = l1 s ! i" if "pte_slice (rv64_arch ld) < i"
    using rv64_walk_frame [of ld va "RV_LEVELS - 1" VMM_PGD_BPTR s] that
    by (simp add: rv64_arch_def rv64_virt_addr_to_page_phys_addr_def RV_PTE_SLICE_eq)
qed

text \<open>Every memory whose entries are cut to the 37 bits the walk keeps is such a host.\<close>

interpretation rv64_ram: rv64_host "rab_load (\<lambda>a. mem a AND mask 37)" "\<lambda>a. mem a AND mask 37" root
  for mem root
  by unfold_locales (simp only: unat_and_mask, simp)

definition rv64_served :: "(u64 \<Rightarrow> u64) \<Rightarrow> nat \<Rightarrow> vmm_state \<Rightarrow> virt_addr_t \<Rightarrow> bool" where
  "rv64_served mem root s va \<longleftrightarrow> (case rv64_trans mem root va of
     None \<Rightarrow> False
   | Some (pa, ro) \<Rightarrow> l2_maps (l2 s) va (ucast (rv64_phys_addr2pfn pa)) (rab_flags ro True))"

context rv64_host
begin

lemma served_eq: "vm.served s va = rv64_served mem root s va"
  unfolding vm.served_def rv64_served_def by (simp add: rv64_arch_def split: option.split)

lemma n_slices: "RAB_CFG_VMM_N_SLICES (rv64_arch ld) = 29"
  by (simp add: RAB_CFG_VMM_N_SLICES_def RAB_CFG_VMM_BPTR_def rv64_arch_def hw_consts)

lemmas vmm_map_pages_ok = vm.map_pages_ok [unfolded n_slices served_eq]
lemmas vmm_map_page_fail = vm.map_page_fail
lemmas vmm_map_page_fail_state = vm.map_page_fail_state
lemmas vmm_map_page_ok = vm.map_page_ok
lemmas vmm_map_page_hit = vm.map_page_hit [unfolded served_eq]
lemmas vmm_map_page_keeps = vm.map_page_keeps_hit [unfolded served_eq]
lemmas vmm_map_page_inv = vm.map_page_inv
lemmas vmm_map_page_l1 = vm.map_page_l1
lemmas vmm_handle_ok = vm.handle_rab_misses_loop_ok
lemmas vmm_reachable_ready = vm.reachable_ready

end

text \<open>The host of the examples, just after boot of the accelerator's runtime.\<close>

definition rv64_ex_env :: hw_env where
  "rv64_ex_env = \<lparr>my_cluster = 0, my_core = 7, probe_hit = (\<lambda>_ _. False), mht_meta = 0x27\<rparr>"

definition rv64_ex_boot :: vmm_state where
  "rv64_ex_boot = \<lparr>l1 = rv64_ex_slices, cur_mapped_pte_addr = 0, l2 = (\<lambda>_. 0), page_rab_cfg_ptr = 0,
     page_rab_cfg_l2_i_set = [], recently_mapped_pages = [], rmp_wptr = 0, miss_fifo = [],
     evt_trig = []\<rparr>"

definition rv64_ex_state :: vmm_state where
  "rv64_ex_state = reset_vmm 2 (rv64_arch (rab_load rv64_ex_mem)) rv64_ex_boot"

lemma rv64_ex_host: "rv64_host (rab_load rv64_ex_mem) rv64_ex_mem"
  by unfold_locales (rule rv64_ex_mem_lt)

lemma rv64_ex_state_ok: "rv64_ptw_wf 0x80000000 (l1 rv64_ex_state)" "vmm_inv rv64_ex_state"
proof -
  have "l1 rv64_ex_state = rv64_ex_slices"
    by (simp add: rv64_ex_state_def rv64_ex_boot_def reset_vmm_def reset_page_rab_cfg_ptrs_def
        reset_recently_mapped_pages_def Let_def)
  then show "rv64_ptw_wf 0x80000000 (l1 rv64_ex_state)" using rv64_ex_wf by simp
  show "vmm_inv rv64_ex_state" unfolding rv64_ex_state_def by (rule vmm_inv_reset)
qed

lemma rv64_ex_trans:
  assumes "0x401000 \<le> unat a" "unat a < 0x402000"
  shows "rv64_trans rv64_ex_mem 0x80000000 a = Some (0x12345000, True)"
proof -
  let ?s = "\<lparr>l1 = rv64_ex_slices, cur_mapped_pte_addr = 0\<rparr>"
  have run: "fst (rv64_virt_addr_to_page_phys_addr (rab_load rv64_ex_mem) 0x401000 ?s) =
      Inr (0x12345000, True)"
    by code_simp
  have "unat a div 4096 = 0x401" using assms by (intro div_nat_eqI) simp_all
  then have "page_addr a = 0x401000" by (simp add: word_eq_unat unat_page_addr)
  then have "rv64_trans rv64_ex_mem 0x80000000 a = rv64_trans rv64_ex_mem 0x80000000 0x401000"
    using rv64_trans_page [of rv64_ex_mem _ a] by metis
  then show ?thesis
    using rv64_host.rv64_walk_trans [OF rv64_ex_host, of "0x80000000" ?s "0x401000"] rv64_ex_wf run
    by simp
qed

subsection \<open>Properties\<close>



text \<open>\<open>map_page\<close> on a RISC-V host. Where the page tables do not map the address for the
  user, it returns a negative errno and the second TLB level is as before. Where they do, it returns
  0, the TLB translates the address as the page tables do, and what it translates for pages of other
  sets is unchanged. Either way no miss is consumed and no core is woken up.\<close>

theorem rv64_map_page_spec:
  assumes "rv64_host ld mem" and "rv64_ptw_wf root (l1 s)" and "vmm_inv s"
  shows "case map_page 2 (rv64_arch ld) va s of (ret, s') \<Rightarrow>
     (if rv64_trans mem root va = None then ret < 0 \<and> l2 s' = l2 s
      else ret = 0 \<and> rv64_served mem root s' va \<and>
        (\<forall>p. page_set (virt_addr2pfn p) \<noteq> page_set (virt_addr2pfn va) \<longrightarrow>
             rv64_served mem root s' p = rv64_served mem root s p)) \<and>
     miss_fifo s' = miss_fifo s \<and> evt_trig s' = evt_trig s \<and> rv64_ptw_wf root (l1 s') \<and> vmm_inv s'"
proof (cases "rv64_trans mem root va")
  case None
  then show ?thesis
    using rv64_host.vmm_map_page_fail [OF assms(1), of root s va]
      rv64_host.vmm_map_page_fail_state [OF assms(1), of root s va]
      rv64_host.vmm_map_page_inv [OF assms(1), of root s va] assms(2,3)
    by (simp add: case_prod_beta)
next
  case (Some x)
  obtain pa ro where x: "x = (pa, ro)" by (cases x)
  note facts = rv64_host.vmm_map_page_ok [OF assms(1), of root s va pa ro]
    rv64_host.vmm_map_page_hit [OF assms(1), of root s va pa ro]
    rv64_host.vmm_map_page_keeps [OF assms(1), of root s va pa ro]
    rv64_host.vmm_map_page_inv [OF assms(1), of root s va]
  show ?thesis using facts Some x assms(2,3) by (simp add: case_prod_beta)
qed

theorem rv64_map_page_spec_witness:
  "fst (map_page 2 (rv64_arch (rab_load rv64_ex_mem)) 0x401010 rv64_ex_state) = 0"
  using rv64_map_page_spec [of "rab_load rv64_ex_mem" rv64_ex_mem "0x80000000" rv64_ex_state "0x401010"]
    rv64_ex_host rv64_ex_state_ok rv64_ex_trans [of "0x401010"]
  by (simp add: case_prod_beta)

text \<open>C18: Whatever order the operations of the library run in after its reset, with misses arriving
  between them, the invariant holds: one replacement counter per set, each at most 32, a valid write
  position in the list of recently mapped pages, and slices on which the next page-table walk can
  rely.\<close>

theorem rv64_vmm_reachable_inv:
  assumes "rv64_host ld mem" and "rv64_ptw_wf root (l1 boot)"
    and "vmm_reachable env (rv64_arch ld) boot s"
  shows "rv64_ptw_wf root (l1 s) \<and> vmm_inv s"
  using rv64_host.vmm_reachable_ready [OF assms(1,3)] assms(2) by blast

theorem rv64_vmm_reachable_inv_witness:
  "vmm_inv (snd (map_page 2 (rv64_arch (rab_load rv64_ex_mem)) 0x401010 rv64_ex_state))"
proof -
  have "l1 rv64_ex_boot = rv64_ex_slices" by (simp add: rv64_ex_boot_def)
  moreover have "vmm_reachable rv64_ex_env (rv64_arch (rab_load rv64_ex_mem)) rv64_ex_boot
      (snd (map_page 2 (rv64_arch (rab_load rv64_ex_mem)) 0x401010 rv64_ex_state))"
    unfolding rv64_ex_state_def by (intro vmm_reachable.intros)
  ultimately show ?thesis
    using rv64_vmm_reachable_inv [OF rv64_ex_host, of "0x80000000" rv64_ex_boot] rv64_ex_wf by simp
qed



text \<open>The second TLB level is filled in FIFO order: after a reset and any sequence of mappings,
  the registers of every set hold its (up to) 32 most recent mappings, the newest just below the
  replacement counter, each with the virtual page, the flags and the page frame it was made with.\<close>

theorem l2_replacement_is_fifo:
  "l2_recent (l2_history arch reqs) (config_all arch reqs (reset_vmm 2 arch s))"
  by (rule config_all_recent)

text \<open>\<open>unmap_page\<close> looks for the first slice of the library that is enabled and contains the
  address. Without one it returns \<open>-ENOENT\<close> and changes nothing. Otherwise it returns 0,
  exactly that slice stops translating, for every address, and the page is no longer in the list of
  recently mapped pages.\<close>

theorem unmap_page_spec:
  assumes "length (l1 s) = 32" and "\<forall>sl \<in> set (l1 s). length sl = 8"
  shows "case find (vmm_slice_hit arch s va) [RAB_CFG_VMM_BPTR arch ..< RAB_L1_N_SLICES_PORT_1] of
      None \<Rightarrow> unmap_page arch va s = (- ENOENT, s)
    | Some i \<Rightarrow> fst (unmap_page arch va s) = 0 \<and>
        (\<forall>va' j. vmm_slice_hit arch (snd (unmap_page arch va s)) va' j \<longleftrightarrow>
                 j \<noteq> i \<and> vmm_slice_hit arch s va' j) \<and>
        \<not> page_has_recently_been_mapped (page_addr va) (snd (unmap_page arch va s))"
proof (cases "find (vmm_slice_hit arch s va) [RAB_CFG_VMM_BPTR arch ..< RAB_L1_N_SLICES_PORT_1]")
  case None
  then show ?thesis by (simp add: unmap_page_def unmap_page_loop_eq)
next
  case (Some i)
  let ?s = "s\<lparr>l1 := (l1 s)[i := (l1 s ! i)[6 := 0]]\<rparr>"
  have "i < 32" using Some by (auto simp: find_Some_iff RAB_L1_N_SLICES_PORT_1_def)
  then have off: "\<not> vmm_slice_hit arch ?s va' i" for va'
    using assms by (intro vmm_slice_hit_disabled) simp_all
  have other: "vmm_slice_hit arch ?s va' j = vmm_slice_hit arch s va' j" if "j \<noteq> i" for va' j
    using that by (simp add: vmm_slice_hit_def)
  have hit: "vmm_slice_hit arch (remove_from_recently_mapped_pages p x) va' j = vmm_slice_hit arch x va' j"
    for p x va' j by (simp add: vmm_slice_hit_def)
  have gone: "\<not> page_has_recently_been_mapped p (remove_from_recently_mapped_pages p x)" for p x
    by (auto simp: page_has_recently_been_mapped_def remove_from_recently_mapped_pages_def list_ex_iff)
  have res: "unmap_page arch va s = (0, remove_from_recently_mapped_pages (page_addr va) ?s)"
    using Some by (simp add: unmap_page_def unmap_page_loop_eq)
  have "vmm_slice_hit arch ?s va' j \<longleftrightarrow> j \<noteq> i \<and> vmm_slice_hit arch s va' j" for va' j
    using off other by (cases "j = i") simp_all
  then show ?thesis by (simp add: Some res hit gone)
qed

theorem unmap_page_spec_witness:
  "unmap_page (rv64_arch (rab_load rv64_ex_mem)) 0x401010 rv64_ex_boot = (- 2, rv64_ex_boot)"
proof -
  have "find (vmm_slice_hit (rv64_arch (rab_load rv64_ex_mem)) rv64_ex_boot 0x401010)
      [RAB_CFG_VMM_BPTR (rv64_arch (rab_load rv64_ex_mem)) ..< RAB_L1_N_SLICES_PORT_1] = None"
    by code_simp
  then show ?thesis
    using unmap_page_spec [of rv64_ex_boot "rv64_arch (rab_load rv64_ex_mem)" "0x401010"] rv64_ex_wf
    by (simp add: rv64_ptw_wf_def rv64_ex_boot_def ENOENT_def)
qed

text \<open>With the configuration the library is built with (\<open>VMM_RAB_LVL\<close> 2), a page mapped by
  \<open>map_page\<close> cannot be unmapped: \<open>unmap_page\<close> searches the slices of the first level only
  and returns \<open>-ENOENT\<close>, and the second level goes on translating the page.\<close>

theorem rv64_unmap_page_misses_level_2:
  assumes "rv64_host ld mem" and "rv64_ptw_wf root (l1 s)" and "vmm_inv s"
    and "rv64_trans mem root va \<noteq> None"
    and "\<forall>i \<in> {3 ..< 32}. \<not> vmm_slice_hit (rv64_arch ld) s va i"
  shows "fst (map_page 2 (rv64_arch ld) va s) = 0 \<and>
    unmap_page (rv64_arch ld) va (snd (map_page 2 (rv64_arch ld) va s)) =
      (- ENOENT, snd (map_page 2 (rv64_arch ld) va s)) \<and>
    rv64_served mem root (snd (map_page 2 (rv64_arch ld) va s)) va"
proof -
  obtain pa ro where tr: "rv64_trans mem root va = Some (pa, ro)" using assms(4) by auto
  let ?s = "snd (map_page 2 (rv64_arch ld) va s)"
  have "l1 ?s ! i = l1 s ! i" if "2 < i" for i
    using rv64_host.vmm_map_page_l1 [OF assms(1), of root s va pa ro] assms(2,3) tr that
      rv64_walk_frame [of ld va "RV_LEVELS - 1" VMM_PGD_BPTR s]
    by (simp add: rv64_arch_def rv64_virt_addr_to_page_phys_addr_def)
  then have "\<not> vmm_slice_hit (rv64_arch ld) ?s va i" if "i \<in> {3 ..< 32}" for i
    using assms(5) that by (simp add: vmm_slice_hit_def)
  then have "find (vmm_slice_hit (rv64_arch ld) ?s va) [3 ..< 32] = None"
    by (simp add: find_None_iff)
  moreover have "RAB_CFG_VMM_BPTR (rv64_arch ld) = 3"
    by (simp add: RAB_CFG_VMM_BPTR_def rv64_arch_def RV_PTE_SLICE_eq)
  ultimately show ?thesis
    using rv64_host.vmm_map_page_ok(1) [OF assms(1), of root s va pa ro]
      rv64_host.vmm_map_page_hit [OF assms(1), of root s va pa ro] assms(2,3) tr
    by (simp add: unmap_page_def unmap_page_loop_eq RAB_L1_N_SLICES_PORT_1_def)
qed

theorem rv64_unmap_page_misses_level_2_witness:
  "fst (unmap_page (rv64_arch (rab_load rv64_ex_mem)) 0x401010
      (snd (map_page 2 (rv64_arch (rab_load rv64_ex_mem)) 0x401010 rv64_ex_state))) = - 2"
proof -
  have "list_all (\<lambda>i. \<not> vmm_slice_hit (rv64_arch (rab_load rv64_ex_mem)) rv64_ex_state 0x401010 i) [3 ..< 32]"
    by code_simp
  then have "\<forall>i \<in> {3 ..< 32}. \<not> vmm_slice_hit (rv64_arch (rab_load rv64_ex_mem)) rv64_ex_state 0x401010 i"
    by (simp only: list_all_iff set_upt)
  then show ?thesis
    using rv64_unmap_page_misses_level_2 [OF rv64_ex_host rv64_ex_state_ok, of "0x401010"]
      rv64_ex_trans [of "0x401010"] by (simp add: ENOENT_def)
qed

text \<open>\<open>map_pages\<close> never succeeds for a range that ends in the last page of the 32-bit address
  space: its loop counts a page address up to and including \<open>0xFFFFF000\<close> and wraps around, so
  if it returns at all, it returns an error.\<close>

theorem map_pages_top_page_never_succeeds:
  assumes "page_addr (va + n - 1) = 0xFFFFF000" and "map_pages lvl arch va n s = Some (ret, s')"
  shows "ret < 0"
  using assms map_pages_loop_top [of lvl arch "page_addr va" "0xFFFFF000" s "(ret, s')"]
  by (auto simp: map_pages_def Let_def ENOMEM_def split: if_splits)

theorem map_pages_top_page_never_succeeds_witness:
  "\<exists>ret s'. map_pages 2 (rv64_arch (rab_load rv64_ex_mem)) 0xFFFFF000 0x10 rv64_ex_boot = Some (ret, s')
     \<and> ret < 0"
proof -
  have "page_addr (0xFFFFF000 + 0x10 - 1) = 0xFFFFF000"
    "map_option fst (map_pages 2 (rv64_arch (rab_load rv64_ex_mem)) 0xFFFFF000 0x10 rv64_ex_boot) =
       Some (- 14)" by code_simp+
  then show ?thesis
    using map_pages_top_page_never_succeeds [of "0xFFFFF000" "0x10"] by fastforce
qed

end
