(* ===== verification/Ptw_Arm64.thy ===== *)
theory Ptw_Arm64
  imports Vmm
begin

text \<open>
  The page-table walk on a 64-bit ARM host, \<open>libvmm/src/arch/arm64/pgtable_walk.c\<close> (built
  without \<open>STATIC_PMD_SLICES\<close>): three table levels, with the table of the last level kept
  mapped between walks and reused as long as walks stay within its 2 MiB
  (\<open>cur_mapped_pte_addr\<close>). The theory shows that the walk computes the translation of the
  VMSAv8 tables (\<open>vmsa\<close>), that the cached table is always the right one, and that the walk
  fulfils \<open>vmm_walker\<close>.

  Page-table entries are read as two 32-bit words, as \<open>copy_phys_addr\<close> does.
\<close>

subsection \<open>The walk\<close>

definition A64_PMD_SLICE :: nat where [hw_consts]: "A64_PMD_SLICE = 2"
definition A64_PTE_SLICE :: nat where [hw_consts]: "A64_PTE_SLICE = A64_PMD_SLICE + 1"

definition A64_PGD_EPTR :: u32 where [hw_consts]: "A64_PGD_EPTR = VMM_PGD_BPTR + 8 * A64_PTRS_PER_PGD"
definition A64_PMD_EPTR :: u32 where [hw_consts]: "A64_PMD_EPTR = A64_PGD_EPTR + 8 * A64_PTRS_PER_PMD"
definition A64_PTE_EPTR :: u32 where [hw_consts]: "A64_PTE_EPTR = A64_PMD_EPTR + 8 * A64_PTRS_PER_PTE"

definition arm64_load :: "u32 rab_ld \<Rightarrow> rab_cfg_t list \<Rightarrow> u32 \<Rightarrow> arm64_phys_addr" where
  "arm64_load ld slices ptr = pa_load arm64_copy_phys_addr (ld slices ptr) (ld slices (ptr + 4))"

definition arm64_page_masked :: "arm64_phys_addr \<Rightarrow> arm64_phys_addr" where
  "arm64_page_masked v = v\<lparr>lower := lower v AND PAGE_MASK\<rparr>"

definition arm64_get_pmd_phys_addr ::
    "u32 rab_ld \<Rightarrow> rab_cfg_t list \<Rightarrow> u32 \<Rightarrow> int + arm64_phys_addr" where
  "arm64_get_pmd_phys_addr ld slices pgd_index =
     (let v = arm64_load ld slices (VMM_PGD_BPTR + 8 * pgd_index);
          ret = arm64_pgd_val_is_pmd_addr v
      in if ret \<noteq> 1 then Inl ret else Inr (arm64_page_masked v))"

definition arm64_get_pte_phys_addr ::
    "u32 rab_ld \<Rightarrow> rab_cfg_t list \<Rightarrow> u32 \<Rightarrow> int + arm64_phys_addr" where
  "arm64_get_pte_phys_addr ld slices pmd_index =
     (let v = arm64_load ld slices (A64_PGD_EPTR + 8 * pmd_index);
          ret = arm64_pmd_val_is_pte_addr v
      in if ret \<noteq> 1 then Inl ret else Inr (arm64_page_masked v))"

definition arm64_get_page_phys_addr ::
    "u32 rab_ld \<Rightarrow> rab_cfg_t list \<Rightarrow> u32 \<Rightarrow> int + (arm64_phys_addr \<times> bool)" where
  "arm64_get_page_phys_addr ld slices pte_index =
     (let v = arm64_load ld slices (A64_PMD_EPTR + 8 * pte_index);
          ret = arm64_pte_val_is_valid_page_addr v
      in if ret \<noteq> 1 then Inl ret
         else Inr (arm64_page_masked v, arm64_pte_val_is_rdonly_page v))"

definition arm64_config_pmd_rab_slice ::
    "arm64_phys_addr \<Rightarrow> 'a ptw_state_scheme \<Rightarrow> int \<times> 'a ptw_state_scheme" where
  "arm64_config_pmd_rab_slice pa s =
     (let r = config_rab_slice arm64_copy_phys_addr A64_PGD_EPTR A64_PMD_EPTR pa
                (l1 s ! A64_PMD_SLICE) True True
      in (fst r, s\<lparr>l1 := (l1 s)[A64_PMD_SLICE := snd r]\<rparr>))"

definition arm64_config_pte_rab_slice ::
    "arm64_phys_addr \<Rightarrow> 'a ptw_state_scheme \<Rightarrow> int \<times> 'a ptw_state_scheme" where
  "arm64_config_pte_rab_slice pa s =
     (let r = config_rab_slice arm64_copy_phys_addr A64_PMD_EPTR A64_PTE_EPTR pa
                (l1 s ! A64_PTE_SLICE) True True
      in (fst r, s\<lparr>l1 := (l1 s)[A64_PTE_SLICE := snd r]\<rparr>))"

text \<open>The two upper levels: the branch taken when the table of the last level is not mapped yet.\<close>

definition arm64_map_pte_table ::
    "u32 rab_ld \<Rightarrow> virt_addr_t \<Rightarrow> 'a ptw_state_scheme \<Rightarrow> int \<times> 'a ptw_state_scheme" where
  "arm64_map_pte_table ld va s =
     (case arm64_get_pmd_phys_addr ld (l1 s) (arm64_pgd_index va) of
        Inl ret \<Rightarrow> (ret, s)
      | Inr pmd \<Rightarrow>
          (case arm64_config_pmd_rab_slice pmd s of
             (ret, s1) \<Rightarrow>
               if ret < 0 then (ret, s1)
               else (case arm64_get_pte_phys_addr ld (l1 s1) (arm64_pmd_index va) of
                       Inl ret \<Rightarrow> (ret, s1)
                     | Inr pte \<Rightarrow>
                         (case arm64_config_pte_rab_slice pte s1 of
                            (ret, s2) \<Rightarrow>
                              if ret < 0 then (ret, s2)
                              else (0, s2\<lparr>cur_mapped_pte_addr := va AND A64_PMD_MASK\<rparr>)))))"

definition arm64_virt_addr_to_page_phys_addr ::
    "u32 rab_ld \<Rightarrow> virt_addr_t \<Rightarrow> 'a ptw_state_scheme
     \<Rightarrow> (int + (arm64_phys_addr \<times> bool)) \<times> 'a ptw_state_scheme" where
  "arm64_virt_addr_to_page_phys_addr ld va s =
     (case (if va AND A64_PMD_MASK \<noteq> cur_mapped_pte_addr s then arm64_map_pte_table ld va s else (0, s)) of
        (ret, s1) \<Rightarrow>
          if ret < 0 then (Inl ret, s1)
          else (arm64_get_page_phys_addr ld (l1 s1) (arm64_pte_index va), s1))"

subsection \<open>The translation of the VMSAv8 tables\<close>

text \<open>
  A descriptor is the two words of its eight bytes. Three levels of 512 entries; descriptors of
  type 3 point to the next table or the page, bits 12 to 39 hold its address. Sections (type 1)
  count as not mapped, as they do for the walk.
\<close>

definition vmsa_entry :: "(u64 \<Rightarrow> u32) \<Rightarrow> nat \<Rightarrow> nat \<Rightarrow> u32 \<times> u32" where
  "vmsa_entry mem table i = (mem (of_nat (table + 8 * i)), mem (of_nat (table + 8 * i + 4)))"

definition vmsa_next :: "u32 \<times> u32 \<Rightarrow> nat option" where
  "vmsa_next = (\<lambda>(lo, hi). if bit lo 0 \<and> bit lo 1
     then Some (unat hi mod 256 * 2 ^ 32 + unat lo div 4096 * 4096) else None)"

definition vmsa_table :: "(u64 \<Rightarrow> u32) \<Rightarrow> nat \<Rightarrow> nat \<Rightarrow> nat option" where
  "vmsa_table mem root va =
     Option.bind (vmsa_next (vmsa_entry mem root (va div 2 ^ 30 mod 512)))
       (\<lambda>pmd. vmsa_next (vmsa_entry mem pmd (va div 2 ^ 21 mod 512)))"

definition vmsa :: "(u64 \<Rightarrow> u32) \<Rightarrow> nat \<Rightarrow> nat \<Rightarrow> (nat \<times> bool) option" where
  "vmsa mem root va =
     Option.bind (vmsa_table mem root va)
       (\<lambda>pte. let e = vmsa_entry mem pte (va div 2 ^ 12 mod 512) in
          Option.bind (vmsa_next e) (\<lambda>pa. if bit (fst e) 6 then Some (pa, bit (fst e) 7) else None))"

definition a64_addr :: "arm64_phys_addr \<Rightarrow> u64" where
  "a64_addr p = push_bit 32 (ucast (upper p)) OR ucast (lower p)"

definition a64_nat :: "arm64_phys_addr \<Rightarrow> nat" where
  "a64_nat p = unat (upper p) * 2 ^ 32 + unat (lower p)"

subsection \<open>Descriptors: the bit operations in terms of the specification\<close>

lemma arm64_table_entry:
  "arm64_pgd_val_is_pmd_addr v = (if bit (lower v) 0 \<and> bit (lower v) 1 then 1
     else if lower v = 0 \<and> upper v = 0 then - 6 else - 22)"
  "arm64_pmd_val_is_pte_addr v = arm64_pgd_val_is_pmd_addr v"
  by (auto simp: arm64_pgd_val_is_pmd_addr_def arm64_pmd_val_is_pte_addr_def arm64_pt_val_is_empty_def
      arm64_pgd_val_is_type_table_def arm64_pmd_val_is_type_table_def hw_consts and_3_eq_3)

lemma arm64_page_entry:
  "arm64_pte_val_is_valid_page_addr v = 1 \<longleftrightarrow> bit (lower v) 0 \<and> bit (lower v) 1 \<and> bit (lower v) 6"
  "arm64_pte_val_is_valid_page_addr v \<noteq> 1 \<Longrightarrow> arm64_pte_val_is_valid_page_addr v < 0"
  "arm64_pte_val_is_rdonly_page v \<longleftrightarrow> bit (lower v) 7"
proof -
  have user: "arm64_pte_val_has_user_perm v \<longleftrightarrow> bit (lower v) 6"
    by (simp only: arm64_pte_val_has_user_perm_def A64_PTE_USER_def and_single_bit len32)
  show "arm64_pte_val_is_valid_page_addr v = 1 \<longleftrightarrow> bit (lower v) 0 \<and> bit (lower v) 1 \<and> bit (lower v) 6"
    by (auto simp: arm64_pte_val_is_valid_page_addr_def arm64_pt_val_is_empty_def and_3_eq_3
        arm64_pte_val_is_type_page_def user
        A64_PT_VAL_TYPE_MASK_def A64_PTE_VALID_TYPE_PAGE_def errno_values)
  show "arm64_pte_val_is_valid_page_addr v \<noteq> 1 \<Longrightarrow> arm64_pte_val_is_valid_page_addr v < 0"
    by (auto simp: arm64_pte_val_is_valid_page_addr_def errno_values split: if_splits)
  show "arm64_pte_val_is_rdonly_page v \<longleftrightarrow> bit (lower v) 7"
    by (simp only: arm64_pte_val_is_rdonly_page_def A64_PTE_RDONLY_def and_single_bit len32)
qed

text \<open>The entry the walk loads is the entry of the specification.\<close>

definition a64_of_words :: "u32 \<times> u32 \<Rightarrow> arm64_phys_addr" where
  "a64_of_words = (\<lambda>(lo, hi). \<lparr>lower = lo, upper = ucast hi\<rparr>)"

lemma a64_addr_nat: "a64_addr p = of_nat (a64_nat p)"
proof -
  have "push_bit 32 (ucast (upper p)) AND ucast (lower p) = (0 :: u64)"
    by (rule bit_word_eqI)
      (auto simp: bit_and_iff bit_push_bit_iff bit_ucast_iff dest: bit_imp_le_length)
  then have "unat (a64_addr p) = unat (push_bit 32 (ucast (upper p)) :: u64) + unat (ucast (lower p) :: u64)"
    by (simp only: a64_addr_def unat_or_disjoint)
  moreover have "unat (upper p) < 256" using unsigned_less [of "upper p", where ?'a = nat] by simp
  moreover have "unat (ucast (upper p) :: u64) = unat (upper p)" "unat (ucast (lower p) :: u64) = unat (lower p)"
    using unat_u32_lt [of "lower p"] \<open>unat (upper p) < 256\<close>
    by (simp_all add: unsigned_ucast_eq take_bit_nat_eq_self)
  ultimately have "unat (a64_addr p) = a64_nat p" by (simp add: unat_push_bit a64_nat_def)
  then have "of_nat (unat (a64_addr p)) = (of_nat (a64_nat p) :: u64)" by simp
  then show ?thesis by simp
qed

lemma a64_nat_masked:
  "a64_nat (arm64_page_masked (a64_of_words (lo, hi))) = unat hi mod 256 * 2 ^ 32 + unat lo div 4096 * 4096"
proof -
  have "unat (ucast hi :: u8) = unat hi mod 256"
    by (simp add: unsigned_ucast_eq take_bit_eq_mod)
  moreover have "unat (lo AND PAGE_MASK) = unat lo div 4096 * 4096"
    using unat_page_addr [of lo] by (simp add: page_addr_def)
  ultimately show ?thesis by (simp add: a64_nat_def arm64_page_masked_def a64_of_words_def)
qed

lemma arm64_index:
  "unat (arm64_pgd_index va) = unat va div 2 ^ 30 mod 512"
  "unat (arm64_pmd_index va) = unat va div 2 ^ 21 mod 512"
  "unat (arm64_pte_index va) = unat va div 2 ^ 12 mod 512"
proof -
  have m: "(511 :: u32) = mask 9" by (simp add: mask_eq_exp_minus_1)
  show "unat (arm64_pgd_index va) = unat va div 2 ^ 30 mod 512"
    "unat (arm64_pmd_index va) = unat va div 2 ^ 21 mod 512"
    "unat (arm64_pte_index va) = unat va div 2 ^ 12 mod 512"
    using unat_and_mask [of "drop_bit 30 va" 9] unat_and_mask [of "drop_bit 21 va" 9]
      unat_and_mask [of "drop_bit 12 va" 9]
    by (simp_all add: arm64_pgd_index_def arm64_pmd_index_def arm64_pte_index_def hw_consts m unat_drop_bit)
qed

subsection \<open>The slices of the walk\<close>

definition arm64_slices_wf :: "arm64_phys_addr \<Rightarrow> rab_cfg_t list \<Rightarrow> bool" where
  "arm64_slices_wf root slices \<longleftrightarrow>
     length slices = 32 \<and> (\<forall>sl \<in> set slices. length sl = 8) \<and>
     slice_window arm64_copy_phys_addr (slices ! 1) 0x20000000 0x20000FFF root \<and>
     slice_within arm64_copy_phys_addr (slices ! 2) 0x20001000 0x20001FFF \<and>
     slice_within arm64_copy_phys_addr (slices ! 3) 0x20002000 0x20002FFF \<and>
     (\<forall>i < 32. i \<notin> {1, 2, 3} \<longrightarrow> slice_outside arm64_copy_phys_addr (slices ! i) 0x20000000 0x20002FFF)"

text \<open>The table of the last level that is mapped is the one of \<open>cur_mapped_pte_addr\<close>. The
  initial value of that variable is no multiple of 2 MiB, so it stands for no table.\<close>

definition arm64_ptw_wf ::
    "(u64 \<Rightarrow> u32) \<Rightarrow> arm64_phys_addr \<Rightarrow> rab_cfg_t list \<Rightarrow> virt_addr_t \<Rightarrow> bool" where
  "arm64_ptw_wf mem root slices cur \<longleftrightarrow> arm64_slices_wf root slices \<and>
     (cur AND A64_PMD_MASK = cur \<longrightarrow>
        (\<exists>pte. slice_window arm64_copy_phys_addr (slices ! 3) 0x20002000 0x20002FFF pte \<and>
               vmsa_table mem (a64_nat root) (unat cur) = Some (a64_nat pte)))"

text \<open>The translation in the form in which the walk returns it.\<close>

definition a64_trans :: "(u64 \<Rightarrow> u32) \<Rightarrow> arm64_phys_addr \<Rightarrow> virt_addr_t \<Rightarrow> (arm64_phys_addr \<times> bool) option" where
  "a64_trans mem root va =
     Option.bind (vmsa_table mem (a64_nat root) (unat va))
       (\<lambda>t. let v = a64_of_words (vmsa_entry mem t (unat (arm64_pte_index va))) in
          if arm64_pte_val_is_valid_page_addr v = 1
          then Some (arm64_page_masked v, arm64_pte_val_is_rdonly_page v) else None)"

lemma arm64_config_slice_simps [simp]:
  "fst (arm64_config_pmd_rab_slice pa s) = 0" "fst (arm64_config_pte_rab_slice pa s) = 0"
  "i \<noteq> 2 \<Longrightarrow> l1 (snd (arm64_config_pmd_rab_slice pa s)) ! i = l1 s ! i"
  "i \<noteq> 3 \<Longrightarrow> l1 (snd (arm64_config_pte_rab_slice pa s)) ! i = l1 s ! i"
  "ptw_state.more (snd (arm64_config_pmd_rab_slice pa s)) = ptw_state.more s"
  "ptw_state.more (snd (arm64_config_pte_rab_slice pa s)) = ptw_state.more s"
  "cur_mapped_pte_addr (snd (arm64_config_pmd_rab_slice pa s)) = cur_mapped_pte_addr s"
  "cur_mapped_pte_addr (snd (arm64_config_pte_rab_slice pa s)) = cur_mapped_pte_addr s"
  by (simp_all add: arm64_config_pmd_rab_slice_def arm64_config_pte_rab_slice_def Let_def hw_consts)

lemma arm64_config_slice_wf:
  assumes wf: "arm64_slices_wf root (l1 s)"
  shows "arm64_slices_wf root (l1 (snd (arm64_config_pmd_rab_slice pa s)))"
    and "slice_window arm64_copy_phys_addr (l1 (snd (arm64_config_pmd_rab_slice pa s)) ! 2)
           0x20001000 0x20001FFF pa"
    and "arm64_slices_wf root (l1 (snd (arm64_config_pte_rab_slice pa s)))"
    and "slice_window arm64_copy_phys_addr (l1 (snd (arm64_config_pte_rab_slice pa s)) ! 3)
           0x20002000 0x20002FFF pa"
proof -
  have len: "length (l1 s) = 32" "length (l1 s ! 2) = 8" "length (l1 s ! 3) = 8"
    using wf by (auto simp: arm64_slices_wf_def)
  let ?c2 = "snd (config_rab_slice arm64_copy_phys_addr A64_PGD_EPTR A64_PMD_EPTR pa (l1 s ! 2) True True)"
  let ?c3 = "snd (config_rab_slice arm64_copy_phys_addr A64_PMD_EPTR A64_PTE_EPTR pa (l1 s ! 3) True True)"
  have eq: "l1 (snd (arm64_config_pmd_rab_slice pa s)) = (l1 s)[2 := ?c2]"
    "l1 (snd (arm64_config_pte_rab_slice pa s)) = (l1 s)[3 := ?c3]"
    by (simp_all add: arm64_config_pmd_rab_slice_def arm64_config_pte_rab_slice_def Let_def
        A64_PTE_SLICE_def A64_PMD_SLICE_def)
  have win: "slice_window arm64_copy_phys_addr ?c2 0x20001000 0x20001FFF pa"
    "slice_window arm64_copy_phys_addr ?c3 0x20002000 0x20002FFF pa"
    using arm64_pa.config_rab_slice_window [OF len(2), of A64_PGD_EPTR A64_PMD_EPTR pa True True]
      arm64_pa.config_rab_slice_window [OF len(3), of A64_PMD_EPTR A64_PTE_EPTR pa True True]
    by (simp_all add: A64_PGD_EPTR_def A64_PMD_EPTR_def A64_PTE_EPTR_def VMM_PGD_BPTR_def
        A64_PTRS_PER_PGD_def A64_PTRS_PER_PMD_def A64_PTRS_PER_PTE_def)
  have all8: "\<forall>sl \<in> set ((l1 s)[i := c]). length sl = 8" if "length c = 8" for i c
    using wf that set_update_subset_insert [of "l1 s" i c] by (auto simp: arm64_slices_wf_def)
  show "slice_window arm64_copy_phys_addr (l1 (snd (arm64_config_pmd_rab_slice pa s)) ! 2)
      0x20001000 0x20001FFF pa"
    "slice_window arm64_copy_phys_addr (l1 (snd (arm64_config_pte_rab_slice pa s)) ! 3)
      0x20002000 0x20002FFF pa"
    using win len by (simp_all add: eq)
  show "arm64_slices_wf root (l1 (snd (arm64_config_pmd_rab_slice pa s)))"
    using wf len all8 [of ?c2 2] slice_window_within [OF win(1)]
    by (simp add: arm64_slices_wf_def eq)
  show "arm64_slices_wf root (l1 (snd (arm64_config_pte_rab_slice pa s)))"
    using wf len all8 [of ?c3 3] slice_window_within [OF win(2)]
    by (simp add: arm64_slices_wf_def eq)
qed

lemma vmsa_table_pmd: "vmsa_table mem root (unat (va AND A64_PMD_MASK)) = vmsa_table mem root (unat va)"
proof -
  have m: "unat (va AND A64_PMD_MASK) = unat va div 2 ^ 21 * 2 ^ 21"
    unfolding A64_PMD_MASK_def A64_PMD_SHIFT_def push_bit_1_minus_1 by (rule unat_and_not_mask)
  have "unat va div 2 ^ 21 * 2 ^ 21 div 2 ^ 30 = unat va div 2 ^ 30"
    by (simp add: div_mult2_eq [of _ "2 ^ 21" "2 ^ 9", simplified])
  then show ?thesis by (simp add: vmsa_table_def m)
qed

locale arm64_rab = rab_bus arm64_copy_phys_addr a64_addr ld mem for ld :: "u32 rab_ld" and mem
begin

lemma arm64_load_entry:
  assumes wf: "arm64_slices_wf root slices"
    and i: "i \<in> {1, 2, 3}" "lo = 0x20000000 + 0x1000 * of_nat (i - 1)"
    and win: "slice_window arm64_copy_phys_addr (slices ! i) lo (lo + 0xFFF) pa"
    and idx: "unat idx < 512"
  shows "arm64_load ld slices (lo + 8 * idx) = a64_of_words (vmsa_entry mem (a64_nat pa) (unat idx))"
proof -
  have ld: "ld slices (lo + d) = mem (a64_addr pa + ucast d)" if d: "unat d < 4096" for d
  proof -
    have lo: "unat lo = 0x20000000 + 0x1000 * (i - 1)" using i by auto
    have va: "unat (lo + d) = unat lo + unat d" using d i by (auto simp: unat_word_ariths)
    have "ld slices (lo + d) = mem (a64_addr pa + ucast (lo + d - lo))"
    proof (rule ld_window [OF _ win])
      show "i < length slices" using wf i by (auto simp: arm64_slices_wf_def)
      show "lo \<le> lo + d" using va by (simp add: word_le_nat_alt)
      show "lo + d \<le> lo + 0xFFF" using va d i by (auto simp: word_le_nat_alt)
      show "\<not> slice_hit arm64_copy_phys_addr (slices ! j) (lo + d)" if "j < length slices" "j \<noteq> i" for j
      proof (cases "j \<in> {1, 2, 3}")
        case True
        then have "slice_within arm64_copy_phys_addr (slices ! j)
            (0x20000000 + 0x1000 * of_nat (j - 1)) (0x20000FFF + 0x1000 * of_nat (j - 1))"
          using wf by (auto simp: arm64_slices_wf_def dest: slice_window_within)
        then show ?thesis
          by (rule slice_within_no_hit) (use i True that(2) va lo d in \<open>auto simp: word_less_nat_alt\<close>)
      next
        case False
        then show ?thesis
          using wf that(1) va lo d i
          by (intro slice_outside_no_hit [of _ _ "0x20000000" "0x20002FFF"])
            (auto simp: arm64_slices_wf_def word_le_nat_alt)
      qed
    qed
    then show ?thesis by simp
  qed
  have u: "unat (8 * idx) = 8 * unat idx" "unat (8 * idx + 4) = 8 * unat idx + 4"
    using idx by (simp_all add: unat_word_ariths)
  have "(ucast d :: u64) = of_nat (unat d)" for d :: u32 by simp
  then have "ld slices (lo + 8 * idx) = mem (of_nat (a64_nat pa + 8 * unat idx))"
    "ld slices (lo + 8 * idx + 4) = mem (of_nat (a64_nat pa + 8 * unat idx + 4))"
    using ld [of "8 * idx"] ld [of "8 * idx + 4"] u idx
    by (simp_all only: a64_addr_nat of_nat_add add.assoc)
  then show ?thesis
    by (simp add: arm64_load_def vmsa_entry_def a64_of_words_def arm64_copy_phys_addr_def)
qed

lemma arm64_map_pte_table_ok:
  fixes va :: virt_addr_t
  assumes wf: "arm64_slices_wf root (l1 s)"
  defines "r \<equiv> arm64_map_pte_table ld va s"
  shows "arm64_slices_wf root (l1 (snd r))"
    and "vmsa_table mem (a64_nat root) (unat va) = None \<Longrightarrow>
           fst r < 0 \<and> l1 (snd r) ! 3 = l1 s ! 3 \<and> cur_mapped_pte_addr (snd r) = cur_mapped_pte_addr s"
    and "vmsa_table mem (a64_nat root) (unat va) = Some t \<Longrightarrow>
           fst r = 0 \<and> cur_mapped_pte_addr (snd r) = va AND A64_PMD_MASK \<and>
           (\<exists>pte. slice_window arm64_copy_phys_addr (l1 (snd r) ! 3) 0x20002000 0x20002FFF pte \<and> a64_nat pte = t)"
proof -
  define e1 where "e1 = vmsa_entry mem (a64_nat root) (unat (arm64_pgd_index va))"
  define pmd where "pmd = arm64_page_masked (a64_of_words e1)"
  define e2 where "e2 = vmsa_entry mem (a64_nat pmd) (unat (arm64_pmd_index va))"
  define pte where "pte = arm64_page_masked (a64_of_words e2)"
  let ?s1 = "snd (arm64_config_pmd_rab_slice pmd s)"
  let ?s2 = "snd (arm64_config_pte_rab_slice pte ?s1)"
  note wf1 = arm64_config_slice_wf [OF wf, of pmd]
  note wf2 = arm64_config_slice_wf [OF wf1(1), of pte]
  have l1: "arm64_load ld (l1 s) (VMM_PGD_BPTR + 8 * arm64_pgd_index va) = a64_of_words e1"
    using arm64_load_entry [OF wf, of 1 "0x20000000" root "arm64_pgd_index va"] wf arm64_index(1) [of va]
    by (simp add: arm64_slices_wf_def VMM_PGD_BPTR_def e1_def)
  have l2: "arm64_load ld (l1 ?s1) (A64_PGD_EPTR + 8 * arm64_pmd_index va) = a64_of_words e2"
    using arm64_load_entry [OF wf1(1), of 2 "0x20001000" pmd "arm64_pmd_index va"] wf1(2)
      arm64_index(2) [of va]
    by (simp add: e2_def A64_PGD_EPTR_def VMM_PGD_BPTR_def A64_PTRS_PER_PGD_def)
  have nxt: "vmsa_next e = (if bit (fst e) 0 \<and> bit (fst e) 1
      then Some (a64_nat (arm64_page_masked (a64_of_words e))) else None)" for e
    by (cases e) (simp add: vmsa_next_def a64_nat_masked)
  have tab: "vmsa_table mem (a64_nat root) (unat va) =
      (if bit (fst e1) 0 \<and> bit (fst e1) 1 then vmsa_next e2 else None)"
    unfolding vmsa_table_def arm64_index [symmetric] e1_def [symmetric]
    by (simp add: nxt [of e1] e2_def pmd_def)
  have low: "lower (a64_of_words e) = fst e" for e by (simp add: a64_of_words_def case_prod_beta)
  note defs = r_def arm64_map_pte_table_def arm64_get_pmd_phys_addr_def arm64_get_pte_phys_addr_def
    l1 l2 Let_def arm64_table_entry low tab nxt [of e2] case_prod_beta
    pmd_def [symmetric] pte_def [symmetric]
  show "arm64_slices_wf root (l1 (snd r))" using wf wf1 wf2 by (simp add: defs)
  show "vmsa_table mem (a64_nat root) (unat va) = None \<Longrightarrow>
      fst r < 0 \<and> l1 (snd r) ! 3 = l1 s ! 3 \<and> cur_mapped_pte_addr (snd r) = cur_mapped_pte_addr s"
    by (auto simp: defs split: if_splits)
  show "vmsa_table mem (a64_nat root) (unat va) = Some t \<Longrightarrow>
      fst r = 0 \<and> cur_mapped_pte_addr (snd r) = va AND A64_PMD_MASK \<and>
      (\<exists>pte. slice_window arm64_copy_phys_addr (l1 (snd r) ! 3) 0x20002000 0x20002FFF pte \<and> a64_nat pte = t)"
    using wf2(4) by (auto simp: defs split: if_splits)
qed

text \<open>A walk gives the translation of the tables and keeps the cached table right.\<close>

lemma a64_trans_vmsa:
  "map_option (\<lambda>(pa, ro). (a64_nat pa, ro)) (a64_trans mem root va) = vmsa mem (a64_nat root) (unat va)"
proof (cases "vmsa_table mem (a64_nat root) (unat va)")
  case None
  then show ?thesis by (simp add: a64_trans_def vmsa_def)
next
  case (Some t)
  let ?e = "vmsa_entry mem t (unat (arm64_pte_index va))"
  obtain lo hi where e: "?e = (lo, hi)" by (cases ?e)
  have low: "lower (a64_of_words (lo, hi)) = lo" by (simp add: a64_of_words_def)
  show ?thesis
    unfolding a64_trans_def vmsa_def Some arm64_index [symmetric] bind.bind_lunit Let_def e
    by (auto simp: arm64_page_entry(1,3) low vmsa_next_def a64_nat_masked)
qed

lemma arm64_walk_ok:
  fixes s :: "'a ptw_state_scheme" and va :: virt_addr_t
  assumes wf: "arm64_ptw_wf mem root (l1 s) (cur_mapped_pte_addr s)"
  defines "r \<equiv> arm64_virt_addr_to_page_phys_addr ld va s"
  shows "arm64_ptw_wf mem root (l1 (snd r)) (cur_mapped_pte_addr (snd r))"
    and "case fst r of Inl e \<Rightarrow> e < 0 \<and> a64_trans mem root va = None | Inr x \<Rightarrow> a64_trans mem root va = Some x"
proof -
  let ?t = "vmsa_table mem (a64_nat root) (unat va)"
  let ?m = "if va AND A64_PMD_MASK \<noteq> cur_mapped_pte_addr s then arm64_map_pte_table ld va s else (0, s)"
  have wf1: "arm64_slices_wf root (l1 s)" using wf by (simp add: arm64_ptw_wf_def)
  note tab = arm64_map_pte_table_ok [OF wf1, of va]
  have idem: "(va AND A64_PMD_MASK) AND A64_PMD_MASK = va AND A64_PMD_MASK" by (simp add: and.assoc)
  have page: "arm64_get_page_phys_addr ld (l1 s') (arm64_pte_index va) =
      (let v = a64_of_words (vmsa_entry mem (a64_nat pte) (unat (arm64_pte_index va)));
           ret = arm64_pte_val_is_valid_page_addr v
       in if ret \<noteq> 1 then Inl ret else Inr (arm64_page_masked v, arm64_pte_val_is_rdonly_page v))"
    if "arm64_slices_wf root (l1 s')"
      "slice_window arm64_copy_phys_addr (l1 s' ! 3) 0x20002000 0x20002FFF pte"
    for s' :: "'a ptw_state_scheme" and pte
    using arm64_load_entry [OF that(1), of 3 "0x20002000" pte "arm64_pte_index va"] that(2)
      arm64_index(3) [of va]
    by (simp add: arm64_get_page_phys_addr_def A64_PMD_EPTR_def A64_PGD_EPTR_def VMM_PGD_BPTR_def
        A64_PTRS_PER_PGD_def A64_PTRS_PER_PMD_def)
  have mapped: "arm64_slices_wf root (l1 (snd ?m)) \<and> fst ?m = 0 \<and> cur_mapped_pte_addr (snd ?m) = va AND A64_PMD_MASK \<and>
      (\<exists>pte. slice_window arm64_copy_phys_addr (l1 (snd ?m) ! 3) 0x20002000 0x20002FFF pte \<and> a64_nat pte = t)"
    if "?t = Some t" for t
  proof (cases "va AND A64_PMD_MASK = cur_mapped_pte_addr s")
    case True
    then have "cur_mapped_pte_addr s AND A64_PMD_MASK = cur_mapped_pte_addr s" using idem by metis
    then show ?thesis
      using True wf that vmsa_table_pmd [of mem "a64_nat root" va] by (auto simp: arm64_ptw_wf_def)
  next
    case False
    then show ?thesis using tab(1) tab(3) [OF that] by simp
  qed
  have unmapped: "va AND A64_PMD_MASK \<noteq> cur_mapped_pte_addr s" if "?t = None"
    using wf that idem vmsa_table_pmd [of mem "a64_nat root" va] unfolding arm64_ptw_wf_def
    by (metis option.distinct(1))
  show "arm64_ptw_wf mem root (l1 (snd r)) (cur_mapped_pte_addr (snd r))"
  proof (cases ?t)
    case None
    then show ?thesis
      using wf tab(1) tab(2) [OF None] unmapped [OF None]
      by (simp add: r_def arm64_virt_addr_to_page_phys_addr_def case_prod_beta arm64_ptw_wf_def)
  next
    case (Some t)
    then show ?thesis
      using mapped [OF Some] idem vmsa_table_pmd [of mem "a64_nat root" va]
      by (auto simp: r_def arm64_virt_addr_to_page_phys_addr_def case_prod_beta arm64_ptw_wf_def
          simp del: if_split)
  qed
  show "case fst r of Inl e \<Rightarrow> e < 0 \<and> a64_trans mem root va = None | Inr x \<Rightarrow> a64_trans mem root va = Some x"
  proof (cases ?t)
    case None
    then show ?thesis
      using tab(2) [OF None] unmapped [OF None]
      by (simp add: r_def arm64_virt_addr_to_page_phys_addr_def case_prod_beta a64_trans_def)
  next
    case (Some t)
    from mapped [OF Some] obtain pte where pte: "arm64_slices_wf root (l1 (snd ?m))" "fst ?m = 0"
      "slice_window arm64_copy_phys_addr (l1 (snd ?m) ! 3) 0x20002000 0x20002FFF pte" "a64_nat pte = t"
      by blast
    have "fst r = arm64_get_page_phys_addr ld (l1 (snd ?m)) (arm64_pte_index va)"
      using pte(2) by (simp add: r_def arm64_virt_addr_to_page_phys_addr_def case_prod_beta del: if_split)
    then show ?thesis
      using arm64_page_entry(2) unfolding page [OF pte(1,3)] pte(4)
      by (auto simp: Let_def a64_trans_def Some)
  qed
qed

end

subsection \<open>The library on a 64-bit ARM host\<close>

definition arm64_arch :: "u32 rab_ld \<Rightarrow> arm64_phys_addr vmm_arch" where
  "arm64_arch ld =
     \<lparr>pa_copy = arm64_copy_phys_addr, pa2pfn = (\<lambda>pa. ucast (arm64_phys_addr2pfn pa)),
      pte_slice = A64_PTE_SLICE, walk = arm64_virt_addr_to_page_phys_addr ld\<rparr>"

lemma arm64_map_pte_table_frame:
  "ptw_state.more (snd (arm64_map_pte_table ld va s)) = ptw_state.more s"
  "3 < i \<Longrightarrow> l1 (snd (arm64_map_pte_table ld va s)) ! i = l1 s ! i"
  by (auto simp: arm64_map_pte_table_def case_prod_beta split: sum.split)

lemma arm64_walk_frame:
  "ptw_state.more (snd (arm64_virt_addr_to_page_phys_addr ld va s)) = ptw_state.more s"
  "3 < i \<Longrightarrow> l1 (snd (arm64_virt_addr_to_page_phys_addr ld va s)) ! i = l1 s ! i"
  by (simp_all add: arm64_virt_addr_to_page_phys_addr_def case_prod_beta arm64_map_pte_table_frame)

lemma a64_trans_page: "a64_trans mem root (page_addr va) = a64_trans mem root va"
proof -
  have pte: "arm64_pte_index (page_addr va) = arm64_pte_index va"
    by (simp add: word_eq_unat arm64_index(3) unat_page_addr)
  have "unat (page_addr va) div 2 ^ 21 = unat va div 2 ^ 21"
    by (simp add: unat_page_addr div_mult2_eq [of _ 4096 512, simplified])
  moreover have "unat (page_addr va) div 2 ^ 30 = unat va div 2 ^ 30"
    by (simp add: unat_page_addr div_mult2_eq [of _ 4096 262144, simplified])
  ultimately show ?thesis by (simp only: a64_trans_def vmsa_table_def pte)
qed

lemma arm64_ptw_wf_disable:
  assumes wf: "arm64_ptw_wf mem root slices c" and i: "3 < i"
  shows "arm64_ptw_wf mem root (slices[i := (slices ! i)[6 := 0]]) c"
proof (cases "i < 32")
  case False
  then show ?thesis using wf by (simp add: arm64_ptw_wf_def arm64_slices_wf_def list_update_beyond)
next
  case True
  have len: "length slices = 32" "length (slices ! i) = 8"
    using wf True by (auto simp: arm64_ptw_wf_def arm64_slices_wf_def)
  have "\<forall>sl \<in> set (slices[i := (slices ! i)[6 := 0]]). length sl = 8"
    using wf len set_update_subset_insert [of slices i "(slices ! i)[6 := 0]"]
    by (auto simp: arm64_ptw_wf_def arm64_slices_wf_def)
  then show ?thesis
    using wf i len True slice_disabled_within(2) [OF len(2)]
    by (auto simp: arm64_ptw_wf_def arm64_slices_wf_def nth_list_update)
qed

locale arm64_host = arm64_rab + fixes root :: arm64_phys_addr

sublocale arm64_host \<subseteq> vm: vmm_walker "arm64_arch ld" "arm64_ptw_wf mem root" "a64_trans mem root"
proof unfold_locales
  fix s :: vmm_state and va :: virt_addr_t
  assume wf: "arm64_ptw_wf mem root (l1 s) (cur_mapped_pte_addr s)"
  show "case fst (walk (arm64_arch ld) va s) of
      Inl e \<Rightarrow> e < 0 \<and> a64_trans mem root va = None | Inr x \<Rightarrow> a64_trans mem root va = Some x"
    using arm64_walk_ok(2) [OF wf] by (simp add: arm64_arch_def)
  show "arm64_ptw_wf mem root (l1 (snd (walk (arm64_arch ld) va s)))
      (cur_mapped_pte_addr (snd (walk (arm64_arch ld) va s)))"
    using arm64_walk_ok(1) [OF wf] by (simp add: arm64_arch_def)
next
  fix s :: vmm_state and va :: virt_addr_t
  show "ptw_state.more (snd (walk (arm64_arch ld) va s)) = ptw_state.more s"
    by (simp add: arm64_arch_def arm64_walk_frame)
  show "a64_trans mem root (page_addr va) = a64_trans mem root va" by (rule a64_trans_page)
  show "l1 (snd (walk (arm64_arch ld) va s)) ! i = l1 s ! i" if "pte_slice (arm64_arch ld) < i" for i
    using that arm64_walk_frame(2) by (simp add: arm64_arch_def A64_PTE_SLICE_def A64_PMD_SLICE_def)
  show "arm64_ptw_wf mem root (slices[i := (slices ! i)[6 := 0]]) c"
    if "arm64_ptw_wf mem root slices c" "pte_slice (arm64_arch ld) < i" for slices c i
    using that arm64_ptw_wf_disable by (simp add: arm64_arch_def A64_PTE_SLICE_def A64_PMD_SLICE_def)
qed

interpretation arm64_ram: arm64_host "bus_load arm64_copy_phys_addr a64_addr mem" mem root for mem root
  by unfold_locales

context arm64_host
begin

lemma arm64_n_slices: "RAB_CFG_VMM_N_SLICES (arm64_arch ld) = 28"
  by (simp add: RAB_CFG_VMM_N_SLICES_def RAB_CFG_VMM_BPTR_def arm64_arch_def hw_consts)

lemmas vmm_map_pages_ok = vm.map_pages_ok [unfolded arm64_n_slices]
lemmas vmm_reachable_ready = vm.reachable_ready

end

lemma arm64_phys_addr2pfn_nat: "arm64_phys_addr2pfn p = of_nat (a64_nat p div 4096)"
proof -
  have up: "unat (upper p) < 256" using unsigned_less [of "upper p", where ?'a = nat] by simp
  have uc: "unat (ucast (upper p) :: u32) = unat (upper p)"
    using up by (simp add: unsigned_ucast_eq take_bit_nat_eq_self)
  have "push_bit 20 (ucast (upper p)) AND drop_bit 12 (lower p) = 0"
    by (rule bit_word_eqI)
      (auto simp: bit_and_iff bit_push_bit_iff bit_drop_bit_eq dest: bit_imp_le_length)
  then have "unat (push_bit 20 (ucast (upper p)) OR drop_bit 12 (lower p)) =
      unat (push_bit 20 (ucast (upper p)) :: u32) + unat (drop_bit 12 (lower p))"
    by (rule unat_or_disjoint)
  then have "unat (arm64_phys_addr2pfn p) = unat (upper p) * 2 ^ 20 + unat (lower p) div 4096"
    using up by (simp add: arm64_phys_addr2pfn_def PAGE_SHIFT_def unat_push_bit uc unat_drop_bit)
  also have "\<dots> = a64_nat p div 4096"
    using div_mult_self3 [of 4096 "unat (upper p) * 2 ^ 20" "unat (lower p)"]
    by (simp add: a64_nat_def mult.commute)
  finally have "of_nat (unat (arm64_phys_addr2pfn p)) = (of_nat (a64_nat p div 4096) :: u32)" by simp
  then show ?thesis by simp
qed

definition a64_served :: "(u64 \<Rightarrow> u32) \<Rightarrow> nat \<Rightarrow> vmm_state \<Rightarrow> virt_addr_t \<Rightarrow> bool" where
  "a64_served mem root s va \<longleftrightarrow> (case vmsa mem root (unat va) of
     None \<Rightarrow> False
   | Some (pa, ro) \<Rightarrow> l2_maps (l2 s) va (of_nat (pa div 4096)) (rab_flags ro True))"

context arm64_host
begin

lemma arm64_served_eq: "vm.served s va = a64_served mem (a64_nat root) s va"
  unfolding vm.served_def a64_served_def a64_trans_vmsa [symmetric]
  by (auto simp: arm64_arch_def arm64_phys_addr2pfn_nat split: option.split)

lemmas vmm_map_pages_served = vmm_map_pages_ok [unfolded arm64_served_eq]

end

text \<open>A concrete host: tables at \<open>0x80000000\<close>, \<open>0x80001000\<close> and \<open>0x80002000\<close> that
  map the page of virtual address \<open>0x401000\<close> read-only to physical page \<open>0x512345\<close>.\<close>

definition a64_ex_mem :: "u64 \<Rightarrow> u32" where
  "a64_ex_mem a =
     (if a = 0x80000000 then 0x80001003
      else if a = 0x80001010 then 0x80002003
      else if a = 0x80002008 then 0x123450C3
      else if a = 0x8000200C then 5
      else 0)"

definition a64_ex_slices :: "rab_cfg_t list" where
  "a64_ex_slices =
     (replicate 32 (replicate 8 0))[1 := [0x20000000, 0, 0x20000FFF, 0, 0x80000000, 0, 3, 0]]"

definition a64_ex_root :: arm64_phys_addr where "a64_ex_root = \<lparr>lower = 0x80000000, upper = 0\<rparr>"

lemma a64_ex_wf: "arm64_ptw_wf a64_ex_mem a64_ex_root a64_ex_slices 0xFFFFFFFF"
proof -
  have zero: "slice_within arm64_copy_phys_addr (replicate 8 0) lo hi"
    "slice_outside arm64_copy_phys_addr (replicate 8 0) lo hi" for lo hi
    using slice_disabled_within [of "replicate 8 0" arm64_copy_phys_addr lo hi]
    by (simp_all add: numeral_eq_Suc)
  have nth: "a64_ex_slices ! i = replicate 8 0" if "i < 32" "i \<noteq> 1" for i
    using that by (simp add: a64_ex_slices_def)
  have "a64_ex_slices ! 1 = [0x20000000, 0, 0x20000FFF, 0, 0x80000000, 0, 3, 0]"
    by (simp add: a64_ex_slices_def)
  then have "slice_window arm64_copy_phys_addr (a64_ex_slices ! 1) 0x20000000 0x20000FFF a64_ex_root"
    by (simp add: slice_window_def read_rab_cfg_val_def rab_slice_is_enabled_def a64_ex_root_def
        arm64_copy_phys_addr_def hw_consts)
  moreover have "\<forall>sl \<in> set a64_ex_slices. length sl = 8"
    by (auto simp: a64_ex_slices_def in_set_conv_nth nth_list_update)
  moreover have "(0xFFFFFFFF :: u32) AND A64_PMD_MASK \<noteq> 0xFFFFFFFF" by code_simp
  moreover have "length a64_ex_slices = 32" by (simp add: a64_ex_slices_def)
  ultimately show ?thesis
    using nth zero by (simp add: arm64_ptw_wf_def arm64_slices_wf_def)
qed

abbreviation "a64_ex_ld \<equiv> bus_load arm64_copy_phys_addr a64_addr a64_ex_mem"

subsection \<open>Properties\<close>



text \<open>On a 64-bit ARM host, \<open>map_pages\<close> over a range of at most 28 pages that the host's page
  tables map for the user returns 0, and then the second TLB level translates every address of the
  range to the page frame and with the access rights of the VMSAv8 translation.\<close>

theorem arm64_map_pages_serves_range:
  assumes "arm64_rab ld mem" and "arm64_ptw_wf mem root (l1 s) (cur_mapped_pte_addr s)" and "vmm_inv s"
    and "0 < unat n" and "unat va + unat n \<le> 2 ^ 32 - 4096"
    and "n_pages_of (unat va) (unat n) \<le> 28"
    and "\<forall>a :: u32. unat va \<le> unat a \<and> unat a < unat va + unat n \<longrightarrow> vmsa mem (a64_nat root) (unat a) \<noteq> None"
  shows "\<exists>s'. map_pages 2 (arm64_arch ld) va n s = Some (0, s') \<and>
           arm64_ptw_wf mem root (l1 s') (cur_mapped_pte_addr s') \<and> vmm_inv s' \<and>
           (\<forall>a. unat va \<le> unat a \<and> unat a < unat va + unat n \<longrightarrow> a64_served mem (a64_nat root) s' a)"
proof -
  have host: "arm64_host ld mem" using assms(1) by (simp add: arm64_host_def)
  have "a64_trans mem root a \<noteq> None" if "unat va \<le> unat a" "unat a < unat va + unat n" for a
  proof
    assume "a64_trans mem root a = None"
    then have "vmsa mem (a64_nat root) (unat a) = None"
      unfolding arm64_rab.a64_trans_vmsa [OF assms(1), of root a, symmetric] by simp
    then show False using assms(7) that by blast
  qed
  then show ?thesis
    using arm64_host.vmm_map_pages_served [OF host, of root s n va] assms by auto
qed

theorem arm64_map_pages_serves_range_witness:
  "\<exists>s'. map_pages 2 (arm64_arch a64_ex_ld) 0x401234 1
          (reset_vmm 2 (arm64_arch a64_ex_ld) \<lparr>l1 = a64_ex_slices, cur_mapped_pte_addr = 0xFFFFFFFF,
             l2 = (\<lambda>_. 0), page_rab_cfg_ptr = 0, page_rab_cfg_l2_i_set = [],
             recently_mapped_pages = [], rmp_wptr = 0, miss_fifo = [], evt_trig = []\<rparr>) = Some (0, s') \<and>
        a64_served a64_ex_mem (a64_nat a64_ex_root) s' 0x401234"
proof -
  let ?boot = "\<lparr>l1 = a64_ex_slices, cur_mapped_pte_addr = 0xFFFFFFFF,
     l2 = (\<lambda>_. 0), page_rab_cfg_ptr = 0, page_rab_cfg_l2_i_set = [],
     recently_mapped_pages = [], rmp_wptr = 0, miss_fifo = [], evt_trig = []\<rparr> :: vmm_state"
  let ?s = "reset_vmm 2 (arm64_arch a64_ex_ld) ?boot"
  have wf: "arm64_ptw_wf a64_ex_mem a64_ex_root (l1 ?s) (cur_mapped_pte_addr ?s)"
    using a64_ex_wf by (simp add: reset_vmm_def reset_page_rab_cfg_ptrs_def
        reset_recently_mapped_pages_def Let_def)
  have "fst (arm64_virt_addr_to_page_phys_addr a64_ex_ld 0x401234
      \<lparr>l1 = a64_ex_slices, cur_mapped_pte_addr = 0xFFFFFFFF\<rparr>) =
      Inr (\<lparr>lower = 0x12345000, upper = 5\<rparr>, True)" by code_simp
  then have "a64_trans a64_ex_mem a64_ex_root 0x401234 \<noteq> None"
    using arm64_ram.arm64_walk_ok(2) [of a64_ex_mem a64_ex_root
        "\<lparr>l1 = a64_ex_slices, cur_mapped_pte_addr = 0xFFFFFFFF\<rparr>" "0x401234"] a64_ex_wf by simp
  then have v: "vmsa a64_ex_mem (a64_nat a64_ex_root) (unat (0x401234 :: u32)) \<noteq> None"
    using arm64_ram.a64_trans_vmsa [of a64_ex_mem a64_ex_root "0x401234"]
    by (metis option.map_disc_iff)
  have "vmsa a64_ex_mem (a64_nat a64_ex_root) (unat a) \<noteq> None"
    if "unat (0x401234 :: u32) \<le> unat a \<and> unat a < unat (0x401234 :: u32) + unat (1 :: u32)" for a :: u32
  proof -
    have "unat a = unat (0x401234 :: u32)" using that by simp
    then show ?thesis using v by argo
  qed
  then show ?thesis
    using arm64_map_pages_serves_range [of a64_ex_ld a64_ex_mem a64_ex_root ?s "1" "0x401234"]
      arm64_ram.arm64_rab_axioms [of a64_ex_mem] wf vmm_inv_reset [of "arm64_arch a64_ex_ld" ?boot]
    by (fastforce simp: n_pages_of_def)
qed

end
