(* ===== verification/Ptw_Arm.thy ===== *)
theory Ptw_Arm
  imports Vmm
begin

text \<open>
  The page-table walk on a 32-bit ARM host, \<open>libvmm/src/arch/arm/pgtable_walk.c\<close>: two table
  levels in the layout Linux uses (2048 double entries in the first level, 512 entries per table of
  the second), with the second-level table kept mapped between walks.

  Two of the entry predicates test the address of the variable that holds the entry instead of the
  entry (see \<open>Pgtable\<close>), so the addresses of the two variables, \<open>pte_phys_addr\<close> of the
  walk and \<open>page_phys_addr\<close> of its caller, are parameters of the model.
\<close>

subsection \<open>The walk\<close>

definition A32_PTE_SLICE :: nat where [hw_consts]: "A32_PTE_SLICE = 2"
definition A32_PGD_EPTR :: u32 where [hw_consts]: "A32_PGD_EPTR = VMM_PGD_BPTR + 4 * (A32_PTRS_PER_PGD * 2)"
definition A32_PTE_EPTR :: u32 where [hw_consts]: "A32_PTE_EPTR = A32_PGD_EPTR + 4 * A32_PTRS_PER_PTE"

definition arm_get_pte_phys_addr :: "u32 rab_ld \<Rightarrow> u32 \<Rightarrow> rab_cfg_t list \<Rightarrow> u32 \<Rightarrow> int + u32" where
  "arm_get_pte_phys_addr ld pte_var slices pgd_index =
     (let v = ld slices (VMM_PGD_BPTR + 4 * pgd_index);
          ret = arm_pgd_val_is_pte_addr pte_var
      in if ret \<noteq> 1 then Inl ret else Inr (v AND PAGE_MASK))"

definition arm_get_page_phys_addr ::
    "u32 rab_ld \<Rightarrow> u32 \<Rightarrow> rab_cfg_t list \<Rightarrow> u32 \<Rightarrow> int + (u32 \<times> bool)" where
  "arm_get_page_phys_addr ld page_var slices pte_index =
     (let v = ld slices (A32_PGD_EPTR + 4 * pte_index);
          ret = arm_pte_val_is_valid_page_addr page_var v
      in if ret \<noteq> 1 then Inl ret else Inr (v AND PAGE_MASK, arm_pte_val_is_rdonly_page v))"

definition arm_config_pte_rab_slice :: "u32 \<Rightarrow> 'a ptw_state_scheme \<Rightarrow> int \<times> 'a ptw_state_scheme" where
  "arm_config_pte_rab_slice pa s =
     (let r = config_rab_slice arm_copy_phys_addr A32_PGD_EPTR A32_PTE_EPTR pa
                (l1 s ! A32_PTE_SLICE) True True
      in (fst r, s\<lparr>l1 := (l1 s)[A32_PTE_SLICE := snd r]\<rparr>))"

definition arm_map_pte_table ::
    "u32 rab_ld \<Rightarrow> u32 \<Rightarrow> virt_addr_t \<Rightarrow> 'a ptw_state_scheme \<Rightarrow> int \<times> 'a ptw_state_scheme" where
  "arm_map_pte_table ld pte_var va s =
     (case arm_get_pte_phys_addr ld pte_var (l1 s) (arm_pgd_index va) of
        Inl ret \<Rightarrow> (ret, s)
      | Inr pte \<Rightarrow>
          (case arm_config_pte_rab_slice pte s of
             (ret, s1) \<Rightarrow> if ret < 0 then (ret, s1)
                          else (0, s1\<lparr>cur_mapped_pte_addr := va AND A32_PGD_MASK\<rparr>)))"

definition arm_virt_addr_to_page_phys_addr ::
    "u32 rab_ld \<Rightarrow> u32 \<Rightarrow> u32 \<Rightarrow> virt_addr_t \<Rightarrow> 'a ptw_state_scheme
     \<Rightarrow> (int + (u32 \<times> bool)) \<times> 'a ptw_state_scheme" where
  "arm_virt_addr_to_page_phys_addr ld pte_var page_var va s =
     (case (if va AND A32_PGD_MASK \<noteq> cur_mapped_pte_addr s then arm_map_pte_table ld pte_var va s else (0, s)) of
        (ret, s1) \<Rightarrow>
          if ret < 0 then (Inl ret, s1)
          else (arm_get_page_phys_addr ld page_var (l1 s1) (arm_pte_index va), s1))"

subsection \<open>The tables\<close>

text \<open>What a walk computes from the tables: the first-level entry is used without a check.\<close>

definition a32_table :: "(u64 \<Rightarrow> u32) \<Rightarrow> u32 \<Rightarrow> virt_addr_t \<Rightarrow> u32" where
  "a32_table mem root va = mem (of_nat (unat root + 8 * (unat va div 2 ^ 21))) AND PAGE_MASK"

definition a32_trans :: "(u64 \<Rightarrow> u32) \<Rightarrow> u32 \<Rightarrow> virt_addr_t \<Rightarrow> (u32 \<times> bool) option" where
  "a32_trans mem root va =
     (let e = mem (of_nat (unat (a32_table mem root va) + 4 * (unat va div 2 ^ 12 mod 512))) in
      if bit e 0 \<and> bit e 1 \<and> bit e 8 then Some (e AND PAGE_MASK, bit e 7) else None)"

definition arm_slices_wf :: "u32 \<Rightarrow> rab_cfg_t list \<Rightarrow> bool" where
  "arm_slices_wf root slices \<longleftrightarrow>
     length slices = 32 \<and> (\<forall>sl \<in> set slices. length sl = 8) \<and>
     slice_window arm_copy_phys_addr (slices ! 1) 0x20000000 0x20003FFF root \<and>
     slice_within arm_copy_phys_addr (slices ! 2) 0x20004000 0x200047FF \<and>
     (\<forall>i < 32. i \<notin> {1, 2} \<longrightarrow> slice_outside arm_copy_phys_addr (slices ! i) 0x20000000 0x200047FF)"

definition arm_ptw_wf :: "(u64 \<Rightarrow> u32) \<Rightarrow> u32 \<Rightarrow> rab_cfg_t list \<Rightarrow> virt_addr_t \<Rightarrow> bool" where
  "arm_ptw_wf mem root slices cur \<longleftrightarrow> arm_slices_wf root slices \<and>
     (cur AND A32_PGD_MASK = cur \<longrightarrow>
        slice_window arm_copy_phys_addr (slices ! 2) 0x20004000 0x200047FF (a32_table mem root cur))"

text \<open>An address of a 32-bit variable: not null and a multiple of four.\<close>

definition var_addr :: "u32 \<Rightarrow> bool" where
  "var_addr p \<longleftrightarrow> p \<noteq> 0 \<and> p AND 3 = 0"

lemma var_addr_table: "var_addr p \<Longrightarrow> arm_pgd_val_is_pte_addr p = 1"
proof -
  assume p: "var_addr p"
  have "p AND 2 = (p AND 3) AND 2" by (simp add: and.assoc)
  also have "\<dots> = 0" using p by (simp only: var_addr_def) simp
  finally have "p AND 2 = 0" .
  then show ?thesis
    using p by (simp add: var_addr_def arm_pgd_val_is_pte_addr_def arm_pt_val_is_empty_def
        arm_pgd_val_is_type_table_def hw_consts)
qed

lemma a32_page_entry:
  assumes "var_addr p"
  shows "arm_pte_val_is_valid_page_addr p v = 1 \<longleftrightarrow> bit v 0 \<and> bit v 1 \<and> bit v 8"
    and "arm_pte_val_is_valid_page_addr p v \<noteq> 1 \<Longrightarrow> arm_pte_val_is_valid_page_addr p v < 0"
    and "arm_pte_val_is_rdonly_page v \<longleftrightarrow> bit v 7"
proof -
  have user: "arm_pte_val_has_user_perm v \<longleftrightarrow> bit v 8"
    by (simp only: arm_pte_val_has_user_perm_def A32_PTE_USER_def and_single_bit len32)
  show "arm_pte_val_is_valid_page_addr p v = 1 \<longleftrightarrow> bit v 0 \<and> bit v 1 \<and> bit v 8"
    using assms by (auto simp: arm_pte_val_is_valid_page_addr_def arm_pt_val_is_empty_def var_addr_def
        arm_pte_val_is_type_page_def user and_3_eq_3 errno_values)
  show "arm_pte_val_is_valid_page_addr p v \<noteq> 1 \<Longrightarrow> arm_pte_val_is_valid_page_addr p v < 0"
    by (auto simp: arm_pte_val_is_valid_page_addr_def errno_values split: if_splits)
  show "arm_pte_val_is_rdonly_page v \<longleftrightarrow> bit v 7"
    by (simp only: arm_pte_val_is_rdonly_page_def A32_PTE_RDONLY_def and_single_bit len32)
qed

lemma arm_index:
  "unat (arm_pgd_index va) = 2 * (unat va div 2 ^ 21)"
  "unat (arm_pte_index va) = unat va div 2 ^ 12 mod 512"
proof -
  have m: "(2047 :: u32) = mask 11" "(511 :: u32) = mask 9" by (simp_all add: mask_eq_exp_minus_1)
  have lt: "unat va div 2 ^ 21 < 2048" using unat_u32_lt [of va] by simp
  then have "unat (drop_bit 21 va AND 2047) = unat va div 2 ^ 21"
    using unat_and_mask [of "drop_bit 21 va" 11] by (simp add: m unat_drop_bit)
  then show "unat (arm_pgd_index va) = 2 * (unat va div 2 ^ 21)"
    using lt unat_push_bit [of "drop_bit 21 va AND 2047" 1]
    by (simp add: arm_pgd_index_def A32_PGD_SHIFT_def A32_PTRS_PER_PGD_def)
  show "unat (arm_pte_index va) = unat va div 2 ^ 12 mod 512"
    using unat_and_mask [of "drop_bit 12 va" 9]
    by (simp add: arm_pte_index_def PAGE_SHIFT_def A32_PTRS_PER_PTE_def m unat_drop_bit)
qed

lemma a32_table_pgd: "a32_table mem root (va AND A32_PGD_MASK) = a32_table mem root va"
proof -
  have "unat (va AND A32_PGD_MASK) = unat va div 2 ^ 21 * 2 ^ 21"
    unfolding A32_PGD_MASK_def A32_PGD_SHIFT_def push_bit_1_minus_1 by (rule unat_and_not_mask)
  then show ?thesis by (simp add: a32_table_def)
qed

lemma arm_config_slice_simps [simp]:
  "fst (arm_config_pte_rab_slice pa s) = 0"
  "i \<noteq> 2 \<Longrightarrow> l1 (snd (arm_config_pte_rab_slice pa s)) ! i = l1 s ! i"
  "ptw_state.more (snd (arm_config_pte_rab_slice pa s)) = ptw_state.more s"
  by (simp_all add: arm_config_pte_rab_slice_def Let_def hw_consts)

lemma arm_config_slice_wf:
  assumes wf: "arm_slices_wf root (l1 s)"
  shows "arm_slices_wf root (l1 (snd (arm_config_pte_rab_slice pa s)))"
    and "slice_window arm_copy_phys_addr (l1 (snd (arm_config_pte_rab_slice pa s)) ! 2)
           0x20004000 0x200047FF pa"
proof -
  have len: "length (l1 s) = 32" "length (l1 s ! 2) = 8"
    using wf by (auto simp: arm_slices_wf_def)
  let ?c = "snd (config_rab_slice arm_copy_phys_addr A32_PGD_EPTR A32_PTE_EPTR pa (l1 s ! 2) True True)"
  have eq: "l1 (snd (arm_config_pte_rab_slice pa s)) = (l1 s)[2 := ?c]"
    by (simp add: arm_config_pte_rab_slice_def Let_def A32_PTE_SLICE_def)
  have win: "slice_window arm_copy_phys_addr ?c 0x20004000 0x200047FF pa"
    using arm_pa.config_rab_slice_window [OF len(2), of A32_PGD_EPTR A32_PTE_EPTR pa True True]
    by (simp add: A32_PGD_EPTR_def A32_PTE_EPTR_def VMM_PGD_BPTR_def A32_PTRS_PER_PGD_def
        A32_PTRS_PER_PTE_def)
  then show "slice_window arm_copy_phys_addr (l1 (snd (arm_config_pte_rab_slice pa s)) ! 2)
      0x20004000 0x200047FF pa"
    using len by (simp add: eq)
  have "\<forall>sl \<in> set ((l1 s)[2 := ?c]). length sl = 8"
    using wf len set_update_subset_insert [of "l1 s" 2 ?c] by (auto simp: arm_slices_wf_def)
  then show "arm_slices_wf root (l1 (snd (arm_config_pte_rab_slice pa s)))"
    using wf len slice_window_within [OF win] by (simp add: arm_slices_wf_def eq)
qed

locale arm_rab = rab_bus arm_copy_phys_addr "\<lambda>p. ucast p" ld mem for ld :: "u32 rab_ld" and mem +
  fixes pte_var page_var :: u32
  assumes vars: "var_addr pte_var" "var_addr page_var"
begin

lemma arm_ld_window:
  assumes wf: "arm_slices_wf root slices"
    and win: "(i, lo, hi) \<in> {(1, 0x20000000, 0x20003FFF), (2, 0x20004000, 0x200047FF)}"
      "slice_window arm_copy_phys_addr (slices ! i) lo hi pa"
    and d: "unat d \<le> unat hi - unat lo"
  shows "ld slices (lo + d) = mem (of_nat (unat pa + unat d))"
proof -
  have va: "unat (lo + d) = unat lo + unat d" "unat lo + unat d \<le> unat hi"
    using d win(1) by (auto simp: unat_word_ariths)
  have "ld slices (lo + d) = mem (ucast pa + ucast (lo + d - lo))"
  proof (rule ld_window [OF _ win(2)])
    show "i < length slices" using wf win(1) by (auto simp: arm_slices_wf_def)
    show "lo \<le> lo + d" "lo + d \<le> hi" using va by (simp_all add: word_le_nat_alt)
    show "\<not> slice_hit arm_copy_phys_addr (slices ! j) (lo + d)" if "j < length slices" "j \<noteq> i" for j
    proof (cases "j \<in> {1, 2}")
      case True
      then have "slice_within arm_copy_phys_addr (slices ! j)
          (if j = 1 then 0x20000000 else 0x20004000) (if j = 1 then 0x20003FFF else 0x200047FF)"
        using wf by (auto simp: arm_slices_wf_def dest: slice_window_within)
      then show ?thesis
        by (rule slice_within_no_hit)
          (use win(1) True that(2) va in \<open>auto simp: word_less_nat_alt\<close>)
    next
      case False
      then show ?thesis
        using wf that(1) va win(1)
        by (intro slice_outside_no_hit [of _ _ "0x20000000" "0x200047FF"])
          (auto simp: arm_slices_wf_def word_le_nat_alt)
    qed
  qed
  then show ?thesis by simp
qed

lemma arm_walk_ok:
  fixes s :: "'a ptw_state_scheme" and va :: virt_addr_t
  assumes wf: "arm_ptw_wf mem root (l1 s) (cur_mapped_pte_addr s)"
  defines "r \<equiv> arm_virt_addr_to_page_phys_addr ld pte_var page_var va s"
  shows "arm_ptw_wf mem root (l1 (snd r)) (cur_mapped_pte_addr (snd r))"
    and "case fst r of Inl e \<Rightarrow> e < 0 \<and> a32_trans mem root va = None | Inr x \<Rightarrow> a32_trans mem root va = Some x"
proof -
  let ?pgd = "va AND A32_PGD_MASK" and ?pte = "a32_table mem root va"
  let ?m = "if ?pgd \<noteq> cur_mapped_pte_addr s then arm_map_pte_table ld pte_var va s else (0, s)"
  have wf1: "arm_slices_wf root (l1 s)" using wf by (simp add: arm_ptw_wf_def)
  have idem: "(va AND A32_PGD_MASK) AND A32_PGD_MASK = va AND A32_PGD_MASK" by (simp add: and.assoc)
  have aligned: "va AND A32_PGD_MASK = cur_mapped_pte_addr s \<Longrightarrow>
      cur_mapped_pte_addr s AND A32_PGD_MASK = cur_mapped_pte_addr s"
    using idem by metis
  have i: "unat (4 * arm_pgd_index va) = 8 * (unat va div 2 ^ 21)"
    "unat (4 * arm_pte_index va) = 4 * (unat va div 2 ^ 12 mod 512)"
    using arm_index [of va] unat_u32_lt [of va] by (simp_all add: unat_word_ariths)
  have "8 * (unat va div 2 ^ 21) \<le> 0x3FFF" using unat_u32_lt [of va] by simp
  then have "ld (l1 s) (VMM_PGD_BPTR + 4 * arm_pgd_index va) =
      mem (of_nat (unat root + 8 * (unat va div 2 ^ 21)))"
    using arm_ld_window [OF wf1, of 1 "0x20000000" "0x20003FFF" root "4 * arm_pgd_index va"] wf1 i(1)
    by (simp add: arm_slices_wf_def VMM_PGD_BPTR_def)
  then have tab: "arm_map_pte_table ld pte_var va s =
      (0, (snd (arm_config_pte_rab_slice ?pte s))\<lparr>cur_mapped_pte_addr := ?pgd\<rparr>)"
    by (simp add: arm_map_pte_table_def arm_get_pte_phys_addr_def var_addr_table [OF vars(1)]
        a32_table_def case_prod_beta)
  have m: "fst ?m = 0" "cur_mapped_pte_addr (snd ?m) = ?pgd" "arm_slices_wf root (l1 (snd ?m))"
    "slice_window arm_copy_phys_addr (l1 (snd ?m) ! 2) 0x20004000 0x200047FF ?pte"
    using wf aligned a32_table_pgd [of mem root va] arm_config_slice_wf [OF wf1, of ?pte]
    by (auto simp: tab arm_ptw_wf_def)
  have r: "r = (arm_get_page_phys_addr ld page_var (l1 (snd ?m)) (arm_pte_index va), snd ?m)"
    using m(1) by (simp add: r_def arm_virt_addr_to_page_phys_addr_def case_prod_beta del: if_split)
  show "arm_ptw_wf mem root (l1 (snd r)) (cur_mapped_pte_addr (snd r))"
    using m a32_table_pgd [of mem root va] by (simp add: r arm_ptw_wf_def del: if_split)
  have "4 * (unat va div 2 ^ 12 mod 512) \<le> 0x7FF" by simp
  then have "ld (l1 (snd ?m)) (A32_PGD_EPTR + 4 * arm_pte_index va) =
      mem (of_nat (unat ?pte + 4 * (unat va div 2 ^ 12 mod 512)))"
    using arm_ld_window [OF m(3), of 2 "0x20004000" "0x200047FF" ?pte "4 * arm_pte_index va"] m(4) i(2)
    by (simp add: A32_PGD_EPTR_def VMM_PGD_BPTR_def A32_PTRS_PER_PGD_def del: if_split)
  then show "case fst r of Inl e \<Rightarrow> e < 0 \<and> a32_trans mem root va = None
      | Inr x \<Rightarrow> a32_trans mem root va = Some x"
    using a32_page_entry [OF vars(2)]
    by (auto simp: r arm_get_page_phys_addr_def a32_trans_def Let_def)
qed

end

subsection \<open>The library on a 32-bit ARM host\<close>

definition arm_arch :: "u32 rab_ld \<Rightarrow> u32 \<Rightarrow> u32 \<Rightarrow> u32 vmm_arch" where
  "arm_arch ld pte_var page_var =
     \<lparr>pa_copy = arm_copy_phys_addr, pa2pfn = (\<lambda>pa. ucast (arm_phys_addr2pfn pa)),
      pte_slice = A32_PTE_SLICE, walk = arm_virt_addr_to_page_phys_addr ld pte_var page_var\<rparr>"

lemma arm_walk_frame:
  "ptw_state.more (snd (arm_virt_addr_to_page_phys_addr ld pv qv va s)) = ptw_state.more s"
  "2 < i \<Longrightarrow> l1 (snd (arm_virt_addr_to_page_phys_addr ld pv qv va s)) ! i = l1 s ! i"
  by (auto simp: arm_virt_addr_to_page_phys_addr_def arm_map_pte_table_def case_prod_beta split: sum.split)

lemma a32_trans_page: "a32_trans mem root (page_addr va) = a32_trans mem root va"
proof -
  have "unat (page_addr va) div 2 ^ 21 = unat va div 2 ^ 21"
    by (simp add: unat_page_addr div_mult2_eq [of _ 4096 512, simplified])
  moreover have "unat (page_addr va) div 2 ^ 12 = unat va div 2 ^ 12" by (simp add: unat_page_addr)
  ultimately show ?thesis by (simp only: a32_trans_def a32_table_def)
qed

lemma arm_ptw_wf_disable:
  assumes wf: "arm_ptw_wf mem root slices c" and i: "2 < i"
  shows "arm_ptw_wf mem root (slices[i := (slices ! i)[6 := 0]]) c"
proof (cases "i < 32")
  case False
  then show ?thesis using wf by (simp add: arm_ptw_wf_def arm_slices_wf_def list_update_beyond)
next
  case True
  have len: "length slices = 32" "length (slices ! i) = 8"
    using wf True by (auto simp: arm_ptw_wf_def arm_slices_wf_def)
  have "\<forall>sl \<in> set (slices[i := (slices ! i)[6 := 0]]). length sl = 8"
    using wf len set_update_subset_insert [of slices i "(slices ! i)[6 := 0]"]
    by (auto simp: arm_ptw_wf_def arm_slices_wf_def)
  then show ?thesis
    using wf i len True slice_disabled_within(2) [OF len(2)]
    by (auto simp: arm_ptw_wf_def arm_slices_wf_def nth_list_update)
qed

locale arm_host = arm_rab + fixes root :: u32

sublocale arm_host \<subseteq> vm: vmm_walker "arm_arch ld pte_var page_var" "arm_ptw_wf mem root" "a32_trans mem root"
proof unfold_locales
  fix s :: vmm_state and va :: virt_addr_t
  assume wf: "arm_ptw_wf mem root (l1 s) (cur_mapped_pte_addr s)"
  show "case fst (walk (arm_arch ld pte_var page_var) va s) of
      Inl e \<Rightarrow> e < 0 \<and> a32_trans mem root va = None | Inr x \<Rightarrow> a32_trans mem root va = Some x"
    using arm_walk_ok(2) [OF wf] by (simp add: arm_arch_def)
  show "arm_ptw_wf mem root (l1 (snd (walk (arm_arch ld pte_var page_var) va s)))
      (cur_mapped_pte_addr (snd (walk (arm_arch ld pte_var page_var) va s)))"
    using arm_walk_ok(1) [OF wf] by (simp add: arm_arch_def)
next
  fix s :: vmm_state and va :: virt_addr_t
  show "ptw_state.more (snd (walk (arm_arch ld pte_var page_var) va s)) = ptw_state.more s"
    by (simp add: arm_arch_def arm_walk_frame)
  show "a32_trans mem root (page_addr va) = a32_trans mem root va" by (rule a32_trans_page)
  show "l1 (snd (walk (arm_arch ld pte_var page_var) va s)) ! i = l1 s ! i"
    if "pte_slice (arm_arch ld pte_var page_var) < i" for i
    using that arm_walk_frame(2) by (simp add: arm_arch_def A32_PTE_SLICE_def)
  show "arm_ptw_wf mem root (slices[i := (slices ! i)[6 := 0]]) c"
    if "arm_ptw_wf mem root slices c" "pte_slice (arm_arch ld pte_var page_var) < i" for slices c i
    using that arm_ptw_wf_disable by (simp add: arm_arch_def A32_PTE_SLICE_def)
qed

interpretation arm_ram:
  arm_host "bus_load arm_copy_phys_addr (\<lambda>p. ucast p) mem" mem "0x10000100" "0x10000104" root
  for mem root
  by unfold_locales (simp_all add: var_addr_def)

context arm_host
begin

lemmas vmm_handle_ok = vm.handle_rab_misses_loop_ok

end

text \<open>A concrete host: the first-level table at \<open>0x10000000\<close> is empty, and address 0 of main
  memory happens to hold a word that looks like a page entry.\<close>

definition a32_ex_mem :: "u64 \<Rightarrow> u32" where
  "a32_ex_mem a = (if a = 4 then 0x00777103 else 0)"

definition a32_ex_slices :: "rab_cfg_t list" where
  "a32_ex_slices =
     (replicate 32 (replicate 8 0))[1 := [0x20000000, 0, 0x20003FFF, 0, 0x10000000, 0, 3, 0]]"

abbreviation "a32_ex_ld \<equiv> bus_load arm_copy_phys_addr (\<lambda>p. ucast p) a32_ex_mem"

lemma a32_ex_wf: "arm_ptw_wf a32_ex_mem 0x10000000 a32_ex_slices 0xFFFFFFFF"
proof -
  have zero: "slice_within arm_copy_phys_addr (replicate 8 0) lo hi"
    "slice_outside arm_copy_phys_addr (replicate 8 0) lo hi" for lo hi
    using slice_disabled_within [of "replicate 8 0" arm_copy_phys_addr lo hi]
    by (simp_all add: numeral_eq_Suc)
  have nth: "a32_ex_slices ! i = replicate 8 0" if "i < 32" "i \<noteq> 1" for i
    using that by (simp add: a32_ex_slices_def)
  have "a32_ex_slices ! 1 = [0x20000000, 0, 0x20003FFF, 0, 0x10000000, 0, 3, 0]"
    by (simp add: a32_ex_slices_def)
  then have "slice_window arm_copy_phys_addr (a32_ex_slices ! 1) 0x20000000 0x20003FFF 0x10000000"
    by (simp add: slice_window_def read_rab_cfg_val_def rab_slice_is_enabled_def
        arm_copy_phys_addr_def hw_consts)
  moreover have "\<forall>sl \<in> set a32_ex_slices. length sl = 8"
    by (auto simp: a32_ex_slices_def in_set_conv_nth nth_list_update)
  moreover have "(0xFFFFFFFF :: u32) AND A32_PGD_MASK \<noteq> 0xFFFFFFFF" by code_simp
  moreover have "length a32_ex_slices = 32" by (simp add: a32_ex_slices_def)
  ultimately show ?thesis
    using nth zero by (simp add: arm_ptw_wf_def arm_slices_wf_def)
qed

subsection \<open>Properties\<close>



text \<open>The check of the first-level entry on a 32-bit ARM host never fires: with a non-null, word
  aligned variable to hold the entry, \<open>get_pte_phys_addr\<close> accepts every entry, an empty one and
  a section included, and returns the entry without its low 12 bits as the address of a page table.\<close>

theorem arm_first_level_entry_unchecked:
  assumes "var_addr pte_var"
  shows "arm_get_pte_phys_addr ld pte_var slices idx = Inr (ld slices (VMM_PGD_BPTR + 4 * idx) AND PAGE_MASK)"
  using var_addr_table [OF assms] by (simp add: arm_get_pte_phys_addr_def)

theorem arm_first_level_entry_unchecked_witness:
  "arm_get_pte_phys_addr (\<lambda>_ _. 0) 0x10000100 a32_ex_slices 4 = Inr 0"
  using arm_first_level_entry_unchecked [of "0x10000100" "\<lambda>_ _. 0" a32_ex_slices 4]
  by (simp add: var_addr_def)

end
