(* ===== verification/Hero_Perf.thy ===== *)
theory Hero_Perf
  imports Prelude
begin

text \<open>
  The performance measurement API of \<open>libhero-target\<close> (\<open>pulp/hero-target.c\<close>,
  \<open>inc/hero-target.h\<close>). Every core has its own library state (a pointer to
  \<open>hero_perf_t\<close>, null before \<open>hero_perf_init\<close>) and its own control and status registers,
  so the model is the state of one core. CSRs are a map from CSR numbers to their 32-bit values;
  each \<open>switch\<close> over \<open>csrr\<close>/\<open>csrw\<close> instructions is an access to the CSR whose number it
  computes.

  A function that dereferences the null pointer before initialization has no result: operations
  return an option. What the hardware counts is outside the sources: the locale \<open>hpm_hw\<close>
  states what the measurements rely on.
\<close>

datatype hero_perf_event_t =
    hero_perf_event_cycle
  | hero_perf_event_instr_retired
  | hero_perf_event_load
  | hero_perf_event_store
  | hero_perf_event_load_external
  | hero_perf_event_store_external
  | hero_perf_event_stall_load

type_synonym csr_file = "nat \<Rightarrow> u32"

record perf_core =
  hero_perf :: "u32 option"  \<comment> \<open>\<open>mcountinhibit\<close> behind the pointer, None for the null pointer\<close>
  csr :: csr_file

definition HERO_ENOMEM :: int where [hw_consts]: "HERO_ENOMEM = 12"
definition HERO_EBUSY :: int where [hw_consts]: "HERO_EBUSY = 16"
definition HERO_ENODEV :: int where [hw_consts]: "HERO_ENODEV = 19"
definition HERO_EINVAL :: int where [hw_consts]: "HERO_EINVAL = 22"
definition HERO_EALREADY :: int where [hw_consts]: "HERO_EALREADY = 114"

definition HPM_PROGRAMMABLE_COUNTERS :: nat where [hw_consts]: "HPM_PROGRAMMABLE_COUNTERS = 2"

subsection \<open>Registers\<close>

definition set_mhpmevent :: "nat \<Rightarrow> u32 \<Rightarrow> csr_file \<Rightarrow> csr_file" where
  "set_mhpmevent counter event r =
     (if 3 \<le> counter \<and> counter \<le> 31 then r(0x320 + counter := event) else r)"

definition get_mhpmevent :: "nat \<Rightarrow> csr_file \<Rightarrow> u32" where
  "get_mhpmevent counter r = (if 3 \<le> counter \<and> counter \<le> 31 then r (0x320 + counter) else 0)"

definition inhibit_disable_mask :: "nat \<Rightarrow> u32" where
  "inhibit_disable_mask counter_num = push_bit counter_num 1"

definition inhibit_enable_mask :: "nat \<Rightarrow> u32" where
  "inhibit_enable_mask counter_num = NOT (inhibit_disable_mask counter_num)"

definition counter_inhibit :: "nat \<Rightarrow> csr_file \<Rightarrow> csr_file" where
  "counter_inhibit counter_num r = r(0x320 := r 0x320 OR inhibit_disable_mask counter_num)"

definition counter_uninhibit :: "nat \<Rightarrow> csr_file \<Rightarrow> csr_file" where
  "counter_uninhibit counter_num r = r(0x320 := r 0x320 AND NOT (inhibit_disable_mask counter_num))"

definition counter_reset :: "nat \<Rightarrow> csr_file \<Rightarrow> csr_file" where
  "counter_reset counter_num r =
     (if counter_num = 0 \<or> 2 \<le> counter_num \<and> counter_num \<le> 31 then r(0xB00 + counter_num := 0) else r)"

subsection \<open>Events\<close>

fun event_num :: "hero_perf_event_t \<Rightarrow> u32" where
  "event_num hero_perf_event_cycle = 0"
| "event_num hero_perf_event_instr_retired = 2"
| "event_num hero_perf_event_stall_load = 1"
| "event_num hero_perf_event_load = 4"
| "event_num hero_perf_event_store = 5"
| "event_num hero_perf_event_load_external = 15"
| "event_num hero_perf_event_store_external = 16"

fun event_static :: "hero_perf_event_t \<Rightarrow> bool" where
  "event_static hero_perf_event_cycle = True"
| "event_static hero_perf_event_instr_retired = True"
| "event_static _ = False"

definition event_implemented :: "hero_perf_event_t \<Rightarrow> bool" where
  "event_implemented event = (if event_static event then True else event_num event \<noteq> 0)"

definition counter_allocated :: "nat \<Rightarrow> perf_core \<Rightarrow> bool option" where
  "counter_allocated counter_num s =
     map_option (\<lambda>inh. drop_bit counter_num inh AND 1 = 0) (hero_perf s)"

definition event_counter :: "hero_perf_event_t \<Rightarrow> perf_core \<Rightarrow> int option" where
  "event_counter event s =
     (if event_static event then
        Option.bind (counter_allocated (unat (event_num event)) s)
          (\<lambda>a. Some (if a then uint (event_num event) else - 1))
      else
        Some (case find (\<lambda>i. get_mhpmevent i (csr s) = event_num event)
                     [3 ..< 3 + HPM_PROGRAMMABLE_COUNTERS] of
                Some i \<Rightarrow> int i
              | None \<Rightarrow> - 1))"

text \<open>The \<open>p.ff1\<close> instruction: the position of the lowest set bit, 32 if there is none.\<close>

definition ff1 :: "u32 \<Rightarrow> nat" where
  "ff1 w = (case find (\<lambda>i. bit w i) [0 ..< 32] of Some i \<Rightarrow> i | None \<Rightarrow> 32)"

subsection \<open>Operations\<close>

definition hero_perf_pause_all :: "perf_core \<Rightarrow> perf_core" where
  "hero_perf_pause_all s = s\<lparr>csr := (csr s)(0x320 := NOT 0)\<rparr>"

text \<open>\<open>malloc_ok\<close>: whether the L1 allocator delivers the memory for the state.\<close>

definition hero_perf_init :: "bool \<Rightarrow> perf_core \<Rightarrow> int \<times> perf_core" where
  "hero_perf_init malloc_ok s =
     (if hero_perf s \<noteq> None then (- HERO_EALREADY, s)
      else if \<not> malloc_ok then (- HERO_ENOMEM, s\<lparr>hero_perf := None\<rparr>)
      else let s1 = s\<lparr>hero_perf := Some (NOT 0)\<rparr>;
               s2 = s1\<lparr>csr := fold (\<lambda>i. set_mhpmevent i 0) [3 ..< 3 + HPM_PROGRAMMABLE_COUNTERS] (csr s1)\<rparr>
           in (0, hero_perf_pause_all s2))"

definition hero_perf_deinit :: "perf_core \<Rightarrow> perf_core" where
  "hero_perf_deinit s = (if hero_perf s = None then s else s\<lparr>hero_perf := None\<rparr>)"

definition perf_counter_idx :: "hero_perf_event_t \<Rightarrow> u32 \<Rightarrow> int + nat" where
  "perf_counter_idx event inh =
     (if event = hero_perf_event_cycle then Inr 0
      else if event = hero_perf_event_instr_retired then Inr 2
      else let first_free_counter = ff1 (drop_bit 3 inh)
           in if first_free_counter \<ge> 2 then Inl (- HERO_EBUSY) else Inr (first_free_counter + 3))"

definition hero_perf_alloc :: "hero_perf_event_t \<Rightarrow> perf_core \<Rightarrow> (int \<times> perf_core) option" where
  "hero_perf_alloc event s =
     (if \<not> event_implemented event then Some (- HERO_ENODEV, s)
      else Option.bind (event_counter event s) (\<lambda>c.
        if c \<ge> 0 then Some (- HERO_EALREADY, s)
        else Option.bind (hero_perf s) (\<lambda>inh.
          case perf_counter_idx event inh of
            Inl e \<Rightarrow> Some (e, s)
          | Inr counter_idx \<Rightarrow>
              Some (0, s\<lparr>hero_perf := Some (inh AND inhibit_enable_mask counter_idx),
                         csr := counter_reset counter_idx (counter_inhibit counter_idx
                                  (set_mhpmevent counter_idx (event_num event) (csr s)))\<rparr>))))"

definition hero_perf_dealloc :: "hero_perf_event_t \<Rightarrow> perf_core \<Rightarrow> (int \<times> perf_core) option" where
  "hero_perf_dealloc event s =
     Option.bind (event_counter event s) (\<lambda>c.
       if c < 0 then Some (- HERO_EALREADY, s)
       else Option.bind (hero_perf s) (\<lambda>inh.
         Some (0, s\<lparr>csr := set_mhpmevent (nat c) 0 (counter_inhibit (nat c) (csr s)),
                    hero_perf := Some (inh OR inhibit_disable_mask (nat c))\<rparr>)))"

definition with_counter ::
    "hero_perf_event_t \<Rightarrow> (nat \<Rightarrow> csr_file \<Rightarrow> csr_file) \<Rightarrow> perf_core \<Rightarrow> (int \<times> perf_core) option" where
  "with_counter event f s =
     Option.bind (event_counter event s) (\<lambda>c.
       if c < 0 then Some (- HERO_EINVAL, s) else Some (0, s\<lparr>csr := f (nat c) (csr s)\<rparr>))"

definition hero_perf_reset :: "hero_perf_event_t \<Rightarrow> perf_core \<Rightarrow> (int \<times> perf_core) option" where
  "hero_perf_reset event s = with_counter event counter_reset s"

definition hero_perf_reset_all :: "perf_core \<Rightarrow> perf_core" where
  "hero_perf_reset_all s =
     s\<lparr>csr := fold counter_reset [0 ..< 3 + HPM_PROGRAMMABLE_COUNTERS] (csr s)\<rparr>"

definition hero_perf_pause :: "hero_perf_event_t \<Rightarrow> perf_core \<Rightarrow> (int \<times> perf_core) option" where
  "hero_perf_pause event s = with_counter event counter_inhibit s"

definition hero_perf_continue :: "hero_perf_event_t \<Rightarrow> perf_core \<Rightarrow> (int \<times> perf_core) option" where
  "hero_perf_continue event s = with_counter event counter_uninhibit s"

definition hero_perf_continue_all :: "perf_core \<Rightarrow> perf_core option" where
  "hero_perf_continue_all s =
     map_option (\<lambda>inh. s\<lparr>csr := (csr s)(0x320 := csr s 0x320 AND NOT (NOT inh))\<rparr>) (hero_perf s)"

definition hero_perf_read :: "hero_perf_event_t \<Rightarrow> perf_core \<Rightarrow> int option" where
  "hero_perf_read event s =
     Option.bind (event_counter event s) (\<lambda>c.
       if c < 0 then Some (- HERO_EINVAL) else Some (uint (csr s (0xB00 + nat c))))"

subsection \<open>Counters of events\<close>

lemma drop_bit_and_1: "drop_bit n w AND 1 = (0 :: u32) \<longleftrightarrow> \<not> bit w n"
  by (simp add: and_one_eq bit_iff_odd_drop_bit flip: even_iff_mod_2_eq_zero)

lemma event_counter_static:
  assumes "event_static e" "hero_perf s = Some inh"
  shows "event_counter e s = Some (if bit inh (unat (event_num e)) then - 1 else int (unat (event_num e)))"
  using assms by (simp add: event_counter_def counter_allocated_def drop_bit_and_1)

lemma event_counter_dynamic:
  assumes "\<not> event_static e"
  shows "event_counter e s = Some (if csr s 0x323 = event_num e then 3
           else if csr s 0x324 = event_num e then 4 else - 1)"
proof -
  have "[3 ..< 3 + HPM_PROGRAMMABLE_COUNTERS] = [3, 4]"
    by (simp add: HPM_PROGRAMMABLE_COUNTERS_def upt_rec)
  then show ?thesis using assms by (simp add: event_counter_def get_mhpmevent_def)
qed

lemma event_counter_cong:
  assumes "hero_perf s' = hero_perf s" "csr s' 0x323 = csr s 0x323" "csr s' 0x324 = csr s 0x324"
  shows "event_counter e s' = event_counter e s"
proof (cases "event_static e")
  case True
  then show ?thesis using assms(1) by (simp add: event_counter_def counter_allocated_def)
next
  case False
  then show ?thesis using assms(2,3) by (simp add: event_counter_dynamic)
qed

lemma event_num_static: "event_static e \<Longrightarrow> event_num e = (if e = hero_perf_event_cycle then 0 else 2)"
  by (cases e) simp_all

definition dyn_nums :: "u32 set" where "dyn_nums = {1, 4, 5, 15, 16}"

lemma event_num_dynamic: "\<not> event_static e \<Longrightarrow> event_num e \<in> dyn_nums \<and> event_num e \<noteq> 0"
  by (cases e) (simp_all add: dyn_nums_def)

lemma event_num_inj: "\<not> event_static e \<Longrightarrow> \<not> event_static e' \<Longrightarrow> event_num e = event_num e' \<longleftrightarrow> e = e'"
  by (cases e; cases e') simp_all

lemma all_events_implemented: "event_implemented e"
  using event_num_dynamic by (auto simp: event_implemented_def)

lemma ff1_cases:
  "bit w 0 \<Longrightarrow> ff1 w = 0"
  "\<not> bit w 0 \<Longrightarrow> bit w 1 \<Longrightarrow> ff1 w = 1"
  "\<not> bit w 0 \<Longrightarrow> \<not> bit w 1 \<Longrightarrow> 2 \<le> ff1 w"
proof -
  have l: "[0 ..< 32] = 0 # 1 # [2 ..< 32]" by (simp add: upt_rec)
  show "bit w 0 \<Longrightarrow> ff1 w = 0" "\<not> bit w 0 \<Longrightarrow> bit w 1 \<Longrightarrow> ff1 w = 1"
    unfolding ff1_def l by simp_all
  show "\<not> bit w 0 \<Longrightarrow> \<not> bit w 1 \<Longrightarrow> 2 \<le> ff1 w"
  proof (cases "find (bit w) [2 ..< 32]")
    case None
    then show "\<not> bit w 0 \<Longrightarrow> \<not> bit w 1 \<Longrightarrow> 2 \<le> ff1 w" unfolding ff1_def l by (simp del: upt_rec_numeral)
  next
    case (Some i)
    moreover from this have "2 \<le> i" by (auto simp: find_Some_iff simp del: upt_rec_numeral)
    ultimately show "\<not> bit w 0 \<Longrightarrow> \<not> bit w 1 \<Longrightarrow> 2 \<le> ff1 w"
      unfolding ff1_def l by (simp del: upt_rec_numeral)
  qed
qed

lemma perf_counter_idx_cases:
  "event_static e \<Longrightarrow> perf_counter_idx e inh = Inr (unat (event_num e))"
  "\<not> event_static e \<Longrightarrow> bit inh 3 \<Longrightarrow> perf_counter_idx e inh = Inr 3"
  "\<not> event_static e \<Longrightarrow> \<not> bit inh 3 \<Longrightarrow> bit inh 4 \<Longrightarrow> perf_counter_idx e inh = Inr 4"
  "\<not> event_static e \<Longrightarrow> \<not> bit inh 3 \<Longrightarrow> \<not> bit inh 4 \<Longrightarrow> perf_counter_idx e inh = Inl (- HERO_EBUSY)"
proof -
  have b: "bit (drop_bit 3 inh) 0 = bit inh 3" "bit (drop_bit 3 inh) 1 = bit inh 4"
    by (simp_all only: bit_drop_bit_eq o_apply) simp_all
  show "event_static e \<Longrightarrow> perf_counter_idx e inh = Inr (unat (event_num e))"
    by (cases e) (simp_all add: perf_counter_idx_def)
  show "\<not> event_static e \<Longrightarrow> bit inh 3 \<Longrightarrow> perf_counter_idx e inh = Inr 3"
    using ff1_cases(1) [of "drop_bit 3 inh"] b by (auto simp: perf_counter_idx_def)
  show "\<not> event_static e \<Longrightarrow> \<not> bit inh 3 \<Longrightarrow> bit inh 4 \<Longrightarrow> perf_counter_idx e inh = Inr 4"
    using ff1_cases(2) [of "drop_bit 3 inh"] b by (auto simp: perf_counter_idx_def)
  show "\<not> event_static e \<Longrightarrow> \<not> bit inh 3 \<Longrightarrow> \<not> bit inh 4 \<Longrightarrow> perf_counter_idx e inh = Inl (- HERO_EBUSY)"
    using ff1_cases(3) [of "drop_bit 3 inh"] b by (auto simp: perf_counter_idx_def Let_def)
qed

subsection \<open>The invariant\<close>

text \<open>
  The library's record of free counters agrees with the event selectors of the two programmable
  counters, no event is selected twice, counters that do not exist are never recorded as in use,
  and every free counter is stopped.
\<close>

definition perf_inv :: "perf_core \<Rightarrow> bool" where
  "perf_inv s \<longleftrightarrow> (case hero_perf s of None \<Rightarrow> True | Some inh \<Rightarrow>
     (bit inh 3 \<longleftrightarrow> csr s 0x323 = 0) \<and> (bit inh 4 \<longleftrightarrow> csr s 0x324 = 0) \<and>
     (csr s 0x323 = csr s 0x324 \<longrightarrow> csr s 0x323 = 0) \<and>
     csr s 0x323 \<in> insert 0 dyn_nums \<and> csr s 0x324 \<in> insert 0 dyn_nums \<and>
     (\<forall>c < 32. c \<notin> {0, 2, 3, 4} \<longrightarrow> bit inh c) \<and>
     (\<forall>c < 32. bit inh c \<longrightarrow> bit (csr s 0x320) c))"

definition allocated :: "hero_perf_event_t \<Rightarrow> perf_core \<Rightarrow> bool" where
  "allocated e s \<longleftrightarrow> (case event_counter e s of Some c \<Rightarrow> c \<ge> 0 | None \<Rightarrow> False)"

lemma bit_enable [simp]: "bit (inh AND inhibit_enable_mask n) c \<longleftrightarrow> bit inh c \<and> c \<noteq> n"
  by (auto simp: inhibit_enable_mask_def inhibit_disable_mask_def bit_and_iff bit_not_iff bit_exp_iff
      dest: bit_imp_le_length simp flip: push_bit_eq_mult)

lemma bit_disable [simp]: "n < 32 \<Longrightarrow> bit (inh OR inhibit_disable_mask n) c \<longleftrightarrow> bit inh c \<or> c = n"
  by (auto simp: inhibit_disable_mask_def bit_or_iff bit_exp_iff dest: bit_imp_le_length)

lemma bit_undisable [simp]: "bit (r AND NOT (inhibit_disable_mask n)) c \<longleftrightarrow> bit r c \<and> c \<noteq> n"
  using bit_enable [of r n c] by (simp only: inhibit_enable_mask_def)

lemma static_num_cases: "event_static e \<Longrightarrow> unat (event_num e) = 0 \<or> unat (event_num e) = 2"
  by (cases e) simp_all

lemma allocated_static:
  "hero_perf s = Some inh \<Longrightarrow> event_static e \<Longrightarrow> allocated e s \<longleftrightarrow> \<not> bit inh (unat (event_num e))"
  by (simp add: allocated_def event_counter_static)

lemma allocated_dynamic:
  "\<not> event_static e \<Longrightarrow> allocated e s \<longleftrightarrow> csr s 0x323 = event_num e \<or> csr s 0x324 = event_num e"
  by (simp add: allocated_def event_counter_dynamic)

lemma event_counter_defined:
  assumes "hero_perf s = Some inh"
  shows "event_counter e s \<noteq> None"
  using assms by (cases "event_static e") (simp_all add: event_counter_static event_counter_dynamic)

text \<open>The counter of an allocated event: one of the four that exist, recorded as in use.\<close>

lemma event_counter_allocated:
  assumes inv: "perf_inv s" and init: "hero_perf s = Some inh" and c: "event_counter e s = Some c" "0 \<le> c"
  shows "nat c \<in> {0, 2, 3, 4}" "\<not> bit inh (nat c)"
    "event_static e \<Longrightarrow> nat c = unat (event_num e)"
    "\<not> event_static e \<Longrightarrow> nat c \<in> {3, 4} \<and> csr s (0x320 + nat c) = event_num e"
proof -
  have static: "c = int (unat (event_num e)) \<and> \<not> bit inh (unat (event_num e))" if "event_static e"
    using c unfolding event_counter_static [OF that init] by (simp split: if_splits)
  have dynamic: "c = 3 \<and> csr s 0x323 = event_num e \<or> c = 4 \<and> csr s 0x324 = event_num e"
    if "\<not> event_static e"
    using c unfolding event_counter_dynamic [OF that] by (simp split: if_splits)
  show "event_static e \<Longrightarrow> nat c = unat (event_num e)" using static by simp
  show "\<not> event_static e \<Longrightarrow> nat c \<in> {3, 4} \<and> csr s (0x320 + nat c) = event_num e"
    using dynamic by fastforce
  show "nat c \<in> {0, 2, 3, 4}"
    using static static_num_cases [of e] dynamic by (cases "event_static e") auto
  have "\<not> bit inh (nat c)" if "\<not> event_static e"
    using dynamic [OF that] event_num_dynamic [OF that] inv by (auto simp: perf_inv_def init)
  then show "\<not> bit inh (nat c)" using static by (cases "event_static e") auto
qed

text \<open>Different events have different counters.\<close>

lemma event_counter_inj:
  assumes "perf_inv s" "hero_perf s = Some inh"
    and "event_counter e s = Some c" "event_counter e' s = Some c" "0 \<le> c"
  shows "e = e'"
proof -
  note c = event_counter_allocated [OF assms(1,2,3,5)] and c' = event_counter_allocated [OF assms(1,2,4,5)]
  have same: "event_static e = event_static e'"
    using c(3,4) c'(3,4) static_num_cases [of e] static_num_cases [of e']
    by (cases "event_static e"; cases "event_static e'"; simp) fastforce+
  show ?thesis
  proof (cases "event_static e")
    case True
    then have "event_num e = event_num e'" using c(3) c'(3) same by (simp add: word_eq_unat)
    then show ?thesis using True same by (cases e; cases e'; simp)
  next
    case False
    then show ?thesis using c(4) c'(4) same event_num_inj [of e e'] by metis
  qed
qed

subsection \<open>Allocation and deallocation\<close>

definition perf_take :: "nat \<Rightarrow> hero_perf_event_t \<Rightarrow> u32 \<Rightarrow> perf_core \<Rightarrow> perf_core" where
  "perf_take k e inh s =
     s\<lparr>hero_perf := Some (inh AND inhibit_enable_mask k),
       csr := counter_reset k (counter_inhibit k (set_mhpmevent k (event_num e) (csr s)))\<rparr>"

definition perf_drop :: "nat \<Rightarrow> u32 \<Rightarrow> perf_core \<Rightarrow> perf_core" where
  "perf_drop k inh s =
     s\<lparr>csr := set_mhpmevent k 0 (counter_inhibit k (csr s)),
       hero_perf := Some (inh OR inhibit_disable_mask k)\<rparr>"

lemmas perf_reg_defs = counter_reset_def counter_inhibit_def counter_uninhibit_def set_mhpmevent_def

lemma perf_take_inv:
  assumes inv: "perf_inv s" and init: "hero_perf s = Some inh"
    and k: "if event_static e then k = unat (event_num e)
            else k \<in> {3, 4} \<and> bit inh k \<and> csr s 0x323 \<noteq> event_num e \<and> csr s 0x324 \<noteq> event_num e"
  shows "perf_inv (perf_take k e inh s)"
proof (cases "event_static e")
  case True
  then have "k = 0 \<or> k = 2" using k static_num_cases by auto
  then show ?thesis
    using inv by (auto simp: perf_inv_def init perf_take_def perf_reg_defs)
next
  case False
  then have "k = 3 \<or> k = 4" and num: "event_num e \<in> dyn_nums" "event_num e \<noteq> 0"
    and ne: "csr s 0x323 \<noteq> event_num e" "csr s 0x324 \<noteq> event_num e"
    using k event_num_dynamic by auto
  then show ?thesis
    using inv by (auto simp: perf_inv_def init perf_take_def perf_reg_defs)
qed

lemma perf_drop_inv:
  assumes "perf_inv s" "hero_perf s = Some inh" "k \<in> {0, 2, 3, 4}"
  shows "perf_inv (perf_drop k inh s)"
proof -
  have b: "bit (inh OR inhibit_disable_mask k) c \<longleftrightarrow> bit inh c \<or> c = k"
    "bit (csr s 0x320 OR inhibit_disable_mask k) c \<longleftrightarrow> bit (csr s 0x320) c \<or> c = k" for c
    using assms(3) by auto
  have k: "k = 0 \<or> k = 2 \<or> k = 3 \<or> k = 4" using assms(3) by simp
  have r: "csr (perf_drop k inh s) 0x320 = csr s 0x320 OR inhibit_disable_mask k"
    "csr (perf_drop k inh s) 0x323 = (if k = 3 then 0 else csr s 0x323)"
    "csr (perf_drop k inh s) 0x324 = (if k = 4 then 0 else csr s 0x324)"
    "hero_perf (perf_drop k inh s) = Some (inh OR inhibit_disable_mask k)"
    using k by (auto simp: perf_drop_def perf_reg_defs)
  show ?thesis
    unfolding perf_inv_def r option.case b using assms(1,2) k
    by (simp add: perf_inv_def)
qed

lemma hero_perf_alloc_cases:
  assumes inv: "perf_inv s" and init: "hero_perf s = Some inh"
  obtains "allocated e s" "hero_perf_alloc e s = Some (- HERO_EALREADY, s)"
  | "\<not> event_static e" "\<not> bit inh 3" "\<not> bit inh 4" "\<not> allocated e s"
    "hero_perf_alloc e s = Some (- HERO_EBUSY, s)"
  | k where "\<not> allocated e s" "k \<in> {0, 2, 3, 4}" "bit inh k"
    "if event_static e then k = unat (event_num e) else k \<in> {3, 4}"
    "hero_perf_alloc e s = Some (0, perf_take k e inh s)"
proof -
  obtain c where c: "event_counter e s = Some c" using event_counter_defined [OF init] by fastforce
  have al: "allocated e s \<longleftrightarrow> 0 \<le> c" by (simp add: allocated_def c)
  note alloc = hero_perf_alloc_def all_events_implemented c init
  consider "0 \<le> c" | "c < 0" "event_static e" | "c < 0" "\<not> event_static e" by linarith
  then show thesis
  proof cases
    case 1
    then show thesis using that(1) al by (simp add: alloc)
  next
    case 2
    then have "bit inh (unat (event_num e))" using al allocated_static [OF init] by auto
    then show thesis
      using 2 al static_num_cases [of e]
      by (intro that(3) [of "unat (event_num e)"])
        (auto simp: alloc perf_counter_idx_cases(1) perf_take_def)
  next
    case 3
    show thesis
    proof (cases "bit inh 3 \<or> bit inh 4")
      case True
      then show thesis
        using 3 that(3) [of "if bit inh 3 then 3 else 4"] al
        by (cases "bit inh 3") (simp_all add: alloc perf_counter_idx_cases(2,3) perf_take_def)
    next
      case False
      then show thesis using 3 that(2) al by (simp add: alloc perf_counter_idx_cases(4))
    qed
  qed
qed

text \<open>Taking a counter adds exactly the event to the allocated ones, with a stopped counter at 0;
  the counters of the others are untouched.\<close>

lemma perf_take_effect:
  assumes inv: "perf_inv s" and init: "hero_perf s = Some inh" and "\<not> allocated e s"
    and k: "k \<in> {0, 2, 3, 4}" "bit inh k" "if event_static e then k = unat (event_num e) else k \<in> {3, 4}"
  shows "event_counter e (perf_take k e inh s) = Some (int k)"
    and "e' \<noteq> e \<Longrightarrow> event_counter e' (perf_take k e inh s) = event_counter e' s"
    and "csr (perf_take k e inh s) (0xB00 + k) = 0"
    and "c \<in> {0, 2, 3, 4} \<Longrightarrow> c \<noteq> k \<Longrightarrow> csr (perf_take k e inh s) (0xB00 + c) = csr s (0xB00 + c)"
    and "bit (csr (perf_take k e inh s) 0x320) k"
proof -
  let ?s = "perf_take k e inh s"
  have init': "hero_perf ?s = Some (inh AND inhibit_enable_mask k)" by (simp add: perf_take_def)
  show "event_counter e ?s = Some (int k)"
  proof (cases "event_static e")
    case True
    then show ?thesis unfolding event_counter_static [OF True init'] using k by simp
  next
    case False
    then have "k = 3 \<or> k = 4 \<and> csr s 0x323 \<noteq> event_num e"
      using k assms(3) allocated_dynamic by auto
    then show ?thesis
      using False by (auto simp: event_counter_dynamic perf_take_def perf_reg_defs)
  qed
  show "event_counter e' ?s = event_counter e' s" if "e' \<noteq> e"
  proof (cases "event_static e'")
    case True
    have "unat (event_num e') \<noteq> k"
    proof (cases "event_static e")
      case stat: True
      then show ?thesis using True k(3) that by (cases e; cases e'; simp)
    next
      case False
      then show ?thesis using k(3) static_num_cases [OF True] by auto
    qed
    then show ?thesis
      using True by (simp add: event_counter_static [OF _ init'] event_counter_static [OF _ init])
  next
    case False
    have "csr s (0x320 + k) = 0" if "k \<in> {3, 4}" using that k(2) inv by (auto simp: perf_inv_def init)
    moreover have "event_num e \<noteq> event_num e'" if "k \<in> {3, 4}"
      using that k(3) False \<open>e' \<noteq> e\<close> event_num_inj [of e e'] static_num_cases [of e]
      by (cases "event_static e") auto
    ultimately show ?thesis
      using k(1) False event_num_dynamic [OF False]
      by (auto simp: event_counter_dynamic perf_take_def perf_reg_defs)
  qed
  show "csr ?s (0xB00 + k) = 0" using k(1) by (auto simp: perf_take_def perf_reg_defs)
  show "csr ?s (0xB00 + c) = csr s (0xB00 + c)" if "c \<in> {0, 2, 3, 4}" "c \<noteq> k"
    using that k(1) by (auto simp: perf_take_def perf_reg_defs)
  show "bit (csr ?s 0x320) k" using k(1) by (auto simp: perf_take_def perf_reg_defs)
qed

lemma perf_drop_effect:
  assumes inv: "perf_inv s" and init: "hero_perf s = Some inh"
    and c: "event_counter e s = Some c" "0 \<le> c" and k: "k = nat c"
  shows "event_counter e (perf_drop k inh s) = Some (- 1)"
    and "e' \<noteq> e \<Longrightarrow> event_counter e' (perf_drop k inh s) = event_counter e' s"
proof -
  let ?s = "perf_drop k inh s"
  note ca = event_counter_allocated [OF inv init c, folded k]
  have init': "hero_perf ?s = Some (inh OR inhibit_disable_mask k)" by (simp add: perf_drop_def)
  have b: "bit (inh OR inhibit_disable_mask k) n \<longleftrightarrow> bit inh n \<or> n = k" for n using ca(1) by auto
  have sel: "csr ?s 0x323 = (if k = 3 then 0 else csr s 0x323)"
    "csr ?s 0x324 = (if k = 4 then 0 else csr s 0x324)"
    using ca(1) by (auto simp: perf_drop_def perf_reg_defs)
  have distinct: "csr s 0x323 = csr s 0x324 \<Longrightarrow> csr s 0x323 = 0"
    using inv by (auto simp: perf_inv_def init)
  show "event_counter e ?s = Some (- 1)"
  proof (cases "event_static e")
    case True
    then show ?thesis unfolding event_counter_static [OF True init'] b using ca(3) by simp
  next
    case False
    then have "k = 3 \<and> csr s 0x323 = event_num e \<or> k = 4 \<and> csr s 0x324 = event_num e \<and> csr s 0x323 \<noteq> event_num e"
      using ca(4) distinct event_num_dynamic [OF False] by auto
    then show ?thesis
      unfolding event_counter_dynamic [OF False] sel using distinct event_num_dynamic [OF False] by auto
  qed
  show "event_counter e' ?s = event_counter e' s" if "e' \<noteq> e"
  proof (cases "event_static e'")
    case True
    have "unat (event_num e') \<noteq> k"
    proof
      assume eq: "unat (event_num e') = k"
      then have "event_counter e' s = Some c"
        unfolding event_counter_static [OF True init] using ca(2) c(2) k by simp
      then show False using event_counter_inj [OF inv init _ c(1,2), of e'] that by simp
    qed
    then show ?thesis
      unfolding event_counter_static [OF True init'] event_counter_static [OF True init] b by simp
  next
    case False
    have "csr s (0x320 + k) \<noteq> event_num e'" if "k \<in> {3, 4}"
      using that ca(3,4) static_num_cases [of e] event_num_inj [of e e'] False \<open>e' \<noteq> e\<close>
      by (cases "event_static e") auto
    then show ?thesis
      unfolding event_counter_dynamic [OF False] sel using event_num_dynamic [OF False] by auto
  qed
qed

subsection \<open>The library as a state machine\<close>

inductive perf_reachable :: "perf_core \<Rightarrow> bool" where
  pr_boot: "hero_perf s = None \<Longrightarrow> perf_reachable s"
| pr_init: "perf_reachable s \<Longrightarrow> perf_reachable (snd (hero_perf_init ok s))"
| pr_deinit: "perf_reachable s \<Longrightarrow> perf_reachable (hero_perf_deinit s)"
| pr_alloc: "perf_reachable s \<Longrightarrow> hero_perf_alloc e s = Some (ret, s') \<Longrightarrow> perf_reachable s'"
| pr_dealloc: "perf_reachable s \<Longrightarrow> hero_perf_dealloc e s = Some (ret, s') \<Longrightarrow> perf_reachable s'"
| pr_reset: "perf_reachable s \<Longrightarrow> hero_perf_reset e s = Some (ret, s') \<Longrightarrow> perf_reachable s'"
| pr_reset_all: "perf_reachable s \<Longrightarrow> perf_reachable (hero_perf_reset_all s)"
| pr_pause: "perf_reachable s \<Longrightarrow> hero_perf_pause e s = Some (ret, s') \<Longrightarrow> perf_reachable s'"
| pr_pause_all: "perf_reachable s \<Longrightarrow> perf_reachable (hero_perf_pause_all s)"
| pr_continue: "perf_reachable s \<Longrightarrow> hero_perf_continue e s = Some (ret, s') \<Longrightarrow> perf_reachable s'"
| pr_continue_all: "perf_reachable s \<Longrightarrow> hero_perf_continue_all s = Some s' \<Longrightarrow> perf_reachable s'"
| pr_count: "perf_reachable s \<Longrightarrow> (\<And>n. n < 0xB00 \<Longrightarrow> r n = csr s n) \<Longrightarrow> perf_reachable (s\<lparr>csr := r\<rparr>)"

text \<open>Register changes that keep the invariant: the event selectors stay, and free counters stay
  stopped.\<close>

lemma perf_inv_csr:
  assumes "perf_inv s" "r 0x323 = csr s 0x323" "r 0x324 = csr s 0x324"
    and "\<And>inh c. hero_perf s = Some inh \<Longrightarrow> bit inh c \<Longrightarrow> bit (csr s 0x320) c \<Longrightarrow> bit (r 0x320) c"
  shows "perf_inv (s\<lparr>csr := r\<rparr>)"
  using assms by (auto simp: perf_inv_def split: option.splits)

lemma counter_reset_fold: "n < 0xB00 \<Longrightarrow> fold counter_reset cs r n = r n"
  by (induction cs arbitrary: r) (simp_all add: counter_reset_def)

lemma with_counter_inv:
  assumes inv: "perf_inv s" and step: "with_counter e f s = Some (ret, s')"
    and f: "\<And>c r. c \<in> {0, 2, 3, 4} \<Longrightarrow> f c r 0x323 = r 0x323 \<and> f c r 0x324 = r 0x324 \<and>
              (\<forall>n. n \<noteq> c \<longrightarrow> bit (r 0x320) n \<longrightarrow> bit (f c r 0x320) n)"
  shows "perf_inv s'"
proof (cases "hero_perf s")
  case None
  then show ?thesis
    using step by (auto simp: with_counter_def perf_inv_def bind_eq_Some_conv split: if_splits)
next
  case (Some inh)
  from step obtain c where c: "event_counter e s = Some c"
    and s': "s' = (if c < 0 then s else s\<lparr>csr := f (nat c) (csr s)\<rparr>)"
    by (auto simp: with_counter_def bind_eq_Some_conv split: if_splits)
  show ?thesis
  proof (cases "c < 0")
    case True
    then show ?thesis using s' inv by simp
  next
    case False
    then have "0 \<le> c" by simp
    note ca = event_counter_allocated [OF inv Some c this]
    have "perf_inv (s\<lparr>csr := f (nat c) (csr s)\<rparr>)"
    proof (rule perf_inv_csr [OF inv])
      show "f (nat c) (csr s) 0x323 = csr s 0x323" "f (nat c) (csr s) 0x324 = csr s 0x324"
        using f [OF ca(1)] by blast+
      show "bit (f (nat c) (csr s) 0x320) n"
        if "hero_perf s = Some inh'" "bit inh' n" "bit (csr s 0x320) n" for inh' n
        using that f [OF ca(1), of "csr s"] ca(2) Some by (cases "n = nat c") auto
    qed
    then show ?thesis using s' False by simp
  qed
qed

lemma hero_perf_alloc_inv:
  assumes "perf_inv s" "hero_perf_alloc e s = Some (ret, s')"
  shows "perf_inv s'"
proof (cases "hero_perf s")
  case None
  then show ?thesis
    using assms by (auto simp: hero_perf_alloc_def perf_inv_def bind_eq_Some_conv split: if_splits)
next
  case (Some inh)
  show ?thesis
  proof (cases rule: hero_perf_alloc_cases [OF assms(1) Some, of e])
    case (3 k)
    then have "perf_inv (perf_take k e inh s)"
      using allocated_dynamic [of e s] by (intro perf_take_inv [OF assms(1) Some]) auto
    then show ?thesis using 3(5) assms(2) by simp
  qed (use assms in auto)
qed

lemma hero_perf_dealloc_cases:
  assumes inv: "perf_inv s" and init: "hero_perf s = Some inh"
  obtains "\<not> allocated e s" "hero_perf_dealloc e s = Some (- HERO_EALREADY, s)"
  | c where "event_counter e s = Some c" "0 \<le> c" "allocated e s"
      "hero_perf_dealloc e s = Some (0, perf_drop (nat c) inh s)"
proof -
  obtain c where c: "event_counter e s = Some c" using event_counter_defined [OF init] by fastforce
  show thesis
    using that c by (cases "c < 0") (simp_all add: hero_perf_dealloc_def init allocated_def perf_drop_def)
qed

lemma hero_perf_dealloc_inv:
  assumes "perf_inv s" "hero_perf_dealloc e s = Some (ret, s')"
  shows "perf_inv s'"
proof (cases "hero_perf s")
  case None
  then show ?thesis
    using assms by (auto simp: hero_perf_dealloc_def perf_inv_def bind_eq_Some_conv split: if_splits)
next
  case (Some inh)
  show ?thesis
  proof (cases rule: hero_perf_dealloc_cases [OF assms(1) Some, of e])
    case (2 c)
    then show ?thesis
      using assms perf_drop_inv [OF assms(1) Some] event_counter_allocated(1) [OF assms(1) Some 2(1,2)]
      by simp
  qed (use assms in auto)
qed

lemma hero_perf_init_inv: "perf_inv s \<Longrightarrow> perf_inv (snd (hero_perf_init ok s))"
proof -
  assume inv: "perf_inv s"
  have "[3 ..< 3 + HPM_PROGRAMMABLE_COUNTERS] = [3, 4]"
    by (simp add: HPM_PROGRAMMABLE_COUNTERS_def upt_rec)
  then show ?thesis
    using inv by (auto simp: hero_perf_init_def perf_inv_def hero_perf_pause_all_def Let_def
        set_mhpmevent_def bit_not_iff)
qed

lemma perf_reachable_perf_inv: "perf_reachable s \<Longrightarrow> perf_inv s"
proof (induction rule: perf_reachable.induct)
  case (pr_boot s)
  then show ?case by (simp add: perf_inv_def)
next
  case (pr_deinit s)
  then show ?case by (simp add: hero_perf_deinit_def perf_inv_def)
next
  case (pr_reset s e ret s')
  then show ?case
    by (intro with_counter_inv [of s e counter_reset ret s']) (auto simp: hero_perf_reset_def counter_reset_def)
next
  case (pr_reset_all s)
  then show ?case
    by (auto simp: hero_perf_reset_all_def counter_reset_fold intro!: perf_inv_csr)
next
  case (pr_pause s e ret s')
  then show ?case
    by (intro with_counter_inv [of s e counter_inhibit ret s']) (auto simp: hero_perf_pause_def counter_inhibit_def)
next
  case (pr_pause_all s)
  then show ?case
    by (auto simp: hero_perf_pause_all_def bit_not_iff intro!: perf_inv_csr dest: bit_imp_le_length)
next
  case (pr_continue s e ret s')
  then show ?case
    by (intro with_counter_inv [of s e counter_uninhibit ret s'])
      (auto simp: hero_perf_continue_def counter_uninhibit_def)
next
  case (pr_continue_all s s')
  then show ?case
    by (auto simp: hero_perf_continue_all_def bit_and_iff intro!: perf_inv_csr)
next
  case (pr_count s r)
  then show ?case by (auto intro!: perf_inv_csr)
next
  case (pr_init s ok)
  then show ?case by (simp only: hero_perf_init_inv)
next
  case (pr_alloc s e ret s')
  then show ?case using hero_perf_alloc_inv by blast
next
  case (pr_dealloc s e ret s')
  then show ?case using hero_perf_dealloc_inv by blast
qed

subsection \<open>Measurements\<close>

text \<open>
  What the hardware counters do when an event occurs: a counter that exists, selects the event and
  is not inhibited goes up by one, modulo \<open>2^32\<close>; no other counter and no other CSR changes.
\<close>

definition counts :: "csr_file \<Rightarrow> hero_perf_event_t \<Rightarrow> nat \<Rightarrow> bool" where
  "counts r e c \<longleftrightarrow> (if event_static e then c = unat (event_num e)
                    else c \<in> {3, 4} \<and> r (0x320 + c) = event_num e)"

locale hpm_hw =
  fixes hw_count :: "hero_perf_event_t \<Rightarrow> csr_file \<Rightarrow> csr_file"
  assumes count_frame: "n < 0xB00 \<Longrightarrow> hw_count e r n = r n"
    and count_counter: "c \<in> {0, 2, 3, 4} \<Longrightarrow>
      hw_count e r (0xB00 + c) =
        r (0xB00 + c) + (if counts r e c \<and> \<not> bit (r 0x320) c then 1 else 0)"
begin

lemma run_frame: "n < 0xB00 \<Longrightarrow> fold hw_count es r n = r n"
  by (induction es arbitrary: r) (simp_all add: count_frame)

lemma run_counter:
  assumes c: "c \<in> {0, 2, 3, 4}" and sel: "\<And>e'. counts r e' c \<longleftrightarrow> e' = e"
  shows "fold hw_count es r (0xB00 + c) =
           r (0xB00 + c) + (if bit (r 0x320) c then 0 else of_nat (count_list es e))"
  using sel
proof (induction es arbitrary: r)
  case Nil
  then show ?case by simp
next
  case (Cons x es)
  let ?r = "hw_count x r"
  have "counts ?r e' c = counts r e' c" for e'
    using c by (auto simp: counts_def count_frame)
  then have IH: "fold hw_count es ?r (0xB00 + c) =
      ?r (0xB00 + c) + (if bit (?r 0x320) c then 0 else of_nat (count_list es e))"
    using Cons by simp
  have "?r 0x320 = r 0x320" by (simp add: count_frame)
  moreover have "?r (0xB00 + c) = r (0xB00 + c) + (if x = e \<and> \<not> bit (r 0x320) c then 1 else 0)"
    unfolding count_counter [OF c] Cons.prems by (simp add: eq_commute)
  ultimately show ?case using IH by (simp add: algebra_simps)
qed

end

definition hpm_count :: "hero_perf_event_t \<Rightarrow> csr_file \<Rightarrow> csr_file" where
  "hpm_count e r n =
     (if n \<ge> 0xB00 \<and> counts r e (n - 0xB00) \<and> \<not> bit (r 0x320) (n - 0xB00) then r n + 1 else r n)"

interpretation hpm: hpm_hw hpm_count
  by unfold_locales (simp_all add: hpm_count_def)

lemma counts_own_counter:
  assumes "perf_inv s" "hero_perf s = Some inh" "event_counter e s = Some c" "0 \<le> c"
  shows "counts (csr s) e' (nat c) \<longleftrightarrow> e' = e"
proof -
  note ca = event_counter_allocated [OF assms]
  show ?thesis
  proof (cases "event_static e")
    case True
    then show ?thesis
      using ca(3) static_num_cases [OF True]
      by (cases e; cases e') (auto simp: counts_def)
  next
    case False
    then show ?thesis
      using ca(4) static_num_cases [of e'] event_num_inj [of e e'] by (auto simp: counts_def)
  qed
qed

context hpm_hw
begin

lemma run_event_counter:
  "event_counter e (s\<lparr>csr := fold hw_count es (csr s)\<rparr>) = event_counter e s"
  by (rule event_counter_cong) (simp_all add: run_frame)

lemma run_inv: "perf_inv s \<Longrightarrow> perf_inv (s\<lparr>csr := fold hw_count es (csr s)\<rparr>)"
  by (rule perf_inv_csr) (simp_all add: run_frame)

text \<open>An allocated event whose counter runs counts its occurrences; one that is stopped does not.\<close>

lemma run_read:
  assumes "perf_inv s" "hero_perf s = Some inh" "event_counter e s = Some c" "0 \<le> c"
  shows "hero_perf_read e (s\<lparr>csr := fold hw_count es (csr s)\<rparr>) =
           Some (uint (csr s (0xB00 + nat c) +
                       (if bit (csr s 0x320) (nat c) then 0 else of_nat (count_list es e))))"
  using assms(3,4) run_counter [OF event_counter_allocated(1) [OF assms] counts_own_counter [OF assms]]
  by (simp add: hero_perf_read_def run_event_counter)

lemma measurement:
  assumes inv: "perf_inv s" and init: "hero_perf s = Some inh"
    and alloc: "hero_perf_alloc e s = Some (0, s1)"
  shows "\<exists>s2. hero_perf_continue e s1 = Some (0, s2) \<and>
     (\<exists>s3. hero_perf_pause e (s2\<lparr>csr := fold hw_count es (csr s2)\<rparr>) = Some (0, s3) \<and>
        hero_perf_read e (s3\<lparr>csr := fold hw_count es' (csr s3)\<rparr>) = Some (int (count_list es e) mod 2 ^ 32))"
proof -
  obtain k where k: "\<not> allocated e s" "k \<in> {0, 2, 3, 4}" "bit inh k"
    "if event_static e then k = unat (event_num e) else k \<in> {3, 4}" and s1: "s1 = perf_take k e inh s"
    using alloc by (cases rule: hero_perf_alloc_cases [OF inv init, of e]) (auto simp: hw_consts)
  note eff = perf_take_effect [OF inv init k]
  define s2 where "s2 = s1\<lparr>csr := counter_uninhibit k (csr s1)\<rparr>"
  have cont: "hero_perf_continue e s1 = Some (0, s2)"
    using eff(1) by (simp add: hero_perf_continue_def with_counter_def s1 s2_def)
  have inv1: "perf_inv s1" using hero_perf_alloc_inv [OF inv alloc] .
  have init2: "hero_perf s2 = Some (inh AND inhibit_enable_mask k)" by (simp add: s2_def s1 perf_take_def)
  have inv2: "perf_inv s2"
    using k(2) cont unfolding hero_perf_continue_def
    by (intro with_counter_inv [OF inv1]) (auto simp: counter_uninhibit_def)
  have same: "csr s2 n = csr s1 n" if "n \<noteq> 0x320" for n using that by (simp add: s2_def counter_uninhibit_def)
  have c2: "event_counter e s2 = Some (int k)"
    using eff(1) s1 same event_counter_cong [of s2 s1 e] by (simp add: s2_def)
  have v2: "csr s2 (0xB00 + k) = 0" "\<not> bit (csr s2 0x320) k"
    using eff(3) s1 same by (simp_all add: s2_def counter_uninhibit_def)
  let ?m = "s2\<lparr>csr := fold hw_count es (csr s2)\<rparr>"
  have cm: "event_counter e ?m = Some (int k)" using c2 by (simp only: run_event_counter)
  have vm: "csr ?m (0xB00 + k) = of_nat (count_list es e)"
    using run_counter [OF k(2) counts_own_counter [OF inv2 init2 c2, simplified]] v2 by simp
  define s3 where "s3 = ?m\<lparr>csr := counter_inhibit k (csr ?m)\<rparr>"
  have pause: "hero_perf_pause e ?m = Some (0, s3)"
    using cm by (simp add: hero_perf_pause_def with_counter_def s3_def)
  have inv3: "perf_inv s3"
    using pause k(2) unfolding hero_perf_pause_def
    by (intro with_counter_inv [OF run_inv [OF inv2]]) (auto simp: counter_inhibit_def)
  have init3: "hero_perf s3 = Some (inh AND inhibit_enable_mask k)" using init2 by (simp add: s3_def)
  have same3: "csr s3 n = csr ?m n" if "n \<noteq> 0x320" for n using that by (simp add: s3_def counter_inhibit_def)
  have c3: "event_counter e s3 = Some (int k)"
    using cm same3 event_counter_cong [of s3 ?m e] by (simp add: s3_def)
  have "bit (csr s3 0x320) k" using k(2) by (auto simp: s3_def counter_inhibit_def)
  then have "hero_perf_read e (s3\<lparr>csr := fold hw_count es' (csr s3)\<rparr>) = Some (uint (of_nat (count_list es e) :: u32))"
    using run_read [OF inv3 init3 c3, of es'] same3 vm by simp
  then show ?thesis using cont pause by (auto simp: unsigned_of_nat take_bit_eq_mod zmod_int)
qed

end

subsection \<open>Properties\<close>

definition perf_ex :: perf_core where
  "perf_ex = snd (hero_perf_init True \<lparr>hero_perf = None, csr = (\<lambda>_. 7)\<rparr>)"

lemma perf_ex_ok: "perf_inv perf_ex" "hero_perf perf_ex = Some (NOT 0)"
proof -
  have "perf_inv \<lparr>hero_perf = None, csr = (\<lambda>_. 7)\<rparr>" by (simp add: perf_inv_def)
  then show "perf_inv perf_ex" unfolding perf_ex_def by (rule hero_perf_init_inv)
  show "hero_perf perf_ex = Some (NOT 0)"
    by (simp add: perf_ex_def hero_perf_init_def Let_def hero_perf_pause_all_def)
qed

text \<open>C20: However the operations of the performance API are called, with counters running in between,
  the library's record of free counters agrees with the event selectors of the hardware, no event has
  two counters, and every counter that is not allocated is stopped.\<close>

theorem perf_reachable_inv:
  assumes "perf_reachable s"
  shows "perf_inv s"
  using assms by (rule perf_reachable_perf_inv)

theorem perf_reachable_inv_witness:
  "perf_inv (hero_perf_pause_all perf_ex)"
proof -
  have "perf_reachable \<lparr>hero_perf = None, csr = (\<lambda>_. 7)\<rparr>" by (simp add: pr_boot)
  then have "perf_reachable (hero_perf_pause_all perf_ex)"
    unfolding perf_ex_def by (rule pr_pause_all [OF pr_init])
  then show ?thesis by (rule perf_reachable_inv)
qed

text \<open>\<open>hero_perf_alloc\<close> on an initialized core always returns: \<open>-HERO_EALREADY\<close> exactly for an
  event that has a counter, \<open>-HERO_EBUSY\<close> exactly for one without, of the programmable kind, when
  both programmable counters are taken, and 0 otherwise; on an error nothing changes. On success
  exactly this event is added to the allocated ones, it reads 0, and the readings of the events
  allocated before are unchanged.\<close>

theorem hero_perf_alloc_spec:
  assumes "perf_inv s" and "hero_perf s = Some inh"
  shows "\<exists>ret s'. hero_perf_alloc e s = Some (ret, s') \<and> perf_inv s' \<and>
    ret = (if allocated e s then - HERO_EALREADY
           else if \<not> event_static e \<and> (\<exists>e1 e2. e1 \<noteq> e2 \<and> \<not> event_static e1 \<and> \<not> event_static e2 \<and>
                                               allocated e1 s \<and> allocated e2 s)
           then - HERO_EBUSY else 0) \<and>
    (ret \<noteq> 0 \<longrightarrow> s' = s) \<and>
    (ret = 0 \<longrightarrow> hero_perf_read e s' = Some 0 \<and>
       (\<forall>e'. allocated e' s' \<longleftrightarrow> allocated e' s \<or> e' = e) \<and>
       (\<forall>e'. allocated e' s \<longrightarrow> hero_perf_read e' s' = hero_perf_read e' s))"
proof (cases rule: hero_perf_alloc_cases [OF assms, of e])
  case 1
  then show ?thesis using assms(1) by (simp add: hw_consts)
next
  case 2
  have dyn: "\<exists>e1. \<not> event_static e1 \<and> event_num e1 = v" if "v \<in> dyn_nums" for v
    using that by (auto simp: dyn_nums_def intro: exI [of _ hero_perf_event_stall_load]
        exI [of _ hero_perf_event_load] exI [of _ hero_perf_event_store]
        exI [of _ hero_perf_event_load_external] exI [of _ hero_perf_event_store_external])
  have nz: "csr s 0x323 \<in> dyn_nums" "csr s 0x324 \<in> dyn_nums" "csr s 0x323 \<noteq> csr s 0x324"
    using assms 2(2,3) by (auto simp: perf_inv_def)
  obtain e1 e2 where "\<not> event_static e1" "event_num e1 = csr s 0x323"
    "\<not> event_static e2" "event_num e2 = csr s 0x324"
    using dyn [OF nz(1)] dyn [OF nz(2)] by blast
  then have "e1 \<noteq> e2 \<and> \<not> event_static e1 \<and> \<not> event_static e2 \<and> allocated e1 s \<and> allocated e2 s"
    using nz(3) by (auto simp: allocated_dynamic)
  then show ?thesis using 2 assms(1) by (auto simp: hw_consts)
next
  case (3 k)
  let ?s = "perf_take k e inh s"
  note eff = perf_take_effect [OF assms 3(1,2,3,4)]
  have free: "\<not> (\<exists>e1 e2. e1 \<noteq> e2 \<and> \<not> event_static e1 \<and> \<not> event_static e2 \<and> allocated e1 s \<and> allocated e2 s)"
    if "\<not> event_static e"
  proof -
    have "csr s 0x323 = 0 \<or> csr s 0x324 = 0" using that 3(3,4) assms by (auto simp: perf_inv_def)
    then show ?thesis
      using event_num_inj event_num_dynamic by (auto simp: allocated_dynamic)
  qed
  have reads: "hero_perf_read e' ?s = hero_perf_read e' s" if al: "allocated e' s" for e'
  proof -
    obtain c where c: "event_counter e' s = Some c" "0 \<le> c"
      using al by (auto simp: allocated_def split: option.splits)
    have "e' \<noteq> e" using al 3(1) by auto
    moreover have "nat c \<noteq> k" using event_counter_allocated(2) [OF assms c] 3(3) by auto
    ultimately show ?thesis
      using c eff(2) [of e'] eff(4) [OF event_counter_allocated(1) [OF assms c]]
      by (simp add: hero_perf_read_def)
  qed
  have "allocated e' ?s \<longleftrightarrow> allocated e' s \<or> e' = e" for e'
    using eff(1,2) by (cases "e' = e") (simp_all add: allocated_def)
  moreover have "hero_perf_read e ?s = Some 0" using eff(1,3) by (simp add: hero_perf_read_def)
  moreover have "perf_inv ?s" using hero_perf_alloc_inv [OF assms(1) 3(5)] .
  ultimately show ?thesis using 3(1,5) free reads by (cases "event_static e") (simp_all add: hw_consts)
qed

theorem hero_perf_alloc_spec_witness:
  "\<exists>s'. hero_perf_alloc hero_perf_event_load perf_ex = Some (0, s') \<and>
        hero_perf_read hero_perf_event_load s' = Some 0"
proof -
  have "map_option fst (hero_perf_alloc hero_perf_event_load perf_ex) = Some 0" by code_simp
  then show ?thesis
    using hero_perf_alloc_spec [OF perf_ex_ok, of hero_perf_event_load] by fastforce
qed

text \<open>\<open>hero_perf_dealloc\<close> undoes an allocation: it returns \<open>-HERO_EALREADY\<close> and changes nothing
  exactly when the event has no counter, and otherwise removes exactly this event from the allocated
  ones, so that a programmable event can be allocated again.\<close>

theorem hero_perf_dealloc_spec:
  assumes "perf_inv s" and "hero_perf s = Some inh"
  shows "\<exists>ret s'. hero_perf_dealloc e s = Some (ret, s') \<and> perf_inv s' \<and>
    ret = (if allocated e s then 0 else - HERO_EALREADY) \<and> (ret \<noteq> 0 \<longrightarrow> s' = s) \<and>
    (\<forall>e'. allocated e' s' \<longleftrightarrow> allocated e' s \<and> e' \<noteq> e)"
proof (cases rule: hero_perf_dealloc_cases [OF assms, of e])
  case 1
  then show ?thesis using assms(1) by (auto simp: hw_consts)
next
  case (2 c)
  note eff = perf_drop_effect [OF assms 2(1,2) refl]
  have "allocated e' (perf_drop (nat c) inh s) \<longleftrightarrow> allocated e' s \<and> e' \<noteq> e" for e'
    using eff by (cases "e' = e") (simp_all add: allocated_def)
  then show ?thesis
    using 2 hero_perf_dealloc_inv [OF assms(1) 2(4)] by simp
qed

theorem hero_perf_dealloc_spec_witness:
  "hero_perf_dealloc hero_perf_event_load perf_ex = Some (- 114, perf_ex)"
proof -
  have "\<not> allocated hero_perf_event_load perf_ex" by code_simp
  then show ?thesis
    using hero_perf_dealloc_spec [OF perf_ex_ok, of hero_perf_event_load] by (simp add: hw_consts)
qed



end
