(* ===== verification/Hero_Dma.thy ===== *)
theory Hero_Dma
  imports Prelude "HOL-Library.Multiset"
begin

text \<open>
  Memory transfers between the host and the accelerator and the atomic operations of
  \<open>libhero-target\<close> (\<open>pulp/hero-target.c\<close>). The DMA engine is a set of memory-mapped
  registers; reading its \<open>tf_id\<close> register launches the transfer described by the others and
  delivers the identifier of the transfer. Which identifiers the engine hands out (\<open>ids\<close>) and
  what its completion registers show at each read (\<open>compl\<close>) are parameters. A 64-bit host
  address is written to two registers; a device address has 32 bits.

  Waiting polls a register, so it is an optional value; \<open>None\<close> is also the result of a
  two-dimensional transfer of no rows, which waits for a job it never initialized.
\<close>

record dma_conf =
  src_addr_low :: u32
  src_addr_high :: u32
  dst_addr_low :: u32
  dst_addr_high :: u32
  num_bytes :: u32
  launched :: "(u64 \<times> u64 \<times> u32) list"  \<comment> \<open>source, destination, size; oldest first\<close>

type_synonym hero_dma_job_t = u32

definition join64 :: "u32 \<Rightarrow> u32 \<Rightarrow> u64" where
  "join64 hi lo = push_bit 32 (ucast hi) OR ucast lo"

text \<open>The read of \<open>tf_id\<close>.\<close>

definition dma_launch :: "(nat \<Rightarrow> u32) \<Rightarrow> dma_conf \<Rightarrow> hero_dma_job_t \<times> dma_conf" where
  "dma_launch ids d =
     (ids (length (launched d)),
      d\<lparr>launched := launched d @
          [(join64 (src_addr_high d) (src_addr_low d), join64 (dst_addr_high d) (dst_addr_low d), num_bytes d)]\<rparr>)"

definition hero_memcpy_host2dev_async ::
    "(nat \<Rightarrow> u32) \<Rightarrow> u32 \<Rightarrow> u64 \<Rightarrow> u32 \<Rightarrow> dma_conf \<Rightarrow> hero_dma_job_t \<times> dma_conf" where
  "hero_memcpy_host2dev_async ids dst src size' d =
     dma_launch ids (d\<lparr>src_addr_low := ucast src, src_addr_high := ucast (drop_bit 32 src),
                       dst_addr_low := dst, dst_addr_high := 0, num_bytes := size'\<rparr>)"

definition hero_memcpy_dev2host_async ::
    "(nat \<Rightarrow> u32) \<Rightarrow> u64 \<Rightarrow> u32 \<Rightarrow> u32 \<Rightarrow> dma_conf \<Rightarrow> hero_dma_job_t \<times> dma_conf" where
  "hero_memcpy_dev2host_async ids dst src size' d =
     dma_launch ids (d\<lparr>src_addr_low := src, src_addr_high := 0,
                       dst_addr_low := ucast dst, dst_addr_high := ucast (drop_bit 32 dst),
                       num_bytes := size'\<rparr>)"

subsection \<open>Waiting\<close>

text \<open>\<open>compl k stream\<close> is what read number \<open>k\<close> of the completion register of a stream gives;
  the result is the number of the read that ended the wait.\<close>

partial_function (option) hero_wait_for_tf_completion ::
    "(nat \<Rightarrow> u32 \<Rightarrow> u32) \<Rightarrow> u32 \<Rightarrow> u32 \<Rightarrow> nat \<Rightarrow> nat option" where
  "hero_wait_for_tf_completion compl stream_id tf_id k =
     (if tf_id > compl k stream_id then hero_wait_for_tf_completion compl stream_id tf_id (k + 1)
      else Some k)"

declare hero_wait_for_tf_completion.simps [code]

definition hero_dma_wait :: "(nat \<Rightarrow> u32 \<Rightarrow> u32) \<Rightarrow> hero_dma_job_t \<Rightarrow> nat \<Rightarrow> nat option" where
  "hero_dma_wait compl job k =
     (let tf_id = job AND 0x0fffffff;
          stream = drop_bit 28 (job AND 0xf0000000)
      in hero_wait_for_tf_completion compl stream tf_id k)"

definition hero_memcpy_host2dev ::
    "(nat \<Rightarrow> u32) \<Rightarrow> (nat \<Rightarrow> u32 \<Rightarrow> u32) \<Rightarrow> u32 \<Rightarrow> u64 \<Rightarrow> u32 \<Rightarrow> dma_conf \<Rightarrow> nat \<Rightarrow> (nat \<times> dma_conf) option" where
  "hero_memcpy_host2dev ids compl dst src size' d k =
     (case hero_memcpy_host2dev_async ids dst src size' d of
        (job, d') \<Rightarrow> map_option (\<lambda>k'. (k', d')) (hero_dma_wait compl job k))"

definition hero_memcpy_dev2host ::
    "(nat \<Rightarrow> u32) \<Rightarrow> (nat \<Rightarrow> u32 \<Rightarrow> u32) \<Rightarrow> u64 \<Rightarrow> u32 \<Rightarrow> u32 \<Rightarrow> dma_conf \<Rightarrow> nat \<Rightarrow> (nat \<times> dma_conf) option" where
  "hero_memcpy_dev2host ids compl dst src size' d k =
     (case hero_memcpy_dev2host_async ids dst src size' d of
        (job, d') \<Rightarrow> map_option (\<lambda>k'. (k', d')) (hero_dma_wait compl job k))"

subsection \<open>Two-dimensional transfers\<close>

text \<open>The loops issue one transfer per row; \<open>job\<close> is the variable of that name, \<open>None\<close> while
  it is not initialized.\<close>

primrec memcpy2d_host2dev_loop ::
    "(nat \<Rightarrow> u32) \<Rightarrow> nat \<Rightarrow> u32 \<Rightarrow> u64 \<Rightarrow> u32 \<Rightarrow> u32 \<Rightarrow> u32 \<Rightarrow> hero_dma_job_t option \<Rightarrow> dma_conf
     \<Rightarrow> hero_dma_job_t option \<times> dma_conf" where
  "memcpy2d_host2dev_loop ids 0 dst_addr src_addr inner_size sd ss job d = (job, d)"
| "memcpy2d_host2dev_loop ids (Suc n) dst_addr src_addr inner_size sd ss job d =
     (case hero_memcpy_host2dev_async ids dst_addr src_addr inner_size d of
        (j, d') \<Rightarrow> memcpy2d_host2dev_loop ids n (dst_addr + sd) (src_addr + ucast ss) inner_size sd ss (Some j) d')"

definition hero_memcpy2d_host2dev ::
    "(nat \<Rightarrow> u32) \<Rightarrow> (nat \<Rightarrow> u32 \<Rightarrow> u32) \<Rightarrow> u32 \<Rightarrow> u64 \<Rightarrow> u32 \<Rightarrow> u32 \<Rightarrow> u32 \<Rightarrow> u32 \<Rightarrow> dma_conf \<Rightarrow> nat
     \<Rightarrow> (nat \<times> dma_conf) option" where
  "hero_memcpy2d_host2dev ids compl dst src inner_size inner_stride_dst inner_stride_src outer_num d k =
     (case memcpy2d_host2dev_loop ids (unat outer_num) dst src inner_size inner_stride_dst inner_stride_src None d of
        (job, d') \<Rightarrow> Option.bind job (\<lambda>j. map_option (\<lambda>k'. (k', d')) (hero_dma_wait compl j k)))"

primrec memcpy2d_dev2host_loop ::
    "(nat \<Rightarrow> u32) \<Rightarrow> nat \<Rightarrow> u64 \<Rightarrow> u32 \<Rightarrow> u32 \<Rightarrow> u32 \<Rightarrow> u32 \<Rightarrow> hero_dma_job_t option \<Rightarrow> dma_conf
     \<Rightarrow> hero_dma_job_t option \<times> dma_conf" where
  "memcpy2d_dev2host_loop ids 0 dst_addr src_addr inner_size sd ss job d = (job, d)"
| "memcpy2d_dev2host_loop ids (Suc n) dst_addr src_addr inner_size sd ss job d =
     (case hero_memcpy_dev2host_async ids dst_addr src_addr inner_size d of
        (j, d') \<Rightarrow> memcpy2d_dev2host_loop ids n (dst_addr + ucast sd) (src_addr + ss) inner_size sd ss (Some j) d')"

definition hero_memcpy2d_dev2host ::
    "(nat \<Rightarrow> u32) \<Rightarrow> (nat \<Rightarrow> u32 \<Rightarrow> u32) \<Rightarrow> u64 \<Rightarrow> u32 \<Rightarrow> u32 \<Rightarrow> u32 \<Rightarrow> u32 \<Rightarrow> u32 \<Rightarrow> dma_conf \<Rightarrow> nat
     \<Rightarrow> (nat \<times> dma_conf) option" where
  "hero_memcpy2d_dev2host ids compl dst src inner_size inner_stride_dst inner_stride_src outer_num d k =
     (case memcpy2d_dev2host_loop ids (unat outer_num) dst src inner_size inner_stride_dst inner_stride_src None d of
        (job, d') \<Rightarrow> Option.bind job (\<lambda>j. map_option (\<lambda>k'. (k', d')) (hero_dma_wait compl j k)))"

subsection \<open>Atomic operations\<close>

datatype hero_atomic_op = amo_swap | amo_add | amo_and | amo_or | amo_xor | amo_max | amo_maxu | amo_min | amo_minu

text \<open>The function of the memory word and the operand that each \<open>amo<op>.w\<close> instruction stores.\<close>

fun amo_fun :: "hero_atomic_op \<Rightarrow> u32 \<Rightarrow> u32 \<Rightarrow> u32" where
  "amo_fun amo_swap m v = v"
| "amo_fun amo_add m v = m + v"
| "amo_fun amo_and m v = m AND v"
| "amo_fun amo_or m v = m OR v"
| "amo_fun amo_xor m v = m XOR v"
| "amo_fun amo_max m v = (if m <s v then v else m)"
| "amo_fun amo_maxu m v = (if m < v then v else m)"
| "amo_fun amo_min m v = (if m <s v then m else v)"
| "amo_fun amo_minu m v = (if m < v then m else v)"

definition hero_atomic :: "hero_atomic_op \<Rightarrow> u32 \<Rightarrow> u32 \<Rightarrow> (u32 \<Rightarrow> u32) \<Rightarrow> u32 \<times> (u32 \<Rightarrow> u32)" where
  "hero_atomic op ptr val mem = (mem ptr, mem(ptr := amo_fun op (mem ptr) val))"

subsection \<open>Lemmas\<close>

lemma join64_split: "join64 (ucast (drop_bit 32 w)) (ucast w) = w"
  unfolding join64_def
  by (rule bit_word_eqI)
    (auto simp: bit_or_iff bit_push_bit_iff bit_ucast_iff bit_drop_bit_eq dest: bit_imp_le_length)

lemma join64_0: "join64 0 w = ucast w"
  by (simp add: join64_def)

lemma host2dev_async_eq:
  "fst (hero_memcpy_host2dev_async ids dst src n d) = ids (length (launched d))"
  "launched (snd (hero_memcpy_host2dev_async ids dst src n d)) = launched d @ [(src, ucast dst, n)]"
  by (simp_all add: hero_memcpy_host2dev_async_def dma_launch_def join64_split join64_0)

lemma dev2host_async_eq:
  "fst (hero_memcpy_dev2host_async ids dst src n d) = ids (length (launched d))"
  "launched (snd (hero_memcpy_dev2host_async ids dst src n d)) = launched d @ [(ucast src, dst, n)]"
  by (simp_all add: hero_memcpy_dev2host_async_def dma_launch_def join64_split join64_0)

lemma wait_until:
  assumes "tf \<le> compl (k + n) st" and "\<And>i. i < n \<Longrightarrow> compl (k + i) st < tf"
  shows "hero_wait_for_tf_completion compl st tf k = Some (k + n)"
  using assms
proof (induction n arbitrary: k)
  case 0
  then have "\<not> compl k st < tf" by (simp add: not_less)
  then show ?case by (subst hero_wait_for_tf_completion.simps) simp
next
  case (Suc n)
  have "hero_wait_for_tf_completion compl st tf (Suc k) = Some (Suc k + n)"
    using Suc.prems(1) Suc.prems(2) [of "Suc i" for i] by (intro Suc.IH) simp_all
  moreover have "compl k st < tf" using Suc.prems(2) [of 0] by simp
  ultimately show ?case by (subst hero_wait_for_tf_completion.simps) simp
qed

lemma wait_sound:
  assumes "hero_wait_for_tf_completion compl st tf k = Some k'"
  shows "k \<le> k' \<and> tf \<le> compl k' st"
  using assms
proof (induction rule: hero_wait_for_tf_completion.raw_induct [rotated, consumes 1, case_names step])
  case (step f compl st tf k k')
  then show ?case
    by (cases "compl k st < tf") (auto dest: step(1))
qed

lemma job_fields:
  fixes job :: u32
  shows "job AND 0x0fffffff = job AND mask 28" "drop_bit 28 (job AND 0xf0000000) = drop_bit 28 job"
proof -
  have m: "(0x0fffffff :: u32) = mask 28" by (simp add: mask_eq_exp_minus_1)
  show "job AND 0x0fffffff = job AND mask 28" by (simp only: m)
  have n: "(0xf0000000 :: u32) = NOT (mask 28)" by (simp add: mask_eq_exp_minus_1)
  show "drop_bit 28 (job AND 0xf0000000) = drop_bit 28 job"
    unfolding n by (rule bit_word_eqI) (auto simp: bit_drop_bit_eq bit_and_iff bit_not_iff bit_mask_iff
        dest: bit_imp_le_length)
qed

text \<open>Rows of a two-dimensional transfer.\<close>

lemma memcpy2d_host2dev_loop_eq:
  "launched (snd (memcpy2d_host2dev_loop ids n dst src sz sd ss job d)) =
     launched d @ map (\<lambda>i. (src + of_nat i * ucast ss, ucast (dst + of_nat i * sd), sz)) [0 ..< n]"
  "fst (memcpy2d_host2dev_loop ids n dst src sz sd ss job d) =
     (if n = 0 then job else Some (ids (length (launched d) + n - 1)))"
proof (induction n arbitrary: dst src job d)
  case (Suc n)
  let ?d = "snd (hero_memcpy_host2dev_async ids dst src sz d)"
  {
    case 1
    have "map (\<lambda>i. (src + ucast ss + of_nat i * ucast ss, ucast (dst + sd + of_nat i * sd), sz)) [0 ..< n] =
        map (\<lambda>i. (src + of_nat i * ucast ss, ucast (dst + of_nat i * sd), sz)) (map Suc [0 ..< n])"
      by (simp add: algebra_simps)
    then show ?case
      using Suc(1) [of "dst + sd" "src + ucast ss"] host2dev_async_eq(2) [of ids dst src sz d]
      by (simp add: case_prod_beta map_Suc_upt upt_conv_Cons del: upt_Suc)
  next
    case 2
    show ?case
      using Suc(2) [of "dst + sd" "src + ucast ss"] host2dev_async_eq [of ids dst src sz d]
      by (simp add: case_prod_beta)
  }
qed simp_all

lemma memcpy2d_dev2host_loop_eq:
  "launched (snd (memcpy2d_dev2host_loop ids n dst src sz sd ss job d)) =
     launched d @ map (\<lambda>i. (ucast (src + of_nat i * ss), dst + of_nat i * ucast sd, sz)) [0 ..< n]"
  "fst (memcpy2d_dev2host_loop ids n dst src sz sd ss job d) =
     (if n = 0 then job else Some (ids (length (launched d) + n - 1)))"
proof (induction n arbitrary: dst src job d)
  case (Suc n)
  let ?d = "snd (hero_memcpy_dev2host_async ids dst src sz d)"
  {
    case 1
    have "map (\<lambda>i. (ucast (src + ss + of_nat i * ss), dst + ucast sd + of_nat i * ucast sd, sz)) [0 ..< n] =
        map (\<lambda>i. (ucast (src + of_nat i * ss), dst + of_nat i * ucast sd, sz)) (map Suc [0 ..< n])"
      by (simp add: algebra_simps)
    then show ?case
      using Suc(1) [of "dst + ucast sd" "src + ss"] dev2host_async_eq(2) [of ids dst src sz d]
      by (simp add: case_prod_beta map_Suc_upt upt_conv_Cons del: upt_Suc)
  next
    case 2
    show ?case
      using Suc(2) [of "dst + ucast sd" "src + ss"] dev2host_async_eq [of ids dst src sz d]
      by (simp add: case_prod_beta)
  }
qed simp_all

lemma amo_fun_order:
  "amo_fun amo_maxu m v = max m v" "amo_fun amo_minu m v = min m v"
  "sint (amo_fun amo_max m v) = max (sint m) (sint v)" "sint (amo_fun amo_min m v) = min (sint m) (sint v)"
  by (auto simp: max_def min_def word_sless_alt)

lemma amo_fun_commute:
  assumes "op \<noteq> amo_swap"
  shows "amo_fun op (amo_fun op m v) w = amo_fun op (amo_fun op m w) v"
proof (cases "op \<in> {amo_max, amo_min}")
  case True
  then have "sint (amo_fun op (amo_fun op m v) w) = sint (amo_fun op (amo_fun op m w) v)"
    using max.assoc max.commute min.assoc min.commute by (auto simp only: insert_iff empty_iff amo_fun_order ac_simps)
  then show ?thesis by (rule signed_word_eqI)
next
  case False
  then consider "op = amo_add" | "op = amo_and" | "op = amo_or" | "op = amo_xor" | "op = amo_maxu" | "op = amo_minu"
    using assms by (cases op) simp_all
  then show ?thesis
    by cases (simp_all only: amo_fun_order amo_fun.simps ac_simps)
qed

subsection \<open>Properties\<close>

text \<open>A transfer hands the DMA engine the full 64-bit host address, the device address extended
  with zeros and the size, in the right direction, and returns the identifier of that transfer.\<close>

theorem hero_memcpy_async_launches:
  "hero_memcpy_host2dev_async ids dst src n d =
     (ids (length (launched d)), snd (hero_memcpy_host2dev_async ids dst src n d)) \<and>
   launched (snd (hero_memcpy_host2dev_async ids dst src n d)) = launched d @ [(src, ucast dst, n)] \<and>
   hero_memcpy_dev2host_async ids dst' src' n d =
     (ids (length (launched d)), snd (hero_memcpy_dev2host_async ids dst' src' n d)) \<and>
   launched (snd (hero_memcpy_dev2host_async ids dst' src' n d)) = launched d @ [(ucast src', dst', n)]"
  by (simp add: prod_eq_iff host2dev_async_eq dev2host_async_eq)

text \<open>C36: \<open>hero_dma_wait\<close> returns when, and only when, a read of the completion register of the
  job's stream (the upper four bits of the identifier) shows a value that is not below the transfer
  number (the lower 28 bits); it returns at the first such read.\<close>

theorem hero_dma_wait_spec:
  "hero_dma_wait compl job k = Some k' \<longleftrightarrow>
     k \<le> k' \<and> job AND mask 28 \<le> compl k' (drop_bit 28 job) \<and>
     (\<forall>i. k \<le> i \<and> i < k' \<longrightarrow> compl i (drop_bit 28 job) < job AND mask 28)"
proof -
  let ?tf = "job AND mask 28" and ?st = "drop_bit 28 job"
  have eq: "hero_dma_wait compl job k = hero_wait_for_tf_completion compl ?st ?tf k"
    by (simp only: hero_dma_wait_def Let_def job_fields)
  have until: "hero_wait_for_tf_completion compl ?st ?tf k = Some k'"
    if "k \<le> k'" "?tf \<le> compl k' ?st" "\<forall>i. k \<le> i \<and> i < k' \<longrightarrow> compl i ?st < ?tf" for k'
    using wait_until [of ?tf compl k "k' - k" ?st] that by simp
  show ?thesis
  proof
    assume ret: "hero_dma_wait compl job k = Some k'"
    then have k': "k \<le> k'" "?tf \<le> compl k' ?st" using eq wait_sound by auto
    define m where "m = (LEAST i. k \<le> i \<and> ?tf \<le> compl i ?st)"
    have m: "k \<le> m" "?tf \<le> compl m ?st"
      using LeastI [of "\<lambda>i. k \<le> i \<and> ?tf \<le> compl i ?st" k'] k' by (simp_all add: m_def)
    have before: "\<forall>i. k \<le> i \<and> i < m \<longrightarrow> compl i ?st < ?tf"
    proof (intro allI impI)
      fix i assume i: "k \<le> i \<and> i < m"
      then show "compl i ?st < ?tf"
        using not_less_Least [of i "\<lambda>i. k \<le> i \<and> ?tf \<le> compl i ?st"] by (simp add: m_def not_le)
    qed
    then have "k' = m" using until [OF m before] ret eq by simp
    then show "k \<le> k' \<and> ?tf \<le> compl k' ?st \<and> (\<forall>i. k \<le> i \<and> i < k' \<longrightarrow> compl i ?st < ?tf)"
      using m before by simp
  qed (use until eq in auto)
qed

text \<open>The implication in the statement above, at a concrete job.\<close>

theorem hero_dma_wait_spec_witness:
  "hero_dma_wait (\<lambda>k st. if st = 2 then of_nat k else 0) 0x20000003 0 = Some 3"
proof -
  let ?compl = "\<lambda>k st. if st = (2 :: u32) then of_nat k else 0 :: u32"
  have job: "(0x20000003 :: u32) AND mask 28 = 3" "drop_bit 28 (0x20000003 :: u32) = 2" by code_simp+
  have "(of_nat i :: u32) < 3" if "i < 3" for i
    using that by (simp add: word_less_nat_alt unsigned_of_nat take_bit_nat_eq_self)
  then show ?thesis
    using hero_dma_wait_spec [of ?compl "0x20000003" 0 3] unfolding job by simp
qed

text \<open>A two-dimensional transfer of at least one row launches exactly one transfer per row, in
  order, row \<open>i\<close> at \<open>i\<close> strides from the two start addresses (device addresses modulo
  \<open>2^32\<close>, host addresses modulo \<open>2^64\<close>), and then waits for the last of them only.\<close>

theorem hero_memcpy2d_rows:
  assumes "0 < unat outer_num"
  shows "hero_memcpy2d_host2dev ids compl dst src sz sd ss outer_num d k =
     map_option (\<lambda>k'. (k', snd (memcpy2d_host2dev_loop ids (unat outer_num) dst src sz sd ss None d)))
       (hero_dma_wait compl (ids (length (launched d) + unat outer_num - 1)) k) \<and>
   launched (snd (memcpy2d_host2dev_loop ids (unat outer_num) dst src sz sd ss None d)) = launched d @
     map (\<lambda>i. (src + of_nat i * ucast ss, ucast (dst + of_nat i * sd), sz)) [0 ..< unat outer_num] \<and>
   hero_memcpy2d_dev2host ids compl dst' src' sz sd ss outer_num d k =
     map_option (\<lambda>k'. (k', snd (memcpy2d_dev2host_loop ids (unat outer_num) dst' src' sz sd ss None d)))
       (hero_dma_wait compl (ids (length (launched d) + unat outer_num - 1)) k) \<and>
   launched (snd (memcpy2d_dev2host_loop ids (unat outer_num) dst' src' sz sd ss None d)) = launched d @
     map (\<lambda>i. (ucast (src' + of_nat i * ss), dst' + of_nat i * ucast sd, sz)) [0 ..< unat outer_num]"
  using assms
  by (simp add: hero_memcpy2d_host2dev_def hero_memcpy2d_dev2host_def case_prod_beta
      memcpy2d_host2dev_loop_eq memcpy2d_dev2host_loop_eq)

definition dma_ex :: dma_conf where
  "dma_ex = \<lparr>src_addr_low = 0, src_addr_high = 0, dst_addr_low = 0, dst_addr_high = 0, num_bytes = 0,
     launched = []\<rparr>"

theorem hero_memcpy2d_rows_witness:
  "launched (snd (memcpy2d_host2dev_loop of_nat 2 0x10000000 0xFFFFFFFF0 16 64 32 None dma_ex)) =
     [(0xFFFFFFFF0, 0x10000000, 16), (0x1000000010, 0x10000040, 16)]"
proof -
  have "map (\<lambda>i. ((0xFFFFFFFF0 :: u64) + of_nat i * ucast (32 :: u32),
      (ucast ((0x10000000 :: u32) + of_nat i * 64) :: u64), 16 :: u32)) [0 ..< 2] =
      [(0xFFFFFFFF0, 0x10000000, 16), (0x1000000010, 0x10000040, 16)]"
    by (simp add: upt_rec)
  then show ?thesis
    using hero_memcpy2d_rows [of 2 of_nat "\<lambda>_ _. 0" "0x10000000" "0xFFFFFFFF0" 16 64 32 dma_ex 0]
    by (simp add: dma_ex_def)
qed

text \<open>A two-dimensional transfer of no rows launches nothing and then waits for a job that was
  never initialized: it has no defined result.\<close>

theorem hero_memcpy2d_no_rows_undefined:
  "hero_memcpy2d_host2dev ids compl dst src sz sd ss 0 d k = None \<and>
   hero_memcpy2d_dev2host ids compl dst' src' sz sd ss 0 d k = None"
  by (simp add: hero_memcpy2d_host2dev_def hero_memcpy2d_dev2host_def)

text \<open>Concurrent reductions with the atomic operations are deterministic: whatever order the
  hardware serializes a set of equal operations (other than swap) on one word in, the word ends with
  the same value.\<close>

theorem hero_atomic_order_irrelevant:
  assumes "op \<noteq> amo_swap" and "mset vs = mset ws"
  shows "fold (\<lambda>v mem. snd (hero_atomic op ptr v mem)) vs mem = fold (\<lambda>v mem. snd (hero_atomic op ptr v mem)) ws mem"
proof -
  have "fold (\<lambda>v mem. snd (hero_atomic op ptr v mem)) vs = fold (\<lambda>v mem. snd (hero_atomic op ptr v mem)) ws"
    using assms(2)
    by (intro fold_multiset_equiv) (auto simp: fun_eq_iff hero_atomic_def amo_fun_commute [OF assms(1)])
  then show ?thesis by simp
qed

theorem hero_atomic_order_irrelevant_witness:
  "fold (\<lambda>v mem. snd (hero_atomic amo_add 0x10 v mem)) [1, 2, 3] (\<lambda>_. 0) 0x10 =
   fold (\<lambda>v mem. snd (hero_atomic amo_add 0x10 v mem)) [3, 1, 2] (\<lambda>_. 0) 0x10"
  using hero_atomic_order_irrelevant [of amo_add "[1, 2, 3]" "[3, 1, 2]" "0x10" "\<lambda>_. 0"]
  by (simp add: add_mset_commute)

end
