(* ===== verification/Rt_Alloc.thy ===== *)
theory Rt_Alloc
  imports Prelude
begin

text \<open>
  The memory allocator of the PULP runtime, \<open>pulp-rt/kernel/alloc.c\<close>: a first-fit allocator
  that keeps the free chunks of a region in a list, sorted by address, inside the free memory
  itself, and whose callers give the size back when they free; and \<open>malloc\<close>/\<open>free\<close> on top
  of it, which store that size with a canary in front of the block.

  Memory is a map from byte addresses to the 32-bit words found there (\<open>rt_alloc_chunk_t\<close> has
  its \<open>size\<close> at offset 0 and \<open>next\<close> at offset 4); addresses and words are integers, with the
  wrap-around of \<open>int\<close> written out (\<open>i32\<close>) where a request can reach it. Loops over the
  list may not end on a corrupted one: their results are optional. The abstract allocator works on
  the list of free chunks (\<open>la_alloc\<close>, \<open>la_free\<close>), and the pointer code refines it.
\<close>

definition MIN_CHUNK_SIZE :: int where "MIN_CHUNK_SIZE = 8"

definition ALIGN_UP :: "int \<Rightarrow> int \<Rightarrow> int" where
  "ALIGN_UP addr size' = i32 (addr + size' - 1) AND NOT (size' - 1)"

definition ALIGN_DOWN :: "int \<Rightarrow> int \<Rightarrow> int" where
  "ALIGN_DOWN addr size' = addr AND NOT (size' - 1)"

record rt_alloc_t =
  first_free :: int
  mem :: "int \<Rightarrow> int"

subsection \<open>The allocator\<close>

definition rt_user_alloc_init :: "int \<Rightarrow> int \<Rightarrow> rt_alloc_t \<Rightarrow> rt_alloc_t" where
  "rt_user_alloc_init chunk0 size0 s =
     (let chunk = ALIGN_UP chunk0 MIN_CHUNK_SIZE;
          s1 = s\<lparr>first_free := chunk\<rparr>;
          sz = size0 - (chunk - chunk0)
      in if sz > 0
         then s1\<lparr>mem := (mem s1)(chunk := ALIGN_DOWN sz MIN_CHUNK_SIZE, chunk + 4 := 0)\<rparr>
         else s1)"

partial_function (option) alloc_search ::
    "(int \<Rightarrow> int) \<Rightarrow> int \<Rightarrow> int \<Rightarrow> int \<Rightarrow> (int \<times> int) option" where
  "alloc_search m sz prev pt =
     (if pt \<noteq> 0 \<and> m pt < sz then alloc_search m sz pt (m (pt + 4)) else Some (prev, pt))"

definition rt_user_alloc :: "int \<Rightarrow> rt_alloc_t \<Rightarrow> (int \<times> rt_alloc_t) option" where
  "rt_user_alloc size0 s =
     (let sz = ALIGN_UP size0 MIN_CHUNK_SIZE; m = mem s in
      Option.bind (alloc_search m sz 0 (first_free s)) (\<lambda>(prev, pt).
        if pt \<noteq> 0 then
          if m pt = sz then
            (if prev \<noteq> 0 then Some (pt, s\<lparr>mem := m(prev + 4 := m (pt + 4))\<rparr>)
             else Some (pt, s\<lparr>first_free := m (pt + 4)\<rparr>))
          else
            let new_pt = pt + sz;
                m1 = m(new_pt := m pt - sz);
                m2 = m1(new_pt + 4 := m1 (pt + 4))
            in (if prev \<noteq> 0 then Some (pt, s\<lparr>mem := m2(prev + 4 := new_pt)\<rparr>)
                else Some (pt, s\<lparr>mem := m2, first_free := new_pt\<rparr>))
        else Some (0, s)))"

partial_function (option) free_search ::
    "(int \<Rightarrow> int) \<Rightarrow> int \<Rightarrow> int \<Rightarrow> int \<Rightarrow> (int \<times> int) option" where
  "free_search m chunk prev nxt =
     (if nxt \<noteq> 0 \<and> nxt < chunk then free_search m chunk nxt (m (nxt + 4)) else Some (prev, nxt))"

definition rt_user_free :: "int \<Rightarrow> int \<Rightarrow> rt_alloc_t \<Rightarrow> rt_alloc_t option" where
  "rt_user_free chunk size0 s =
     (let sz = ALIGN_UP size0 MIN_CHUNK_SIZE; m = mem s in
      map_option (\<lambda>(prev, nxt).
        let m1 = (if chunk + sz = nxt
                  then m(chunk := sz + m nxt, chunk + 4 := m (nxt + 4))
                  else m(chunk := sz, chunk + 4 := nxt))
        in if prev \<noteq> 0 then
             (if prev + m1 prev = chunk
              then s\<lparr>mem := m1(prev := m1 prev + m1 chunk, prev + 4 := m1 (chunk + 4))\<rparr>
              else s\<lparr>mem := m1(prev + 4 := chunk)\<rparr>)
           else s\<lparr>mem := m1, first_free := chunk\<rparr>)
       (free_search m chunk 0 (first_free s)))"

text \<open>\<open>sizeof(rt_alloc_chunk_t)\<close> is 8.\<close>

definition rt_user_alloc_align :: "int \<Rightarrow> int \<Rightarrow> rt_alloc_t \<Rightarrow> (int \<times> rt_alloc_t) option" where
  "rt_user_alloc_align sz align s =
     (if align < 8 then rt_user_alloc sz s
      else
        let size_align = sz + align + 8 * 2 in
        Option.bind (rt_user_alloc size_align s) (\<lambda>(result, s1).
          if result = 0 then Some (0, s1)
          else
            let result_align = (result + align - 1) AND (- align);
                headersize = result_align - result;
                result_align' = (if headersize \<noteq> 0 \<and> result_align - result < 8
                                 then result_align + align else result_align)
            in Option.bind (if headersize \<noteq> 0 then rt_user_free result headersize s1 else Some s1) (\<lambda>s2.
                 map_option (\<lambda>s3. (result_align', s3))
                   (rt_user_free (result_align' + sz) (size_align - headersize - sz) s2))))"

partial_function (option) alloc_info_loop :: "(int \<Rightarrow> int) \<Rightarrow> int \<Rightarrow> int \<Rightarrow> int \<Rightarrow> (int \<times> int) option" where
  "alloc_info_loop m pt sz nb =
     (if pt \<noteq> 0 then alloc_info_loop m (m (pt + 4)) (sz + m pt) (nb + 1) else Some (sz, nb))"

definition rt_user_alloc_info :: "rt_alloc_t \<Rightarrow> (int \<times> int \<times> int) option" where
  "rt_user_alloc_info s =
     map_option (\<lambda>(sz, nb). (sz, first_free s, nb)) (alloc_info_loop (mem s) (first_free s) 0 0)"

declare alloc_search.simps [code] free_search.simps [code] alloc_info_loop.simps [code]

subsection \<open>\<open>malloc\<close> and \<open>free\<close>\<close>

definition canary :: "int \<Rightarrow> int" where "canary ptr = ptr AND 0xFF"

definition canary_and_size_encode :: "int \<Rightarrow> int \<Rightarrow> int" where
  "canary_and_size_encode ptr sz = take_bit 32 (push_bit 8 sz) OR canary ptr"

definition canary_and_size_decode :: "int \<Rightarrow> int \<times> int" where
  "canary_and_size_decode val = (val AND 0xFF, drop_bit 8 val)"

definition domain_malloc :: "int \<Rightarrow> rt_alloc_t \<Rightarrow> (int \<times> rt_alloc_t) option" where
  "domain_malloc size0 s =
     (let sz = take_bit 32 (size0 + 4) in
      if sz \<ge> 2 ^ 24 then Some (0, s)
      else Option.bind (rt_user_alloc sz s) (\<lambda>(ptr, s1).
        if ptr = 0 then Some (0, s1)
        else Some (ptr + 4, s1\<lparr>mem := (mem s1)(ptr := canary_and_size_encode ptr sz)\<rparr>)))"

text \<open>\<open>None\<close> is also the \<open>abort\<close> on a corrupted canary.\<close>

definition domain_free :: "int \<Rightarrow> rt_alloc_t \<Rightarrow> rt_alloc_t option" where
  "domain_free ptr s =
     (let alloc_ptr = ptr - 4; cs = canary_and_size_decode (mem s alloc_ptr) in
      if fst cs \<noteq> canary alloc_ptr then None
      else rt_user_free alloc_ptr (snd cs) s)"

subsection \<open>The abstract allocator: lists of free chunks\<close>

type_synonym chunks = "(int \<times> int) list"  \<comment> \<open>address and size\<close>

fun la_alloc :: "int \<Rightarrow> chunks \<Rightarrow> (int \<times> chunks) option" where
  "la_alloc n [] = None"
| "la_alloc n ((a, z) # cs) =
     (if z < n then map_option (\<lambda>(p, cs'). (p, (a, z) # cs')) (la_alloc n cs)
      else if z = n then Some (a, cs)
      else Some (a, (a + n, z - n) # cs))"

fun la_join :: "int \<times> int \<Rightarrow> chunks \<Rightarrow> chunks" where
  "la_join (a, z) [] = [(a, z)]"
| "la_join (a, z) ((b, y) # cs) = (if a + z = b then (a, z + y) # cs else (a, z) # (b, y) # cs)"

fun la_free :: "int \<Rightarrow> int \<Rightarrow> chunks \<Rightarrow> chunks" where
  "la_free p n [] = [(p, n)]"
| "la_free p n ((a, z) # cs) =
     (if a < p then la_join (a, z) (la_free p n cs) else la_join (p, n) ((a, z) # cs))"

text \<open>Sorted, aligned, inside the region and with a gap between any two chunks.\<close>

fun free_wf :: "int \<Rightarrow> int \<Rightarrow> chunks \<Rightarrow> bool" where
  "free_wf lo hi [] = True"
| "free_wf lo hi ((a, z) # cs) \<longleftrightarrow>
     lo \<le> a \<and> 8 dvd a \<and> 8 dvd z \<and> 0 < z \<and> a + z \<le> hi \<and> free_wf (a + z + 1) hi cs"

definition block :: "int \<Rightarrow> int \<Rightarrow> int set" where "block a z = {a ..< a + z}"

definition free_bytes :: "chunks \<Rightarrow> int set" where
  "free_bytes cs = (\<Union>(a, z) \<in> set cs. block a z)"

text \<open>The list of chunks that memory holds from a pointer to another.\<close>

fun lseg :: "(int \<Rightarrow> int) \<Rightarrow> int \<Rightarrow> chunks \<Rightarrow> int \<Rightarrow> bool" where
  "lseg m p [] q \<longleftrightarrow> p = q"
| "lseg m p ((a, z) # cs) q \<longleftrightarrow> p = a \<and> a \<noteq> 0 \<and> m a = z \<and> lseg m (m (a + 4)) cs q"

definition heap_inv :: "int \<Rightarrow> int \<Rightarrow> chunks \<Rightarrow> rt_alloc_t \<Rightarrow> bool" where
  "heap_inv lo hi cs s \<longleftrightarrow> 0 < lo \<and> hi < 2 ^ 31 \<and> lseg (mem s) (first_free s) cs 0 \<and> free_wf lo hi cs"

subsection \<open>The abstract allocator: lemmas\<close>

lemma free_wf_mono: "free_wf lo hi cs \<Longrightarrow> lo' \<le> lo \<Longrightarrow> free_wf lo' hi cs"
  by (cases cs) (auto simp: split_paired_all)

lemma free_bytes_simps [simp]:
  "free_bytes [] = {}" "free_bytes ((a, z) # cs) = block a z \<union> free_bytes cs"
  by (simp_all add: free_bytes_def)

lemma free_bytes_append [simp]: "free_bytes (xs @ ys) = free_bytes xs \<union> free_bytes ys"
  by (auto simp: free_bytes_def)

lemma free_wf_bytes: "free_wf lo hi cs \<Longrightarrow> free_bytes cs \<subseteq> {lo ..< hi}"
proof (induction cs arbitrary: lo)
  case (Cons c cs)
  obtain a z where c: "c = (a, z)" by (cases c)
  have "free_bytes cs \<subseteq> {a + z + 1 ..< hi}" using Cons c by simp
  then show ?case using Cons.prems by (auto simp: c block_def)
qed simp

lemma la_alloc_wf:
  assumes "free_wf lo hi cs" "0 < n" "8 dvd n" "la_alloc n cs = Some (p, cs')"
  shows "free_wf lo hi cs' \<and> lo \<le> p \<and> p + n \<le> hi \<and> 8 dvd p \<and> block p n \<subseteq> free_bytes cs \<and>
         free_bytes cs' = free_bytes cs - block p n"
  using assms
proof (induction cs arbitrary: lo cs')
  case (Cons c cs)
  obtain a z where c: "c = (a, z)" by (cases c)
  have rest: "free_wf (a + z + 1) hi cs" and wf: "lo \<le> a" "8 dvd a" "8 dvd z" "0 < z" "a + z \<le> hi"
    using Cons.prems(1) by (simp_all add: c)
  note bytes = free_wf_bytes [OF rest]
  show ?case
  proof (cases "z < n")
    case True
    then obtain cs'' where cs'': "la_alloc n cs = Some (p, cs'')" "cs' = (a, z) # cs''"
      using Cons.prems(4) by (auto simp: c)
    have IH: "free_wf (a + z + 1) hi cs'' \<and> a + z + 1 \<le> p \<and> p + n \<le> hi \<and> 8 dvd p \<and>
        block p n \<subseteq> free_bytes cs \<and> free_bytes cs'' = free_bytes cs - block p n"
      using Cons.IH [OF rest Cons.prems(2,3) cs''(1)] .
    moreover have "block a z \<inter> block p n = {}" using IH by (auto simp: block_def)
    ultimately show ?thesis using wf cs''(2) by (auto simp: c)
  next
    case False
    show ?thesis
    proof (cases "z = n")
      case True
      then have "p = a" "cs' = cs" using Cons.prems(4) by (simp_all add: c)
      moreover have "free_bytes cs \<inter> block a z = {}" using bytes by (auto simp: block_def)
      ultimately show ?thesis
        using True wf free_wf_mono [OF rest, of lo] by (auto simp: c)
    next
      case False
      then have eq: "p = a" "cs' = (a + n, z - n) # cs" and n: "n < z"
        using Cons.prems(4) \<open>\<not> z < n\<close> by (auto simp: c)
      have "free_bytes cs \<inter> block a z = {}" using bytes by (auto simp: block_def)
      moreover have "block a z = block a n \<union> block (a + n) (z - n)" "block a n \<inter> block (a + n) (z - n) = {}"
        using n Cons.prems(2) by (auto simp: block_def)
      ultimately show ?thesis
        using eq n wf rest Cons.prems(2,3) by (auto simp: c)
    qed
  qed
qed simp

lemma la_alloc_None: "la_alloc n cs = None \<longleftrightarrow> (\<forall>(a, z) \<in> set cs. z < n)"
  by (induction n cs rule: la_alloc.induct) auto

lemma la_join_wf:
  assumes "lo \<le> a" "8 dvd a" "8 dvd z" "0 < z" "a + z \<le> hi" "free_wf (a + z) hi cs"
  shows "free_wf lo hi (la_join (a, z) cs)" "free_bytes (la_join (a, z) cs) = block a z \<union> free_bytes cs"
proof -
  show "free_wf lo hi (la_join (a, z) cs)"
    using assms by (cases cs) (auto simp: split_paired_all add.assoc)
  show "free_bytes (la_join (a, z) cs) = block a z \<union> free_bytes cs"
    using assms by (cases cs) (auto simp: split_paired_all block_def)
qed

lemma la_free_wf:
  assumes "free_wf lo hi cs" "lo \<le> p" "p + n \<le> hi" "8 dvd p" "8 dvd n" "0 < n"
    and "block p n \<inter> free_bytes cs = {}"
  shows "free_wf lo hi (la_free p n cs) \<and> free_bytes (la_free p n cs) = block p n \<union> free_bytes cs"
  using assms
proof (induction cs arbitrary: lo)
  case (Cons c cs)
  obtain a z where c: "c = (a, z)" by (cases c)
  have rest: "free_wf (a + z + 1) hi cs" and wf: "lo \<le> a" "8 dvd a" "8 dvd z" "0 < z" "a + z \<le> hi"
    using Cons.prems(1) by (simp_all add: c)
  have disj: "block p n \<inter> block a z = {}" "block p n \<inter> free_bytes cs = {}"
    using Cons.prems(7) by (auto simp: c)
  show ?case
  proof (cases "a < p")
    case True
    have "p \<notin> block a z" using disj(1) Cons.prems(6) by (auto simp: block_def)
    then have "a + z \<le> p" using True by (simp add: block_def)
    then have IH: "free_wf (a + z) hi (la_free p n cs) \<and> free_bytes (la_free p n cs) = block p n \<union> free_bytes cs"
      using Cons.prems(3-6) disj(2) free_wf_mono [OF rest, of "a + z"] by (intro Cons.IH) auto
    then show ?thesis using True wf la_join_wf [of lo a z hi "la_free p n cs"] by (auto simp: c)
  next
    case False
    have "a \<notin> block p n" using disj(1) wf(4) by (auto simp: block_def)
    then have "p + n \<le> a" using False by (simp add: block_def)
    then have "free_wf (p + n) hi ((a, z) # cs)" using wf rest by simp
    then show ?thesis
      using False Cons.prems(2-6) la_join_wf [of lo p n hi "(a, z) # cs"] by (auto simp: c)
  qed
qed (auto simp: block_def)

text \<open>Freeing what was just allocated gives back the list of before, chunk for chunk.\<close>

lemma la_join_gap: "free_wf (a + z + 1) hi cs \<Longrightarrow> la_join (a, z) cs = (a, z) # cs"
  by (cases cs) (auto simp: split_paired_all)

lemma la_alloc_free:
  assumes "free_wf lo hi cs" "0 < n" "la_alloc n cs = Some (p, cs')"
  shows "la_free p n cs' = cs"
  using assms
proof (induction cs arbitrary: lo cs')
  case (Cons c cs)
  obtain a z where c: "c = (a, z)" by (cases c)
  have rest: "free_wf (a + z + 1) hi cs" and wf: "0 < z" using Cons.prems(1) by (simp_all add: c)
  show ?case
  proof (cases "z < n")
    case True
    then obtain cs'' where cs'': "la_alloc n cs = Some (p, cs'')" "cs' = (a, z) # cs''"
      using Cons.prems(3) by (auto simp: c)
    have "a < p"
    proof -
      have "\<exists>y. (p, y) \<in> set cs" if "la_alloc n cs = Some (p, cs'')" for cs cs''
        using that by (induction cs arbitrary: cs'') (auto simp: split_paired_all split: if_splits)
      then obtain y where "(p, y) \<in> set cs" using cs''(1) by blast
      then have "a + z + 1 \<le> p"
        using rest by (induction cs arbitrary: a z) (auto simp: split_paired_all, force)
      then show ?thesis using wf by simp
    qed
    then show ?thesis
      using Cons.IH [OF rest Cons.prems(2) cs''(1)] cs''(2) la_join_gap [OF rest] by (simp add: c)
  next
    case False
    show ?thesis
    proof (cases "z = n")
      case True
      then have eq: "p = a" "cs' = cs" using Cons.prems(3) by (auto simp: c)
      have "la_free a z cs = la_join (a, z) cs"
        using rest wf by (cases cs) (auto simp: split_paired_all)
      then show ?thesis using eq True la_join_gap [OF rest] by (simp add: c)
    next
      case False
      then have "p = a" "cs' = (a + n, z - n) # cs" "n < z"
        using Cons.prems(3) \<open>\<not> z < n\<close> by (auto simp: c)
      then show ?thesis using Cons.prems(2) by (simp add: c)
    qed
  qed
qed simp

subsection \<open>Lists of chunks in memory\<close>

definition headers :: "chunks \<Rightarrow> int set" where
  "headers cs = (\<Union>(a, z) \<in> set cs. {a, a + 4})"

lemma headers_simps [simp]:
  "headers [] = {}" "headers ((a, z) # cs) = {a, a + 4} \<union> headers cs"
  "headers (xs @ ys) = headers xs \<union> headers ys"
  by (auto simp: headers_def)

lemma lseg_cong: "(\<And>x. x \<in> headers cs \<Longrightarrow> m' x = m x) \<Longrightarrow> lseg m' p cs q = lseg m p cs q"
  by (induction m p cs q rule: lseg.induct) auto

lemma lseg_append: "lseg m p (xs @ ys) q \<longleftrightarrow> (\<exists>r. lseg m p xs r \<and> lseg m r ys q)"
  by (induction xs arbitrary: p) (auto simp: split_paired_all)

lemma lseg_nonzero: "lseg m p cs q \<Longrightarrow> (a, z) \<in> set cs \<Longrightarrow> a \<noteq> 0"
  by (induction m p cs q rule: lseg.induct) auto

lemma free_wf_mem:
  assumes "free_wf lo hi cs" "(a, z) \<in> set cs"
  shows "lo \<le> a" "8 dvd a" "8 dvd z" "0 < z" "a + z \<le> hi"
proof -
  have "lo \<le> a \<and> 8 dvd a \<and> 8 dvd z \<and> 0 < z \<and> a + z \<le> hi"
    using assms by (induction lo hi cs rule: free_wf.induct) force+
  then show "lo \<le> a" "8 dvd a" "8 dvd z" "0 < z" "a + z \<le> hi" by auto
qed

lemma free_wf_headers_bytes: "free_wf lo hi cs \<Longrightarrow> headers cs \<subseteq> free_bytes cs"
proof
  fix x assume wf: "free_wf lo hi cs" and "x \<in> headers cs"
  then obtain a z where az: "(a, z) \<in> set cs" "x = a \<or> x = a + 4" by (auto simp: headers_def)
  have "8 \<le> z" using free_wf_mem(3,4) [OF wf az(1)] by (auto dest: zdvd_imp_le)
  then have "x \<in> block a z" using az(2) by (auto simp: block_def)
  then show "x \<in> free_bytes cs" using az(1) by (auto simp: free_bytes_def)
qed

lemma free_wf_append:
  "free_wf lo hi (xs @ ys) \<Longrightarrow> free_wf lo hi xs \<and> free_wf lo hi ys \<and>
     free_bytes xs \<inter> free_bytes ys = {} \<and>
     (\<forall>(a, z) \<in> set xs. \<forall>(b, y) \<in> set ys. a + z < b)"
proof (induction xs arbitrary: lo)
  case (Cons c xs)
  obtain a z where c: "c = (a, z)" by (cases c)
  have wf: "free_wf (a + z + 1) hi (xs @ ys)" "lo \<le> a" "8 dvd a" "8 dvd z" "0 < z" "a + z \<le> hi"
    using Cons.prems by (simp_all add: c)
  note IH = Cons.IH [OF wf(1)]
  have ys: "a + z < b" if "(b, y) \<in> set ys" for b y
    using free_wf_mem(1) [of "a + z + 1" hi ys b y] IH that by simp
  have "free_bytes ys \<subseteq> {a + z + 1 ..< hi}" using IH free_wf_bytes by blast
  then have "block a z \<inter> free_bytes ys = {}" by (auto simp: block_def)
  then show ?case
    using IH wf(2-6) ys free_wf_mono [of "a + z + 1" hi ys lo] by (auto simp: c)
qed simp

lemma last_header:
  assumes "free_wf lo hi (xs @ [(b, y)])"
  shows "b + 4 \<notin> headers xs" "b \<notin> headers xs"
proof -
  note ap = free_wf_append [OF assms]
  have "{b, b + 4} \<subseteq> free_bytes [(b, y)]" using free_wf_headers_bytes [of lo hi "[(b, y)]"] ap by auto
  then show "b + 4 \<notin> headers xs" "b \<notin> headers xs"
    using ap free_wf_headers_bytes [of lo hi xs] by (auto simp del: free_bytes_simps)
qed

text \<open>Making the element before a position (or the list head) point to a new continuation.\<close>

definition last_addr :: "chunks \<Rightarrow> int" where
  "last_addr pre = (if pre = [] then 0 else fst (last pre))"

definition link_to :: "int \<Rightarrow> int \<Rightarrow> rt_alloc_t \<Rightarrow> rt_alloc_t" where
  "link_to prev q s = (if prev \<noteq> 0 then s\<lparr>mem := (mem s)(prev + 4 := q)\<rparr> else s\<lparr>first_free := q\<rparr>)"

lemma lseg_redirect:
  assumes "lseg m p (xs @ [(b, y)]) q" "b + 4 \<notin> headers xs" "\<And>x. x \<in> headers (xs @ [(b, y)]) \<Longrightarrow> m' x = m x"
  shows "lseg (m'(b + 4 := q')) p (xs @ [(b, y)]) q'"
proof -
  obtain r where r: "lseg m p xs r" "r = b" "b \<noteq> 0" "m b = y"
    using assms(1) by (auto simp: lseg_append)
  have "lseg (m'(b + 4 := q')) p xs r = lseg m p xs r"
    using assms(2,3) by (intro lseg_cong) auto
  then show ?thesis using r assms(3) [of b] by (auto simp: lseg_append)
qed

lemma link_to_lseg:
  assumes "lseg m p pre q" "free_wf lo hi pre" "\<And>x. x \<in> headers pre \<Longrightarrow> mem s x = m x" "first_free s = p"
  shows "lseg (mem (link_to (last_addr pre) q' s)) (first_free (link_to (last_addr pre) q' s)) pre q'"
proof (cases pre rule: rev_cases)
  case Nil
  then show ?thesis by (simp add: last_addr_def link_to_def)
next
  case (snoc xs c)
  obtain b y where c: "c = (b, y)" by (cases c)
  have "b \<noteq> 0" using lseg_nonzero [OF assms(1)] snoc c by auto
  then show ?thesis
    using lseg_redirect [of m p xs b y q "mem s" q'] assms last_header [of lo hi xs b y]
    by (simp add: snoc c last_addr_def link_to_def)
qed

lemma link_to_mem: "x \<notin> headers pre \<Longrightarrow> mem (link_to (last_addr pre) q s) x = mem s x"
  by (cases pre rule: rev_cases) (auto simp: link_to_def last_addr_def split_paired_all)

subsection \<open>Rounding\<close>

definition round8 :: "int \<Rightarrow> int" where "round8 n = (n + 7) div 8 * 8"

lemma and_not_mask_int: "(k :: int) AND NOT (mask n) = push_bit n (drop_bit n k)"
  by (rule bit_eqI) (auto simp: bit_and_iff bit_not_iff bit_mask_iff bit_push_bit_iff bit_drop_bit_eq)

lemma and_not_7: "(k :: int) AND NOT 7 = k div 8 * 8"
proof -
  have "(7 :: int) = mask 3" by (simp add: mask_eq_exp_minus_1)
  then have "k AND NOT 7 = push_bit 3 (drop_bit 3 k)" by (simp only: and_not_mask_int)
  then show ?thesis by (simp add: push_bit_eq_mult drop_bit_eq_div)
qed

lemma ALIGN_UP_8: "- (2 ^ 31) \<le> n + 7 \<Longrightarrow> n + 7 < 2 ^ 31 \<Longrightarrow> ALIGN_UP n MIN_CHUNK_SIZE = round8 n"
  using and_not_7 [of "n + 7"]
  by (simp add: ALIGN_UP_def MIN_CHUNK_SIZE_def i32_def round8_def signed_take_bit_int_eq_self
      add.commute [of 7])

lemma round8_props: "8 dvd round8 n" "n \<le> round8 n" "round8 n < n + 8" "0 < n \<Longrightarrow> 0 < round8 n"
  by (simp_all add: round8_def)

lemma round8_id: "8 dvd n \<Longrightarrow> round8 n = n"
  by (auto simp: round8_def dvd_def)

subsection \<open>The pointer code refines the abstract allocator\<close>

definition first_addr :: "chunks \<Rightarrow> int" where
  "first_addr cs = (case cs of [] \<Rightarrow> 0 | (a, z) # _ \<Rightarrow> a)"

lemma alloc_search_split:
  assumes "lseg m p cs 0" "free_wf lo hi cs"
  shows "\<exists>pre post. cs = pre @ post \<and> (\<forall>(a, z) \<in> set pre. z < n) \<and>
           (post \<noteq> [] \<longrightarrow> n \<le> snd (hd post)) \<and>
           alloc_search m n prev p = Some (if pre = [] then prev else last_addr pre, first_addr post)"
  using assms
proof (induction cs arbitrary: p prev lo)
  case Nil
  then show ?case by (subst alloc_search.simps) (simp add: first_addr_def)
next
  case (Cons c cs)
  obtain a z where c: "c = (a, z)" by (cases c)
  have p: "p = a" "a \<noteq> 0" "m a = z" "lseg m (m (a + 4)) cs 0" using Cons.prems(1) by (simp_all add: c)
  show ?case
  proof (cases "z < n")
    case True
    have "free_wf (a + z + 1) hi cs" using Cons.prems(2) by (simp add: c)
    then obtain pre post where IH: "cs = pre @ post" "\<forall>(a, z) \<in> set pre. z < n"
      "post \<noteq> [] \<longrightarrow> n \<le> snd (hd post)"
      "alloc_search m n a (m (a + 4)) = Some (if pre = [] then a else last_addr pre, first_addr post)"
      using Cons.IH [OF p(4), of _ a] by blast
    have "alloc_search m n prev p = alloc_search m n a (m (a + 4))"
      using p True by (subst alloc_search.simps) simp
    then show ?thesis
      using IH True by (intro exI [of _ "c # pre"] exI [of _ post]) (auto simp: c last_addr_def)
  next
    case False
    then have "alloc_search m n prev p = Some (prev, a)"
      using p by (subst alloc_search.simps) simp
    then show ?thesis
      using False by (intro exI [of _ "[]"] exI [of _ "c # cs"]) (simp add: c first_addr_def)
  qed
qed

lemma la_alloc_split:
  assumes "\<forall>(a, z) \<in> set pre. z < n" "n \<le> z"
  shows "la_alloc n (pre @ (a, z) # rest) =
           Some (a, pre @ (if z = n then rest else (a + n, z - n) # rest))"
  using assms by (induction pre) (auto simp: split_paired_all)

lemma rt_user_alloc_refines:
  assumes inv: "heap_inv lo hi cs s" and size0: "0 < size0" "size0 \<le> 2 ^ 31 - 8"
  shows "case la_alloc (round8 size0) cs of
      None \<Rightarrow> rt_user_alloc size0 s = Some (0, s)
    | Some (p, cs') \<Rightarrow> \<exists>s'. rt_user_alloc size0 s = Some (p, s') \<and> heap_inv lo hi cs' s' \<and>
        (\<forall>x. x \<notin> free_bytes cs \<longrightarrow> mem s' x = mem s x)"
proof -
  define n where "n = round8 size0"
  have up: "ALIGN_UP size0 MIN_CHUNK_SIZE = n" using size0 ALIGN_UP_8 [of size0] by (simp add: n_def)
  have n: "0 < n" "8 dvd n" using round8_props [of size0] size0 by (simp_all add: n_def)
  then have n8: "8 \<le> n" by (auto dest: zdvd_imp_le)
  have seg: "lseg (mem s) (first_free s) cs 0" and wf: "free_wf lo hi cs"
    using inv by (simp_all add: heap_inv_def)
  obtain pre post where split: "cs = pre @ post" "\<forall>(a, z) \<in> set pre. z < n" "post \<noteq> [] \<longrightarrow> n \<le> snd (hd post)"
    "alloc_search (mem s) n 0 (first_free s) = Some (if pre = [] then 0 else last_addr pre, first_addr post)"
    using alloc_search_split [OF seg wf, of n 0] by blast
  then have srch: "alloc_search (mem s) n 0 (first_free s) = Some (last_addr pre, first_addr post)"
    by (simp add: last_addr_def)
  show ?thesis
  proof (cases post)
    case Nil
    then have "la_alloc n cs = None" using split(1,2) by (auto simp: la_alloc_None)
    then show ?thesis using srch Nil by (simp add: n_def [symmetric] rt_user_alloc_def up first_addr_def)
  next
    case (Cons c rest)
    obtain a z where c: "c = (a, z)" by (cases c)
    have z: "n \<le> z" using split(3) by (simp add: Cons c)
    let ?new = "if z = n then rest else (a + n, z - n) # rest"
    have la: "la_alloc n cs = Some (a, pre @ ?new)" using split(1,2) z by (simp add: Cons c la_alloc_split)
    have wf': "free_wf lo hi (pre @ ?new)" "block a n \<subseteq> free_bytes cs"
      using la_alloc_wf [OF wf n la] by simp_all
    note ap = free_wf_append [OF wf [unfolded split(1) Cons c]]
    have segs: "lseg (mem s) (first_free s) pre a" "a \<noteq> 0" "mem s a = z" "lseg (mem s) (mem s (a + 4)) rest 0"
      using seg by (auto simp: split(1) Cons c lseg_append)
    have hd: "headers pre \<subseteq> free_bytes pre" using ap free_wf_headers_bytes by blast
    define q where "q = (if z = n then mem s (a + 4) else a + n)"
    define s1 where "s1 = (if z = n then s else
        s\<lparr>mem := (mem s)(a + n := z - n, a + n + 4 := mem s (a + 4))\<rparr>)"
    have res: "rt_user_alloc size0 s = Some (a, link_to (last_addr pre) q s1)"
      using srch segs(2,3) n8
      by (simp add: rt_user_alloc_def up Cons c first_addr_def Let_def q_def s1_def link_to_def)
    have blk: "{a + n, a + n + 4} \<subseteq> block a z" if "z \<noteq> n"
    proof -
      have "8 dvd z" using free_wf_mem(3) [OF wf, of a z] by (simp add: split(1) Cons c)
      then have "8 dvd z - n" using n(2) by (rule dvd_diff)
      then have "8 \<le> z - n" using that z zdvd_imp_le [of 8 "z - n"] by simp
      then show ?thesis using n(1) by (auto simp: block_def)
    qed
    have s1_mem: "mem s1 x = mem s x" if "x \<notin> block a z" for x
      using that blk by (auto simp: s1_def)
    have out_pre: "x \<notin> block a z" if "x \<in> headers pre" for x using that hd ap by auto
    have out_rest: "x \<notin> block a z \<union> headers pre" if "x \<in> headers rest" for x
    proof -
      have "free_wf (a + z + 1) hi rest" using ap by simp
      then have "x \<in> free_bytes rest" "free_bytes rest \<subseteq> {a + z + 1 ..< hi}"
        using that free_wf_headers_bytes free_wf_bytes by blast+
      then show ?thesis using ap hd by (auto simp: block_def)
    qed
    let ?s' = "link_to (last_addr pre) q s1"
    have "lseg (mem ?s') (first_free ?s') pre q"
      using segs(1) ap s1_mem out_pre by (intro link_to_lseg [of "mem s" "first_free s" pre a lo hi]) (auto simp: s1_def)
    moreover have "lseg (mem ?s') q ?new 0"
    proof -
      have "lseg (mem ?s') (mem s (a + 4)) rest 0"
        using segs(4) out_rest s1_mem link_to_mem [of _ pre q s1]
        by (subst lseg_cong [of rest _ "mem s"]) auto
      moreover have "mem ?s' (a + n) = z - n \<and> mem ?s' (a + n + 4) = mem s (a + 4)" if "z \<noteq> n"
      proof -
        have "a + n \<notin> headers pre" "a + n + 4 \<notin> headers pre" using blk [OF that] out_pre by auto
        then show ?thesis using that by (simp add: link_to_mem) (simp add: s1_def)
      qed
      moreover have "a + n \<noteq> 0"
        using free_wf_mem(1) [OF wf, of a z] inv n(1) by (simp add: split(1) Cons c heap_inv_def)
      ultimately show ?thesis by (cases "z = n") (simp_all add: q_def)
    qed
    ultimately have "heap_inv lo hi (pre @ ?new) ?s'"
      using inv wf'(1) by (auto simp: heap_inv_def lseg_append)
    moreover have "mem ?s' x = mem s x" if "x \<notin> free_bytes cs" for x
      using that hd s1_mem link_to_mem [of x pre q s1] by (auto simp: split(1) Cons c)
    ultimately show ?thesis unfolding n_def [symmetric] la using res by simp
  qed
qed

lemma free_search_split:
  assumes "lseg m p cs 0" "free_wf lo hi cs"
  shows "\<exists>pre post. cs = pre @ post \<and> (\<forall>(a, z) \<in> set pre. a < chunk) \<and>
           (post \<noteq> [] \<longrightarrow> chunk \<le> fst (hd post)) \<and>
           free_search m chunk prev p = Some (if pre = [] then prev else last_addr pre, first_addr post)"
  using assms
proof (induction cs arbitrary: p prev lo)
  case Nil
  then show ?case by (subst free_search.simps) (simp add: first_addr_def)
next
  case (Cons c cs)
  obtain a z where c: "c = (a, z)" by (cases c)
  have p: "p = a" "a \<noteq> 0" "lseg m (m (a + 4)) cs 0" using Cons.prems(1) by (simp_all add: c)
  show ?case
  proof (cases "a < chunk")
    case True
    have "free_wf (a + z + 1) hi cs" using Cons.prems(2) by (simp add: c)
    then obtain pre post where IH: "cs = pre @ post" "\<forall>(a, z) \<in> set pre. a < chunk"
      "post \<noteq> [] \<longrightarrow> chunk \<le> fst (hd post)"
      "free_search m chunk a (m (a + 4)) = Some (if pre = [] then a else last_addr pre, first_addr post)"
      using Cons.IH [OF p(3), of _ a] by blast
    have "free_search m chunk prev p = free_search m chunk a (m (a + 4))"
      using p True by (subst free_search.simps) simp
    then show ?thesis
      using IH True by (intro exI [of _ "c # pre"] exI [of _ post]) (auto simp: c last_addr_def)
  next
    case False
    then have "free_search m chunk prev p = Some (prev, a)"
      using p by (subst free_search.simps) simp
    then show ?thesis
      using False by (intro exI [of _ "[]"] exI [of _ "c # cs"]) (simp add: c first_addr_def)
  qed
qed

lemma la_free_post: "post \<noteq> [] \<longrightarrow> p \<le> fst (hd post) \<Longrightarrow> la_free p n post = la_join (p, n) post"
  by (cases post) (auto simp: split_paired_all)

lemma la_join_hd: "\<exists>w r. la_join (a, z) cs = (a, w) # r"
  by (cases cs) (auto simp: split_paired_all)

lemma la_free_split:
  assumes "free_wf lo hi (xs @ (b, y) # post)" "\<forall>(a, z) \<in> set xs. a < p" "b < p"
    and "post \<noteq> [] \<longrightarrow> p \<le> fst (hd post)"
  shows "la_free p n (xs @ (b, y) # post) = xs @ la_join (b, y) (la_join (p, n) post)"
  using assms
proof (induction xs arbitrary: lo)
  case Nil
  then show ?case by (simp add: la_free_post)
next
  case (Cons c xs)
  obtain a z where c: "c = (a, z)" by (cases c)
  have wf: "free_wf (a + z + 1) hi (xs @ (b, y) # post)" using Cons.prems(1) by (simp add: c)
  have IH: "la_free p n (xs @ (b, y) # post) = xs @ la_join (b, y) (la_join (p, n) post)"
    using Cons.IH [OF wf] Cons.prems by simp
  obtain w r where j: "la_join (b, y) (la_join (p, n) post) = (b, w) # r" using la_join_hd by blast
  have "la_join (a, z) (xs @ (b, w) # r) = (a, z) # xs @ (b, w) # r"
    using wf by (cases xs) (auto simp: split_paired_all)
  then show ?case using IH j Cons.prems(2) by (simp add: c)
qed

lemma rt_user_free_refines:
  assumes inv: "heap_inv lo hi cs s" and size0: "0 < size0" "size0 \<le> 2 ^ 31 - 8"
    and blk: "lo \<le> p" "p + round8 size0 \<le> hi" "8 dvd p" "block p (round8 size0) \<inter> free_bytes cs = {}"
  shows "\<exists>s'. rt_user_free p size0 s = Some s' \<and> heap_inv lo hi (la_free p (round8 size0) cs) s' \<and>
     (\<forall>x. x \<notin> free_bytes cs \<union> block p (round8 size0) \<longrightarrow> mem s' x = mem s x)"
proof -
  define n where "n = round8 size0"
  have up: "ALIGN_UP size0 MIN_CHUNK_SIZE = n" using size0 ALIGN_UP_8 [of size0] by (simp add: n_def)
  have n: "0 < n" "8 dvd n" using round8_props [of size0] size0 by (simp_all add: n_def)
  then have n8: "8 \<le> n" by (auto dest: zdvd_imp_le)
  have seg: "lseg (mem s) (first_free s) cs 0" and wf: "free_wf lo hi cs" and lo: "0 < lo"
    using inv by (simp_all add: heap_inv_def)
  note wf' = la_free_wf [OF wf blk(1) _ blk(3) n(2,1), of, folded n_def]
  obtain pre post where split: "cs = pre @ post" "\<forall>(a, z) \<in> set pre. a < p" "post \<noteq> [] \<longrightarrow> p \<le> fst (hd post)"
    "free_search (mem s) p 0 (first_free s) = Some (if pre = [] then 0 else last_addr pre, first_addr post)"
    using free_search_split [OF seg wf, of p 0] by blast
  then have srch: "free_search (mem s) p 0 (first_free s) = Some (last_addr pre, first_addr post)"
    by (simp add: last_addr_def)
  note ap = free_wf_append [OF wf [unfolded split(1)]]
  obtain q where segs: "lseg (mem s) (first_free s) pre q" "lseg (mem s) q post 0"
    using seg by (auto simp: split(1) lseg_append)
  have q: "q = first_addr post" using segs(2) by (cases post) (auto simp: first_addr_def split_paired_all)
  define m1 where "m1 = (if p + n = q then (mem s)(p := n + mem s q, p + 4 := mem s (q + 4))
                         else (mem s)(p := n, p + 4 := q))"
  have run: "rt_user_free p size0 s = Some
     (let prev = last_addr pre in
      if prev \<noteq> 0
      then (if prev + m1 prev = p then s\<lparr>mem := m1(prev := m1 prev + m1 p, prev + 4 := m1 (p + 4))\<rparr>
            else s\<lparr>mem := m1(prev + 4 := p)\<rparr>)
      else s\<lparr>mem := m1, first_free := p\<rparr>)"
    unfolding rt_user_free_def up Let_def srch m1_def q by simp
  have hdr: "headers cs \<subseteq> free_bytes cs" using free_wf_headers_bytes [OF wf] .
  have pin: "p \<in> block p n" "p + 4 \<in> block p n" using n8 by (auto simp: block_def)
  then have ph: "p \<notin> headers cs" "p + 4 \<notin> headers cs" using hdr blk(4) by (auto simp: n_def)
  have m1_out: "m1 x = mem s x" if "x \<in> headers cs \<or> x \<notin> block p n" for x
  proof -
    have "x \<noteq> p \<and> x \<noteq> p + 4" using that pin ph by auto
    then show ?thesis by (simp add: m1_def)
  qed
  have mid: "lseg m1 p (la_join (p, n) post) 0"
  proof (cases post)
    case Nil
    then show ?thesis using q lo blk(1) n(1) by (simp add: m1_def first_addr_def)
  next
    case (Cons c rest)
    obtain b y where c: "c = (b, y)" by (cases c)
    have "lseg m1 q post 0"
      using segs(2) m1_out by (subst lseg_cong [of post _ "mem s"]) (auto simp: split(1))
    moreover have "mem s q = y" "q = b" using segs(2) by (simp_all add: Cons c)
    moreover have "m1 (b + 4) = mem s (b + 4)" using m1_out by (simp add: split(1) Cons c)
    moreover have "p \<noteq> 0" using lo blk(1) by simp
    ultimately show ?thesis by (auto simp: Cons c m1_def)
  qed
  show ?thesis
  proof (cases pre rule: rev_cases)
    case Nil
    have "rt_user_free p size0 s = Some (s\<lparr>mem := m1, first_free := p\<rparr>)"
      by (simp add: run Nil last_addr_def)
    moreover have "la_free p n cs = la_join (p, n) post"
      using split(1,3) Nil la_free_post by simp
    ultimately show ?thesis
      using mid m1_out wf' blk inv unfolding n_def by (auto simp: heap_inv_def)
  next
    case (snoc xs c)
    obtain b y where c: "c = (b, y)" by (cases c)
    have b: "b \<noteq> 0" "mem s b = y" "lseg (mem s) (first_free s) xs b"
      using segs(1) by (auto simp: snoc c lseg_append)
    have la: "la_free p n cs = xs @ la_join (b, y) (la_join (p, n) post)"
      using la_free_split [of lo hi xs b y post p n] wf split by (simp add: snoc c)
    have m1b: "m1 b = y" using m1_out [of b] b(2) by (simp add: split(1) snoc c)
    have lh: "b + 4 \<notin> headers xs" "b \<notin> headers xs"
      using last_header [of lo hi xs b y] ap by (simp_all add: snoc c)
    obtain w r where j: "la_join (p, n) post = (p, w) # r" using la_join_hd by blast
    have w: "m1 p = w" "lseg m1 (m1 (p + 4)) r 0" using mid by (simp_all add: j)
    define s' where "s' = s\<lparr>mem := (if b + y = p then m1(b := y + w, b + 4 := m1 (p + 4)) else m1(b + 4 := p))\<rparr>"
    have res: "rt_user_free p size0 s = Some s'"
      using b(1) m1b w(1) by (simp add: run snoc c last_addr_def s'_def)
    have xs': "lseg (mem s') (first_free s') xs b"
      using b(3) lh m1_out by (subst lseg_cong [of xs _ "mem s"]) (auto simp: s'_def split(1) snoc)
    have rh: "headers r \<inter> {b, b + 4, p, p + 4} = {}"
    proof -
      have sub: "headers r \<subseteq> headers post" using j by (cases post) (auto simp: split_paired_all split: if_splits)
      have "{b, b + 4} \<subseteq> headers pre" by (simp add: snoc c)
      moreover have "headers pre \<inter> headers post = {}"
        using ap free_wf_headers_bytes [of lo hi pre] free_wf_headers_bytes [of lo hi post] by auto
      ultimately show ?thesis using sub ph by (auto simp: split(1))
    qed
    have bp: "b \<noteq> p \<and> b + 4 \<noteq> p \<and> b \<noteq> p + 4"
      using ph by (auto simp: split(1) snoc c)
    have "lseg (mem s') b (la_join (b, y) ((p, w) # r)) 0"
    proof (cases "b + y = p")
      case True
      have "lseg (mem s') (m1 (p + 4)) r 0"
        using w(2) rh True by (subst lseg_cong [of r _ m1]) (auto simp: s'_def)
      then show ?thesis using True b(1) by (simp add: s'_def)
    next
      case False
      have "lseg (mem s') (m1 (p + 4)) r 0"
        using w(2) rh False by (subst lseg_cong [of r _ m1]) (auto simp: s'_def)
      then show ?thesis using False b(1) m1b w(1) bp lo blk(1) by (auto simp: s'_def)
    qed
    then have "lseg (mem s') (first_free s') (la_free p n cs) 0"
      using xs' unfolding la j by (auto simp: lseg_append)
    moreover have "mem s' x = mem s x" if "x \<notin> free_bytes cs \<union> block p n" for x
    proof -
      have "x \<noteq> b \<and> x \<noteq> b + 4" using that hdr by (auto simp: split(1) snoc c)
      then show ?thesis using that m1_out by (simp add: s'_def)
    qed
    ultimately show ?thesis
      using res wf' blk inv unfolding n_def by (auto simp: heap_inv_def)
  qed
qed

subsection \<open>Clients of the allocator\<close>

text \<open>
  A region under the allocator and the blocks its clients hold: pairs of the address and the size
  they asked for. Clients write into their blocks and give back blocks they hold, with their size.
\<close>

inductive alloc_run :: "int \<Rightarrow> int \<Rightarrow> (int \<times> int) list \<Rightarrow> rt_alloc_t \<Rightarrow> bool" for base len where
  ar_init: "alloc_run base len [] (rt_user_alloc_init base len s)"
| ar_alloc: "alloc_run base len live s \<Longrightarrow> 0 < n \<Longrightarrow> n \<le> 2 ^ 31 - 8 \<Longrightarrow> rt_user_alloc n s = Some (p, s') \<Longrightarrow>
    alloc_run base len (if p = 0 then live else (p, n) # live) s'"
| ar_free: "alloc_run base len (xs @ (p, n) # ys) s \<Longrightarrow> rt_user_free p n s = Some s' \<Longrightarrow>
    alloc_run base len (xs @ ys) s'"
| ar_write: "alloc_run base len live s \<Longrightarrow> (p, n) \<in> set live \<Longrightarrow> 4 dvd x \<Longrightarrow> x \<in> block p n \<Longrightarrow>
    alloc_run base len live (s\<lparr>mem := (mem s)(x := v)\<rparr>)"

definition live_block :: "int \<times> int \<Rightarrow> int set" where
  "live_block = (\<lambda>(p, n). block p (round8 n))"

definition run_inv :: "int \<Rightarrow> int \<Rightarrow> (int \<times> int) list \<Rightarrow> chunks \<Rightarrow> rt_alloc_t \<Rightarrow> bool" where
  "run_inv lo hi live cs s \<longleftrightarrow> heap_inv lo hi cs s \<and>
     (\<forall>(p, n) \<in> set live. 0 < n \<and> n \<le> 2 ^ 31 - 8 \<and> 8 dvd p \<and> lo \<le> p \<and> p + round8 n \<le> hi) \<and>
     sorted_wrt (\<lambda>b c. live_block b \<inter> live_block c = {}) live \<and>
     \<Union> (live_block ` set live) \<inter> free_bytes cs = {} \<and>
     \<Union> (live_block ` set live) \<union> free_bytes cs = {lo ..< hi}"

lemma run_inv_alloc:
  assumes inv: "run_inv lo hi live cs s" and n: "0 < n" "n \<le> 2 ^ 31 - 8"
  shows "\<exists>p s'. rt_user_alloc n s = Some (p, s') \<and>
     (\<exists>cs'. run_inv lo hi (if p = 0 then live else (p, n) # live) cs' s')"
proof (cases "la_alloc (round8 n) cs")
  case None
  have "heap_inv lo hi cs s" using inv by (simp add: run_inv_def)
  from rt_user_alloc_refines [OF this n] have "rt_user_alloc n s = Some (0, s)" by (simp add: None)
  then show ?thesis using inv by auto
next
  case (Some x)
  obtain p cs' where x: "x = (p, cs')" by (cases x)
  have h: "heap_inv lo hi cs s" using inv by (simp add: run_inv_def)
  from rt_user_alloc_refines [OF h n] obtain s' where s': "rt_user_alloc n s = Some (p, s')" "heap_inv lo hi cs' s'"
    by (auto simp: Some x)
  have wf: "free_wf lo hi cs" "0 < lo" using h by (simp_all add: heap_inv_def)
  note la = la_alloc_wf [OF wf(1) round8_props(4) [OF n(1)] round8_props(1) Some [unfolded x]]
  have "live_block (p, n) \<inter> live_block c = {}" if "c \<in> set live" for c
    using la inv that by (auto simp: run_inv_def live_block_def)
  then have "run_inv lo hi ((p, n) # live) cs' s'"
    using inv la s'(2) n by (auto simp: run_inv_def live_block_def)
  moreover have "p \<noteq> 0" using la wf(2) by auto
  ultimately show ?thesis using s'(1) by auto
qed

lemma run_inv_free:
  assumes inv: "run_inv lo hi (xs @ (p, n) # ys) cs s"
  shows "\<exists>s' cs'. rt_user_free p n s = Some s' \<and> run_inv lo hi (xs @ ys) cs' s'"
proof -
  have h: "heap_inv lo hi cs s" and n: "0 < n" "n \<le> 2 ^ 31 - 8"
    and p: "lo \<le> p" "p + round8 n \<le> hi" "8 dvd p" "block p (round8 n) \<inter> free_bytes cs = {}"
    using inv by (auto simp: run_inv_def live_block_def)
  obtain s' where s': "rt_user_free p n s = Some s'" "heap_inv lo hi (la_free p (round8 n) cs) s'"
    using rt_user_free_refines [OF h n p] by blast
  have "free_wf lo hi cs" using h by (simp add: heap_inv_def)
  note la = la_free_wf [OF this p(1,2,3) round8_props(1) round8_props(4) [OF n(1)] p(4)]
  have "live_block (p, n) = block p (round8 n)" by (simp add: live_block_def)
  then have "run_inv lo hi (xs @ ys) (la_free p (round8 n) cs) s'"
    using inv s'(2) la by (auto simp: run_inv_def sorted_wrt_append)
  then show ?thesis using s'(1) by blast
qed

lemma run_inv_write:
  assumes inv: "run_inv lo hi live cs s" and x: "(p, n) \<in> set live" "x \<in> block p n"
  shows "run_inv lo hi live cs (s\<lparr>mem := (mem s)(x := v)\<rparr>)"
proof -
  have wf: "free_wf lo hi cs" using inv by (simp add: run_inv_def heap_inv_def)
  have "x \<in> live_block (p, n)" using x(2) round8_props(2) [of n] by (auto simp: live_block_def block_def)
  then have "x \<notin> headers cs"
    using inv x(1) free_wf_headers_bytes [OF wf] by (auto simp: run_inv_def)
  then have "lseg ((mem s)(x := v)) (first_free s) cs 0 = lseg (mem s) (first_free s) cs 0"
    by (intro lseg_cong) auto
  then show ?thesis using inv by (simp add: run_inv_def heap_inv_def)
qed

lemma run_inv_init:
  assumes "8 dvd base" "8 dvd len" "0 < base" "0 < len" "base + len < 2 ^ 31"
  shows "run_inv base (base + len) [] [(base, len)] (rt_user_alloc_init base len s)"
proof -
  have "ALIGN_UP base MIN_CHUNK_SIZE = base"
  proof -
    have "base \<le> 2 ^ 31 - 8"
    proof -
      have "8 dvd (2 ^ 31 - base :: int)" using assms(1) by (intro dvd_diff) simp_all
      then show ?thesis using assms(4,5) zdvd_imp_le [of 8 "2 ^ 31 - base"] by simp
    qed
    then show ?thesis using assms(1,3) ALIGN_UP_8 [of base] round8_id [of base] by simp
  qed
  moreover have "ALIGN_DOWN len MIN_CHUNK_SIZE = len"
    using assms(2) and_not_7 [of len] by (auto simp: ALIGN_DOWN_def MIN_CHUNK_SIZE_def dvd_def)
  ultimately show ?thesis
    using assms by (simp add: run_inv_def heap_inv_def rt_user_alloc_init_def Let_def block_def)
qed

lemma free_wf_full:
  assumes "free_wf lo hi cs" "free_bytes cs = {lo ..< hi}" "lo < hi"
  shows "cs = [(lo, hi - lo)]"
proof -
  have "lo \<in> free_bytes cs" using assms(2,3) by simp
  then obtain a z cs' where cs: "cs = (a, z) # cs'" by (cases cs) auto
  have rest: "free_wf (a + z + 1) hi cs'" "lo \<le> a" "0 < z" "a + z \<le> hi" using assms(1) by (simp_all add: cs)
  note rb = free_wf_bytes [OF rest(1)]
  have "a = lo" using \<open>lo \<in> free_bytes cs\<close> rb rest(2,3) by (auto simp: cs block_def)
  moreover have "a + z = hi"
  proof (rule ccontr)
    assume "a + z \<noteq> hi"
    then have "a + z \<in> free_bytes cs" using assms(2) rest(2-4) by simp
    then show False using rb by (auto simp: cs block_def)
  qed
  moreover have "cs' = []"
  proof (cases cs')
    case (Cons c ds)
    obtain b y where "c = (b, y)" by (cases c)
    then show ?thesis using rest(1) \<open>a + z = hi\<close> Cons by auto
  qed simp
  ultimately show ?thesis by (simp add: cs)
qed

lemma alloc_run_inv:
  assumes "alloc_run base len live s" "8 dvd base" "8 dvd len" "0 < base" "0 < len" "base + len < 2 ^ 31"
  shows "\<exists>cs. run_inv base (base + len) live cs s"
  using assms
proof induction
  case (ar_init s)
  then show ?case using run_inv_init by blast
next
  case (ar_alloc live s n p s')
  then show ?case using run_inv_alloc [of base "base + len" live _ s n] by (metis option.inject prod.inject)
next
  case (ar_free xs p n ys s s')
  then show ?case using run_inv_free [of base "base + len" xs p n ys _ s] by (metis option.inject)
next
  case (ar_write live s p n x v)
  then show ?case using run_inv_write by blast
qed

subsection \<open>Aligned blocks and \<open>malloc\<close>\<close>

lemma and_minus_power: "(k :: int) AND (- (2 ^ j)) = k div 2 ^ j * 2 ^ j"
proof -
  have "- (2 ^ j) = NOT (mask j :: int)" by (simp add: mask_eq_exp_minus_1 not_eq_complement)
  then have "k AND (- (2 ^ j)) = push_bit j (drop_bit j k)" by (simp only: and_not_mask_int)
  then show ?thesis by (simp add: push_bit_eq_mult drop_bit_eq_div)
qed

text \<open>Taking a block from the middle of an allocated one and freeing the two ends.\<close>

lemma free_ends:
  assumes inv: "heap_inv lo hi cs s" and blk: "lo \<le> p" "p + (h + sz + tail) \<le> hi" "8 dvd p"
    and disj: "block p (h + sz + tail) \<inter> free_bytes cs = {}"
    and dvd: "8 dvd h" "8 dvd sz" "8 dvd tail" and pos: "0 \<le> h" "0 < sz" "0 < tail"
  shows "\<exists>s2 s3 cs'. (if h \<noteq> 0 then rt_user_free p h s else Some s) = Some s2 \<and>
     rt_user_free (p + h + sz) tail s2 = Some s3 \<and> heap_inv lo hi cs' s3 \<and>
     free_bytes cs' = free_bytes cs \<union> block p h \<union> block (p + h + sz) tail"
proof -
  have lo: "0 < lo" "hi < 2 ^ 31" and wf: "free_wf lo hi cs" using inv by (simp_all add: heap_inv_def)
  have small: "x \<le> 2 ^ 31 - 8" if "x \<le> hi - p" "8 dvd x" for x
  proof -
    have "8 dvd (2 ^ 31 - x)" using that(2) by (intro dvd_diff) simp_all
    moreover have "0 < 2 ^ 31 - x" using that(1) lo blk(1) by simp
    ultimately show ?thesis using zdvd_imp_le [of 8 "2 ^ 31 - x"] by simp
  qed
  have r: "round8 h = h" "round8 tail = tail" using dvd by (simp_all add: round8_id)
  have sub: "block p h \<subseteq> block p (h + sz + tail)" "block (p + h + sz) tail \<subseteq> block p (h + sz + tail)"
    "block p h \<inter> block (p + h + sz) tail = {}"
    using pos by (auto simp: block_def)
  have "\<exists>s2 cs2. (if h \<noteq> 0 then rt_user_free p h s else Some s) = Some s2 \<and> heap_inv lo hi cs2 s2 \<and>
      free_bytes cs2 = free_bytes cs \<union> block p h"
  proof (cases "h = 0")
    case True
    then show ?thesis using inv by (auto simp: block_def)
  next
    case False
    have d: "block p h \<inter> free_bytes cs = {}" using disj sub(1) by blast
    have h: "0 < h" "h \<le> 2 ^ 31 - 8" using False pos small [of h] dvd(1) blk(2) by simp_all
    have ph: "p + h \<le> hi" using blk(2) pos by simp
    show ?thesis
      using rt_user_free_refines [OF inv h, of p] la_free_wf [OF wf blk(1) ph blk(3) dvd(1) h(1) d]
        blk(1,3) ph d False by (auto simp: r)
  qed
  then obtain s2 cs2 where s2: "(if h \<noteq> 0 then rt_user_free p h s else Some s) = Some s2"
    "heap_inv lo hi cs2 s2" "free_bytes cs2 = free_bytes cs \<union> block p h" by blast
  let ?q = "p + h + sz"
  have q: "lo \<le> ?q" "?q + tail \<le> hi" "8 dvd ?q" using blk dvd pos by (simp_all add: dvd_add)
  have d: "block ?q tail \<inter> free_bytes cs2 = {}"
    using disj sub(2,3) unfolding s2(3) by blast
  have t: "0 < tail" "tail \<le> 2 ^ 31 - 8" using pos small [of tail] dvd(3) blk(2) by simp_all
  have wf2: "free_wf lo hi cs2" using s2(2) by (simp add: heap_inv_def)
  from rt_user_free_refines [OF s2(2) t, of ?q] q d obtain s3 where
    s3: "rt_user_free ?q tail s2 = Some s3" "heap_inv lo hi (la_free ?q tail cs2) s3" by (auto simp: r)
  have "free_bytes (la_free ?q tail cs2) = block ?q tail \<union> free_bytes cs2"
    using la_free_wf [OF wf2 q dvd(3) t(1) d] by simp
  then show ?thesis using s2 s3 by (intro exI conjI) (assumption+, auto)
qed

lemma rt_user_alloc_align_ok:
  assumes inv: "heap_inv lo hi cs s" and sz: "0 < sz" "8 dvd sz" and j: "3 \<le> j"
    and small: "sz + 2 ^ j + 16 \<le> 2 ^ 31 - 8"
    and fit: "la_alloc (sz + 2 ^ j + 16) cs = Some (p, cs')"
  shows "\<exists>ra s' cs''. rt_user_alloc_align sz (2 ^ j) s = Some (ra, s') \<and> 2 ^ j dvd ra \<and> ra \<noteq> 0 \<and>
     block ra sz \<subseteq> free_bytes cs \<and> heap_inv lo hi cs'' s' \<and> free_bytes cs'' = free_bytes cs - block ra sz"
proof -
  define n where "n = sz + 2 ^ j + 16"
  have p8: "(8 :: int) dvd 2 ^ j" using j le_imp_power_dvd [of 3 j "2 :: int"] by simp
  have j8: "8 \<le> (2 ^ j :: int)" using zdvd_imp_le [OF p8] by simp
  have n: "0 < n" "8 dvd n" "n \<le> 2 ^ 31 - 8" "la_alloc n cs = Some (p, cs')"
    using sz p8 j8 small fit by (auto simp: n_def dvd_add)
  from rt_user_alloc_refines [OF inv n(1,3)] n(4) obtain s1 where
    s1: "rt_user_alloc n s = Some (p, s1)" "heap_inv lo hi cs' s1" by (auto simp: round8_id [OF n(2)])
  have wf: "free_wf lo hi cs" "0 < lo" using inv by (simp_all add: heap_inv_def)
  note la = la_alloc_wf [OF wf(1) n(1,2,4)]
  define ra where "ra = (p + 2 ^ j - 1) AND (- (2 ^ j))"
  have ra: "ra = (p + 2 ^ j - 1) div 2 ^ j * 2 ^ j" by (simp only: ra_def and_minus_power)
  define h where "h = ra - p"
  have "(p + 2 ^ j - 1) div 2 ^ j * 2 ^ j + (p + 2 ^ j - 1) mod 2 ^ j = p + 2 ^ j - 1"
    by (rule div_mult_mod_eq)
  moreover have "0 \<le> (p + 2 ^ j - 1) mod 2 ^ j" "(p + 2 ^ j - 1) mod 2 ^ j < 2 ^ j" by simp_all
  ultimately have h: "0 \<le> h" "h \<le> 2 ^ j - 1" unfolding h_def ra by linarith+
  have "8 dvd ra" using p8 by (simp add: ra)
  then have h8: "8 dvd h" using la by (simp add: h_def)
  then have hs: "\<not> (h \<noteq> 0 \<and> h < 8)" using h(1) zdvd_imp_le [of 8 h] by auto
  define tail where "tail = n - h - sz"
  have tail: "0 < tail" "p + h + sz = ra + sz" "h + sz + tail = n"
    using h by (simp_all add: tail_def n_def h_def)
  have "8 dvd n - h - sz" using n(2) h8 sz(2) by (intro dvd_diff)
  then have tail8: "8 dvd tail" by (simp add: tail_def)
  have ends: "lo \<le> p" "p + (h + sz + tail) \<le> hi" "8 dvd p" "block p (h + sz + tail) \<inter> free_bytes cs' = {}"
    unfolding tail(3) using la by auto
  obtain s2 s3 cs'' where f: "(if h \<noteq> 0 then rt_user_free p h s1 else Some s1) = Some s2"
    "rt_user_free (ra + sz) tail s2 = Some s3" "heap_inv lo hi cs'' s3"
    "free_bytes cs'' = free_bytes cs' \<union> block p h \<union> block (ra + sz) tail"
    using free_ends [OF s1(2) ends h8 sz(2) tail8 h(1) sz(1) tail(1)] unfolding tail(2) by blast
  have p0: "p \<noteq> 0" using la wf(2) by simp
  have run: "rt_user_alloc_align sz (2 ^ j) s = Some (ra, s3)"
  proof -
    have hd: "(p + 2 ^ j - 1) AND (- (2 ^ j)) = ra" "ra - p = h" "ra = p \<longleftrightarrow> h = 0"
      by (simp_all add: ra_def h_def)
    have map_option_bind_Some: "map_option (Pair ra) x = Option.bind x (\<lambda>s3. Some (ra, s3))" for x :: "rt_alloc_t option"
      by (cases x) simp_all
    have "rt_user_alloc_align sz (2 ^ j) s = Option.bind (if h \<noteq> 0 then rt_user_free p h s1 else Some s1)
      (\<lambda>s2. Option.bind (rt_user_free (ra + sz) tail s2) (\<lambda>s3. Some (ra, s3)))"
      using s1(1) p0 hs j8
      by (auto simp: rt_user_alloc_align_def n_def Let_def hd tail_def map_option_bind_Some)
    then show ?thesis by (simp only: f(1,2) bind.bind_lunit)
  qed
  have parts: "block p n = block p h \<union> block ra sz \<union> block (ra + sz) tail"
    "block ra sz \<inter> (block p h \<union> block (ra + sz) tail) = {}"
    using h sz(1) tail(1) unfolding tail(3) [symmetric] by (auto simp: block_def h_def)
  have "free_bytes cs'' = free_bytes cs - block ra sz" unfolding f(4) using la parts by blast
  moreover have "block ra sz \<subseteq> free_bytes cs" using la parts by blast
  moreover have "ra \<noteq> 0" using la wf(2) h(1) by (simp add: h_def)
  moreover have "2 ^ j dvd ra" by (simp add: ra)
  ultimately show ?thesis using run f(3) by blast
qed

subsection \<open>Statistics, canaries and the state after everything was given back\<close>

lemma alloc_info_lseg:
  "lseg m p cs 0 \<Longrightarrow> alloc_info_loop m p sz nb = Some (sz + sum_list (map snd cs), nb + int (length cs))"
proof (induction cs arbitrary: p sz nb)
  case Nil
  then show ?case by (simp add: alloc_info_loop.simps)
next
  case (Cons c cs)
  then show ?case by (cases c) (simp add: alloc_info_loop.simps [of m p])
qed

lemma free_bytes_finite: "free_wf lo hi cs \<Longrightarrow> finite (free_bytes cs)"
  by (rule finite_subset [OF free_wf_bytes]) simp_all

lemma free_bytes_card: "free_wf lo hi cs \<Longrightarrow> sum_list (map snd cs) = int (card (free_bytes cs))"
proof (induction cs arbitrary: lo)
  case (Cons c cs)
  obtain a z where c: "c = (a, z)" by (cases c)
  have rest: "free_wf (a + z + 1) hi cs" "0 < z" using Cons.prems by (simp_all add: c)
  then have "block a z \<inter> free_bytes cs = {}" using free_wf_bytes [OF rest(1)] by (auto simp: block_def)
  moreover have "card (block a z) = nat z" by (simp add: block_def)
  ultimately show ?case
    using rest Cons.IH [OF rest(1)] free_bytes_finite [OF rest(1)]
    by (simp add: c card_Un_disjoint block_def)
qed simp

lemma canary_roundtrip:
  assumes "0 \<le> sz" "sz < 2 ^ 24"
  shows "canary_and_size_decode (canary_and_size_encode p sz) = (canary p, sz)"
proof -
  have "sz * 256 < 2 ^ 32" using assms(2) by simp
  then have t: "take_bit 32 (push_bit 8 sz) = push_bit 8 sz"
    using assms(1) by (simp add: push_bit_eq_mult take_bit_int_eq_self)
  have m: "(255 :: int) = mask 8" by (simp add: mask_eq_exp_minus_1)
  have "(push_bit 8 sz OR p AND mask 8) AND mask 8 = p AND mask 8"
    by (rule bit_eqI) (auto simp: bit_and_iff bit_or_iff bit_mask_iff bit_push_bit_iff)
  moreover have "drop_bit 8 (push_bit 8 sz OR p AND mask 8) = sz"
    by (rule bit_eqI) (auto simp: bit_and_iff bit_or_iff bit_mask_iff bit_push_bit_iff bit_drop_bit_eq)
  ultimately show ?thesis
    unfolding canary_and_size_decode_def canary_and_size_encode_def canary_def t m by simp
qed

text \<open>The free list does not depend on memory outside the free chunks.\<close>

lemma heap_inv_mem_cong:
  assumes "heap_inv lo hi cs s" "first_free s' = first_free s" "\<And>x. x \<in> free_bytes cs \<Longrightarrow> mem s' x = mem s x"
  shows "heap_inv lo hi cs s'"
proof -
  have wf: "free_wf lo hi cs" using assms(1) by (simp add: heap_inv_def)
  have "lseg (mem s') (first_free s) cs 0 = lseg (mem s) (first_free s) cs 0"
    using free_wf_headers_bytes [OF wf] assms(3) by (intro lseg_cong) auto
  then show ?thesis using assms(1,2) by (simp add: heap_inv_def)
qed

lemma alloc_write_free:
  assumes inv: "heap_inv lo hi cs s" and n: "0 < n" "n \<le> 2 ^ 31 - 8"
    and fit: "la_alloc (round8 n) cs = Some (p, cs')"
  shows "\<exists>s1. rt_user_alloc n s = Some (p, s1) \<and> p \<noteq> 0 \<and>
     (\<forall>s2. first_free s2 = first_free s1 \<and> (\<forall>x. x \<notin> block p (round8 n) \<longrightarrow> mem s2 x = mem s1 x) \<longrightarrow>
        (\<exists>s3. rt_user_free p n s2 = Some s3 \<and> heap_inv lo hi cs s3))"
proof -
  from rt_user_alloc_refines [OF inv n] fit obtain s1 where
    s1: "rt_user_alloc n s = Some (p, s1)" "heap_inv lo hi cs' s1" by auto
  have wf: "free_wf lo hi cs" "0 < lo" using inv by (simp_all add: heap_inv_def)
  have r: "0 < round8 n" "8 dvd round8 n" using round8_props [of n] n by simp_all
  note la = la_alloc_wf [OF wf(1) r fit]
  have "\<exists>s3. rt_user_free p n s2 = Some s3 \<and> heap_inv lo hi cs s3"
    if "first_free s2 = first_free s1" "\<forall>x. x \<notin> block p (round8 n) \<longrightarrow> mem s2 x = mem s1 x" for s2
  proof -
    have "heap_inv lo hi cs' s2" using la that by (intro heap_inv_mem_cong [OF s1(2)]) auto
    moreover have "la_free p (round8 n) cs' = cs" using la_alloc_free [OF wf(1) r(1) fit] .
    ultimately show ?thesis using rt_user_free_refines [of lo hi cs' s2 n p] n la by auto
  qed
  then show ?thesis using s1 la wf(2) by auto
qed

lemma find_la_alloc:
  "la_alloc n cs = None \<longleftrightarrow> find (\<lambda>(a, z). n \<le> z) cs = None"
  "find (\<lambda>(a, z). n \<le> z) cs = Some (p, z) \<Longrightarrow> \<exists>cs'. la_alloc n cs = Some (p, cs')"
  by (induction n cs rule: la_alloc.induct) (auto split: if_splits)

subsection \<open>Correctness of the allocator\<close>

definition heap_ex :: rt_alloc_t where
  "heap_ex = rt_user_alloc_init 0x1000 0x100 \<lparr>first_free = 0, mem = (\<lambda>_. 0)\<rparr>"

lemma heap_ex_inv: "heap_inv 0x1000 0x1100 [(0x1000, 0x100)] heap_ex"
  using run_inv_init [of "0x1000" "0x100" "\<lparr>first_free = 0, mem = (\<lambda>_. 0)\<rparr>"]
  by (simp add: heap_ex_def run_inv_def)

text \<open>C3: However clients allocate, write into the blocks they hold and free them, every block they
  hold is 8-aligned and lies in the region, no two of these blocks overlap, together with the free
  chunks of the list in memory they are exactly the region, and every further request or release
  of a held block returns.\<close>

theorem alloc_run_safe:
  assumes "alloc_run base len live s" and "8 dvd base" and "8 dvd len" and "0 < base" and "0 < len"
    and "base + len < 2 ^ 31"
  shows "(\<exists>cs. heap_inv base (base + len) cs s \<and>
           \<Union> (live_block ` set live) \<inter> free_bytes cs = {} \<and>
           \<Union> (live_block ` set live) \<union> free_bytes cs = {base ..< base + len}) \<and>
         sorted_wrt (\<lambda>b c. live_block b \<inter> live_block c = {}) live \<and>
         (\<forall>(p, n) \<in> set live. 8 dvd p \<and> rt_user_free p n s \<noteq> None) \<and>
         (\<forall>n. 0 < n \<and> n \<le> 2 ^ 31 - 8 \<longrightarrow> rt_user_alloc n s \<noteq> None)"
proof -
  obtain cs where inv: "run_inv base (base + len) live cs s" using alloc_run_inv [OF assms] by blast
  have "8 dvd p \<and> rt_user_free p n s \<noteq> None" if held: "(p, n) \<in> set live" for p n
  proof -
    obtain xs ys where "live = xs @ (p, n) # ys" using split_list [OF held] by blast
    then show ?thesis using inv run_inv_free [of base "base + len" xs p n ys cs s] by (auto simp: run_inv_def)
  qed
  then have "\<forall>(p, n) \<in> set live. 8 dvd p \<and> rt_user_free p n s \<noteq> None" by auto
  moreover have "\<forall>n. 0 < n \<and> n \<le> 2 ^ 31 - 8 \<longrightarrow> rt_user_alloc n s \<noteq> None"
    using run_inv_alloc [OF inv] by (metis option.distinct(1))
  moreover have "heap_inv base (base + len) cs s \<and> \<Union> (live_block ` set live) \<inter> free_bytes cs = {} \<and>
      \<Union> (live_block ` set live) \<union> free_bytes cs = {base ..< base + len}"
    "sorted_wrt (\<lambda>b c. live_block b \<inter> live_block c = {}) live"
    using inv by (simp_all add: run_inv_def)
  ultimately show ?thesis by blast
qed

lemma heap_ex_run: "\<exists>s. alloc_run 0x1000 0x100 [(0x1000, 24)] s \<and> rt_user_alloc 24 heap_ex = Some (0x1000, s)"
proof -
  have fit: "la_alloc (round8 24) [(0x1000, 0x100)] = Some (0x1000, [(0x1018, 0xE8)])"
    by (simp add: round8_def)
  obtain s where s: "rt_user_alloc 24 heap_ex = Some (0x1000, s)"
    using rt_user_alloc_refines [OF heap_ex_inv, of 24] fit by auto
  then show ?thesis
    using ar_alloc [OF ar_init [of "0x1000" "0x100" "\<lparr>first_free = 0, mem = (\<lambda>_. 0)\<rparr>"], of 24]
    by (auto simp: heap_ex_def)
qed

theorem alloc_run_safe_witness:
  "\<exists>s. rt_user_alloc 24 heap_ex = Some (0x1000, s) \<and> rt_user_free 0x1000 24 s \<noteq> None"
proof -
  obtain s where s: "alloc_run 0x1000 0x100 [(0x1000, 24)] s" "rt_user_alloc 24 heap_ex = Some (0x1000, s)"
    using heap_ex_run by (elim exE conjE)
  then show ?thesis using alloc_run_safe [OF s(1)] by simp
qed

text \<open>\<open>rt_user_alloc\<close> is first fit: it returns the address of the first chunk of the list that
  holds the size rounded up to 8, takes exactly that block out of the free memory and changes no
  byte outside the free memory; if no chunk fits it returns a null pointer and changes nothing.\<close>

theorem rt_user_alloc_first_fit:
  assumes "heap_inv lo hi cs s" and "0 < n" and "n \<le> 2 ^ 31 - 8"
  shows "case find (\<lambda>(a, z). round8 n \<le> z) cs of
      None \<Rightarrow> rt_user_alloc n s = Some (0, s)
    | Some (p, z) \<Rightarrow> \<exists>s' cs'. rt_user_alloc n s = Some (p, s') \<and> heap_inv lo hi cs' s' \<and>
        block p (round8 n) \<subseteq> free_bytes cs \<and> free_bytes cs' = free_bytes cs - block p (round8 n) \<and>
        (\<forall>x. x \<notin> free_bytes cs \<longrightarrow> mem s' x = mem s x)"
proof (cases "find (\<lambda>(a, z). round8 n \<le> z) cs")
  case None
  then show ?thesis using rt_user_alloc_refines [OF assms] find_la_alloc(1) [of "round8 n" cs] by auto
next
  case (Some c)
  obtain p z where c: "c = (p, z)" by (cases c)
  obtain cs' where cs': "la_alloc (round8 n) cs = Some (p, cs')" using find_la_alloc(2) Some c by blast
  have "free_wf lo hi cs" "0 < round8 n" "8 dvd round8 n"
    using assms round8_props [of n] by (auto simp: heap_inv_def)
  from la_alloc_wf [OF this cs'] show ?thesis
    using rt_user_alloc_refines [OF assms] Some c cs' by auto
qed

theorem rt_user_alloc_first_fit_witness: "rt_user_alloc 0x101 heap_ex = Some (0, heap_ex)"
  using rt_user_alloc_first_fit [OF heap_ex_inv, of "0x101"] by (simp add: round8_def)

text \<open>\<open>rt_user_free\<close> of a block that is not free returns, adds exactly that block to the free
  memory, keeps the list sorted and fully coalesced (between two chunks there is always a gap), and
  changes no byte outside the free memory and the block.\<close>

theorem rt_user_free_spec:
  assumes "heap_inv lo hi cs s" and "0 < n" and "n \<le> 2 ^ 31 - 8" and "lo \<le> p" and "p + round8 n \<le> hi"
    and "8 dvd p" and "block p (round8 n) \<inter> free_bytes cs = {}"
  shows "\<exists>s' cs'. rt_user_free p n s = Some s' \<and> heap_inv lo hi cs' s' \<and>
     free_bytes cs' = free_bytes cs \<union> block p (round8 n) \<and>
     sorted_wrt (\<lambda>(a, z) (b, y). a + z < b) cs' \<and>
     (\<forall>x. x \<notin> free_bytes cs \<union> block p (round8 n) \<longrightarrow> mem s' x = mem s x)"
proof -
  have gaps: "sorted_wrt (\<lambda>(a, z) (b, y). a + z < b) xs \<and> (\<forall>(b, y) \<in> set xs. k \<le> b)" if "free_wf k hi xs" for k xs
    using that
  proof (induction xs arbitrary: k)
    case (Cons c xs)
    then show ?case by (cases c) fastforce
  qed simp
  have wf: "free_wf lo hi cs" using assms(1) by (simp add: heap_inv_def)
  have r: "8 dvd round8 n" "0 < round8 n" using round8_props [of n] assms(2) by auto
  have "free_wf lo hi (la_free p (round8 n) cs)"
    "free_bytes (la_free p (round8 n) cs) = free_bytes cs \<union> block p (round8 n)"
    using la_free_wf [OF wf assms(4,5,6) r assms(7)] by blast+
  then show ?thesis using rt_user_free_refines [OF assms] gaps by blast
qed

theorem rt_user_free_spec_witness:
  "\<exists>s cs. heap_inv 0x1000 0x1100 cs s \<and> free_bytes cs = {0x1000 ..< 0x1100}"
proof -
  have "heap_inv 0x1000 0x1100 [] \<lparr>first_free = 0, mem = (\<lambda>_. 0)\<rparr>" by (simp add: heap_inv_def)
  from rt_user_free_spec [OF this, of "0x100" "0x1000"] show ?thesis by (auto simp: round8_def block_def)
qed

text \<open>Giving a block back undoes its allocation: whatever the client wrote into the block,
  freeing it restores the free list chunk for chunk.\<close>

theorem alloc_free_restores:
  assumes "heap_inv lo hi cs s" and "0 < n" and "n \<le> 2 ^ 31 - 8" and "\<exists>(a, z) \<in> set cs. round8 n \<le> z"
  shows "\<exists>p s1. rt_user_alloc n s = Some (p, s1) \<and> p \<noteq> 0 \<and>
     (\<forall>s2. first_free s2 = first_free s1 \<and> (\<forall>x. x \<notin> block p (round8 n) \<longrightarrow> mem s2 x = mem s1 x) \<longrightarrow>
        (\<exists>s3. rt_user_free p n s2 = Some s3 \<and> heap_inv lo hi cs s3))"
proof -
  obtain p cs' where "la_alloc (round8 n) cs = Some (p, cs')"
    using assms(4) la_alloc_None [of "round8 n" cs] by (cases "la_alloc (round8 n) cs") fastforce+
  from alloc_write_free [OF assms(1-3) this] show ?thesis by blast
qed

theorem alloc_free_restores_witness:
  "\<exists>p s1 s3. rt_user_alloc 20 heap_ex = Some (p, s1) \<and> rt_user_free p 20 (s1\<lparr>mem := (mem s1)(p := 7)\<rparr>) = Some s3 \<and>
     heap_inv 0x1000 0x1100 [(0x1000, 0x100)] s3"
  using alloc_free_restores [OF heap_ex_inv, of 20] by (force simp: round8_def block_def)

text \<open>C33: Once the clients have given everything back, in whatever order, the free list is again the
  single chunk of the initialization: there is no fragmentation left, and a request for the whole
  region succeeds.\<close>

theorem alloc_run_no_fragmentation:
  assumes "alloc_run base len [] s" and "8 dvd base" and "8 dvd len" and "0 < base" and "0 < len"
    and "base + len < 2 ^ 31"
  shows "heap_inv base (base + len) [(base, len)] s \<and> rt_user_alloc_info s = Some (len, base, 1) \<and>
         (\<exists>s'. rt_user_alloc len s = Some (base, s'))"
proof -
  obtain cs where inv: "run_inv base (base + len) [] cs s" using alloc_run_inv [OF assms] by blast
  then have h: "heap_inv base (base + len) cs s" "free_bytes cs = {base ..< base + len}"
    by (simp_all add: run_inv_def)
  then have cs: "cs = [(base, len)]"
    using free_wf_full [of base "base + len" cs] assms(5) by (simp add: heap_inv_def)
  have "8 dvd (2 ^ 31 - len)" using assms(3) by (intro dvd_diff) simp_all
  then have small: "len \<le> 2 ^ 31 - 8" using assms(4-6) zdvd_imp_le [of 8 "2 ^ 31 - len"] by simp
  have lseg: "lseg (mem s) (first_free s) cs 0" using h(1) by (simp add: heap_inv_def)
  then have "first_free s = base" by (simp add: cs)
  moreover have "\<exists>s'. rt_user_alloc len s = Some (base, s')"
    using rt_user_alloc_refines [OF h(1) assms(5) small] by (auto simp: cs round8_id [OF assms(3)])
  ultimately show ?thesis
    using h(1) alloc_info_lseg [OF lseg, of 0 0] by (simp add: cs rt_user_alloc_info_def)
qed

theorem alloc_run_no_fragmentation_witness:
  "\<exists>s s'. rt_user_alloc 24 heap_ex = Some (0x1000, s) \<and> rt_user_free 0x1000 24 s = Some s' \<and>
     rt_user_alloc_info s' = Some (0x100, 0x1000, 1)"
proof -
  obtain s where s: "alloc_run 0x1000 0x100 [(0x1000, 24)] s" "rt_user_alloc 24 heap_ex = Some (0x1000, s)"
    using heap_ex_run by (elim exE conjE)
  obtain s' where s': "rt_user_free 0x1000 24 s = Some s'"
    using alloc_run_inv [OF s(1)] run_inv_free [of "0x1000" "0x1100" "[]" "0x1000" 24 "[]" _ s] by auto
  have "alloc_run 0x1000 0x100 [] s'" using ar_free [of "0x1000" "0x100" "[]" "0x1000" 24 "[]" s s'] s(1) s' by simp
  from alloc_run_no_fragmentation [OF this] s(2) s' show ?thesis by auto
qed

text \<open>C31: \<open>malloc\<close> stores the size and the canary in front of the block, so that \<open>free\<close> needs no
  size: whatever the client writes into the block it got, \<open>free\<close> restores the free list chunk for
  chunk; if the low byte of the word before the block changed, \<open>free\<close> aborts.\<close>

theorem malloc_free_round_trip:
  assumes "heap_inv lo hi cs s" and "0 \<le> n" and "n + 4 < 2 ^ 24" and "\<exists>(a, z) \<in> set cs. round8 (n + 4) \<le> z"
  shows "\<exists>p s1. domain_malloc n s = Some (p + 4, s1) \<and> p \<noteq> 0 \<and>
     block p (round8 (n + 4)) \<subseteq> free_bytes cs \<and>
     (\<forall>s2. first_free s2 = first_free s1 \<and> (\<forall>x. x \<notin> block (p + 4) n \<longrightarrow> mem s2 x = mem s1 x) \<longrightarrow>
        (\<exists>s3. domain_free (p + 4) s2 = Some s3 \<and> heap_inv lo hi cs s3)) \<and>
     (\<forall>s2. mem s2 p AND 0xFF \<noteq> p AND 0xFF \<longrightarrow> domain_free (p + 4) s2 = None)"
proof -
  obtain p cs' where fit: "la_alloc (round8 (n + 4)) cs = Some (p, cs')"
    using assms(4) la_alloc_None [of "round8 (n + 4)" cs] by (cases "la_alloc (round8 (n + 4)) cs") fastforce+
  obtain s1 where s1: "rt_user_alloc (n + 4) s = Some (p, s1)" "p \<noteq> 0" and undo:
    "\<And>s2. first_free s2 = first_free s1 \<Longrightarrow> \<forall>x. x \<notin> block p (round8 (n + 4)) \<longrightarrow> mem s2 x = mem s1 x \<Longrightarrow>
        \<exists>s3. rt_user_free p (n + 4) s2 = Some s3 \<and> heap_inv lo hi cs s3"
    using alloc_write_free [OF assms(1) _ _ fit] assms(2,3) by auto
  let ?s1 = "s1\<lparr>mem := (mem s1)(p := canary_and_size_encode p (n + 4))\<rparr>"
  have sz: "take_bit 32 (n + 4) = n + 4" using assms(2,3) by (simp add: take_bit_int_eq_self)
  then have m: "domain_malloc n s = Some (p + 4, ?s1)" using s1 assms(3) by (simp add: domain_malloc_def)
  have blk: "p \<in> block p (round8 (n + 4))" "block (p + 4) n \<subseteq> block p (round8 (n + 4))" "p \<notin> block (p + 4) n"
    using assms(2) round8_props(2) [of "n + 4"] by (auto simp: block_def)
  have "\<exists>s3. domain_free (p + 4) s2 = Some s3 \<and> heap_inv lo hi cs s3"
    if "first_free s2 = first_free ?s1" "\<forall>x. x \<notin> block (p + 4) n \<longrightarrow> mem s2 x = mem ?s1 x" for s2
  proof -
    have "canary_and_size_decode (mem s2 p) = (canary p, n + 4)"
      using that(2) blk(3) canary_roundtrip [of "n + 4" p] assms(2,3) by simp
    then have "domain_free (p + 4) s2 = rt_user_free p (n + 4) s2" by (simp add: domain_free_def)
    moreover have "mem s2 x = mem s1 x" if "x \<notin> block p (round8 (n + 4))" for x
      using that \<open>\<forall>x. x \<notin> block (p + 4) n \<longrightarrow> mem s2 x = mem ?s1 x\<close> blk(1,2) by auto
    ultimately show ?thesis using undo [of s2] that(1) by simp
  qed
  moreover have "domain_free (p + 4) s2 = None" if "mem s2 p AND 0xFF \<noteq> p AND 0xFF" for s2
    using that by (simp add: domain_free_def canary_and_size_decode_def canary_def)
  moreover have "block p (round8 (n + 4)) \<subseteq> free_bytes cs"
    using la_alloc_wf [OF _ _ _ fit] assms(1,2) round8_props [of "n + 4"] by (auto simp: heap_inv_def)
  ultimately show ?thesis using m s1(2) by blast
qed

theorem malloc_free_round_trip_witness:
  "\<exists>p s1 s3. domain_malloc 10 heap_ex = Some (p, s1) \<and> domain_free p s1 = Some s3 \<and>
     heap_inv 0x1000 0x1100 [(0x1000, 0x100)] s3"
  using malloc_free_round_trip [OF heap_ex_inv, of 10] by (fastforce simp: round8_def)

text \<open>\<open>rt_user_alloc_align\<close> with a power of two of at least 8 and a size that is a multiple of 8
  returns a block of that alignment, and what it cuts off before and after the block goes back to
  the free list: exactly the block leaves the free memory.\<close>

theorem rt_user_alloc_align_spec:
  assumes "heap_inv lo hi cs s" and "0 < n" and "8 dvd n" and "3 \<le> j" and "n + 2 ^ j + 16 \<le> 2 ^ 31 - 8"
    and "\<exists>(a, z) \<in> set cs. n + 2 ^ j + 16 \<le> z"
  shows "\<exists>p s' cs'. rt_user_alloc_align n (2 ^ j) s = Some (p, s') \<and> p \<noteq> 0 \<and> 2 ^ j dvd p \<and>
     block p n \<subseteq> free_bytes cs \<and> heap_inv lo hi cs' s' \<and> free_bytes cs' = free_bytes cs - block p n"
proof -
  obtain p cs' where "la_alloc (n + 2 ^ j + 16) cs = Some (p, cs')"
    using assms(6) la_alloc_None [of "n + 2 ^ j + 16" cs] by (cases "la_alloc (n + 2 ^ j + 16) cs") fastforce+
  from rt_user_alloc_align_ok [OF assms(1-5) this] show ?thesis by blast
qed

theorem rt_user_alloc_align_spec_witness:
  "\<exists>p s'. rt_user_alloc_align 24 64 heap_ex = Some (p, s') \<and> 64 dvd p"
  using rt_user_alloc_align_spec [OF heap_ex_inv, of 24 6] by auto

end
