(* ===== verification/Gomp_Data.thy ===== *)
theory Gomp_Data
  imports Prelude "HOL-Library.Monad_Syntax"
begin

text \<open>
  The data of the OpenMP runtime of the cluster for code compiled with GCC (\<open>libgomp/libgomp_globals.h\<close>) and the pools
  of its descriptors (\<open>work.c\<close>, \<open>team.c\<close>), in the configuration of the Makefile (\<open>OMP_NOWAIT_SUPPORT\<close>) and of
  \<open>config/pulp/config.h\<close>.

  A team descriptor is named by its index in \<open>team_descriptor_pool\<close>. A work share is one of the descriptors of
  \<open>ws_descriptor_pool\<close>, a block that \<open>l1malloc\<close> returned, or the one embedded in a team; the work shares are one store,
  since pointers into it are shared between cores. The blocks \<open>l1malloc\<close> will return are part of the state
  (\<open>l1_heap\<close>); the code does not test its result, so that \<open>None\<close> stands for an exhausted heap, as it does for a null
  pointer that is dereferenced and for a failed \<open>gomp_assert\<close>.
  Every function that takes a lock releases it before it returns, and the locks of a descriptor protect just the accesses
  made here: a function is one atomic step, and the lock words, 0 between steps, are left out. \<open>int\<close> values are integers
  with the wrap-around of \<open>i32\<close>.
\<close>

datatype ws_ptr =
    Root nat  \<comment> \<open>\<open>root_ws\<close> of a team\<close>
  | Desc nat  \<comment> \<open>an element of \<open>ws_descriptor_pool\<close>\<close>
  | Heap nat  \<comment> \<open>a block from \<open>l1malloc\<close>\<close>

record gomp_work_share_t =
  ws_end :: int
  ws_next :: int
  ws_chunk_size :: int
  ws_incr :: int
  ws_checkfirst :: u32
  ws_embedded :: u32
  ws_completed :: u32
  next_ws :: "ws_ptr option"
  prev_ws :: "ws_ptr option"
  next_free :: "ws_ptr option"

record gomp_team_t =
  omp_task_f :: u32
  omp_args :: u32
  barrier_id :: u32
  team_level :: u32
  team_parent :: "nat option"
  team_nthreads :: u32
  team_mask :: u32  \<comment> \<open>field \<open>team\<close>\<close>
  proc_ids :: "u32 list"
  thread_ids :: "u32 list"
  work_share :: "ws_ptr option list"
  team_next :: "nat option"

record gomp_data_t =
  thread_pool :: u32
  idle_cores :: u32
  curr_team :: "nat option list"
  lru_team :: "nat option"
  team_pool_list :: "nat option"
  ws_pool_list :: "ws_ptr option"
  team_pool :: "gomp_team_t list"
  wss :: "ws_ptr \<Rightarrow> gomp_work_share_t"
  l1_heap :: "nat list"
  hw_barrier :: "u32 \<Rightarrow> u32"  \<comment> \<open>mask of the cores a hardware barrier waits for\<close>
  hw_release :: "u32 list"  \<comment> \<open>masks of the cores that were sent an event, in order\<close>

definition MAX_PE :: nat where [hw_consts]: "MAX_PE = 8"  \<comment> \<open>\<open>DEFAULT_MAX_PE\<close>\<close>
definition MAX_TEAM_DESC :: nat where [hw_consts]: "MAX_TEAM_DESC = 4"
definition MAX_WS :: nat where [hw_consts]: "MAX_WS = 2"
definition WS_INITED :: u32 where [hw_consts]: "WS_INITED = 0xfeeddead"
definition WS_NOT_INITED :: u32 where [hw_consts]: "WS_NOT_INITED = 0"
definition WS_EMBEDDED :: u32 where [hw_consts]: "WS_EMBEDDED = 0xfeeddead"
definition WS_NOT_EMBEDDED :: u32 where [hw_consts]: "WS_NOT_EMBEDDED = 0"

definition upd_ws :: "ws_ptr \<Rightarrow> (gomp_work_share_t \<Rightarrow> gomp_work_share_t) \<Rightarrow> gomp_data_t \<Rightarrow> gomp_data_t" where
  "upd_ws w f s = s\<lparr>wss := (wss s)(w := f (wss s w))\<rparr>"

definition upd_team :: "nat \<Rightarrow> (gomp_team_t \<Rightarrow> gomp_team_t) \<Rightarrow> gomp_data_t \<Rightarrow> gomp_data_t" where
  "upd_team t f s = s\<lparr>team_pool := (team_pool s)[t := f (team_pool s ! t)]\<rparr>"

definition gomp_get_curr_team :: "nat \<Rightarrow> gomp_data_t \<Rightarrow> nat option" where
  "gomp_get_curr_team pid s = curr_team s ! pid"

definition gomp_set_curr_team :: "nat \<Rightarrow> nat option \<Rightarrow> gomp_data_t \<Rightarrow> gomp_data_t" where
  "gomp_set_curr_team pid t s = s\<lparr>curr_team := (curr_team s)[pid := t]\<rparr>"

text \<open>\<open>CURR_WS\<close>: the work share of a core, through its team.\<close>

definition CURR_WS :: "nat \<Rightarrow> gomp_data_t \<Rightarrow> ws_ptr option" where
  "CURR_WS pid s = (gomp_get_curr_team pid s \<bind> (\<lambda>t. work_share (team_pool s ! t) ! pid))"

definition set_CURR_WS :: "nat \<Rightarrow> ws_ptr \<Rightarrow> gomp_data_t \<Rightarrow> gomp_data_t" where
  "set_CURR_WS pid w s =
     (case gomp_get_curr_team pid s of None \<Rightarrow> s
      | Some t \<Rightarrow> upd_team t (\<lambda>d. d\<lparr>work_share := (work_share d)[pid := Some w]\<rparr>) s)"

subsection \<open>The pool of work shares\<close>

definition gomp_push_ws_pool :: "ws_ptr \<Rightarrow> gomp_data_t \<Rightarrow> gomp_data_t" where
  "gomp_push_ws_pool w s = (upd_ws w (\<lambda>d. d\<lparr>next_free := ws_pool_list s\<rparr>) s)\<lparr>ws_pool_list := Some w\<rparr>"

definition gomp_ws_pool_init :: "gomp_data_t \<Rightarrow> gomp_data_t" where
  "gomp_ws_pool_init s =
     fold (\<lambda>i s. (upd_ws (Desc i) (\<lambda>d. d\<lparr>ws_embedded := WS_NOT_EMBEDDED, next_free := ws_pool_list s\<rparr>) s)\<lparr>ws_pool_list := Some (Desc i)\<rparr>)
       [1 ..< MAX_WS]
       ((upd_ws (Desc 0) (\<lambda>d. d\<lparr>ws_embedded := WS_NOT_EMBEDDED, next_free := None\<rparr>) s)\<lparr>ws_pool_list := Some (Desc 0)\<rparr>)"

definition gomp_pull_ws_pool :: "gomp_data_t \<Rightarrow> ws_ptr option \<times> gomp_data_t" where
  "gomp_pull_ws_pool s =
     (case ws_pool_list s of None \<Rightarrow> (None, s) | Some w \<Rightarrow> (Some w, s\<lparr>ws_pool_list := next_free (wss s w)\<rparr>))"

definition gomp_malloc_ws :: "gomp_data_t \<Rightarrow> (ws_ptr \<times> gomp_data_t) option" where
  "gomp_malloc_ws s =
     (case l1_heap s of [] \<Rightarrow> None
      | i # h \<Rightarrow> Some (Heap i, upd_ws (Heap i) (\<lambda>d. d\<lparr>next_free := None, ws_embedded := WS_NOT_EMBEDDED\<rparr>) (s\<lparr>l1_heap := h\<rparr>)))"

definition alloc_work_share :: "gomp_data_t \<Rightarrow> (ws_ptr \<times> gomp_data_t) option" where
  "alloc_work_share s =
     (case gomp_pull_ws_pool s of (None, s1) \<Rightarrow> gomp_malloc_ws s1 | (Some w, s1) \<Rightarrow> Some (w, s1))"

definition gomp_free_work_share :: "ws_ptr \<Rightarrow> gomp_data_t \<Rightarrow> gomp_data_t" where
  "gomp_free_work_share w s = (if ws_embedded (wss s w) = WS_NOT_EMBEDDED then gomp_push_ws_pool w s else s)"

definition gomp_new_work_share :: "gomp_data_t \<Rightarrow> (ws_ptr \<times> gomp_data_t) option" where
  "gomp_new_work_share s =
     map_option (\<lambda>(w, s1). (w, upd_ws w (\<lambda>d. d\<lparr>next_ws := None, prev_ws := None\<rparr>) s1)) (alloc_work_share s)"

subsection \<open>The pool of teams\<close>

definition gomp_push_team_pool :: "nat \<Rightarrow> gomp_data_t \<Rightarrow> gomp_data_t" where
  "gomp_push_team_pool t s = (upd_team t (\<lambda>d. d\<lparr>team_next := team_pool_list s\<rparr>) s)\<lparr>team_pool_list := Some t\<rparr>"

definition gomp_pull_team_pool :: "gomp_data_t \<Rightarrow> nat option \<times> gomp_data_t" where
  "gomp_pull_team_pool s =
     (case team_pool_list s of None \<Rightarrow> (None, s)
      | Some t \<Rightarrow> (Some t, s\<lparr>team_pool_list := team_next (team_pool s ! t)\<rparr>))"

text \<open>The loop starts at 1: \<open>root_ws.embedded\<close> of the first team is not set.\<close>

definition gomp_team_pool_init :: "gomp_data_t \<Rightarrow> gomp_data_t" where
  "gomp_team_pool_init s =
     fold (\<lambda>i s. upd_ws (Root i) (\<lambda>d. d\<lparr>ws_embedded := WS_EMBEDDED\<rparr>)
         ((upd_team i (\<lambda>d. d\<lparr>barrier_id := of_nat i, team_next := team_pool_list s\<rparr>) s)\<lparr>team_pool_list := Some i\<rparr>))
       [1 ..< MAX_TEAM_DESC]
       ((upd_team 0 (\<lambda>d. d\<lparr>team_next := None, barrier_id := 0\<rparr>) s)\<lparr>team_pool_list := Some 0\<rparr>)"

definition gomp_new_team :: "gomp_data_t \<Rightarrow> nat option \<times> gomp_data_t" where
  "gomp_new_team = gomp_pull_team_pool"

definition gomp_free_team :: "nat \<Rightarrow> gomp_data_t \<Rightarrow> gomp_data_t" where
  "gomp_free_team = gomp_push_team_pool"

definition omp_initenv :: "nat \<Rightarrow> gomp_data_t \<Rightarrow> gomp_data_t" where
  "omp_initenv nprocs s =
     (let s1 = s\<lparr>idle_cores := of_nat nprocs - 1, thread_pool := 1\<rparr>;
          s2 = fold (\<lambda>i. gomp_set_curr_team i None) [0 ..< nprocs] s1
      in (gomp_ws_pool_init (gomp_team_pool_init s2))\<lparr>lru_team := None\<rparr>)"

named_theorems gomp_defs "definitions of the primitive operations of libgomp"

declare upd_ws_def [gomp_defs] upd_team_def [gomp_defs] gomp_get_curr_team_def [gomp_defs] gomp_set_curr_team_def [gomp_defs]
  gomp_push_ws_pool_def [gomp_defs] gomp_push_team_pool_def [gomp_defs] gomp_pull_team_pool_def [gomp_defs]
  gomp_new_team_def [gomp_defs] gomp_free_team_def [gomp_defs]

subsection \<open>Lists of free work shares\<close>

fun free_list :: "(ws_ptr \<Rightarrow> gomp_work_share_t) \<Rightarrow> ws_ptr option \<Rightarrow> ws_ptr list \<Rightarrow> bool" where
  "free_list m p [] \<longleftrightarrow> p = None"
| "free_list m p (w # ws) \<longleftrightarrow> p = Some w \<and> free_list m (next_free (m w)) ws"

lemma free_list_cong:
  "(\<And>w. w \<in> set ws \<Longrightarrow> next_free (m w) = next_free (m' w)) \<Longrightarrow> free_list m p ws = free_list m' p ws"
  by (induction ws arbitrary: p) auto

text \<open>The pool is a list of free descriptors; the heap returns blocks that nobody has.\<close>

definition ws_pool_ok :: "ws_ptr list \<Rightarrow> gomp_data_t \<Rightarrow> bool" where
  "ws_pool_ok free s \<longleftrightarrow> free_list (wss s) (ws_pool_list s) free \<and> distinct free \<and> distinct (l1_heap s)
     \<and> (\<forall>w \<in> set free. ws_embedded (wss s w) = WS_NOT_EMBEDDED \<and> w \<notin> Heap ` set (l1_heap s))"

lemma pool_init_ok: "distinct (l1_heap s) \<Longrightarrow> ws_pool_ok [Desc 1, Desc 0] (gomp_ws_pool_init s)"
  by (auto simp: ws_pool_ok_def gomp_ws_pool_init_def upd_ws_def hw_consts numeral_2_eq_2)

text \<open>A new work share comes from the pool, or from the heap when the pool is empty.\<close>

definition takes_ws :: "ws_ptr list \<Rightarrow> gomp_data_t \<Rightarrow> ws_ptr \<Rightarrow> ws_ptr list \<Rightarrow> nat list \<Rightarrow> bool" where
  "takes_ws free s w free' heap' \<longleftrightarrow>
     (case free of w' # ws \<Rightarrow> w = w' \<and> free' = ws \<and> heap' = l1_heap s
      | [] \<Rightarrow> (\<exists>i. l1_heap s = i # heap' \<and> w = Heap i \<and> free' = []))"

lemma new_work_share_spec:
  assumes ok: "ws_pool_ok free s" and some: "gomp_new_work_share s = Some (w, s')"
  obtains free' heap' where "takes_ws free s w free' heap'" "ws_pool_ok free' s'" "w \<notin> set free'" "w \<notin> Heap ` set heap'"
    "ws_embedded (wss s' w) = WS_NOT_EMBEDDED" "next_ws (wss s' w) = None" "prev_ws (wss s' w) = None"
    "s' = s\<lparr>ws_pool_list := ws_pool_list s', wss := (wss s)(w := wss s' w), l1_heap := heap'\<rparr>"
proof (cases free)
  case Nil
  then have "ws_pool_list s = None" using ok by (simp add: ws_pool_ok_def)
  then obtain i h where ih: "l1_heap s = i # h" "w = Heap i"
    "s' = upd_ws w (\<lambda>d. d\<lparr>next_ws := None, prev_ws := None\<rparr>)
        (upd_ws (Heap i) (\<lambda>d. d\<lparr>next_free := None, ws_embedded := WS_NOT_EMBEDDED\<rparr>) (s\<lparr>l1_heap := h\<rparr>))"
    using some by (auto simp: gomp_new_work_share_def alloc_work_share_def gomp_pull_ws_pool_def gomp_malloc_ws_def split: list.splits)
  show thesis
  proof (rule that [of "[]" h])
    show "takes_ws free s w [] h" using Nil ih by (simp add: takes_ws_def)
    show "ws_pool_ok [] s'" using ok ih \<open>ws_pool_list s = None\<close> by (simp add: ws_pool_ok_def upd_ws_def)
    show "w \<notin> Heap ` set h" using ok ih by (auto simp: ws_pool_ok_def)
  qed (use ih in \<open>auto simp: upd_ws_def\<close>)
next
  case (Cons w' ws)
  then have "ws_pool_list s = Some w'" using ok by (simp add: ws_pool_ok_def)
  then have eq: "w = w'" "s' = upd_ws w (\<lambda>d. d\<lparr>next_ws := None, prev_ws := None\<rparr>) (s\<lparr>ws_pool_list := next_free (wss s w)\<rparr>)"
    using some by (auto simp: gomp_new_work_share_def alloc_work_share_def gomp_pull_ws_pool_def)
  have list: "free_list (wss s) (next_free (wss s w)) ws" "w \<notin> set ws" using ok eq(1) by (auto simp: ws_pool_ok_def Cons)
  have "free_list (wss s') (next_free (wss s w)) ws"
    using list by (subst free_list_cong [of _ _ "wss s"]) (auto simp: eq(2) upd_ws_def)
  then have ok': "ws_pool_ok ws s'" using ok list eq by (auto simp: ws_pool_ok_def Cons upd_ws_def)
  show thesis
  proof (rule that [of ws "l1_heap s"])
    show "takes_ws free s w ws (l1_heap s)" using Cons eq by (simp add: takes_ws_def)
    show "w \<notin> Heap ` set (l1_heap s)" using ok eq by (simp add: ws_pool_ok_def Cons)
    show "ws_embedded (wss s' w) = WS_NOT_EMBEDDED" using ok eq by (simp add: ws_pool_ok_def Cons upd_ws_def)
  qed (use ok' list eq in \<open>auto simp: upd_ws_def\<close>)
qed

lemma new_work_share_some:
  "ws_pool_ok free s \<Longrightarrow> free \<noteq> [] \<or> l1_heap s \<noteq> [] \<Longrightarrow> \<exists>w s'. gomp_new_work_share s = Some (w, s')"
  by (cases free; cases "l1_heap s")
     (auto simp: gomp_new_work_share_def alloc_work_share_def gomp_pull_ws_pool_def gomp_malloc_ws_def ws_pool_ok_def)

lemma free_work_share_spec:
  assumes "ws_pool_ok free s" "ws_embedded (wss s w) = WS_NOT_EMBEDDED" "w \<notin> set free" "w \<notin> Heap ` set (l1_heap s)"
  shows "ws_pool_ok (w # free) (gomp_free_work_share w s)"
proof -
  have "free_list ((wss s)(w := (wss s w)\<lparr>next_free := ws_pool_list s\<rparr>)) (ws_pool_list s) free"
    using assms by (subst free_list_cong [of _ _ "wss s"]) (auto simp: ws_pool_ok_def)
  then show ?thesis
    using assms by (auto simp: ws_pool_ok_def gomp_free_work_share_def gomp_push_ws_pool_def upd_ws_def)
qed

end
