(* ===== verification/Gomp_Work.thy ===== *)
theory Gomp_Work
  imports Gomp_Data
begin

text \<open>
  Work sharing of the OpenMP runtime of the cluster (\<open>libgomp/work.c\<close>, \<open>iter.c\<close>, \<open>loop.c\<close>, \<open>sections.c\<close>, \<open>single.c\<close>).

  With \<open>OMP_NOWAIT_SUPPORT\<close> the cores of a team need not wait for each other between constructs. Each construct has a
  work share; those in use form a chain from the one of the slowest core to that of the fastest, each core
  points to the one it is in, and a work share is given back to the pool once every core has left its successor.
  Here are the operations, the invariant of this chain (\<open>chain_ok\<close>) with its preservation when a core enters and leaves a
  construct, and what the computation of chunks makes of the iterations of a loop.
\<close>

subsection \<open>Work shares (\<open>work.c\<close>)\<close>

definition gomp_work_share_start :: "nat \<Rightarrow> gomp_data_t \<Rightarrow> (bool \<times> ws_ptr \<times> gomp_data_t) option" where
  "gomp_work_share_start pid s = do {
     curr_ws \<leftarrow> CURR_WS pid s;
     case next_ws (wss s curr_ws) of
       None \<Rightarrow> do {
         (w, s1) \<leftarrow> gomp_new_work_share s;
         let s2 = upd_ws w (\<lambda>d. d\<lparr>prev_ws := Some curr_ws\<rparr>) s1;
         let s3 = upd_ws curr_ws (\<lambda>d. d\<lparr>next_ws := Some w\<rparr>) s2;
         let s4 = upd_ws w (\<lambda>d. d\<lparr>ws_completed := 0\<rparr>) s3;
         Some (True, w, set_CURR_WS pid w s4)
       }
     | Some w \<Rightarrow> Some (False, w, set_CURR_WS pid w s)
   }"

text \<open>The last core to leave gives back the work share before this one.\<close>

definition gomp_work_share_end_nowait :: "nat \<Rightarrow> gomp_data_t \<Rightarrow> gomp_data_t option" where
  "gomp_work_share_end_nowait pid s = do {
     t \<leftarrow> gomp_get_curr_team pid s;
     w \<leftarrow> work_share (team_pool s ! t) ! pid;
     let s1 = upd_ws w (\<lambda>d. d\<lparr>ws_completed := ws_completed d + 1\<rparr>) s;
     if ws_completed (wss s1 w) = team_nthreads (team_pool s ! t)
       then (case prev_ws (wss s1 w) of None \<Rightarrow> Some s1 | Some v \<Rightarrow> Some (gomp_free_work_share v s1))
       else Some s1
   }"

subsection \<open>Iterations (\<open>iter.c\<close>)\<close>

definition gomp_iter_dynamic_next_locked :: "ws_ptr \<Rightarrow> gomp_data_t \<Rightarrow> (int \<times> int) option \<times> gomp_data_t" where
  "gomp_iter_dynamic_next_locked w s =
     (let d = wss s w; start = ws_next d in
      if start = ws_end d then (None, s)
      else let chunk = i32 (ws_chunk_size d * ws_incr d);
               left = i32 (ws_end d - start);
               chunk' = (if ws_incr d < 0 then (if chunk < left then left else chunk)
                         else (if chunk > left then left else chunk));
               end' = i32 (start + chunk')
           in (Some (start, end'), upd_ws w (\<lambda>d. d\<lparr>ws_next := end'\<rparr>) s))"

text \<open>The same under the lock of the work share.\<close>

definition gomp_iter_dynamic_next :: "ws_ptr \<Rightarrow> gomp_data_t \<Rightarrow> (int \<times> int) option \<times> gomp_data_t" where
  "gomp_iter_dynamic_next w s =
     (let d = wss s w; start = ws_next d in
      if start = ws_end d then (None, s)
      else let chunk = i32 (ws_chunk_size d * ws_incr d);
               left = i32 (ws_end d - start);
               chunk' = (if ws_incr d < 0 then (if chunk < left then left else chunk)
                         else (if chunk > left then left else chunk));
               end' = i32 (start + chunk')
           in (Some (start, end'), upd_ws w (\<lambda>d. d\<lparr>ws_next := end'\<rparr>) s))"

subsection \<open>Loops (\<open>loop.c\<close>)\<close>

definition gomp_loop_init :: "ws_ptr \<Rightarrow> int \<Rightarrow> int \<Rightarrow> int \<Rightarrow> int \<Rightarrow> gomp_data_t \<Rightarrow> gomp_data_t" where
  "gomp_loop_init w start end' incr chunk_size =
     upd_ws w (\<lambda>d. d\<lparr>ws_chunk_size := chunk_size,
        ws_end := (if incr > 0 \<and> start > end' \<or> incr < 0 \<and> start < end' then start else end'),
        ws_incr := incr, ws_next := start\<rparr>)"

definition gomp_loop_dynamic_next :: "ws_ptr \<Rightarrow> gomp_data_t \<Rightarrow> (int \<times> int) option \<times> gomp_data_t" where
  "gomp_loop_dynamic_next w s = gomp_iter_dynamic_next w s"

text \<open>The result is the return value, \<open>*istart\<close> and \<open>*iend\<close>.\<close>

definition GOMP_loop_dynamic_start ::
    "int \<Rightarrow> int \<Rightarrow> int \<Rightarrow> int \<Rightarrow> nat \<Rightarrow> gomp_data_t \<Rightarrow> ((bool \<times> int \<times> int) \<times> gomp_data_t) option" where
  "GOMP_loop_dynamic_start start0 end0 incr chunk_size pid s = do {
     (new, w, s1) \<leftarrow> gomp_work_share_start pid s;
     let s2 = (if new then gomp_loop_init w start0 end0 incr chunk_size s1 else s1);
     let start = ws_next (wss s2 w);
     if start = ws_end (wss s2 w) then Some ((False, start, end0), s2)
     else let chunk = i32 (chunk_size * incr);
              left = i32 (ws_end (wss s2 w) - start);
              chunk' = (if incr < 0 then (if chunk < left then left else chunk) else (if chunk > left then left else chunk));
              end' = i32 (start + chunk')
          in Some ((True, start, end'), upd_ws w (\<lambda>d. d\<lparr>ws_next := end'\<rparr>) s2)
   }"

definition GOMP_loop_dynamic_next :: "nat \<Rightarrow> gomp_data_t \<Rightarrow> ((int \<times> int) option \<times> gomp_data_t) option" where
  "GOMP_loop_dynamic_next pid s = do { w \<leftarrow> CURR_WS pid s; Some (gomp_loop_dynamic_next w s) }"

definition GOMP_loop_end_nowait :: "nat \<Rightarrow> gomp_data_t \<Rightarrow> gomp_data_t option" where
  "GOMP_loop_end_nowait pid s = gomp_work_share_end_nowait pid s"

text \<open>With the hardware barrier at which the core then waits.\<close>

definition GOMP_loop_end :: "nat \<Rightarrow> gomp_data_t \<Rightarrow> (u32 \<times> gomp_data_t) option" where
  "GOMP_loop_end pid s = do {
     s1 \<leftarrow> gomp_work_share_end_nowait pid s;
     t \<leftarrow> gomp_get_curr_team pid s1;
     Some (barrier_id (team_pool s1 ! t), s1)
   }"

subsection \<open>Sections and single (\<open>sections.c\<close>, \<open>single.c\<close>)\<close>

definition gomp_sections_init :: "ws_ptr \<Rightarrow> int \<Rightarrow> gomp_data_t \<Rightarrow> gomp_data_t" where
  "gomp_sections_init w count =
     upd_ws w (\<lambda>d. d\<lparr>ws_end := i32 (count + 1), ws_next := 1, ws_chunk_size := 1, ws_incr := 1\<rparr>)"

definition GOMP_sections_start :: "int \<Rightarrow> nat \<Rightarrow> gomp_data_t \<Rightarrow> (int \<times> gomp_data_t) option" where
  "GOMP_sections_start count pid s = do {
     (new, w, s1) \<leftarrow> gomp_work_share_start pid s;
     let s2 = (if new then gomp_sections_init w count s1 else s1);
     let d = wss s2 w;
     if ws_next d \<noteq> ws_end d
       then Some (ws_next d, upd_ws w (\<lambda>d. d\<lparr>ws_next := i32 (ws_next d + 1)\<rparr>) s2)
       else Some (0, s2)
   }"

definition gomp_sections_next :: "ws_ptr \<Rightarrow> gomp_data_t \<Rightarrow> int \<times> gomp_data_t" where
  "gomp_sections_next w s =
     (case gomp_iter_dynamic_next w s of (Some (a, b), s1) \<Rightarrow> (a, s1) | (None, s1) \<Rightarrow> (0, s1))"

definition GOMP_sections_next :: "nat \<Rightarrow> gomp_data_t \<Rightarrow> (int \<times> gomp_data_t) option" where
  "GOMP_sections_next pid s = do { w \<leftarrow> CURR_WS pid s; Some (gomp_sections_next w s) }"

definition GOMP_sections_end_nowait :: "nat \<Rightarrow> gomp_data_t \<Rightarrow> gomp_data_t option" where
  "GOMP_sections_end_nowait pid s = gomp_work_share_end_nowait pid s"

definition GOMP_sections_end :: "nat \<Rightarrow> gomp_data_t \<Rightarrow> (u32 \<times> gomp_data_t) option" where
  "GOMP_sections_end pid s = do {
     s1 \<leftarrow> gomp_work_share_end_nowait pid s;
     t \<leftarrow> gomp_get_curr_team pid s1;
     Some (barrier_id (team_pool s1 ! t), s1)
   }"

definition GOMP_single_start :: "nat \<Rightarrow> gomp_data_t \<Rightarrow> (bool \<times> gomp_data_t) option" where
  "GOMP_single_start pid s = do {
     t \<leftarrow> gomp_get_curr_team pid s;
     (ret, w, s1) \<leftarrow> gomp_work_share_start pid s;
     let s2 = upd_ws w (\<lambda>d. d\<lparr>ws_completed := ws_completed d + 1\<rparr>) s1;
     if ws_completed (wss s2 w) = team_nthreads (team_pool s2 ! t)
       then do {
         let s3 = upd_ws w (\<lambda>d. d\<lparr>ws_checkfirst := WS_NOT_INITED\<rparr>) s2;
         v \<leftarrow> prev_ws (wss s3 w);
         Some (ret, gomp_free_work_share v s3)
       }
       else Some (ret, s2)
   }"

subsection \<open>The chain of work shares\<close>

text \<open>The ghost state: the cores \<open>P\<close> of the team, for each the construct it entered last (\<open>idx\<close>, 0 before the first) and
  whether it has left it (\<open>dn\<close>); the construct \<open>b\<close> of the first work share in the chain; the number \<open>S\<close> of descriptors that can be
  used. \<open>passed k p\<close>: core \<open>p\<close> has left construct \<open>k\<close>.\<close>

definition passed :: "(nat \<Rightarrow> nat) \<Rightarrow> (nat \<Rightarrow> bool) \<Rightarrow> nat \<Rightarrow> nat \<Rightarrow> bool" where
  "passed idx dn k p \<longleftrightarrow> idx p > k \<or> idx p = k \<and> dn p"

definition count_passed :: "nat set \<Rightarrow> (nat \<Rightarrow> nat) \<Rightarrow> (nat \<Rightarrow> bool) \<Rightarrow> nat \<Rightarrow> nat" where
  "count_passed P idx dn k = card {p \<in> P. passed idx dn k p}"

definition team_ok :: "nat \<Rightarrow> nat set \<Rightarrow> gomp_data_t \<Rightarrow> bool" where
  "team_ok tm P s \<longleftrightarrow> tm < length (team_pool s) \<and> team_nthreads (team_pool s ! tm) = of_nat (card P) \<and> P \<noteq> {} \<and> P \<subseteq> {..<8}
     \<and> length (work_share (team_pool s ! tm)) = 8 \<and> (\<forall>p \<in> P. curr_team s ! p = Some tm)"

definition node_ok :: "nat \<Rightarrow> (nat \<Rightarrow> nat) \<Rightarrow> nat \<Rightarrow> ws_ptr list \<Rightarrow> (ws_ptr \<Rightarrow> gomp_work_share_t) \<Rightarrow> nat \<Rightarrow> bool" where
  "node_ok n cnt b chain m k \<longleftrightarrow>
     next_ws (m (chain ! k)) = (if Suc k < length chain then Some (chain ! Suc k) else None) \<and>
     (ws_embedded (m (chain ! k)) = WS_NOT_EMBEDDED \<longleftrightarrow> 0 < b + k) \<and>
     (0 < k \<longrightarrow> prev_ws (m (chain ! k)) = Some (chain ! (k - 1)) \<and>
        ws_completed (m (chain ! k)) = of_nat (cnt (b + k)) \<and> cnt (b + k) < n)"

definition chain_ok ::
    "nat \<Rightarrow> nat set \<Rightarrow> nat \<Rightarrow> nat \<Rightarrow> ws_ptr list \<Rightarrow> ws_ptr list \<Rightarrow> (nat \<Rightarrow> nat) \<Rightarrow> (nat \<Rightarrow> bool) \<Rightarrow> gomp_data_t \<Rightarrow> bool" where
  "chain_ok tm P S b chain free idx dn s \<longleftrightarrow>
     team_ok tm P s \<and> ws_pool_ok free s \<and> distinct (chain @ free) \<and> set chain \<inter> Heap ` set (l1_heap s) = {} \<and> chain \<noteq> [] \<and>
     length free + length (l1_heap s) + length chain = S + (if b = 0 then 1 else 0) \<and>
     (\<forall>k < length chain. node_ok (card P) (count_passed P idx dn) b chain (wss s) k) \<and>
     (\<forall>p \<in> P. passed idx dn b p \<and> idx p < b + length chain \<and> work_share (team_pool s ! tm) ! p = Some (chain ! (idx p - b))) \<and>
     (\<exists>p \<in> P. Suc (idx p) = b + length chain)"

text \<open>The fields that the iterations use.\<close>

definition ws_data :: "gomp_data_t \<Rightarrow> ws_ptr \<Rightarrow> int \<times> int \<times> int \<times> int" where
  "ws_data s w = (ws_next (wss s w), ws_end (wss s w), ws_chunk_size (wss s w), ws_incr (wss s w))"

definition same_links :: "gomp_work_share_t \<Rightarrow> gomp_work_share_t \<Rightarrow> bool" where
  "same_links d d' \<longleftrightarrow> next_ws d' = next_ws d \<and> prev_ws d' = prev_ws d \<and> ws_embedded d' = ws_embedded d \<and>
     ws_completed d' = ws_completed d \<and> next_free d' = next_free d"

lemma ws_pool_ok_cong:
  assumes "ws_pool_ok free s" "ws_pool_list s' = ws_pool_list s" "l1_heap s' = l1_heap s"
    and "\<And>w. w \<in> set free \<Longrightarrow> next_free (wss s' w) = next_free (wss s w) \<and> ws_embedded (wss s' w) = ws_embedded (wss s w)"
  shows "ws_pool_ok free s'"
  using assms free_list_cong [of free "wss s'" "wss s"] by (auto simp: ws_pool_ok_def)

lemma chain_ok_parts:
  assumes "chain_ok tm P S b chain free idx dn s"
  shows "team_ok tm P s" "ws_pool_ok free s" "distinct (chain @ free)" "set chain \<inter> Heap ` set (l1_heap s) = {}" "chain \<noteq> []"
    "length free + length (l1_heap s) + length chain = S + (if b = 0 then 1 else 0)"
    "k < length chain \<Longrightarrow> node_ok (card P) (count_passed P idx dn) b chain (wss s) k"
    "p \<in> P \<Longrightarrow> passed idx dn b p" "p \<in> P \<Longrightarrow> idx p < b + length chain"
    "p \<in> P \<Longrightarrow> work_share (team_pool s ! tm) ! p = Some (chain ! (idx p - b))" "\<exists>p \<in> P. Suc (idx p) = b + length chain"
  using assms unfolding chain_ok_def by (elim conjE, blast)+

lemma chain_ok_data:
  assumes "chain_ok tm P S b chain free idx dn s" "\<And>d. same_links d (f d)"
  shows "chain_ok tm P S b chain free idx dn (upd_ws w f s)"
proof -
  have "node_ok n cnt b chain (wss (upd_ws w f s)) k = node_ok n cnt b chain (wss s) k" for n cnt k
    using assms(2) by (auto simp: node_ok_def upd_ws_def same_links_def)
  moreover have "ws_pool_ok free (upd_ws w f s)"
    using chain_ok_parts(2) [OF assms(1)] assms(2) by (elim ws_pool_ok_cong) (auto simp: upd_ws_def same_links_def)
  ultimately show ?thesis using assms(1) by (simp add: chain_ok_def team_ok_def) (simp add: upd_ws_def)
qed

lemma chain_ok_CURR_WS:
  "chain_ok tm P S b chain free idx dn s \<Longrightarrow> p \<in> P \<Longrightarrow> CURR_WS p s = Some (chain ! (idx p - b))"
  using chain_ok_parts(1,10) by (fastforce simp: team_ok_def CURR_WS_def gomp_get_curr_team_def)

lemma chain_okD:
  assumes "chain_ok tm P S b chain free idx dn s" "p \<in> P"
  shows "b \<le> idx p" "idx p - b < length chain" "b + (idx p - b) = idx p" "p < 8" "curr_team s ! p = Some tm"
    "team_nthreads (team_pool s ! tm) = of_nat (card P)" "tm < length (team_pool s)"
    "work_share (team_pool s ! tm) ! p = Some (chain ! (idx p - b))" "finite P" "card P \<le> 8"
proof -
  note c = chain_ok_parts [OF assms(1)]
  show "b \<le> idx p" "idx p - b < length chain" "b + (idx p - b) = idx p"
    using c(8,9) [OF assms(2)] by (auto simp: passed_def)
  show "work_share (team_pool s ! tm) ! p = Some (chain ! (idx p - b))" using c(10) [OF assms(2)] .
  show "p < 8" "curr_team s ! p = Some tm" "team_nthreads (team_pool s ! tm) = of_nat (card P)" "tm < length (team_pool s)"
    using c(1) assms(2) by (auto simp: team_ok_def)
  have "P \<subseteq> {..<8}" using c(1) by (simp add: team_ok_def)
  then show "finite P" "card P \<le> 8" using finite_subset card_mono [of "{..<8::nat}" P] by auto
qed

text \<open>Entering a construct changes nobody's count.\<close>

lemma passed_enter: "dn p \<Longrightarrow> passed (idx(p := Suc (idx p))) (dn(p := False)) = passed idx dn"
  by (auto simp: passed_def fun_eq_iff)

lemma set_CURR_WS_simps [simp]:
  "wss (set_CURR_WS p w s) = wss s" "ws_pool_list (set_CURR_WS p w s) = ws_pool_list s"
  "l1_heap (set_CURR_WS p w s) = l1_heap s" "curr_team (set_CURR_WS p w s) = curr_team s"
  by (simp_all add: set_CURR_WS_def upd_team_def split: option.splits)

lemma set_CURR_WS_team:
  "curr_team s ! p = Some tm \<Longrightarrow> set_CURR_WS p w s = upd_team tm (\<lambda>d. d\<lparr>work_share := (work_share d)[p := Some w]\<rparr>) s"
  by (simp add: set_CURR_WS_def gomp_get_curr_team_def)

lemma move_to:
  assumes ok: "chain_ok tm P S b chain free idx dn s" and p: "p \<in> P" "dn p" and nx: "Suc (idx p) < b + length chain"
  shows "chain_ok tm P S b chain free (idx(p := Suc (idx p))) (dn(p := False)) (set_CURR_WS p (chain ! (Suc (idx p) - b)) s)"
proof -
  note d = chain_okD [OF ok p(1)]
  note c = chain_ok_parts [OF ok]
  have len: "length (work_share (team_pool s ! tm)) = 8" using c(1) by (simp add: team_ok_def)
  have "ws_pool_ok free (set_CURR_WS p (chain ! (Suc (idx p) - b)) s)"
    using c(2) by (elim ws_pool_ok_cong) auto
  moreover have "team_ok tm P (set_CURR_WS p (chain ! (Suc (idx p) - b)) s)"
    using c(1) d(5,7) by (simp add: team_ok_def set_CURR_WS_team upd_team_def)
  moreover have "(if q = p then Suc (idx p) else idx q) < b + length chain \<and>
      work_share (team_pool (set_CURR_WS p (chain ! (Suc (idx p) - b)) s) ! tm) ! q =
        Some (chain ! ((if q = p then Suc (idx p) else idx q) - b))" if q: "q \<in> P" for q
  proof (cases "q = p")
    case True
    then show ?thesis using nx len d(4,5,7) by (simp add: set_CURR_WS_team upd_team_def)
  next
    case False
    then show ?thesis using chain_okD(2,3,8) [OF ok q] d(5,7) by (simp add: set_CURR_WS_team upd_team_def)
  qed
  moreover have "count_passed P (idx(p := Suc (idx p))) (dn(p := False)) = count_passed P idx dn"
    by (simp add: count_passed_def passed_enter [where dn = dn and p = p, OF p(2)] fun_eq_iff)
  moreover obtain q where "q \<in> P" "Suc (idx q) = b + length chain" using c(11) by blast
  then have "\<exists>q \<in> P. Suc (if q = p then Suc (idx p) else idx q) = b + length chain" using nx by (intro bexI [of _ q]) auto
  ultimately show ?thesis
    using ok by (simp add: chain_ok_def passed_enter [where dn = dn and p = p, OF p(2)])
qed

lemma enter_new:
  assumes ok: "chain_ok tm P S b chain free idx dn s" and p: "p \<in> P" "dn p" and top: "Suc (idx p) = b + length chain"
    and spare: "b + length chain \<le> S"
  obtains w free' s' where "gomp_work_share_start p s = Some (True, w, s')"
    "chain_ok tm P S b (chain @ [w]) free' (idx(p := Suc (idx p))) (dn(p := False)) s'" "\<forall>x \<in> set chain. ws_data s' x = ws_data s x"
proof -
  note d = chain_okD [OF ok p(1)] and c = chain_ok_parts [OF ok]
  define curr where "curr = chain ! (idx p - b)"
  have last: "idx p - b = length chain - 1" using top by simp
  have "free \<noteq> [] \<or> l1_heap s \<noteq> []" using c(6) spare d(2) by (cases "b = 0") auto
  then obtain w s1 where new: "gomp_new_work_share s = Some (w, s1)" using new_work_share_some [OF c(2)] by blast
  obtain free' heap' where f: "takes_ws free s w free' heap'" "ws_pool_ok free' s1" "w \<notin> set free'" "w \<notin> Heap ` set heap'"
    "ws_embedded (wss s1 w) = WS_NOT_EMBEDDED" "next_ws (wss s1 w) = None" "prev_ws (wss s1 w) = None"
    "s1 = s\<lparr>ws_pool_list := ws_pool_list s1, wss := (wss s)(w := wss s1 w), l1_heap := heap'\<rparr>"
    by (rule new_work_share_spec [OF c(2) new])
  have w: "w \<notin> set chain" "set free' \<subseteq> set free" "distinct free'" "set heap' \<subseteq> set (l1_heap s)"
    "Suc (length free' + length heap') = length free + length (l1_heap s)"
    using f(1) c(3,4) by (auto simp: takes_ws_def split: list.splits)
  define m pl where "m = wss s1 w" "pl = ws_pool_list s1"
  then have eq: "s1 = s\<lparr>ws_pool_list := pl, wss := (wss s)(w := m), l1_heap := heap'\<rparr>" using f(8) by simp
  have s1: "curr_team s1 = curr_team s" "team_pool s1 = team_pool s" "l1_heap s1 = heap'"
    by (simp_all add: eq)
  have curr: "curr \<in> set chain" "curr \<noteq> w" using d(2) w(1) by (auto simp: curr_def)
  define s4 where "s4 = upd_ws w (\<lambda>d. d\<lparr>ws_completed := 0\<rparr>) (upd_ws curr (\<lambda>d. d\<lparr>next_ws := Some w\<rparr>)
      (upd_ws w (\<lambda>d. d\<lparr>prev_ws := Some curr\<rparr>) s1))"
  have next0: "next_ws (wss s curr) = None"
    using c(7) [OF d(2)] last by (simp add: node_ok_def curr_def)
  have start: "gomp_work_share_start p s = Some (True, w, set_CURR_WS p w s4)"
    using chain_ok_CURR_WS [OF ok p(1)] next0 new by (simp add: gomp_work_share_start_def curr_def s4_def Let_def)
  define s5 where "s5 = set_CURR_WS p w s4"
  have nodes: "next_ws (wss s5 w) = None" "prev_ws (wss s5 w) = Some curr" "ws_completed (wss s5 w) = 0"
    "ws_embedded (wss s5 w) = WS_NOT_EMBEDDED" "next_ws (wss s5 curr) = Some w" "prev_ws (wss s5 curr) = prev_ws (wss s curr)"
    "ws_completed (wss s5 curr) = ws_completed (wss s curr)" "ws_embedded (wss s5 curr) = ws_embedded (wss s curr)"
    using f(5-7) curr(2) by (simp_all add: s5_def s4_def upd_ws_def eq)
  have others: "wss s5 x = wss s x" if "x \<noteq> w" "x \<noteq> curr" for x
    using that by (simp add: s5_def s4_def upd_ws_def eq)
  have count: "count_passed P (idx(p := Suc (idx p))) (dn(p := False)) = count_passed P idx dn"
    by (simp add: count_passed_def passed_enter [where dn = dn and p = p, OF p(2)] fun_eq_iff)
  have none: "count_passed P idx dn (b + length chain) = 0"
    using c(9) d(9) by (fastforce simp: count_passed_def passed_def)
  have card: "0 < card P" using p(1) d(9) card_gt_0_iff by blast
  have node: "node_ok (card P) (count_passed P idx dn) b (chain @ [w]) (wss s5) k" if k: "k < Suc (length chain)" for k
  proof -
    have old: "k < length chain \<Longrightarrow> node_ok (card P) (count_passed P idx dn) b chain (wss s) k" using c(7) .
    have ne: "k < length chain \<Longrightarrow> chain ! k \<noteq> w" using w(1) by auto
    have dist: "k < length chain \<Longrightarrow> chain ! k = curr \<longleftrightarrow> k = length chain - 1"
      using c(3) d(2) last by (auto simp: curr_def nth_eq_iff_index_eq)
    consider "k = length chain" | "k = length chain - 1" "k < length chain" | "Suc k < length chain" using k by linarith
    then show ?thesis
    proof cases
      case 1
      then show ?thesis using nodes(1-4) none card last c(5) d(2) by (simp add: node_ok_def nth_append curr_def)
    next
      case 2
      then have "chain ! k = curr" "Suc k = length chain" using dist by auto
      then show ?thesis using nodes(5-8) old [OF 2(2)] 2(2) by (auto simp: node_ok_def nth_append)
    next
      case 3
      then have kl: "k < length chain" by simp
      then have "wss s5 (chain ! k) = wss s (chain ! k)" using others ne dist 3 by simp
      then show ?thesis using old [OF kl] kl 3 by (auto simp: node_ok_def nth_append)
    qed
  qed
  have pool: "ws_pool_ok free' s5"
    using f(2) by (elim ws_pool_ok_cong) (auto simp: s5_def s4_def upd_ws_def)
  have s5: "curr_team s5 = curr_team s" "l1_heap s5 = heap'"
    "team_pool s5 = (team_pool s)[tm := (team_pool s ! tm)\<lparr>work_share := (work_share (team_pool s ! tm))[p := Some w]\<rparr>]"
    using d(5) by (simp_all add: s5_def s4_def upd_ws_def set_CURR_WS_def gomp_get_curr_team_def upd_team_def s1)
  have team: "team_ok tm P s5" using c(1) d(7) by (simp add: team_ok_def s5)
  have len8: "length (work_share (team_pool s ! tm)) = 8" using c(1) by (simp add: team_ok_def)
  have cores: "(if q = p then Suc (idx p) else idx q) < b + length (chain @ [w]) \<and>
      work_share (team_pool s5 ! tm) ! q = Some ((chain @ [w]) ! ((if q = p then Suc (idx p) else idx q) - b))" if q: "q \<in> P" for q
  proof (cases "q = p")
    case True
    then show ?thesis using top len8 d(4,7) by (simp add: s5 nth_append)
  next
    case False
    then show ?thesis using chain_okD(2,3,8) [OF ok q] d(7) by (simp add: s5 nth_append)
  qed
  have dist: "distinct ((chain @ [w]) @ free')" "set (chain @ [w]) \<inter> Heap ` set heap' = {}"
    using c(3,4) w f(3,4) by auto
  have "chain_ok tm P S b (chain @ [w]) free' (idx(p := Suc (idx p))) (dn(p := False)) s5"
    unfolding chain_ok_def passed_enter [where dn = dn and p = p, OF p(2)] count
    using team pool dist c(6,8) w(5) node cores by (simp add: s5(2)) (use p(1) top in \<open>auto intro!: bexI [of _ p]\<close>)
  moreover have "\<forall>x \<in> set chain. ws_data s5 x = ws_data s x"
    using w(1) by (auto simp: ws_data_def s5_def s4_def upd_ws_def eq)
  ultimately show thesis using that start unfolding s5_def by blast
qed

lemma enter:
  assumes ok: "chain_ok tm P S b chain free idx dn s" and p: "p \<in> P" "dn p"
    and spare: "Suc (idx p) = b + length chain \<Longrightarrow> b + length chain \<le> S"
  obtains w chain' free' s' where
    "gomp_work_share_start p s = Some (Suc (idx p) = b + length chain, w, s')"
    "chain_ok tm P S b chain' free' (idx(p := Suc (idx p))) (dn(p := False)) s'"
    "chain' = (if Suc (idx p) = b + length chain then chain @ [w] else chain)" "w = chain' ! (Suc (idx p) - b)"
    "\<forall>x \<in> set chain. ws_data s' x = ws_data s x"
proof (cases "Suc (idx p) = b + length chain")
  case True
  obtain w free' s' where new: "gomp_work_share_start p s = Some (True, w, s')"
    "chain_ok tm P S b (chain @ [w]) free' (idx(p := Suc (idx p))) (dn(p := False)) s'" "\<forall>x \<in> set chain. ws_data s' x = ws_data s x"
    by (rule enter_new [OF ok p True spare [OF True]])
  show thesis by (rule that [of w s' "chain @ [w]" free']) (use new True in simp_all)
next
  case False
  note d = chain_okD [OF ok p(1)] and c = chain_ok_parts [OF ok]
  have lt: "Suc (idx p) < b + length chain" using False d(1,2) by linarith
  then have "next_ws (wss s (chain ! (idx p - b))) = Some (chain ! (Suc (idx p) - b))"
    using c(7) [OF d(2)] d(1) by (simp add: node_ok_def Suc_diff_le)
  then have "gomp_work_share_start p s = Some (False, chain ! (Suc (idx p) - b), set_CURR_WS p (chain ! (Suc (idx p) - b)) s)"
    using chain_ok_CURR_WS [OF ok p(1)] by (simp add: gomp_work_share_start_def)
  then show thesis using that [OF _ move_to [OF ok p lt]] False by (simp add: ws_data_def)
qed

lemma of_nat_u32_eq: "a < 2 ^ 32 \<Longrightarrow> b < 2 ^ 32 \<Longrightarrow> (of_nat a = (of_nat b :: u32)) = (a = b)"
  by (simp add: word_of_nat_eq_iff take_bit_nat_eq_self)

text \<open>Leaving a construct: the last core to do so gives back the work share before.\<close>

lemma passed_leave:
  "\<not> dn p \<Longrightarrow> passed idx (dn(p := True)) k q \<longleftrightarrow> passed idx dn k q \<or> q = p \<and> k = idx p"
  by (auto simp: passed_def)

lemma count_leave:
  assumes "\<not> dn p" "p \<in> P" "finite P"
  shows "count_passed P idx (dn(p := True)) k = count_passed P idx dn k + (if k = idx p then 1 else 0)"
proof (cases "k = idx p")
  case True
  have "{q \<in> P. passed idx (dn(p := True)) k q} = insert p {q \<in> P. passed idx dn k q}"
    using assms True by (auto simp: passed_leave)
  moreover have "p \<notin> {q \<in> P. passed idx dn k q}" using assms True by (simp add: passed_def)
  ultimately show ?thesis using True assms(3) by (simp add: count_passed_def)
next
  case False
  then have "{q \<in> P. passed idx (dn(p := True)) k q} = {q \<in> P. passed idx dn k q}"
    using assms by (auto simp: passed_leave)
  then show ?thesis using False by (simp add: count_passed_def)
qed

text \<open>The work share that core \<open>p\<close> leaves and the state with its count incremented.\<close>

definition left_ws :: "ws_ptr \<Rightarrow> gomp_data_t \<Rightarrow> gomp_data_t" where
  "left_ws w = upd_ws w (\<lambda>d. d\<lparr>ws_completed := ws_completed d + 1\<rparr>)"

lemma left_ws_simps [simp]:
  "ws_completed (wss (left_ws w s) x) = ws_completed (wss s x) + (if x = w then 1 else 0)"
  "next_ws (wss (left_ws w s) x) = next_ws (wss s x)" "prev_ws (wss (left_ws w s) x) = prev_ws (wss s x)"
  "ws_embedded (wss (left_ws w s) x) = ws_embedded (wss s x)" "next_free (wss (left_ws w s) x) = next_free (wss s x)"
  "ws_pool_list (left_ws w s) = ws_pool_list s" "l1_heap (left_ws w s) = l1_heap s"
  "curr_team (left_ws w s) = curr_team s" "team_pool (left_ws w s) = team_pool s" "ws_data (left_ws w s) = ws_data s"
  by (auto simp: left_ws_def upd_ws_def ws_data_def fun_eq_iff)

lemma free_ws_simps [simp]:
  "ws_completed (wss (gomp_free_work_share v s) x) = ws_completed (wss s x)"
  "next_ws (wss (gomp_free_work_share v s) x) = next_ws (wss s x)" "prev_ws (wss (gomp_free_work_share v s) x) = prev_ws (wss s x)"
  "ws_embedded (wss (gomp_free_work_share v s) x) = ws_embedded (wss s x)" "l1_heap (gomp_free_work_share v s) = l1_heap s"
  "curr_team (gomp_free_work_share v s) = curr_team s" "team_pool (gomp_free_work_share v s) = team_pool s"
  "ws_data (gomp_free_work_share v s) = ws_data s"
  by (auto simp: gomp_free_work_share_def gomp_push_ws_pool_def upd_ws_def ws_data_def fun_eq_iff)

lemma leave_node:
  assumes ok: "chain_ok tm P S b chain free idx dn s" and p: "p \<in> P" "\<not> dn p"
  shows "b < idx p" "prev_ws (wss s (chain ! (idx p - b))) = Some (chain ! (idx p - b - 1))"
    and "ws_completed (wss s (chain ! (idx p - b))) = of_nat (count_passed P idx dn (idx p))" "count_passed P idx dn (idx p) < card P"
    and "k < length chain \<Longrightarrow> k \<noteq> idx p - b \<or> Suc (count_passed P idx dn (idx p)) < card P \<Longrightarrow>
      node_ok (card P) (count_passed P idx (dn(p := True))) b chain (wss (left_ws (chain ! (idx p - b)) s)) k"
proof -
  note d = chain_okD [OF ok p(1)] and c = chain_ok_parts [OF ok]
  show gt: "b < idx p" using c(8) [OF p(1)] p(2) by (auto simp: passed_def)
  define j where "j = idx p - b"
  have j: "0 < j" "j < length chain" "b + j = idx p" using gt d(2,3) by (simp_all add: j_def)
  have nj: "node_ok (card P) (count_passed P idx dn) b chain (wss s) j" using c(7) [OF j(2)] .
  then show "prev_ws (wss s (chain ! (idx p - b))) = Some (chain ! (idx p - b - 1))"
    "ws_completed (wss s (chain ! (idx p - b))) = of_nat (count_passed P idx dn (idx p))" "count_passed P idx dn (idx p) < card P"
    using j by (simp_all add: node_ok_def flip: j_def)
  note count = count_leave [where dn = dn and p = p and idx = idx, OF p(2,1) d(9)]
  assume k: "k < length chain" "k \<noteq> idx p - b \<or> Suc (count_passed P idx dn (idx p)) < card P"
  show "node_ok (card P) (count_passed P idx (dn(p := True))) b chain (wss (left_ws (chain ! (idx p - b)) s)) k"
  proof (cases "k = j")
    case True
    then show ?thesis using nj j k(2) by (simp add: node_ok_def count flip: j_def)
  next
    case False
    then have "chain ! k \<noteq> chain ! j" using k(1) j(2) c(3) by (simp add: nth_eq_iff_index_eq)
    then show ?thesis using c(7) [OF k(1)] False j by (auto simp: node_ok_def count simp flip: j_def)
  qed
qed

text \<open>When all have left a construct, it is the second of the chain: they all left the ones before it earlier.\<close>

lemma last_to_leave:
  assumes ok: "chain_ok tm P S b chain free idx dn s" and p: "p \<in> P" "\<not> dn p"
    and full: "Suc (count_passed P idx dn (idx p)) = card P"
  shows "idx p = Suc b" "q \<in> P \<Longrightarrow> passed idx (dn(p := True)) (Suc b) q" "1 < length chain"
proof -
  note d = chain_okD [OF ok p(1)] and c = chain_ok_parts [OF ok]
  have all: "passed idx (dn(p := True)) (idx p) q" if "q \<in> P" for q
  proof -
    have "card {q \<in> P. passed idx (dn(p := True)) (idx p) q} = card P"
      using count_leave [where dn = dn and p = p and idx = idx and k = "idx p", OF p(2,1) d(9)] full by (simp add: count_passed_def)
    then have "{q \<in> P. passed idx (dn(p := True)) (idx p) q} = P" using d(9) by (intro card_subset_eq) auto
    then show ?thesis using that by blast
  qed
  show b: "idx p = Suc b"
  proof (rule ccontr)
    assume "idx p \<noteq> Suc b"
    then have lt: "Suc b < idx p" "1 < length chain" using leave_node(1) [OF ok p] d(2) by linarith+
    have "passed idx dn (Suc b) q" if "q \<in> P" for q using all [OF that] lt by (auto simp: passed_def)
    then have "{q \<in> P. passed idx dn (Suc b) q} = P" by blast
    then show False using c(7) [OF lt(2)] by (simp add: node_ok_def count_passed_def)
  qed
  show "q \<in> P \<Longrightarrow> passed idx (dn(p := True)) (Suc b) q" using all b by simp
  show "1 < length chain" using b d(2) by simp
qed

lemma leave_last:
  assumes ok: "chain_ok tm P S b chain free idx dn s" and p: "p \<in> P" "\<not> dn p"
    and full: "Suc (count_passed P idx dn (idx p)) = card P"
  defines "s1 \<equiv> left_ws (chain ! (idx p - b)) s"
  shows "chain_ok tm P S (Suc b) (tl chain) (if b = 0 then free else hd chain # free) idx (dn(p := True))
    (gomp_free_work_share (hd chain) s1)"
proof -
  note d = chain_okD [OF ok p(1)] and c = chain_ok_parts [OF ok] and last = last_to_leave [OF ok p full]
  have j1: "idx p - b = 1" using last(1) by simp
  have "length (tl chain) \<noteq> 0" using last(3) by simp
  then have "tl chain \<noteq> []" by force
  then have hd: "hd chain = chain ! 0" "tl chain \<noteq> []" using c(5) by (simp_all add: hd_conv_nth)
  define s' where "s' = gomp_free_work_share (hd chain) s1"
  have "0 < length chain" using c(5) by simp
  then have emb: "ws_embedded (wss s1 (hd chain)) = WS_NOT_EMBEDDED \<longleftrightarrow> 0 < b"
    using c(7) [of 0] by (simp add: node_ok_def hd(1) s1_def)
  have pool1: "ws_pool_ok free s1" using c(2) by (elim ws_pool_ok_cong) (simp_all add: s1_def)
  have h: "hd chain \<in> set chain" using c(5) by simp
  then have hdf: "hd chain \<notin> set free" "hd chain \<notin> Heap ` set (l1_heap s1)" using c(3,4) by (auto simp: s1_def)
  have pool: "ws_pool_ok (if b = 0 then free else hd chain # free) s'"
    using free_work_share_spec [OF pool1 _ hdf] emb pool1 by (cases "b = 0") (simp_all add: s'_def gomp_free_work_share_def)
  have node: "node_ok (card P) (count_passed P idx (dn(p := True))) (Suc b) (tl chain) (wss s') k" if k: "k < length (tl chain)" for k
  proof (cases k)
    case 0
    then show ?thesis using c(7) [OF last(3)] k by (auto simp: node_ok_def s'_def s1_def nth_tl j1 less_diff_conv)
  next
    case (Suc i)
    then have "node_ok (card P) (count_passed P idx (dn(p := True))) b chain (wss s1) (Suc k)"
      using leave_node(5) [OF ok p, of "Suc k"] k j1 by (simp add: s1_def)
    then show ?thesis using k Suc by (auto simp: node_ok_def s'_def nth_tl less_diff_conv)
  qed
  have cores: "passed idx (dn(p := True)) (Suc b) q \<and> idx q < Suc b + length (tl chain) \<and>
      work_share (team_pool s' ! tm) ! q = Some (tl chain ! (idx q - Suc b))" if q: "q \<in> P" for q
  proof -
    have "Suc b \<le> idx q" using last(2) [OF q] by (auto simp: passed_def)
    then show ?thesis using last(2) [OF q] chain_okD(2,8) [OF ok q] by (simp add: s'_def s1_def nth_tl Suc_diff_Suc)
  qed
  have "distinct (tl chain @ (if b = 0 then free else hd chain # free))" "set (tl chain) \<inter> Heap ` set (l1_heap s) = {}"
    "length (if b = 0 then free else hd chain # free) + length (l1_heap s) + length (tl chain) = S"
    using c(3-6) by (cases chain; auto split: if_splits)+
  moreover have "team_ok tm P s'" using c(1) by (simp add: team_ok_def s'_def s1_def)
  moreover have "\<exists>q \<in> P. Suc (idx q) = Suc b + length (tl chain)"
  proof -
    obtain q where "q \<in> P" "Suc (idx q) = b + length chain" using c(11) by blast
    then show ?thesis using last(3) by (intro bexI [of _ q]) auto
  qed
  ultimately show ?thesis unfolding chain_ok_def s'_def [symmetric] using pool hd(2) node cores by (simp add: s'_def s1_def)
qed

lemma leave_other:
  assumes ok: "chain_ok tm P S b chain free idx dn s" and p: "p \<in> P" "\<not> dn p"
    and full: "Suc (count_passed P idx dn (idx p)) \<noteq> card P"
  shows "chain_ok tm P S b chain free idx (dn(p := True)) (left_ws (chain ! (idx p - b)) s)"
proof -
  note c = chain_ok_parts [OF ok] and n = leave_node [OF ok p]
  have "\<forall>k < length chain. node_ok (card P) (count_passed P idx (dn(p := True))) b chain (wss (left_ws (chain ! (idx p - b)) s)) k"
    using n(4,5) full by auto
  moreover have "ws_pool_ok free (left_ws (chain ! (idx p - b)) s)" using c(2) by (elim ws_pool_ok_cong) simp_all
  moreover have "team_ok tm P (left_ws (chain ! (idx p - b)) s)" using c(1) by (simp add: team_ok_def)
  moreover have "\<forall>q \<in> P. passed idx (dn(p := True)) b q" using c(8) by (simp add: passed_leave p(2))
  ultimately show ?thesis using c(3-6,9-11) by (simp add: chain_ok_def)
qed

text \<open>The test of the code for the last core.\<close>

lemma leave_test:
  assumes ok: "chain_ok tm P S b chain free idx dn s" and p: "p \<in> P" "\<not> dn p"
  shows "ws_completed (wss (left_ws (chain ! (idx p - b)) s) (chain ! (idx p - b))) = team_nthreads (team_pool s ! tm) \<longleftrightarrow>
    Suc (count_passed P idx dn (idx p)) = card P"
proof -
  note d = chain_okD [OF ok p(1)] and n = leave_node [OF ok p]
  have "ws_completed (wss (left_ws (chain ! (idx p - b)) s) (chain ! (idx p - b))) = of_nat (Suc (count_passed P idx dn (idx p)))"
    using n(3) by simp
  then show ?thesis unfolding d(6) using n(4) d(10) by (simp only:) (intro of_nat_u32_eq; simp)
qed

subsection \<open>Iterations\<close>

text \<open>The iterations of a loop over a half-open interval, in order.\<close>

definition loop_count :: "int \<Rightarrow> int \<Rightarrow> int \<Rightarrow> nat" where
  "loop_count s e i = nat (- ((s - e) div i))"

definition loop_iters :: "int \<Rightarrow> int \<Rightarrow> int \<Rightarrow> int list" where
  "loop_iters s e i = map (\<lambda>j. s + int j * i) [0 ..< loop_count s e i]"

lemma loop_iters_split:
  assumes "i \<noteq> 0" "0 \<le> c" "c \<le> - ((x - e) div i)"
  shows "loop_iters x e i = loop_iters x (x + c * i) i @ loop_iters (x + c * i) e i"
proof -
  have 1: "loop_count x (x + c * i) i = nat c"
    using assms(1) nonzero_mult_div_cancel_right [of i "- c"] by (simp add: loop_count_def)
  have "(x + c * i - e) div i = c + (x - e) div i" using div_mult_self1 [OF assms(1), of "x - e" c] by (simp add: algebra_simps)
  then have 2: "loop_count x e i = nat c + loop_count (x + c * i) e i"
    using assms(2,3) by (simp add: loop_count_def)
  have "[0 ..< m + n] = [0 ..< m] @ map (\<lambda>j. m + j) [0 ..< n]" for m n
    by (simp add: upt_add_eq_append [of 0 m n, simplified] map_add_upt add.commute)
  then show ?thesis using assms(2) by (simp add: loop_iters_def 1 2 algebra_simps)
qed

lemma loop_iters_same [simp]: "loop_iters x x i = []"
  by (simp add: loop_iters_def loop_count_def)

definition between :: "int \<Rightarrow> int \<Rightarrow> int \<Rightarrow> int \<Rightarrow> bool" where
  "between i a x e \<longleftrightarrow> (if 0 < i then a \<le> x \<and> x \<le> e else e \<le> x \<and> x \<le> a)"

lemma loop_iters_Nil:
  assumes "i \<noteq> 0" "between i a x e" "loop_iters x e i = []" shows "x = e"
proof (rule ccontr)
  assume ne: "x \<noteq> e"
  have "(x - e) div i < 0"
  proof (cases "0 < i")
    case True
    then show ?thesis using assms(2) ne by (simp add: between_def pos_imp_zdiv_neg_iff)
  next
    case False
    then have "i < 0" using assms(1) by simp
    then show ?thesis using assms(2) ne by (simp add: between_def neg_imp_zdiv_neg_iff)
  qed
  then show False using assms(3) by (simp add: loop_iters_def loop_count_def)
qed

text \<open>The end of the next chunk, as \<open>gomp_iter_dynamic_next\<close> computes it.\<close>

definition chunk_end :: "int \<Rightarrow> int \<Rightarrow> int \<Rightarrow> int \<Rightarrow> int" where
  "chunk_end x e c i =
     (let chunk = i32 (c * i); left = i32 (e - x);
          chunk' = (if i < 0 then (if chunk < left then left else chunk) else (if chunk > left then left else chunk))
      in i32 (x + chunk'))"

definition int_range :: "int \<Rightarrow> bool" where "int_range x \<longleftrightarrow> - (2 ^ 31) \<le> x \<and> x < 2 ^ 31"

lemma chunk_end_spec:
  assumes i: "i \<noteq> 0" "0 < c" and b: "between i a x e" "x \<noteq> e"
    and r: "int_range (c * i)" "int_range (e - a)" "int_range a" "int_range e"
  shows "between i x (chunk_end x e c i) e" "chunk_end x e c i \<noteq> x"
    "loop_iters x e i = loop_iters x (chunk_end x e c i) i @ loop_iters (chunk_end x e c i) e i"
proof -
  define y where "y = (if (if 0 < i then e - x < c * i else c * i < e - x) then e else x + c * i)"
  have left: "int_range (e - x)" "int_range x" using b r by (auto simp: between_def int_range_def split: if_splits)
  have y: "between i x y e"
  proof (cases "0 < i")
    case True
    then have "0 < c * i" using i by simp
    then show ?thesis using True b by (auto simp: y_def between_def)
  next
    case False
    then have "c * i < 0" using i by (simp add: mult_pos_neg)
    then show ?thesis using False b by (auto simp: y_def between_def)
  qed
  have "int_range y" using y left r(4) by (auto simp: between_def int_range_def split: if_splits)
  then have eq: "chunk_end x e c i = y"
    using i left r(1) by (auto simp: chunk_end_def y_def i32_id int_range_def Let_def)
  show "between i x (chunk_end x e c i) e" using y by (simp add: eq)
  show "chunk_end x e c i \<noteq> x" using i b(2) by (simp add: eq y_def)
  show "loop_iters x e i = loop_iters x (chunk_end x e c i) i @ loop_iters (chunk_end x e c i) e i"
  proof (cases "y = e")
    case False
    then have yc: "y = x + c * i" by (simp add: y_def split: if_splits)
    have "c \<le> - ((x - e) div i)"
    proof -
      have "(x - e) div i \<le> - c"
      proof (cases "0 < i")
        case True
        then have "x - e \<le> - c * i" using yc y by (simp add: between_def)
        then show ?thesis using True by (metis zdiv_mono1 nonzero_mult_div_cancel_right less_numeral_extra(3))
      next
        case neg: False
        then have "c * i \<ge> - (x - e)" "i < 0" using yc y i by (simp_all add: between_def)
        then have "(- (x - e)) div (- i) \<le> (c * i) div (- i)" by (intro zdiv_mono1) auto
        then have "(x - e) div i \<le> (- c * i) div i" using div_minus_minus [of "x - e" i] div_minus_minus [of "- c * i" i] by simp
        then show ?thesis using i nonzero_mult_div_cancel_right [of i "- c"] by simp
      qed
      then show ?thesis by simp
    qed
    then show ?thesis using loop_iters_split [of i c x e] i by (simp add: eq yc)
  qed (simp add: eq)
qed

end
