(* ===== verification/Gomp_Region.thy ===== *)
theory Gomp_Region
  imports Gomp_Work
begin

text \<open>
  A team of cores that executes a sequence of work-sharing constructs of \<open>libgomp\<close>, each without the barrier at its end
  (\<open>nowait\<close>), in any interleaving: a core may be constructs ahead of another. \<open>gomp_step\<close> is one call of a core into the
  library, \<open>gomp_exec\<close> the run of a schedule. The properties: every iteration is handed out exactly once, no call fails as long
  as there are as many descriptors as constructs, and all descriptors but one are back in the pool when all cores are through.
\<close>

subsection \<open>A parallel region\<close>

text \<open>What the compiler makes of a work-sharing construct: enter it with the start function, fetch work until there is no more,
  leave it. A core is outside of the constructs, having left \<open>k\<close> of them, or has work from construct \<open>k\<close>, or
  was told that there is none left.\<close>

datatype construct =
    Loop int int int int  \<comment> \<open>start, end, increment, chunk size\<close>
  | Sections int
  | Single

datatype phase = Out nat | Busy nat | Drained nat

record region =
  g_data :: gomp_data_t
  g_phase :: "nat \<Rightarrow> phase"
  g_log :: "(nat \<times> int \<times> int) list"  \<comment> \<open>construct, and the half-open interval of iterations handed out\<close>

definition gomp_step :: "construct list \<Rightarrow> nat \<Rightarrow> region \<Rightarrow> region option" where
  "gomp_step prog pid r =
     (let go = (\<lambda>ph out s. r\<lparr>g_data := s, g_phase := (g_phase r)(pid := ph), g_log := g_log r @ out\<rparr>) in
      case g_phase r pid of
        Out k \<Rightarrow>
          if k \<ge> length prog then Some r
          else (case prog ! k of
            Loop a b i c \<Rightarrow> map_option (\<lambda>((ret, x, y), s). if ret then go (Busy (Suc k)) [(Suc k, x, y)] s else go (Drained (Suc k)) [] s)
                (GOMP_loop_dynamic_start a b i c pid (g_data r))
          | Sections n \<Rightarrow> map_option (\<lambda>(x, s). if x \<noteq> 0 then go (Busy (Suc k)) [(Suc k, x, x + 1)] s else go (Drained (Suc k)) [] s)
                (GOMP_sections_start n pid (g_data r))
          | Single \<Rightarrow> map_option (\<lambda>(ret, s). go (Out (Suc k)) (if ret then [(Suc k, 0, 1)] else []) s)
                (GOMP_single_start pid (g_data r)))
      | Busy k \<Rightarrow>
          (case prog ! (k - 1) of
            Loop a b i c \<Rightarrow> map_option (\<lambda>(c, s). case c of Some (x, y) \<Rightarrow> go (Busy k) [(k, x, y)] s | None \<Rightarrow> go (Drained k) [] s)
                (GOMP_loop_dynamic_next pid (g_data r))
          | _ \<Rightarrow> map_option (\<lambda>(x, s). if x \<noteq> 0 then go (Busy k) [(k, x, x + 1)] s else go (Drained k) [] s)
                (GOMP_sections_next pid (g_data r)))
      | Drained k \<Rightarrow> map_option (go (Out k) []) (gomp_work_share_end_nowait pid (g_data r)))"

fun gomp_exec :: "construct list \<Rightarrow> nat list \<Rightarrow> region \<Rightarrow> region option" where
  "gomp_exec prog [] r = Some r"
| "gomp_exec prog (p # ps) r = gomp_step prog p r \<bind> gomp_exec prog ps"

subsection \<open>Iterations of a construct\<close>

text \<open>Start, end, chunk size and increment that the work share is initialised with.\<close>

fun work_of :: "construct \<Rightarrow> int \<times> int \<times> int \<times> int" where
  "work_of (Loop a b i c) = (a, if i > 0 \<and> a > b \<or> i < 0 \<and> a < b then a else b, c, i)"
| "work_of (Sections n) = (1, n + 1, 1, 1)"
| "work_of Single = (0, 1, 1, 1)"

fun items :: "construct \<Rightarrow> int list" where
  "items (Loop a b i c) = loop_iters a b i"
| "items (Sections n) = [1 .. n]"
| "items Single = [0]"

fun construct_ok :: "construct \<Rightarrow> bool" where
  "construct_ok (Loop a b i c) \<longleftrightarrow> i \<noteq> 0 \<and> 0 < c \<and> int_range (c * i) \<and> int_range a \<and> int_range b \<and> int_range (b - a)"
| "construct_ok (Sections n) \<longleftrightarrow> 0 \<le> n \<and> n < 2 ^ 31 - 1"
| "construct_ok Single \<longleftrightarrow> True"

definition handed :: "(nat \<times> int \<times> int) list \<Rightarrow> nat \<Rightarrow> (int \<times> int) list" where
  "handed log k = map snd (filter (\<lambda>e. fst e = k) log)"

definition given :: "construct \<Rightarrow> (int \<times> int) list \<Rightarrow> int list" where
  "given con cs = concat (map (\<lambda>(x, y). loop_iters x y (snd (snd (snd (work_of con))))) cs)"

lemma handed_append [simp]: "handed (log @ log') k = handed log k @ handed log' k"
  by (simp add: handed_def)

lemma handed_here [simp]: "handed (map (Pair k') out) k = (if k = k' then out else [])" "handed [] k = []"
    "handed [(k', e)] k = (if k = k' then [e] else [])"
  by (induction out) (auto simp: handed_def)

lemma given_append [simp]: "given con (cs @ cs') = given con cs @ given con cs'" "given con [] = []"
  by (simp_all add: given_def)

lemma loop_iters_1: "loop_iters a b 1 = [a .. b - 1]"
proof (induction "nat (b - a)" arbitrary: b)
  case 0
  then show ?case by (simp add: loop_iters_def loop_count_def)
next
  case (Suc n)
  then have "loop_iters a (b - 1) 1 = [a .. b - 1 - 1]" "a \<le> b - 1" by auto
  moreover have "loop_count a b 1 = Suc (loop_count a (b - 1) 1)" "int (loop_count a (b - 1) 1) = b - 1 - a"
    using Suc(2) by (simp_all add: loop_count_def)
  ultimately show ?case by (simp add: loop_iters_def upto_rec2)
qed

lemma items_work: "construct_ok con \<Longrightarrow> work_of con = (a, e, c, i) \<Longrightarrow> items con = loop_iters a e i"
proof (cases con)
  case (Loop s b i' c')
  assume ok: "construct_ok con" and w: "work_of con = (a, e, c, i)"
  show ?thesis
  proof (cases "i > 0 \<and> s > b \<or> i < 0 \<and> s < b")
    case True
    then have "0 \<le> (s - b) div i" by (auto simp: pos_imp_zdiv_nonneg_iff neg_imp_zdiv_nonneg_iff)
    then have "loop_iters s b i = []" by (simp add: loop_iters_def loop_count_def)
    then show ?thesis using w True by (auto simp: Loop)
  qed (use w in \<open>auto simp: Loop\<close>)
qed (auto simp: loop_iters_1)

lemma work_facts:
  assumes "construct_ok con" "work_of con = (a, e, c, i)"
  shows "i \<noteq> 0" "0 < c" "int_range (c * i)" "int_range (e - a)" "int_range a" "int_range e" "between i a a e"
  using assms by (cases con; auto simp: int_range_def between_def split: if_splits)+

text \<open>What a work share says: the iterations from \<open>ws_next\<close> on are still to be handed out.\<close>

definition data_ok :: "construct \<Rightarrow> (int \<times> int) list \<Rightarrow> int \<times> int \<times> int \<times> int \<Rightarrow> bool" where
  "data_ok con cs d =
     (if con = Single then given con cs = items con
      else case (d, work_of con) of ((x, e, c, i), (a, e', c', i')) \<Rightarrow>
        e = e' \<and> c = c' \<and> i = i' \<and> between i a x e \<and> items con = given con cs @ loop_iters x e i)"

lemma data_ok_init:
  assumes "construct_ok con" "con \<noteq> Single" "work_of con = (a, e, c, i)"
  shows "data_ok con [] (a, e, c, i)"
  using assms items_work [OF assms(1,3)] work_facts(7) [OF assms(1,3)] by (simp add: data_ok_def)

lemma data_ok_next:
  assumes ok: "construct_ok con" "con \<noteq> Single" and d: "data_ok con cs (x, e, c, i)" and ne: "x \<noteq> e"
  shows "data_ok con (cs @ [(x, chunk_end x e c i)]) (chunk_end x e c i, e, c, i)" "given con cs \<noteq> items con"
    "con = Sections n \<Longrightarrow> chunk_end x e c i = x + 1 \<and> 1 \<le> x \<and> x \<le> n"
proof -
  obtain a where w: "work_of con = (a, e, c, i)" and b: "between i a x e"
    and it: "items con = given con cs @ loop_iters x e i" using d ok(2) by (auto simp: data_ok_def split: prod.splits)
  note f = work_facts [OF ok(1) w]
  note ce = chunk_end_spec [OF f(1,2) b ne f(3-6)]
  have "between i a (chunk_end x e c i) e" using ce(1) b by (auto simp: between_def split: if_splits)
  then show "data_ok con (cs @ [(x, chunk_end x e c i)]) (chunk_end x e c i, e, c, i)"
    using ok(2) w it ce(3) by (simp add: data_ok_def given_def)
  have "loop_iters x e i \<noteq> []" using loop_iters_Nil [OF f(1) b] ne by blast
  then show "given con cs \<noteq> items con" using it by simp
  assume con: "con = Sections n"
  then have "i = 1" "c = 1" "a = 1" "e = n + 1" using w by auto
  then show "chunk_end x e c i = x + 1 \<and> 1 \<le> x \<and> x \<le> n"
    using b ne ok(1) con by (auto simp: chunk_end_def between_def Let_def)
qed

lemma data_ok_done:
  assumes "con \<noteq> Single" "data_ok con cs (x, x, c, i)" shows "given con cs = items con"
  using assms by (auto simp: data_ok_def split: prod.splits)

subsection \<open>The invariant of a region\<close>

fun idx_of :: "phase \<Rightarrow> nat" where
  "idx_of (Out k) = k" | "idx_of (Busy k) = k" | "idx_of (Drained k) = k"

fun dn_of :: "phase \<Rightarrow> bool" where
  "dn_of (Out k) = True" | "dn_of (Busy k) = False" | "dn_of (Drained k) = False"

definition all_given :: "construct list \<Rightarrow> region \<Rightarrow> nat \<Rightarrow> bool" where
  "all_given prog r k \<longleftrightarrow> given (prog ! (k - 1)) (handed (g_log r) k) = items (prog ! (k - 1))"

definition told_done :: "phase \<Rightarrow> nat \<Rightarrow> bool" where
  "told_done ph k \<longleftrightarrow> idx_of ph > k \<or> ph = Out k \<or> ph = Drained k"

definition con_state :: "construct list \<Rightarrow> region \<Rightarrow> nat \<Rightarrow> ws_ptr list \<Rightarrow> nat \<Rightarrow> bool" where
  "con_state prog r b chain k \<longleftrightarrow>
     (if k < b then all_given prog r k
      else if k < b + length chain then data_ok (prog ! (k - 1)) (handed (g_log r) k) (ws_data (g_data r) (chain ! (k - b)))
      else handed (g_log r) k = [])"

definition core_state :: "construct list \<Rightarrow> region \<Rightarrow> nat \<Rightarrow> bool" where
  "core_state prog r p \<longleftrightarrow>
     (\<forall>k \<in> {1 .. length prog}. told_done (g_phase r p) k \<longrightarrow> all_given prog r k) \<and>
     (\<forall>k. g_phase r p = Busy k \<longrightarrow> prog ! (k - 1) \<noteq> Single)"

definition reg_inv :: "construct list \<Rightarrow> nat \<Rightarrow> nat set \<Rightarrow> nat \<Rightarrow> nat \<Rightarrow> ws_ptr list \<Rightarrow> ws_ptr list \<Rightarrow> region \<Rightarrow> bool" where
  "reg_inv prog tm P S b chain free r \<longleftrightarrow>
     chain_ok tm P S b chain free (\<lambda>p. idx_of (g_phase r p)) (\<lambda>p. dn_of (g_phase r p)) (g_data r) \<and>
     b + length chain \<le> Suc (length prog) \<and>
     (\<forall>k \<in> {1 .. length prog}. con_state prog r b chain k) \<and> (\<forall>p \<in> P. core_state prog r p)"

definition reg_ok :: "construct list \<Rightarrow> nat \<Rightarrow> nat set \<Rightarrow> nat \<Rightarrow> region \<Rightarrow> bool" where
  "reg_ok prog tm P S r \<longleftrightarrow> (\<exists>b chain free. reg_inv prog tm P S b chain free r)"

definition go :: "nat \<Rightarrow> phase \<Rightarrow> nat \<Rightarrow> (int \<times> int) list \<Rightarrow> gomp_data_t \<Rightarrow> region \<Rightarrow> region" where
  "go p ph k out s r = r\<lparr>g_data := s, g_phase := (g_phase r)(p := ph), g_log := g_log r @ map (Pair k) out\<rparr>"

lemma go_simps [simp]:
  "g_data (go p ph k out s r) = s" "g_phase (go p ph k out s r) = (g_phase r)(p := ph)"
  "g_log (go p ph k out s r) = g_log r @ map (Pair k) out"
  by (simp_all add: go_def)

lemma reg_invD:
  assumes "reg_inv prog tm P S b chain free r"
  shows "chain_ok tm P S b chain free (\<lambda>p. idx_of (g_phase r p)) (\<lambda>p. dn_of (g_phase r p)) (g_data r)"
    "b + length chain \<le> Suc (length prog)" "k \<in> {1 .. length prog} \<Longrightarrow> con_state prog r b chain k"
    "p \<in> P \<Longrightarrow> core_state prog r p"
  using assms by (simp_all add: reg_inv_def)

text \<open>What stays when a core makes a step in construct \<open>k0\<close>.\<close>

lemma all_given_go: "k \<noteq> k0 \<or> out = [] \<Longrightarrow> all_given prog (go p ph k0 out s r) k = all_given prog r k"
  by (auto simp: all_given_def)

lemma core_go:
  assumes "core_state prog r q" "q \<noteq> p" "out = [] \<or> \<not> all_given prog r k0"
  shows "core_state prog (go p ph k0 out s r) q"
proof -
  have "all_given prog (go p ph k0 out s r) k" if "all_given prog r k" for k
    using all_given_go [of k k0 out] assms(3) that by blast
  then show ?thesis using assms(1,2) by (auto simp: core_state_def)
qed

lemma con_go:
  assumes "con_state prog r b chain k" "k \<noteq> k0 \<or> out = []"
    and "b \<le> k \<Longrightarrow> k < b + length chain \<Longrightarrow> ws_data s (chain ! (k - b)) = ws_data (g_data r) (chain ! (k - b))"
  shows "con_state prog (go p ph k0 out s r) b chain k"
proof -
  have "handed (g_log r @ map (Pair k0) out) k = handed (g_log r) k" using assms(2) by auto
  then show ?thesis using assms all_given_go [OF assms(2)] by (cases "k < b"; cases "k < b + length chain") (auto simp: con_state_def)
qed

lemma fun_upd_comp: "(\<lambda>q. f ((g(p := y)) q)) = (\<lambda>q. f (g q))(p := f y)"
  by auto

text \<open>A core enters the next construct. If it is the first to do so, \<open>f\<close> initialises the new work share.\<close>

lemma enter_gen:
  assumes inv: "reg_inv prog tm P S b chain free r" and p: "p \<in> P" "g_phase r p = Out k" "k < length prog" "length prog \<le> S"
  obtains new w s1 where "gomp_work_share_start p (g_data r) = Some (new, w, s1)"
    "\<And>f. (\<And>d. same_links d (f d)) \<Longrightarrow> CURR_WS p (upd_ws w f s1) = Some w"
    "\<not> new \<Longrightarrow> data_ok (prog ! k) (handed (g_log r) (Suc k)) (ws_data s1 w)" "new \<Longrightarrow> handed (g_log r) (Suc k) = []"
    "\<And>f ph out. \<lbrakk>\<And>d. same_links d (f d); ph = Busy (Suc k) \<and> prog ! k \<noteq> Single \<or> ph = Drained (Suc k) \<and> prog ! k = Single;
        if new then data_ok (prog ! k) out (ws_data (upd_ws w f s1) w) else upd_ws w f s1 = s1 \<and> out = []; out \<noteq> [] \<Longrightarrow> prog ! k = Single\<rbrakk>
      \<Longrightarrow> reg_ok prog tm P S (go p ph (Suc k) out (upd_ws w f s1) r)"
proof -
  let ?idx = "\<lambda>q. idx_of (g_phase r q)" and ?dn = "\<lambda>q. dn_of (g_phase r q)"
  note i = reg_invD [OF inv]
  note d = chain_okD [OF i(1) p(1)]
  have idx: "?idx p = k" "?dn p" using p(2) by simp_all
  have spare: "b + length chain \<le> S" if "Suc (?idx p) = b + length chain" using that p(3,4) idx by simp
  obtain w chain' free' s1 where e: "gomp_work_share_start p (g_data r) = Some (Suc (?idx p) = b + length chain, w, s1)"
    "chain_ok tm P S b chain' free' (?idx(p := Suc (?idx p))) (?dn(p := False)) s1"
    "chain' = (if Suc (?idx p) = b + length chain then chain @ [w] else chain)" "w = chain' ! (Suc (?idx p) - b)"
    "\<forall>x \<in> set chain. ws_data s1 x = ws_data (g_data r) x"
    by (rule enter [OF i(1) p(1) idx(2) spare])
  define new where "new \<longleftrightarrow> Suc k = b + length chain"
  note e = e [unfolded idx(1), folded new_def]
  have kb: "b \<le> Suc k" "Suc k \<in> {1 .. length prog}" "Suc k < b + length chain'" "length chain' = (if new then Suc (length chain) else length chain)"
    using d(1,2) idx(1) p(3) e(3) new_def by (auto split: if_splits)
  have dist: "distinct chain'" using chain_ok_parts(3) [OF e(2)] by simp
  have old: "con_state prog r b chain (Suc k)" using i(3) [OF kb(2)] .
  have fresh: "new \<Longrightarrow> handed (g_log r) (Suc k) = []"
    using old by (simp add: con_state_def new_def)
  have seen: "data_ok (prog ! k) (handed (g_log r) (Suc k)) (ws_data s1 w)" if "\<not> new"
    using old that kb e(3-5) by (auto simp: con_state_def)
  have state: "reg_inv prog tm P S b chain' free' (go p ph (Suc k) out (upd_ws w f s1) r)"
    if f: "\<And>d. same_links d (f d)" and ph: "ph = Busy (Suc k) \<and> prog ! k \<noteq> Single \<or> ph = Drained (Suc k) \<and> prog ! k = Single"
      and out: "if new then data_ok (prog ! k) out (ws_data (upd_ws w f s1) w) else upd_ws w f s1 = s1 \<and> out = []"
      and single: "out \<noteq> [] \<Longrightarrow> prog ! k = Single" for f ph out
  proof -
    let ?r = "go p ph (Suc k) out (upd_ws w f s1) r"
    have phs: "idx_of ph = Suc k" "\<not> dn_of ph" using ph by auto
    have same: "all_given prog ?r k' = all_given prog r k'" if "k' \<noteq> Suc k" for k' using that by (simp add: all_given_def)
    have here: "data_ok (prog ! k) (handed (g_log ?r) (Suc k)) (ws_data (g_data ?r) w)"
      using out fresh seen by (cases new) simp_all
    have con: "con_state prog ?r b chain' k'" if k': "k' \<in> {1 .. length prog}" for k'
    proof (cases "k' = Suc k")
      case True
      then show ?thesis using here kb e(4) by (simp add: con_state_def)
    next
      case False
      have eq: "handed (g_log ?r) k' = handed (g_log r) k'" using False by simp
      show ?thesis
      proof (cases "b \<le> k' \<and> k' < b + length chain")
        case True
        then have "k' - b < length chain" by linarith
        then have x: "chain' ! (k' - b) = chain ! (k' - b)" "chain ! (k' - b) \<in> set chain" using e(3) by (simp_all add: nth_append)
        have "k' - b \<noteq> Suc k - b" "k' - b < length chain'" "Suc k - b < length chain'" using False True kb by (auto split: if_splits)
        then have "chain' ! (k' - b) \<noteq> w" unfolding e(4) using nth_eq_iff_index_eq [OF dist] by blast
        then have "ws_data (g_data ?r) (chain' ! (k' - b)) = ws_data (g_data r) (chain ! (k' - b))"
          using e(5) x by (simp add: ws_data_def upd_ws_def)
        then show ?thesis using i(3) [OF k'] True kb(4) eq by (simp add: con_state_def)
      next
        case out: False
        then have "k' < b \<or> b + length chain' \<le> k'" using False kb(4) new_def by (auto split: if_splits)
        then show ?thesis using i(3) [OF k'] out eq same [OF False] kb(4) by (auto simp: con_state_def split: if_splits)
      qed
    qed
    have keep: "out = [] \<or> \<not> all_given prog r (Suc k)"
      using out fresh single by (cases new) (auto simp: all_given_def)
    have core: "core_state prog ?r q" if q: "q \<in> P" for q
    proof (cases "q = p")
      case True
      have "all_given prog ?r k'" if k': "k' \<in> {1 .. length prog}" and t: "told_done ph k'" for k'
      proof (cases "k' = Suc k")
        case True
        then have "prog ! k = Single" using t ph by (auto simp: told_done_def)
        then show ?thesis using here True by (simp add: all_given_def data_ok_def)
      next
        case False
        then have "told_done (g_phase r p) k'" using t phs(1) ph p(2) by (auto simp: told_done_def)
        then show ?thesis using i(4) [OF p(1)] k' same [OF False] by (auto simp: core_state_def)
      qed
      then show ?thesis using True ph by (auto simp: core_state_def)
    qed (use core_go [OF i(4) [OF q] _ keep] in simp)
    have "chain_ok tm P S b chain' free' (\<lambda>q. idx_of (g_phase ?r q)) (\<lambda>q. dn_of (g_phase ?r q)) (g_data ?r)"
    proof -
      have "(\<lambda>q. idx_of (g_phase ?r q)) = ?idx(p := Suc k)" "(\<lambda>q. dn_of (g_phase ?r q)) = ?dn(p := False)" using phs by auto
      then show ?thesis using chain_ok_data [OF e(2) f] by (simp only: go_simps)
    qed
    moreover have "b + length chain' \<le> Suc (length prog)" using kb(4) i(2) p(3) new_def by (auto split: if_splits)
    ultimately show ?thesis using con core by (simp add: reg_inv_def)
  qed
  show thesis
  proof (rule that [OF e(1) _ seen fresh])
    fix f assume "\<And>d. same_links d (f d)"
    then show "CURR_WS p (upd_ws w f s1) = Some w"
      using chain_ok_CURR_WS [OF chain_ok_data [OF e(2)] p(1)] e(4) by simp
  next
    fix f ph out
    assume "\<And>d. same_links d (f d)" "ph = Busy (Suc k) \<and> prog ! k \<noteq> Single \<or> ph = Drained (Suc k) \<and> prog ! k = Single"
      "if new then data_ok (prog ! k) out (ws_data (upd_ws w f s1) w) else upd_ws w f s1 = s1 \<and> out = []"
      "out \<noteq> [] \<Longrightarrow> prog ! k = Single"
    from state [OF this] show "reg_ok prog tm P S (go p ph (Suc k) out (upd_ws w f s1) r)" unfolding reg_ok_def by blast
  qed
qed

text \<open>A core that is in a construct fetches work, or is told that there is none left.\<close>

lemma reg_range:
  assumes inv: "reg_inv prog tm P S b chain free r" and p: "p \<in> P" "\<not> dn_of (g_phase r p)"
  shows "b < idx_of (g_phase r p)" "idx_of (g_phase r p) \<in> {1 .. length prog}"
    "idx_of (g_phase r p) < b + length chain"
  using leave_node(1) [OF reg_invD(1) [OF inv] p(1)] p(2) chain_ok_parts(9) [OF reg_invD(1) [OF inv] p(1)] reg_invD(2) [OF inv]
  by auto

lemma same_phase:
  assumes "idx_of ph = idx_of (g_phase r p)" "dn_of ph = dn_of (g_phase r p)"
  shows "(\<lambda>q. idx_of (((g_phase r)(p := ph)) q)) = (\<lambda>q. idx_of (g_phase r q))"
    "(\<lambda>q. dn_of (((g_phase r)(p := ph)) q)) = (\<lambda>q. dn_of (g_phase r q))"
  using assms by auto

lemma take_gen:
  assumes inv: "reg_inv prog tm P S b chain free r" and p: "p \<in> P" "g_phase r p = Busy k" and ok: "\<forall>con \<in> set prog. construct_ok con"
  obtains w x e c i where "CURR_WS p (g_data r) = Some w" "ws_data (g_data r) w = (x, e, c, i)" "prog ! (k - 1) \<noteq> Single"
    "k \<in> {1 .. length prog}" "data_ok (prog ! (k - 1)) (handed (g_log r) k) (x, e, c, i)"
    "x = e \<Longrightarrow> reg_ok prog tm P S (go p (Drained k) k [] (g_data r) r)"
    "x \<noteq> e \<Longrightarrow> reg_ok prog tm P S (go p (Busy k) k [(x, chunk_end x e c i)]
       (upd_ws w (\<lambda>d. d\<lparr>ws_next := chunk_end x e c i\<rparr>) (g_data r)) r)"
proof -
  define w where "w = chain ! (k - b)"
  obtain x e c i where d: "ws_data (g_data r) w = (x, e, c, i)" by (metis prod_cases4)
  have k: "b < k" "k \<in> {1 .. length prog}" "k < b + length chain" using reg_range [OF inv p(1)] p(2) by auto
  have con: "prog ! (k - 1) \<noteq> Single" using reg_invD(4) [OF inv p(1)] p(2) by (simp add: core_state_def)
  have "k - 1 < length prog" using k(2) by auto
  then have cok: "construct_ok (prog ! (k - 1))" using ok by simp
  have data: "data_ok (prog ! (k - 1)) (handed (g_log r) k) (x, e, c, i)"
    using reg_invD(3) [OF inv k(2)] k d by (simp add: con_state_def w_def)
  have cur: "CURR_WS p (g_data r) = Some w" using chain_ok_CURR_WS [OF reg_invD(1) [OF inv] p(1)] p(2) by (simp add: w_def)
  show thesis
  proof (rule that [OF cur d con k(2) data])
    assume xe: "x = e"
    have complete: "all_given prog r k" using data_ok_done [OF con] data xe by (auto simp: all_given_def)
    let ?r = "go p (Drained k) k [] (g_data r) r"
    have "core_state prog ?r q" if q: "q \<in> P" for q
    proof (cases "q = p")
      case True
      have "all_given prog r k'" if "k' \<in> {1 .. length prog}" "told_done (Drained k) k'" for k'
        using that complete reg_invD(4) [OF inv p(1)] p(2) by (cases "k' = k") (auto simp: told_done_def core_state_def)
      then show ?thesis using True all_given_go [of _ k "[]"] by (auto simp: core_state_def)
    qed (use core_go [OF reg_invD(4) [OF inv q]] in simp)
    moreover have "con_state prog ?r b chain k'" if "k' \<in> {1 .. length prog}" for k'
      using con_go [OF reg_invD(3) [OF inv that]] by simp
    ultimately have "reg_inv prog tm P S b chain free ?r"
      using reg_invD(1,2) [OF inv] same_phase [of "Drained k" r p] p(2) by (simp add: reg_inv_def del: fun_upd_apply)
    then show "reg_ok prog tm P S ?r" by (auto simp: reg_ok_def)
  next
    assume xe: "x \<noteq> e"
    define y where "y = chunk_end x e c i"
    note n = data_ok_next [OF cok con data xe]
    let ?s = "upd_ws w (\<lambda>d. d\<lparr>ws_next := y\<rparr>) (g_data r)"
    let ?r = "go p (Busy k) k [(x, y)] ?s r"
    have "core_state prog ?r q" if q: "q \<in> P" for q
    proof (cases "q = p")
      case True
      then show ?thesis using reg_invD(4) [OF inv p(1)] p(2) all_given_go [of _ k "[(x, y)]"]
        by (auto simp: core_state_def told_done_def)
    qed (use core_go [OF reg_invD(4) [OF inv q]] n(2) in \<open>simp add: all_given_def\<close>)
    moreover have "con_state prog ?r b chain k'" if k': "k' \<in> {1 .. length prog}" for k'
    proof (cases "k' = k")
      case True
      have "ws_data ?s w = (y, e, c, i)" using d by (simp add: ws_data_def upd_ws_def)
      then show ?thesis using True k n(1) by (simp add: con_state_def w_def y_def)
    next
      case False
      have dist: "distinct chain" using chain_ok_parts(3) [OF reg_invD(1) [OF inv]] by simp
      have "chain ! (k' - b) \<noteq> w" if "b \<le> k'" "k' < b + length chain"
        using that False k nth_eq_iff_index_eq [OF dist, of "k' - b" "k - b"] by (auto simp: w_def)
      then show ?thesis by (intro con_go [OF reg_invD(3) [OF inv k']]) (use False in \<open>auto simp: ws_data_def upd_ws_def\<close>)
    qed
    moreover have "chain_ok tm P S b chain free (\<lambda>p. idx_of (g_phase r p)) (\<lambda>p. dn_of (g_phase r p)) ?s"
      using reg_invD(1) [OF inv] by (rule chain_ok_data) (simp add: same_links_def)
    ultimately have "reg_inv prog tm P S b chain free ?r"
      using reg_invD(2) [OF inv] same_phase [of "Busy k" r p] p(2) by (simp add: reg_inv_def del: fun_upd_apply)
    then show "reg_ok prog tm P S (go p (Busy k) k [(x, chunk_end x e c i)] (upd_ws w (\<lambda>d. d\<lparr>ws_next := chunk_end x e c i\<rparr>) (g_data r)) r)"
      by (auto simp: reg_ok_def y_def)
  qed
qed

text \<open>A core that was told that there is no work left leaves the construct.\<close>

lemma end_nowait_eq:
  assumes ok: "chain_ok tm P S b chain free idx dn s" and p: "p \<in> P" "\<not> dn p"
  defines "w \<equiv> chain ! (idx p - b)"
  shows "gomp_work_share_end_nowait p s =
    Some (if Suc (count_passed P idx dn (idx p)) = card P then gomp_free_work_share (hd chain) (left_ws w s) else left_ws w s)"
    "Suc (count_passed P idx dn (idx p)) = card P \<Longrightarrow> prev_ws (wss s w) = Some (hd chain) \<and> hd chain \<noteq> w"
proof -
  note d = chain_okD [OF ok p(1)] and t = leave_test [OF ok p] and c = chain_ok_parts [OF ok]
  have prev: "prev_ws (wss s w) = Some (hd chain) \<and> hd chain \<noteq> w" if full: "Suc (count_passed P idx dn (idx p)) = card P"
    using leave_node(2) [OF ok p] last_to_leave(1,3) [OF ok p full] hd_conv_nth [OF c(5)] c(3)
      nth_eq_iff_index_eq [of chain 0 1] c(5)
    by (auto simp: w_def)
  then show "Suc (count_passed P idx dn (idx p)) = card P \<Longrightarrow> prev_ws (wss s w) = Some (hd chain) \<and> hd chain \<noteq> w" .
  have "gomp_get_curr_team p s = Some tm" using d(5) by (simp add: gomp_get_curr_team_def)
  moreover have "work_share (team_pool s ! tm) ! p = Some w" using d(8) by (simp add: w_def)
  ultimately show "gomp_work_share_end_nowait p s =
      Some (if Suc (count_passed P idx dn (idx p)) = card P then gomp_free_work_share (hd chain) (left_ws w s) else left_ws w s)"
    using t prev unfolding gomp_work_share_end_nowait_def left_ws_def [symmetric] w_def [symmetric]
    by (auto simp: Let_def left_ws_def [symmetric])
qed

lemma leave_gen:
  assumes inv: "reg_inv prog tm P S b chain free r" and p: "p \<in> P" "g_phase r p = Drained k"
  obtains s' where "gomp_work_share_end_nowait p (g_data r) = Some s'" "reg_ok prog tm P S (go p (Out k) k [] s' r)"
proof -
  let ?idx = "\<lambda>q. idx_of (g_phase r q)" and ?dn = "\<lambda>q. dn_of (g_phase r q)"
  define w where "w = chain ! (k - b)"
  note ok = reg_invD(1) [OF inv]
  have ph: "?idx p = k" "\<not> ?dn p" using p(2) by simp_all
  note n = end_nowait_eq [OF ok p(1) ph(2), unfolded ph(1), folded w_def]
  have dn: "(\<lambda>q. idx_of (((g_phase r)(p := Out k)) q)) = ?idx" "(\<lambda>q. dn_of (((g_phase r)(p := Out k)) q)) = ?dn(p := True)"
    using ph by auto
  have core: "core_state prog (go p (Out k) k [] s' r) q" if q: "q \<in> P" for q s'
  proof (cases "q = p")
    case True
    have "told_done (Out k) k' \<longleftrightarrow> told_done (g_phase r p) k'" for k' using p(2) by (auto simp: told_done_def)
    then show ?thesis using True reg_invD(4) [OF inv p(1)] all_given_go [of _ k "[]"] by (auto simp: core_state_def)
  qed (use core_go [OF reg_invD(4) [OF inv q]] in simp)
  show thesis
  proof (cases "Suc (count_passed P ?idx ?dn k) = card P")
    case True
    note full = True [folded ph(1)]
    define s' where "s' = gomp_free_work_share (hd chain) (left_ws w (g_data r))"
    have kb: "k = Suc b" "1 < length chain" using last_to_leave(1,3) [OF ok p(1) ph(2) full] ph(1) by auto
    have data: "ws_data s' = ws_data (g_data r)" by (simp add: s'_def)
    have "con_state prog (go p (Out k) k [] s' r) (Suc b) (tl chain) k'" if k': "k' \<in> {1 .. length prog}" for k'
    proof (cases "k' = b")
      case True
      then have "all_given prog r k'" using reg_invD(4) [OF inv p(1)] k' p(2) kb(1) by (auto simp: core_state_def told_done_def)
      then show ?thesis using True all_given_go [of k' k "[]"] by (simp add: con_state_def)
    next
      case False
      have "tl chain ! (k' - Suc b) = chain ! (k' - b)" if "b < k'" "k' < b + length chain"
        using that by (simp add: nth_tl Suc_diff_Suc)
      then show ?thesis using reg_invD(3) [OF inv k'] False all_given_go [of k' k "[]"] kb(2)
        by (auto simp: con_state_def data split: if_splits)
    qed
    moreover have "chain_ok tm P S (Suc b) (tl chain) (if b = 0 then free else hd chain # free) ?idx (?dn(p := True)) s'"
      using leave_last [OF ok p(1) ph(2) full] unfolding ph(1) by (simp add: s'_def w_def)
    ultimately have "reg_inv prog tm P S (Suc b) (tl chain) (if b = 0 then free else hd chain # free) (go p (Out k) k [] s' r)"
      using reg_invD(2) [OF inv] kb(2) core unfolding reg_inv_def by (simp only: go_simps dn) auto
    then show thesis using that n(1) True by (auto simp: reg_ok_def s'_def)
  next
    case False
    define s' where "s' = left_ws w (g_data r)"
    have "chain_ok tm P S b chain free ?idx (?dn(p := True)) s'"
      using leave_other [OF ok p(1) ph(2)] False unfolding ph(1) by (simp add: s'_def w_def)
    moreover have "con_state prog (go p (Out k) k [] s' r) b chain k'" if "k' \<in> {1 .. length prog}" for k'
      using con_go [OF reg_invD(3) [OF inv that]] by (simp add: s'_def)
    ultimately have "reg_inv prog tm P S b chain free (go p (Out k) k [] s' r)"
      using reg_invD(2) [OF inv] core unfolding reg_inv_def by (simp only: go_simps dn) auto
    then show thesis using that n(1) False by (auto simp: reg_ok_def s'_def)
  qed
qed

subsection \<open>The calls into the library\<close>

lemma iter_next_eq:
  "ws_data s w = (x, e, c, i) \<Longrightarrow> gomp_iter_dynamic_next w s =
     (if x = e then (None, s) else (Some (x, chunk_end x e c i), upd_ws w (\<lambda>d. d\<lparr>ws_next := chunk_end x e c i\<rparr>) s))"
  by (auto simp: gomp_iter_dynamic_next_def ws_data_def chunk_end_def Let_def)

lemma loop_start_eq:
  assumes "gomp_work_share_start p s = Some (new, w, s1)" "s2 = (if new then gomp_loop_init w a b i c s1 else s1)"
    and "ws_data s2 w = (x, e, c, i)"
  shows "GOMP_loop_dynamic_start a b i c p s =
     Some (if x = e then ((False, x, b), s2) else ((True, x, chunk_end x e c i), upd_ws w (\<lambda>d. d\<lparr>ws_next := chunk_end x e c i\<rparr>) s2))"
  using assms by (auto simp: GOMP_loop_dynamic_start_def ws_data_def chunk_end_def Let_def)

lemma sections_start_eq:
  assumes "gomp_work_share_start p s = Some (new, w, s1)" "s2 = (if new then gomp_sections_init w n s1 else s1)"
    and "ws_data s2 w = (x, e, c, i)" "x \<noteq> e \<Longrightarrow> chunk_end x e c i = x + 1 \<and> 1 \<le> x \<and> x < 2 ^ 31 - 1"
  shows "GOMP_sections_start n p s =
     Some (if x = e then (0, s2) else (x, upd_ws w (\<lambda>d. d\<lparr>ws_next := chunk_end x e c i\<rparr>) s2))"
proof -
  have d: "ws_next (wss s2 w) = x" "ws_end (wss s2 w) = e" using assms(3) by (simp_all add: ws_data_def)
  have "x \<noteq> e \<Longrightarrow> i32 (x + 1) = chunk_end x e c i" using assms(4) by simp
  then show ?thesis using d by (simp add: GOMP_sections_start_def assms(1) Let_def upd_ws_def flip: assms(2))
qed

lemma single_eq:
  assumes start: "gomp_work_share_start p s = Some (new, w, s1)" and ok: "chain_ok tm P S b chain free idx dn s1"
    and p: "p \<in> P" "\<not> dn p" and w: "CURR_WS p s1 = Some w" and cur: "gomp_get_curr_team p s = Some tm"
    and leave: "gomp_work_share_end_nowait p s1 = Some s'"
  shows "\<exists>f. (\<forall>d. \<exists>z. f d = d\<lparr>ws_checkfirst := z\<rparr>) \<and> GOMP_single_start p s = Some (new, upd_ws w f s')"
proof -
  have wc: "w = chain ! (idx p - b)" using w chain_ok_CURR_WS [OF ok p(1)] by simp
  note n = end_nowait_eq [OF ok p, folded wc] and t = leave_test [OF ok p, folded wc] and d = chain_okD [OF ok p(1)]
  let ?chk = "\<lambda>d. d\<lparr>ws_checkfirst := WS_NOT_INITED\<rparr>"
  show ?thesis
  proof (cases "Suc (count_passed P idx dn (idx p)) = card P")
    case True
    have "gomp_free_work_share (hd chain) (upd_ws w ?chk (left_ws w s1)) = upd_ws w ?chk (gomp_free_work_share (hd chain) (left_ws w s1))"
      using n(2) [OF True] by (auto simp: gomp_free_work_share_def gomp_push_ws_pool_def upd_ws_def fun_upd_twist)
    then have "GOMP_single_start p s = Some (new, upd_ws w ?chk s')"
      using start cur t n True leave
      by (simp add: GOMP_single_start_def Let_def flip: left_ws_def) (simp add: upd_ws_def)
    then show ?thesis by blast
  next
    case False
    then have "GOMP_single_start p s = Some (new, upd_ws w (\<lambda>d. d\<lparr>ws_checkfirst := ws_checkfirst d\<rparr>) s')"
      using start cur t n leave by (simp add: GOMP_single_start_def Let_def upd_ws_def flip: left_ws_def)
    then show ?thesis by (intro exI [of _ "\<lambda>d. d\<lparr>ws_checkfirst := ws_checkfirst d\<rparr>"]) blast
  qed
qed

lemma reg_ok_checkfirst:
  assumes "reg_ok prog tm P S (go p ph k out s r)" "\<forall>d. \<exists>z. f d = d\<lparr>ws_checkfirst := z\<rparr>"
  shows "reg_ok prog tm P S (go p ph k out (upd_ws w f s) r)"
proof -
  obtain b chain free where inv: "reg_inv prog tm P S b chain free (go p ph k out s r)" using assms(1) by (auto simp: reg_ok_def)
  have f: "same_links d (f d)" for d using assms(2) [rule_format, of d] by (auto simp: same_links_def)
  have data: "ws_data (upd_ws w f s) = ws_data s"
  proof -
    obtain z where "f (wss s w) = (wss s w)\<lparr>ws_checkfirst := z\<rparr>" using assms(2) by blast
    then show ?thesis by (auto simp: ws_data_def upd_ws_def fun_eq_iff)
  qed
  have "con_state prog (go p ph k out (upd_ws w f s) r) b chain k' = con_state prog (go p ph k out s r) b chain k'"
    "core_state prog (go p ph k out (upd_ws w f s) r) q = core_state prog (go p ph k out s r) q" for k' q
    by (simp_all add: con_state_def core_state_def all_given_def data)
  then have "reg_inv prog tm P S b chain free (go p ph k out (upd_ws w f s) r)"
    using inv chain_ok_data [OF reg_invD(1) [OF inv, unfolded go_simps] f] by (simp add: reg_inv_def)
  then show ?thesis by (auto simp: reg_ok_def)
qed

lemma upd_ws_id [simp]: "upd_ws w (\<lambda>d. d) s = s"
  by (simp add: upd_ws_def)

lemma go_go [simp]: "go p ph k out s (go p ph' k [] s' r) = go p ph k out s r"
  by (simp add: go_def)

text \<open>The start function of a loop or of sections: enter the construct, then fetch work.\<close>

lemma enter_fetch:
  assumes ok: "reg_ok prog tm P S r" and p: "p \<in> P" "g_phase r p = Out k" "k < length prog" "length prog \<le> S"
    and con: "\<forall>con \<in> set prog. construct_ok con" "prog ! k \<noteq> Single"
    and ini: "\<And>d. same_links d (ini d)" "\<And>d. (ws_next (ini d), ws_end (ini d), ws_chunk_size (ini d), ws_incr (ini d)) = work_of (prog ! k)"
    and I: "\<And>w s. I w s = upd_ws w ini s"
  obtains new w s1 s2 x e c i cs where "gomp_work_share_start p (g_data r) = Some (new, w, s1)"
    "s2 = (if new then I w s1 else s1)" "ws_data s2 w = (x, e, c, i)" "data_ok (prog ! k) cs (x, e, c, i)"
    "x = e \<Longrightarrow> reg_ok prog tm P S (go p (Drained (Suc k)) (Suc k) [] s2 r)"
    "x \<noteq> e \<Longrightarrow> reg_ok prog tm P S (go p (Busy (Suc k)) (Suc k) [(x, chunk_end x e c i)] (upd_ws w (\<lambda>d. d\<lparr>ws_next := chunk_end x e c i\<rparr>) s2) r)"
proof -
  obtain b chain free where inv: "reg_inv prog tm P S b chain free r" using ok by (auto simp: reg_ok_def)
  obtain new w s1 where e: "gomp_work_share_start p (g_data r) = Some (new, w, s1)"
    "\<And>f. (\<And>d. same_links d (f d)) \<Longrightarrow> CURR_WS p (upd_ws w f s1) = Some w"
    "\<not> new \<Longrightarrow> data_ok (prog ! k) (handed (g_log r) (Suc k)) (ws_data s1 w)" "new \<Longrightarrow> handed (g_log r) (Suc k) = []"
    "\<And>f ph out. \<lbrakk>\<And>d. same_links d (f d); ph = Busy (Suc k) \<and> prog ! k \<noteq> Single \<or> ph = Drained (Suc k) \<and> prog ! k = Single;
        if new then data_ok (prog ! k) out (ws_data (upd_ws w f s1) w) else upd_ws w f s1 = s1 \<and> out = []; out \<noteq> [] \<Longrightarrow> prog ! k = Single\<rbrakk>
      \<Longrightarrow> reg_ok prog tm P S (go p ph (Suc k) out (upd_ws w f s1) r)"
    by (rule enter_gen [OF inv p]) blast
  define f where "f = (if new then ini else (\<lambda>d. d))"
  have f: "same_links d (f d)" for d using ini(1) by (simp add: f_def same_links_def)
  define s2 where "s2 = upd_ws w f s1"
  have s2: "s2 = (if new then I w s1 else s1)" by (simp add: s2_def f_def I)
  obtain a0 e0 c0 i0 where w0: "work_of (prog ! k) = (a0, e0, c0, i0)" by (metis prod_cases4)
  have "construct_ok (prog ! k)" using con(1) p(3) by simp
  then have "data_ok (prog ! k) [] (a0, e0, c0, i0)" using data_ok_init con(2) w0 by blast
  then have data: "if new then data_ok (prog ! k) [] (ws_data s2 w) else s2 = s1 \<and> [] = ([] :: (int \<times> int) list)"
    using ini(2) [of "wss s1 w"] w0 by (simp add: s2_def f_def ws_data_def upd_ws_def)
  have r1: "reg_ok prog tm P S (go p (Busy (Suc k)) (Suc k) [] s2 r)"
    using e(5) [of f "Busy (Suc k)" "[]", folded s2_def, OF f _ data] con(2) by blast
  then obtain b1 chain1 free1 where inv1: "reg_inv prog tm P S b1 chain1 free1 (go p (Busy (Suc k)) (Suc k) [] s2 r)"
    by (auto simp: reg_ok_def)
  let ?r1 = "go p (Busy (Suc k)) (Suc k) [] s2 r"
  have ph1: "g_phase ?r1 p = Busy (Suc k)" by simp
  obtain w' x e' c i where t: "CURR_WS p (g_data ?r1) = Some w'" "ws_data (g_data ?r1) w' = (x, e', c, i)"
    "data_ok (prog ! (Suc k - 1)) (handed (g_log ?r1) (Suc k)) (x, e', c, i)"
    "x = e' \<Longrightarrow> reg_ok prog tm P S (go p (Drained (Suc k)) (Suc k) [] (g_data ?r1) ?r1)"
    "x \<noteq> e' \<Longrightarrow> reg_ok prog tm P S (go p (Busy (Suc k)) (Suc k) [(x, chunk_end x e' c i)]
       (upd_ws w' (\<lambda>d. d\<lparr>ws_next := chunk_end x e' c i\<rparr>) (g_data ?r1)) ?r1)"
    by (rule take_gen [OF inv1 p(1) ph1 con(1)]) blast
  note t = t [unfolded go_simps(1) go_go diff_Suc_1]
  have "w' = w" using t(1) e(2) [of f] f by (simp add: s2_def)
  then show thesis using that [OF e(1) s2] t by blast
qed

lemma single_step:
  assumes ok: "reg_ok prog tm P S r" and p: "p \<in> P" "g_phase r p = Out k" "k < length prog" "length prog \<le> S"
    and con: "prog ! k = Single"
  obtains ret s2 where "GOMP_single_start p (g_data r) = Some (ret, s2)"
    "reg_ok prog tm P S (go p (Out (Suc k)) (Suc k) (if ret then [(0, 1)] else []) s2 r)"
proof -
  obtain b chain free where inv: "reg_inv prog tm P S b chain free r" using ok by (auto simp: reg_ok_def)
  obtain new w s1 where e: "gomp_work_share_start p (g_data r) = Some (new, w, s1)"
    "\<And>f. (\<And>d. same_links d (f d)) \<Longrightarrow> CURR_WS p (upd_ws w f s1) = Some w"
    "\<not> new \<Longrightarrow> data_ok (prog ! k) (handed (g_log r) (Suc k)) (ws_data s1 w)" "new \<Longrightarrow> handed (g_log r) (Suc k) = []"
    "\<And>f ph out. \<lbrakk>\<And>d. same_links d (f d); ph = Busy (Suc k) \<and> prog ! k \<noteq> Single \<or> ph = Drained (Suc k) \<and> prog ! k = Single;
        if new then data_ok (prog ! k) out (ws_data (upd_ws w f s1) w) else upd_ws w f s1 = s1 \<and> out = []; out \<noteq> [] \<Longrightarrow> prog ! k = Single\<rbrakk>
      \<Longrightarrow> reg_ok prog tm P S (go p ph (Suc k) out (upd_ws w f s1) r)"
    by (rule enter_gen [OF inv p]) blast
  define out :: "(int \<times> int) list" where "out = (if new then [(0, 1)] else [])"
  let ?r = "go p (Drained (Suc k)) (Suc k) out s1 r"
  have "given Single [(0, 1)] = [0]" by (simp add: given_def loop_iters_1)
  then have "reg_ok prog tm P S ?r"
    using e(5) [of "\<lambda>d. d" "Drained (Suc k)" out] con by (auto simp: out_def data_ok_def same_links_def)
  then obtain b1 chain1 free1 where inv1: "reg_inv prog tm P S b1 chain1 free1 ?r" by (auto simp: reg_ok_def)
  obtain s' where s': "gomp_work_share_end_nowait p s1 = Some s'" "reg_ok prog tm P S (go p (Out (Suc k)) (Suc k) [] s' ?r)"
    using leave_gen [OF inv1 p(1), of "Suc k"] by auto
  have "CURR_WS p s1 = Some w" using e(2) [of "\<lambda>d. d"] by (simp add: same_links_def)
  moreover have "gomp_get_curr_team p (g_data r) = Some tm"
    using chain_okD(5) [OF reg_invD(1) [OF inv] p(1)] by (simp add: gomp_get_curr_team_def)
  ultimately obtain f where f: "\<forall>d. \<exists>z. f d = d\<lparr>ws_checkfirst := z\<rparr>" "GOMP_single_start p (g_data r) = Some (new, upd_ws w f s')"
    using single_eq [OF e(1) reg_invD(1) [OF inv1, unfolded go_simps] p(1) _ _ _ s'(1)] by auto
  have eq: "go p (Out (Suc k)) (Suc k) [] s'' ?r = go p (Out (Suc k)) (Suc k) out s'' r" for s'' by (simp add: go_def)
  have "reg_ok prog tm P S (go p (Out (Suc k)) (Suc k) out (upd_ws w f s') r)"
    using reg_ok_checkfirst [OF s'(2) f(1), of w] unfolding eq .
  then show thesis using that [OF f(2)] by (simp add: out_def)
qed

subsection \<open>Steps and runs\<close>

fun rank :: "phase \<Rightarrow> nat" where
  "rank (Out k) = 3 * k" | "rank (Busy k) = 3 * k - 2" | "rank (Drained k) = 3 * k - 1"

text \<open>Each step of a core that is not through yet either brings it further or hands out an iteration.\<close>

definition step_from :: "construct list \<Rightarrow> nat \<Rightarrow> region \<Rightarrow> region \<Rightarrow> bool" where
  "step_from prog p r r' \<longleftrightarrow>
     (\<exists>k ph out s. r' = go p ph k out s r \<and> k \<in> {1 .. length prog} \<and> rank (g_phase r p) \<le> rank ph \<and>
        rank (g_phase r p) < rank ph + length out \<and>
        (\<forall>(x, y) \<in> set out. given (prog ! (k - 1)) [(x, y)] \<noteq> []))"

lemma chunk_nonempty:
  assumes "construct_ok con" "con \<noteq> Single" "data_ok con cs (x, e, c, i)" "x \<noteq> e"
  shows "given con [(x, chunk_end x e c i)] \<noteq> []"
proof -
  obtain a where w: "work_of con = (a, e, c, i)" and b: "between i a x e"
    using assms(2,3) by (auto simp: data_ok_def split: prod.splits)
  note f = work_facts [OF assms(1) w]
  note ce = chunk_end_spec [OF f(1,2) b assms(4) f(3-6)]
  have "between i x x (chunk_end x e c i)" using ce(1) by (auto simp: between_def split: if_splits)
  then have "loop_iters x (chunk_end x e c i) i \<noteq> []" using loop_iters_Nil [OF f(1)] ce(2) by metis
  then show ?thesis using w by (simp add: given_def)
qed

lemma step_fromI:
  assumes "k \<in> {1 .. length prog}" "rank (g_phase r p) < rank ph + length out"
    "rank (g_phase r p) \<le> rank ph" "\<And>x y. (x, y) \<in> set out \<Longrightarrow> given (prog ! (k - 1)) [(x, y)] \<noteq> []"
  shows "step_from prog p r (go p ph k out s r)"
  using assms unfolding step_from_def by blast

lemma step_loop:
  assumes ok: "reg_ok prog tm P S r" and p: "p \<in> P" and con: "\<forall>con \<in> set prog. construct_ok con" and len: "length prog \<le> S"
    and Out: "g_phase r p = Out k" and k: "k < length prog" and Loop: "prog ! k = Loop a b i c"
  shows "\<exists>r'. gomp_step prog p r = Some r' \<and> reg_ok prog tm P S r' \<and> step_from prog p r r'"
proof -
  have cok: "construct_ok (prog ! k)" using con k by simp
  obtain new w s1 s2 x e c' i' cs where t: "gomp_work_share_start p (g_data r) = Some (new, w, s1)"
    "s2 = (if new then gomp_loop_init w a b i c s1 else s1)" "ws_data s2 w = (x, e, c', i')" "data_ok (prog ! k) cs (x, e, c', i')"
    "x = e \<Longrightarrow> reg_ok prog tm P S (go p (Drained (Suc k)) (Suc k) [] s2 r)"
    "x \<noteq> e \<Longrightarrow> reg_ok prog tm P S (go p (Busy (Suc k)) (Suc k) [(x, chunk_end x e c' i')]
       (upd_ws w (\<lambda>d. d\<lparr>ws_next := chunk_end x e c' i'\<rparr>) s2) r)"
    by (rule enter_fetch [OF ok p Out k len con, where I = "\<lambda>w. gomp_loop_init w a b i c" and ini = "\<lambda>d. d\<lparr>ws_chunk_size := c, ws_end := (if i > 0 \<and> a > b \<or> i < 0 \<and> a < b then a else b),
        ws_incr := i, ws_next := a\<rparr>"])
      (use Loop cok in \<open>simp_all add: same_links_def gomp_loop_init_def gomp_sections_init_def\<close>)
  have "c' = c" "i' = i" using t(4) Loop by (auto simp: data_ok_def)
  note eq = loop_start_eq [OF t(1-3) [unfolded this]]
  show ?thesis
  proof (cases "x = e")
    case True
    then have "gomp_step prog p r = Some (go p (Drained (Suc k)) (Suc k) [] s2 r)"
      using eq Out k Loop by (simp add: gomp_step_def go_def)
    then show ?thesis using t(5) [OF True] Out k by (auto intro!: step_fromI)
  next
    case False
    then have "gomp_step prog p r = Some (go p (Busy (Suc k)) (Suc k) [(x, chunk_end x e c' i')]
       (upd_ws w (\<lambda>d. d\<lparr>ws_next := chunk_end x e c' i'\<rparr>) s2) r)"
      using eq Out k Loop \<open>c' = c\<close> \<open>i' = i\<close> by (simp add: gomp_step_def go_def)
    then show ?thesis using t(6) [OF False] Out k chunk_nonempty [OF cok _ t(4) False] Loop by (auto intro!: step_fromI)
  qed
qed

lemma step_sections:
  assumes ok: "reg_ok prog tm P S r" and p: "p \<in> P" and con: "\<forall>con \<in> set prog. construct_ok con" and len: "length prog \<le> S"
    and Out: "g_phase r p = Out k" and k: "k < length prog" and Sections: "prog ! k = Sections n"
  shows "\<exists>r'. gomp_step prog p r = Some r' \<and> reg_ok prog tm P S r' \<and> step_from prog p r r'"
proof -
  have cok: "construct_ok (prog ! k)" using con k by simp
  obtain new w s1 s2 x e c' i' cs where t: "gomp_work_share_start p (g_data r) = Some (new, w, s1)"
    "s2 = (if new then gomp_sections_init w n s1 else s1)" "ws_data s2 w = (x, e, c', i')" "data_ok (prog ! k) cs (x, e, c', i')"
    "x = e \<Longrightarrow> reg_ok prog tm P S (go p (Drained (Suc k)) (Suc k) [] s2 r)"
    "x \<noteq> e \<Longrightarrow> reg_ok prog tm P S (go p (Busy (Suc k)) (Suc k) [(x, chunk_end x e c' i')]
       (upd_ws w (\<lambda>d. d\<lparr>ws_next := chunk_end x e c' i'\<rparr>) s2) r)"
    by (rule enter_fetch [OF ok p Out k len con, where I = "\<lambda>w. gomp_sections_init w n" and ini = "\<lambda>d. d\<lparr>ws_end := i32 (n + 1), ws_next := 1, ws_chunk_size := 1, ws_incr := 1\<rparr>"])
      (use Sections cok in \<open>simp_all add: same_links_def gomp_loop_init_def gomp_sections_init_def\<close>)
  have nx: "x \<noteq> e \<Longrightarrow> chunk_end x e c' i' = x + 1 \<and> 1 \<le> x \<and> x < 2 ^ 31 - 1"
    using data_ok_next(3) [OF cok _ t(4), of n] Sections cok by auto
  note eq = sections_start_eq [OF t(1-3) nx]
  show ?thesis
  proof (cases "x = e")
    case True
    then have "gomp_step prog p r = Some (go p (Drained (Suc k)) (Suc k) [] s2 r)"
      using eq Out k Sections by (simp add: gomp_step_def go_def)
    then show ?thesis using t(5) [OF True] Out k by (auto intro!: step_fromI)
  next
    case False
    then have "gomp_step prog p r = Some (go p (Busy (Suc k)) (Suc k) [(x, chunk_end x e c' i')]
       (upd_ws w (\<lambda>d. d\<lparr>ws_next := chunk_end x e c' i'\<rparr>) s2) r)"
      using eq Out k Sections nx [OF False] by (auto simp: gomp_step_def go_def)
    then show ?thesis using t(6) [OF False] Out k chunk_nonempty [OF cok _ t(4) False] Sections by (auto intro!: step_fromI)
  qed
qed

lemma step_single:
  assumes ok: "reg_ok prog tm P S r" and p: "p \<in> P" and con: "\<forall>con \<in> set prog. construct_ok con" and len: "length prog \<le> S"
    and Out: "g_phase r p = Out k" and k: "k < length prog" and Single: "prog ! k = Single"
  shows "\<exists>r'. gomp_step prog p r = Some r' \<and> reg_ok prog tm P S r' \<and> step_from prog p r r'"
proof -
  obtain ret s2 where t: "GOMP_single_start p (g_data r) = Some (ret, s2)"
    "reg_ok prog tm P S (go p (Out (Suc k)) (Suc k) (if ret then [(0, 1)] else []) s2 r)"
    by (rule single_step [OF ok p Out k len Single])
  then have "gomp_step prog p r = Some (go p (Out (Suc k)) (Suc k) (if ret then [(0, 1)] else []) s2 r)"
    using Out k Single by (simp add: gomp_step_def go_def)
  moreover have "given Single [(0, 1)] \<noteq> []" by (simp add: given_def loop_iters_1)
  ultimately show ?thesis using t(2) Out k Single by (auto intro!: step_fromI split: if_splits)
qed

lemma step_fetch:
  assumes ok: "reg_ok prog tm P S r" and p: "p \<in> P" and con: "\<forall>con \<in> set prog. construct_ok con" and len: "length prog \<le> S"
    and Busy: "g_phase r p = Busy k"
  shows "\<exists>r'. gomp_step prog p r = Some r' \<and> reg_ok prog tm P S r' \<and> step_from prog p r r'"
proof -
  obtain b chain free where inv: "reg_inv prog tm P S b chain free r" using ok by (auto simp: reg_ok_def)
  obtain w x e c i where t: "CURR_WS p (g_data r) = Some w" "ws_data (g_data r) w = (x, e, c, i)" "prog ! (k - 1) \<noteq> Single"
    "k \<in> {1 .. length prog}" "data_ok (prog ! (k - 1)) (handed (g_log r) k) (x, e, c, i)"
    "x = e \<Longrightarrow> reg_ok prog tm P S (go p (Drained k) k [] (g_data r) r)"
    "x \<noteq> e \<Longrightarrow> reg_ok prog tm P S (go p (Busy k) k [(x, chunk_end x e c i)]
       (upd_ws w (\<lambda>d. d\<lparr>ws_next := chunk_end x e c i\<rparr>) (g_data r)) r)"
    by (rule take_gen [OF inv p Busy con]) blast
  have "k - 1 < length prog" using t(4) by auto
  then have cok: "construct_ok (prog ! (k - 1))" using con by simp
  note eq = iter_next_eq [OF t(2)]
  have nx: "prog ! (k - 1) = Sections n \<Longrightarrow> x \<noteq> e \<Longrightarrow> chunk_end x e c i = x + 1 \<and> 1 \<le> x" for n
    using data_ok_next(3) [OF cok t(3,5), of n] by auto
  show ?thesis
  proof (cases "x = e")
    case True
    then have "gomp_step prog p r = Some (go p (Drained k) k [] (g_data r) r)"
      using eq Busy t(1,3) by (cases "prog ! (k - 1)")
        (auto simp: gomp_step_def go_def GOMP_loop_dynamic_next_def gomp_loop_dynamic_next_def GOMP_sections_next_def gomp_sections_next_def)
    then show ?thesis using t(4) t(6) [OF True] Busy by (auto intro!: step_fromI)
  next
    case False
    then have "gomp_step prog p r = Some (go p (Busy k) k [(x, chunk_end x e c i)]
       (upd_ws w (\<lambda>d. d\<lparr>ws_next := chunk_end x e c i\<rparr>) (g_data r)) r)"
      using eq Busy t(1,3) nx by (cases "prog ! (k - 1)")
        (auto simp: gomp_step_def go_def GOMP_loop_dynamic_next_def gomp_loop_dynamic_next_def GOMP_sections_next_def gomp_sections_next_def)
    then show ?thesis using t(4) t(7) [OF False] Busy chunk_nonempty [OF cok t(3,5) False] by (auto intro!: step_fromI)
  qed
qed

lemma step_leave:
  assumes ok: "reg_ok prog tm P S r" and p: "p \<in> P" and con: "\<forall>con \<in> set prog. construct_ok con" and len: "length prog \<le> S"
    and Drained: "g_phase r p = Drained k"
  shows "\<exists>r'. gomp_step prog p r = Some r' \<and> reg_ok prog tm P S r' \<and> step_from prog p r r'"
proof -
  obtain b chain free where inv: "reg_inv prog tm P S b chain free r" using ok by (auto simp: reg_ok_def)
  obtain s' where t: "gomp_work_share_end_nowait p (g_data r) = Some s'" "reg_ok prog tm P S (go p (Out k) k [] s' r)"
    by (rule leave_gen [OF inv p Drained])
  have "k \<in> {1 .. length prog}" using reg_range(2) [OF inv p] Drained by simp
  moreover have "gomp_step prog p r = Some (go p (Out k) k [] s' r)" using t(1) Drained by (simp add: gomp_step_def go_def)
  ultimately show ?thesis using t(2) Drained by (auto intro!: step_fromI)
qed

lemma step_ok:
  assumes ok: "reg_ok prog tm P S r" and p: "p \<in> P" and con: "\<forall>con \<in> set prog. construct_ok con" and len: "length prog \<le> S"
  shows "\<exists>r'. gomp_step prog p r = Some r' \<and> reg_ok prog tm P S r' \<and>
    (if (\<exists>k \<ge> length prog. g_phase r p = Out k) then r' = r else step_from prog p r r')"
proof (cases "g_phase r p")
  case (Out k)
  show ?thesis
  proof (cases "k < length prog")
    case False
    then show ?thesis using ok Out by (auto simp: gomp_step_def)
  next
    case True
    then show ?thesis using step_loop [OF assms Out True] step_sections [OF assms Out True] step_single [OF assms Out True] Out
      by (cases "prog ! k") auto
  qed
next
  case (Busy k)
  then show ?thesis using step_fetch [OF assms Busy] by simp
next
  case (Drained k)
  then show ?thesis using step_leave [OF assms Drained] by simp
qed

text \<open>A run.\<close>

lemma gomp_exec_ok:
  assumes "reg_ok prog tm P S r" "set ps \<subseteq> P" "\<forall>con \<in> set prog. construct_ok con" "length prog \<le> S"
  shows "\<exists>r'. gomp_exec prog ps r = Some r' \<and> reg_ok prog tm P S r'"
  using assms
proof (induction ps arbitrary: r)
  case (Cons p ps)
  obtain r1 where "gomp_step prog p r = Some r1" "reg_ok prog tm P S r1"
    using step_ok [OF Cons.prems(1) _ Cons.prems(3,4), of p] Cons.prems(2) by auto
  then show ?case using Cons.IH [of r1] Cons.prems(2-4) by auto
qed simp

text \<open>The region starts when \<open>gomp_team_start\<close> and \<open>gomp_init_thread\<close> are through: all cores point to the root work share.\<close>

definition team_started :: "nat \<Rightarrow> nat set \<Rightarrow> ws_ptr list \<Rightarrow> gomp_data_t \<Rightarrow> bool" where
  "team_started tm P free s \<longleftrightarrow>
     team_ok tm P s \<and> ws_pool_ok free s \<and> Root tm \<notin> set free \<and> next_ws (wss s (Root tm)) = None \<and>
     ws_embedded (wss s (Root tm)) = WS_EMBEDDED \<and> (\<forall>p \<in> P. work_share (team_pool s ! tm) ! p = Some (Root tm))"

definition region_start :: "gomp_data_t \<Rightarrow> region" where
  "region_start s = \<lparr>g_data = s, g_phase = (\<lambda>_. Out 0), g_log = []\<rparr>"

lemma region_start_ok:
  assumes "team_started tm P free s"
  shows "reg_ok prog tm P (length free + length (l1_heap s)) (region_start s)"
proof -
  have "node_ok (card P) cnt 0 [Root tm] (wss s) 0" for cnt
    using assms by (simp add: node_ok_def team_started_def hw_consts)
  moreover have "team_ok tm P s" "P \<noteq> {}" using assms by (auto simp: team_started_def team_ok_def)
  ultimately have "chain_ok tm P (length free + length (l1_heap s)) 0 [Root tm] free (\<lambda>_. 0) (\<lambda>_. True) s"
    using assms by (auto simp: chain_ok_def team_started_def passed_def ws_pool_ok_def)
  then have "reg_inv prog tm P (length free + length (l1_heap s)) 0 [Root tm] free (region_start s)"
    by (auto simp: reg_inv_def region_start_def con_state_def core_state_def told_done_def)
  then show ?thesis by (auto simp: reg_ok_def)
qed

text \<open>What was handed out of a construct is a prefix of its iterations.\<close>

lemma handed_prefix:
  assumes "reg_ok prog tm P S r" "k < length prog"
  shows "\<exists>rest. given (prog ! k) (handed (g_log r) (Suc k)) @ rest = items (prog ! k) \<and>
    (\<forall>p \<in> P. told_done (g_phase r p) (Suc k) \<longrightarrow> rest = [])"
proof -
  obtain b chain free where inv: "reg_inv prog tm P S b chain free r" using assms(1) by (auto simp: reg_ok_def)
  have k: "Suc k \<in> {1 .. length prog}" using assms(2) by simp
  have "\<exists>rest. given (prog ! k) (handed (g_log r) (Suc k)) @ rest = items (prog ! k)"
    using reg_invD(3) [OF inv k] by (auto simp: con_state_def all_given_def data_ok_def split: if_splits prod.splits)
  then obtain rest where rest: "given (prog ! k) (handed (g_log r) (Suc k)) @ rest = items (prog ! k)" ..
  have "rest = []" if "p \<in> P" "told_done (g_phase r p) (Suc k)" for p
  proof -
    have "all_given prog r (Suc k)" using reg_invD(4) [OF inv that(1)] that(2) k unfolding core_state_def by blast
    then show ?thesis using rest by (simp add: all_given_def)
  qed
  then show ?thesis using rest by blast
qed

lemma log_bound:
  assumes "reg_ok prog tm P S r" "\<forall>(k, e) \<in> set (g_log r). k \<in> {1 .. length prog} \<and> given (prog ! (k - 1)) [e] \<noteq> []"
  shows "length (g_log r) \<le> (\<Sum>con \<leftarrow> prog. length (items con))"
proof -
  have split: "length log = (\<Sum>k < length prog. length (handed log (Suc k)))" if "\<forall>(k, e) \<in> set log. k \<in> {1 .. length prog}" for log
    using that
  proof (induction log)
    case (Cons e log)
    obtain k' z where e: "e = (k', z)" by (cases e)
    then have k': "k' - 1 < length prog" "Suc (k' - 1) = k'" using Cons.prems by auto
    have "length (handed (e # log) (Suc k)) = (if k = k' - 1 then 1 else 0) + length (handed log (Suc k))" for k
      using k'(2) by (auto simp: handed_def e)
    then show ?case using Cons k'(1) by (simp add: sum.distrib)
  qed (simp add: handed_def)
  have "length (handed (g_log r) (Suc k)) \<le> length (items (prog ! k))" if k: "k < length prog" for k
  proof -
    have ne: "\<forall>e \<in> set (handed (g_log r) (Suc k)). given (prog ! k) [e] \<noteq> []"
      using assms(2) by (fastforce simp: handed_def)
    have "length cs \<le> length (given (prog ! k) cs)" if "\<forall>e \<in> set cs. given (prog ! k) [e] \<noteq> []" for cs
      using that
    proof (induction cs)
      case (Cons e cs)
      have "given (prog ! k) (e # cs) = given (prog ! k) [e] @ given (prog ! k) cs" by (simp add: given_def)
      moreover have "0 < length (given (prog ! k) [e])" using Cons.prems by simp
      moreover have "length cs \<le> length (given (prog ! k) cs)" using Cons by simp
      ultimately show ?case by (simp only: length_Cons length_append)
    qed simp
    then have "length (handed (g_log r) (Suc k)) \<le> length (given (prog ! k) (handed (g_log r) (Suc k)))" using ne by blast
    also have "\<dots> \<le> length (items (prog ! k))" using handed_prefix [OF assms(1) k] by (metis length_append le_add1)
    finally show ?thesis .
  qed
  then have "(\<Sum>k < length prog. length (handed (g_log r) (Suc k))) \<le> (\<Sum>k < length prog. length (items (prog ! k)))"
    by (intro sum_mono) simp
  moreover have "length (g_log r) = (\<Sum>k < length prog. length (handed (g_log r) (Suc k)))" using assms(2) by (intro split) auto
  ultimately show ?thesis by (simp add: sum_list_sum_nth atLeast0LessThan)
qed

text \<open>The turns a core takes are used up by its phases and by the iterations handed out.\<close>

definition through :: "construct list \<Rightarrow> nat \<Rightarrow> region \<Rightarrow> bool" where
  "through prog p r \<longleftrightarrow> (\<exists>k \<ge> length prog. g_phase r p = Out k)"

definition log_ok :: "construct list \<Rightarrow> region \<Rightarrow> bool" where
  "log_ok prog r \<longleftrightarrow> (\<forall>(k, e) \<in> set (g_log r). k \<in> {1 .. length prog} \<and> given (prog ! (k - 1)) [e] \<noteq> [])"

definition effort :: "nat \<Rightarrow> region \<Rightarrow> nat" where
  "effort p r = rank (g_phase r p) + length (g_log r)"

lemma step_effort:
  assumes "if through prog q r then r1 = r else step_from prog q r r1"
  shows "log_ok prog r \<Longrightarrow> log_ok prog r1" "through prog p r \<Longrightarrow> through prog p r1"
    "\<not> through prog p r \<Longrightarrow> effort p r + (if q = p then 1 else 0) \<le> effort p r1"
proof -
  consider (same) "r1 = r" "through prog q r"
    | (step) k ph out s where "\<not> through prog q r" "r1 = go q ph k out s r" "k \<in> {1 .. length prog}"
        "rank (g_phase r q) \<le> rank ph" "rank (g_phase r q) < rank ph + length out"
        "\<forall>(x, y) \<in> set out. given (prog ! (k - 1)) [(x, y)] \<noteq> []"
    using assms by (cases "through prog q r") (auto simp: step_from_def)
  note cases = this
  show "log_ok prog r \<Longrightarrow> log_ok prog r1" by (rule cases; auto simp: log_ok_def)
  show "through prog p r \<Longrightarrow> through prog p r1" by (rule cases; auto simp: through_def)
  show "\<not> through prog p r \<Longrightarrow> effort p r + (if q = p then 1 else 0) \<le> effort p r1"
    by (rule cases; auto simp: effort_def)
qed

lemma gomp_exec_effort:
  assumes "reg_ok prog tm P S r" "set ps \<subseteq> P" "\<forall>con \<in> set prog. construct_ok con" "length prog \<le> S"
    and "gomp_exec prog ps r = Some r'"
  shows "(log_ok prog r \<longrightarrow> log_ok prog r') \<and> (through prog p r \<longrightarrow> through prog p r') \<and>
    (through prog p r' \<or> effort p r + count_list ps p \<le> effort p r')"
  using assms
proof (induction ps arbitrary: r)
  case (Cons q ps)
  obtain r1 where r1: "gomp_step prog q r = Some r1" "reg_ok prog tm P S r1"
    and st: "if through prog q r then r1 = r else step_from prog q r r1"
    using step_ok [OF Cons.prems(1) _ Cons.prems(3,4), of q] Cons.prems(2) by (auto simp: through_def)
  have "gomp_exec prog ps r1 = Some r'" using Cons.prems(5) r1(1) by simp
  then have IH: "(log_ok prog r1 \<longrightarrow> log_ok prog r') \<and> (through prog p r1 \<longrightarrow> through prog p r') \<and>
      (through prog p r' \<or> effort p r1 + count_list ps p \<le> effort p r')"
    using Cons.IH [OF r1(2)] Cons.prems(2-4) by simp
  show ?case using IH step_effort(1) [OF st] step_effort(2,3) [OF st, of p] by (cases "through prog p r") auto
qed simp

lemma gomp_exec_through:
  assumes "reg_ok prog tm P S r" "set ps \<subseteq> P" "\<forall>con \<in> set prog. construct_ok con" "length prog \<le> S"
    and ex: "gomp_exec prog ps r = Some r'" and log: "log_ok prog r" and p: "p \<in> P"
    and turns: "3 * length prog + (\<Sum>con \<leftarrow> prog. length (items con)) \<le> count_list ps p"
  shows "g_phase r' p = Out (length prog)"
proof -
  obtain r'' where "gomp_exec prog ps r = Some r''" "reg_ok prog tm P S r''" using gomp_exec_ok [OF assms(1-4)] by blast
  then have ok: "reg_ok prog tm P S r'" using ex by simp
  then obtain b chain free where inv: "reg_inv prog tm P S b chain free r'" by (auto simp: reg_ok_def)
  have le: "idx_of (g_phase r' p) \<le> length prog"
    using chain_ok_parts(9) [OF reg_invD(1) [OF inv] p] reg_invD(2) [OF inv] by simp
  note e = gomp_exec_effort [OF assms(1-4) ex, where p = p]
  have "length (g_log r') \<le> (\<Sum>con \<leftarrow> prog. length (items con))"
    using log_bound [OF ok] e log by (simp add: log_ok_def)
  moreover have "through prog p r' \<or> rank (g_phase r' p) < 3 * length prog"
    using le reg_range(1) [OF inv p] by (cases "g_phase r' p") (auto simp: through_def)
  ultimately have "through prog p r'" using e turns by (auto simp: effort_def)
  then show ?thesis using le by (auto simp: through_def)
qed

lemma all_out_chain:
  assumes ok: "chain_ok tm P S b chain free idx dn s" and all: "\<forall>p \<in> P. idx p = k \<and> dn p"
  shows "b = k \<and> length chain = 1"
proof -
  obtain p where p: "p \<in> P" "Suc (idx p) = b + length chain" using chain_ok_parts(11) [OF ok] by blast
  have "length chain = 1"
  proof (rule ccontr)
    assume "length chain \<noteq> 1"
    then have l: "k - b < length chain" "0 < k - b" using chain_okD(1,2) [OF ok p(1)] p all chain_ok_parts(5) [OF ok]
      by (auto simp: Suc_lessI neq_Nil_conv)
    then have "count_passed P idx dn k < card P" using chain_ok_parts(7) [OF ok l(1)] by (simp add: node_ok_def)
    moreover have "{p \<in> P. passed idx dn k p} = P" using all by (auto simp: passed_def)
    ultimately show False by (simp add: count_passed_def)
  qed
  then show ?thesis using p all by auto
qed

subsection \<open>The properties\<close>

text \<open>However the calls of the cores of a team interleave, with cores several constructs apart, no call fails as long as there are
  as many free descriptors as constructs; what was handed out of a loop or of sections is, in order and without repetition or gap, a prefix of its iterations, and all of them
  once a core was told that there are none left; the body of a \<open>single\<close> is given to one core.\<close>

theorem gomp_work_shared_once:
  assumes "team_started tm P free s" "set ps \<subseteq> P" "\<forall>con \<in> set prog. construct_ok con" "length prog \<le> length free + length (l1_heap s)"
  shows "\<exists>r. gomp_exec prog ps (region_start s) = Some r \<and>
    (\<forall>k < length prog. \<exists>rest. given (prog ! k) (handed (g_log r) (Suc k)) @ rest = items (prog ! k) \<and>
       (\<forall>p \<in> P. told_done (g_phase r p) (Suc k) \<longrightarrow> rest = []))"
proof -
  obtain r where r: "gomp_exec prog ps (region_start s) = Some r" "reg_ok prog tm P (length free + length (l1_heap s)) r"
    using gomp_exec_ok [OF region_start_ok [OF assms(1)] assms(2-4)] by blast
  then show ?thesis using handed_prefix [OF r(2)] by blast
qed

text \<open>C15: Every core gets through the constructs after a bounded number of its own calls, whatever the others do, and then all
  iterations of all constructs were handed out.\<close>

theorem gomp_region_finishes:
  assumes "team_started tm P free s" "set ps \<subseteq> P" "\<forall>con \<in> set prog. construct_ok con" "length prog \<le> length free + length (l1_heap s)"
    and "\<forall>p \<in> P. 3 * length prog + (\<Sum>con \<leftarrow> prog. length (items con)) \<le> count_list ps p"
  shows "\<exists>r. gomp_exec prog ps (region_start s) = Some r \<and> (\<forall>p \<in> P. g_phase r p = Out (length prog)) \<and>
    (\<forall>k < length prog. given (prog ! k) (handed (g_log r) (Suc k)) = items (prog ! k))"
proof -
  note ok = region_start_ok [OF assms(1)]
  obtain r where r: "gomp_exec prog ps (region_start s) = Some r" "reg_ok prog tm P (length free + length (l1_heap s)) r"
    using gomp_exec_ok [OF ok assms(2-4)] by blast
  have out: "g_phase r p = Out (length prog)" if "p \<in> P" for p
    using gomp_exec_through [OF ok assms(2-4) r(1) _ that] assms(5) that by (simp add: log_ok_def region_start_def)
  obtain p where p: "p \<in> P" using assms(1) by (auto simp: team_started_def team_ok_def)
  have "given (prog ! k) (handed (g_log r) (Suc k)) = items (prog ! k)" if k: "k < length prog" for k
  proof -
    have "told_done (g_phase r p) (Suc k)" using out [OF p] k by (auto simp: told_done_def)
    then show ?thesis using handed_prefix [OF r(2) k] p by auto
  qed
  then show ?thesis using r(1) out by blast
qed


subsection \<open>A concrete team\<close>

text \<open>Two cores of team 3, a pool of two descriptors and a heap of one block.\<close>

definition ex_ws :: gomp_work_share_t where
  "ex_ws = \<lparr>ws_end = 0, ws_next = 0, ws_chunk_size = 0, ws_incr = 0, ws_checkfirst = 0, ws_embedded = WS_EMBEDDED, ws_completed = 0,
     next_ws = None, prev_ws = None, next_free = None\<rparr>"

definition ex_team :: gomp_team_t where
  "ex_team = \<lparr>omp_task_f = 0, omp_args = 0, barrier_id = 3, team_level = 1, team_parent = None, team_nthreads = 2, team_mask = 3,
     proc_ids = [0, 1, 2, 3, 4, 5, 6, 7], thread_ids = [0, 1, 2, 3, 4, 5, 6, 7], work_share = replicate 8 (Some (Root 3)), team_next = None\<rparr>"

definition ex_gomp :: gomp_data_t where
  "ex_gomp = gomp_ws_pool_init \<lparr>thread_pool = 3, idle_cores = 6, curr_team = replicate 8 (Some 3), lru_team = None,
     team_pool_list = Some 2, ws_pool_list = None, team_pool = replicate 4 ex_team, wss = (\<lambda>_. ex_ws), l1_heap = [7],
     hw_barrier = (\<lambda>_. 0), hw_release = []\<rparr>"

definition ex_prog :: "construct list" where "ex_prog = [Loop 10 0 (- 3) 2, Single, Sections 2]"

lemma ex_gomp_started: "team_started 3 {0, 1} [Desc 1, Desc 0] ex_gomp"
proof -
  have "ws_pool_ok [Desc 1, Desc 0] ex_gomp" unfolding ex_gomp_def by (rule pool_init_ok) simp
  moreover have "wss ex_gomp (Root 3) = ex_ws" "curr_team ex_gomp = replicate 8 (Some 3)" "team_pool ex_gomp = replicate 4 ex_team"
    by (simp_all add: ex_gomp_def gomp_ws_pool_init_def upd_ws_def hw_consts numeral_2_eq_2)
  ultimately show ?thesis by (auto simp: team_started_def team_ok_def ex_team_def ex_ws_def)
qed

lemma ex_prog_ok: "\<forall>con \<in> set ex_prog. construct_ok con" "length ex_prog \<le> length [Desc 1, Desc 0] + length (l1_heap ex_gomp)"
  by (simp_all add: ex_prog_def int_range_def ex_gomp_def gomp_ws_pool_init_def upd_ws_def hw_consts numeral_2_eq_2)

theorem gomp_work_shared_once_witness:
  "\<exists>r. gomp_exec ex_prog [0, 1, 0, 0, 0, 0, 1] (region_start ex_gomp) = Some r \<and>
    (\<forall>k < length ex_prog. \<exists>rest. given (ex_prog ! k) (handed (g_log r) (Suc k)) @ rest = items (ex_prog ! k) \<and>
       (\<forall>p \<in> {0, 1}. told_done (g_phase r p) (Suc k) \<longrightarrow> rest = []))"
  by (rule gomp_work_shared_once [OF ex_gomp_started _ ex_prog_ok]) simp

lemma ex_prog_items: "items (Loop 10 0 (- 3) 2) = [10, 7, 4, 1]" "items Single = [0]" "items (Sections 2) = [1, 2]"
  by (simp_all add: loop_iters_def loop_count_def upt_conv_Cons upto_rec1)

theorem gomp_region_finishes_witness:
  "\<exists>r. gomp_exec ex_prog (replicate 16 0 @ replicate 16 1) (region_start ex_gomp) = Some r \<and>
    (\<forall>p \<in> {0, 1}. g_phase r p = Out (length ex_prog)) \<and>
    (\<forall>k < length ex_prog. given (ex_prog ! k) (handed (g_log r) (Suc k)) = items (ex_prog ! k))"
proof (rule gomp_region_finishes [OF ex_gomp_started _ ex_prog_ok])
  have cnt: "count_list (replicate 16 a) (b :: nat) = (if a = b then 16 else 0)" for a b by (simp add: numeral_eq_Suc)
  show "\<forall>p \<in> {0, 1 :: nat}. 3 * length ex_prog + (\<Sum>con \<leftarrow> ex_prog. length (items con)) \<le> count_list (replicate 16 0 @ replicate 16 1) p"
    by (auto simp: cnt ex_prog_def ex_prog_items simp del: items.simps(1,2))
qed auto


end
