(* ===== verification/Gomp_Team.thy ===== *)
theory Gomp_Team
  imports Gomp_Region
begin

text \<open>
  The teams of the OpenMP runtime of the cluster (\<open>libgomp/team.c\<close>, \<open>parallel.c\<close>, the set-up in \<open>libgomp.c\<close>): how a
  \<open>parallel\<close> region gets its cores and gives them back, with regions nested and several cores starting regions at the same time. A region of the
  first level that asks for no more cores than the last one had reuses the descriptor with its core lists (\<open>lru_team\<close>).

  The code between \<open>GLOBAL_INFOS_WAIT\<close> and \<open>GLOBAL_INFOS_SIGNAL\<close> is exclusive, and what the functions do outside of it concerns the
  calling core and the descriptor it owns; they are atomic steps. \<open>None\<close> is a failed assertion or a null pointer. The number of cores
  (\<open>get_num_procs\<close>) is a parameter \<open>np\<close>, which \<open>gomp_hal_init\<close> asserts to be at most 8.
\<close>

subsection \<open>Operations\<close>

text \<open>The case for 16 threads has the mask of 15.\<close>

definition getBitmask :: "u32 \<Rightarrow> u32 option" where
  "getBitmask nthreads =
     (if 1 \<le> nthreads \<and> nthreads \<le> 15 then Some (mask (unat nthreads)) else if nthreads = 16 then Some 0x7FFF else None)"

definition gomp_resolve_num_threads :: "int \<Rightarrow> gomp_data_t \<Rightarrow> int \<times> gomp_data_t" where
  "gomp_resolve_num_threads specified s =
     (let nthr = sint (idle_cores s + 1);
          nthr' = (if specified \<noteq> 0 \<and> specified < nthr then specified else nthr)
      in (nthr', s\<lparr>idle_cores := idle_cores s - of_int (nthr' - 1)\<rparr>))"

definition gomp_alloc_thread_pool :: "u32 \<Rightarrow> gomp_data_t \<Rightarrow> gomp_data_t" where
  "gomp_alloc_thread_pool m s = s\<lparr>thread_pool := thread_pool s OR m\<rparr>"

definition gomp_hal_set_hwBarrier :: "u32 \<Rightarrow> u32 \<Rightarrow> gomp_data_t \<Rightarrow> gomp_data_t" where
  "gomp_hal_set_hwBarrier b m s = s\<lparr>hw_barrier := (hw_barrier s)(b := m)\<rparr>"

definition gomp_master_region_start :: "nat \<Rightarrow> gomp_data_t \<Rightarrow> (nat \<times> gomp_data_t) option" where
  "gomp_master_region_start np s =
     (case gomp_new_team s of (None, _) \<Rightarrow> None
      | (Some t, s1) \<Rightarrow>
          let s2 = upd_team t (\<lambda>d. d\<lparr>team_nthreads := of_nat np, team_mask := 0xFF,
                proc_ids := fold (\<lambda>i xs. xs[i := of_nat i]) [0 ..< np] (proc_ids d)\<rparr>) s1;
              s3 = upd_team t (\<lambda>d. d\<lparr>team_level := 0, team_parent := None\<rparr>) s2
          in Some (t, gomp_set_curr_team 0 (Some t) s3))"

definition gomp_init_lru_team :: "nat \<Rightarrow> nat \<Rightarrow> gomp_data_t \<Rightarrow> gomp_data_t option" where
  "gomp_init_lru_team np pid s =
     (case gomp_new_team s of (None, _) \<Rightarrow> None
      | (Some t, s1) \<Rightarrow> do {
          m \<leftarrow> getBitmask (of_nat np);
          let s2 = upd_team t (\<lambda>d. d\<lparr>team_nthreads := of_nat np, thread_ids := (thread_ids d)[pid := 0],
                proc_ids := (proc_ids d)[0 := of_nat pid], team_mask := m\<rparr>) s1;
          let s3 = fold (\<lambda>i s. upd_team t (\<lambda>d. d\<lparr>proc_ids := (proc_ids d)[i := of_nat i], thread_ids := (thread_ids d)[i := of_nat i]\<rparr>)
                (gomp_set_curr_team i (Some t) s)) [1 ..< np] s2;
          Some (gomp_free_team t (s3\<lparr>lru_team := Some t\<rparr>))
        })"

text \<open>The loop over the cores: take core \<open>i\<close> if its bit in the pool is clear and cores are still wanted.\<close>

definition take_core :: "nat \<Rightarrow> u32 \<Rightarrow> nat \<Rightarrow> gomp_data_t \<Rightarrow> gomp_data_t" where
  "take_core t local_id i s =
     (let m = push_bit i 1;
          s1 = s\<lparr>thread_pool := thread_pool s OR m\<rparr>;
          s2 = upd_team t (\<lambda>d. d\<lparr>team_mask := team_mask d OR m, proc_ids := (proc_ids d)[unat local_id := of_nat i],
                 thread_ids := (thread_ids d)[i := local_id]\<rparr>) s1
      in gomp_set_curr_team i (Some t) s2)"

fun fetch_cores :: "nat \<Rightarrow> u32 \<Rightarrow> u32 \<Rightarrow> nat list \<Rightarrow> gomp_data_t \<Rightarrow> gomp_data_t" where
  "fetch_cores t num local_id [] s = s"
| "fetch_cores t num local_id (i # is) s =
     (if num = 0 then s
      else if thread_pool s AND push_bit i 1 = 0 then fetch_cores t (num - 1) (local_id + 1) is (take_core t local_id i s)
      else fetch_cores t num local_id is s)"

text \<open>The two ways to fill the team: the cores of the last one, or a search.\<close>

definition team_hit :: "nat \<Rightarrow> u32 \<Rightarrow> gomp_data_t \<Rightarrow> gomp_data_t option" where
  "team_hit t num s = map_option (\<lambda>m. gomp_alloc_thread_pool m (upd_team t (\<lambda>d. d\<lparr>team_mask := m, team_nthreads := num\<rparr>) s)) (getBitmask num)"

definition team_miss :: "nat \<Rightarrow> nat \<Rightarrow> nat \<Rightarrow> u32 \<Rightarrow> gomp_data_t \<Rightarrow> gomp_data_t" where
  "team_miss np pid t num s =
     fetch_cores t (num - 1) 1 [1 ..< np]
       (upd_team t (\<lambda>d. d\<lparr>team_mask := push_bit pid 1, team_nthreads := num, thread_ids := (thread_ids d)[pid := 0],
          proc_ids := (proc_ids d)[0 := of_nat pid]\<rparr>) s)"

text \<open>What \<open>gomp_team_start\<close> does before it chooses: threads, descriptor, level, root work share.\<close>

definition team_begin :: "nat \<Rightarrow> u32 \<Rightarrow> u32 \<Rightarrow> int \<Rightarrow> gomp_data_t \<Rightarrow> (nat \<times> u32 \<times> gomp_data_t) option" where
  "team_begin pid fn data specified s =
     (let (num, s1) = gomp_resolve_num_threads specified s in
      case gomp_new_team s1 of (None, _) \<Rightarrow> None
      | (Some t, s2) \<Rightarrow> do {
          parent \<leftarrow> gomp_get_curr_team pid s2;
          let s3 = upd_team t (\<lambda>d. d\<lparr>team_level := team_level (team_pool s2 ! parent) + 1, team_parent := Some parent,
                omp_task_f := fn, omp_args := data\<rparr>) s2;
          let s4 = upd_ws (Root t) (\<lambda>d. d\<lparr>next_ws := None, prev_ws := None\<rparr>) s3;
          Some (t, of_int num, upd_team t (\<lambda>d. d\<lparr>work_share := (work_share d)[pid := Some (Root t)]\<rparr>) s4)
        })"

definition team_commit :: "nat \<Rightarrow> nat \<Rightarrow> gomp_data_t \<Rightarrow> gomp_data_t" where
  "team_commit pid t s =
     gomp_set_curr_team pid (Some t)
       (gomp_hal_set_hwBarrier (barrier_id (team_pool s ! t)) (team_mask (team_pool s ! t)) s)"

definition gomp_team_start :: "nat \<Rightarrow> nat \<Rightarrow> u32 \<Rightarrow> u32 \<Rightarrow> int \<Rightarrow> gomp_data_t \<Rightarrow> (nat \<times> gomp_data_t) option" where
  "gomp_team_start np pid fn data specified s = do {
     (t, num, s1) \<leftarrow> team_begin pid fn data specified s;
     s2 \<leftarrow> (if team_level (team_pool s1 ! t) = 1 \<and> lru_team s1 = Some t \<and> team_nthreads (team_pool s1 ! t) \<ge> num
            then team_hit t num s1 else Some (team_miss np pid t num s1));
     Some (t, team_commit pid t s2)
   }"

definition gomp_team_end :: "nat \<Rightarrow> gomp_data_t \<Rightarrow> gomp_data_t option" where
  "gomp_team_end pid s = do {
     t \<leftarrow> gomp_get_curr_team pid s;
     let d = team_pool s ! t;
     let neg_mask = NOT (team_mask d) OR push_bit pid 1;
     let s1 = s\<lparr>idle_cores := idle_cores s + (team_nthreads d - 1), thread_pool := thread_pool s AND neg_mask\<rparr>;
     let s2 = gomp_set_curr_team pid (team_parent d) s1;
     w \<leftarrow> work_share d ! pid;
     Some (gomp_free_team t ((gomp_free_work_share w s2)\<lparr>lru_team := Some t\<rparr>))
   }"

definition gomp_init_thread :: "nat \<Rightarrow> nat \<Rightarrow> gomp_data_t \<Rightarrow> gomp_data_t" where
  "gomp_init_thread pid t = upd_team t (\<lambda>d. d\<lparr>work_share := (work_share d)[pid := Some (Root t)]\<rparr>)"

text \<open>The mask of the cores that are woken up; with a team of one core nothing is triggered.\<close>

definition MSGBarrier_hwRelease :: "u32 \<Rightarrow> gomp_data_t \<Rightarrow> gomp_data_t" where
  "MSGBarrier_hwRelease m s = (if m \<noteq> 0 then s\<lparr>hw_release := hw_release s @ [m]\<rparr> else s)"

definition GOMP_parallel_start :: "nat \<Rightarrow> nat \<Rightarrow> u32 \<Rightarrow> u32 \<Rightarrow> int \<Rightarrow> gomp_data_t \<Rightarrow> gomp_data_t option" where
  "GOMP_parallel_start np pid fn data num_threads s = map_option
     (\<lambda>(t, s1). MSGBarrier_hwRelease (team_mask (team_pool s1 ! t) XOR push_bit (unat (proc_ids (team_pool s1 ! t) ! 0)) 1) s1)
     (gomp_team_start np pid fn data num_threads s)"

definition GOMP_parallel_loop_dynamic_start ::
    "nat \<Rightarrow> nat \<Rightarrow> u32 \<Rightarrow> u32 \<Rightarrow> int \<Rightarrow> int \<Rightarrow> int \<Rightarrow> int \<Rightarrow> int \<Rightarrow> gomp_data_t \<Rightarrow> gomp_data_t option" where
  "GOMP_parallel_loop_dynamic_start np pid fn data num_threads start end' incr chunk_size s = do {
     (t, s1) \<leftarrow> gomp_team_start np pid fn data num_threads s;
     w \<leftarrow> work_share (team_pool s1 ! t) ! pid;
     Some (MSGBarrier_hwRelease (team_mask (team_pool s1 ! t) XOR push_bit (unat (proc_ids (team_pool s1 ! t) ! 0)) 1)
       (gomp_loop_init w start end' incr chunk_size s1))
   }"

definition GOMP_parallel_sections_start :: "nat \<Rightarrow> nat \<Rightarrow> u32 \<Rightarrow> u32 \<Rightarrow> int \<Rightarrow> int \<Rightarrow> gomp_data_t \<Rightarrow> gomp_data_t option" where
  "GOMP_parallel_sections_start np pid fn data num_threads count s = do {
     (t, s1) \<leftarrow> gomp_team_start np pid fn data num_threads s;
     w \<leftarrow> work_share (team_pool s1 ! t) ! pid;
     Some (MSGBarrier_hwRelease (team_mask (team_pool s1 ! t) XOR push_bit (unat (proc_ids (team_pool s1 ! t) ! 0)) 1)
       (gomp_sections_init w count s1))
   }"

text \<open>The barrier at the end of a region, for whose other cores the caller waits, is the first component; after it the team ends.\<close>

definition GOMP_parallel_end :: "nat \<Rightarrow> gomp_data_t \<Rightarrow> (u32 \<times> gomp_data_t) option" where
  "GOMP_parallel_end pid s = do {
     t \<leftarrow> gomp_get_curr_team pid s;
     s1 \<leftarrow> gomp_team_end pid s;
     Some (barrier_id (team_pool s ! t), s1)
   }"

text \<open>The calls that compiled code makes around a region; \<open>body\<close> is what the cores of the region do until they are all at the barrier.\<close>

definition GOMP_parallel ::
    "nat \<Rightarrow> nat \<Rightarrow> u32 \<Rightarrow> u32 \<Rightarrow> int \<Rightarrow> (gomp_data_t \<Rightarrow> gomp_data_t option) \<Rightarrow> gomp_data_t \<Rightarrow> (u32 \<times> gomp_data_t) option" where
  "GOMP_parallel np pid fn data num_threads body s = do {
     (t, s1) \<leftarrow> gomp_team_start np pid fn data num_threads s;
     s2 \<leftarrow> body (MSGBarrier_hwRelease (team_mask (team_pool s1 ! t) XOR push_bit (unat (proc_ids (team_pool s1 ! t) ! 0)) 1) s1);
     GOMP_parallel_end pid s2
   }"

definition GOMP_parallel_loop_dynamic ::
    "nat \<Rightarrow> nat \<Rightarrow> u32 \<Rightarrow> u32 \<Rightarrow> int \<Rightarrow> int \<Rightarrow> int \<Rightarrow> int \<Rightarrow> int \<Rightarrow> (gomp_data_t \<Rightarrow> gomp_data_t option) \<Rightarrow> gomp_data_t \<Rightarrow>
     (u32 \<times> gomp_data_t) option" where
  "GOMP_parallel_loop_dynamic np pid fn data num_threads start end' incr chunk_size body s = do {
     (t, s1) \<leftarrow> gomp_team_start np pid fn data num_threads s;
     w \<leftarrow> work_share (team_pool s1 ! t) ! pid;
     let s2 = MSGBarrier_hwRelease (team_mask (team_pool s1 ! t) XOR push_bit (unat (proc_ids (team_pool s1 ! t) ! 0)) 1)
       (gomp_loop_init w start end' incr chunk_size s1);
     s3 \<leftarrow> body s2;
     GOMP_parallel_end pid s3
   }"

definition GOMP_parallel_sections ::
    "nat \<Rightarrow> nat \<Rightarrow> u32 \<Rightarrow> u32 \<Rightarrow> int \<Rightarrow> int \<Rightarrow> (gomp_data_t \<Rightarrow> gomp_data_t option) \<Rightarrow> gomp_data_t \<Rightarrow> (u32 \<times> gomp_data_t) option" where
  "GOMP_parallel_sections np pid fn data num_threads count body s = do {
     (t, s1) \<leftarrow> gomp_team_start np pid fn data num_threads s;
     w \<leftarrow> work_share (team_pool s1 ! t) ! pid;
     let s2 = MSGBarrier_hwRelease (team_mask (team_pool s1 ! t) XOR push_bit (unat (proc_ids (team_pool s1 ! t) ! 0)) 1)
       (gomp_sections_init w count s1);
     s3 \<leftarrow> body s2;
     GOMP_parallel_end pid s3
   }"

definition omp_get_num_threads :: "nat \<Rightarrow> gomp_data_t \<Rightarrow> u32 option" where
  "omp_get_num_threads pid s = map_option (\<lambda>t. team_nthreads (team_pool s ! t)) (gomp_get_curr_team pid s)"

definition omp_get_max_threads :: "gomp_data_t \<Rightarrow> u32" where
  "omp_get_max_threads s = idle_cores s + 1"

definition omp_get_thread_num :: "nat \<Rightarrow> gomp_data_t \<Rightarrow> u32 option" where
  "omp_get_thread_num pid s = map_option (\<lambda>t. thread_ids (team_pool s ! t) ! pid) (gomp_get_curr_team pid s)"

definition omp_in_parallel :: "nat \<Rightarrow> gomp_data_t \<Rightarrow> bool option" where
  "omp_in_parallel pid s = map_option (\<lambda>t. team_level (team_pool s ! t) \<noteq> 0) (gomp_get_curr_team pid s)"

subsection \<open>The search for cores\<close>

fun grab :: "nat \<Rightarrow> u32 \<Rightarrow> nat list \<Rightarrow> gomp_data_t \<Rightarrow> gomp_data_t" where
  "grab t local_id [] s = s"
| "grab t local_id (i # is) s = grab t (local_id + 1) is (take_core t local_id i s)"

definition free_cores :: "nat list \<Rightarrow> gomp_data_t \<Rightarrow> nat list" where
  "free_cores is s = filter (\<lambda>i. \<not> bit (thread_pool s) i) is"

lemma take_core_simps [simp]:
  "thread_pool (take_core t loc i s) = thread_pool s OR push_bit i 1"
  "curr_team (take_core t loc i s) = (curr_team s)[i := Some t]"
  "team_pool (take_core t loc i s) = (team_pool s)[t := (team_pool s ! t)\<lparr>team_mask := team_mask (team_pool s ! t) OR push_bit i 1,
     proc_ids := (proc_ids (team_pool s ! t))[unat loc := of_nat i], thread_ids := (thread_ids (team_pool s ! t))[i := loc]\<rparr>]"
  "idle_cores (take_core t loc i s) = idle_cores s" "lru_team (take_core t loc i s) = lru_team s"
  "team_pool_list (take_core t loc i s) = team_pool_list s" "ws_pool_list (take_core t loc i s) = ws_pool_list s"
  "wss (take_core t loc i s) = wss s" "l1_heap (take_core t loc i s) = l1_heap s" "hw_barrier (take_core t loc i s) = hw_barrier s"
  "hw_release (take_core t loc i s) = hw_release s"
  by (simp_all add: take_core_def Let_def upd_team_def gomp_set_curr_team_def)

lemma fetch_cores_grab:
  "distinct is \<Longrightarrow> \<forall>i \<in> set is. i < 32 \<Longrightarrow> fetch_cores t num loc is s = grab t loc (take (unat num) (free_cores is s)) s"
proof (induction "is" arbitrary: num loc s)
  case (Cons i "is")
  have rest: "free_cores is (take_core t loc i s) = free_cores is s"
    using Cons.prems by (auto simp: free_cores_def bit_or_iff bit_push_bit_iff bit_1_iff bit_exp_iff intro!: filter_cong)
  show ?case
  proof (cases "num = 0")
    case False
    then have "unat num = Suc (unat (num - 1))" using unat_minus_one [of num] by (simp add: unat_gt_0)
    then show ?thesis using Cons False rest by (auto simp: and_exp_eq_0_iff_not_bit free_cores_def)
  qed (simp add: free_cores_def)
qed (simp add: free_cores_def)

lemma grab_simps [simp]:
  "idle_cores (grab t loc is s) = idle_cores s" "lru_team (grab t loc is s) = lru_team s"
  "team_pool_list (grab t loc is s) = team_pool_list s" "ws_pool_list (grab t loc is s) = ws_pool_list s"
  "wss (grab t loc is s) = wss s" "l1_heap (grab t loc is s) = l1_heap s" "hw_barrier (grab t loc is s) = hw_barrier s"
  "length (curr_team (grab t loc is s)) = length (curr_team s)" "length (team_pool (grab t loc is s)) = length (team_pool s)"
  "u \<noteq> t \<Longrightarrow> team_pool (grab t loc is s) ! u = team_pool s ! u"
  "hw_release (grab t loc is s) = hw_release s" "gomp_data_t.more (grab t loc is s) = gomp_data_t.more s"
  by (induction "is" arbitrary: loc s) simp_all

lemma grab_pool:
  "\<forall>i \<in> set is. i < 32 \<Longrightarrow> bit (thread_pool (grab t loc is s)) j \<longleftrightarrow> bit (thread_pool s) j \<or> j \<in> set is"
  by (induction "is" arbitrary: loc s) (auto simp: bit_or_iff bit_push_bit_iff bit_1_iff bit_exp_iff)

lemma grab_curr:
  "\<forall>i \<in> set is. i < length (curr_team s) \<Longrightarrow> j < length (curr_team s) \<Longrightarrow>
     curr_team (grab t loc is s) ! j = (if j \<in> set is then Some t else curr_team s ! j)"
  by (induction "is" arbitrary: loc s) (auto simp: nth_list_update)

text \<open>What the search leaves in the descriptor.\<close>

lemma grab_team:
  assumes "t < length (team_pool s)"
  shows "gomp_team_t.more (team_pool (grab t loc is s) ! t) = gomp_team_t.more (team_pool s ! t)"
    "team_nthreads (team_pool (grab t loc is s) ! t) = team_nthreads (team_pool s ! t)"
    "team_level (team_pool (grab t loc is s) ! t) = team_level (team_pool s ! t)"
    "team_parent (team_pool (grab t loc is s) ! t) = team_parent (team_pool s ! t)"
    "barrier_id (team_pool (grab t loc is s) ! t) = barrier_id (team_pool s ! t)"
    "work_share (team_pool (grab t loc is s) ! t) = work_share (team_pool s ! t)"
    "team_next (team_pool (grab t loc is s) ! t) = team_next (team_pool s ! t)"
    "omp_task_f (team_pool (grab t loc is s) ! t) = omp_task_f (team_pool s ! t)"
    "omp_args (team_pool (grab t loc is s) ! t) = omp_args (team_pool s ! t)"
    "length (proc_ids (team_pool (grab t loc is s) ! t)) = length (proc_ids (team_pool s ! t))"
    "length (thread_ids (team_pool (grab t loc is s) ! t)) = length (thread_ids (team_pool s ! t))"
  using assms by (induction "is" arbitrary: loc s) simp_all

lemma grab_mask:
  "t < length (team_pool s) \<Longrightarrow> \<forall>i \<in> set is. i < 32 \<Longrightarrow>
     bit (team_mask (team_pool (grab t loc is s) ! t)) j \<longleftrightarrow> bit (team_mask (team_pool s ! t)) j \<or> j \<in> set is"
  by (induction "is" arbitrary: loc s) (auto simp: bit_or_iff bit_push_bit_iff bit_1_iff bit_exp_iff)

lemma grab_ids:
  assumes "t < length (team_pool s)" "distinct is" "unat loc + length is \<le> 8"
    and "\<forall>i \<in> set is. i < 8" "length (proc_ids (team_pool s ! t)) = 8" "length (thread_ids (team_pool s ! t)) = 8"
  shows "(\<forall>k < length is. proc_ids (team_pool (grab t loc is s) ! t) ! (unat loc + k) = of_nat (is ! k) \<and>
        thread_ids (team_pool (grab t loc is s) ! t) ! (is ! k) = loc + of_nat k) \<and>
     (\<forall>j. j < unat loc \<or> unat loc + length is \<le> j \<longrightarrow>
        proc_ids (team_pool (grab t loc is s) ! t) ! j = proc_ids (team_pool s ! t) ! j) \<and>
     (\<forall>j. j \<notin> set is \<longrightarrow> thread_ids (team_pool (grab t loc is s) ! t) ! j = thread_ids (team_pool s ! t) ! j)"
  using assms
proof (induction "is" arbitrary: loc s)
  case (Cons i "is")
  let ?s = "take_core t loc i s"
  have loc: "unat (loc + 1) = Suc (unat loc)" using Cons.prems(3) by (simp add: unat_word_ariths)

  have IH: "(\<forall>k < length is. proc_ids (team_pool (grab t (loc + 1) is ?s) ! t) ! (Suc (unat loc) + k) = of_nat (is ! k) \<and>
        thread_ids (team_pool (grab t (loc + 1) is ?s) ! t) ! (is ! k) = loc + 1 + of_nat k) \<and>
     (\<forall>j. j < Suc (unat loc) \<or> Suc (unat loc) + length is \<le> j \<longrightarrow>
        proc_ids (team_pool (grab t (loc + 1) is ?s) ! t) ! j = proc_ids (team_pool ?s ! t) ! j) \<and>
     (\<forall>j. j \<notin> set is \<longrightarrow> thread_ids (team_pool (grab t (loc + 1) is ?s) ! t) ! j = thread_ids (team_pool ?s ! t) ! j)"
    using Cons.IH [of ?s "loc + 1"] Cons.prems by (simp add: loc)
  have "proc_ids (team_pool (grab t loc (i # is) s) ! t) ! (unat loc + k) = of_nat ((i # is) ! k) \<and>
      thread_ids (team_pool (grab t loc (i # is) s) ! t) ! ((i # is) ! k) = loc + of_nat k" if "k < length (i # is)" for k
    using IH that Cons.prems by (cases k) (auto simp: algebra_simps)
  moreover have "proc_ids (team_pool (grab t loc (i # is) s) ! t) ! j = proc_ids (team_pool s ! t) ! j"
    if "j < unat loc \<or> unat loc + length (i # is) \<le> j" for j
    using IH that Cons.prems(1) by auto
  moreover have "thread_ids (team_pool (grab t loc (i # is) s) ! t) ! j = thread_ids (team_pool s ! t) ! j" if "j \<notin> set (i # is)" for j
    using IH that Cons.prems(1) by simp
  ultimately show ?case by blast
qed simp

subsection \<open>Nested regions\<close>

text \<open>The parallel regions that are open, the youngest first: descriptor, master and slaves. The cores in use are core 0 and all
  slaves; the current team of a core is the youngest it belongs to, and the root team \<open>r\<close> for core 0 outside of all.\<close>

type_synonym regions = "(nat \<times> nat \<times> nat set) list"

fun used :: "regions \<Rightarrow> nat set" where
  "used [] = {0}"
| "used ((t, m, S) # l) = S \<union> used l"

fun cur :: "nat \<Rightarrow> regions \<Rightarrow> nat \<Rightarrow> nat" where
  "cur r [] p = r"
| "cur r ((t, m, S) # l) p = (if p = m \<or> p \<in> S then t else cur r l p)"

fun nest_ok :: "nat \<Rightarrow> gomp_team_t list \<Rightarrow> regions \<Rightarrow> bool" where
  "nest_ok r T [] \<longleftrightarrow> team_level (T ! r) = 0"
| "nest_ok r T ((t, m, S) # l) \<longleftrightarrow>
     m \<in> used l \<and> S \<inter> used l = {} \<and> team_parent (T ! t) = Some (cur r l m) \<and>
     unat (team_level (T ! t)) = Suc (unat (team_level (T ! cur r l m))) \<and> nest_ok r T l"

text \<open>What a descriptor says of an open region: mask, number of threads and the numbering of the cores.\<close>

definition desc_ok :: "gomp_data_t \<Rightarrow> nat \<Rightarrow> nat \<Rightarrow> nat set \<Rightarrow> bool" where
  "desc_ok s t m S \<longleftrightarrow> (let d = team_pool s ! t in
     (\<forall>j < 32. bit (team_mask d) j \<longleftrightarrow> j = m \<or> j \<in> S) \<and> unat (team_nthreads d) = Suc (card S) \<and>
     (\<forall>j \<in> insert m S. unat (thread_ids d ! j) \<le> card S \<and> proc_ids d ! unat (thread_ids d ! j) = of_nat j) \<and>
     thread_ids d ! m = 0 \<and> hw_barrier s (barrier_id d) = team_mask d \<and> work_share d ! m \<noteq> None)"

definition warm :: "gomp_team_t \<Rightarrow> bool" where
  "warm d \<longleftrightarrow> 0 < unat (team_nthreads d) \<and>
     (\<forall>i < unat (team_nthreads d). thread_ids d ! i = of_nat i \<and> proc_ids d ! i = of_nat i)"

text \<open>The descriptor on top of the pool between regions of the first level, and the region of the first level.\<close>

definition first_ok :: "nat \<Rightarrow> nat list \<Rightarrow> regions \<Rightarrow> gomp_data_t \<Rightarrow> bool" where
  "first_ok np free live s \<longleftrightarrow>
     (if live = [] then
        (case free of [] \<Rightarrow> False
         | l # _ \<Rightarrow> lru_team s = Some l \<and> warm (team_pool s ! l) \<and> unat (team_nthreads (team_pool s ! l)) \<le> np \<and>
             (\<forall>i \<in> {1 ..< unat (team_nthreads (team_pool s ! l))}. curr_team s ! i = Some l))
      else (case last live of (t, m, S) \<Rightarrow>
        m = 0 \<and> S = {1 ..< unat (team_nthreads (team_pool s ! t))} \<and> warm (team_pool s ! t) \<and> unat (team_nthreads (team_pool s ! t)) \<le> np))"

fun team_list :: "gomp_team_t list \<Rightarrow> nat option \<Rightarrow> nat list \<Rightarrow> bool" where
  "team_list T p [] \<longleftrightarrow> p = None"
| "team_list T p (t # ts) \<longleftrightarrow> p = Some t \<and> team_list T (team_next (T ! t)) ts"

definition shape_ok :: "nat \<Rightarrow> gomp_data_t \<Rightarrow> bool" where
  "shape_ok np s \<longleftrightarrow> 1 \<le> np \<and> np \<le> MAX_PE \<and> length (team_pool s) = MAX_TEAM_DESC \<and> length (curr_team s) = MAX_PE \<and>
     (\<forall>t < MAX_TEAM_DESC. barrier_id (team_pool s ! t) = of_nat t \<and> length (proc_ids (team_pool s ! t)) = MAX_PE \<and>
        length (thread_ids (team_pool s ! t)) = MAX_PE \<and> length (work_share (team_pool s ! t)) = MAX_PE)"

definition team_inv :: "nat \<Rightarrow> nat \<Rightarrow> nat list \<Rightarrow> regions \<Rightarrow> gomp_data_t \<Rightarrow> bool" where
  "team_inv np r free live s \<longleftrightarrow>
     shape_ok np s \<and> team_list (team_pool s) (team_pool_list s) free \<and> distinct (r # map fst live @ free) \<and>
     set (r # map fst live @ free) = {..<MAX_TEAM_DESC} \<and>
     (\<forall>i < 32. bit (thread_pool s) i \<longleftrightarrow> i \<in> used live) \<and> used live \<subseteq> {..<np} \<and> unat (idle_cores s) + card (used live) = np \<and>
     (\<forall>p \<in> used live. curr_team s ! p = Some (cur r live p)) \<and> nest_ok r (team_pool s) live \<and>
     (\<forall>(t, m, S) \<in> set live. desc_ok s t m S) \<and> first_ok np free live s"

lemma team_list_cong: "(\<And>t. t \<in> set ts \<Longrightarrow> team_next (T ! t) = team_next (T' ! t)) \<Longrightarrow> team_list T p ts = team_list T' p ts"
  by (induction ts arbitrary: p) auto

lemma used_0: "0 \<in> used live"
  by (induction live rule: used.induct) auto

lemma master_used: "nest_ok r T live \<Longrightarrow> (t, m, S) \<in> set live \<Longrightarrow> m \<in> used live \<and> S \<subseteq> used live"
  by (induction live rule: used.induct) auto

lemma cur_mem: "p \<in> used live \<Longrightarrow> cur r live p = r \<or> cur r live p \<in> fst ` set live"
  by (induction live rule: used.induct) auto

lemma nest_ok_cong:
  assumes "nest_ok r T live" "\<And>t. t = r \<or> t \<in> fst ` set live \<Longrightarrow> team_level (T' ! t) = team_level (T ! t) \<and> team_parent (T' ! t) = team_parent (T ! t)"
  shows "nest_ok r T' live"
  using assms
proof (induction live rule: used.induct)
  case (2 t m S l)
  have "cur r l m = r \<or> cur r l m \<in> fst ` set l" using 2(2) cur_mem by simp
  then have "team_level (T' ! cur r l m) = team_level (T ! cur r l m)" using 2(3) by auto
  then show ?case using 2 by auto
qed auto

text \<open>A core in use is in the first-level team if there is one.\<close>

lemma cur_live:
  assumes "nest_ok r T live" "live \<noteq> []" "p \<in> used live" "\<exists>t S. last live = (t, 0, S)"
  shows "cur r live p \<in> fst ` set live"
  using assms
proof (induction live rule: used.induct)
  case (2 t m S l)
  then show ?case by (cases "l = []") auto
qed simp

lemma root_level: "nest_ok r T live \<Longrightarrow> team_level (T ! r) = 0"
  by (induction live rule: used.induct) auto

lemma level_live:
  "nest_ok r T live \<Longrightarrow> t \<in> fst ` set live \<Longrightarrow> 0 < unat (team_level (T ! t)) \<and> unat (team_level (T ! t)) \<le> length live"
proof (induction live arbitrary: t rule: used.induct)
  case (2 t' m S l)
  have "cur r l m = r \<or> cur r l m \<in> fst ` set l" using 2(2) cur_mem by simp
  moreover have "team_level (T ! r) = 0" using root_level [of r T l] 2(2) by simp
  ultimately have "unat (team_level (T ! cur r l m)) \<le> length l" using 2(1) 2(2) by auto
  then show ?case using 2 by fastforce
qed simp

subsection \<open>How many cores a team gets\<close>

definition team_size :: "int \<Rightarrow> gomp_data_t \<Rightarrow> nat" where
  "team_size specified s = (if specified \<noteq> 0 \<and> specified \<le> int (unat (idle_cores s)) then nat specified else Suc (unat (idle_cores s)))"

lemma resolve_eq:
  assumes "unat (idle_cores s) < 2 ^ 31 - 1" "0 \<le> specified"
  shows "gomp_resolve_num_threads specified s =
     (int (team_size specified s), s\<lparr>idle_cores := idle_cores s - of_nat (team_size specified s - 1)\<rparr>)"
    "1 \<le> team_size specified s" "team_size specified s \<le> Suc (unat (idle_cores s))"
proof -
  have u: "unat (idle_cores s + 1) = Suc (unat (idle_cores s))" using assms(1) by (simp add: unat_word_ariths)
  have ui: "uint (idle_cores s) < 2 ^ 31 - 1" using assms(1) by (simp add: nat_less_iff unsigned_of_nat flip: nat_uint_eq)
  have "sint (idle_cores s + 1) = int (Suc (unat (idle_cores s)))"
    using u ui by (simp only: sint_uint uint_nat) (subst signed_take_bit_int_eq_self; simp)
  then show "gomp_resolve_num_threads specified s =
     (int (team_size specified s), s\<lparr>idle_cores := idle_cores s - of_nat (team_size specified s - 1)\<rparr>)"
    using assms(2) by (auto simp: gomp_resolve_num_threads_def team_size_def Let_def of_nat_diff)
  show "1 \<le> team_size specified s" "team_size specified s \<le> Suc (unat (idle_cores s))"
    using assms(2) by (auto simp: team_size_def nat_le_iff)
qed

text \<open>The state after \<open>team_begin\<close>, for a team of \<open>n\<close> cores.\<close>

definition begun :: "nat \<Rightarrow> nat \<Rightarrow> u32 \<Rightarrow> u32 \<Rightarrow> nat \<Rightarrow> nat \<Rightarrow> gomp_data_t \<Rightarrow> gomp_data_t" where
  "begun pid parent fn data n t s = s\<lparr>idle_cores := idle_cores s - of_nat (n - 1), team_pool_list := team_next (team_pool s ! t),
     team_pool := (team_pool s)[t := (team_pool s ! t)\<lparr>team_level := team_level (team_pool s ! parent) + 1, team_parent := Some parent,
       omp_task_f := fn, omp_args := data, work_share := (work_share (team_pool s ! t))[pid := Some (Root t)]\<rparr>],
     wss := (wss s)(Root t := (wss s (Root t))\<lparr>next_ws := None, prev_ws := None\<rparr>)\<rparr>"

lemma team_begin_eq:
  assumes "unat (idle_cores s) < 2 ^ 31 - 1" "0 \<le> specified" "t < length (team_pool s)" "team_pool_list s = Some t" "curr_team s ! pid = Some parent"
  shows "team_begin pid fn data specified s =
    Some (t, of_nat (team_size specified s), begun pid parent fn data (team_size specified s) t s)"
  using resolve_eq [OF assms(1,2)] assms(3-5)
  by (simp add: team_begin_def Let_def begun_def gomp_new_team_def gomp_pull_team_pool_def gomp_get_curr_team_def upd_team_def upd_ws_def)

lemma begun_simps [simp]:
  "thread_pool (begun pid parent fn data n t s) = thread_pool s" "curr_team (begun pid parent fn data n t s) = curr_team s"
  "lru_team (begun pid parent fn data n t s) = lru_team s" "idle_cores (begun pid parent fn data n t s) = idle_cores s - of_nat (n - 1)"
  "team_pool_list (begun pid parent fn data n t s) = team_next (team_pool s ! t)" "hw_barrier (begun pid parent fn data n t s) = hw_barrier s"
  "length (team_pool (begun pid parent fn data n t s)) = length (team_pool s)" "l1_heap (begun pid parent fn data n t s) = l1_heap s"
  "ws_pool_list (begun pid parent fn data n t s) = ws_pool_list s"
  "u \<noteq> t \<Longrightarrow> team_pool (begun pid parent fn data n t s) ! u = team_pool s ! u"
  by (simp_all add: begun_def)

text \<open>Idle cores are counted right.\<close>

lemma free_count:
  assumes "team_inv np r free live s"
  shows "length (free_cores [1 ..< np] s) = unat (idle_cores s)" "unat (idle_cores s) < np"
    "set (free_cores [1 ..< np] s) = {1 ..< np} - used live" "distinct (free_cores [1 ..< np] s)"
proof -
  have bits: "\<forall>i < 32. bit (thread_pool s) i \<longleftrightarrow> i \<in> used live" and sub: "used live \<subseteq> {..<np}"
    and cnt: "unat (idle_cores s) + card (used live) = np" and np: "np \<le> 8"
    using assms by (simp_all add: team_inv_def shape_ok_def hw_consts)
  show set: "set (free_cores [1 ..< np] s) = {1 ..< np} - used live"
    using bits np by (auto simp: free_cores_def)
  show dist: "distinct (free_cores [1 ..< np] s)" by (simp add: free_cores_def)
  have "{1 ..< np} - used live = {..<np} - used live"
    using used_0 [of live] by (auto simp: Suc_le_eq) (metis gr0I)
  then have "card ({1 ..< np} - used live) = np - card (used live)"
    using sub by (simp add: card_Diff_subset finite_subset [OF sub])
  then show "length (free_cores [1 ..< np] s) = unat (idle_cores s)"
    using distinct_card [OF dist] set cnt by simp
  have "0 < card (used live)" using used_0 [of live] finite_subset [OF sub] by (auto simp: card_gt_0_iff)
  then show "unat (idle_cores s) < np" using cnt by linarith
qed

definition taken_cores :: "nat \<Rightarrow> nat \<Rightarrow> gomp_data_t \<Rightarrow> nat list" where
  "taken_cores np n s = take (n - 1) (free_cores [1 ..< np] s)"

lemma unat_of_nat_u32: "n < 2 ^ 32 \<Longrightarrow> unat (of_nat n :: u32) = n"
  by (simp add: unsigned_of_nat take_bit_nat_eq_self)

text \<open>The descriptor before the search.\<close>

definition seeded :: "nat \<Rightarrow> nat \<Rightarrow> nat \<Rightarrow> gomp_data_t \<Rightarrow> gomp_data_t" where
  "seeded pid n t = upd_team t (\<lambda>d. d\<lparr>team_mask := push_bit pid 1, team_nthreads := of_nat n, thread_ids := (thread_ids d)[pid := 0],
     proc_ids := (proc_ids d)[0 := of_nat pid]\<rparr>)"

lemma seeded_simps [simp]:
  "thread_pool (seeded pid n t s) = thread_pool s" "curr_team (seeded pid n t s) = curr_team s"
  "lru_team (seeded pid n t s) = lru_team s" "idle_cores (seeded pid n t s) = idle_cores s"
  "team_pool_list (seeded pid n t s) = team_pool_list s" "hw_barrier (seeded pid n t s) = hw_barrier s" "wss (seeded pid n t s) = wss s"
  "l1_heap (seeded pid n t s) = l1_heap s" "ws_pool_list (seeded pid n t s) = ws_pool_list s"
  "length (team_pool (seeded pid n t s)) = length (team_pool s)" "u \<noteq> t \<Longrightarrow> team_pool (seeded pid n t s) ! u = team_pool s ! u"
  by (simp_all add: seeded_def upd_team_def)

lemma team_miss_eq:
  assumes "1 \<le> n" "n \<le> 8" "np \<le> 8"
  shows "team_miss np pid t (of_nat n) s = grab t 1 (taken_cores np n s) (seeded pid n t s)"
proof -
  have "unat (of_nat n - 1 :: u32) = n - 1"
    using assms by (cases n) (simp_all add: unat_of_nat_u32)
  moreover have "free_cores [1 ..< np] (seeded pid n t s) = free_cores [1 ..< np] s" by (simp add: free_cores_def)
  ultimately show ?thesis using assms(3) unfolding team_miss_def seeded_def [symmetric]
    by (subst fetch_cores_grab) (auto simp: taken_cores_def)
qed

lemma team_invD:
  assumes "team_inv np r free live s"
  shows "shape_ok np s" "team_list (team_pool s) (team_pool_list s) free" "distinct (r # map fst live @ free)"
    "set (r # map fst live @ free) = {..<4}" "i < 32 \<Longrightarrow> bit (thread_pool s) i \<longleftrightarrow> i \<in> used live" "used live \<subseteq> {..<np}"
    "unat (idle_cores s) + card (used live) = np" "p \<in> used live \<Longrightarrow> curr_team s ! p = Some (cur r live p)"
    "nest_ok r (team_pool s) live" "(t, m, S) \<in> set live \<Longrightarrow> desc_ok s t m S" "first_ok np free live s"
  using assms unfolding team_inv_def MAX_TEAM_DESC_def by (elim conjE, blast)+

lemma team_invI:
  assumes "shape_ok np s" "team_list (team_pool s) (team_pool_list s) free" "distinct (r # map fst live @ free)"
    "set (r # map fst live @ free) = {..<4}" "\<forall>i < 32. bit (thread_pool s) i \<longleftrightarrow> i \<in> used live" "used live \<subseteq> {..<np}"
    "unat (idle_cores s) + card (used live) = np" "\<forall>p \<in> used live. curr_team s ! p = Some (cur r live p)"
    "nest_ok r (team_pool s) live" "\<forall>(t, m, S) \<in> set live. desc_ok s t m S" "first_ok np free live s"
  shows "team_inv np r free live s"
  unfolding team_inv_def MAX_TEAM_DESC_def using assms by (intro conjI)

lemma shapeD:
  assumes "shape_ok np s"
  shows "1 \<le> np" "np \<le> 8" "length (team_pool s) = 4" "length (curr_team s) = 8"
    "t < 4 \<Longrightarrow> barrier_id (team_pool s ! t) = of_nat t" "t < 4 \<Longrightarrow> length (proc_ids (team_pool s ! t)) = 8"
    "t < 4 \<Longrightarrow> length (thread_ids (team_pool s ! t)) = 8" "t < 4 \<Longrightarrow> length (work_share (team_pool s ! t)) = 8"
  using assms by (simp_all add: shape_ok_def hw_consts)

text \<open>A region of the first level starts when no other is open.\<close>

lemma level_1_iff:
  assumes inv: "team_inv np r free live s" and p: "p \<in> used live"
  shows "team_level (team_pool s ! cur r live p) + 1 = 1 \<longleftrightarrow> live = []"
    "unat (team_level (team_pool s ! cur r live p) + 1) = Suc (unat (team_level (team_pool s ! cur r live p)))"
proof -
  note i = team_invD [OF inv]
  have "length live \<le> 4"
    using distinct_card [OF i(3)] i(4) by simp
  define l where "l = team_level (team_pool s ! cur r live p)"
  have cs: "live = [] \<and> unat l = 0 \<or> live \<noteq> [] \<and> 0 < unat l \<and> unat l \<le> length live"
  proof (cases "live = []")
    case True
    then show ?thesis using i(9) by (simp add: l_def)
  next
    case False
    then have "\<exists>t S. last live = (t, 0, S)" using i(11) by (auto simp: first_ok_def split: prod.splits)
    then have "cur r live p \<in> fst ` set live" using cur_live [OF i(9) False p] by simp
    then show ?thesis using level_live [OF i(9)] False by (auto simp: l_def)
  qed
  then have "unat l \<le> 4" using \<open>length live \<le> 4\<close> by auto
  then have u: "unat (l + 1) = Suc (unat l)" by (simp add: unat_word_ariths)
  have "l + 1 = 1 \<longleftrightarrow> unat l = 0" by (simp add: unat_eq_0)
  then show "team_level (team_pool s ! cur r live p) + 1 = 1 \<longleftrightarrow> live = []" using cs unfolding l_def [symmetric] by auto
  show "unat (team_level (team_pool s ! cur r live p) + 1) = Suc (unat (team_level (team_pool s ! cur r live p)))"
    using u unfolding l_def .
qed

lemma taken_facts:
  assumes inv: "team_inv np r free live s" and n: "1 \<le> n" "n \<le> Suc (unat (idle_cores s))"
  defines "F \<equiv> taken_cores np n s"
  shows "length F = n - 1" "distinct F" "set F \<subseteq> {1 ..< np}" "set F \<inter> used live = {}" "n \<le> 8" "\<forall>i \<in> set F. i < 8"
    "card (set F) = n - 1" "finite (set F)"
proof -
  note f = free_count [OF inv] and sh = shapeD [OF team_invD(1) [OF inv]]
  show len: "length F = n - 1" using f(1) n by (simp add: F_def taken_cores_def)
  show d: "distinct F" using f(4) by (simp add: F_def taken_cores_def)
  have "set F \<subseteq> set (free_cores [1 ..< np] s)" unfolding F_def taken_cores_def by (rule set_take_subset)
  then show "set F \<subseteq> {1 ..< np}" "set F \<inter> used live = {}" unfolding f(3) by auto
  then show "\<forall>i \<in> set F. i < 8" using sh(2) by auto
  show "n \<le> 8" using n f(2) sh(2) by linarith
  show "card (set F) = n - 1" using distinct_card [OF d] len by simp
qed simp

text \<open>Reusing the last team has the same effect as a search.\<close>

lemma first_taken:
  assumes inv: "team_inv np r free [] s" and n: "1 \<le> n" "n \<le> np"
  shows "taken_cores np n s = [1 ..< n]"
proof -
  have "\<forall>i \<in> set [1 ..< np]. \<not> bit (thread_pool s) i"
    using team_invD(5) [OF inv] shapeD(2) [OF team_invD(1) [OF inv]] by auto
  then have "free_cores [1 ..< np] s = [1 ..< np]" by (simp add: free_cores_def filter_id_conv)
  then show ?thesis using n by (simp add: taken_cores_def take_upt)
qed

lemma hit_team:
  assumes sh: "shape_ok np s" and t: "t < 4" and w: "warm (team_pool s ! t)" and n: "1 \<le> n" "n \<le> unat (team_nthreads (team_pool s ! t))" "n \<le> 8"
  shows "(team_pool s ! t)\<lparr>team_mask := mask n, team_nthreads := of_nat n\<rparr> =
     team_pool (grab t 1 [1 ..< n] (seeded 0 n t s)) ! t"
proof -
  define d where "d = team_pool (grab t 1 [1 ..< n] (seeded 0 n t s)) ! t"
  note sd = shapeD [OF sh]
  have t': "t < length (team_pool (seeded 0 n t s))" using t sd(3) by simp
  have d0: "team_pool (seeded 0 n t s) ! t = (team_pool s ! t)\<lparr>team_mask := push_bit 0 1, team_nthreads := of_nat n,
      thread_ids := (thread_ids (team_pool s ! t))[0 := 0], proc_ids := (proc_ids (team_pool s ! t))[0 := of_nat 0]\<rparr>"
    using t sd(3) by (simp add: seeded_def upd_team_def)
  have ids: "(\<forall>k < n - 1. proc_ids d ! (1 + k) = of_nat (1 + k) \<and> thread_ids d ! (1 + k) = 1 + of_nat k) \<and>
      (\<forall>j. j = 0 \<or> n \<le> j \<longrightarrow> proc_ids d ! j = ((proc_ids (team_pool s ! t))[0 := of_nat 0]) ! j) \<and> (\<forall>j. j \<notin> {1 ..< n} \<longrightarrow> thread_ids d ! j = ((thread_ids (team_pool s ! t))[0 := 0]) ! j)"
    using grab_ids [OF t', of "[1 ..< n]" 1] n(1,3) sd(6,7) [OF t] unfolding d_def [symmetric] d0 by auto
  have low: "thread_ids (team_pool s ! t) ! i = of_nat i \<and> proc_ids (team_pool s ! t) ! i = of_nat i" if "i < n" for i
    using w n(2) that by (auto simp: warm_def)
  have len: "length (proc_ids d) = 8" "length (thread_ids d) = 8"
    using grab_team(10,11) [OF t', of 1 "[1 ..< n]"] sd(6,7) [OF t] d0 by (simp_all add: d_def)
  have pi: "proc_ids d = proc_ids (team_pool s ! t)"
  proof (rule nth_equalityI)
    fix i assume "i < length (proc_ids d)"
    show "proc_ids d ! i = proc_ids (team_pool s ! t) ! i"
    proof (cases "i \<in> {1 ..< n}")
      case True
      then obtain k where "i = Suc k" "k < n - 1" by (cases i) auto
      then show ?thesis using ids low [of i] by auto
    next
      case False
      then have "i = 0 \<or> n \<le> i" by auto
      then have "proc_ids d ! i = ((proc_ids (team_pool s ! t))[0 := of_nat 0]) ! i" using ids by blast
      then show ?thesis using low [of 0] n(1) sd(6) [OF t] by (cases i) auto
    qed
  qed (use len sd(6) [OF t] in simp)
  have ti: "thread_ids d = thread_ids (team_pool s ! t)"
  proof (rule nth_equalityI)
    fix i assume "i < length (thread_ids d)"
    show "thread_ids d ! i = thread_ids (team_pool s ! t) ! i"
    proof (cases "i \<in> {1 ..< n}")
      case True
      then obtain k where "i = Suc k" "k < n - 1" by (cases i) auto
      then show ?thesis using ids low [of i] by auto
    next
      case False
      then show ?thesis using ids low [of 0] n(1) sd(7) [OF t] by (cases i) auto
    qed
  qed (use len sd(7) [OF t] in simp)
  have "\<forall>i \<in> set [1 ..< n]. i < 32" using n(3) by auto
  then have m: "bit (team_mask d) j \<longleftrightarrow> j = 0 \<or> j \<in> {1 ..< n}" for j
    using grab_mask [OF t', of "[1 ..< n]" 1 j] unfolding d_def [symmetric] d0 by (simp add: bit_1_iff)
  have "team_mask d = mask n"
    by (rule bit_word_eqI) (use n(1) in \<open>auto simp: m bit_mask_iff\<close>)
  then have "d = (team_pool s ! t)\<lparr>team_mask := mask n, team_nthreads := of_nat n\<rparr>"
    using grab_team [OF t', of 1 "[1 ..< n]"] pi ti unfolding d_def [symmetric] d0 by (intro gomp_team_t.equality) simp_all
  then show ?thesis by (simp add: d_def)
qed

lemma hit_eq_miss:
  assumes sh: "shape_ok np s" and t: "t < 4" and w: "warm (team_pool s ! t)" and n: "1 \<le> n" "n \<le> unat (team_nthreads (team_pool s ! t))" "n \<le> 8"
    and pool: "\<forall>i < 32. bit (thread_pool s) i \<longleftrightarrow> i = 0" and curr: "\<forall>i \<in> {1 ..< n}. curr_team s ! i = Some t"
  shows "team_hit t (of_nat n) s = Some (grab t 1 [1 ..< n] (seeded 0 n t s))"
proof -
  note sd = shapeD [OF sh]
  let ?g = "grab t 1 [1 ..< n] (seeded 0 n t s)"
  have "curr_team ?g = curr_team s"
    by (rule nth_equalityI) (use grab_curr [of "[1 ..< n]" "seeded 0 n t s"] sd(4) n(3) curr in auto)
  moreover have "thread_pool ?g = thread_pool s OR mask n"
    using n(1,3) pool by (intro bit_word_eqI) (auto simp: grab_pool bit_or_iff bit_mask_iff)
  moreover have "team_pool ?g = (team_pool s)[t := (team_pool s ! t)\<lparr>team_mask := mask n, team_nthreads := of_nat n\<rparr>]"
    by (rule nth_equalityI) (use hit_team [OF sh t w n] sd(3) t in \<open>auto simp: nth_list_update\<close>)
  ultimately have "?g = gomp_alloc_thread_pool (mask n) (upd_team t (\<lambda>d. d\<lparr>team_mask := mask n, team_nthreads := of_nat n\<rparr>) s)"
    by (intro gomp_data_t.equality) (simp_all add: gomp_alloc_thread_pool_def upd_team_def seeded_def)
  moreover have "getBitmask (of_nat n) = Some (mask n)"
    using n(1,3) unat_of_nat_u32 [of n] by (simp add: getBitmask_def word_le_nat_alt)
  ultimately show ?thesis by (simp add: team_hit_def)
qed

subsection \<open>Starting a region\<close>

definition started :: "nat \<Rightarrow> nat \<Rightarrow> nat \<Rightarrow> u32 \<Rightarrow> u32 \<Rightarrow> nat \<Rightarrow> nat \<Rightarrow> gomp_data_t \<Rightarrow> gomp_data_t" where
  "started np p parent fn data n t s =
     team_commit p t (grab t 1 (taken_cores np n s) (seeded p n t (begun p parent fn data n t s)))"

lemma free_head:
  assumes "team_inv np r (t # fr) live s"
  shows "t < 4" "t \<noteq> r" "t \<notin> fst ` set live" "t \<notin> set fr" "team_pool_list s = Some t" "p \<in> used live \<Longrightarrow> cur r live p \<noteq> t"
proof -
  note i = team_invD [OF assms]
  show "t < 4" "t \<noteq> r" "t \<notin> fst ` set live" "t \<notin> set fr" "team_pool_list s = Some t" using i(2-4) by auto
  then show "p \<in> used live \<Longrightarrow> cur r live p \<noteq> t" using cur_mem [of p live r] by auto
qed

lemma begun_shape: "shape_ok np s \<Longrightarrow> t < 4 \<Longrightarrow> shape_ok np (begun p parent fn data n t s)"
  by (auto simp: shape_ok_def hw_consts begun_def nth_list_update)

lemma begun_team:
  assumes "t < length (team_pool s)"
  shows "team_pool (begun p parent fn data n t s) ! t = (team_pool s ! t)\<lparr>team_level := team_level (team_pool s ! parent) + 1,
     team_parent := Some parent, omp_task_f := fn, omp_args := data, work_share := (work_share (team_pool s ! t))[p := Some (Root t)]\<rparr>"
  using assms by (simp add: begun_def)

lemma team_start_eq:
  assumes inv: "team_inv np r (t # fr) live s" and p: "p \<in> used live" and sp: "0 \<le> specified"
  defines "n \<equiv> team_size specified s" and "parent \<equiv> cur r live p"
  shows "gomp_team_start np p fn data specified s = Some (t, started np p parent fn data n t s)" "1 \<le> n" "n \<le> Suc (unat (idle_cores s))"
proof -
  note i = team_invD [OF inv] and h = free_head [OF inv]
  note sd = shapeD [OF i(1)]
  have idle: "unat (idle_cores s) < 2 ^ 31 - 1" using free_count(2) [OF inv] sd(2) by simp
  note n = resolve_eq(2,3) [OF idle sp, folded n_def]
  show "1 \<le> n" "n \<le> Suc (unat (idle_cores s))" using n .
  note F = taken_facts [OF inv n]
  let ?s1 = "begun p parent fn data n t s"
  have tl: "t < length (team_pool s)" using h(1) sd(3) by simp
  have begin': "team_begin p fn data specified s = Some (t, of_nat n, ?s1)"
    using team_begin_eq [OF idle sp tl h(5) i(8) [OF p]] by (simp add: n_def parent_def)
  have taken: "taken_cores np n ?s1 = taken_cores np n s" by (simp add: taken_cores_def free_cores_def)
  have miss: "team_miss np p t (of_nat n) ?s1 = grab t 1 (taken_cores np n s) (seeded p n t ?s1)"
    using team_miss_eq [OF n(1) F(5) sd(2), of p t ?s1] taken by simp
  have T1: "team_level (team_pool ?s1 ! t) = team_level (team_pool s ! parent) + 1"
    "team_nthreads (team_pool ?s1 ! t) = team_nthreads (team_pool s ! t)" using tl by (simp_all add: begun_team)
  show "gomp_team_start np p fn data specified s = Some (t, started np p parent fn data n t s)"
  proof (cases "team_level (team_pool ?s1 ! t) = 1 \<and> lru_team ?s1 = Some t \<and> team_nthreads (team_pool ?s1 ! t) \<ge> of_nat n")
    case True
    then have live: "live = []" using level_1_iff(1) [OF inv p] T1(1) by (simp add: parent_def)
    then have p0: "p = 0" using p by simp
    have first: "warm (team_pool s ! t)" "unat (team_nthreads (team_pool s ! t)) \<le> np"
      "\<forall>i \<in> {1 ..< unat (team_nthreads (team_pool s ! t))}. curr_team s ! i = Some t"
      using i(11) live by (simp_all add: first_ok_def)
    have le: "n \<le> unat (team_nthreads (team_pool s ! t))"
      using True T1(2) unat_of_nat_u32 [of n] F(5) by (simp add: word_le_nat_alt)
    have warm1: "warm (team_pool ?s1 ! t)" using first(1) tl by (simp add: warm_def begun_team)
    have pool: "\<forall>i < 32. bit (thread_pool ?s1) i \<longleftrightarrow> i = 0" using i(5) live by simp
    have "team_hit t (of_nat n) ?s1 = Some (grab t 1 [1 ..< n] (seeded 0 n t ?s1))"
      using hit_eq_miss [OF begun_shape [OF i(1) h(1)] h(1) warm1 n(1) _ F(5) pool] le first(3) T1(2) by simp
    then show ?thesis
      using begin' True first_taken [OF inv [unfolded live] n(1)] le first(2) p0 by (simp add: gomp_team_start_def started_def)
  next
    case False
    then show ?thesis using begin' miss unfolding gomp_team_start_def started_def by (simp only: bind.bind_lunit if_False case_prod_conv Let_def)
  qed
qed

lemma commit_simps [simp]:
  "thread_pool (team_commit p t s) = thread_pool s" "idle_cores (team_commit p t s) = idle_cores s"
  "curr_team (team_commit p t s) = (curr_team s)[p := Some t]" "lru_team (team_commit p t s) = lru_team s"
  "team_pool_list (team_commit p t s) = team_pool_list s" "team_pool (team_commit p t s) = team_pool s"
  "wss (team_commit p t s) = wss s" "l1_heap (team_commit p t s) = l1_heap s" "ws_pool_list (team_commit p t s) = ws_pool_list s"
  "hw_barrier (team_commit p t s) = (hw_barrier s)(barrier_id (team_pool s ! t) := team_mask (team_pool s ! t))"
  by (simp_all add: team_commit_def gomp_set_curr_team_def gomp_hal_set_hwBarrier_def)

lemma seeded_team:
  "t < length (team_pool s) \<Longrightarrow> team_pool (seeded p n t s) ! t = (team_pool s ! t)\<lparr>team_mask := push_bit p 1, team_nthreads := of_nat n,
     thread_ids := (thread_ids (team_pool s ! t))[p := 0], proc_ids := (proc_ids (team_pool s ! t))[0 := of_nat p]\<rparr>"
  by (simp add: seeded_def upd_team_def)

text \<open>The descriptor of the new team: the master has number 0, and the slaves are numbered in the order they were found.\<close>

lemma started_desc:
  fixes parent :: nat and fn data :: u32
  assumes inv: "team_inv np r (t # fr) live s" and p: "p \<in> used live" and n: "1 \<le> n" "n \<le> Suc (unat (idle_cores s))"
  defines "F \<equiv> taken_cores np n s" and "d \<equiv> team_pool (started np p parent fn data n t s) ! t"
  shows "team_nthreads d = of_nat n" "team_level d = team_level (team_pool s ! parent) + 1" "team_parent d = Some parent"
    "barrier_id d = of_nat t" "work_share d ! p = Some (Root t)" "length (proc_ids d) = 8" "length (thread_ids d) = 8"
    "length (work_share d) = 8" "j < 32 \<Longrightarrow> bit (team_mask d) j \<longleftrightarrow> j = p \<or> j \<in> set F"
    "thread_ids d ! p = 0" "proc_ids d ! 0 = of_nat p"
    "k < length F \<Longrightarrow> proc_ids d ! Suc k = of_nat (F ! k) \<and> thread_ids d ! (F ! k) = of_nat (Suc k)"
proof -
  note h = free_head [OF inv] and sd = shapeD [OF team_invD(1) [OF inv]] and Ff = taken_facts [OF inv n, folded F_def]
  have pnp: "p < 8" using team_invD(6) [OF inv] p sd(2) by auto
  have pF: "p \<notin> set F" using Ff(4) p by blast
  let ?s1 = "begun p parent fn data n t s"
  let ?s2 = "seeded p n t ?s1"
  have tl: "t < length (team_pool s)" "t < length (team_pool ?s1)" "t < length (team_pool ?s2)" using h(1) sd(3) by simp_all
  have d: "d = team_pool (grab t 1 F ?s2) ! t" by (simp add: d_def started_def F_def)
  note g = grab_team [OF tl(3), of 1 F] and s2 = seeded_team [OF tl(2)] and s1 = begun_team [OF tl(1)]
  show "team_nthreads d = of_nat n" "team_level d = team_level (team_pool s ! parent) + 1" "team_parent d = Some parent"
    "barrier_id d = of_nat t" "work_share d ! p = Some (Root t)" "length (proc_ids d) = 8" "length (thread_ids d) = 8" "length (work_share d) = 8"
    unfolding d g using sd(5-8) [OF h(1)] pnp by (simp_all add: s2 s1)
  have "\<forall>i \<in> set F. i < 32" using Ff(6) by auto
  then show "j < 32 \<Longrightarrow> bit (team_mask d) j \<longleftrightarrow> j = p \<or> j \<in> set F"
    unfolding d by (auto simp: grab_mask [OF tl(3)] s2 bit_exp_iff)
  have "unat (1 :: u32) + length F \<le> 8" using Ff(1,5) n(1) by simp
  note ids = grab_ids [OF tl(3) Ff(2) this Ff(6)]
  have ids: "(\<forall>k < length F. proc_ids d ! Suc k = of_nat (F ! k) \<and> thread_ids d ! (F ! k) = 1 + of_nat k) \<and>
      (\<forall>j. j < 1 \<or> 1 + length F \<le> j \<longrightarrow> proc_ids d ! j = proc_ids (team_pool ?s2 ! t) ! j) \<and>
      (\<forall>j. j \<notin> set F \<longrightarrow> thread_ids d ! j = thread_ids (team_pool ?s2 ! t) ! j)"
    using ids sd(6,7) [OF h(1)] unfolding d by (simp add: s2 s1)
  then show "thread_ids d ! p = 0" "proc_ids d ! 0 = of_nat p" using pF pnp sd(6,7) [OF h(1)] by (auto simp: s2 s1)
  show "k < length F \<Longrightarrow> proc_ids d ! Suc k = of_nat (F ! k) \<and> thread_ids d ! (F ! k) = of_nat (Suc k)" using ids by simp
qed

lemma started_others:
  "u \<noteq> t \<Longrightarrow> team_pool (started np p parent fn data n t s) ! u = team_pool s ! u"
  by (simp add: started_def)

lemma started_desc_ok:
  assumes inv: "team_inv np r (t # fr) live s" and p: "p \<in> used live" and n: "1 \<le> n" "n \<le> Suc (unat (idle_cores s))"
  shows "desc_ok (started np p parent fn data n t s) t p (set (taken_cores np n s))"
proof -
  define F where "F = taken_cores np n s"
  define s' where "s' = started np p parent fn data n t s"
  note d = started_desc [OF inv p n, where parent = parent and fn = fn and data = data, folded F_def s'_def] and Ff = taken_facts [OF inv n, folded F_def]
  have "unat (thread_ids (team_pool s' ! t) ! j) \<le> card (set F) \<and>
      proc_ids (team_pool s' ! t) ! unat (thread_ids (team_pool s' ! t) ! j) = of_nat j" if j: "j \<in> insert p (set F)" for j
  proof (cases "j = p")
    case True
    then show ?thesis using d(10,11) by simp
  next
    case False
    then obtain k where k: "k < length F" "j = F ! k" using j by (auto simp: in_set_conv_nth)
    have "unat (of_nat (Suc k) :: u32) = Suc k" using k(1) Ff(1,5) by (intro unat_of_nat_u32) simp
    then show ?thesis using d(12) [OF k(1)] k Ff(1,7) by simp
  qed
  moreover have "hw_barrier s' (barrier_id (team_pool s' ! t)) = team_mask (team_pool s' ! t)" by (simp add: s'_def started_def)
  moreover have "unat (team_nthreads (team_pool s' ! t)) = Suc (card (set F))"
    using d(1) Ff(5,7) n(1) unat_of_nat_u32 [of n] by simp
  ultimately show ?thesis using d(5,9,10) unfolding desc_ok_def F_def [symmetric] s'_def [symmetric] Let_def by blast
qed

lemma started_shape:
  assumes inv: "team_inv np r (t # fr) live s" and p: "p \<in> used live" and n: "1 \<le> n" "n \<le> Suc (unat (idle_cores s))"
  shows "shape_ok np (started np p parent fn data n t s)"
proof -
  note sd = shapeD [OF team_invD(1) [OF inv]] and d = started_desc [OF inv p n, where parent = parent and fn = fn and data = data]
  have "barrier_id (team_pool (started np p parent fn data n t s) ! u) = of_nat u \<and>
      length (proc_ids (team_pool (started np p parent fn data n t s) ! u)) = 8 \<and>
      length (thread_ids (team_pool (started np p parent fn data n t s) ! u)) = 8 \<and>
      length (work_share (team_pool (started np p parent fn data n t s) ! u)) = 8" if "u < 4" for u
    using d(4,6-8) sd(5-8) [OF that] by (cases "u = t") (simp_all add: started_others)
  then show ?thesis using sd(1-4) by (simp add: shape_ok_def hw_consts started_def)
qed

lemma started_first:
  assumes inv: "team_inv np r (t # fr) live s" and p: "p \<in> used live" and n: "1 \<le> n" "n \<le> Suc (unat (idle_cores s))"
  shows "first_ok np fr ((t, p, set (taken_cores np n s)) # live) (started np p parent fn data n t s)"
proof (cases "live = []")
  case True
  define d where "d = team_pool (started np p parent fn data n t s) ! t"
  note sd = started_desc [OF inv p n, where parent = parent and fn = fn and data = data, folded d_def]
  note c = team_invD(6,7) [OF inv]
  have np: "n \<le> np" using n(2) c(2) True by simp
  have p0: "p = 0" using p True by simp
  have F: "taken_cores np n s = [1 ..< n]" using first_taken [OF inv [unfolded True] n(1) np] .
  have un: "unat (team_nthreads d) = n" using sd(1) taken_facts(5) [OF inv n] unat_of_nat_u32 [of n] by simp
  have "thread_ids d ! i = of_nat i \<and> proc_ids d ! i = of_nat i" if "i < n" for i
    using sd(10,11) sd(12) [of "i - 1"] that F p0 by (cases i) auto
  then show ?thesis using True n(1) np F p0 un by (simp add: first_ok_def warm_def d_def)
next
  case False
  obtain t1 m1 S1 where l: "last live = (t1, m1, S1)" by (cases "last live")
  then have "t1 \<noteq> t" using last_in_set [OF False] free_head(3) [OF inv] by (metis fst_conv imageI)
  then show ?thesis using team_invD(11) [OF inv] False l by (simp add: first_ok_def started_others)
qed

lemma start_inv:
  assumes inv: "team_inv np r (t # fr) live s" and p: "p \<in> used live" and n: "1 \<le> n" "n \<le> Suc (unat (idle_cores s))"
  shows "team_inv np r fr ((t, p, set (taken_cores np n s)) # live) (started np p (cur r live p) fn data n t s)"
proof -
  define F where "F = taken_cores np n s"
  define s' where "s' = started np p (cur r live p) fn data n t s"
  note i = team_invD [OF inv] and h = free_head [OF inv]
  note sd = shapeD [OF i(1)] and Ff = taken_facts [OF inv n, folded F_def]
  note d = started_desc [OF inv p n, where parent = "cur r live p" and fn = fn and data = data, folded F_def s'_def]
  note lv = level_1_iff [OF inv p]
  have oth: "team_pool s' ! u = team_pool s ! u" if "u \<noteq> t" for u using that by (simp add: s'_def started_others)
  have F32: "\<forall>j \<in> set F. j < 32" "\<forall>j \<in> set F. j < length (curr_team s)" using Ff(6) sd(4) by auto
  have fin: "finite (used live)" using i(6) finite_subset by blast
  have "set F \<union> used live \<subseteq> {..<np}" using Ff(3) i(6) by auto
  moreover have "team_list (team_pool s') (team_pool_list s') fr"
  proof -
    have "team_list (team_pool s) (team_next (team_pool s ! t)) fr" using i(2) by simp
    moreover have "team_pool_list s' = team_next (team_pool s ! t)" by (simp add: s'_def started_def)
    ultimately show ?thesis using h(4) team_list_cong [of fr "team_pool s'" "team_pool s"] oth by metis
  qed
  moreover have "\<forall>j < 32. bit (thread_pool s') j \<longleftrightarrow> j \<in> set F \<union> used live"
    using F32(1) i(5) by (auto simp: s'_def started_def grab_pool simp flip: F_def)
  moreover have "unat (idle_cores s') + card (set F \<union> used live) = np"
  proof -
    have small: "n - 1 \<le> unat (idle_cores s)" using n by simp
    have un: "unat (of_nat (n - 1) :: u32) = n - 1" by (rule unat_of_nat_u32) (use Ff(5) in simp)
    have "unat (idle_cores s - of_nat (n - 1)) = unat (idle_cores s) - (n - 1)"
      using small un unat_sub [of "of_nat (n - 1)" "idle_cores s"] by (simp only: word_le_nat_alt)
    then have "unat (idle_cores s') = unat (idle_cores s) - (n - 1)" by (simp add: s'_def started_def)
    moreover have "card (set F \<union> used live) = n - 1 + card (used live)"
      using Ff(4,7) fin by (simp add: card_Un_disjoint)
    ultimately show ?thesis using i(7) small by simp
  qed
  moreover have "\<forall>q \<in> set F \<union> used live. curr_team s' ! q = Some (cur r ((t, p, set F) # live) q)"
  proof
    fix q assume q: "q \<in> set F \<union> used live"
    then have "q < length (curr_team s)" using calculation(1) sd(2,4) by auto
    moreover have "p < length (curr_team s)" using i(6) p sd(2,4) by auto
    moreover have "curr_team s' = (curr_team (grab t 1 F (seeded p n t (begun p (cur r live p) fn data n t s))))[p := Some t]"
      by (simp add: s'_def started_def F_def)
    ultimately show "curr_team s' ! q = Some (cur r ((t, p, set F) # live) q)"
      using q i(8) [of q] F32(2) by (auto simp: nth_list_update grab_curr)
  qed
  moreover have "nest_ok r (team_pool s') ((t, p, set F) # live)"
  proof -
    have "nest_ok r (team_pool s') live" by (rule nest_ok_cong [OF i(9)]) (metis oth h(2,3))
    then show ?thesis using p Ff(4) d(2,3) lv(2) oth [OF h(6) [OF p]] by simp
  qed
  moreover have "\<forall>(u, m, S) \<in> set ((t, p, set F) # live). desc_ok s' u m S"
  proof -
    have "desc_ok s' u m S" if x: "(u, m, S) \<in> set live" for u m S
    proof -
      have u: "u \<noteq> t" "u < 4" using x h(3) i(4) by force+
      have "of_nat u \<noteq> (of_nat t :: u32)" using u h(1) of_nat_u32_eq [of u t] by simp
      then have hb: "hw_barrier s' (barrier_id (team_pool s ! u)) = hw_barrier s (barrier_id (team_pool s ! u))"
        using sd(5) [OF u(2)] d(4) by (simp add: s'_def started_def)
      show ?thesis using i(10) [OF x] unfolding desc_ok_def Let_def oth [OF u(1)] hb .
    qed
    then show ?thesis using started_desc_ok [OF inv p n, of "cur r live p" fn data] by (auto simp: F_def s'_def)
  qed
  ultimately show ?thesis
    using started_shape [OF inv p n, of "cur r live p" fn data] started_first [OF inv p n, of "cur r live p" fn data] i(3,4)
    unfolding team_inv_def F_def [symmetric] s'_def [symmetric] by (auto simp: hw_consts)
qed

subsection \<open>Ending a region\<close>

text \<open>A region can end when its master is in it and its slaves are through with the regions they opened themselves, which
  the barrier at the end waits for.\<close>

definition can_end :: "nat \<Rightarrow> regions \<Rightarrow> nat \<Rightarrow> nat \<Rightarrow> nat set \<Rightarrow> bool" where
  "can_end r live t m S \<longleftrightarrow> (t, m, S) \<in> set live \<and> (\<forall>q \<in> insert m S. cur r live q = t)"

definition close_region :: "nat \<Rightarrow> regions \<Rightarrow> regions" where
  "close_region t live = filter (\<lambda>x. fst x \<noteq> t) live"

lemma close_split:
  assumes "distinct (map fst live)" "can_end r live t m S"
  obtains l1 l2 where "live = l1 @ (t, m, S) # l2" "close_region t live = l1 @ l2"
    "\<forall>(u, m', S') \<in> set l1. m' \<notin> insert m S \<and> S' \<inter> insert m S = {}"
proof -
  obtain l1 l2 where live: "live = l1 @ (t, m, S) # l2" using assms(2) by (auto simp: can_end_def dest: split_list)
  have ids: "t \<notin> fst ` set l1" "t \<notin> fst ` set l2" using assms(1) by (auto simp: live)
  then have "filter (\<lambda>x. fst x \<noteq> t) l1 = l1" "filter (\<lambda>x. fst x \<noteq> t) l2 = l2" by (auto simp: filter_id_conv)
  then have close: "close_region t live = l1 @ l2" by (simp add: live close_region_def)
  have out: "q \<noteq> m' \<and> q \<notin> S'" if q: "q \<in> insert m S" and x: "(u, m', S') \<in> set l1" for q u m' S'
  proof (rule ccontr)
    assume "\<not> (q \<noteq> m' \<and> q \<notin> S')"
    then have "cur r (l1 @ l) q \<in> fst ` set l1" for l using x by (induction l1 rule: used.induct) auto
    then have "cur r live q \<in> fst ` set l1" by (simp add: live)
    moreover have "cur r live q = t" using assms(2) q by (auto simp: can_end_def)
    ultimately show False using ids(1) by simp
  qed
  show thesis by (rule that [OF live close]) (use out in blast)
qed

lemma used_append: "used (l1 @ l2) = (\<Union>(u, m, S) \<in> set l1. S) \<union> used l2"
  by (induction l1 rule: used.induct) auto

lemma cur_skip: "q \<noteq> m \<Longrightarrow> q \<notin> S \<Longrightarrow> cur r (l1 @ (t, m, S) # l2) q = cur r (l1 @ l2) q"
  by (induction l1 rule: used.induct) auto

lemma cur_out: "\<forall>(u, m', S') \<in> set l1. q \<noteq> m' \<and> q \<notin> S' \<Longrightarrow> cur r (l1 @ l2) q = cur r l2 q"
  by (induction l1 rule: used.induct) auto

lemma nest_close:
  "nest_ok r T (l1 @ (t, m, S) # l2) \<Longrightarrow> \<forall>(u, m', S') \<in> set l1. m' \<notin> insert m S \<and> S' \<inter> insert m S = {} \<Longrightarrow>
     nest_ok r T (l1 @ l2) \<and> S \<inter> used (l1 @ l2) = {} \<and> m \<in> used (l1 @ l2)"
proof (induction l1 rule: used.induct)
  case (2 u m' S' l)
  have "m' \<in> used (l @ l2)" using 2(2,3) by (auto simp: used_append)
  moreover have "S' \<inter> used (l @ l2) = {}" using 2(2) by (auto simp: used_append)
  moreover have "cur r (l @ (t, m, S) # l2) m' = cur r (l @ l2) m'" using 2(3) by (simp add: cur_skip)
  ultimately show ?case using 2 by auto
qed auto

text \<open>The state after \<open>gomp_team_end\<close>.\<close>

definition ended :: "nat \<Rightarrow> nat \<Rightarrow> gomp_data_t \<Rightarrow> gomp_data_t" where
  "ended p t s = (let d = team_pool s ! t in
     s\<lparr>idle_cores := idle_cores s + (team_nthreads d - 1), thread_pool := thread_pool s AND (NOT (team_mask d) OR push_bit p 1),
       curr_team := (curr_team s)[p := team_parent d], lru_team := Some t, team_pool_list := Some t,
       team_pool := (team_pool s)[t := d\<lparr>team_next := team_pool_list s\<rparr>]\<rparr>)"

lemma team_end_eq:
  assumes "curr_team s ! p = Some t" "work_share (team_pool s ! t) ! p = Some w"
  shows "gomp_team_end p s = Some ((ended p t s)\<lparr>wss := wss (gomp_free_work_share w s), ws_pool_list := ws_pool_list (gomp_free_work_share w s)\<rparr>)"
  using assms
  by (simp add: gomp_team_end_def gomp_get_curr_team_def gomp_set_curr_team_def gomp_free_work_share_def gomp_push_ws_pool_def
      gomp_free_team_def gomp_push_team_pool_def upd_team_def upd_ws_def Let_def ended_def)

lemma team_inv_ws: "team_inv np r free live (s\<lparr>wss := m, ws_pool_list := l\<rparr>) = team_inv np r free live s"
proof -
  have "shape_ok np (s\<lparr>wss := m, ws_pool_list := l\<rparr>) = shape_ok np s" by (simp add: shape_ok_def)
  moreover have "first_ok np free live (s\<lparr>wss := m, ws_pool_list := l\<rparr>) = first_ok np free live s"
    by (simp add: first_ok_def split: list.split)
  moreover have "desc_ok (s\<lparr>wss := m, ws_pool_list := l\<rparr>) t m' S = desc_ok s t m' S" for t m' S by (simp add: desc_ok_def)
  ultimately show ?thesis by (simp add: team_inv_def)
qed

lemma ended_team:
  assumes "shape_ok np s" "t < 4"
  shows "team_pool (ended p t s) ! u = (if u = t then (team_pool s ! t)\<lparr>team_next := team_pool_list s\<rparr> else team_pool s ! u)"
    "shape_ok np (ended p t s)"
  using assms by (auto simp: ended_def Let_def shape_ok_def hw_consts nth_list_update)

lemma ended_first:
  assumes inv: "team_inv np r free (l1 @ (t, m, S) # l2) s"
    and out: "\<forall>(u, m', S') \<in> set l1. m' \<notin> insert m S \<and> S' \<inter> insert m S = {}"
    and all: "\<forall>q \<in> insert m S. cur r (l1 @ (t, m, S) # l2) q = t"
  shows "first_ok np (t # free) (l1 @ l2) (ended m t s)"
proof -
  note i = team_invD [OF inv]
  have t: "t < 4" "\<forall>x \<in> set l2. fst x \<noteq> t" using i(3,4) by auto
  note e = ended_team [OF i(1) t(1), where p = m]
  have same: "team_nthreads (team_pool (ended m t s) ! u) = team_nthreads (team_pool s ! u)"
    "warm (team_pool (ended m t s) ! u) = warm (team_pool s ! u)" for u by (simp_all add: e(1) warm_def)
  show ?thesis
  proof (cases "l2 = []")
    case False
    then show ?thesis using i(11) same by (simp add: first_ok_def split: prod.splits)
  next
    case True
    then have last: "m = 0" "S = {1 ..< unat (team_nthreads (team_pool s ! t))}" "warm (team_pool s ! t)"
      "unat (team_nthreads (team_pool s ! t)) \<le> np" using i(11) by (simp_all add: first_ok_def)
    have l1: "l1 = []"
    proof (rule ccontr)
      assume "l1 \<noteq> []"
      then obtain l u m' S' where l: "l1 = l @ [(u, m', S')]" by (metis prod_cases3 rev_exhaust)
      have "nest_ok r (team_pool s) (l @ (u, m', S') # [(t, m, S)])" using i(9) by (simp add: l True)
      then have "nest_ok r (team_pool s) ((u, m', S') # [(t, m, S)])" by (induction l rule: used.induct) auto
      then show False using out last(1) by (auto simp: l)
    qed
    have "curr_team (ended m t s) ! j = Some t" if j: "j \<in> S" for j
    proof -
      have "curr_team s ! j = Some t" using i(8) [of j] all j l1 True by simp
      moreover have "j \<noteq> 0" using j last(2) by simp
      ultimately show ?thesis using last(1) by (simp add: ended_def Let_def)
    qed
    then show ?thesis using l1 True last same by (simp add: first_ok_def) (simp add: ended_def Let_def)
  qed
qed

lemma end_inv:
  assumes inv: "team_inv np r free live s" and ce: "can_end r live t m S"
  shows "team_inv np r (t # free) (close_region t live) (ended m t s)"
proof -
  note i = team_invD [OF inv]
  have "distinct (map fst live)" using i(3) by simp
  then obtain l1 l2 where l: "live = l1 @ (t, m, S) # l2" "close_region t live = l1 @ l2"
    and out: "\<forall>(u, m', S') \<in> set l1. m' \<notin> insert m S \<and> S' \<inter> insert m S = {}"
    by (rule close_split [OF _ ce])
  have x: "(t, m, S) \<in> set live" by (simp add: l(1))
  have t: "t < 4" using x i(4) by force
  note e = ended_team [OF i(1) t, where p = m] and sd = shapeD [OF i(1)] and d = i(10) [OF x]
  note nest = i(9) [unfolded l(1)]
  note nc = nest_close [OF nest out]
  have us: "used live = S \<union> used (l1 @ l2)" by (auto simp: l(1) used_append)
  have fin: "finite (used live)" using i(6) finite_subset by blast
  have mS: "m \<notin> S" using nc by blast
  have m8: "m < length (curr_team s)" using nc us i(6) sd(2,4) by auto
  have sub: "used (l1 @ l2) \<subseteq> {..<np}" using us i(6) by blast
  have "team_list (team_pool (ended m t s)) (team_pool_list (ended m t s)) (t # free)"
  proof -
    have "t \<notin> set free" using i(3) x by (force simp: l(1))
    then have "\<And>u. u \<in> set free \<Longrightarrow> team_next (team_pool (ended m t s) ! u) = team_next (team_pool s ! u)" by (auto simp: e(1))
    then have "team_list (team_pool (ended m t s)) (team_pool_list s) free" using i(2) team_list_cong by blast
    then show ?thesis by (simp add: e(1)) (simp add: ended_def Let_def)
  qed
  moreover have "distinct (r # map fst (l1 @ l2) @ t # free)" "set (r # map fst (l1 @ l2) @ t # free) = {..<4}"
    using i(3,4) by (auto simp: l(1))
  moreover have "\<forall>j < 32. bit (thread_pool (ended m t s)) j \<longleftrightarrow> j \<in> used (l1 @ l2)"
  proof (intro allI impI)
    fix j :: nat assume j: "j < 32"
    have "bit (thread_pool (ended m t s)) j \<longleftrightarrow> bit (thread_pool s) j \<and> (\<not> bit (team_mask (team_pool s ! t)) j \<or> j = m)"
      using j by (auto simp: ended_def Let_def bit_and_iff bit_or_iff bit_not_iff bit_exp_iff)
    also have "\<dots> \<longleftrightarrow> j \<in> used live \<and> (j \<noteq> m \<and> j \<notin> S \<or> j = m)" using d i(5) [OF j] j by (auto simp: desc_ok_def Let_def)
    finally show "bit (thread_pool (ended m t s)) j \<longleftrightarrow> j \<in> used (l1 @ l2)" using us nc by auto
  qed
  moreover note sub
  moreover have "unat (idle_cores (ended m t s)) + card (used (l1 @ l2)) = np"
  proof -
    have "card (used live) = card S + card (used (l1 @ l2))"
      using us nc fin by (simp add: card_Un_disjoint)
    moreover have "unat (team_nthreads (team_pool s ! t) - 1) = card S"
    proof -
      have "unat (team_nthreads (team_pool s ! t)) = Suc (card S)" using d by (simp add: desc_ok_def Let_def)
      moreover from this have "team_nthreads (team_pool s ! t) \<noteq> 0" by auto
      ultimately show ?thesis using unat_minus_one by fastforce
    qed
    moreover have "unat (idle_cores s) + card S < 2 ^ 32" using i(7) \<open>card (used live) = card S + card (used (l1 @ l2))\<close> sd(2) by simp
    ultimately have "unat (idle_cores s + (team_nthreads (team_pool s ! t) - 1)) = unat (idle_cores s) + card S"
      by (subst unat_plus_if') simp
    then have "unat (idle_cores (ended m t s)) = unat (idle_cores s) + card S" by (simp add: ended_def Let_def)
    then show ?thesis using i(7) \<open>card (used live) = card S + card (used (l1 @ l2))\<close> by simp
  qed
  moreover have "\<forall>q \<in> used (l1 @ l2). curr_team (ended m t s) ! q = Some (cur r (l1 @ l2) q)"
  proof
    fix q assume q: "q \<in> used (l1 @ l2)"
    show "curr_team (ended m t s) ! q = Some (cur r (l1 @ l2) q)"
    proof (cases "q = m")
      case True
      have "cur r (l1 @ l2) m = cur r l2 m" using out by (intro cur_out) auto
      moreover have "team_parent (team_pool s ! t) = Some (cur r l2 m)"
        using nest by (induction l1 rule: used.induct) auto
      ultimately show ?thesis using True m8 by (simp add: ended_def Let_def)
    next
      case False
      then have "cur r live q = cur r (l1 @ l2) q" using q nc by (auto simp: l(1) intro!: cur_skip)
      then show ?thesis using i(8) [of q] us q False by (simp add: ended_def Let_def)
    qed
  qed
  moreover have "nest_ok r (team_pool (ended m t s)) (l1 @ l2)"
    by (rule nest_ok_cong [OF conjunct1 [OF nc]]) (simp add: e(1))
  moreover have "\<forall>(u, m', S') \<in> set (l1 @ l2). desc_ok (ended m t s) u m' S'"
  proof -
    have hb: "hw_barrier (ended m t s) = hw_barrier s" by (simp add: ended_def Let_def)
    have "desc_ok (ended m t s) u m' S'" if "(u, m', S') \<in> set (l1 @ l2)" for u m' S'
    proof -
      have "t \<notin> fst ` set (l1 @ l2)" using i(3) by (auto simp: l(1))
      then have "u \<noteq> t" using that by (metis fst_conv imageI)
      moreover have "(u, m', S') \<in> set live" using that by (auto simp: l(1))
      ultimately have eu: "team_pool (ended m t s) ! u = team_pool s ! u" and du: "desc_ok s u m' S'" using i(10) by (simp_all add: e(1))
      show ?thesis using du unfolding desc_ok_def Let_def hb eu .
    qed
    then show ?thesis by blast
  qed
  moreover have "first_ok np (t # free) (l1 @ l2) (ended m t s)"
    using ended_first [OF inv [unfolded l(1)] out] ce l(1) by (simp add: can_end_def)
  ultimately show ?thesis unfolding l(2) by (rule team_invI [OF e(2)])
qed

subsection \<open>Start-up of the runtime\<close>

text \<open>What the master core of a cluster does in \<open>omp_init\<close> before the program starts; the result is the root team.\<close>

definition omp_boot :: "nat \<Rightarrow> gomp_data_t \<Rightarrow> (nat \<times> gomp_data_t) option" where
  "omp_boot np s = do {
     (r, s1) \<leftarrow> gomp_master_region_start np (omp_initenv np s);
     s2 \<leftarrow> gomp_init_lru_team np 0 s1;
     Some (r, s2)
   }"

text \<open>The sizes of the arrays.\<close>

definition memory_ok :: "nat \<Rightarrow> gomp_data_t \<Rightarrow> bool" where
  "memory_ok np s \<longleftrightarrow> 1 \<le> np \<and> np \<le> MAX_PE \<and> length (team_pool s) = MAX_TEAM_DESC \<and> length (curr_team s) = MAX_PE \<and>
     (\<forall>t < MAX_TEAM_DESC. length (proc_ids (team_pool s ! t)) = MAX_PE \<and>
        length (thread_ids (team_pool s ! t)) = MAX_PE \<and> length (work_share (team_pool s ! t)) = MAX_PE)"

lemma fold_set_curr [simp]:
  "fold (\<lambda>i. gomp_set_curr_team i t) is s = s\<lparr>curr_team := fold (\<lambda>i c. c[i := t]) is (curr_team s)\<rparr>"
  by (induction "is" arbitrary: s) (simp_all add: gomp_set_curr_team_def)

lemma length_fold_upd [simp]: "length (fold (\<lambda>i c. c[i := f i]) is c) = length c"
  by (induction "is" arbitrary: c) simp_all

lemma nth_fold_upd: "\<forall>i \<in> set is. i < length c \<Longrightarrow> j < length c \<Longrightarrow>
    fold (\<lambda>i c. c[i := f i]) is c ! j = (if j \<in> set is then f j else c ! j)"
  by (induction "is" arbitrary: c) (auto simp: nth_list_update)

lemma team_pool_init_eq:
  assumes "length (team_pool s) = 4"
  defines "s' \<equiv> gomp_team_pool_init s"
  shows "team_pool s' = [(team_pool s ! 0)\<lparr>team_next := None, barrier_id := 0\<rparr>, (team_pool s ! 1)\<lparr>barrier_id := 1, team_next := Some 0\<rparr>,
      (team_pool s ! 2)\<lparr>barrier_id := 2, team_next := Some 1\<rparr>, (team_pool s ! 3)\<lparr>barrier_id := 3, team_next := Some 2\<rparr>]"
    "team_pool_list s' = Some 3" "curr_team s' = curr_team s" "thread_pool s' = thread_pool s" "idle_cores s' = idle_cores s"
    "l1_heap s' = l1_heap s" "ws_embedded (wss s' (Root 0)) = ws_embedded (wss s (Root 0))"
    "t \<in> {1, 2, 3} \<Longrightarrow> ws_embedded (wss s' (Root t)) = WS_EMBEDDED"
proof -
  obtain a b c d where T: "team_pool s = [a, b, c, d]" using assms(1) by (auto simp: length_Suc_conv numeral_eq_Suc)
  have up: "[Suc 0 ..< 4] = [1, 2, 3]" by (simp add: upt_conv_Cons)
  show "team_pool s' = [(team_pool s ! 0)\<lparr>team_next := None, barrier_id := 0\<rparr>, (team_pool s ! 1)\<lparr>barrier_id := 1, team_next := Some 0\<rparr>,
      (team_pool s ! 2)\<lparr>barrier_id := 2, team_next := Some 1\<rparr>, (team_pool s ! 3)\<lparr>barrier_id := 3, team_next := Some 2\<rparr>]"
    "team_pool_list s' = Some 3" "curr_team s' = curr_team s" "thread_pool s' = thread_pool s" "idle_cores s' = idle_cores s"
    "l1_heap s' = l1_heap s" "ws_embedded (wss s' (Root 0)) = ws_embedded (wss s (Root 0))"
    "t \<in> {1, 2, 3} \<Longrightarrow> ws_embedded (wss s' (Root t)) = WS_EMBEDDED"
    by (auto simp: s'_def gomp_team_pool_init_def MAX_TEAM_DESC_def up T upd_team_def upd_ws_def)
qed

lemma ws_pool_init_simps [simp]:
  "team_pool (gomp_ws_pool_init s) = team_pool s" "team_pool_list (gomp_ws_pool_init s) = team_pool_list s"
  "curr_team (gomp_ws_pool_init s) = curr_team s" "thread_pool (gomp_ws_pool_init s) = thread_pool s"
  "idle_cores (gomp_ws_pool_init s) = idle_cores s" "l1_heap (gomp_ws_pool_init s) = l1_heap s"
  "wss (gomp_ws_pool_init s) (Root t) = wss s (Root t)"
  by (simp_all add: gomp_ws_pool_init_def hw_consts numeral_2_eq_2 upd_ws_def)

lemma upd_team_fold:
  "fold (\<lambda>i s. upd_team t (\<lambda>d. d\<lparr>proc_ids := (proc_ids d)[i := of_nat i], thread_ids := (thread_ids d)[i := of_nat i]\<rparr>)
      (gomp_set_curr_team i (Some t) s)) is s
   = (upd_team t (\<lambda>d. d\<lparr>proc_ids := fold (\<lambda>i c. c[i := of_nat i]) is (proc_ids d),
        thread_ids := fold (\<lambda>i c. c[i := of_nat i]) is (thread_ids d)\<rparr>) s)\<lparr>curr_team := fold (\<lambda>i c. c[i := Some t]) is (curr_team s)\<rparr>"
  if "t < length (team_pool s)"
  using that by (induction "is" arbitrary: s) (simp_all add: gomp_set_curr_team_def upd_team_def)

lemma bitmask_small: "1 \<le> np \<Longrightarrow> np \<le> 8 \<Longrightarrow> getBitmask (of_nat np) = Some (mask np)"
  using unat_of_nat_u32 [of np] by (simp add: getBitmask_def word_le_nat_alt)

text \<open>The descriptors after start-up: 3 is the root team, 2 the warm one.\<close>

lemma omp_boot_eq:
  assumes "memory_ok np s"
  shows "\<exists>s'. omp_boot np s = Some (3, s') \<and> length (team_pool s') = 4 \<and>
    team_pool s' ! 0 = (team_pool s ! 0)\<lparr>team_next := None, barrier_id := 0\<rparr> \<and>
    team_pool s' ! 1 = (team_pool s ! 1)\<lparr>barrier_id := 1, team_next := Some 0\<rparr> \<and>
    barrier_id (team_pool s' ! 2) = 2 \<and> barrier_id (team_pool s' ! 3) = 3 \<and> team_next (team_pool s' ! 2) = Some 1 \<and>
    team_level (team_pool s' ! 3) = 0 \<and> team_nthreads (team_pool s' ! 2) = of_nat np \<and>
    proc_ids (team_pool s' ! 2) = fold (\<lambda>i c. c[i := of_nat i]) [1 ..< np] ((proc_ids (team_pool s ! 2))[0 := 0]) \<and>
    thread_ids (team_pool s' ! 2) = fold (\<lambda>i c. c[i := of_nat i]) [1 ..< np] ((thread_ids (team_pool s ! 2))[0 := 0]) \<and>
    length (proc_ids (team_pool s' ! 3)) = 8 \<and> thread_ids (team_pool s' ! 3) = thread_ids (team_pool s ! 3) \<and>
    work_share (team_pool s' ! 2) = work_share (team_pool s ! 2) \<and> work_share (team_pool s' ! 3) = work_share (team_pool s ! 3) \<and>
    team_pool_list s' = Some 2 \<and> lru_team s' = Some 2 \<and> thread_pool s' = 1 \<and> idle_cores s' = of_nat np - 1 \<and>
    curr_team s' = fold (\<lambda>i c. c[i := Some 2]) [1 ..< np] ((fold (\<lambda>i c. c[i := None]) [0 ..< np] (curr_team s))[0 := Some 3]) \<and>
    (\<forall>t \<in> {1, 2, 3}. ws_embedded (wss s' (Root t)) = WS_EMBEDDED) \<and> ws_embedded (wss s' (Root 0)) = ws_embedded (wss s (Root 0)) \<and>
    wss s' = wss (omp_initenv np s) \<and> ws_pool_list s' = ws_pool_list (omp_initenv np s) \<and> l1_heap s' = l1_heap s"
proof -
  note m = assms [unfolded memory_ok_def hw_consts]
  define s1 where "s1 = omp_initenv np s"
  have "length (team_pool (s\<lparr>idle_cores := of_nat np - 1, thread_pool := 1,
      curr_team := fold (\<lambda>i c. c[i := None]) [0 ..< np] (curr_team s)\<rparr>)) = 4" using m by simp
  note T = team_pool_init_eq [OF this]
  have s1: "team_pool s1 = [(team_pool s ! 0)\<lparr>team_next := None, barrier_id := 0\<rparr>, (team_pool s ! 1)\<lparr>barrier_id := 1, team_next := Some 0\<rparr>,
      (team_pool s ! 2)\<lparr>barrier_id := 2, team_next := Some 1\<rparr>, (team_pool s ! 3)\<lparr>barrier_id := 3, team_next := Some 2\<rparr>]"
    "team_pool_list s1 = Some 3" "curr_team s1 = fold (\<lambda>i c. c[i := None]) [0 ..< np] (curr_team s)" "thread_pool s1 = 1"
    "idle_cores s1 = of_nat np - 1" "ws_embedded (wss s1 (Root 0)) = ws_embedded (wss s (Root 0))"
    "\<forall>t \<in> {1, 2, 3}. ws_embedded (wss s1 (Root t)) = WS_EMBEDDED" "l1_heap s1 = l1_heap s"
    using T by (simp_all add: s1_def omp_initenv_def Let_def)
  define D3 where "D3 = (team_pool s ! 3)\<lparr>barrier_id := 3, team_next := Some 2, team_nthreads := of_nat np, team_mask := 0xFF,
      proc_ids := fold (\<lambda>i xs. xs[i := of_nat i]) [0 ..< np] (proc_ids (team_pool s ! 3)), team_level := 0, team_parent := None\<rparr>"
  define s2 where "s2 = s1\<lparr>team_pool_list := Some 2, team_pool := (team_pool s1)[3 := D3], curr_team := (curr_team s1)[0 := Some 3]\<rparr>"
  have A: "gomp_master_region_start np s1 = Some (3, s2)"
    by (simp add: gomp_master_region_start_def gomp_new_team_def gomp_pull_team_pool_def s1 Let_def upd_team_def gomp_set_curr_team_def s2_def D3_def)
  have T2: "team_pool s2 ! 2 = (team_pool s ! 2)\<lparr>barrier_id := 2, team_next := Some 1\<rparr>" "length (team_pool s2) = 4"
    by (simp_all add: s2_def s1)
  define D2 where "D2 = (team_pool s ! 2)\<lparr>barrier_id := 2, team_nthreads := of_nat np, team_mask := mask np,
      proc_ids := fold (\<lambda>i c. c[i := of_nat i]) [1 ..< np] ((proc_ids (team_pool s ! 2))[0 := 0]),
      thread_ids := fold (\<lambda>i c. c[i := of_nat i]) [1 ..< np] ((thread_ids (team_pool s ! 2))[0 := 0]), team_next := Some 1\<rparr>"
  define s3 where "s3 = s2\<lparr>team_pool_list := Some 2, team_pool := (team_pool s2)[2 := D2], lru_team := Some 2,
      curr_team := fold (\<lambda>i c. c[i := Some 2]) [1 ..< np] (curr_team s2)\<rparr>"
  define E where "E = (team_pool s ! 2)\<lparr>barrier_id := 2, team_next := Some 1, team_nthreads := of_nat np,
      thread_ids := (thread_ids (team_pool s ! 2))[0 := 0], proc_ids := (proc_ids (team_pool s ! 2))[0 := 0], team_mask := mask np\<rparr>"
  define sE where "sE = s2\<lparr>team_pool_list := Some 1, team_pool := (team_pool s2)[2 := E]\<rparr>"
  have nt: "gomp_new_team s2 = (Some 2, s2\<lparr>team_pool_list := Some 1\<rparr>)"
    by (simp add: gomp_new_team_def gomp_pull_team_pool_def T2) (simp add: s2_def s1)
  have up: "upd_team 2 (\<lambda>d. d\<lparr>team_nthreads := of_nat np, thread_ids := (thread_ids d)[0 := 0], proc_ids := (proc_ids d)[0 := of_nat 0],
      team_mask := mask np\<rparr>) (s2\<lparr>team_pool_list := Some 1\<rparr>) = sE"
    by (simp add: upd_team_def sE_def E_def T2)
  have lE: "2 < length (team_pool sE)" by (simp add: sE_def T2)
  have bm: "getBitmask (of_nat np) = Some (mask np)" using bitmask_small [of np] m by simp
  have B: "gomp_init_lru_team np 0 s2 = Some s3"
    unfolding gomp_init_lru_team_def nt prod.case option.case bm Let_def up upd_team_fold [OF lE] Option.bind.simps
    by (simp add: gomp_free_team_def gomp_push_team_pool_def upd_team_def s3_def D2_def sE_def E_def T2)
  have "length (proc_ids (team_pool s ! 3)) = 8" using m by simp
  moreover have "length (fold (\<lambda>i xs. xs[i := of_nat i]) [0 ..< np] (proc_ids (team_pool s ! 3))) = length (proc_ids (team_pool s ! 3))"
    by (rule length_fold_upd)
  ultimately show ?thesis
    using A B by (intro exI [of _ s3]) (simp add: omp_boot_def s1_def [symmetric] s3_def s2_def D2_def D3_def s1 nth_list_update)
qed

lemma omp_boot_inv:
  assumes "memory_ok np s"
  shows "\<exists>s'. omp_boot np s = Some (3, s') \<and> team_inv np 3 [2, 1, 0] [] s' \<and>
    (\<forall>t \<in> {1, 2, 3}. ws_embedded (wss s' (Root t)) = WS_EMBEDDED) \<and> ws_embedded (wss s' (Root 0)) = ws_embedded (wss s (Root 0)) \<and>
    wss s' = wss (omp_initenv np s) \<and> ws_pool_list s' = ws_pool_list (omp_initenv np s) \<and> l1_heap s' = l1_heap s"
proof -
  note m = assms [unfolded memory_ok_def hw_consts]
  have len: "length (proc_ids (team_pool s ! t)) = 8" "length (thread_ids (team_pool s ! t)) = 8" "length (work_share (team_pool s ! t)) = 8"
    if "t < 4" for t using m that by auto
  obtain s' where b: "omp_boot np s = Some (3, s')" and l4: "length (team_pool s') = 4"
    and d0: "team_pool s' ! 0 = (team_pool s ! 0)\<lparr>team_next := None, barrier_id := 0\<rparr>"
    and d1: "team_pool s' ! 1 = (team_pool s ! 1)\<lparr>barrier_id := 1, team_next := Some 0\<rparr>"
    and ids: "barrier_id (team_pool s' ! 2) = 2" "barrier_id (team_pool s' ! 3) = 3" "team_next (team_pool s' ! 2) = Some 1"
      "team_level (team_pool s' ! 3) = 0" "team_nthreads (team_pool s' ! 2) = of_nat np"
    and pr: "proc_ids (team_pool s' ! 2) = fold (\<lambda>i c. c[i := of_nat i]) [1 ..< np] ((proc_ids (team_pool s ! 2))[0 := 0])"
    and th: "thread_ids (team_pool s' ! 2) = fold (\<lambda>i c. c[i := of_nat i]) [1 ..< np] ((thread_ids (team_pool s ! 2))[0 := 0])"
    and d3: "length (proc_ids (team_pool s' ! 3)) = 8" "thread_ids (team_pool s' ! 3) = thread_ids (team_pool s ! 3)"
    and ws: "work_share (team_pool s' ! 2) = work_share (team_pool s ! 2)" "work_share (team_pool s' ! 3) = work_share (team_pool s ! 3)"
    and g: "team_pool_list s' = Some 2" "lru_team s' = Some 2" "thread_pool s' = 1" "idle_cores s' = of_nat np - 1"
    and ct: "curr_team s' = fold (\<lambda>i c. c[i := Some 2]) [1 ..< np] ((fold (\<lambda>i c. c[i := None]) [0 ..< np] (curr_team s))[0 := Some 3])"
    and em: "(\<forall>t \<in> {1, 2, 3}. ws_embedded (wss s' (Root t)) = WS_EMBEDDED) \<and> ws_embedded (wss s' (Root 0)) = ws_embedded (wss s (Root 0)) \<and>
      wss s' = wss (omp_initenv np s) \<and> ws_pool_list s' = ws_pool_list (omp_initenv np s) \<and> l1_heap s' = l1_heap s"
    using omp_boot_eq [OF assms] by blast
  have t4: "t = 0 \<or> t = 1 \<or> t = 2 \<or> t = 3" if "t < 4" for t :: nat using that by linarith
  have un: "unat (of_nat np :: u32) = np" using m by (intro unat_of_nat_u32) simp
  have sh: "shape_ok np s'"
  proof -
    have "barrier_id (team_pool s' ! t) = of_nat t \<and> length (proc_ids (team_pool s' ! t)) = 8 \<and>
        length (thread_ids (team_pool s' ! t)) = 8 \<and> length (work_share (team_pool s' ! t)) = 8" if t: "t < 4" for t
      using t4 [OF t] len [of 0] len [of 1] len [of 2] len [of 3] d0 d1 ids pr th d3 ws by (elim disjE) simp_all
    then show ?thesis using m l4 ct by (simp add: shape_ok_def hw_consts)
  qed
  have n8: "\<forall>i \<in> set [1 ..< np]. i < 8" using m by auto
  have ids2: "thread_ids (team_pool s' ! 2) ! i = of_nat i \<and> proc_ids (team_pool s' ! 2) ! i = of_nat i" if "i < np" for i
  proof -
    have "i < 8" using that m by simp
    then show ?thesis using that n8 len [of 2] by (cases i) (auto simp: pr th nth_fold_upd)
  qed
  have cur: "curr_team s' ! i = (if 1 \<le> i \<and> i < np then Some 2 else (fold (\<lambda>i c. c[i := None]) [0 ..< np] (curr_team s))[0 := Some 3] ! i)"
    if "i < 8" for i using that n8 m by (simp add: ct nth_fold_upd)
  have idle: "unat (of_nat np - 1 :: u32) + 1 = np"
    using m un by (cases np) (simp_all add: unat_of_nat_u32)
  have "team_inv np 3 [2, 1, 0] [] s'"
  proof (rule team_invI [OF sh])
    show "first_ok np [2, 1, 0] [] s'"
      using cur m by (auto simp: first_ok_def g warm_def ids un ids2)
    show "set (3 # map fst [] @ [2, 1, 0]) = {..<4 :: nat}" by auto
  qed (use m idle cur [of 0] in \<open>auto simp: g ids d0 d1 [simplified] bit_1_iff\<close>)
  then show ?thesis using b em by blast
qed

end
