(* ===== verification/Gomp_Run.thy ===== *)
theory Gomp_Run
  imports Gomp_Team
begin

text \<open>
  Runs of the OpenMP runtime of a cluster: cores open parallel regions, nested and next to each other, call the work-sharing
  functions in them and end them, in any order that the barriers at the end of a region allow. The invariant of \<open>Gomp_Team\<close> holds in all
  of them; the properties here are what a program sees of it: regions never share a core, every core of a region has a number of its own,
  a region gets the cores it was promised or the runtime stops for want of a descriptor, reusing the last team is not observable, and
  ending a region gives everything back. The last property joins the two halves of \<open>libgomp\<close>: after a fork the constructs of the
  region are shared out as \<open>Gomp_Region\<close> says.
\<close>

subsection \<open>Calls in a region\<close>

text \<open>A call of core \<open>q\<close> that is not a fork or a join.\<close>

inductive gomp_call :: "nat \<Rightarrow> gomp_data_t \<Rightarrow> gomp_data_t \<Rightarrow> bool" for q where
  loop_start: "GOMP_loop_dynamic_start a b i c q s = Some (x, s') \<Longrightarrow> gomp_call q s s'"
| loop_next: "GOMP_loop_dynamic_next q s = Some (y, s') \<Longrightarrow> gomp_call q s s'"
| sections_start: "GOMP_sections_start n q s = Some (z, s') \<Longrightarrow> gomp_call q s s'"
| sections_next: "GOMP_sections_next q s = Some (z, s') \<Longrightarrow> gomp_call q s s'"
| single_start: "GOMP_single_start q s = Some (b', s') \<Longrightarrow> gomp_call q s s'"
| end_nowait: "gomp_work_share_end_nowait q s = Some s' \<Longrightarrow> gomp_call q s s'"
| release: "s' = MSGBarrier_hwRelease m s \<Longrightarrow> gomp_call q s s'"
| thread: "gomp_get_curr_team q s = Some t \<Longrightarrow> s' = gomp_init_thread q t s \<Longrightarrow> gomp_call q s s'"

text \<open>None of them changes more of a team than the work shares its cores are in.\<close>

definition team_frame :: "gomp_team_t \<Rightarrow> gomp_team_t \<Rightarrow> bool" where
  "team_frame d d' \<longleftrightarrow> (\<exists>ws. d' = d\<lparr>work_share := ws\<rparr> \<and> length ws = length (work_share d) \<and>
     (\<forall>i < length ws. work_share d ! i \<noteq> None \<longrightarrow> ws ! i \<noteq> None))"

definition ws_frame :: "gomp_data_t \<Rightarrow> gomp_data_t \<Rightarrow> bool" where
  "ws_frame s s' \<longleftrightarrow> thread_pool s' = thread_pool s \<and> idle_cores s' = idle_cores s \<and> curr_team s' = curr_team s \<and>
     lru_team s' = lru_team s \<and> team_pool_list s' = team_pool_list s \<and> hw_barrier s' = hw_barrier s \<and>
     list_all2 team_frame (team_pool s) (team_pool s')"

lemma team_frame_refl [simp]: "team_frame d d"
  by (auto simp: team_frame_def intro!: exI [of _ "work_share d"])

lemma team_frame_trans: "team_frame d1 d2 \<Longrightarrow> team_frame d2 d3 \<Longrightarrow> team_frame d1 d3"
  by (auto simp: team_frame_def)

lemma ws_frame_refl [simp]: "ws_frame s s"
  by (simp add: ws_frame_def list_all2_refl)

lemma ws_frame_trans [trans]: "ws_frame s1 s2 \<Longrightarrow> ws_frame s2 s3 \<Longrightarrow> ws_frame s1 s3"
proof -
  assume "ws_frame s1 s2" "ws_frame s2 s3"
  moreover from this have "list_all2 team_frame (team_pool s1) (team_pool s3)"
    using list_all2_trans [of team_frame team_frame team_frame "team_pool s1" "team_pool s2" "team_pool s3"] team_frame_trans
    unfolding ws_frame_def by blast
  ultimately show ?thesis unfolding ws_frame_def by simp
qed

text \<open>The primitive operations.\<close>

named_theorems frames "operations that leave the teams as they are"

lemma ws_frame_update: "ws_frame s (s\<lparr>ws_pool_list := l\<rparr>)" "ws_frame s (s\<lparr>wss := m\<rparr>)" "ws_frame s (s\<lparr>l1_heap := h\<rparr>)"
    "ws_frame s (s\<lparr>hw_release := e\<rparr>)"
  by (simp_all add: ws_frame_def list_all2_refl)

lemma ws_frame_upd_ws [frames]: "ws_frame s0 s \<Longrightarrow> ws_frame s0 (upd_ws w f s)"
  unfolding upd_ws_def by (rule ws_frame_trans [OF _ ws_frame_update(2)])

lemma ws_frame_heap [frames]: "ws_frame s0 s \<Longrightarrow> ws_frame s0 (s\<lparr>l1_heap := h\<rparr>)"
  by (rule ws_frame_trans [OF _ ws_frame_update(3)])

lemma ws_frame_pool [frames]: "ws_frame s0 s \<Longrightarrow> ws_frame s0 (s\<lparr>ws_pool_list := l\<rparr>)"
  by (rule ws_frame_trans [OF _ ws_frame_update(1)])

lemma ws_frame_work_share:
  "ws_frame s0 s \<Longrightarrow> ws_frame s0 (upd_team t (\<lambda>d. d\<lparr>work_share := (work_share d)[q := Some w]\<rparr>) s)"
proof (rule ws_frame_trans)
  let ?f = "\<lambda>d. d\<lparr>work_share := (work_share d)[q := Some w]\<rparr>"
  have "team_frame d (?f d)" for d :: gomp_team_t
  proof -
    have "work_share d ! i \<noteq> None \<Longrightarrow> (work_share d)[q := Some w] ! i \<noteq> None" if "i < length (work_share d)" for i
      using that by (cases "q = i") auto
    then show ?thesis unfolding team_frame_def by (intro exI [of _ "(work_share d)[q := Some w]"]) simp
  qed
  then have "team_frame (team_pool s ! i) ((team_pool s)[t := ?f (team_pool s ! t)] ! i)" if "i < length (team_pool s)" for i
    using that by (cases "t = i") simp_all
  then show "ws_frame s (upd_team t ?f s)"
    by (simp add: ws_frame_def upd_team_def list_all2_conv_all_nth)
qed

lemma ws_frame_set_CURR_WS [frames]: "ws_frame s0 s \<Longrightarrow> ws_frame s0 (set_CURR_WS q w s)"
  by (cases "gomp_get_curr_team q s") (simp_all add: set_CURR_WS_def ws_frame_work_share)

lemma ws_frame_init_thread [frames]: "ws_frame s0 s \<Longrightarrow> ws_frame s0 (gomp_init_thread q t s)"
  unfolding gomp_init_thread_def by (rule ws_frame_work_share)

lemma ws_frame_free [frames]: "ws_frame s0 s \<Longrightarrow> ws_frame s0 (gomp_free_work_share w s)"
  by (simp add: gomp_free_work_share_def gomp_push_ws_pool_def frames)

lemma ws_frame_release [frames]: "ws_frame s0 s \<Longrightarrow> ws_frame s0 (MSGBarrier_hwRelease m s)"
  by (simp add: MSGBarrier_hwRelease_def ws_frame_trans [OF _ ws_frame_update(4)])

lemma ws_frame_new:
  assumes "gomp_new_work_share s = Some (w, s')" shows "ws_frame s s'"
proof -
  obtain s1 where a: "alloc_work_share s = Some (w, s1)" "s' = upd_ws w (\<lambda>d. d\<lparr>next_ws := None, prev_ws := None\<rparr>) s1"
    using assms by (auto simp: gomp_new_work_share_def)
  have "ws_frame s s1"
  proof (cases "ws_pool_list s")
    case None
    then show ?thesis using a(1)
      by (cases "l1_heap s") (auto simp: alloc_work_share_def gomp_pull_ws_pool_def gomp_malloc_ws_def intro!: ws_frame_upd_ws ws_frame_heap)
  next
    case (Some v)
    then show ?thesis using a(1) by (auto simp: alloc_work_share_def gomp_pull_ws_pool_def intro: ws_frame_update(1))
  qed
  then show ?thesis unfolding a(2) by (rule ws_frame_upd_ws)
qed

lemma ws_frame_start:
  assumes "gomp_work_share_start q s = Some (new, w, s')" shows "ws_frame s s'"
proof -
  obtain v where v: "CURR_WS q s = Some v" using assms by (auto simp: gomp_work_share_start_def bind_eq_Some_conv)
  show ?thesis
  proof (cases "next_ws (wss s v)")
    case None
    then obtain s1 where "gomp_new_work_share s = Some (w, s1)"
      "s' = set_CURR_WS q w (upd_ws w (\<lambda>d. d\<lparr>ws_completed := 0\<rparr>) (upd_ws v (\<lambda>d. d\<lparr>next_ws := Some w\<rparr>) (upd_ws w (\<lambda>d. d\<lparr>prev_ws := Some v\<rparr>) s1)))"
      using assms v by (auto simp: gomp_work_share_start_def bind_eq_Some_conv Let_def)
    then show ?thesis using ws_frame_new by (simp add: frames)
  next
    case (Some u)
    then show ?thesis using assms v by (auto simp: gomp_work_share_start_def frames)
  qed
qed

lemma ws_frame_end: "gomp_work_share_end_nowait q s = Some s' \<Longrightarrow> ws_frame s s'"
  by (auto simp: gomp_work_share_end_nowait_def bind_eq_Some_conv Let_def frames split: if_splits option.splits)

lemma ws_frame_next: "gomp_iter_dynamic_next w s = (x, s') \<Longrightarrow> ws_frame s s'"
  by (auto simp: gomp_iter_dynamic_next_def Let_def frames split: if_splits)

lemma call_frame:
  assumes "gomp_call q s s'" shows "ws_frame s s'"
  using assms
proof cases
  case (loop_start a b i c x)
  then obtain new w s1 where st: "gomp_work_share_start q s = Some (new, w, s1)"
    by (auto simp: GOMP_loop_dynamic_start_def bind_eq_Some_conv)
  have "ws_frame s (if new then gomp_loop_init w a b i c s1 else s1)"
    using ws_frame_start [OF st] by (simp add: gomp_loop_init_def frames)
  then show ?thesis using loop_start unfolding GOMP_loop_dynamic_start_def st Let_def
    by (simp only: bind.bind_lunit prod.case option.inject prod.inject split: if_split_asm) (auto simp: frames)
next
  case (loop_next y)
  then show ?thesis by (auto simp: GOMP_loop_dynamic_next_def gomp_loop_dynamic_next_def bind_eq_Some_conv intro: ws_frame_next)
next
  case (sections_start n z)
  then obtain new w s1 where st: "gomp_work_share_start q s = Some (new, w, s1)"
    by (auto simp: GOMP_sections_start_def bind_eq_Some_conv)
  have "ws_frame s (if new then gomp_sections_init w n s1 else s1)"
    using ws_frame_start [OF st] by (simp add: gomp_sections_init_def frames)
  then show ?thesis using sections_start unfolding GOMP_sections_start_def st Let_def
    by (simp only: bind.bind_lunit prod.case option.inject prod.inject split: if_split_asm) (auto simp: frames)
next
  case (sections_next z)
  then obtain w where "gomp_sections_next w s = (z, s')" by (auto simp: GOMP_sections_next_def bind_eq_Some_conv)
  then obtain y where "gomp_iter_dynamic_next w s = (y, s')"
    by (cases "gomp_iter_dynamic_next w s") (auto simp: gomp_sections_next_def split: option.splits)
  then show ?thesis by (rule ws_frame_next)
next
  case (single_start b')
  then obtain new w s1 where st: "gomp_work_share_start q s = Some (new, w, s1)"
    by (auto simp: GOMP_single_start_def bind_eq_Some_conv)
  have "ws_frame s s2 \<Longrightarrow> ws_frame s (gomp_free_work_share v (upd_ws w f s2))" for v f s2 by (simp add: frames)
  then show ?thesis using single_start ws_frame_start [OF st] unfolding GOMP_single_start_def st Let_def
    by (simp only: bind_eq_Some_conv bind.bind_lunit prod.case option.inject prod.inject split: if_split_asm) (auto simp: frames)
qed (auto simp: frames ws_frame_end)

lemma frame_inv:
  assumes inv: "team_inv np r free live s" and f: "ws_frame s s'"
  shows "team_inv np r free live s'"
proof -
  note i = team_invD [OF inv] and sd = shapeD [OF team_invD(1) [OF inv]]
  note fr = f [unfolded ws_frame_def]
  have l: "length (team_pool s') = length (team_pool s)" using fr list_all2_lengthD by metis
  have tf: "team_frame (team_pool s ! t) (team_pool s' ! t)" if "t < 4" for t
    using fr that sd(3) list_all2_nthD by metis
  then have same: "team_next (team_pool s' ! t) = team_next (team_pool s ! t)" "team_level (team_pool s' ! t) = team_level (team_pool s ! t)"
    "team_parent (team_pool s' ! t) = team_parent (team_pool s ! t)" "team_nthreads (team_pool s' ! t) = team_nthreads (team_pool s ! t)"
    "barrier_id (team_pool s' ! t) = barrier_id (team_pool s ! t)" "proc_ids (team_pool s' ! t) = proc_ids (team_pool s ! t)"
    "thread_ids (team_pool s' ! t) = thread_ids (team_pool s ! t)" "team_mask (team_pool s' ! t) = team_mask (team_pool s ! t)"
    "length (work_share (team_pool s' ! t)) = length (work_share (team_pool s ! t))" if "t < 4" for t
    using tf [OF that] by (auto simp: team_frame_def)
  have live4: "t < 4" if "(t, m, S) \<in> set live" for t m S using that i(4) by force
  have free4: "t < 4" if "t \<in> set free" for t using that i(4) by force
  have m8: "m < 8" if x: "(t, m, S) \<in> set live" for t m S
    using master_used [OF i(9) x] i(6) sd(2) by force
  have "shape_ok np s'" using i(1) fr l same(5,6,7,9) by (simp add: shape_ok_def hw_consts)
  moreover have "team_list (team_pool s') (team_pool_list s') free"
    using i(2) team_list_cong [of free "team_pool s'" "team_pool s"] same(1) free4 fr by metis
  moreover have "nest_ok r (team_pool s') live"
  proof (rule nest_ok_cong [OF i(9)])
    fix t assume "t = r \<or> t \<in> fst ` set live"
    then have "t < 4" using i(4) by auto
    then show "team_level (team_pool s' ! t) = team_level (team_pool s ! t) \<and> team_parent (team_pool s' ! t) = team_parent (team_pool s ! t)"
      using same by simp
  qed
  moreover have "\<forall>(t, m, S) \<in> set live. desc_ok s' t m S"
  proof -
    have "desc_ok s' t m S" if x: "(t, m, S) \<in> set live" for t m S
    proof -
      have t: "t < 4" using live4 [OF x] .
      have "work_share (team_pool s ! t) ! m \<noteq> None" using i(10) [OF x] by (simp add: desc_ok_def Let_def)
      then have "work_share (team_pool s' ! t) ! m \<noteq> None" using tf [OF t] m8 [OF x] sd(8) [OF t] by (auto simp: team_frame_def)
      moreover have hb: "hw_barrier s' = hw_barrier s" using fr by blast
      ultimately show ?thesis using i(10) [OF x] unfolding desc_ok_def Let_def same(4-8) [OF t] hb by blast
    qed
    then show ?thesis by blast
  qed
  moreover have "first_ok np free live s'"
  proof (cases "live = []")
    case True
    then obtain t fr' where "free = t # fr'" using i(11) by (auto simp: first_ok_def split: list.splits)
    then show ?thesis using True i(11) fr same free4 [of t] by (simp add: first_ok_def warm_def)
  next
    case False
    obtain t m S where x: "last live = (t, m, S)" by (cases "last live")
    then have "t < 4" using last_in_set [OF False] live4 [of t m S] by simp
    then show ?thesis using False x i(11) same by (simp add: first_ok_def warm_def)
  qed
  ultimately show ?thesis using i(3,4,5,6,7,8) fr by (intro team_invI) auto
qed

subsection \<open>Runs\<close>

text \<open>The state and, as a ghost, the open regions. A core that is in a team forks a region with itself as the master; the slaves are those of the
  mask. A region ends when its cores have reached the barrier (\<open>can_end\<close>).\<close>

definition slaves :: "nat \<Rightarrow> nat \<Rightarrow> gomp_data_t \<Rightarrow> nat set" where
  "slaves t m s = {j. j < 32 \<and> j \<noteq> m \<and> bit (team_mask (team_pool s ! t)) j}"

inductive team_step :: "nat \<Rightarrow> nat \<Rightarrow> gomp_data_t \<times> regions \<Rightarrow> gomp_data_t \<times> regions \<Rightarrow> bool" for np r where
  fork: "p \<in> used live \<Longrightarrow> 0 \<le> n \<Longrightarrow> gomp_team_start np p fn data n s = Some (t, s') \<Longrightarrow>
    team_step np r (s, live) (s', (t, p, slaves t p s') # live)"
| join: "can_end r live t m S \<Longrightarrow> gomp_team_end m s = Some s' \<Longrightarrow> team_step np r (s, live) (s', close_region t live)"
| call: "q \<in> used live \<Longrightarrow> gomp_call q s s' \<Longrightarrow> team_step np r (s, live) (s', live)"

inductive team_run :: "nat \<Rightarrow> nat \<Rightarrow> gomp_data_t \<times> regions \<Rightarrow> gomp_data_t \<times> regions \<Rightarrow> bool" for np r x where
  refl: "team_run np r x x"
| step: "team_run np r x y \<Longrightarrow> team_step np r y z \<Longrightarrow> team_run np r x z"

text \<open>A fork fails exactly when there is no descriptor.\<close>

lemma start_none:
  assumes "team_inv np r [] live s" shows "gomp_team_start np p fn data n s = None"
proof -
  have "team_pool_list s = None" using team_invD(2) [OF assms] by simp
  then show ?thesis
    by (simp add: gomp_team_start_def team_begin_def gomp_resolve_num_threads_def gomp_new_team_def gomp_pull_team_pool_def Let_def)
qed

lemma started_slaves:
  assumes inv: "team_inv np r (t # fr) live s" and p: "p \<in> used live" and n: "1 \<le> n" "n \<le> Suc (unat (idle_cores s))"
  shows "slaves t p (started np p parent fn data n t s) = set (taken_cores np n s)"
proof -
  note F = taken_facts [OF inv n]
  have "j < 32 \<and> j \<noteq> p" if "j \<in> set (taken_cores np n s)" for j using F(4,6) p that by fastforce
  then show ?thesis
    using started_desc(9) [OF inv p n, where parent = parent and fn = fn and data = data] by (auto simp: slaves_def)
qed

lemma step_inv:
  assumes "team_step np r (s, live) (s', live')" and inv: "team_inv np r free live s"
  shows "\<exists>free'. team_inv np r free' live' s'"
  using assms(1)
proof cases
  case (fork p n fn data t)
  then obtain t' fr where free: "free = t' # fr" using start_none inv by (cases free) auto
  note i = inv [unfolded free]
  note st = team_start_eq [OF i fork(2,3)]
  show ?thesis using st(1) [where fn = fn and data = data] fork(1,4) start_inv [OF i fork(2) st(2,3), of fn data] started_slaves [OF i fork(2) st(2,3)] by auto
next
  case (join t m S)
  have x: "(t, m, S) \<in> set live" "cur r live m = t" using join(2) by (auto simp: can_end_def)
  have "m \<in> used live" using master_used [OF team_invD(9) [OF inv] x(1)] by simp
  then have "curr_team s ! m = Some t" using team_invD(8) [OF inv] x(2) by simp
  moreover obtain w where "work_share (team_pool s ! t) ! m = Some w"
    using team_invD(10) [OF inv x(1)] by (auto simp: desc_ok_def Let_def)
  ultimately show ?thesis using team_end_eq join(1,3) end_inv [OF inv join(2)] by (auto simp: team_inv_ws)
next
  case (call q)
  then show ?thesis using frame_inv [OF inv call_frame [OF call(3)]] by auto
qed

lemma team_run_inv:
  assumes "team_run np r x y" and "team_inv np r free (snd x) (fst x)"
  shows "\<exists>free'. team_inv np r free' (snd y) (fst y)"
  using assms
proof (induction rule: team_run.induct)
  case (step y z)
  then show ?case using step_inv [of np r "fst y" "snd y" "fst z" "snd z"] by auto
qed auto

text \<open>From the start of the runtime on.\<close>

lemma boot_run_inv:
  assumes "memory_ok np s0" "omp_boot np s0 = Some (r, s)" "team_run np r (s, []) (s', live)"
  shows "\<exists>free. team_inv np r free live s'"
proof -
  have "team_inv np r [2, 1, 0] [] s" using omp_boot_inv [OF assms(1)] assms(2) by auto
  then show ?thesis using team_run_inv [OF assms(3)] by auto
qed

lemma inv_lengths:
  assumes "team_inv np r free live s" shows "length live + length free = 3"
proof -
  have "card (set (r # map fst live @ free)) = length (r # map fst live @ free)"
    by (rule distinct_card [OF team_invD(3) [OF assms]])
  then show ?thesis unfolding team_invD(4) [OF assms] by simp
qed

text \<open>The thread numbers of a team are a bijection.\<close>

lemma desc_ok_numbers:
  assumes d: "desc_ok s t m S" and S: "insert m S \<subseteq> {..<8}" "m \<notin> S"
  shows "bij_betw (\<lambda>j. unat (thread_ids (team_pool s ! t) ! j)) (insert m S) {..card S}"
proof -
  let ?f = "\<lambda>j. unat (thread_ids (team_pool s ! t) ! j)"
  have fin: "finite S" using S(1) finite_subset [of S "{..<8}"] by simp
  have all: "\<forall>j \<in> insert m S. ?f j \<le> card S \<and> proc_ids (team_pool s ! t) ! ?f j = of_nat j"
    using d unfolding desc_ok_def Let_def by (elim conjE)
  have r: "?f j \<le> card S \<and> proc_ids (team_pool s ! t) ! ?f j = of_nat j" if "j \<in> insert m S" for j
    by (rule bspec [OF all that])
  have inj: "inj_on ?f (insert m S)"
  proof (rule inj_onI)
    fix i j assume ij: "i \<in> insert m S" "j \<in> insert m S" "?f i = ?f j"
    have e: "(of_nat i :: u32) = of_nat j"
      using conjunct2 [OF r [OF ij(1)]] conjunct2 [OF r [OF ij(2)]] unfolding ij(3) by (rule trans [OF sym])
    have "i < 8" "j < 8" using ij(1,2) S(1) by auto
    then have lt: "i < 2 ^ 32" "j < 2 ^ 32" by simp_all
    have "unat (of_nat i :: u32) = i" "unat (of_nat j :: u32) = j" by (rule unat_of_nat_u32 [OF lt(1)], rule unat_of_nat_u32 [OF lt(2)])
    then show "i = j" using e by metis
  qed
  have "?f ` insert m S \<subseteq> {..card S}" using r by auto
  moreover have "card (?f ` insert m S) = card {..card S}" using card_image [OF inj] fin S(2) by simp
  ultimately have "?f ` insert m S = {..card S}" by (intro card_subset_eq) auto
  then show ?thesis using inj by (simp add: bij_betw_def)
qed

lemma nest_disjoint:
  "nest_ok r T live \<Longrightarrow> distinct (map fst live) \<Longrightarrow> (t, m, S) \<in> set live \<Longrightarrow> 0 \<notin> S \<and> m \<notin> S \<and>
     (\<forall>t' m' S'. (t', m', S') \<in> set live \<longrightarrow> t' \<noteq> t \<longrightarrow> S \<inter> S' = {})"
proof (induction live rule: used.induct)
  case (2 t1 m1 S1 l)
  have n1: "m1 \<in> used l" "S1 \<inter> used l = {}" "nest_ok r T l" "distinct (map fst l)" "t1 \<notin> fst ` set l" using 2(2,3) by auto
  have sub: "S' \<subseteq> used l" if "(t', m', S') \<in> set l" for t' m' S' using master_used [OF n1(3) that] by simp
  show ?case
  proof (cases "(t, m, S) = (t1, m1, S1)")
    case True
    then show ?thesis using n1(1,2) used_0 [of l] sub by fastforce
  next
    case False
    then have x: "(t, m, S) \<in> set l" using 2(4) by auto
    then show ?thesis using 2(1) [OF n1(3,4) x] sub [OF x] n1(2) by auto
  qed
qed simp

subsection \<open>The constructs of a region\<close>

lemma init_threads:
  "t < length (team_pool s) \<Longrightarrow> fold (\<lambda>q. gomp_init_thread q t) qs s =
     upd_team t (\<lambda>d. d\<lparr>work_share := fold (\<lambda>q c. c[q := Some (Root t)]) qs (work_share d)\<rparr>) s"
  by (induction qs arbitrary: s) (simp_all add: gomp_init_thread_def upd_team_def)

lemma init_threads_heap: "l1_heap (fold (\<lambda>q. gomp_init_thread q t) qs s) = l1_heap s"
  by (induction qs arbitrary: s) (simp_all add: gomp_init_thread_def upd_team_def)

lemma started_ws:
  "wss (started np p parent fn data n t s) = (wss s)(Root t := (wss s (Root t))\<lparr>next_ws := None, prev_ws := None\<rparr>)"
  "ws_pool_list (started np p parent fn data n t s) = ws_pool_list s" "l1_heap (started np p parent fn data n t s) = l1_heap s"
  by (simp_all add: started_def begun_def)

lemma ws_pool_cong:
  assumes "ws_pool_ok free s" "Root t \<notin> set free" "wss s' = (wss s)(Root t := d)" "ws_pool_list s' = ws_pool_list s" "l1_heap s' = l1_heap s"
  shows "ws_pool_ok free s'"
proof -
  have same: "wss s' w = wss s w" if "w \<in> set free" for w using that assms(2,3) by auto
  then have "free_list (wss s') (ws_pool_list s') free"
    using assms(1,4) free_list_cong [of free "wss s'" "wss s"] by (simp add: ws_pool_ok_def)
  then show ?thesis using assms(1,5) same by (simp add: ws_pool_ok_def)
qed

text \<open>The fork and the slaves' \<open>gomp_init_thread\<close> establish what the constructs need.\<close>

lemma fork_team_started:
  fixes fn data :: u32
  assumes inv: "team_inv np r (t # fr) live s" and p: "p \<in> used live" and n: "1 \<le> n" "n \<le> Suc (unat (idle_cores s))"
    and ws: "ws_pool_ok free s" "Root t \<notin> set free" "ws_embedded (wss s (Root t)) = WS_EMBEDDED"
    and qs: "set qs = set (taken_cores np n s)"
  defines "s' \<equiv> fold (\<lambda>q. gomp_init_thread q t) qs (started np p (cur r live p) fn data n t s)"
  shows "team_started t (insert p (set qs)) free s'"
proof -
  define s2 where "s2 = started np p (cur r live p) fn data n t s"
  note F = taken_facts [OF inv n, folded qs] and h = free_head [OF inv]
  note inv2 = start_inv [OF inv p n, of fn data, folded s2_def qs]
  note d = started_desc [OF inv p n, where parent = "cur r live p" and fn = fn and data = data, folded s2_def qs]
  note sd = shapeD [OF team_invD(1) [OF inv2]]
  have tl: "t < length (team_pool s2)" using h(1) sd(3) by simp
  have s': "s' = upd_team t (\<lambda>d. d\<lparr>work_share := fold (\<lambda>q c. c[q := Some (Root t)]) qs (work_share d)\<rparr>) s2"
    unfolding s'_def s2_def [symmetric] by (rule init_threads [OF tl])
  have p8: "p < 8" "p \<notin> set qs" using team_invD(6) [OF inv] shapeD(2) [OF team_invD(1) [OF inv]] p F(4) by auto
  have q8: "\<forall>i \<in> set qs. i < length (work_share (team_pool s2 ! t))" using F(6) d(8) by simp
  have wsq: "work_share (team_pool s' ! t) ! q = Some (Root t)" if q: "q \<in> insert p (set qs)" for q
  proof -
    have "q < 8" using q p8 F(6) by auto
    then have "fold (\<lambda>q c. c[q := Some (Root t)]) qs (work_share (team_pool s2 ! t)) ! q =
        (if q \<in> set qs then Some (Root t) else work_share (team_pool s2 ! t) ! q)"
      using nth_fold_upd [OF q8, of q "\<lambda>_. Some (Root t)"] d(8) by simp
    then show ?thesis using q d(5) tl by (auto simp: s' upd_team_def)
  qed
  have "team_ok t (insert p (set qs)) s'"
  proof -
    have "card (insert p (set qs)) = n" using F(7,8) p8(2) n(1) by simp
    moreover have "\<forall>q \<in> insert p (set qs). curr_team s' ! q = Some t"
      using team_invD(8) [OF inv2] p by (auto simp: s' upd_team_def)
    ultimately show ?thesis using tl d(1,8) p8(1) F(6) by (auto simp: team_ok_def s' upd_team_def)
  qed
  moreover have "ws_pool_ok free s'"
    by (rule ws_pool_cong [OF ws(1,2)]) (simp_all add: s' upd_team_def s2_def started_ws)
  moreover have "next_ws (wss s' (Root t)) = None" "ws_embedded (wss s' (Root t)) = WS_EMBEDDED"
    using ws(3) by (simp_all add: s' upd_team_def s2_def started_ws)
  ultimately show ?thesis using ws(2) wsq by (simp add: team_started_def)
qed

lemma boot_ws_pool:
  assumes "memory_ok np s0" "distinct (l1_heap s0)" "omp_boot np s0 = Some (r, s)"
  shows "ws_pool_ok [Desc 1, Desc 0] s" "l1_heap s = l1_heap s0" "t \<in> {1, 2, 3} \<Longrightarrow> ws_embedded (wss s (Root t)) = WS_EMBEDDED"
proof -
  have b: "wss s = wss (omp_initenv np s0)" "ws_pool_list s = ws_pool_list (omp_initenv np s0)" "l1_heap s = l1_heap s0"
    "\<forall>t \<in> {1, 2, 3}. ws_embedded (wss s (Root t)) = WS_EMBEDDED"
    using omp_boot_inv [OF assms(1)] assms(3) by auto
  define X where "X = gomp_team_pool_init (fold (\<lambda>i. gomp_set_curr_team i None) [0 ..< np] (s0\<lparr>idle_cores := of_nat np - 1, thread_pool := 1\<rparr>))"
  have I: "omp_initenv np s0 = (gomp_ws_pool_init X)\<lparr>lru_team := None\<rparr>" by (simp add: omp_initenv_def X_def Let_def)
  have "l1_heap X = l1_heap s0"
    unfolding X_def using assms(1) by (subst team_pool_init_eq(6)) (simp_all add: memory_ok_def hw_consts)
  then have "ws_pool_ok [Desc 1, Desc 0] (gomp_ws_pool_init X)" "l1_heap s = l1_heap (gomp_ws_pool_init X)"
    using pool_init_ok [of X] assms(2) b(3) by simp_all
  then show "ws_pool_ok [Desc 1, Desc 0] s" using b(1,2) by (simp add: ws_pool_ok_def I)
  show "l1_heap s = l1_heap s0" "t \<in> {1, 2, 3} \<Longrightarrow> ws_embedded (wss s (Root t)) = WS_EMBEDDED" using b by blast+
qed

subsection \<open>The properties\<close>

text \<open>C8: In every run, the open regions are isolated: a slave belongs to one of them only and none is core 0, the bits of the thread
  pool are core 0 and the slaves of all regions, the count of idle cores is the number of the others, and in each team the hardware
  barrier waits for exactly its cores, which are numbered from 0 (the master) without gap or repetition.\<close>

theorem gomp_regions_isolated:
  assumes "memory_ok np s0" "omp_boot np s0 = Some (r, s)" "team_run np r (s, []) (s', live)"
  shows "(\<forall>i < 32. bit (thread_pool s') i \<longleftrightarrow> i \<in> used live) \<and> unat (idle_cores s') + card (used live) = np \<and>
    (\<forall>(t, m, S) \<in> set live. let d = team_pool s' ! t in
       0 \<notin> S \<and> m \<notin> S \<and> m \<in> used live \<and> S \<subseteq> {..<np} \<and> (\<forall>(t', m', S') \<in> set live. t' \<noteq> t \<longrightarrow> S \<inter> S' = {}) \<and>
       (\<forall>j < 32. bit (hw_barrier s' (barrier_id d)) j \<longleftrightarrow> j = m \<or> j \<in> S) \<and> team_nthreads d = of_nat (Suc (card S)) \<and>
       thread_ids d ! m = 0 \<and> bij_betw (\<lambda>j. unat (thread_ids d ! j)) (insert m S) {..card S})"
proof -
  obtain free where inv: "team_inv np r free live s'" using boot_run_inv [OF assms] by blast
  note i = team_invD [OF inv] and sd = shapeD [OF team_invD(1) [OF inv]]
  have one: "0 \<notin> S \<and> m \<notin> S \<and> m \<in> used live \<and> S \<subseteq> {..<np} \<and> (\<forall>(t', m', S') \<in> set live. t' \<noteq> t \<longrightarrow> S \<inter> S' = {}) \<and>
       (\<forall>j < 32. bit (hw_barrier s' (barrier_id (team_pool s' ! t))) j \<longleftrightarrow> j = m \<or> j \<in> S) \<and>
       team_nthreads (team_pool s' ! t) = of_nat (Suc (card S)) \<and> thread_ids (team_pool s' ! t) ! m = 0 \<and>
       bij_betw (\<lambda>j. unat (thread_ids (team_pool s' ! t) ! j)) (insert m S) {..card S}" if x: "(t, m, S) \<in> set live" for t m S
  proof -
    note d = i(10) [OF x] and mu = master_used [OF i(9) x]
    have dj: "0 \<notin> S" "m \<notin> S" "\<forall>t' m' S'. (t', m', S') \<in> set live \<longrightarrow> t' \<noteq> t \<longrightarrow> S \<inter> S' = {}"
      using nest_disjoint [OF i(9) _ x] i(3) by simp_all
    have np8: "insert m S \<subseteq> {..<8}" "S \<subseteq> {..<np}" using mu i(6) sd(2) by auto
    have "unat (team_nthreads (team_pool s' ! t)) = Suc (card S)" using d by (simp add: desc_ok_def Let_def)
    then have "team_nthreads (team_pool s' ! t) = of_nat (Suc (card S))"
      using of_nat_unat [of "team_nthreads (team_pool s' ! t)"] by (metis ucast_id)
    then show ?thesis using d dj mu np8(2) desc_ok_numbers [OF d np8(1) dj(2)] by (auto simp: desc_ok_def Let_def)
  qed
  show ?thesis unfolding Let_def
  proof (intro conjI)
    show "\<forall>i < 32. bit (thread_pool s') i \<longleftrightarrow> i \<in> used live" using i(5) by blast
    show "unat (idle_cores s') + card (used live) = np" by (rule i(7))
  qed (intro ballI, simp only: split_paired_all prod.case, erule one)
qed

text \<open>C21: A fork asked for \<open>n\<close> cores (0 for any number) gets a team of \<open>team_size\<close> cores of which the caller is number 0 and the others were idle, as long as fewer
  than three regions are open; with three, there is no descriptor and the assertion of \<open>gomp_team_start\<close> fails.\<close>

theorem gomp_fork_spec:
  assumes "memory_ok np s0" "omp_boot np s0 = Some (r, s)" "team_run np r (s, []) (s', live)" "p \<in> used live" "0 \<le> n"
  shows "if length live = 3 then gomp_team_start np p fn data n s' = None
    else \<exists>t s''. gomp_team_start np p fn data n s' = Some (t, s'') \<and> t \<notin> fst ` set live \<and>
      card (slaves t p s'') = team_size n s' - 1 \<and> slaves t p s'' \<subseteq> {..<np} - used live \<and>
      omp_get_num_threads p s'' = Some (of_nat (team_size n s')) \<and> omp_get_thread_num p s'' = Some 0 \<and>
      omp_get_max_threads s'' = omp_get_max_threads s' - of_nat (team_size n s' - 1) \<and>
      (\<forall>q \<in> slaves t p s''. gomp_get_curr_team q s'' = Some t)"
proof -
  obtain free where inv: "team_inv np r free live s'" using boot_run_inv [OF assms(1-3)] by blast
  show ?thesis
  proof (cases free)
    case Nil
    then show ?thesis using inv_lengths [OF inv] start_none inv by simp
  next
    case (Cons t fr)
    note i = inv [unfolded Cons]
    note st = team_start_eq [OF i assms(4,5)]
    define s'' where "s'' = started np p (cur r live p) fn data (team_size n s') t s'"
    note F = taken_facts [OF i st(2,3)]
    have sl: "slaves t p s'' = set (taken_cores np (team_size n s') s')"
      unfolding s''_def by (rule started_slaves [OF i assms(4) st(2,3)])
    note inv2 = start_inv [OF i assms(4) st(2,3), of fn data, folded s''_def]
    note d = started_desc [OF i assms(4) st(2,3), where parent = "cur r live p" and fn = fn and data = data, folded s''_def]
    have cur: "curr_team s'' ! q = Some t" if "q = p \<or> q \<in> slaves t p s''" for q
      using team_invD(8) [OF inv2, of q] that sl assms(4) by auto
    have "idle_cores s'' = idle_cores s' - of_nat (team_size n s' - 1)" by (simp add: s''_def started_def)
    then have mx: "omp_get_max_threads s'' = omp_get_max_threads s' - of_nat (team_size n s' - 1)"
      by (simp add: omp_get_max_threads_def)
    have "length live \<noteq> 3" using inv_lengths [OF inv] Cons by simp
    moreover have "gomp_team_start np p fn data n s' = Some (t, s'')" using st(1) by (simp add: s''_def)
    moreover have "slaves t p s'' \<subseteq> {..<np} - used live" using F(3,4) sl by auto
    moreover have "card (slaves t p s'') = team_size n s' - 1" using F(7) sl by simp
    moreover have "omp_get_num_threads p s'' = Some (of_nat (team_size n s'))" "omp_get_thread_num p s'' = Some 0"
      using cur d(1,10) by (simp_all add: omp_get_num_threads_def omp_get_thread_num_def gomp_get_curr_team_def)
    ultimately show ?thesis using mx cur free_head(3) [OF i] by (auto simp: gomp_get_curr_team_def)
  qed
qed

text \<open>C22: The shortcut of a fork that reuses the last team is not observable: the result is that of the search through the thread
  pool, field by field.\<close>

theorem gomp_reuse_is_search:
  assumes "memory_ok np s0" "omp_boot np s0 = Some (r, s)" "team_run np r (s, []) (s', live)" "p \<in> used live" "0 \<le> n"
  shows "gomp_team_start np p fn data n s' =
    map_option (\<lambda>(t, num, s1). (t, team_commit p t (team_miss np p t num s1))) (team_begin p fn data n s')"
proof -
  obtain free where inv: "team_inv np r free live s'" using boot_run_inv [OF assms(1-3)] by blast
  show ?thesis
  proof (cases free)
    case Nil
    then have "team_pool_list s' = None" using team_invD(2) [OF inv] by simp
    then have "team_begin p fn data n s' = None"
      by (simp add: team_begin_def gomp_resolve_num_threads_def gomp_new_team_def gomp_pull_team_pool_def Let_def)
    then show ?thesis using start_none inv Nil by simp
  next
    case (Cons t fr)
    note i = inv [unfolded Cons]
    note st = team_start_eq [OF i assms(4,5)] and sd = shapeD [OF team_invD(1) [OF inv]] and h = free_head [OF i]
    let ?n = "team_size n s'" and ?s1 = "begun p (cur r live p) fn data (team_size n s') t s'"
    have "unat (idle_cores s') < 2 ^ 31 - 1" using free_count(2) [OF inv] sd(2) by simp
    then have b: "team_begin p fn data n s' = Some (t, of_nat ?n, ?s1)"
      using team_begin_eq assms(5) h(1,5) sd(3) team_invD(8) [OF inv assms(4)] by simp
    have "taken_cores np ?n ?s1 = taken_cores np ?n s'" by (simp add: taken_cores_def free_cores_def)
    then show ?thesis using st(1) b team_miss_eq [OF st(2) taken_facts(5) [OF i st(2,3)] sd(2), of p t ?s1] by (simp add: started_def)
  qed
qed

text \<open>The open regions determine the thread pool, the count of idle cores and the teams of all cores in use.\<close>

lemma inv_determines:
  assumes i1: "team_inv np r f1 live s1" and i2: "team_inv np r f2 live s2"
  shows "thread_pool s2 = thread_pool s1 \<and> idle_cores s2 = idle_cores s1 \<and> (\<forall>q \<in> used live. gomp_get_curr_team q s2 = gomp_get_curr_team q s1)"
proof -
  have "thread_pool s2 = thread_pool s1"
    using team_invD(5) [OF i1] team_invD(5) [OF i2] by (intro bit_word_eqI) simp
  moreover have "idle_cores s2 = idle_cores s1"
    using team_invD(7) [OF i1] team_invD(7) [OF i2] by (simp add: word_unat_eq_iff)
  moreover have "\<forall>q \<in> used live. gomp_get_curr_team q s2 = gomp_get_curr_team q s1"
    using team_invD(8) [OF i1] team_invD(8) [OF i2] by (simp add: gomp_get_curr_team_def)
  ultimately show ?thesis by blast
qed

lemma end_eq:
  assumes inv: "team_inv np r free live s" and c: "can_end r live t m S"
  shows "\<exists>s'. GOMP_parallel_end m s = Some (of_nat t, s') \<and> gomp_team_end m s = Some s'"
proof -
  have x: "(t, m, S) \<in> set live" "cur r live m = t" using c by (auto simp: can_end_def)
  have "m \<in> used live" using master_used [OF team_invD(9) [OF inv] x(1)] by simp
  then have ct: "curr_team s ! m = Some t" using team_invD(8) [OF inv] x(2) by simp
  obtain w where w: "work_share (team_pool s ! t) ! m = Some w"
    using team_invD(10) [OF inv x(1)] by (auto simp: desc_ok_def Let_def)
  have "t < 4" using x(1) team_invD(4) [OF inv] by force
  then have "barrier_id (team_pool s ! t) = of_nat t" by (rule shapeD(5) [OF team_invD(1) [OF inv]])
  then show ?thesis using team_end_eq [OF ct w] ct by (simp add: GOMP_parallel_end_def gomp_get_curr_team_def)
qed


text \<open>C7: From the start of the runtime to the constructs of a parallel region: once core 0 has forked a region and its slaves have entered
  it, every schedule of the calls of its cores goes through, and the iterations of each construct are handed out in order, none twice and none left out.\<close>

theorem gomp_parallel_shares_work:
  assumes "memory_ok np s0" "distinct (l1_heap s0)" "omp_boot np s0 = Some (r, s1)" "0 \<le> n"
    and "gomp_team_start np 0 fn data n s1 = Some (t, s2)" "set qs = slaves t 0 s2" "set ps \<subseteq> insert 0 (slaves t 0 s2)"
    and "\<forall>con \<in> set prog. construct_ok con" "length prog \<le> 2 + length (l1_heap s0)"
  shows "\<exists>r. gomp_exec prog ps (region_start (fold (\<lambda>q. gomp_init_thread q t) qs s2)) = Some r \<and>
    (\<forall>k < length prog. \<exists>rest. given (prog ! k) (handed (g_log r) (Suc k)) @ rest = items (prog ! k) \<and>
       (\<forall>p \<in> insert 0 (slaves t 0 s2). told_done (g_phase r p) (Suc k) \<longrightarrow> rest = []))"
proof -
  have inv: "team_inv np r [2, 1, 0] [] s1" using omp_boot_inv [OF assms(1)] assms(3) by auto
  have p: "0 \<in> used []" by simp
  note st = team_start_eq [OF inv p assms(4)]
  have t: "t = 2" and s2: "s2 = started np 0 (cur r [] 0) fn data (team_size n s1) 2 s1" using st(1) assms(5) by simp_all
  have sl: "slaves t 0 s2 = set (taken_cores np (team_size n s1) s1)" unfolding t s2 by (rule started_slaves [OF inv p st(2,3)])
  note ws = boot_ws_pool [OF assms(1-3)]
  have "team_started 2 (insert 0 (set qs)) [Desc 1, Desc 0] (fold (\<lambda>q. gomp_init_thread q 2) qs s2)"
    unfolding s2 by (rule fork_team_started [OF inv p st(2,3) ws(1)]) (use ws(3) assms(6) sl in simp_all)
  then have ok: "reg_ok prog 2 (insert 0 (slaves t 0 s2)) (2 + length (l1_heap s0)) (region_start (fold (\<lambda>q. gomp_init_thread q t) qs s2))"
    using region_start_ok [of 2 _ "[Desc 1, Desc 0]"] ws(2) assms(6) by (fastforce simp: t init_threads_heap s2 started_ws)
  obtain r' where r': "gomp_exec prog ps (region_start (fold (\<lambda>q. gomp_init_thread q t) qs s2)) = Some r'"
    "reg_ok prog 2 (insert 0 (slaves t 0 s2)) (2 + length (l1_heap s0)) r'"
    using gomp_exec_ok [OF ok assms(7-9)] by blast
  then show ?thesis using handed_prefix [OF r'(2)] by blast
qed

subsection \<open>A concrete run\<close>

text \<open>A cluster of four cores boots, core 0 forks a region of two and joins it.\<close>

lemma ex_memory: "memory_ok 4 ex_gomp" "distinct (l1_heap ex_gomp)" "l1_heap ex_gomp = [7]"
  by (simp_all add: memory_ok_def hw_consts ex_gomp_def ex_team_def gomp_ws_pool_init_def numeral_2_eq_2 upd_ws_def less_Suc_eq numeral_eq_Suc)

lemma ex_fork_join:
  obtains s s1 s2 where "omp_boot 4 ex_gomp = Some (3, s)" "team_size 2 s = 2" "gomp_team_start 4 0 7 9 2 s = Some (2, s1)"
    "gomp_team_end 0 s1 = Some s2" "team_step 4 3 (s, []) (s1, [(2, 0, slaves 2 0 s1)])" "team_step 4 3 (s1, [(2, 0, slaves 2 0 s1)]) (s2, [])"
proof -
  obtain s where b: "omp_boot 4 ex_gomp = Some (3, s)" "team_inv 4 3 [2, 1, 0] [] s"
    using omp_boot_inv [OF ex_memory(1)] by blast
  have "unat (idle_cores s) = 3" using team_invD(7) [OF b(2)] by simp
  then have size: "team_size 2 s = 2" by (simp add: team_size_def)
  note st = team_start_eq [OF b(2), of 0 2]
  then obtain s1 where s1: "gomp_team_start 4 0 7 9 2 s = Some (2, s1)" by simp
  have f: "team_step 4 3 (s, []) (s1, [(2, 0, slaves 2 0 s1)])" by (rule team_step.fork [OF _ _ s1]) simp_all
  obtain free where inv: "team_inv 4 3 free [(2, 0, slaves 2 0 s1)] s1" using step_inv [OF f b(2)] by blast
  have "curr_team s1 ! 0 = Some 2" using team_invD(8) [OF inv, of 0] by simp
  moreover have "work_share (team_pool s1 ! 2) ! 0 \<noteq> None" using team_invD(10) [OF inv] by (simp add: desc_ok_def Let_def)
  ultimately obtain s2 where s2: "gomp_team_end 0 s1 = Some s2" using team_end_eq by blast
  have "close_region 2 [(2, 0, slaves 2 0 s1)] = []" by (simp add: close_region_def)
  then have "team_step 4 3 (s1, [(2, 0, slaves 2 0 s1)]) (s2, [])"
    using team_step.join [of 3 "[(2, 0, slaves 2 0 s1)]" 2 0 "slaves 2 0 s1", OF _ s2] by (simp add: can_end_def)
  then show thesis using that b(1) size s1 s2 f by blast
qed

theorem gomp_regions_isolated_witness:
  "\<exists>s s1. omp_boot 4 ex_gomp = Some (3, s) \<and> gomp_team_start 4 0 7 9 2 s = Some (2, s1) \<and>
    unat (idle_cores s1) + card (used [(2, 0, slaves 2 0 s1)]) = 4 \<and> 0 \<notin> slaves 2 0 s1 \<and>
    bij_betw (\<lambda>j. unat (thread_ids (team_pool s1 ! 2) ! j)) (insert 0 (slaves 2 0 s1)) {..card (slaves 2 0 s1)}"
proof -
  obtain s s1 s2 where e: "omp_boot 4 ex_gomp = Some (3, s)" "gomp_team_start 4 0 7 9 2 s = Some (2, s1)"
    "team_step 4 3 (s, []) (s1, [(2, 0, slaves 2 0 s1)])" by (rule ex_fork_join)
  have "team_run 4 3 (s, []) (s1, [(2, 0, slaves 2 0 s1)])" by (rule team_run.step [OF team_run.refl e(3)])
  then show ?thesis using gomp_regions_isolated [OF ex_memory(1) e(1)] e(1,2) by (force simp: Let_def)
qed

theorem gomp_fork_spec_witness:
  "\<exists>s t s1. omp_boot 4 ex_gomp = Some (3, s) \<and> gomp_team_start 4 0 7 9 2 s = Some (t, s1) \<and> card (slaves t 0 s1) = 1 \<and>
    omp_get_num_threads 0 s1 = Some 2 \<and> omp_get_thread_num 0 s1 = Some 0"
proof -
  obtain s s1 s2 where e: "omp_boot 4 ex_gomp = Some (3, s)" "team_size 2 s = 2" by (rule ex_fork_join)
  show ?thesis using gomp_fork_spec [OF ex_memory(1) e(1) team_run.refl, of 0 2 7 9] e by auto
qed

theorem gomp_reuse_is_search_witness:
  "\<exists>s t s1. omp_boot 4 ex_gomp = Some (3, s) \<and> gomp_team_start 4 0 7 9 2 s = Some (t, s1) \<and>
    Some (t, s1) = map_option (\<lambda>(t, num, s1). (t, team_commit 0 t (team_miss 4 0 t num s1))) (team_begin 0 7 9 2 s)"
proof -
  obtain s s1 s2 where e: "omp_boot 4 ex_gomp = Some (3, s)" "gomp_team_start 4 0 7 9 2 s = Some (2, s1)" by (rule ex_fork_join)
  show ?thesis using gomp_reuse_is_search [OF ex_memory(1) e(1) team_run.refl, of 0 2 7 9] e by (intro exI [of _ s] exI [of _ 2] exI [of _ s1]) simp
qed


theorem gomp_parallel_shares_work_witness:
  "\<exists>s s1 qs r. omp_boot 4 ex_gomp = Some (3, s) \<and> gomp_team_start 4 0 7 9 2 s = Some (2, s1) \<and> set qs = slaves 2 0 s1 \<and>
    gomp_exec ex_prog (0 # qs @ [0, 0] @ qs) (region_start (fold (\<lambda>q. gomp_init_thread q 2) qs s1)) = Some r \<and>
    (\<forall>k < length ex_prog. \<exists>rest. given (ex_prog ! k) (handed (g_log r) (Suc k)) @ rest = items (ex_prog ! k) \<and>
       (\<forall>p \<in> insert 0 (slaves 2 0 s1). told_done (g_phase r p) (Suc k) \<longrightarrow> rest = []))"
proof -
  obtain s s1 s2 where e: "omp_boot 4 ex_gomp = Some (3, s)" "gomp_team_start 4 0 7 9 2 s = Some (2, s1)" by (rule ex_fork_join)
  have "finite (slaves 2 0 s1)" by (simp add: slaves_def)
  then obtain qs where qs: "set qs = slaves 2 0 s1" using finite_list by blast
  have len: "length ex_prog \<le> 2 + length (l1_heap ex_gomp)" by (simp add: ex_prog_def ex_memory(3))
  show ?thesis
    using gomp_parallel_shares_work [OF ex_memory(1,2) e(1) _ e(2) qs _ ex_prog_ok(1) len, of "0 # qs @ [0, 0] @ qs"] e qs by auto
qed

end
