(* ===== verification/Spec2Isabelle.thy ===== *)
theory Spec2Isabelle
  imports Drv_Mbox Drv_Dma Drv_Rab_Wf Drv_Rab_L2 Omp_Rt Kmp_Atomic Vmm_Riscv64 Ptw_Arm64 Ptw_Arm Hero_Perf Hero_Dma Rt_Alloc Gomp_Run
begin

text \<open>
  A verification of the C runtime of HERO, a heterogeneous computer in which a PULP many-core accelerator works on
  the virtual memory of a Linux host. The cores of the accelerator reach main memory only through the remapping
  address block (RAB), an IOMMU with two TLB levels that software fills. All paths below are relative to
  \<open>src/\<close>.

  \<^bold>\<open>The parts of the program and how they interact.\<close>

  The RAB can be managed from two sides, and both are modelled down to the registers they write.

  \<^item> On the accelerator, \<open>libvmm\<close> (\<open>pulp/sdk/runtime/libvmm/src/vmm.c\<close>) translates virtual addresses itself. Its
    \<open>map_page\<close>, \<open>map_pages\<close> and \<open>handle_rab_misses\<close> walk the page tables of the host
    (\<open>arch/{riscv64,arm64,arm}/pgtable_walk.c\<close>, over the formats of \<open>archi-host\<close>). A walk reads the tables in main
    memory through slices of the RAB that it configures on the way (\<open>hal/rab/rab_v1.h\<close>), so the walk
    is also a client of what it manages.
  \<^item> On the host, the driver (\<open>support/pulp-driver\<close>) pins user pages and builds lists of segments (\<open>pulp_mem.c\<close>),
    maps the segments to slices and pages (\<open>pulp_rab.c\<close>), serves RAB misses in an interrupt handler, rotates striped
    mappings when the accelerator asks for the next stripe through the mailbox (\<open>pulp_mbox.c\<close>), and copies between
    user pages and the accelerator with a DMA engine (\<open>pulp_dma.c\<close>).

  Programs on the accelerator use the allocator of the PULP runtime (\<open>pulp-rt/kernel/alloc.c\<close>), the OpenMP runtime
  (\<open>pulp-rt/include/omp.h\<close>, \<open>libs/omp\<close>, entered by compiled code through \<open>libomptarget-pulp-rtl/kmp.c\<close>, or, for code
  compiled with GCC, \<open>libgomp\<close>, which also nests regions) and \<open>libhero-target\<close> (performance counters, DMA transfers, atomic
  operations).

  \<^bold>\<open>Accelerator: virtual memory.\<close>

  \<^item> \<open>Pgtable\<close>: the page-table formats of \<open>archi-host\<close>; \<open>virt_addr2pfn\<close>, \<open>page_addr\<close> and the lemmas that read them as
    division and remainder.
  \<^item> \<open>Rab_Hal\<close>: the RAB HAL. A run of register writes is the list of (address, value) pairs the code stores, in order;
    hardware state is what such a list leaves behind. The locale \<open>phys_addr_codec\<close> is what the HAL needs of a
    physical address type; it is interpreted for the three hosts (\<open>rv64_pa\<close>, \<open>arm64_pa\<close>, \<open>arm_pa\<close>).
  \<^item> \<open>Ptw\<close>: what the walks share: the locale \<open>rab_bus\<close>, a load that goes through the slices (\<open>bus_load\<close>
    computes it from the slices and a memory). \<open>Ptw_Riscv64\<close>, \<open>Ptw_Arm64\<close>, \<open>Ptw_Arm\<close>: the three
    walks, each with an abstract specification of the architecture's translation (Sv39, VMSAv8-64 with 4 KiB pages, short
    descriptors) that does not know of slices; the walk refines it, and its frame on the slices is proved.
    The locales \<open>rab_hw\<close>, \<open>arm64_rab\<close> and \<open>arm_rab\<close> extend \<open>rab_bus\<close> with the pointer width of the host.
  \<^item> \<open>Vmm\<close>: \<open>vmm.c\<close> over a walk that is a record of functions (\<open>vmm_arch\<close>). The locale \<open>vmm_walker\<close> states what
    the library needs of a walk; its lemmas (invariant, ranges, FIFO order of the second level, draining of the miss FIFO) are proved
    once. Sublocales \<open>rv64_host\<close>, \<open>arm64_host\<close>, \<open>arm_host\<close> and the interpretations \<open>rv64_ram\<close>,
    \<open>arm64_ram\<close>, \<open>arm_ram\<close> give them for the modelled walks. \<open>vmm_reachable\<close> is the step relation of the library's
    operations; \<open>Vmm_Riscv64\<close> holds its properties on a RISC-V host.

  \<^bold>\<open>Accelerator: runtime.\<close>

  \<^item> \<open>Hero_Perf\<close>: the allocation of hardware performance counters; \<open>perf_reachable\<close> runs the API with counters
    counting in between, the locale \<open>hpm_hw\<close> is what a measurement needs of the counters (interpretation \<open>hpm\<close>).
  \<^item> \<open>Hero_Dma\<close>: transfers and atomics of \<open>libhero-target\<close>. The DMA registers and the completion counter are inputs.
  \<^item> \<open>Rt_Alloc\<close>: \<open>alloc.c\<close>. The free list lies in the free memory itself (\<open>rt_alloc_t\<close> holds that memory); lists of
    chunks with \<open>la_alloc\<close>, \<open>la_free\<close> are the abstract allocator that the pointer code refines. \<open>alloc_run\<close>
    interleaves allocation, writes into blocks and releases.
  \<^item> \<open>Omp_Rt\<close>: teams, barriers, sections, single, dynamic and static loops. The critical sections of the code
    are the atomic steps; a run is any sequence of (core, step) pairs.
  \<^item> \<open>Gomp_Data\<close>: the descriptors of \<open>libgomp\<close> and their pools (\<open>libgomp_globals.h\<close>, parts of \<open>work.c\<close> and \<open>team.c\<close>).
    \<open>Gomp_Work\<close>: the work-sharing functions (\<open>work.c\<close>, \<open>iter.c\<close>, \<open>loop.c\<close>, \<open>sections.c\<close>, \<open>single.c\<close>) and the invariant of
    the chain of work shares (\<open>chain_ok\<close>). \<open>Gomp_Region\<close>: a team that executes a list of constructs (\<open>gomp_exec\<close>).
    \<open>Gomp_Team\<close>: fork and join (\<open>team.c\<close>, \<open>parallel.c\<close>, \<open>omp_initenv\<close> and the start of \<open>omp_SPMD_worker\<close> in \<open>libgomp.c\<close>) with the
    invariant \<open>team_inv\<close> over the open regions. \<open>Gomp_Run\<close>: runs of forks, joins and calls (\<open>team_run\<close>), and the composition of
    a fork with the constructs of its region. The functions between a lock and its release are atomic steps; the barriers
    are the condition under which a region may end (\<open>can_end\<close>).
  \<^item> \<open>Kmp_Atomic\<close>: the atomic operations of \<open>kmp.c\<close> on a byte memory.

  \<^bold>\<open>Host: the driver.\<close>

  \<^item> \<open>Drv_Mem\<close>: pages, bit fields and segments. \<open>sg_spec\<close> is the specification of the list of segments.
  \<^item> \<open>Drv_Rab\<close>: slices of the first level, both mappings of port 1, the register writes; \<open>Drv_Rab_Req\<close>: \<open>pulp_rab_req\<close>
    and \<open>pulp_rab_free\<close>; \<open>Drv_Rab_Inv\<close>: the invariant of the tables (\<open>m_ok\<close>) and its preservation;
    \<open>Drv_Rab_Free\<close>: release by date and the relation \<open>rab_reachable\<close>.
  \<^item> \<open>Drv_Rab_Mh\<close>: the FIFO of misses and the two miss handlers; \<open>Drv_Rab_L2\<close>: the second level and \<open>l2_reachable\<close>.
  \<^item> \<open>Drv_Rab_Stripe\<close>: striped requests, \<open>pulp_rab_update\<close> and \<open>pulp_rab_switch\<close>; \<open>Drv_Rab_Release\<close>: their release;
    \<open>Drv_Rab_Wf\<close>: when a striped request succeeds and that it establishes what updates and release assume.
  \<^item> \<open>Drv_Mbox\<close>: the mailbox: the interrupt handler, the ring buffer and the readers as a relation \<open>mbox_run\<close>
    over words that arrive, passes of the handler's loop and the two halves of a read. The locale \<open>bounded_queue\<close> states what
    the properties need of the ring (interpretation \<open>mb\<close>). The commands it hands on are those of \<open>Drv_Rab_Stripe\<close>.
  \<^item> \<open>Drv_Dma\<close>: DMA transfers over the segments of \<open>Drv_Mem\<close>.

  \<open>Prelude\<close> holds the errno values, the collections of rules and the lemmas on words and lists that the theories share.

  \<^bold>\<open>How the code is translated.\<close>

  \<^item> Unsigned and register types are words of their width; \<open>int\<close> values that can be negative are \<open>32 word\<close> read with
    \<open>sint\<close>, or \<open>int\<close> with \<open>i32\<close> where they may overflow. Error codes are the negative errno values.
  \<^item> \<open>None\<close> stands for undefined behaviour (an access out of the bounds of an array, a null pointer, an uninitialised
    variable), for \<open>abort\<close>, and, for \<open>partial_function\<close>, for a loop that does not end. A property that something returns
    says \<open>Some\<close>.
  \<^item> Fuel is used where the number of passes is not bounded by the code: the polling loops take the list of values that the hardware
    register shows in successive reads, and a property about them says from which read on they return. The readers of
    the mailbox take the number of reads, and \<open>length arrived\<close> many are shown to be enough.
  \<^item> Parameters, with what they return left open: \<open>get_user_pages\<close> and its variants, \<open>kmalloc\<close>, copies from and to user space,
    the mapping of pages to physical addresses, the DMA engine's descriptors, hardware registers that are read, and the contents of main memory.
    Hypotheses on them state what their documentation promises (as many pages as the range has, page-aligned addresses).
  \<^item> The driver is modelled for the platform ZYNQMP, the accelerator for the cluster of that board; constants that depend on it
    are definitions at the beginning of the theories. Interrupt handlers and system calls are atomic steps except where the
    code drops its lock (mailbox readers), and critical sections of the OpenMP runtime are atomic.

  \<^bold>\<open>What the theorems show.\<close>

  The claims carry ids C1 and so on, the most important first. In groups: address translation is right, on every path by which the RAB is filled (C1,
  C2, and those on \<open>map_sg\<close>, stripes, misses, walks and the HAL); every page the driver pins is unpinned exactly once
  (release by date, striped release, eviction from the second level, DMA); tables and registers agree whatever sequence of operations runs
  (the invariants over the reachable states); mailbox words arrive once and in order; the allocator's blocks
  are disjoint, exact, and merge again; work is shared exactly once; parallel regions never share a core and give everything back; counters and atomics do what they promise. Theorems
  whose text speaks of an error show behaviour that the code should not have; they are kept because the other theorems'
  hypotheses exclude exactly these cases.

  \<^bold>\<open>Not modelled.\<close>

  \<^item> \<open>pulp_module.c\<close> (dispatch of system calls, module load, registration of interrupts), \<open>pulp_ctrl.c\<close>, \<open>pulp_smmu.c\<close>,
    \<open>pulp_cache.S\<close>, \<open>pulp_profile.c\<close>: calls into the kernel and register set-up around the modelled parts.
  \<^item> In \<open>pulp_rab.c\<close>: \<open>pulp_rab_soc_mh_ena_static_2nd_level\<close> and the second-level branch of \<open>pulp_rab_req\<close>, which no
    caller reaches, statistics and debug output.
  \<^item> \<open>libpulp\<close>: device-file I/O on the host around the driver. In \<open>libomptarget-pulp-rtl\<close>: entry points that
    only abort as not implemented, and the loop that takes offload requests from the mailbox registers (\<open>main.c\<close>).
  \<^item> \<open>libgomp\<close>: event-unit registers, spin locks, the loop in which slaves wait for work, offloading.
  \<^item> \<open>pulp-rt\<close>: the allocator for external memory (\<open>alloc_extern.c\<close>), events, threads, bridge and drivers of peripherals, which are register glue for chips other than this one.
  \<^item> Hardware, simulation and build files, examples with their vendored code.
\<close>

end
